(* ===== verification/Prelude.thy ===== *)
theory Prelude
  imports "HOL-Library.Word" "HOL-Library.Signed_Division"
begin

unbundle bit_operations_syntax

text \<open>
  Shared vocabulary of the development: the machine integer types of the C sources, the
  faults a C operation can run into, little-endian byte composition, and the generic lemmas on
  words and lists that the component theories use.
\<close>

section \<open>Machine integers and bytes\<close>

type_synonym u8 = "8 word"
type_synonym u16 = "16 word"
type_synonym u32 = "32 word"
type_synonym u64 = "64 word"
type_synonym bytes = "u8 list"

text \<open>
  A C operation that leaves the defined behaviour of the language (a failed assertion, a write
  or read outside an object, a call through or a store to a null pointer) is an \<open>Inl\<close> of a
  fault; an ordinary error code is an ordinary \<open>Inr\<close> result.
\<close>

datatype fault = AssertFailed | BufferOverrun | NullPointer | DoubleFree | Uninitialised

type_synonym 'a result = "fault + 'a"

named_theorems list_facts \<open>facts on take, drop and list updates shared by the buffer models\<close>
named_theorems word_facts \<open>facts on machine words shared by the protocol models\<close>

section \<open>Little-endian composition\<close>

definition u16_le :: "u8 \<Rightarrow> u8 \<Rightarrow> u16" where
  "u16_le a b = ucast a OR push_bit 8 (ucast b)"

definition u32_le :: "u8 \<Rightarrow> u8 \<Rightarrow> u8 \<Rightarrow> u8 \<Rightarrow> u32" where
  "u32_le a b c d = ucast a OR push_bit 8 (ucast b) OR push_bit 16 (ucast c) OR push_bit 24 (ucast d)"

definition byte_of :: "'a::len word \<Rightarrow> nat \<Rightarrow> u8" where
  "byte_of w i = ucast (drop_bit (8 * i) w)"

lemma u16_le_byte_of [simp]: "u16_le (byte_of w 0) (byte_of w 1) = w"
  unfolding u16_le_def byte_of_def
  by (rule bit_word_eqI) (auto simp: bit_simps)

lemma u32_le_byte_of [simp]:
  "u32_le (byte_of w 0) (byte_of w 1) (byte_of w 2) (byte_of w 3) = w"
proof (rule bit_word_eqI)
  fix n assume "n < LENGTH(32)"
  then have "n < 8 \<or> 8 \<le> n \<and> n < 16 \<or> 16 \<le> n \<and> n < 24 \<or> 24 \<le> n \<and> n < 32"
    by simp arith
  then show "bit (u32_le (byte_of w 0) (byte_of w 1) (byte_of w 2) (byte_of w 3)) n = bit w n"
    unfolding u32_le_def byte_of_def by (elim disjE) (auto simp: bit_simps)
qed

section \<open>Signed reading and wrapping distance of 32-bit words\<close>

lemma sint_u32: "sint (w :: u32) = (if uint w < 2 ^ 31 then uint w else uint w - 2 ^ 32)"
proof -
  have b: "0 \<le> uint w" "uint w < 4294967296"
    using uint_lt2p [of w] by simp_all
  have e: "sint w = (uint w + 2147483648) mod 4294967296 - 2147483648"
    by (simp add: sint_uint signed_take_bit_eq_take_bit_shift take_bit_eq_mod)
  show ?thesis
  proof (cases "uint w < 2147483648")
    case True
    then have "(uint w + 2147483648) mod 4294967296 = uint w + 2147483648"
      using b by (intro mod_pos_pos_trivial) simp_all
    with e True show ?thesis by simp
  next
    case False
    have "(uint w + 2147483648) mod 4294967296 = (uint w - 2147483648 + 4294967296) mod 4294967296"
      by (simp add: add.commute)
    also have "\<dots> = uint w - 2147483648"
      using b False by (simp only: mod_add_self2) (intro mod_pos_pos_trivial, simp_all)
    finally show ?thesis using e False by simp
  qed
qed

lemma sint_u32_unat: "sint (w :: u32) = (if unat w < 2 ^ 31 then int (unat w) else int (unat w) - 2 ^ 32)"
proof -
  have "uint w = int (unat w)" by simp
  then show ?thesis unfolding sint_u32 by (simp only:) (simp del: of_nat_unat)
qed

text \<open>Distances are natural numbers here, so the conversion to \<open>uint\<close> is not a default rule.\<close>

declare of_nat_unat [simp del]

lemma unat_u32_bound: "unat (w :: u32) < 2 ^ 32"
  using unsigned_less [of w, where 'a = nat] by simp

lemma unat_sub_u32:
  "unat (a - b :: u32) = (if unat b \<le> unat a then unat a - unat b else 2 ^ 32 + unat a - unat b)"
  using unat_u32_bound [of a] unat_u32_bound [of b]
  by (auto simp: unat_sub_if_size word_size)

lemma unat_add_u32: "unat a + unat b < 2 ^ 32 \<Longrightarrow> unat (a + b :: u32) = unat a + unat b"
  by (simp add: unat_word_ariths)

lemma unat_ucast_u16: "unat (ucast (w :: u16) :: u32) = unat w"
proof -
  have "unat w < 2 ^ 16" using unsigned_less [of w, where 'a = nat] by simp
  then show ?thesis by (simp add: unsigned_ucast_eq take_bit_nat_eq_self)
qed

lemma unat_ucast_u8: "unat (ucast (w :: u8) :: u32) = unat w"
proof -
  have "unat w < 2 ^ 8" using unsigned_less [of w, where 'a = nat] by simp
  then show ?thesis by (simp add: unsigned_ucast_eq take_bit_nat_eq_self)
qed

lemma xor_zero_iff: "(a XOR b :: u8) = 0 \<longleftrightarrow> a = b"
proof
  assume "a XOR b = 0"
  then have "(a XOR b) XOR b = 0 XOR b" by simp
  then show "a = b" by (simp add: xor.assoc)
qed simp

lemma length_le_concat: "d \<in> set ds \<Longrightarrow> length d \<le> length (concat ds)"
  by (induction ds) auto

lemma unat_word_of_nat_u32: "i < 2 ^ 32 \<Longrightarrow> unat (word_of_nat i :: u32) = i"
  by (simp add: unat_of_nat)

lemma word_of_nat_u32_inj: "(word_of_nat i :: u32) = word_of_nat j \<Longrightarrow> i < 2 ^ 32 \<Longrightarrow> j < 2 ^ 32 \<Longrightarrow> i = j"
  by (metis unat_word_of_nat_u32)

lemma unat_word_of_int_u32: "0 \<le> i \<Longrightarrow> i < 2 ^ 32 \<Longrightarrow> unat (word_of_int i :: u32) = nat i"
  by (simp add: unat_eq_nat_uint uint_word_of_int_eq take_bit_int_eq_self)

end
