(* ===== verification/Kcp_Wire.thy ===== *)
theory Kcp_Wire
  imports Prelude
begin

text \<open>
  The KCP wire format of \<open>ikcp/ikcp.c\<close>: the little-endian integer codecs, the 24-byte segment
  header written by \<open>ikcp_encode_seg\<close> and read by the loop of \<open>ikcp_input\<close>, and the wrapping
  clock comparison \<open>_itimediff\<close>. An encoder appends to the bytes already written before the
  pointer it is given; a decoder returns the value and the bytes after the pointer it returns, and
  is \<open>None\<close> where the C code would read past the end of the datagram.
\<close>

section \<open>Constants\<close>

definition IKCP_RTO_NDL :: u32 where "IKCP_RTO_NDL = 30"
definition IKCP_RTO_MIN :: u32 where "IKCP_RTO_MIN = 100"
definition IKCP_RTO_DEF :: u32 where "IKCP_RTO_DEF = 200"
definition IKCP_RTO_MAX :: u32 where "IKCP_RTO_MAX = 60000"
definition IKCP_CMD_PUSH :: u32 where "IKCP_CMD_PUSH = 81"
definition IKCP_CMD_ACK :: u32 where "IKCP_CMD_ACK = 82"
definition IKCP_CMD_WASK :: u32 where "IKCP_CMD_WASK = 83"
definition IKCP_CMD_WINS :: u32 where "IKCP_CMD_WINS = 84"
definition IKCP_ASK_SEND :: u32 where "IKCP_ASK_SEND = 1"
definition IKCP_ASK_TELL :: u32 where "IKCP_ASK_TELL = 2"
definition IKCP_WND_SND :: u32 where "IKCP_WND_SND = 32"
definition IKCP_WND_RCV :: u32 where "IKCP_WND_RCV = 32"
definition IKCP_MTU_DEF :: u32 where "IKCP_MTU_DEF = 1400"
definition IKCP_INTERVAL :: u32 where "IKCP_INTERVAL = 100"
definition IKCP_OVERHEAD :: u32 where "IKCP_OVERHEAD = 24"
definition IKCP_DEADLINK :: u32 where "IKCP_DEADLINK = 20"
definition IKCP_THRESH_INIT :: u32 where "IKCP_THRESH_INIT = 2"
definition IKCP_THRESH_MIN :: u32 where "IKCP_THRESH_MIN = 2"
definition IKCP_PROBE_INIT :: u32 where "IKCP_PROBE_INIT = 7000"
definition IKCP_PROBE_LIMIT :: u32 where "IKCP_PROBE_LIMIT = 120000"

lemmas ikcp_consts =
  IKCP_RTO_NDL_def IKCP_RTO_MIN_def IKCP_RTO_DEF_def IKCP_RTO_MAX_def
  IKCP_CMD_PUSH_def IKCP_CMD_ACK_def IKCP_CMD_WASK_def IKCP_CMD_WINS_def
  IKCP_ASK_SEND_def IKCP_ASK_TELL_def IKCP_WND_SND_def IKCP_WND_RCV_def
  IKCP_MTU_DEF_def IKCP_INTERVAL_def IKCP_OVERHEAD_def IKCP_DEADLINK_def
  IKCP_THRESH_INIT_def IKCP_THRESH_MIN_def IKCP_PROBE_INIT_def IKCP_PROBE_LIMIT_def

section \<open>Helpers of the C file\<close>

definition imin :: "u32 \<Rightarrow> u32 \<Rightarrow> u32" where
  "imin a b = (if a \<le> b then a else b)"

definition imax :: "u32 \<Rightarrow> u32 \<Rightarrow> u32" where
  "imax a b = (if a \<ge> b then a else b)"

definition ibound :: "u32 \<Rightarrow> u32 \<Rightarrow> u32 \<Rightarrow> u32" where
  "ibound lower middle upper = imin (imax lower middle) upper"

definition itimediff :: "u32 \<Rightarrow> u32 \<Rightarrow> int" where
  "itimediff later earlier = sint (later - earlier)"

lemma itimediff_self [simp]: "itimediff a a = 0"
  by (simp add: itimediff_def)

lemma itimediff_range: "- (2 ^ 31) \<le> itimediff a b" "itimediff a b < 2 ^ 31"
  using sint_greater_eq [of "a - b"] sint_lt [of "a - b"] by (simp_all add: itimediff_def)

text \<open>Below half the range, the difference is the plain distance of the counters.\<close>

lemma itimediff_nonneg_iff: "0 \<le> itimediff a b \<longleftrightarrow> unat (a - b) < 2 ^ 31"
  using unat_u32_bound [of "a - b"] by (auto simp: itimediff_def sint_u32_unat)

lemma itimediff_pos_iff: "0 < itimediff a b \<longleftrightarrow> a \<noteq> b \<and> unat (a - b) < 2 ^ 31"
  using unat_u32_bound [of "a - b"]
  unat_eq_zero [of "a - b"]
  by (auto simp: itimediff_def sint_u32_unat)

lemma itimediff_nat: "unat (a - b) < 2 ^ 31 \<Longrightarrow> itimediff a b = int (unat (a - b))"
  by (simp add: itimediff_def sint_u32_unat)

text \<open>
  Two counters whose distances from a common base are both below half the range are compared
  by their distances: this is why the window comparisons survive the wrap of the counter.
\<close>

lemma itimediff_from_base:
  assumes "unat (a - base) < 2 ^ 31" "unat (b - base) < 2 ^ 31"
  shows "itimediff a b = int (unat (a - base)) - int (unat (b - base))"
proof -
  have d: "a - b = (a - base) - (b - base)" by simp
  show ?thesis
    unfolding itimediff_def d sint_u32_unat
    using assms unat_u32_bound [of a] unat_u32_bound [of b] unat_u32_bound [of base]
    by (auto simp: unat_sub_u32)
qed

section \<open>Integer codecs\<close>

definition ikcp_encode8u :: "bytes \<Rightarrow> u8 \<Rightarrow> bytes" where
  "ikcp_encode8u p c = p @ [c]"

definition ikcp_encode16u :: "bytes \<Rightarrow> u16 \<Rightarrow> bytes" where
  "ikcp_encode16u p w = p @ [byte_of w 0, byte_of w 1]"

definition ikcp_encode32u :: "bytes \<Rightarrow> u32 \<Rightarrow> bytes" where
  "ikcp_encode32u p l = p @ [byte_of l 0, byte_of l 1, byte_of l 2, byte_of l 3]"

fun ikcp_decode8u :: "bytes \<Rightarrow> (u8 \<times> bytes) option" where
  "ikcp_decode8u (a # p) = Some (a, p)"
| "ikcp_decode8u _ = None"

fun ikcp_decode16u :: "bytes \<Rightarrow> (u16 \<times> bytes) option" where
  "ikcp_decode16u (a # b # p) = Some (u16_le a b, p)"
| "ikcp_decode16u _ = None"

fun ikcp_decode32u :: "bytes \<Rightarrow> (u32 \<times> bytes) option" where
  "ikcp_decode32u (a # b # c # d # p) = Some (u32_le a b c d, p)"
| "ikcp_decode32u _ = None"

text \<open>\<open>ikcp_getconv\<close> reads the conversation number at the front of a packet.\<close>

definition ikcp_getconv :: "bytes \<Rightarrow> u32 option" where
  "ikcp_getconv ptr = map_option fst (ikcp_decode32u ptr)"

section \<open>The segment header\<close>

record ikcpseg =
  conv :: u32
  cmd :: u32
  frg :: u32
  wnd :: u32
  ts :: u32
  sn :: u32
  una :: u32
  len :: u32
  resendts :: u32
  rto :: u32
  fastack :: u32
  xmit :: u32
  data :: bytes

definition ikcp_encode_seg :: "bytes \<Rightarrow> ikcpseg \<Rightarrow> bytes" where
  "ikcp_encode_seg ptr seg =
    (let ptr = ikcp_encode32u ptr (conv seg);
         ptr = ikcp_encode8u ptr (ucast (cmd seg));
         ptr = ikcp_encode8u ptr (ucast (frg seg));
         ptr = ikcp_encode16u ptr (ucast (wnd seg));
         ptr = ikcp_encode32u ptr (ts seg);
         ptr = ikcp_encode32u ptr (sn seg);
         ptr = ikcp_encode32u ptr (una seg)
     in ikcp_encode32u ptr (len seg))"

text \<open>The fields the header loop of \<open>ikcp_input\<close> decodes, at the width it decodes them to.\<close>

record wire_hdr =
  h_conv :: u32
  h_cmd :: u8
  h_frg :: u8
  h_wnd :: u16
  h_ts :: u32
  h_sn :: u32
  h_una :: u32
  h_len :: u32

text \<open>
  \<open>ikcp_input\<close> decodes the conversation number first and compares it before it reads on; the
  rest of the header is decoded by \<open>decode_tail\<close>.
\<close>

definition decode_tail :: "u32 \<Rightarrow> bytes \<Rightarrow> (wire_hdr \<times> bytes) option" where
  "decode_tail cv p =
    Option.bind (ikcp_decode8u p) (\<lambda>(cmd, p).
    Option.bind (ikcp_decode8u p) (\<lambda>(frg, p).
    Option.bind (ikcp_decode16u p) (\<lambda>(wnd, p).
    Option.bind (ikcp_decode32u p) (\<lambda>(ts, p).
    Option.bind (ikcp_decode32u p) (\<lambda>(sn, p).
    Option.bind (ikcp_decode32u p) (\<lambda>(una, p).
    Option.bind (ikcp_decode32u p) (\<lambda>(len, p).
      Some (\<lparr>h_conv = cv, h_cmd = cmd, h_frg = frg, h_wnd = wnd, h_ts = ts, h_sn = sn,
             h_una = una, h_len = len\<rparr>, p))))))))"

definition hdr_of :: "ikcpseg \<Rightarrow> wire_hdr" where
  "hdr_of seg = \<lparr>h_conv = conv seg, h_cmd = ucast (cmd seg), h_frg = ucast (frg seg),
     h_wnd = ucast (wnd seg), h_ts = ts seg, h_sn = sn seg, h_una = una seg, h_len = len seg\<rparr>"

lemma decode_encode8u [simp]: "ikcp_decode8u (ikcp_encode8u [] c @ p) = Some (c, p)"
  by (simp add: ikcp_encode8u_def)

lemma decode_encode16u [simp]: "ikcp_decode16u (ikcp_encode16u [] w @ p) = Some (w, p)"
  by (simp add: ikcp_encode16u_def del: One_nat_def)

lemma decode_encode32u [simp]: "ikcp_decode32u (ikcp_encode32u [] l @ p) = Some (l, p)"
  by (simp add: ikcp_encode32u_def del: One_nat_def)

lemma encode_seg_append: "ikcp_encode_seg ptr seg = ptr @ ikcp_encode_seg [] seg"
  by (simp add: ikcp_encode_seg_def ikcp_encode32u_def ikcp_encode16u_def ikcp_encode8u_def Let_def)

lemma length_encode_seg [simp]: "length (ikcp_encode_seg ptr seg) = length ptr + 24"
  by (simp add: ikcp_encode_seg_def ikcp_encode32u_def ikcp_encode16u_def ikcp_encode8u_def Let_def)

lemma encode_seg_parts:
  "ikcp_encode_seg [] seg =
     ikcp_encode32u [] (conv seg) @ ikcp_encode8u [] (ucast (cmd seg)) @
     ikcp_encode8u [] (ucast (frg seg)) @ ikcp_encode16u [] (ucast (wnd seg)) @
     ikcp_encode32u [] (ts seg) @ ikcp_encode32u [] (sn seg) @ ikcp_encode32u [] (una seg) @
     ikcp_encode32u [] (len seg)"
  by (simp add: ikcp_encode_seg_def ikcp_encode32u_def ikcp_encode16u_def ikcp_encode8u_def Let_def)

lemma decode_encode_seg_conv:
  "ikcp_decode32u (ikcp_encode_seg [] seg @ p) =
     Some (conv seg, drop 4 (ikcp_encode_seg [] seg) @ p)"
  by (simp add: encode_seg_parts) (simp add: ikcp_encode32u_def)

lemma decode_encode_seg_tail:
  "decode_tail (conv seg) (drop 4 (ikcp_encode_seg [] seg) @ p) = Some (hdr_of seg, p)"
proof -
  have "drop 4 (ikcp_encode_seg [] seg) @ p =
     ikcp_encode8u [] (ucast (cmd seg)) @ ikcp_encode8u [] (ucast (frg seg)) @
     ikcp_encode16u [] (ucast (wnd seg)) @ ikcp_encode32u [] (ts seg) @ ikcp_encode32u [] (sn seg) @
     ikcp_encode32u [] (una seg) @ ikcp_encode32u [] (len seg) @ p"
    by (simp add: encode_seg_parts) (simp add: ikcp_encode32u_def)
  then show ?thesis by (simp add: decode_tail_def hdr_of_def)
qed

end
