(* ===== verification/Kcp_State.thy ===== *)
theory Kcp_State
  imports Kcp_Wire
begin

text \<open>
  The KCP control block of \<open>ikcp/ikcp.h\<close>, its creation and release, the setters
  (\<open>ikcp_nodelay\<close>, \<open>ikcp_wndsize\<close>, \<open>ikcp_interval\<close>, \<open>ikcp_setmtu\<close>,
  \<open>ikcp_setoutput\<close>) and the invariants every operation keeps. The intrusive queues are lists
  in queue order. A signed 32-bit field (\<open>rx_srtt\<close> and its neighbours) is a 32-bit word read with
  \<open>sint\<close>; a C \<open>int\<close> that is only stored and compared is an \<open>int\<close>. \<open>kcp->buffer\<close> is its
  allocated size, \<open>kcp->acklist\<close> the array itself (the empty list for NULL), and
  \<open>kcp->output\<close> whether a callback is installed. The user pointer and the log mask with its
  callback have no effect on the protocol and are left out.
\<close>

section \<open>The control block\<close>

record ikcpcb =
  kconv :: u32
  mtu :: u32
  mss :: u32
  state :: u32
  snd_una :: u32
  snd_nxt :: u32
  rcv_nxt :: u32
  ts_recent :: u32
  ts_lastack :: u32
  ssthresh :: u32
  rx_rttval :: u32
  rx_srtt :: u32
  rx_rto :: u32
  rx_minrto :: u32
  snd_wnd :: u32
  rcv_wnd :: u32
  rmt_wnd :: u32
  cwnd :: u32
  probe :: u32
  current :: u32
  interval :: u32
  ts_flush :: u32
  kxmit :: u32
  nrcv_buf :: u32
  nsnd_buf :: u32
  nrcv_que :: u32
  nsnd_que :: u32
  nodelay :: u32
  updated :: u32
  ts_probe :: u32
  probe_wait :: u32
  dead_link :: u32
  incr :: u32
  snd_queue :: "ikcpseg list"
  rcv_queue :: "ikcpseg list"
  snd_buf :: "ikcpseg list"
  rcv_buf :: "ikcpseg list"
  acklist :: "u32 list"
  ackcount :: u32
  ackblock :: u32
  buffer_size :: nat
  fastresend :: int
  nocwnd :: int
  stream :: int
  output_set :: bool

text \<open>
  The allocator is an argument: \<open>ok i\<close> says whether the \<open>i\<close>-th allocation of the call
  succeeds. \<open>ikcp_create\<close> allocates the control block, then its output buffer, and frees the
  former again when the latter fails.
\<close>

definition ikcp_create :: "(nat \<Rightarrow> bool) \<Rightarrow> u32 \<Rightarrow> ikcpcb option" where
  "ikcp_create ok cv =
    (if \<not> ok 0 then None
     else if \<not> ok 1 then None
     else Some \<lparr>kconv = cv, mtu = IKCP_MTU_DEF, mss = IKCP_MTU_DEF - IKCP_OVERHEAD, state = 0,
       snd_una = 0, snd_nxt = 0, rcv_nxt = 0, ts_recent = 0, ts_lastack = 0,
       ssthresh = IKCP_THRESH_INIT, rx_rttval = 0, rx_srtt = 0, rx_rto = IKCP_RTO_DEF,
       rx_minrto = IKCP_RTO_MIN, snd_wnd = IKCP_WND_SND, rcv_wnd = IKCP_WND_RCV,
       rmt_wnd = IKCP_WND_RCV, cwnd = 0, probe = 0, current = 0, interval = IKCP_INTERVAL,
       ts_flush = IKCP_INTERVAL, kxmit = 0, nrcv_buf = 0, nsnd_buf = 0, nrcv_que = 0,
       nsnd_que = 0, nodelay = 0, updated = 0, ts_probe = 0, probe_wait = 0,
       dead_link = IKCP_DEADLINK, incr = 0, snd_queue = [], rcv_queue = [], snd_buf = [],
       rcv_buf = [], acklist = [], ackcount = 0, ackblock = 0,
       buffer_size = unat ((IKCP_MTU_DEF + IKCP_OVERHEAD) * 3), fastresend = 0, nocwnd = 0,
       stream = 0, output_set = False\<rparr>)"

text \<open>
  \<open>ikcp_release\<close> unlinks and frees the queues one segment at a time: the result lists the
  segments freed, in order, whether the two arrays were freed, and the control block as it is when
  it is freed itself.
\<close>

fun free_queue :: "ikcpseg list \<Rightarrow> ikcpseg list \<Rightarrow> ikcpseg list \<times> ikcpseg list" where
  "free_queue [] freed = ([], freed)"
| "free_queue (seg # q) freed = free_queue q (freed @ [seg])"

definition ikcp_release :: "ikcpcb \<Rightarrow> ikcpseg list \<times> bool \<times> bool \<times> ikcpcb" where
  "ikcp_release kcp =
    (let (sb, freed) = free_queue (snd_buf kcp) [];
         (rb, freed) = free_queue (rcv_buf kcp) freed;
         (sq, freed) = free_queue (snd_queue kcp) freed;
         (rq, freed) = free_queue (rcv_queue kcp) freed
     in (freed, buffer_size kcp \<noteq> 0, acklist kcp \<noteq> [],
         kcp\<lparr>snd_buf := sb, rcv_buf := rb, snd_queue := sq, rcv_queue := rq,
             nrcv_buf := 0, nsnd_buf := 0, nrcv_que := 0, nsnd_que := 0, ackcount := 0,
             buffer_size := 0, acklist := []\<rparr>))"

definition ikcp_setoutput :: "ikcpcb \<Rightarrow> bool \<Rightarrow> ikcpcb" where
  "ikcp_setoutput kcp out = kcp\<lparr>output_set := out\<rparr>"

section \<open>Setters\<close>

definition ikcp_setmtu :: "bool \<Rightarrow> ikcpcb \<Rightarrow> int \<Rightarrow> int \<times> ikcpcb" where
  "ikcp_setmtu ok kcp m =
    (if m < 50 \<or> m < sint IKCP_OVERHEAD then (-1, kcp)
     else if \<not> ok then (-2, kcp)
     else (0, kcp\<lparr>mtu := word_of_int m, mss := word_of_int m - IKCP_OVERHEAD,
                  buffer_size := unat ((word_of_int m + IKCP_OVERHEAD) * 3)\<rparr>))"

definition clamp_interval :: "int \<Rightarrow> int" where
  "clamp_interval i = (if i > 5000 then 5000 else if i < 10 then 10 else i)"

definition ikcp_interval :: "ikcpcb \<Rightarrow> int \<Rightarrow> int \<times> ikcpcb" where
  "ikcp_interval kcp i = (0, kcp\<lparr>interval := word_of_int (clamp_interval i)\<rparr>)"

definition ikcp_nodelay :: "ikcpcb \<Rightarrow> int \<Rightarrow> int \<Rightarrow> int \<Rightarrow> int \<Rightarrow> int \<times> ikcpcb" where
  "ikcp_nodelay kcp nd i resend nc =
    (let kcp = (if nd \<ge> 0
           then kcp\<lparr>nodelay := word_of_int nd,
                    rx_minrto := (if nd \<noteq> 0 then IKCP_RTO_NDL else IKCP_RTO_MIN)\<rparr> else kcp);
         kcp = (if i \<ge> 0 then kcp\<lparr>interval := word_of_int (clamp_interval i)\<rparr> else kcp);
         kcp = (if resend \<ge> 0 then kcp\<lparr>fastresend := resend\<rparr> else kcp);
         kcp = (if nc \<ge> 0 then kcp\<lparr>nocwnd := nc\<rparr> else kcp)
     in (0, kcp))"

definition ikcp_wndsize :: "ikcpcb option \<Rightarrow> int \<Rightarrow> int \<Rightarrow> int \<times> ikcpcb option" where
  "ikcp_wndsize kcp sndwnd rcvwnd =
    (case kcp of None \<Rightarrow> (0, None)
     | Some k \<Rightarrow>
        (let k = (if sndwnd > 0 then k\<lparr>snd_wnd := word_of_int sndwnd\<rparr> else k);
             k = (if rcvwnd > 0 then k\<lparr>rcv_wnd := word_of_int rcvwnd\<rparr> else k)
         in (0, Some k)))"

definition ikcp_waitsnd :: "ikcpcb \<Rightarrow> int" where
  "ikcp_waitsnd kcp = sint (nsnd_buf kcp + nsnd_que kcp)"

section \<open>Invariants\<close>

definition seg_ok :: "ikcpseg \<Rightarrow> bool" where
  "seg_ok s \<longleftrightarrow> unat (len s) = length (data s)"

text \<open>The four counters count their queues.\<close>

definition que_inv :: "ikcpcb \<Rightarrow> bool" where
  "que_inv k \<longleftrightarrow> unat (nrcv_que k) = length (rcv_queue k) \<and> unat (nsnd_que k) = length (snd_queue k)
     \<and> unat (nrcv_buf k) = length (rcv_buf k) \<and> unat (nsnd_buf k) = length (snd_buf k)"

text \<open>The transmission unit, the segment size derived from it and the output buffer agree.\<close>

definition mtu_inv :: "ikcpcb \<Rightarrow> bool" where
  "mtu_inv k \<longleftrightarrow> 50 \<le> unat (mtu k) \<and> unat (mtu k) < 2 ^ 30 \<and> unat (mss k) + 24 = unat (mtu k)
     \<and> buffer_size k = 3 * (unat (mtu k) + 24)"

text \<open>Every segment to send carries its length and fits the segment size.\<close>

definition snd_inv :: "ikcpcb \<Rightarrow> bool" where
  "snd_inv k \<longleftrightarrow> (\<forall>s \<in> set (snd_queue k) \<union> set (snd_buf k). seg_ok s \<and> length (data s) \<le> unat (mss k))"

text \<open>
  Send window: the segments in flight are in increasing order of sequence number, inside
  \<open>[snd_una, snd_nxt)\<close>, and the window is at most what a 16-bit window field can announce.
\<close>

definition off :: "u32 \<Rightarrow> ikcpseg \<Rightarrow> nat" where
  "off base s = unat (sn s - base)"

definition sndwin_inv :: "ikcpcb \<Rightarrow> bool" where
  "sndwin_inv k \<longleftrightarrow> unat (rmt_wnd k) < 2 ^ 16 \<and> unat (snd_nxt k - snd_una k) < 2 ^ 16
     \<and> sorted_wrt (<) (map (off (snd_una k)) (snd_buf k))
     \<and> (\<forall>s \<in> set (snd_buf k). off (snd_una k) s < unat (snd_nxt k - snd_una k))"

text \<open>
  Receive window: the out-of-order segments are in increasing order of sequence number, at
  most half the counter range ahead of \<open>rcv_nxt\<close>.
\<close>

definition rcvwin_inv :: "ikcpcb \<Rightarrow> bool" where
  "rcvwin_inv k \<longleftrightarrow> unat (rcv_wnd k) < 2 ^ 31
     \<and> sorted_wrt (<) (map (off (rcv_nxt k)) (rcv_buf k))
     \<and> (\<forall>s \<in> set (rcv_buf k). off (rcv_nxt k) s < 2 ^ 31)
     \<and> (\<forall>s \<in> set (rcv_queue k) \<union> set (rcv_buf k). seg_ok s)"

text \<open>The pending acknowledgements lie inside the allocated list.\<close>

definition ack_inv :: "ikcpcb \<Rightarrow> bool" where
  "ack_inv k \<longleftrightarrow> unat (ackcount k) \<le> unat (ackblock k) \<and> length (acklist k) = 2 * unat (ackblock k)"

definition rto_inv :: "ikcpcb \<Rightarrow> bool" where
  "rto_inv k \<longleftrightarrow> (rx_minrto k = IKCP_RTO_NDL \<or> rx_minrto k = IKCP_RTO_MIN)
     \<and> 10 \<le> unat (interval k) \<and> unat (interval k) \<le> 5000"

definition kcp_inv :: "ikcpcb \<Rightarrow> bool" where
  "kcp_inv k \<longleftrightarrow> que_inv k \<and> mtu_inv k \<and> snd_inv k \<and> sndwin_inv k \<and> rcvwin_inv k \<and> ack_inv k \<and> rto_inv k"

lemmas kcp_inv_defs = kcp_inv_def que_inv_def mtu_inv_def snd_inv_def sndwin_inv_def
  rcvwin_inv_def ack_inv_def rto_inv_def

section \<open>The setters keep the invariants\<close>

lemma create_inv: "ikcp_create ok cv = Some k \<Longrightarrow> kcp_inv k"
  by (auto simp: ikcp_create_def kcp_inv_defs ikcp_consts split: if_splits)

lemma free_queue_eq: "free_queue q freed = ([], freed @ q)"
  by (induction q freed rule: free_queue.induct) auto

lemma release_frees_all:
  "fst (ikcp_release k) = snd_buf k @ rcv_buf k @ snd_queue k @ rcv_queue k"
  by (simp add: ikcp_release_def free_queue_eq)

lemma clamp_interval_range: "10 \<le> clamp_interval i" "clamp_interval i \<le> 5000"
  by (auto simp: clamp_interval_def)

lemma unat_clamp_interval:
  "unat (word_of_int (clamp_interval i) :: u32) = nat (clamp_interval i)"
  using clamp_interval_range [of i] by (intro unat_word_of_int_u32) simp_all

lemma clamped_interval_bounds:
  "10 \<le> unat (word_of_int (clamp_interval i) :: u32)" "unat (word_of_int (clamp_interval i) :: u32) \<le> 5000"
  using clamp_interval_range [of i] by (simp_all add: unat_clamp_interval)

lemma interval_inv: "kcp_inv k \<Longrightarrow> kcp_inv (snd (ikcp_interval k i))"
  by (auto simp: ikcp_interval_def kcp_inv_defs clamped_interval_bounds)

lemma nodelay_inv: "kcp_inv k \<Longrightarrow> kcp_inv (snd (ikcp_nodelay k nd i resend nc))"
  by (auto simp: ikcp_nodelay_def Let_def kcp_inv_defs clamped_interval_bounds)

lemma wndsize_inv:
  assumes "kcp_inv k" "sndwnd < 2 ^ 31" "rcvwnd < 2 ^ 31"
  shows "\<exists>k'. snd (ikcp_wndsize (Some k) sndwnd rcvwnd) = Some k' \<and> kcp_inv k'"
proof -
  have "rcvwnd > 0 \<Longrightarrow> unat (word_of_int rcvwnd :: u32) < 2 ^ 31"
    using assms(3) by (subst unat_word_of_int_u32) auto
  then show ?thesis
    using assms(1) by (auto simp: ikcp_wndsize_def Let_def kcp_inv_defs)
qed

text \<open>
  Changing the transmission unit keeps the invariants when the segments still queued fit the
  new segment size.
\<close>

lemma setmtu_inv:
  assumes inv: "kcp_inv k" and small: "m < 2 ^ 30"
    and fit: "\<forall>s \<in> set (snd_queue k) \<union> set (snd_buf k). int (length (data s)) + 24 \<le> m"
  shows "kcp_inv (snd (ikcp_setmtu ok k m))"
proof (cases "m < 50 \<or> \<not> ok")
  case True
  with inv show ?thesis by (auto simp: ikcp_setmtu_def)
next
  case False
  then have m: "50 \<le> m" and ok: "ok" by auto
  have w: "unat (word_of_int m :: u32) = nat m"
    using m small by (intro unat_word_of_int_u32) auto
  have s: "unat (word_of_int m - 24 :: u32) = nat m - 24"
    using m by (simp add: unat_sub_u32 w nat_le_iff)
  have b: "unat ((word_of_int m + 24) * 3 :: u32) = 3 * (nat m + 24)"
    using m small by (simp add: unat_word_ariths w nat_less_iff)
  let ?k = "k\<lparr>mtu := word_of_int m, mss := word_of_int m - 24,
                   buffer_size := unat ((word_of_int m + 24) * 3 :: u32)\<rparr>"
  have "mtu_inv ?k"
    using m small unfolding mtu_inv_def by (simp add: w s b del: distrib_left_numeral distrib_right_numeral) linarith
  moreover have "snd_inv ?k"
    unfolding snd_inv_def
  proof
    fix x assume "x \<in> set (snd_queue ?k) \<union> set (snd_buf ?k)"
    then have x: "x \<in> set (snd_queue k) \<union> set (snd_buf k)" by simp
    with inv have "seg_ok x" by (auto simp: kcp_inv_def snd_inv_def)
    moreover from fit x have "int (length (data x)) + 24 \<le> m" by blast
    ultimately show "seg_ok x \<and> length (data x) \<le> unat (mss ?k)" by (simp add: s)
  qed
  moreover have "que_inv ?k" "sndwin_inv ?k" "rcvwin_inv ?k" "ack_inv ?k" "rto_inv ?k"
    using inv by (simp_all add: kcp_inv_defs)
  ultimately have "kcp_inv ?k" by (simp add: kcp_inv_def)
  with m ok show ?thesis by (simp add: ikcp_setmtu_def ikcp_consts)
qed

end
