(* ===== verification/Fragments.thy ===== *)
theory Fragments
  imports Prelude
begin

text \<open>
  Cutting a byte string into pieces of a maximal size, the last one possibly shorter: the
  reference for the senders that fragment (KCP messages, media slices).
\<close>

function fragments :: "nat \<Rightarrow> bytes \<Rightarrow> bytes list" where
  "fragments m b = (if m = 0 \<or> length b \<le> m then [b] else take m b # fragments m (drop m b))"
  by pat_completeness auto
termination by (relation "measure (\<lambda>(m, b). length b)") auto

declare fragments.simps [simp del]

lemma fragments_small: "length b \<le> m \<Longrightarrow> fragments m b = [b]"
  by (simp add: fragments.simps)

lemma fragments_step: "0 < m \<Longrightarrow> m < length b \<Longrightarrow> fragments m b = take m b # fragments m (drop m b)"
  by (subst fragments.simps) simp

lemma concat_fragments: "concat (fragments m b) = b"
proof (induction m b rule: fragments.induct)
  case (1 m b)
  then show ?case by (cases "m = 0 \<or> length b \<le> m") (auto simp: fragments.simps [of m b])
qed

lemma fragments_bounded: "0 < m \<Longrightarrow> f \<in> set (fragments m b) \<Longrightarrow> length f \<le> m"
proof (induction m b rule: fragments.induct)
  case (1 m b)
  then show ?case by (cases "length b \<le> m") (auto simp: fragments.simps [of m b])
qed

lemma length_fragments:
  "0 < m \<Longrightarrow> length (fragments m b) = (if length b \<le> m then 1 else (length b + m - 1) div m)"
proof (induction m b rule: fragments.induct)
  case (1 m b)
  show ?case
  proof (cases "length b \<le> m")
    case True then show ?thesis by (simp add: fragments_small)
  next
    case False
    with "1.prems" have e: "fragments m b = take m b # fragments m (drop m b)"
      by (intro fragments_step) auto
    have ih: "length (fragments m (drop m b)) = (if length b - m \<le> m then 1 else (length b - m + m - 1) div m)"
      using "1.IH" "1.prems" False by simp
    have c: "length b + m - 1 = (length b - m + m - 1) + m" using False "1.prems" by simp
    have d: "(length b + m - 1) div m = (length b - m + m - 1) div m + 1"
    proof -
      have "(x + m) div m = x div m + 1" for x using div_add_self2 [of m x] "1.prems" by simp
      then show ?thesis by (simp only: c)
    qed
    show ?thesis
    proof (cases "length b - m \<le> m")
      case True
      have "(length b - m + m - 1) div m = 1"
        using True False "1.prems" by (intro div_nat_eqI) auto
      with e ih d True False show ?thesis by simp
    next
      case F: False
      with e ih d False show ?thesis by simp
    qed
  qed
qed

end
