(* ===== verification/Kcp_Send.thy ===== *)
theory Kcp_Send
  imports Kcp_State Fragments
begin

text \<open>
  \<open>ikcp_send\<close>: splitting a message into segments of at most \<open>mss\<close> bytes, and filling up the
  last queued segment in stream mode. The allocator answers the allocations of the call in order;
  a fresh segment holds zero where C leaves it uninitialised (\<open>ikcp_flush\<close> assigns those
  fields before it reads them). Assertions on allocations are those of a release build: the
  \<open>NULL\<close> branch after them is taken.
\<close>

section \<open>The operation\<close>

definition fresh_seg :: "bytes \<Rightarrow> ikcpseg" where
  "fresh_seg d = \<lparr>conv = 0, cmd = 0, frg = 0, wnd = 0, ts = 0, sn = 0, una = 0,
     len = word_of_nat (length d), resendts = 0, rto = 0, fastack = 0, xmit = 0, data = d\<rparr>"

text \<open>\<open>memcpy\<close> of \<open>n\<close> bytes from an optional source: no source leaves the fresh bytes.\<close>

definition copy_in :: "bytes option \<Rightarrow> nat \<Rightarrow> bytes result" where
  "copy_in buf n =
    (case buf of None \<Rightarrow> Inr (replicate n 0)
     | Some b \<Rightarrow> (if length b < n then Inl BufferOverrun else Inr (take n b)))"

definition advance :: "bytes option \<Rightarrow> nat \<Rightarrow> bytes option" where
  "advance buf n = map_option (drop n) buf"

fun send_frags ::
  "(nat \<Rightarrow> bool) \<Rightarrow> nat \<Rightarrow> nat \<Rightarrow> ikcpcb \<Rightarrow> bytes option \<Rightarrow> int \<Rightarrow> (int \<times> ikcpcb) result" where
  "send_frags ok a 0 kcp buf l = Inr (0, kcp)"
| "send_frags ok a (Suc n) kcp buf l =
    (let size = (if l > sint (mss kcp) then sint (mss kcp) else l)
     in if \<not> ok a then Inr (-2, kcp)
        else case copy_in buf (nat size) of Inl e \<Rightarrow> Inl e
        | Inr d \<Rightarrow>
           (let seg = (fresh_seg d)\<lparr>frg := (if stream kcp = 0 then word_of_nat n else 0)\<rparr>
            in send_frags ok (Suc a) n
                 (kcp\<lparr>snd_queue := snd_queue kcp @ [seg], nsnd_que := nsnd_que kcp + 1\<rparr>)
                 (advance buf (nat size)) (l - size)))"

text \<open>
  Stream mode: the last queued segment, when it has room, is replaced by a copy that also
  holds the first bytes of the message. The result is the alloc index, the state, and what is left
  of the buffer; an \<open>Inl\<close> of the sum is the early return of \<open>-2\<close>.
\<close>

definition send_extend ::
  "(nat \<Rightarrow> bool) \<Rightarrow> ikcpcb \<Rightarrow> bytes option \<Rightarrow> int \<Rightarrow> (int + nat \<times> ikcpcb \<times> bytes option \<times> int) result" where
  "send_extend ok kcp buf l =
    (if snd_queue kcp = [] then Inr (Inr (0, kcp, buf, l))
     else
      let old = last (snd_queue kcp)
      in if \<not> len old < mss kcp then Inr (Inr (0, kcp, buf, l))
         else
          let capacity = sint (mss kcp - len old);
              extend = (if l < capacity then l else capacity)
          in if \<not> ok 0 then Inr (Inl (-2))
             else case copy_in buf (nat extend) of Inl e \<Rightarrow> Inl e
             | Inr d \<Rightarrow>
                Inr (Inr (1, kcp\<lparr>snd_queue := butlast (snd_queue kcp) @
                                 [(fresh_seg (data old @ d))\<lparr>len := len old + word_of_int extend\<rparr>]\<rparr>,
                          advance buf (nat extend), l - extend)))"

definition send_count :: "ikcpcb \<Rightarrow> int \<Rightarrow> int" where
  "send_count kcp l =
    (if l \<le> sint (mss kcp) then 1
     else sint ((word_of_int l + mss kcp - 1) div mss kcp))"

definition ikcp_send ::
  "(nat \<Rightarrow> bool) \<Rightarrow> ikcpcb \<Rightarrow> bytes option \<Rightarrow> int \<Rightarrow> (int \<times> ikcpcb) result" where
  "ikcp_send ok kcp buf l =
    (if mss kcp = 0 then Inl AssertFailed
     else if l < 0 then Inr (-1, kcp)
     else
      case (if stream kcp \<noteq> 0 then send_extend ok kcp buf l else Inr (Inr (0, kcp, buf, l))) of
        Inl e \<Rightarrow> Inl e
      | Inr (Inl r) \<Rightarrow> Inr (r, kcp)
      | Inr (Inr (a, kcp, buf, l)) \<Rightarrow>
         (if stream kcp \<noteq> 0 \<and> l \<le> 0 then Inr (0, kcp)
          else
           let count = send_count kcp l
           in if count > 255 then Inr (-2, kcp)
              else
               let count = (if count = 0 then 1 else count)
               in send_frags ok a (nat count) kcp buf l))"

section \<open>Reference: the segments of a message\<close>

text \<open>The segments a message is cut into, with the countdown in \<open>frg\<close>.\<close>

fun frag_segs :: "bytes list \<Rightarrow> ikcpseg list" where
  "frag_segs [] = []"
| "frag_segs (d # ds) = (fresh_seg d)\<lparr>frg := word_of_nat (length ds)\<rparr> # frag_segs ds"

lemma length_frag_segs [simp]: "length (frag_segs ds) = length ds"
  by (induction ds) auto

lemma data_frag_segs [simp]: "map data (frag_segs ds) = ds"
  by (induction ds) (auto simp: fresh_seg_def)

lemma frag_segs_ok:
  "\<forall>d \<in> set ds. length d < 2 ^ 32 \<Longrightarrow> \<forall>s \<in> set (frag_segs ds). seg_ok s"
  by (induction ds) (auto simp: seg_ok_def fresh_seg_def unat_of_nat)

section \<open>Fragmentation meets the reference\<close>

lemma unat_sint_u32: "unat (w :: u32) < 2 ^ 31 \<Longrightarrow> sint w = int (unat w)"
  by (simp add: sint_u32_unat)

lemma send_frags_eq:
  assumes "stream k = 0" "0 < unat (mss k)" "unat (mss k) < 2 ^ 31"
  shows "n = length (fragments (unat (mss k)) b) \<Longrightarrow>
    send_frags (\<lambda>_. True) a n k (Some b) (int (length b)) =
      Inr (0, k\<lparr>snd_queue := snd_queue k @ frag_segs (fragments (unat (mss k)) b),
               nsnd_que := nsnd_que k + word_of_nat n\<rparr>)"
  using assms
proof (induction n arbitrary: a k b)
  case 0
  then show ?case by (simp add: fragments.simps split: if_splits)
next
  case (Suc n)
  let ?m = "unat (mss k)"
  have sm: "sint (mss k) = int ?m" using Suc.prems by (simp add: unat_sint_u32)
  show ?case
  proof (cases "length b \<le> ?m")
    case True
    with Suc.prems have "n = 0" by (simp add: fragments_small)
    with True Suc.prems show ?thesis
      by (auto simp: sm fragments_small copy_in_def advance_def Let_def)
  next
    case False
    with Suc.prems have e: "fragments ?m b = take ?m b # fragments ?m (drop ?m b)"
      by (intro fragments_step) auto
    with Suc.prems(1) have n: "n = length (fragments ?m (drop ?m b))" by simp
    let ?seg = "(fresh_seg (take ?m b))\<lparr>frg := word_of_nat n\<rparr>"
    let ?k = "k\<lparr>snd_queue := snd_queue k @ [?seg], nsnd_que := nsnd_que k + 1\<rparr>"
    have "send_frags (\<lambda>_. True) (Suc a) n ?k (Some (drop ?m b)) (int (length (drop ?m b))) =
       Inr (0, ?k\<lparr>snd_queue := snd_queue ?k @ frag_segs (fragments ?m (drop ?m b)),
               nsnd_que := nsnd_que ?k + word_of_nat n\<rparr>)"
      using Suc.IH [of ?k "drop ?m b" "Suc a"] Suc.prems n by simp
    moreover have "int (length b) - int ?m = int (length (drop ?m b))" using False by simp
    moreover have "send_frags (\<lambda>_. True) a (Suc n) k (Some b) (int (length b)) =
       send_frags (\<lambda>_. True) (Suc a) n ?k (Some (drop ?m b)) (int (length b) - int ?m)"
      using False Suc.prems(2) by (simp add: sm copy_in_def advance_def Let_def)
    ultimately have "send_frags (\<lambda>_. True) a (Suc n) k (Some b) (int (length b)) =
       Inr (0, ?k\<lparr>snd_queue := snd_queue ?k @ frag_segs (fragments ?m (drop ?m b)),
               nsnd_que := nsnd_que ?k + word_of_nat n\<rparr>)"
      by (simp only:)
    moreover have "frag_segs (fragments ?m b) = ?seg # frag_segs (fragments ?m (drop ?m b))"
      by (simp add: e n)
    ultimately show ?thesis by simp
  qed
qed

lemma send_count_eq:
  assumes "0 < unat (mss k)" "unat (mss k) < 2 ^ 30" "length b < 2 ^ 31"
  shows "send_count k (int (length b)) = int (length (fragments (unat (mss k)) b))"
proof -
  let ?m = "unat (mss k)"
  have sm: "sint (mss k) = int ?m" using assms by (simp add: unat_sint_u32)
  have w: "unat (word_of_int (int (length b)) :: u32) = length b"
    using assms by (subst unat_word_of_int_u32) auto
  have nz: "1 \<le> length b + ?m" using assms by simp
  have s: "unat (word_of_int (int (length b)) + mss k - 1) = length b + ?m - 1"
    using assms nz by (simp add: unat_sub_u32 unat_add_u32 w del: of_int_of_nat_eq)
  have d: "unat ((word_of_int (int (length b)) + mss k - 1) div mss k) = (length b + ?m - 1) div ?m"
    by (simp only: unat_div_distrib s)
  have "(length b + ?m - 1) div ?m \<le> length b + ?m - 1" by (rule div_le_dividend)
  then have "(length b + ?m - 1) div ?m < 2 ^ 32"
    by (rule le_less_trans) (use assms in simp)
  moreover have "?m < length b \<Longrightarrow> (length b + ?m - 1) div ?m \<le> length b"
  proof -
    assume "?m < length b"
    have "length b + ?m - 1 < (length b + 1) * ?m" using assms(1)
      by (cases ?m) auto
    then show ?thesis by (simp add: less_mult_imp_div_less less_Suc_eq_le [symmetric])
  qed
  ultimately show ?thesis
    using assms length_fragments [OF assms(1), of b]
    by (auto simp: send_count_def sm unat_sint_u32 d simp del: of_int_of_nat_eq)
qed

text \<open>
  The whole of \<open>ikcp_send\<close> in message mode: a message of at most 255 fragments is queued as
  its fragments, a longer one is refused and nothing is queued.
\<close>

lemma ikcp_send_message:
  assumes "\<forall>i. ok i" "stream k = 0" "mtu_inv k" "length b < 2 ^ 31"
  shows "ikcp_send ok k (Some b) (int (length b)) =
    (let fs = fragments (unat (mss k)) b
     in if length fs > 255 then Inr (-2, k)
        else Inr (0, k\<lparr>snd_queue := snd_queue k @ frag_segs fs,
                      nsnd_que := nsnd_que k + word_of_nat (length fs)\<rparr>))"
proof -
  let ?m = "unat (mss k)"
  have m: "0 < ?m" "?m < 2 ^ 30" using assms(3) by (auto simp: mtu_inv_def)
  have nz: "mss k \<noteq> 0" using m(1) by auto
  have c: "send_count k (int (length b)) = int (length (fragments ?m b))"
    using m assms(4) by (rule send_count_eq)
  have pos: "length (fragments ?m b) \<noteq> 0" by (simp add: fragments.simps)
  have ok: "ok = (\<lambda>_. True)" using assms(1) by auto
  show ?thesis
    using assms(2-4) nz c pos m unfolding ok by (simp add: ikcp_send_def Let_def send_frags_eq)
qed

section \<open>Success queues every byte, in either mode and with any allocator\<close>

definition queued_bytes :: "ikcpcb \<Rightarrow> bytes" where
  "queued_bytes k = concat (map data (snd_queue k))"

lemma send_frags_success:
  assumes "0 < unat (mss k)" "unat (mss k) < 2 ^ 31"
  shows "n = length (fragments (unat (mss k)) b) \<Longrightarrow>
    send_frags ok a n k (Some b) (int (length b)) = Inr (0, k') \<Longrightarrow>
    map data (snd_queue k') = map data (snd_queue k) @ fragments (unat (mss k)) b"
  using assms
proof (induction n arbitrary: a k b)
  case 0
  then show ?case by (simp add: fragments.simps split: if_splits)
next
  case (Suc n)
  let ?m = "unat (mss k)"
  have sm: "sint (mss k) = int ?m" using Suc.prems by (simp add: unat_sint_u32)
  have oka: "ok a" using Suc.prems(2) by (auto simp: Let_def split: if_splits)
  show ?case
  proof (cases "length b \<le> ?m")
    case True
    with Suc.prems have "n = 0" by (simp add: fragments_small)
    with True Suc.prems(2) oka show ?thesis
      by (auto simp: sm fragments_small copy_in_def advance_def fresh_seg_def Let_def
               split: if_splits)
  next
    case False
    with Suc.prems have e: "fragments ?m b = take ?m b # fragments ?m (drop ?m b)"
      by (intro fragments_step) auto
    with Suc.prems(1) have n: "n = length (fragments ?m (drop ?m b))" by simp
    let ?seg = "(fresh_seg (take ?m b))\<lparr>frg := (if stream k = 0 then word_of_nat n else 0)\<rparr>"
    let ?k = "k\<lparr>snd_queue := snd_queue k @ [?seg], nsnd_que := nsnd_que k + 1\<rparr>"
    have l: "int (length b) - int ?m = int (length (drop ?m b))" using False by simp
    have "send_frags ok (Suc a) n ?k (Some (drop ?m b)) (int (length b) - int ?m) = Inr (0, k')"
      using Suc.prems(2) False oka
      by (simp add: sm copy_in_def advance_def Let_def)
    then have "send_frags ok (Suc a) n ?k (Some (drop ?m b)) (int (length (drop ?m b))) = Inr (0, k')"
      by (simp only: l)
    moreover have "n = length (fragments (unat (mss ?k)) (drop ?m b))"
      "0 < unat (mss ?k)" "unat (mss ?k) < 2 ^ 31" using n Suc.prems by simp_all
    ultimately have "map data (snd_queue k') = map data (snd_queue ?k) @ fragments (unat (mss ?k)) (drop ?m b)"
      using Suc.IH by blast
    then show ?thesis by (simp add: e fresh_seg_def)
  qed
qed

lemma send_extend_spec:
  assumes ext: "send_extend ok k (Some b) (int (length b)) = Inr (Inr (a, k', buf', l'))"
    and mss: "unat (mss k) < 2 ^ 31"
  shows "\<exists>b'. buf' = Some b' \<and> l' = int (length b') \<and> mss k' = mss k \<and> stream k' = stream k \<and>
     queued_bytes k' @ b' = queued_bytes k @ b \<and> length b' \<le> length b"
proof (cases "snd_queue k = [] \<or> \<not> len (last (snd_queue k)) < mss k")
  case True
  with ext show ?thesis by (auto simp: send_extend_def Let_def split: if_splits)
next
  case False
  define old where "old = last (snd_queue k)"
  define e where "e = (if int (length b) < sint (mss k - len old) then int (length b) else sint (mss k - len old))"
  have lt: "len old < mss k" using False by (simp add: old_def)
  then have u: "unat (mss k - len old) = unat (mss k) - unat (len old)"
    by (simp add: unat_sub_u32 word_less_nat_alt)
  have nn: "0 \<le> sint (mss k - len old)"
    using mss u by (simp add: sint_u32_unat)
  have e: "0 \<le> e" "e \<le> int (length b)" using nn by (auto simp: e_def)
  have q: "snd_queue k = butlast (snd_queue k) @ [old]" using False by (simp add: old_def)
  have r: "k' = k\<lparr>snd_queue := butlast (snd_queue k) @
      [(fresh_seg (data old @ take (nat e) b))\<lparr>len := len old + word_of_int e\<rparr>]\<rparr>"
    "buf' = Some (drop (nat e) b)" "l' = int (length b) - e"
    using ext False e
    by (auto simp: send_extend_def Let_def copy_in_def advance_def old_def [symmetric] e_def [symmetric]
             split: if_splits)
  have "queued_bytes k = concat (map data (butlast (snd_queue k))) @ data old"
    unfolding queued_bytes_def by (subst q) simp
  then show ?thesis
    using e by (auto simp: r queued_bytes_def fresh_seg_def of_nat_diff)
qed

text \<open>
  A result of zero means that the bytes of the message, all of them and in order, now follow
  the bytes queued before.
\<close>

lemma ikcp_send_zero_queues_all:
  assumes sent: "ikcp_send ok k (Some b) (int (length b)) = Inr (0, k')"
    and m: "mtu_inv k" and l: "length b < 2 ^ 31"
  shows "queued_bytes k' = queued_bytes k @ b"
proof -
  have mss: "0 < unat (mss k)" "unat (mss k) < 2 ^ 30" using m by (auto simp: mtu_inv_def)
  have nz: "mss k \<noteq> 0" using mss(1) by auto
  have rest: "queued_bytes k2 = queued_bytes k1 @ b1"
    if c: "send_frags ok a (nat (let c = send_count k1 (int (length b1)) in if c = 0 then 1 else c))
              k1 (Some b1) (int (length b1)) = Inr (0, k2)"
      and k1: "mss k1 = mss k" and b1: "length b1 < 2 ^ 31" for a k1 b1 k2
  proof -
    have "send_count k1 (int (length b1)) = int (length (fragments (unat (mss k1)) b1))"
      using mss b1 by (intro send_count_eq) (simp_all add: k1)
    moreover have "length (fragments (unat (mss k1)) b1) \<noteq> 0" by (simp add: fragments.simps)
    ultimately have "send_frags ok a (length (fragments (unat (mss k1)) b1)) k1 (Some b1) (int (length b1)) = Inr (0, k2)"
      using c by (simp add: Let_def)
    then have "map data (snd_queue k2) = map data (snd_queue k1) @ fragments (unat (mss k1)) b1"
      using mss by (intro send_frags_success) (simp_all add: k1)
    then show ?thesis by (simp add: queued_bytes_def concat_fragments)
  qed
  show ?thesis
  proof (cases "stream k = 0")
    case True
    then show ?thesis
      using sent nz l by (intro rest) (auto simp: ikcp_send_def Let_def split: if_splits)
  next
    case False
    with sent nz obtain a k1 buf1 l1 where
      ext: "send_extend ok k (Some b) (int (length b)) = Inr (Inr (a, k1, buf1, l1))"
      by (auto simp: ikcp_send_def send_extend_def Let_def split: sum.splits if_splits)
    from send_extend_spec [OF ext] mss obtain b1 where
      b1: "buf1 = Some b1" "l1 = int (length b1)" "mss k1 = mss k" "stream k1 = stream k"
        "queued_bytes k1 @ b1 = queued_bytes k @ b" "length b1 \<le> length b" by auto
    show ?thesis
    proof (cases "b1 = []")
      case True
      with sent nz ext b1 False show ?thesis by (simp add: ikcp_send_def)
    next
      case ne: False
      have "queued_bytes k' = queued_bytes k1 @ b1"
        using sent nz ext b1 False ne l
        by (intro rest) (auto simp: ikcp_send_def Let_def split: if_splits)
      with b1 show ?thesis by simp
    qed
  qed
qed

section \<open>Sending keeps the invariants\<close>

lemma copy_in_length: "copy_in buf n = Inr d \<Longrightarrow> length d = n"
  by (auto simp: copy_in_def split: option.splits if_splits)

lemma fresh_seg_ok: "length d < 2 ^ 32 \<Longrightarrow> seg_ok (fresh_seg d)"
  by (simp add: seg_ok_def fresh_seg_def unat_of_nat)

lemma kcp_inv_push:
  assumes "kcp_inv k" "seg_ok s" "length (data s) \<le> unat (mss k)" "length (snd_queue k) + 1 < 2 ^ 32"
  shows "kcp_inv (k\<lparr>snd_queue := snd_queue k @ [s], nsnd_que := nsnd_que k + 1\<rparr>)"
proof -
  have "unat (nsnd_que k + 1) = length (snd_queue k) + 1"
    using assms(1,4) by (subst unat_add_u32) (auto simp: kcp_inv_defs)
  with assms(1-3) show ?thesis by (auto simp: kcp_inv_defs)
qed

lemma send_frags_inv:
  "send_frags ok a n k buf l = Inr (r, k') \<Longrightarrow> kcp_inv k \<Longrightarrow> length (snd_queue k) + n < 2 ^ 32 \<Longrightarrow> kcp_inv k'"
proof (induction ok a n k buf l rule: send_frags.induct)
  case (1 ok a k buf l)
  then show ?case by simp
next
  case (2 ok a n k buf l)
  define size where "size = (if l > sint (mss k) then sint (mss k) else l)"
  have mss: "unat (mss k) < 2 ^ 30" using "2.prems" by (auto simp: kcp_inv_defs)
  then have sm: "sint (mss k) = int (unat (mss k))" by (simp add: unat_sint_u32)
  have sz: "nat size \<le> unat (mss k)" by (auto simp: size_def sm nat_le_iff)
  show ?case
  proof (cases "ok a")
    case False
    with "2.prems" show ?thesis by (simp add: Let_def)
  next
    case True
    with "2.prems"(1) obtain d where d: "copy_in buf (nat size) = Inr d"
      by (auto simp: Let_def size_def [symmetric] split: sum.splits)
    let ?seg = "(fresh_seg d)\<lparr>frg := (if stream k = 0 then word_of_nat n else 0)\<rparr>"
    let ?k = "k\<lparr>snd_queue := snd_queue k @ [?seg], nsnd_que := nsnd_que k + 1\<rparr>"
    have ld: "length d \<le> unat (mss k)" using copy_in_length [OF d] sz by simp
    then have "seg_ok ?seg" using fresh_seg_ok [of d] mss by (simp add: seg_ok_def)
    moreover have "length (data ?seg) \<le> unat (mss k)" using ld by (simp add: fresh_seg_def)
    ultimately have inv: "kcp_inv ?k" using "2.prems" by (intro kcp_inv_push) auto
    have "send_frags ok (Suc a) n ?k (advance buf (nat size)) (l - size) = Inr (r, k')"
      using "2.prems"(1) True d by (simp add: Let_def size_def [symmetric])
    from "2.IH" [OF size_def _ d refl, OF _ this] True inv "2.prems"(3) show ?thesis by simp
  qed
qed

lemma send_extend_inv:
  assumes "send_extend ok k buf l = Inr (Inr (a, k', buf', l'))" "kcp_inv k" "0 \<le> l" "l < 2 ^ 31"
  shows "kcp_inv k' \<and> length (snd_queue k') = length (snd_queue k)"
proof (cases "snd_queue k = [] \<or> \<not> len (last (snd_queue k)) < mss k")
  case True
  with assms show ?thesis by (auto simp: send_extend_def Let_def split: if_splits)
next
  case False
  define old where "old = last (snd_queue k)"
  define e where "e = (if l < sint (mss k - len old) then l else sint (mss k - len old))"
  have mss: "unat (mss k) < 2 ^ 30" using assms(2) by (auto simp: kcp_inv_defs)
  have lt: "len old < mss k" using False by (simp add: old_def)
  then have u: "unat (mss k - len old) = unat (mss k) - unat (len old)"
    by (simp add: unat_sub_u32 word_less_nat_alt)
  have s: "sint (mss k - len old) = int (unat (mss k) - unat (len old))"
    using mss u by (subst unat_sint_u32) auto
  have ul: "unat (len old) < unat (mss k)" using lt by (simp add: word_less_nat_alt)
  have e: "0 \<le> e" "e \<le> int (unat (mss k) - unat (len old))" using assms(3) by (auto simp: e_def s)
  have "old \<in> set (snd_queue k)" using False by (simp add: old_def)
  then have old: "unat (len old) = length (data old)" using assms(2) by (auto simp: kcp_inv_defs seg_ok_def)
  obtain d where d: "copy_in buf (nat e) = Inr d"
    and k': "k' = k\<lparr>snd_queue := butlast (snd_queue k) @
      [(fresh_seg (data old @ d))\<lparr>len := len old + word_of_int e\<rparr>]\<rparr>"
  proof -
    have "send_extend ok k buf l =
      (if \<not> ok 0 then Inr (Inl (-2))
       else case copy_in buf (nat e) of Inl e \<Rightarrow> Inl e
       | Inr d \<Rightarrow> Inr (Inr (1, k\<lparr>snd_queue := butlast (snd_queue k) @
             [(fresh_seg (data old @ d))\<lparr>len := len old + word_of_int e\<rparr>]\<rparr>, advance buf (nat e), l - e)))"
      using False unfolding send_extend_def Let_def old_def [symmetric] e_def [symmetric] by simp
    with assms(1) show ?thesis by (auto intro: that split: if_splits sum.splits)
  qed
  let ?new = "(fresh_seg (data old @ d))\<lparr>len := len old + word_of_int e\<rparr>"
  have ld: "length d = nat e" using copy_in_length [OF d] .
  have we: "unat (word_of_int e :: u32) = nat e" using e mss by (intro unat_word_of_int_u32) auto
  have sum: "length (data old) + nat e \<le> unat (mss k)" using e ul old by linarith
  have "unat (len old + word_of_int e) = length (data old) + nat e"
    using sum mss by (simp add: unat_add_u32 we old)
  then have "seg_ok ?new" by (simp add: seg_ok_def fresh_seg_def ld)
  moreover have "length (data ?new) \<le> unat (mss k)" using sum by (simp add: fresh_seg_def ld)
  moreover have "length (snd_queue k') = length (snd_queue k)" using False by (simp add: k')
  ultimately show ?thesis
    using assms(2) in_set_butlastD by (fastforce simp: k' kcp_inv_defs)
qed

lemma ikcp_send_inv:
  assumes "ikcp_send ok k buf l = Inr (r, k')" "kcp_inv k" "l < 2 ^ 31"
    "length (snd_queue k) + 256 < 2 ^ 32"
  shows "kcp_inv k'"
proof (cases "l < 0 \<or> mss k = 0")
  case True
  with assms show ?thesis by (auto simp: ikcp_send_def split: if_splits)
next
  case False
  then have nz: "mss k \<noteq> 0" "\<not> l < 0" by auto
  have frags: "kcp_inv k2"
    if "send_frags ok a n k1 b1 l1 = Inr (r, k2)" "n \<le> 255"
       "kcp_inv k1" "length (snd_queue k1) = length (snd_queue k)" for a n k1 b1 l1 k2
    using send_frags_inv [OF that(1,3)] that(2,4) assms(4) by simp
  show ?thesis
  proof (cases "stream k = 0")
    case True
    then show ?thesis
      using assms(1,2) nz frags [of 0 _ k buf l k']
      by (auto simp: ikcp_send_def Let_def simp del: send_frags.simps split: if_splits)
  next
    case S: False
    show ?thesis
    proof (cases "\<exists>v. send_extend ok k buf l = Inr (Inr v)")
      case False
      with S assms(1,2) nz show ?thesis
        by (auto simp: ikcp_send_def send_extend_def Let_def split: if_splits sum.splits)
    next
      case True
      then obtain a k1 buf1 l1 where ext: "send_extend ok k buf l = Inr (Inr (a, k1, buf1, l1))"
        by (metis prod_cases4)
      from send_extend_inv [OF this assms(2) _ assms(3)] nz
      have k1: "kcp_inv k1" "length (snd_queue k1) = length (snd_queue k)" by auto
      with S ext assms(1) nz frags [of a _ k1 buf1 l1 k'] show ?thesis
        by (auto simp: ikcp_send_def Let_def simp del: send_frags.simps split: if_splits)
    qed
  qed
qed

end
