(* ===== verification/Kcp_Recv.thy ===== *)
theory Kcp_Recv
  imports Kcp_Send
begin

text \<open>
  The receiving side seen by the application: \<open>ikcp_peeksize\<close>, \<open>ikcp_recv\<close> and the
  loop, shared with \<open>ikcp_parse_data\<close>, that moves segments from \<open>rcv_buf\<close> to
  \<open>rcv_queue\<close> once they are next in order.
\<close>

section \<open>Moving available data from \<open>rcv_buf\<close> to \<open>rcv_queue\<close>\<close>

function move_ready :: "ikcpcb \<Rightarrow> ikcpcb" where
  "move_ready kcp =
    (case rcv_buf kcp of [] \<Rightarrow> kcp
     | seg # rest \<Rightarrow>
        if sn seg = rcv_nxt kcp \<and> nrcv_que kcp < rcv_wnd kcp
        then move_ready (kcp\<lparr>rcv_buf := rest, nrcv_buf := nrcv_buf kcp - 1,
               rcv_queue := rcv_queue kcp @ [seg], nrcv_que := nrcv_que kcp + 1,
               rcv_nxt := rcv_nxt kcp + 1\<rparr>)
        else kcp)"
  by pat_completeness auto
termination by (relation "measure (\<lambda>k. length (rcv_buf k))") auto

declare move_ready.simps [simp del]

section \<open>\<open>ikcp_peeksize\<close> and \<open>ikcp_recv\<close>\<close>

fun peek_sum :: "ikcpseg list \<Rightarrow> u32 \<Rightarrow> u32" where
  "peek_sum [] l = l"
| "peek_sum (seg # p) l = (if frg seg = 0 then l + len seg else peek_sum p (l + len seg))"

definition ikcp_peeksize :: "ikcpcb \<Rightarrow> int" where
  "ikcp_peeksize kcp =
    (case rcv_queue kcp of [] \<Rightarrow> -1
     | seg # _ \<Rightarrow>
        if frg seg = 0 then sint (len seg)
        else if nrcv_que kcp < frg seg + 1 then -1
        else sint (peek_sum (rcv_queue kcp) 0))"

text \<open>
  The merge loop: the list is the rest of \<open>rcv_queue\<close> from the iterator on, \<open>out\<close> what has
  been copied to the caller's buffer. Unless the call peeks, every visited segment is unlinked.
\<close>

fun recv_merge :: "bool \<Rightarrow> bool \<Rightarrow> ikcpseg list \<Rightarrow> ikcpcb \<Rightarrow> u32 \<Rightarrow> bytes \<Rightarrow> ikcpcb \<times> u32 \<times> bytes" where
  "recv_merge ispeek buffer [] kcp l out = (kcp, l, out)"
| "recv_merge ispeek buffer (seg # p) kcp l out =
    (let out = (if buffer then out @ take (unat (len seg)) (data seg) else out);
         l = l + len seg;
         kcp = (if ispeek then kcp
                else kcp\<lparr>rcv_queue := tl (rcv_queue kcp), nrcv_que := nrcv_que kcp - 1\<rparr>)
     in if frg seg = 0 then (kcp, l, out) else recv_merge ispeek buffer p kcp l out)"

definition ikcp_recv :: "ikcpcb \<Rightarrow> bool \<Rightarrow> int \<Rightarrow> (int \<times> bytes \<times> ikcpcb) result" where
  "ikcp_recv kcp buffer l =
    (let ispeek = (l < 0)
     in if rcv_queue kcp = [] then Inr (-1, [], kcp)
        else
         let l = (if l < 0 then - l else l);
             peeksize = ikcp_peeksize kcp
         in if peeksize < 0 then Inr (-2, [], kcp)
            else if peeksize > l then Inr (-3, [], kcp)
            else
             let recover = nrcv_que kcp \<ge> rcv_wnd kcp;
                 (kcp, n, out) = recv_merge ispeek buffer (rcv_queue kcp) kcp 0 []
             in if sint n \<noteq> peeksize then Inl AssertFailed
                else
                 let kcp = move_ready kcp;
                     kcp = (if nrcv_que kcp < rcv_wnd kcp \<and> recover
                            then kcp\<lparr>probe := probe kcp OR IKCP_ASK_TELL\<rparr> else kcp)
                 in Inr (sint n, out, kcp))"

section \<open>What one read takes\<close>

text \<open>The segments one read visits: up to and including the first last-fragment.\<close>

fun first_msg :: "ikcpseg list \<Rightarrow> ikcpseg list" where
  "first_msg [] = []"
| "first_msg (seg # p) = (if frg seg = 0 then [seg] else seg # first_msg p)"

fun after_msg :: "ikcpseg list \<Rightarrow> ikcpseg list" where
  "after_msg [] = []"
| "after_msg (seg # p) = (if frg seg = 0 then p else after_msg p)"

lemma first_after_msg: "first_msg q @ after_msg q = q"
  by (induction q) auto

lemma peek_sum_eq: "peek_sum q l = l + sum_list (map len (first_msg q))"
  by (induction q arbitrary: l) (auto simp: add.assoc)

lemma recv_merge_eq:
  "recv_merge ispeek buffer q k l out =
     (if ispeek then k
      else k\<lparr>rcv_queue := drop (length (first_msg q)) (rcv_queue k),
             nrcv_que := nrcv_que k - word_of_nat (length (first_msg q))\<rparr>,
      l + sum_list (map len (first_msg q)),
      out @ (if buffer then concat (map (\<lambda>s. take (unat (len s)) (data s)) (first_msg q)) else []))"
  by (induction ispeek buffer q k l out rule: recv_merge.induct)
     (auto simp: Let_def add.assoc drop_Suc diff_diff_eq)

lemma take_data: "seg_ok s \<Longrightarrow> take (unat (len s)) (data s) = data s"
  by (simp add: seg_ok_def)

lemma concat_take_data:
  "\<forall>s \<in> set q. seg_ok s \<Longrightarrow> concat (map (\<lambda>s. take (unat (len s)) (data s)) q) = concat (map data q)"
  by (induction q) (auto simp: take_data)

lemma set_first_msg: "set (first_msg q) \<subseteq> set q"
  by (induction q) auto

text \<open>The assertion at the end of the merge loop holds in every state.\<close>

lemma peeksize_is_merged:
  "rcv_queue k \<noteq> [] \<Longrightarrow> ikcp_peeksize k \<noteq> -1 \<Longrightarrow>
    ikcp_peeksize k = sint (sum_list (map len (first_msg (rcv_queue k))))"
  by (auto simp: ikcp_peeksize_def peek_sum_eq split: list.splits if_splits)

lemma ikcp_recv_no_fault: "ikcp_recv k buffer l \<noteq> Inl e"
proof (cases "rcv_queue k = [] \<or> ikcp_peeksize k < 0")
  case True
  then show ?thesis by (auto simp: ikcp_recv_def Let_def)
next
  case False
  then have "ikcp_peeksize k = sint (sum_list (map len (first_msg (rcv_queue k))))"
    by (intro peeksize_is_merged) auto
  then show ?thesis by (simp add: ikcp_recv_def Let_def recv_merge_eq)
qed

section \<open>\<open>move_ready\<close> releases the longest run that is in order\<close>

fun ready_run :: "u32 \<Rightarrow> nat \<Rightarrow> ikcpseg list \<Rightarrow> nat" where
  "ready_run nxt room [] = 0"
| "ready_run nxt room (s # q) =
    (if sn s = nxt \<and> 0 < room then Suc (ready_run (nxt + 1) (room - 1) q) else 0)"

lemma ready_run_le: "ready_run nxt room q \<le> length q" "ready_run nxt room q \<le> room"
  by (induction nxt room q rule: ready_run.induct) auto

lemma ready_run_numbers: "i < ready_run nxt room q \<Longrightarrow> sn (q ! i) = nxt + word_of_nat i"
proof (induction nxt room q arbitrary: i rule: ready_run.induct)
  case (1 nxt room)
  then show ?case by simp
next
  case (2 nxt room s q)
  then show ?case by (cases i) (auto split: if_splits simp: add.assoc)
qed

lemma ready_run_stops:
  "ready_run nxt room q < length q \<Longrightarrow>
    sn (q ! ready_run nxt room q) \<noteq> nxt + word_of_nat (ready_run nxt room q) \<or> ready_run nxt room q \<ge> room"
proof (induction nxt room q rule: ready_run.induct)
  case (1 nxt room)
  then show ?case by simp
next
  case (2 nxt room s q)
  then show ?case by (auto simp: add.assoc)
qed

lemma move_ready_eq:
  assumes "que_inv k" "length (rcv_queue k) + length (rcv_buf k) < 2 ^ 32"
  defines "n \<equiv> ready_run (rcv_nxt k) (unat (rcv_wnd k) - length (rcv_queue k)) (rcv_buf k)"
  shows "move_ready k = k\<lparr>rcv_buf := drop n (rcv_buf k), nrcv_buf := nrcv_buf k - word_of_nat n,
     rcv_queue := rcv_queue k @ take n (rcv_buf k), nrcv_que := nrcv_que k + word_of_nat n,
     rcv_nxt := rcv_nxt k + word_of_nat n\<rparr>"
  using assms(1,2) unfolding n_def
proof (induction k rule: move_ready.induct)
  case (1 k)
  show ?case
  proof (cases "rcv_buf k")
    case Nil
    then show ?thesis by (simp add: move_ready.simps [of k])
  next
    case (Cons s rest)
    have cnt: "unat (nrcv_que k) = length (rcv_queue k)" "unat (nrcv_buf k) = Suc (length rest)"
      using "1.prems"(1) Cons by (auto simp: que_inv_def)
    show ?thesis
    proof (cases "sn s = rcv_nxt k \<and> nrcv_que k < rcv_wnd k")
      case False
      then have "ready_run (rcv_nxt k) (unat (rcv_wnd k) - length (rcv_queue k)) (rcv_buf k) = 0"
        using cnt by (auto simp: Cons word_less_nat_alt)
      moreover have "move_ready k = k" using False Cons by (auto simp: move_ready.simps [of k])
      ultimately show ?thesis by simp
    next
      case True
      let ?k = "k\<lparr>rcv_buf := rest, nrcv_buf := nrcv_buf k - 1, rcv_queue := rcv_queue k @ [s],
        nrcv_que := nrcv_que k + 1, rcv_nxt := rcv_nxt k + 1\<rparr>"
      have a: "unat (nrcv_que k + 1) = length (rcv_queue k) + 1"
        using cnt "1.prems"(2) Cons by (subst unat_add_u32) auto
      have b: "unat (nrcv_buf k - 1) = length rest"
        using cnt by (simp add: unat_sub_u32)
      have q: "que_inv ?k" using "1.prems"(1) a b by (simp add: que_inv_def)
      have ih: "move_ready ?k = (let n = ready_run (rcv_nxt ?k) (unat (rcv_wnd ?k) - length (rcv_queue ?k)) (rcv_buf ?k)
         in ?k\<lparr>rcv_buf := drop n (rcv_buf ?k), nrcv_buf := nrcv_buf ?k - word_of_nat n,
           rcv_queue := rcv_queue ?k @ take n (rcv_buf ?k), nrcv_que := nrcv_que ?k + word_of_nat n,
           rcv_nxt := rcv_nxt ?k + word_of_nat n\<rparr>)"
        unfolding Let_def using Cons True q "1.prems"(2) by (intro "1.IH") auto
      have room: "unat (rcv_wnd k) - length (rcv_queue k) = Suc (unat (rcv_wnd k) - Suc (length (rcv_queue k)))"
        using True cnt unfolding word_less_nat_alt by linarith
      have "move_ready k = move_ready ?k" using Cons True by (simp add: move_ready.simps [of k])
      then show ?thesis using True unfolding ih by (simp add: Cons room Let_def algebra_simps)
    qed
  qed
qed

section \<open>A read returns exactly one message\<close>

text \<open>A message as a run of segments: the fragment numbers count down to zero.\<close>

definition is_message :: "ikcpseg list \<Rightarrow> bytes \<Rightarrow> bool" where
  "is_message segs b \<longleftrightarrow> segs \<noteq> [] \<and> length segs \<le> 256
     \<and> map frg segs = map word_of_nat (rev [0..<length segs]) \<and> concat (map data segs) = b"

lemma frg_frag_segs: "map frg (frag_segs ds) = map word_of_nat (rev [0..<length ds])"
  by (induction ds) auto

lemma is_message_fragments:
  "length (fragments m b) \<le> 256 \<Longrightarrow> is_message (frag_segs (fragments m b)) b"
  by (auto simp: is_message_def frg_frag_segs concat_fragments fragments.simps [of m b])

lemma first_msg_countdown:
  "segs \<noteq> [] \<Longrightarrow> length segs \<le> 256 \<Longrightarrow> map frg segs = map word_of_nat (rev [0..<length segs]) \<Longrightarrow>
    first_msg (segs @ rest) = segs \<and> after_msg (segs @ rest) = rest"
proof (induction segs)
  case Nil
  then show ?case by simp
next
  case (Cons s p)
  have f: "frg s = word_of_nat (length p)" and fp: "map frg p = map word_of_nat (rev [0..<length p])"
    using Cons.prems(3) by simp_all
  show ?case
  proof (cases p)
    case Nil
    with f show ?thesis by simp
  next
    case (Cons s2 p2)
    have "unat (frg s) = length p" using f Cons.prems(2) by (simp add: unat_of_nat)
    then have "frg s \<noteq> 0" using Cons by auto
    with Cons.IH fp Cons.prems(2) Cons show ?thesis by simp
  qed
qed

lemma sum_list_len:
  "\<forall>s \<in> set q. seg_ok s \<Longrightarrow> length (concat (map data q)) < 2 ^ 32 \<Longrightarrow>
    unat (sum_list (map len q)) = length (concat (map data q))"
proof (induction q)
  case Nil
  then show ?case by simp
next
  case (Cons s q)
  then show ?case by (simp add: seg_ok_def unat_add_u32)
qed

lemma peeksize_message:
  assumes q: "rcv_queue k = segs @ rest" and msg: "is_message segs b"
    and ok: "\<forall>s \<in> set segs. seg_ok s" and cnt: "que_inv k" and b: "length b < 2 ^ 31"
  shows "ikcp_peeksize k = int (length b)"
proof -
  have fm: "first_msg (rcv_queue k) = segs"
    using msg first_msg_countdown by (simp add: q is_message_def)
  have sum: "unat (sum_list (map len segs)) = length b"
    using sum_list_len [OF ok] msg b by (simp add: is_message_def)
  obtain s p where sp: "segs = s # p" using msg by (cases segs) (auto simp: is_message_def)
  have "frg s = word_of_nat (length p)" "length p < 256" using msg by (simp_all add: is_message_def sp)
  then have f: "unat (frg s + 1) = length p + 1" by (subst unat_add_u32) (simp_all add: unat_of_nat)
  have "\<not> nrcv_que k < frg s + 1"
    using cnt by (simp add: word_less_nat_alt f que_inv_def q sp)
  then have "ikcp_peeksize k \<noteq> -1 \<or> sint (sum_list (map len (first_msg (rcv_queue k)))) = -1"
    by (auto simp: ikcp_peeksize_def q sp peek_sum_eq)
  then have "ikcp_peeksize k \<noteq> -1"
    using b by (auto simp: fm unat_sint_u32 sum)
  moreover have "rcv_queue k \<noteq> []" by (simp add: q sp)
  ultimately have "ikcp_peeksize k = sint (sum_list (map len (first_msg (rcv_queue k))))"
    by (intro peeksize_is_merged)
  also have "\<dots> = int (length b)" using b by (simp add: fm unat_sint_u32 sum)
  finally show ?thesis .
qed

definition recv_state :: "ikcpcb \<Rightarrow> ikcpseg list \<Rightarrow> ikcpcb" where
  "recv_state k segs =
    (let k' = move_ready (k\<lparr>rcv_queue := drop (length segs) (rcv_queue k),
                nrcv_que := nrcv_que k - word_of_nat (length segs)\<rparr>)
     in if nrcv_que k' < rcv_wnd k' \<and> rcv_wnd k \<le> nrcv_que k
        then k'\<lparr>probe := probe k' OR IKCP_ASK_TELL\<rparr> else k')"

lemma ikcp_recv_message:
  assumes q: "rcv_queue k = segs @ rest" and msg: "is_message segs b"
    and ok: "\<forall>s \<in> set segs. seg_ok s" and cnt: "que_inv k"
    and b: "int (length b) \<le> l" "l < 2 ^ 31"
  shows "ikcp_recv k True l = Inr (int (length b), b, recv_state k segs)"
proof -
  have fm: "first_msg (rcv_queue k) = segs"
    using msg first_msg_countdown by (simp add: q is_message_def)
  have lb: "length b < 2 ^ 31" using b by simp
  have pk: "ikcp_peeksize k = int (length b)" using q msg ok cnt lb by (rule peeksize_message)
  have sum: "sint (sum_list (map len segs)) = int (length b)"
    using sum_list_len [OF ok] msg lb by (simp add: is_message_def unat_sint_u32)
  have out: "concat (map (\<lambda>s. take (unat (len s)) (data s)) segs) = b"
    using concat_take_data [OF ok] msg by (simp add: is_message_def)
  have ne: "rcv_queue k \<noteq> []" using msg by (simp add: q is_message_def)
  show ?thesis
    using b ne unfolding ikcp_recv_def Let_def recv_merge_eq fm
    by (simp add: pk sum out recv_state_def Let_def)
qed

section \<open>Reading keeps the invariants\<close>

lemma off_Suc: "0 < off base s \<Longrightarrow> off (base + 1) s = off base s - 1"
proof -
  assume "0 < off base s"
  moreover have "sn s - (base + 1) = (sn s - base) - 1" by simp
  ultimately show ?thesis unfolding off_def by (metis One_nat_def Suc_leI unat_1 unat_sub_u32)
qed

lemma sorted_off_Suc:
  "sorted_wrt (<) (map (off base) q) \<Longrightarrow> \<forall>s \<in> set q. 0 < off base s \<Longrightarrow>
    sorted_wrt (<) (map (off (base + 1)) q)"
  by (induction q) (auto simp: off_Suc)

lemma move_step_inv:
  assumes inv: "kcp_inv k" and b: "rcv_buf k = s # rest" and s: "sn s = rcv_nxt k"
    and room: "nrcv_que k < rcv_wnd k"
  shows "kcp_inv (k\<lparr>rcv_buf := rest, nrcv_buf := nrcv_buf k - 1, rcv_queue := rcv_queue k @ [s],
     nrcv_que := nrcv_que k + 1, rcv_nxt := rcv_nxt k + 1\<rparr>)"
proof -
  have a: "unat (nrcv_que k + 1) = length (rcv_queue k) + 1"
    using inv room by (subst unat_add_u32) (auto simp: kcp_inv_defs word_less_nat_alt)
  have c: "unat (nrcv_buf k - 1) = length rest"
    using inv b by (simp add: unat_sub_u32 kcp_inv_defs)
  have z: "off (rcv_nxt k) s = 0" by (simp add: off_def s)
  have pos: "\<forall>x \<in> set rest. 0 < off (rcv_nxt k) x"
    using inv b z by (auto simp: kcp_inv_defs)
  have srt: "sorted_wrt (<) (map (off (rcv_nxt k + 1)) rest)"
    using inv b pos by (intro sorted_off_Suc) (auto simp: kcp_inv_defs)
  have bnd: "\<forall>x \<in> set rest. off (rcv_nxt k + 1) x < 2 ^ 31"
    using inv b pos by (fastforce simp: kcp_inv_defs off_Suc)
  show ?thesis
    using inv b a c srt bnd by (auto simp: kcp_inv_defs)
qed

lemma move_ready_inv: "kcp_inv k \<Longrightarrow> kcp_inv (move_ready k)"
proof (induction k rule: move_ready.induct)
  case (1 k)
  show ?case
  proof (cases "rcv_buf k")
    case Nil
    with "1.prems" show ?thesis by (simp add: move_ready.simps [of k])
  next
    case (Cons s rest)
    show ?thesis
    proof (cases "sn s = rcv_nxt k \<and> nrcv_que k < rcv_wnd k")
      case False
      with "1.prems" Cons show ?thesis by (auto simp: move_ready.simps [of k])
    next
      case True
      then have "kcp_inv (k\<lparr>rcv_buf := rest, nrcv_buf := nrcv_buf k - 1, rcv_queue := rcv_queue k @ [s],
         nrcv_que := nrcv_que k + 1, rcv_nxt := rcv_nxt k + 1\<rparr>)"
        using "1.prems" Cons by (intro move_step_inv) auto
      with "1.IH" [OF Cons True] Cons True show ?thesis
        by (simp add: move_ready.simps [of k])
    qed
  qed
qed

lemma first_msg_length: "length (first_msg q) \<le> length q"
  by (induction q) auto

lemma drop_queue_inv:
  assumes "kcp_inv k" "n \<le> length (rcv_queue k)"
  shows "kcp_inv (k\<lparr>rcv_queue := drop n (rcv_queue k), nrcv_que := nrcv_que k - word_of_nat n\<rparr>)"
proof -
  have q: "unat (nrcv_que k) = length (rcv_queue k)" using assms by (simp add: kcp_inv_defs)
  have "n < 2 ^ 32" using assms(2) q unat_u32_bound [of "nrcv_que k"] by linarith
  then have "unat (word_of_nat n :: u32) = n" by (simp add: unat_of_nat)
  then have "unat (nrcv_que k - word_of_nat n) = length (rcv_queue k) - n"
    using assms(2) q by (simp add: unat_sub_u32)
  with assms show ?thesis by (auto simp: kcp_inv_defs dest: in_set_dropD)
qed

lemma ikcp_recv_inv:
  assumes r: "ikcp_recv k buffer l = Inr (n, out, k')" and inv: "kcp_inv k"
  shows "kcp_inv k'"
proof -
  have probe: "kcp_inv x \<Longrightarrow> kcp_inv (x\<lparr>probe := p\<rparr>)" for x p by (simp add: kcp_inv_defs)
  let ?m = "length (first_msg (rcv_queue k))"
  let ?k = "k\<lparr>rcv_queue := drop ?m (rcv_queue k), nrcv_que := nrcv_que k - word_of_nat ?m\<rparr>"
  have "kcp_inv ?k" using inv first_msg_length by (intro drop_queue_inv)
  then have a: "kcp_inv (move_ready ?k)" by (rule move_ready_inv)
  have b: "kcp_inv (move_ready k)" using inv by (rule move_ready_inv)
  show ?thesis
    using r inv a b
    by (auto simp: ikcp_recv_def Let_def recv_merge_eq intro!: probe split: if_splits)
qed

end
