(* ===== verification/Kcp_Ack.thy ===== *)
theory Kcp_Ack
  imports Kcp_State
begin

text \<open>
  Acknowledgement handling: the round-trip estimator \<open>ikcp_update_ack\<close>, the removal of
  acknowledged segments from \<open>snd_buf\<close> (\<open>ikcp_parse_ack\<close>, \<open>ikcp_parse_una\<close>,
  \<open>ikcp_shrink_buf\<close>), the fast-retransmit counters (\<open>ikcp_parse_fastack\<close>) and the growing
  array of pending acknowledgements (\<open>ikcp_ack_push\<close>, \<open>ikcp_ack_get\<close>).
\<close>

section \<open>Round-trip time\<close>

text \<open>
  Signed 32-bit arithmetic is done on the words and read with \<open>sint\<close>; \<open>delta\<close> is a 64-bit
  \<open>long\<close> of the code, an \<open>int\<close> here; \<open>sdiv\<close> truncates like C.
\<close>

definition ikcp_update_ack :: "ikcpcb \<Rightarrow> u32 \<Rightarrow> ikcpcb" where
  "ikcp_update_ack kcp rtt =
    (let (srtt, rttval) =
       (if rx_srtt kcp = 0 then (rtt, word_of_int (sint rtt sdiv 2))
        else
          let delta = sint (rtt - rx_srtt kcp);
              delta = (if delta < 0 then - delta else delta);
              rttval = word_of_int ((sint (3 * rx_rttval kcp) + delta) sdiv 4);
              srtt = word_of_int (sint (7 * rx_srtt kcp + rtt) sdiv 8)
          in (if sint srtt < 1 then 1 else srtt, rttval));
         rto = srtt + imax (interval kcp) (4 * rttval)
     in kcp\<lparr>rx_srtt := srtt, rx_rttval := rttval,
            rx_rto := ibound (rx_minrto kcp) rto IKCP_RTO_MAX\<rparr>)"

section \<open>Removing acknowledged segments\<close>

definition ikcp_shrink_buf :: "ikcpcb \<Rightarrow> ikcpcb" where
  "ikcp_shrink_buf kcp =
    (case snd_buf kcp of seg # _ \<Rightarrow> kcp\<lparr>snd_una := sn seg\<rparr>
     | [] \<Rightarrow> kcp\<lparr>snd_una := snd_nxt kcp\<rparr>)"

fun parse_ack_loop :: "u32 \<Rightarrow> ikcpseg list \<Rightarrow> u32 \<Rightarrow> ikcpseg list \<times> u32" where
  "parse_ack_loop s [] n = ([], n)"
| "parse_ack_loop s (seg # p) n =
    (if s = sn seg then (p, n - 1)
     else if itimediff s (sn seg) < 0 then (seg # p, n)
     else let (p, n) = parse_ack_loop s p n in (seg # p, n))"

definition ikcp_parse_ack :: "ikcpcb \<Rightarrow> u32 \<Rightarrow> ikcpcb" where
  "ikcp_parse_ack kcp s =
    (if itimediff s (snd_una kcp) < 0 \<or> itimediff s (snd_nxt kcp) \<ge> 0 then kcp
     else let (b, n) = parse_ack_loop s (snd_buf kcp) (nsnd_buf kcp)
          in kcp\<lparr>snd_buf := b, nsnd_buf := n\<rparr>)"

fun parse_una_loop :: "u32 \<Rightarrow> ikcpseg list \<Rightarrow> u32 \<Rightarrow> ikcpseg list \<times> u32" where
  "parse_una_loop u [] n = ([], n)"
| "parse_una_loop u (seg # p) n =
    (if itimediff u (sn seg) > 0 then parse_una_loop u p (n - 1) else (seg # p, n))"

definition ikcp_parse_una :: "ikcpcb \<Rightarrow> u32 \<Rightarrow> ikcpcb" where
  "ikcp_parse_una kcp u =
    (let (b, n) = parse_una_loop u (snd_buf kcp) (nsnd_buf kcp)
     in kcp\<lparr>snd_buf := b, nsnd_buf := n\<rparr>)"

fun fastack_loop :: "u32 \<Rightarrow> ikcpseg list \<Rightarrow> ikcpseg list" where
  "fastack_loop s [] = []"
| "fastack_loop s (seg # p) =
    (if itimediff s (sn seg) < 0 then seg # p
     else (if s \<noteq> sn seg then seg\<lparr>fastack := fastack seg + 1\<rparr> else seg) # fastack_loop s p)"

definition ikcp_parse_fastack :: "ikcpcb \<Rightarrow> u32 \<Rightarrow> ikcpcb" where
  "ikcp_parse_fastack kcp s =
    (if itimediff s (snd_una kcp) < 0 \<or> itimediff s (snd_nxt kcp) \<ge> 0 then kcp
     else kcp\<lparr>snd_buf := fastack_loop s (snd_buf kcp)\<rparr>)"

section \<open>The list of pending acknowledgements\<close>

text \<open>The doubling loop \<open>for (newblock = 8; newblock < newsize; newblock <<= 1)\<close>.\<close>

function grow_block :: "nat \<Rightarrow> nat \<Rightarrow> nat" where
  "grow_block newblock newsize =
    (if 0 < newblock \<and> newblock < newsize then grow_block (2 * newblock) newsize else newblock)"
  by pat_completeness auto
termination by (relation "measure (\<lambda>(b, s). s - b)") auto

declare grow_block.simps [simp del]

text \<open>
  Memory fresh from the allocator is taken as zeroes; its cells are written before they are
  read. A failing allocation aborts the program.
\<close>

definition ack_grow :: "bool \<Rightarrow> ikcpcb \<Rightarrow> ikcpcb result" where
  "ack_grow ok kcp =
    (let newsize = unat (ackcount kcp + 1)
     in if newsize > unat (ackblock kcp)
        then let newblock = grow_block 8 newsize
             in if \<not> ok then Inl AssertFailed
                else Inr (kcp\<lparr>acklist := take (2 * unat (ackcount kcp)) (acklist kcp)
                                @ replicate (2 * newblock - 2 * unat (ackcount kcp)) 0,
                             ackblock := word_of_nat newblock\<rparr>)
        else Inr kcp)"

definition ikcp_ack_push :: "bool \<Rightarrow> ikcpcb \<Rightarrow> u32 \<Rightarrow> u32 \<Rightarrow> ikcpcb result" where
  "ikcp_ack_push ok kcp s t =
    (case ack_grow ok kcp of Inl e \<Rightarrow> Inl e
     | Inr kcp \<Rightarrow>
        (let i = unat (ackcount kcp * 2)
         in if length (acklist kcp) < i + 2 then Inl BufferOverrun
            else Inr (kcp\<lparr>acklist := (acklist kcp)[i := s, i + 1 := t],
                         ackcount := ackcount kcp + 1\<rparr>)))"

definition ikcp_ack_get :: "ikcpcb \<Rightarrow> nat \<Rightarrow> (u32 \<times> u32) result" where
  "ikcp_ack_get kcp p =
    (if length (acklist kcp) < 2 * p + 2 then Inl BufferOverrun
     else Inr (acklist kcp ! (2 * p), acklist kcp ! (2 * p + 1)))"

text \<open>The abstract content: the pairs pushed since the last flush.\<close>

definition acks :: "ikcpcb \<Rightarrow> (u32 \<times> u32) list" where
  "acks k = map (\<lambda>i. (acklist k ! (2 * i), acklist k ! (2 * i + 1))) [0..<unat (ackcount k)]"

section \<open>The retransmission timeout is always inside its bounds\<close>

lemma ibound_bounds: "l \<le> u \<Longrightarrow> l \<le> ibound l m u \<and> ibound l m u \<le> u"
  by (auto simp: ibound_def imin_def imax_def)

lemma update_ack_rto_bounds:
  assumes "rto_inv k"
  shows "rx_minrto k \<le> rx_rto (ikcp_update_ack k rtt) \<and> unat (rx_rto (ikcp_update_ack k rtt)) \<le> 60000"
proof -
  have "rx_minrto k \<le> IKCP_RTO_MAX" using assms by (auto simp: rto_inv_def ikcp_consts)
  then have "rx_minrto k \<le> rx_rto (ikcp_update_ack k rtt) \<and> rx_rto (ikcp_update_ack k rtt) \<le> IKCP_RTO_MAX"
    unfolding ikcp_update_ack_def Let_def by (simp add: ibound_bounds split: prod.split)
  then show ?thesis by (auto simp: IKCP_RTO_MAX_def word_le_nat_alt)
qed

text \<open>
  Below \<open>2 ^ 28\<close> milliseconds nothing overflows, and the estimator is the integer form of the
  usual exponentially weighted averages.
\<close>

lemma sdiv_nonneg: "0 \<le> a \<Longrightarrow> 0 < b \<Longrightarrow> (a :: int) sdiv b = a div b"
  by (cases "a = 0") (auto simp: signed_divide_int_def sgn_if)

lemma unat_mult_small: "n * unat w < 2 ^ 32 \<Longrightarrow> unat (word_of_nat n * w :: u32) = n * unat w"
proof -
  assume a: "n * unat w < 2 ^ 32"
  show ?thesis
  proof (cases "unat w = 0")
    case True then show ?thesis by (simp add: unat_eq_zero)
  next
    case False
    then have "n \<le> n * unat w" by simp
    then have "n < 2 ^ 32" using a by (rule le_less_trans)
    with a show ?thesis by (simp add: unat_word_ariths unat_of_nat)
  qed
qed

lemma update_ack_first:
  assumes "rx_srtt k = 0" "unat rtt < 2 ^ 28"
  shows "unat (rx_srtt (ikcp_update_ack k rtt)) = unat rtt"
    and "unat (rx_rttval (ikcp_update_ack k rtt)) = unat rtt div 2"
proof -
  have s: "sint rtt = int (unat rtt)" using assms by (simp add: sint_u32_unat)
  have "sint rtt sdiv 2 = int (unat rtt div 2)" by (simp add: s sdiv_nonneg zdiv_int)
  moreover have "unat (word_of_int (int (unat rtt div 2)) :: u32) = unat rtt div 2"
    using assms by (subst unat_word_of_int_u32) (auto simp: zdiv_int)
  ultimately show "unat (rx_rttval (ikcp_update_ack k rtt)) = unat rtt div 2"
    using assms by (simp add: ikcp_update_ack_def Let_def del: of_int_of_nat_eq)
  show "unat (rx_srtt (ikcp_update_ack k rtt)) = unat rtt"
    using assms by (simp add: ikcp_update_ack_def Let_def)
qed

lemma update_ack_later:
  assumes "rx_srtt k \<noteq> 0" "unat rtt < 2 ^ 28" "unat (rx_srtt k) < 2 ^ 28" "unat (rx_rttval k) < 2 ^ 28"
  shows "unat (rx_srtt (ikcp_update_ack k rtt)) = max 1 ((7 * unat (rx_srtt k) + unat rtt) div 8)"
    and "unat (rx_rttval (ikcp_update_ack k rtt)) =
      (3 * unat (rx_rttval k) + (if unat rtt < unat (rx_srtt k) then unat (rx_srtt k) - unat rtt
                                  else unat rtt - unat (rx_srtt k))) div 4"
proof -
  let ?s = "unat (rx_srtt k)" and ?v = "unat (rx_rttval k)" and ?r = "unat rtt"
  have s7: "unat (7 * rx_srtt k) = 7 * ?s" using unat_mult_small [of 7 "rx_srtt k"] assms by simp
  have v3: "unat (3 * rx_rttval k) = 3 * ?v" using unat_mult_small [of 3 "rx_rttval k"] assms by simp
  have sum: "unat (7 * rx_srtt k + rtt) = 7 * ?s + ?r" using assms by (simp add: unat_add_u32 s7)
  have a: "sint (7 * rx_srtt k + rtt) sdiv 8 = int ((7 * ?s + ?r) div 8)"
    using assms by (simp add: sint_u32_unat sum sdiv_nonneg zdiv_int)
  have ua: "unat (word_of_int (int ((7 * ?s + ?r) div 8)) :: u32) = (7 * ?s + ?r) div 8"
    using assms by (subst unat_word_of_int_u32) auto
  have sa: "sint (word_of_int (int ((7 * ?s + ?r) div 8)) :: u32) = int ((7 * ?s + ?r) div 8)"
    unfolding sint_u32_unat ua using assms by auto
  show "unat (rx_srtt (ikcp_update_ack k rtt)) = max 1 ((7 * ?s + ?r) div 8)"
    using assms(1) ua sa
    by (auto simp: ikcp_update_ack_def Let_def a simp del: of_int_of_nat_eq)
  let ?d = "if ?r < ?s then ?s - ?r else ?r - ?s"
  have d: "(if sint (rtt - rx_srtt k) < 0 then - sint (rtt - rx_srtt k) else sint (rtt - rx_srtt k)) = int ?d"
    using assms by (auto simp: sint_u32_unat unat_sub_u32)
  have b: "(sint (3 * rx_rttval k) + int ?d) sdiv 4 = int ((3 * ?v + ?d) div 4)"
    using assms by (simp add: sint_u32_unat v3 sdiv_nonneg zdiv_int)
  have ub: "unat (word_of_int (int ((3 * ?v + ?d) div 4)) :: u32) = (3 * ?v + ?d) div 4"
    using assms by (subst unat_word_of_int_u32) auto
  show "unat (rx_rttval (ikcp_update_ack k rtt)) = (3 * ?v + ?d) div 4"
    using assms(1) unfolding ikcp_update_ack_def Let_def d b
    by (simp add: ub del: of_int_of_nat_eq)
qed

section \<open>What acknowledgements remove\<close>

lemma parse_una_loop_eq:
  "parse_una_loop u q n =
    (dropWhile (\<lambda>s. itimediff u (sn s) > 0) q,
     n - word_of_nat (length (takeWhile (\<lambda>s. itimediff u (sn s) > 0) q)))"
  by (induction u q n rule: parse_una_loop.induct) (auto simp: diff_diff_eq)

text \<open>A segment list in window order: increasing distances from a base, all below a bound.\<close>

definition in_window :: "u32 \<Rightarrow> nat \<Rightarrow> ikcpseg list \<Rightarrow> bool" where
  "in_window base w q \<longleftrightarrow> sorted_wrt (<) (map (off base) q) \<and> (\<forall>s \<in> set q. off base s < w)"

lemma in_window_Cons:
  "in_window base w (s # q) \<longleftrightarrow>
    off base s < w \<and> (\<forall>x \<in> set q. off base s < off base x) \<and> in_window base w q"
  by (auto simp: in_window_def)

lemma itimediff_off:
  "unat (u - base) < 2 ^ 31 \<Longrightarrow> off base s < 2 ^ 31 \<Longrightarrow>
    itimediff u (sn s) = int (unat (u - base)) - int (off base s)"
  unfolding off_def by (rule itimediff_from_base)

lemma off_eq_iff: "off base s = unat (u - base) \<longleftrightarrow> sn s = u"
proof -
  have "sn s - base = u - base \<longleftrightarrow> sn s = u" by simp
  then show ?thesis by (simp add: off_def word_unat_eq_iff [symmetric])
qed

text \<open>
  The cumulative acknowledgement \<open>u\<close> removes the segments before \<open>u\<close> and keeps the others;
  a selective acknowledgement removes the segment with that number only.
\<close>

lemma parse_una_window:
  assumes "in_window base w q" "w \<le> 2 ^ 31" "unat (u - base) < 2 ^ 31"
  shows "dropWhile (\<lambda>s. itimediff u (sn s) > 0) q = filter (\<lambda>s. unat (u - base) \<le> off base s) q"
  using assms
proof (induction q)
  case Nil
  then show ?case by simp
next
  case (Cons s q)
  then have s: "off base s < 2 ^ 31" "in_window base w q" "\<forall>x \<in> set q. off base s < off base x"
    by (auto simp: in_window_Cons)
  have d: "itimediff u (sn s) > 0 \<longleftrightarrow> off base s < unat (u - base)"
    using itimediff_off [OF Cons.prems(3) s(1)] by auto
  show ?case
  proof (cases "off base s < unat (u - base)")
    case True
    with d s Cons show ?thesis by simp
  next
    case False
    with d s(3) show ?thesis by (auto intro!: filter_True [symmetric])
  qed
qed

lemma parse_ack_window:
  assumes "in_window base w q" "w \<le> 2 ^ 31" "unat (u - base) < 2 ^ 31"
  shows "parse_ack_loop u q n =
    (filter (\<lambda>s. sn s \<noteq> u) q, n - word_of_nat (length (filter (\<lambda>s. sn s = u) q)))"
  using assms
proof (induction u q n rule: parse_ack_loop.induct)
  case (1 u n)
  then show ?case by simp
next
  case (2 u s q n)
  then have s: "off base s < 2 ^ 31" "in_window base w q" "\<forall>x \<in> set q. off base s < off base x"
    by (auto simp: in_window_Cons)
  have later: "\<forall>x \<in> set q. sn x \<noteq> u" if "unat (u - base) \<le> off base s"
  proof
    fix x assume "x \<in> set q"
    with s(3) that have "unat (u - base) < off base x" by fastforce
    then show "sn x \<noteq> u" using off_eq_iff [of base x u] by auto
  qed
  consider "sn s = u" | "sn s \<noteq> u" "itimediff u (sn s) < 0" | "sn s \<noteq> u" "\<not> itimediff u (sn s) < 0" by blast
  then show ?case
  proof cases
    case 1
    then have "off base s = unat (u - base)" by (simp add: off_eq_iff)
    with later have "\<forall>x \<in> set q. sn x \<noteq> u" by simp
    with 1 show ?thesis by (auto simp: filter_empty_conv intro!: filter_True [symmetric])
  next
    case c: 2
    then have "unat (u - base) \<le> off base s" using itimediff_off [OF "2.prems"(3) s(1)] by simp
    with later have "\<forall>x \<in> set q. sn x \<noteq> u" by simp
    with c show ?thesis by (auto simp: filter_empty_conv intro!: filter_True [symmetric])
  next
    case 3
    with "2.IH" s "2.prems" show ?thesis by (auto simp: Let_def)
  qed
qed

section \<open>Acknowledging keeps the invariants\<close>

lemma sndwin_in_window:
  "kcp_inv k \<Longrightarrow> in_window (snd_una k) (unat (snd_nxt k - snd_una k)) (snd_buf k)"
  by (simp add: kcp_inv_defs in_window_def)

lemma snd_buf_sub_inv:
  assumes "kcp_inv k" "set q \<subseteq> set (snd_buf k)" "sorted_wrt (<) (map (off (snd_una k)) q)"
    "unat n = length q"
  shows "kcp_inv (k\<lparr>snd_buf := q, nsnd_buf := n\<rparr>)"
  using assms by (auto simp: kcp_inv_defs)

lemma unat_minus_count:
  assumes "unat n = length q" "a + b = length q"
  shows "unat (n - word_of_nat a :: u32) = b"
proof -
  have "a < 2 ^ 32" using assms unat_u32_bound [of n] by linarith
  then have "unat (word_of_nat a :: u32) = a" by (simp add: unat_of_nat)
  with assms show ?thesis by (auto simp: unat_sub_u32)
qed

lemma parse_una_inv:
  assumes "kcp_inv k" shows "kcp_inv (ikcp_parse_una k u)"
proof -
  let ?P = "\<lambda>s. itimediff u (sn s) > 0"
  have "length (takeWhile ?P (snd_buf k)) + length (dropWhile ?P (snd_buf k)) = length (snd_buf k)"
    by (metis length_append takeWhile_dropWhile_id)
  then have "unat (nsnd_buf k - word_of_nat (length (takeWhile ?P (snd_buf k)))) = length (dropWhile ?P (snd_buf k))"
    using assms by (intro unat_minus_count) (simp_all add: kcp_inv_defs)
  moreover have "sorted_wrt (<) (map (off (snd_una k)) (dropWhile ?P (snd_buf k)))"
    using assms by (simp add: kcp_inv_defs dropWhile_map [symmetric] sorted_wrt_dropWhile
      dropWhile_eq_drop drop_map [symmetric] sorted_wrt_drop)
  ultimately show ?thesis
    unfolding ikcp_parse_una_def parse_una_loop_eq
    using assms by (auto intro!: snd_buf_sub_inv dest: set_dropWhileD)
qed

text \<open>Exactly the segment with the number goes: outside the window there is none.\<close>

lemma parse_ack_filter:
  assumes inv: "kcp_inv k"
  shows "snd_buf (ikcp_parse_ack k u) = filter (\<lambda>s. sn s \<noteq> u) (snd_buf k)"
proof (cases "itimediff u (snd_una k) < 0 \<or> itimediff u (snd_nxt k) \<ge> 0")
  case True
  have "sn s \<noteq> u" if s: "s \<in> set (snd_buf k)" for s
  proof
    assume e: "sn s = u"
    have w: "unat (u - snd_una k) < unat (snd_nxt k - snd_una k)" "unat (snd_nxt k - snd_una k) < 2 ^ 16"
      using inv s e by (auto simp: kcp_inv_defs off_def)
    then have "itimediff u (snd_una k) = int (unat (u - snd_una k))"
      "itimediff u (snd_nxt k) = int (unat (u - snd_una k)) - int (unat (snd_nxt k - snd_una k))"
      by (auto intro!: itimediff_nat itimediff_from_base)
    with w True show False by linarith
  qed
  then show ?thesis using True by (auto simp: ikcp_parse_ack_def intro: filter_True [symmetric])
next
  case False
  then have u: "unat (u - snd_una k) < 2 ^ 31" using itimediff_nonneg_iff [of u "snd_una k"] by simp
  have w: "unat (snd_nxt k - snd_una k) \<le> 2 ^ 31" using inv by (simp add: kcp_inv_defs)
  show ?thesis
    using False parse_ack_window [OF sndwin_in_window [OF inv] w u] by (auto simp: ikcp_parse_ack_def)
qed

lemma parse_ack_inv:
  assumes inv: "kcp_inv k" shows "kcp_inv (ikcp_parse_ack k u)"
proof (cases "itimediff u (snd_una k) < 0 \<or> itimediff u (snd_nxt k) \<ge> 0")
  case True
  with inv show ?thesis by (auto simp: ikcp_parse_ack_def)
next
  case False
  then have u: "unat (u - snd_una k) < 2 ^ 31" using itimediff_nonneg_iff [of u "snd_una k"] by simp
  have w: "unat (snd_nxt k - snd_una k) \<le> 2 ^ 31" using inv by (simp add: kcp_inv_defs)
  have e: "parse_ack_loop u (snd_buf k) (nsnd_buf k) =
    (filter (\<lambda>s. sn s \<noteq> u) (snd_buf k), nsnd_buf k - word_of_nat (length (filter (\<lambda>s. sn s = u) (snd_buf k))))"
    using sndwin_in_window [OF inv] w u by (rule parse_ack_window)
  have "length (filter (\<lambda>s. sn s = u) (snd_buf k)) + length (filter (\<lambda>s. sn s \<noteq> u) (snd_buf k)) = length (snd_buf k)"
    by (rule sum_length_filter_compl)
  then have n: "unat (nsnd_buf k - word_of_nat (length (filter (\<lambda>s. sn s = u) (snd_buf k)))) =
      length (filter (\<lambda>s. sn s \<noteq> u) (snd_buf k))"
    using inv by (intro unat_minus_count) (simp_all add: kcp_inv_defs)
  have "sorted_wrt (<) (map (off (snd_una k)) (filter (\<lambda>s. sn s \<noteq> u) (snd_buf k)))"
    using inv by (simp add: kcp_inv_defs sorted_wrt_map sorted_wrt_filter)
  with n show ?thesis
    using inv False unfolding ikcp_parse_ack_def by (auto simp: e intro!: snd_buf_sub_inv)
qed

lemma unat_sub_le: "unat b \<le> unat a \<Longrightarrow> unat (a - b :: u32) = unat a - unat b"
  by (simp add: unat_sub_u32)

lemma off_rebase:
  assumes "off base h \<le> off base s"
  shows "off (sn h) s = off base s - off base h"
proof -
  have e: "sn s - sn h = (sn s - base) - (sn h - base)" by simp
  have "unat ((sn s - base) - (sn h - base)) = unat (sn s - base) - unat (sn h - base)"
    using assms unfolding off_def by (rule unat_sub_le)
  then show ?thesis unfolding off_def by (simp only: e [symmetric])
qed

lemma shrink_buf_inv:
  assumes inv: "kcp_inv k" shows "kcp_inv (ikcp_shrink_buf k)"
proof (cases "snd_buf k")
  case Nil
  with inv show ?thesis by (auto simp: ikcp_shrink_buf_def kcp_inv_defs)
next
  case (Cons h q)
  let ?d = "unat (snd_nxt k - snd_una k)"
  have ge: "\<forall>s \<in> set (snd_buf k). off (snd_una k) h \<le> off (snd_una k) s"
    using inv Cons by (auto simp: kcp_inv_defs)
  have r: "\<forall>s \<in> set (snd_buf k). off (sn h) s = off (snd_una k) s - off (snd_una k) h"
    using ge by (auto intro: off_rebase)
  have hd: "off (snd_una k) h < ?d" using inv Cons by (auto simp: kcp_inv_defs)
  have e: "snd_nxt k - sn h = (snd_nxt k - snd_una k) - (sn h - snd_una k)" by simp
  have "unat ((snd_nxt k - snd_una k) - (sn h - snd_una k)) = ?d - unat (sn h - snd_una k)"
    using hd unfolding off_def by (intro unat_sub_le) simp
  then have n: "unat (snd_nxt k - sn h) = ?d - off (snd_una k) h"
    unfolding off_def by (simp only: e [symmetric])
  have "sorted_wrt (<) (map (off (sn h)) (snd_buf k))"
    unfolding sorted_wrt_map
  proof (rule sorted_wrt_mono_rel)
    show "sorted_wrt (\<lambda>x y. off (snd_una k) x < off (snd_una k) y) (snd_buf k)"
      using inv by (simp add: kcp_inv_defs sorted_wrt_map)
    show "off (sn h) x < off (sn h) y"
      if "x \<in> set (snd_buf k)" "y \<in> set (snd_buf k)" "off (snd_una k) x < off (snd_una k) y" for x y
      using that r ge by (simp add: diff_less_mono)
  qed
  moreover have "\<forall>s \<in> set (snd_buf k). off (sn h) s < unat (snd_nxt k - sn h)"
    using inv r n ge by (fastforce simp: kcp_inv_defs)
  moreover have "unat (snd_nxt k - sn h) < 2 ^ 16" using inv n by (auto simp: kcp_inv_defs)
  ultimately show ?thesis using inv Cons by (simp add: ikcp_shrink_buf_def kcp_inv_defs)
qed

lemma fastack_loop_facts:
  "length (fastack_loop u q) = length q" "map sn (fastack_loop u q) = map sn q"
  "map (off base) (fastack_loop u q) = map (off base) q"
  "map data (fastack_loop u q) = map data q" "map len (fastack_loop u q) = map len q"
  by (induction u q rule: fastack_loop.induct) (auto simp: off_def)

lemma fastack_loop_members:
  "x \<in> set (fastack_loop u q) \<Longrightarrow> \<exists>s \<in> set q. sn x = sn s \<and> data x = data s \<and> len x = len s"
  by (induction u q rule: fastack_loop.induct) (auto split: if_splits)

lemma parse_fastack_inv:
  assumes inv: "kcp_inv k" shows "kcp_inv (ikcp_parse_fastack k u)"
proof -
  have "seg_ok x \<and> length (data x) \<le> unat (mss k) \<and> off (snd_una k) x < unat (snd_nxt k - snd_una k)"
    if "x \<in> set (fastack_loop u (snd_buf k))" for x
    using fastack_loop_members [OF that] inv by (auto simp: kcp_inv_defs seg_ok_def off_def)
  then show ?thesis
    using inv by (auto simp: ikcp_parse_fastack_def kcp_inv_defs fastack_loop_facts)
qed

lemma update_ack_inv: "kcp_inv k \<Longrightarrow> kcp_inv (ikcp_update_ack k rtt)"
  by (simp add: ikcp_update_ack_def Let_def kcp_inv_defs split: prod.split)

section \<open>Pending acknowledgements\<close>

lemma grow_block_bounds: "0 < b \<Longrightarrow> n \<le> grow_block b n \<and> grow_block b n \<le> max b (2 * n)"
proof (induction b n rule: grow_block.induct)
  case (1 b n)
  show ?case
  proof (cases "b < n")
    case True
    with 1 show ?thesis by (auto simp: grow_block.simps [of b n])
  next
    case False
    with "1.prems" show ?thesis by (auto simp: grow_block.simps [of b n])
  qed
qed

lemma ack_grow_spec:
  assumes inv: "ack_inv k" and small: "unat (ackcount k) < 2 ^ 30" and g: "ack_grow ok k = Inr k'"
  shows "\<exists>l b. k' = k\<lparr>acklist := l, ackblock := b\<rparr> \<and> unat (ackcount k) < unat b
    \<and> length l = 2 * unat b \<and> take (2 * unat (ackcount k)) l = take (2 * unat (ackcount k)) (acklist k)"
proof -
  let ?n = "unat (ackcount k)"
  have n1: "unat (ackcount k + 1) = ?n + 1" using small by (subst unat_add_u32) auto
  show ?thesis
  proof (cases "?n + 1 > unat (ackblock k)")
    case False
    then have "k' = k" using g n1 by (simp add: ack_grow_def Let_def)
    then have "k' = k\<lparr>acklist := acklist k, ackblock := ackblock k\<rparr>" by simp
    with False inv show ?thesis unfolding ack_inv_def by (metis Suc_eq_plus1 Suc_le_lessD not_less)
  next
    case True
    let ?b = "grow_block 8 (?n + 1)"
    have b: "?n + 1 \<le> ?b" "?b < 2 ^ 32" using grow_block_bounds [of 8 "?n + 1"] small by auto
    then have u: "unat (word_of_nat ?b :: u32) = ?b" by (simp add: unat_of_nat)
    let ?l = "take (2 * ?n) (acklist k) @ replicate (2 * ?b - 2 * ?n) 0"
    have k': "k' = k\<lparr>acklist := ?l, ackblock := word_of_nat ?b\<rparr>"
      using g True by (auto simp: ack_grow_def Let_def n1 split: if_splits)
    have "2 * ?n \<le> length (acklist k)" using inv by (simp add: ack_inv_def)
    with u b have "?n < unat (word_of_nat ?b :: u32)" "length ?l = 2 * unat (word_of_nat ?b :: u32)"
      "take (2 * ?n) ?l = take (2 * ?n) (acklist k)" by simp_all
    with k' show ?thesis by blast
  qed
qed

lemma acks_upd:
  assumes "2 * n + 2 \<le> length l" "take (2 * n) l = take (2 * n) m" "2 * n \<le> length m"
  shows "map (\<lambda>i. (l[2 * n := s, 2 * n + 1 := t] ! (2 * i), l[2 * n := s, 2 * n + 1 := t] ! (2 * i + 1))) [0..<n + 1]
    = map (\<lambda>i. (m ! (2 * i), m ! (2 * i + 1))) [0..<n] @ [(s, t)]"
proof -
  have "l ! j = m ! j" if "j < 2 * n" for j
    using that assms(2) by (metis nth_take)
  then show ?thesis using assms(1) by (simp add: nth_list_update)
qed

lemma ack_push_spec:
  assumes inv: "ack_inv k" and small: "unat (ackcount k) < 2 ^ 30" and p: "ikcp_ack_push ok k s t = Inr k'"
  shows "acks k' = acks k @ [(s, t)] \<and> ack_inv k' \<and> unat (ackcount k') = unat (ackcount k) + 1
    \<and> k' = k\<lparr>acklist := acklist k', ackblock := ackblock k', ackcount := ackcount k'\<rparr>"
proof -
  let ?n = "unat (ackcount k)"
  from p obtain g where g: "ack_grow ok k = Inr g" by (auto simp: ikcp_ack_push_def split: sum.splits)
  from ack_grow_spec [OF inv small g] obtain l b where
    G: "g = k\<lparr>acklist := l, ackblock := b\<rparr>" "?n < unat b" "length l = 2 * unat b"
      "take (2 * ?n) l = take (2 * ?n) (acklist k)" by blast
  have n1: "unat (ackcount k + 1) = ?n + 1" using small by (subst unat_add_u32) auto
  have n2: "unat (ackcount k * 2) = 2 * ?n" using small by (simp add: unat_word_ariths mult.commute)
  have k': "k' = k\<lparr>acklist := l[2 * ?n := s, 2 * ?n + 1 := t], ackblock := b, ackcount := ackcount k + 1\<rparr>"
    using p g G by (auto simp: ikcp_ack_push_def Let_def n2)
  have "acks k' = acks k @ [(s, t)]"
    using acks_upd [of ?n l "acklist k" s t] G inv unfolding k' acks_def ack_inv_def by (simp add: n1)
  moreover have "ack_inv k'" using G k' n1 by (simp add: ack_inv_def)
  ultimately show ?thesis using k' n1 by simp
qed

lemma ack_push_total:
  assumes inv: "ack_inv k" and small: "unat (ackcount k) < 2 ^ 30"
  shows "\<exists>k'. ikcp_ack_push True k s t = Inr k'"
proof -
  have "\<exists>g. ack_grow True k = Inr g" by (auto simp: ack_grow_def Let_def)
  then obtain g where g: "ack_grow True k = Inr g" by blast
  from ack_grow_spec [OF inv small g] obtain l b where
    G: "g = k\<lparr>acklist := l, ackblock := b\<rparr>" "unat (ackcount k) < unat b" "length l = 2 * unat b" by blast
  have n2: "unat (ackcount k * 2) = 2 * unat (ackcount k)" using small by (simp add: unat_word_ariths mult.commute)
  show ?thesis using g G by (simp add: ikcp_ack_push_def Let_def n2)
qed

lemma ack_push_inv:
  assumes "kcp_inv k" "unat (ackcount k) < 2 ^ 30" "ikcp_ack_push ok k s t = Inr k'"
  shows "kcp_inv k'"
proof -
  have "ack_inv k" using assms(1) by (simp add: kcp_inv_def)
  note P = ack_push_spec [OF this assms(2,3)]
  then obtain l b c where "k' = k\<lparr>acklist := l, ackblock := b, ackcount := c\<rparr>" by blast
  with P assms(1) show ?thesis by (simp add: kcp_inv_defs)
qed

lemma ack_get_acks:
  assumes "ack_inv k" "p < unat (ackcount k)"
  shows "ikcp_ack_get k p = Inr (acks k ! p)"
  using assms by (simp add: ikcp_ack_get_def acks_def ack_inv_def)

end
