(* ===== verification/Kcp_Input.thy ===== *)
theory Kcp_Input
  imports Kcp_Recv Kcp_Ack
begin

text \<open>
  The receiving side seen by the network: \<open>ikcp_parse_data\<close> sorts a data segment into
  \<open>rcv_buf\<close>, \<open>ikcp_input\<close> reads the segments of a datagram one after the other, and the
  congestion window opens when the datagram acknowledged something new.
\<close>

section \<open>\<open>ikcp_parse_data\<close>\<close>

text \<open>
  The search runs backwards from the tail of \<open>rcv_buf\<close>: the list is the reversed buffer. The
  flag is \<open>repeat\<close>, raised when a segment with the same number is met.
\<close>

fun rcv_search :: "ikcpseg \<Rightarrow> ikcpseg list \<Rightarrow> ikcpseg list \<times> bool" where
  "rcv_search newseg [] = ([newseg], False)"
| "rcv_search newseg (seg # prev) =
    (if sn seg = sn newseg then (seg # prev, True)
     else if itimediff (sn newseg) (sn seg) > 0 then (newseg # seg # prev, False)
     else let (r, rep) = rcv_search newseg prev in (seg # r, rep))"

definition ikcp_parse_data :: "ikcpcb \<Rightarrow> ikcpseg \<Rightarrow> ikcpcb" where
  "ikcp_parse_data kcp newseg =
    (if itimediff (sn newseg) (rcv_nxt kcp + rcv_wnd kcp) \<ge> 0 \<or> itimediff (sn newseg) (rcv_nxt kcp) < 0
     then kcp
     else
       let (r, rep) = rcv_search newseg (rev (rcv_buf kcp));
           kcp = (if rep then kcp
                  else kcp\<lparr>rcv_buf := rev r, nrcv_buf := nrcv_buf kcp + 1\<rparr>)
       in move_ready kcp)"

section \<open>\<open>ikcp_input\<close>\<close>

text \<open>
  One segment of the datagram, after its header has been accepted. The allocator answers
  \<open>ok 0\<close> for the acknowledgement list and \<open>ok 1\<close> for the segment, whose result the code
  uses without a check. The loop state is the control block, \<open>flag\<close> and \<open>maxack\<close>.
\<close>

definition input_ack :: "ikcpcb \<Rightarrow> int \<Rightarrow> u32 \<Rightarrow> u32 \<Rightarrow> u32 \<Rightarrow> ikcpcb \<times> int \<times> u32" where
  "input_ack kcp flag maxack s t =
    (let kcp = (if itimediff (current kcp) t \<ge> 0
                then ikcp_update_ack kcp (word_of_int (itimediff (current kcp) t)) else kcp);
         kcp = ikcp_shrink_buf (ikcp_parse_ack kcp s)
     in if flag = 0 then (kcp, 1, s)
        else (kcp, flag, if itimediff s maxack > 0 then s else maxack))"

definition new_segment :: "wire_hdr \<Rightarrow> bytes \<Rightarrow> ikcpseg" where
  "new_segment h p =
    \<lparr>conv = h_conv h, cmd = ucast (h_cmd h), frg = ucast (h_frg h), wnd = ucast (h_wnd h), ts = h_ts h,
     sn = h_sn h, una = h_una h, len = h_len h, resendts = 0, rto = 0, fastack = 0, xmit = 0,
     data = take (unat (h_len h)) p\<rparr>"

definition input_push :: "(nat \<Rightarrow> bool) \<Rightarrow> ikcpcb \<Rightarrow> wire_hdr \<Rightarrow> bytes \<Rightarrow> ikcpcb result" where
  "input_push ok kcp h p =
    (if itimediff (h_sn h) (rcv_nxt kcp + rcv_wnd kcp) < 0
     then case ikcp_ack_push (ok 0) kcp (h_sn h) (h_ts h) of Inl e \<Rightarrow> Inl e
       | Inr kcp \<Rightarrow>
          (if itimediff (h_sn h) (rcv_nxt kcp) \<ge> 0
           then if \<not> ok 1 then Inl NullPointer
                else Inr (ikcp_parse_data kcp (new_segment h p))
           else Inr kcp)
     else Inr kcp)"

definition input_seg :: "(nat \<Rightarrow> bool) \<Rightarrow> wire_hdr \<Rightarrow> bytes \<Rightarrow> ikcpcb \<times> int \<times> u32
    \<Rightarrow> (ikcpcb \<times> int \<times> u32) result" where
  "input_seg ok h p st =
    (let (kcp, flag, maxack) = st;
         kcp = kcp\<lparr>rmt_wnd := ucast (h_wnd h)\<rparr>;
         kcp = ikcp_shrink_buf (ikcp_parse_una kcp (h_una h));
         cmd = (ucast (h_cmd h) :: u32)
     in if cmd = IKCP_CMD_ACK then Inr (input_ack kcp flag maxack (h_sn h) (h_ts h))
        else if cmd = IKCP_CMD_PUSH
             then (case input_push ok kcp h p of Inl e \<Rightarrow> Inl e
                   | Inr kcp \<Rightarrow> Inr (kcp, flag, maxack))
        else if cmd = IKCP_CMD_WASK
             then Inr (kcp\<lparr>probe := probe kcp OR IKCP_ASK_TELL\<rparr>, flag, maxack)
        else Inr (kcp, flag, maxack))"

definition cmd_known :: "u8 \<Rightarrow> bool" where
  "cmd_known c \<longleftrightarrow> ucast c = IKCP_CMD_PUSH \<or> ucast c = IKCP_CMD_ACK \<or> ucast c = IKCP_CMD_WASK
     \<or> ucast c = IKCP_CMD_WINS"

lemma decode32_length: "ikcp_decode32u p = Some (v, q) \<Longrightarrow> length p = length q + 4"
  by (cases p rule: ikcp_decode32u.cases) auto

lemma decode16_length: "ikcp_decode16u p = Some (v, q) \<Longrightarrow> length p = length q + 2"
  by (cases p rule: ikcp_decode16u.cases) auto

lemma decode8_length: "ikcp_decode8u p = Some (v, q) \<Longrightarrow> length p = length q + 1"
  by (cases p) auto

lemma decode_tail_length: "decode_tail cv p = Some (h, q) \<Longrightarrow> length p = length q + 20"
  by (auto simp: decode_tail_def Option.bind_eq_Some_conv
    dest!: decode32_length decode16_length decode8_length)

text \<open>
  The loop over the segments of a datagram. \<open>Some r\<close> is an early return of \<open>r\<close>, which skips
  the code after the loop; \<open>None\<close> is the \<open>break\<close>.
\<close>

function input_loop :: "(nat \<Rightarrow> nat \<Rightarrow> bool) \<Rightarrow> nat \<Rightarrow> bytes \<Rightarrow> ikcpcb \<times> int \<times> u32
    \<Rightarrow> (int option \<times> ikcpcb \<times> int \<times> u32) result" where
  "input_loop ok i p st =
    (if length p < unat IKCP_OVERHEAD then Inr (None, st)
     else case ikcp_decode32u p of None \<Rightarrow> Inl BufferOverrun
      | Some (cv, p1) \<Rightarrow>
         if cv \<noteq> kconv (fst st) then Inr (Some (-1), st)
         else case decode_tail cv p1 of None \<Rightarrow> Inl BufferOverrun
          | Some (h, p2) \<Rightarrow>
             if length p2 < unat (h_len h) then Inr (Some (-2), st)
             else if \<not> cmd_known (h_cmd h) then Inr (Some (-3), st)
             else case input_seg (ok i) h p2 st of Inl e \<Rightarrow> Inl e
              | Inr st \<Rightarrow> input_loop ok (Suc i) (drop (unat (h_len h)) p2) st)"
  by pat_completeness auto
termination
  by (relation "measure (\<lambda>(ok, i, p, st). length p)")
     (auto dest!: decode32_length decode_tail_length)

declare input_loop.simps [simp del]

definition input_cwnd :: "ikcpcb \<Rightarrow> u32 \<Rightarrow> ikcpcb" where
  "input_cwnd kcp una0 =
    (if itimediff (snd_una kcp) una0 > 0 \<and> cwnd kcp < rmt_wnd kcp
     then
       let m = mss kcp;
           kcp = (if cwnd kcp < ssthresh kcp
                  then kcp\<lparr>cwnd := cwnd kcp + 1, incr := incr kcp + m\<rparr>
                  else
                    let kcp = (if incr kcp < m then kcp\<lparr>incr := m\<rparr> else kcp);
                        kcp = kcp\<lparr>incr := incr kcp + (m * m div incr kcp + m div 16)\<rparr>
                    in if (cwnd kcp + 1) * m \<le> incr kcp then kcp\<lparr>cwnd := cwnd kcp + 1\<rparr> else kcp)
       in if cwnd kcp > rmt_wnd kcp
          then kcp\<lparr>cwnd := rmt_wnd kcp, incr := rmt_wnd kcp * m\<rparr> else kcp
     else kcp)"

text \<open>The caller's buffer is \<open>None\<close> for a null pointer; \<open>size\<close> is its length.\<close>

definition ikcp_input :: "(nat \<Rightarrow> nat \<Rightarrow> bool) \<Rightarrow> ikcpcb \<Rightarrow> bytes option \<Rightarrow> (int \<times> ikcpcb) result" where
  "ikcp_input ok kcp dat =
    (case dat of None \<Rightarrow> Inr (-1, kcp)
     | Some p \<Rightarrow>
        if length p < 24 then Inr (-1, kcp)
        else
          let una0 = snd_una kcp
          in case input_loop ok 0 p (kcp, 0, 0) of Inl e \<Rightarrow> Inl e
           | Inr (Some r, kcp, flag, maxack) \<Rightarrow> Inr (r, kcp)
           | Inr (None, kcp, flag, maxack) \<Rightarrow>
              (let kcp = (if flag \<noteq> 0 then ikcp_parse_fastack kcp maxack else kcp)
               in Inr (0, input_cwnd kcp una0)))"


section \<open>The backward search is sorted insertion\<close>

lemma insort_key_snoc:
  "\<forall>y \<in> set xs. f y \<le> f s \<Longrightarrow>
    insort_key f x (xs @ [s]) = (if f s < f x then xs @ [s, x] else insort_key f x xs @ [s])"
  for f :: "'a \<Rightarrow> 'b :: linorder"
  by (induction xs) auto

lemma rcv_search_spec:
  assumes "in_window base w q" "w \<le> 2 ^ 31" "off base s < 2 ^ 31"
  shows "rcv_search s (rev q) =
    (if sn s \<in> sn ` set q then (rev q, True) else (rev (insort_key (off base) s q), False))"
  using assms
proof (induction q rule: rev_induct)
  case Nil
  then show ?case by simp
next
  case (snoc x q)
  have w: "in_window base w q" "\<forall>y \<in> set q. off base y < off base x" "off base x < 2 ^ 31"
    using snoc.prems by (auto simp: in_window_def sorted_wrt_append)
  have d: "itimediff (sn s) (sn x) = int (off base s) - int (off base x)"
    using itimediff_from_base [of "sn s" base "sn x"] snoc.prems w(3) by (simp add: off_def)
  have eq: "sn x = sn s \<longleftrightarrow> off base x = off base s" using off_eq_iff [of base x "sn s"] by (simp add: off_def)
  have ge: "sn s \<notin> sn ` set q" if "off base x \<le> off base s"
  proof
    assume "sn s \<in> sn ` set q"
    then obtain y where y: "y \<in> set q" "sn y = sn s" by auto
    then have "off base y = off base s" by (simp add: off_def)
    with w(2) y that show False by auto
  qed
  consider "off base x = off base s" | "off base x < off base s" | "off base s < off base x" by linarith
  then show ?case
  proof cases
    case 1
    with eq show ?thesis by simp
  next
    case 2
    with d eq ge w(2) show ?thesis by (auto simp: insort_key_snoc less_imp_le)
  next
    case 3
    with d eq w(2) snoc.IH [OF w(1) snoc.prems(2,3)] show ?thesis
      by (auto simp: insort_key_snoc less_imp_le)
  qed
qed

lemma in_window_insort:
  assumes "in_window base w q" "off base s < w" "sn s \<notin> sn ` set q"
  shows "in_window base w (insort_key (off base) s q)"
proof -
  have ne: "\<forall>y \<in> set q. off base y \<noteq> off base s"
  proof
    fix y assume "y \<in> set q"
    then have "sn y \<noteq> sn s" using assms(3) by (metis image_eqI)
    then show "off base y \<noteq> off base s" using off_eq_iff [of base y "sn s"] by (simp add: off_def)
  qed
  have "in_window base w q \<Longrightarrow> \<forall>y \<in> set q. off base y \<noteq> off base s \<Longrightarrow>
      in_window base w (insort_key (off base) s q)" for q
    by (induction q) (use assms(2) in \<open>auto simp: in_window_Cons set_insort_key\<close>)
  then show ?thesis using assms(1) ne by blast
qed

section \<open>Sorting a segment into the receive buffer\<close>

definition in_rcv_window :: "ikcpcb \<Rightarrow> u32 \<Rightarrow> bool" where
  "in_rcv_window k s \<longleftrightarrow> unat (s - rcv_nxt k) < unat (rcv_wnd k)"

lemma in_rcv_window_iff:
  assumes "unat (rcv_wnd k) < 2 ^ 31"
  shows "in_rcv_window k s \<longleftrightarrow>
    \<not> (itimediff s (rcv_nxt k + rcv_wnd k) \<ge> 0 \<or> itimediff s (rcv_nxt k) < 0)"
proof (cases "unat (s - rcv_nxt k) < 2 ^ 31")
  case True
  have "itimediff s (rcv_nxt k + rcv_wnd k) = int (unat (s - rcv_nxt k)) - int (unat (rcv_wnd k))"
    using itimediff_from_base [of s "rcv_nxt k" "rcv_nxt k + rcv_wnd k"] True assms by simp
  then show ?thesis using True itimediff_nonneg_iff [of s "rcv_nxt k"] by (auto simp: in_rcv_window_def)
next
  case False
  then show ?thesis using assms itimediff_nonneg_iff [of s "rcv_nxt k"] by (auto simp: in_rcv_window_def)
qed

lemma rcvwin_in_window: "kcp_inv k \<Longrightarrow> in_window (rcv_nxt k) (2 ^ 31) (rcv_buf k)"
  by (simp add: kcp_inv_defs in_window_def)

lemma parse_data_outside: "kcp_inv k \<Longrightarrow> \<not> in_rcv_window k (sn s) \<Longrightarrow> ikcp_parse_data k s = k"
  using in_rcv_window_iff [of k "sn s"] by (auto simp: ikcp_parse_data_def kcp_inv_defs)

lemma parse_data_inside:
  assumes inv: "kcp_inv k" and w: "in_rcv_window k (sn s)"
  shows "ikcp_parse_data k s = move_ready
    (if sn s \<in> sn ` set (rcv_buf k) then k
     else k\<lparr>rcv_buf := insort_key (off (rcv_nxt k)) s (rcv_buf k), nrcv_buf := nrcv_buf k + 1\<rparr>)"
proof -
  have b: "unat (rcv_wnd k) < 2 ^ 31" using inv by (simp add: kcp_inv_defs)
  then have o: "off (rcv_nxt k) s < 2 ^ 31" using w by (simp add: in_rcv_window_def off_def)
  have "rcv_search s (rev (rcv_buf k)) = (if sn s \<in> sn ` set (rcv_buf k) then (rev (rcv_buf k), True)
      else (rev (insort_key (off (rcv_nxt k)) s (rcv_buf k)), False))"
    using rcvwin_in_window [OF inv] order_refl o by (rule rcv_search_spec)
  then show ?thesis
    using in_rcv_window_iff [OF b, of "sn s"] w by (simp add: ikcp_parse_data_def)
qed

lemma in_window_length: "in_window base w q \<Longrightarrow> length q \<le> w"
proof -
  assume a: "in_window base w q"
  then have "sorted_wrt (<) (map (off base) q)" by (simp add: in_window_def)
  then have "distinct (map (off base) q)" by (simp only: strict_sorted_iff)
  then have "card (set (map (off base) q)) = length q" by (metis distinct_card length_map)
  moreover have "set (map (off base) q) \<subseteq> {..<w}"
  proof
    fix n assume "n \<in> set (map (off base) q)"
    then obtain s where "s \<in> set q" "n = off base s" by auto
    with a show "n \<in> {..<w}" by (simp add: in_window_def)
  qed
  then have "card (set (map (off base) q)) \<le> card {..<w}" by (intro card_mono) simp_all
  ultimately show ?thesis by simp
qed

lemma insort_rcv_inv:
  assumes inv: "kcp_inv k" and w: "in_rcv_window k (sn s)" and new: "sn s \<notin> sn ` set (rcv_buf k)"
    and ok: "seg_ok s"
  shows "kcp_inv (k\<lparr>rcv_buf := insort_key (off (rcv_nxt k)) s (rcv_buf k), nrcv_buf := nrcv_buf k + 1\<rparr>)"
proof -
  have o: "off (rcv_nxt k) s < 2 ^ 31" using w inv by (simp add: in_rcv_window_def off_def kcp_inv_defs)
  have iw: "in_window (rcv_nxt k) (2 ^ 31) (insort_key (off (rcv_nxt k)) s (rcv_buf k))"
    using rcvwin_in_window [OF inv] o new by (intro in_window_insort) simp_all
  have n: "unat (nrcv_buf k) = length (rcv_buf k)" using inv by (simp add: kcp_inv_defs)
  then have "unat (nrcv_buf k + 1) = length (rcv_buf k) + 1"
    using in_window_length [OF rcvwin_in_window [OF inv]] by (subst unat_add_u32) auto
  then show ?thesis
    using inv iw ok by (auto simp: kcp_inv_defs in_window_def set_insort_key)
qed

lemma parse_data_inv:
  assumes inv: "kcp_inv k" and ok: "seg_ok s" shows "kcp_inv (ikcp_parse_data k s)"
proof (cases "in_rcv_window k (sn s)")
  case False
  with inv show ?thesis by (simp add: parse_data_outside)
next
  case True
  then show ?thesis
    unfolding parse_data_inside [OF inv True] using insort_rcv_inv [OF inv True _ ok] inv
    by (auto intro!: move_ready_inv)
qed


section \<open>What each step of the loop leaves alone\<close>

lemma shrink_buf_frame [simp]:
  "ackcount (ikcp_shrink_buf k) = ackcount k" "kconv (ikcp_shrink_buf k) = kconv k"
  "rcv_queue (ikcp_shrink_buf k) = rcv_queue k" "rcv_buf (ikcp_shrink_buf k) = rcv_buf k"
  "rcv_nxt (ikcp_shrink_buf k) = rcv_nxt k" "snd_buf (ikcp_shrink_buf k) = snd_buf k"
  by (simp_all add: ikcp_shrink_buf_def split: list.split)

lemma parse_una_frame [simp]:
  "ackcount (ikcp_parse_una k u) = ackcount k" "kconv (ikcp_parse_una k u) = kconv k"
  "rcv_queue (ikcp_parse_una k u) = rcv_queue k" "rcv_buf (ikcp_parse_una k u) = rcv_buf k"
  "rcv_nxt (ikcp_parse_una k u) = rcv_nxt k"
  by (simp_all add: ikcp_parse_una_def split: prod.split)

lemma parse_ack_frame [simp]:
  "ackcount (ikcp_parse_ack k u) = ackcount k" "kconv (ikcp_parse_ack k u) = kconv k"
  "rcv_queue (ikcp_parse_ack k u) = rcv_queue k" "rcv_buf (ikcp_parse_ack k u) = rcv_buf k"
  "rcv_nxt (ikcp_parse_ack k u) = rcv_nxt k"
  by (simp_all add: ikcp_parse_ack_def split: prod.split)

lemma update_ack_frame [simp]:
  "ackcount (ikcp_update_ack k r) = ackcount k" "kconv (ikcp_update_ack k r) = kconv k"
  "rcv_queue (ikcp_update_ack k r) = rcv_queue k" "rcv_buf (ikcp_update_ack k r) = rcv_buf k"
  "rcv_nxt (ikcp_update_ack k r) = rcv_nxt k" "snd_buf (ikcp_update_ack k r) = snd_buf k"
  by (simp_all add: ikcp_update_ack_def Let_def split: prod.split)

lemma move_ready_frame [simp]:
  "ackcount (move_ready k) = ackcount k \<and> kconv (move_ready k) = kconv k \<and> snd_buf (move_ready k) = snd_buf k"
proof (induction k rule: move_ready.induct)
  case (1 k)
  then show ?case by (auto simp: move_ready.simps [of k] split: list.split)
qed

lemma parse_data_frame [simp]:
  "ackcount (ikcp_parse_data k s) = ackcount k" "kconv (ikcp_parse_data k s) = kconv k"
  by (auto simp: ikcp_parse_data_def Let_def split: prod.split)

section \<open>Input keeps the invariants and cannot fault\<close>

lemma new_segment_ok: "unat (h_len h) \<le> length p \<Longrightarrow> seg_ok (new_segment h p)"
  by (simp add: seg_ok_def new_segment_def)

lemma input_ack_inv:
  assumes "kcp_inv k" shows "kcp_inv (fst (input_ack k flag m s t))"
  using assms
  by (auto simp: input_ack_def Let_def intro!: shrink_buf_inv parse_ack_inv update_ack_inv)

lemma input_ack_frame: "ackcount (fst (input_ack k flag m s t)) = ackcount k"
  by (simp add: input_ack_def Let_def)

lemma input_push_spec:
  assumes inv: "kcp_inv k" and small: "unat (ackcount k) < 2 ^ 30" and l: "unat (h_len h) \<le> length p"
    and r: "input_push ok k h p = Inr k'"
  shows "kcp_inv k' \<and> unat (ackcount k') \<le> unat (ackcount k) + 1"
proof -
  have a: "ack_inv k" using inv by (simp add: kcp_inv_def)
  have "kcp_inv g \<and> unat (ackcount g) = unat (ackcount k) + 1" if "ikcp_ack_push (ok 0) k (h_sn h) (h_ts h) = Inr g" for g
    using ack_push_inv [OF inv small that] ack_push_spec [OF a small that] by simp
  then show ?thesis
    using r inv new_segment_ok [OF l]
    by (auto simp: input_push_def intro!: parse_data_inv split: if_splits sum.splits)
qed

lemma input_push_total:
  assumes inv: "kcp_inv k" and small: "unat (ackcount k) < 2 ^ 30" and ok: "ok 0" "ok 1"
  shows "\<exists>k'. input_push ok k h p = Inr k'"
proof -
  have "ack_inv k" using inv by (simp add: kcp_inv_def)
  from ack_push_total [OF this small] obtain g where "ikcp_ack_push True k (h_sn h) (h_ts h) = Inr g" by blast
  then show ?thesis using ok by (simp add: input_push_def)
qed

lemma rmt_wnd_inv: "kcp_inv k \<Longrightarrow> kcp_inv (k\<lparr>rmt_wnd := ucast (w :: u16)\<rparr>)"
  using unsigned_less [of w, where 'a = nat] by (simp add: kcp_inv_defs unat_ucast_u16)

definition seg_start :: "ikcpcb \<Rightarrow> wire_hdr \<Rightarrow> ikcpcb" where
  "seg_start k h = ikcp_shrink_buf (ikcp_parse_una (k\<lparr>rmt_wnd := ucast (h_wnd h)\<rparr>) (h_una h))"

lemma seg_start_inv: "kcp_inv k \<Longrightarrow> kcp_inv (seg_start k h)"
  unfolding seg_start_def by (intro shrink_buf_inv parse_una_inv rmt_wnd_inv)

lemma seg_start_frame [simp]:
  "ackcount (seg_start k h) = ackcount k" "kconv (seg_start k h) = kconv k"
  by (simp_all add: seg_start_def)

lemma input_seg_eq:
  "input_seg ok h p (k, flag, m) =
    (if ucast (h_cmd h) = IKCP_CMD_ACK then Inr (input_ack (seg_start k h) flag m (h_sn h) (h_ts h))
     else if ucast (h_cmd h) = IKCP_CMD_PUSH
       then (case input_push ok (seg_start k h) h p of Inl e \<Rightarrow> Inl e | Inr k \<Rightarrow> Inr (k, flag, m))
     else if ucast (h_cmd h) = IKCP_CMD_WASK
       then Inr ((seg_start k h)\<lparr>probe := probe (seg_start k h) OR IKCP_ASK_TELL\<rparr>, flag, m)
     else Inr (seg_start k h, flag, m))"
  by (simp add: input_seg_def seg_start_def Let_def)

lemma input_seg_spec:
  assumes inv: "kcp_inv (fst st)" and small: "unat (ackcount (fst st)) < 2 ^ 30"
    and l: "unat (h_len h) \<le> length p" and r: "input_seg ok h p st = Inr st'"
  shows "kcp_inv (fst st') \<and> unat (ackcount (fst st')) \<le> unat (ackcount (fst st)) + 1"
proof -
  obtain k flag m where st: "st = (k, flag, m)" by (cases st)
  have i: "kcp_inv (seg_start k h)" using inv st by (simp add: seg_start_inv)
  have p: "kcp_inv (x\<lparr>probe := q\<rparr>)" if "kcp_inv x" for x q using that by (simp add: kcp_inv_defs)
  have s: "unat (ackcount (seg_start k h)) < 2 ^ 30" using small st by simp
  show ?thesis
    using r input_push_spec [OF i s l] input_ack_inv [OF i] p [OF i] i
    unfolding st input_seg_eq
    by (auto simp: input_ack_frame split: if_splits sum.splits)
qed

lemma input_seg_total:
  assumes inv: "kcp_inv (fst st)" and small: "unat (ackcount (fst st)) < 2 ^ 30" and ok: "ok 0" "ok 1"
  shows "\<exists>st'. input_seg ok h p st = Inr st'"
proof -
  obtain k flag m where st: "st = (k, flag, m)" by (cases st)
  have "kcp_inv (seg_start k h)" using inv st by (simp add: seg_start_inv)
  then obtain k' where "input_push ok (seg_start k h) h p = Inr k'"
    using input_push_total [of "seg_start k h" ok] small ok st by auto
  then show ?thesis
    unfolding st input_seg_eq by (cases "input_ack (seg_start k h) flag m (h_sn h) (h_ts h)") auto
qed

lemma decode32_some: "4 \<le> length p \<Longrightarrow> \<exists>v q. ikcp_decode32u p = Some (v, q) \<and> length q = length p - 4"
  by (cases p rule: ikcp_decode32u.cases) auto

lemma decode16_some: "2 \<le> length p \<Longrightarrow> \<exists>v q. ikcp_decode16u p = Some (v, q) \<and> length q = length p - 2"
  by (cases p rule: ikcp_decode16u.cases) auto

lemma decode8_some: "1 \<le> length p \<Longrightarrow> \<exists>v q. ikcp_decode8u p = Some (v, q) \<and> length q = length p - 1"
  by (cases p) auto

lemma decode_tail_some:
  assumes "20 \<le> length p" shows "\<exists>h q. decode_tail cv p = Some (h, q)"
proof -
  obtain a p1 where 1: "ikcp_decode8u p = Some (a, p1)" "length p1 \<ge> 19"
    using decode8_some [of p] assms by auto
  obtain b p2 where 2: "ikcp_decode8u p1 = Some (b, p2)" "length p2 \<ge> 18"
    using decode8_some [of p1] 1 by auto
  obtain c p3 where 3: "ikcp_decode16u p2 = Some (c, p3)" "length p3 \<ge> 16"
    using decode16_some [of p2] 2 by auto
  obtain d p4 where 4: "ikcp_decode32u p3 = Some (d, p4)" "length p4 \<ge> 12"
    using decode32_some [of p3] 3 by auto
  obtain e p5 where 5: "ikcp_decode32u p4 = Some (e, p5)" "length p5 \<ge> 8"
    using decode32_some [of p4] 4 by auto
  obtain f p6 where 6: "ikcp_decode32u p5 = Some (f, p6)" "length p6 \<ge> 4"
    using decode32_some [of p5] 5 by auto
  obtain g p7 where 7: "ikcp_decode32u p6 = Some (g, p7)"
    using decode32_some [of p6] 6 by auto
  show ?thesis by (simp add: decode_tail_def 1 2 3 4 5 6 7)
qed

text \<open>
  One round of the loop: a header is read only when all of it is there, its payload only
  when all of that is there.
\<close>

lemma input_loop_cases:
  obtains (stop) "length p < 24" "input_loop ok i p st = Inr (None, st)"
  | (refuse) r where "r \<in> {-1, -2, -3}" "input_loop ok i p st = Inr (Some r, st)"
  | (step) p1 h p2 where "ikcp_decode32u p = Some (kconv (fst st), p1)" "decode_tail (kconv (fst st)) p1 = Some (h, p2)"
      "unat (h_len h) \<le> length p2" "cmd_known (h_cmd h)" "length p = length p2 + 24"
      "input_loop ok i p st =
        (case input_seg (ok i) h p2 st of Inl e \<Rightarrow> Inl e
         | Inr st \<Rightarrow> input_loop ok (Suc i) (drop (unat (h_len h)) p2) st)"
proof (cases "length p < 24")
  case True
  then show ?thesis by (intro stop) (simp_all add: input_loop.simps [of ok i p] IKCP_OVERHEAD_def)
next
  case False
  then obtain cv p1 where 1: "ikcp_decode32u p = Some (cv, p1)" "length p1 = length p - 4"
    using decode32_some [of p] by auto
  then have "20 \<le> length p1" using False by simp
  then obtain h p2 where 2: "decode_tail cv p1 = Some (h, p2)" using decode_tail_some [of p1 cv] by blast
  have l: "length p = length p2 + 24" using decode_tail_length [OF 2] 1 False by simp
  have e: "input_loop ok i p st =
      (if cv \<noteq> kconv (fst st) then Inr (Some (-1), st)
       else if length p2 < unat (h_len h) then Inr (Some (-2), st)
       else if \<not> cmd_known (h_cmd h) then Inr (Some (-3), st)
       else case input_seg (ok i) h p2 st of Inl e \<Rightarrow> Inl e
              | Inr st \<Rightarrow> input_loop ok (Suc i) (drop (unat (h_len h)) p2) st)"
    using False 2 by (cases "cv = kconv (fst st)") (simp_all add: input_loop.simps [of ok i p] IKCP_OVERHEAD_def 1)
  show ?thesis
  proof (cases "cv = kconv (fst st) \<and> unat (h_len h) \<le> length p2 \<and> cmd_known (h_cmd h)")
    case True
    with e 1 2 l show ?thesis by (intro step) auto
  next
    case False
    with e show ?thesis by (cases "cv = kconv (fst st)"; cases "length p2 < unat (h_len h)") (auto intro: refuse)
  qed
qed

lemma input_loop_spec:
  assumes "kcp_inv (fst st)" "unat (ackcount (fst st)) + length p div 24 < 2 ^ 30"
    "input_loop ok i p st = Inr (r, st')"
  shows "kcp_inv (fst st') \<and> unat (ackcount (fst st')) \<le> unat (ackcount (fst st)) + length p div 24"
  using assms
proof (induction "length p" arbitrary: i p st rule: less_induct)
  case less
  show ?case
  proof (cases rule: input_loop_cases [of p ok i st])
    case stop
    with less.prems show ?thesis by simp
  next
    case (refuse x)
    with less.prems show ?thesis by simp
  next
    case (step p1 h p2)
    let ?q = "drop (unat (h_len h)) p2"
    from step(6) less.prems(3) obtain s where s: "input_seg (ok i) h p2 st = Inr s"
      and l: "input_loop ok (Suc i) ?q s = Inr (r, st')" by (auto split: sum.splits)
    have d: "length ?q div 24 + 1 \<le> length p div 24"
      using step(5) by (simp add: div_le_mono)
    have S: "kcp_inv (fst s) \<and> unat (ackcount (fst s)) \<le> unat (ackcount (fst st)) + 1"
      using less.prems d by (intro input_seg_spec [OF _ _ step(3) s]) auto
    have "length ?q < length p" using step(5) by simp
    from less.hyps [OF this _ _ l] S d less.prems(2) show ?thesis by simp
  qed
qed

lemma input_loop_total:
  assumes "kcp_inv (fst st)" "unat (ackcount (fst st)) + length p div 24 < 2 ^ 30"
  shows "\<exists>r st'. input_loop (\<lambda>_ _. True) i p st = Inr (r, st')"
  using assms
proof (induction "length p" arbitrary: i p st rule: less_induct)
  case less
  show ?case
  proof (cases rule: input_loop_cases [of p "\<lambda>_ _. True" i st])
    case stop
    then show ?thesis by (cases st) auto
  next
    case (refuse x)
    then show ?thesis by (cases st) auto
  next
    case (step p1 h p2)
    let ?q = "drop (unat (h_len h)) p2"
    have d: "length ?q div 24 + 1 \<le> length p div 24"
      using step(5) by (simp add: div_le_mono)
    have small: "unat (ackcount (fst st)) < 2 ^ 30" using less.prems(2) d by linarith
    from input_seg_total [OF less.prems(1) small, of "\<lambda>_. True" h p2]
    obtain s where s: "input_seg (\<lambda>_. True) h p2 st = Inr s" by auto
    have S: "kcp_inv (fst s) \<and> unat (ackcount (fst s)) \<le> unat (ackcount (fst st)) + 1"
      using input_seg_spec [OF less.prems(1) small step(3) s] .
    have "length ?q < length p" using step(5) by simp
    from less.hyps [OF this, of s "Suc i"] S d less.prems(2) step(6) s show ?thesis by simp
  qed
qed

lemma input_cwnd_inv: "kcp_inv k \<Longrightarrow> kcp_inv (input_cwnd k u)"
  by (simp add: input_cwnd_def Let_def kcp_inv_defs)

lemma ikcp_input_inv:
  assumes inv: "kcp_inv k" and small: "unat (ackcount k) + length p div 24 < 2 ^ 30"
    and r: "ikcp_input ok k (Some p) = Inr (n, k')"
  shows "kcp_inv k'"
proof (cases "length p < 24")
  case True
  with r inv show ?thesis by (simp add: ikcp_input_def)
next
  case False
  with r obtain x y flag m where l: "input_loop ok 0 p (k, 0, 0) = Inr (x, y, flag, m)"
    and k': "k' = (if x = None then input_cwnd (if flag \<noteq> 0 then ikcp_parse_fastack y m else y) (snd_una k) else y)"
    by (auto simp: ikcp_input_def Let_def split: sum.splits option.splits)
  have "kcp_inv y" using input_loop_spec [OF _ _ l] inv small by simp
  then show ?thesis unfolding k' by (auto intro!: input_cwnd_inv parse_fastack_inv)
qed

lemma ikcp_input_total:
  assumes "kcp_inv k" "unat (ackcount k) + length p div 24 < 2 ^ 30"
  shows "\<exists>n k'. ikcp_input (\<lambda>_ _. True) k (Some p) = Inr (n, k')"
proof -
  obtain r y flag m where "input_loop (\<lambda>_ _. True) 0 p (k, 0, 0) = Inr (r, y, flag, m)"
    using input_loop_total [of "(k, 0, 0)" p 0] assms by auto
  then show ?thesis by (cases r) (auto simp: ikcp_input_def Let_def)
qed

end
