(* ===== verification/Kcp_Flush.thy ===== *)
theory Kcp_Flush
  imports Kcp_Input
begin

text \<open>
  The sending side seen by the network: \<open>ikcp_flush\<close> packs acknowledgements, window probes
  and data segments into datagrams, \<open>ikcp_update\<close> runs it on its clock and \<open>ikcp_check\<close>
  tells when it is due. The output buffer is the bytes between \<open>buffer\<close> and \<open>ptr\<close>; what
  the callback has been given is the list of datagrams in order. A write past the allocated buffer
  is the fault \<open>BufferOverrun\<close>.
\<close>

section \<open>Output\<close>

definition ikcp_wnd_unused :: "ikcpcb \<Rightarrow> int" where
  "ikcp_wnd_unused kcp =
    (if nrcv_que kcp < rcv_wnd kcp then sint (rcv_wnd kcp - nrcv_que kcp) else 0)"

definition ikcp_output :: "ikcpcb \<Rightarrow> bytes \<Rightarrow> bytes list \<Rightarrow> bytes list result" where
  "ikcp_output kcp dat out =
    (if \<not> output_set kcp then Inl AssertFailed
     else if length dat = 0 then Inr out else Inr (out @ [dat]))"

text \<open>The test before each piece, and the write of the piece at \<open>ptr\<close>.\<close>

definition make_room :: "ikcpcb \<Rightarrow> int \<Rightarrow> bytes \<times> bytes list \<Rightarrow> (bytes \<times> bytes list) result" where
  "make_room kcp need st =
    (let (ptr, out) = st
     in if int (length ptr) + need > sint (mtu kcp)
        then (case ikcp_output kcp ptr out of Inl e \<Rightarrow> Inl e | Inr out \<Rightarrow> Inr ([], out))
        else Inr (ptr, out))"

definition put_bytes :: "ikcpcb \<Rightarrow> bytes \<Rightarrow> bytes \<times> bytes list \<Rightarrow> (bytes \<times> bytes list) result" where
  "put_bytes kcp b st =
    (let (ptr, out) = st
     in if length ptr + length b > buffer_size kcp then Inl BufferOverrun else Inr (ptr @ b, out))"

definition put_header :: "ikcpcb \<Rightarrow> ikcpseg \<Rightarrow> bytes \<times> bytes list \<Rightarrow> (bytes \<times> bytes list) result" where
  "put_header kcp seg st =
    (case make_room kcp (sint IKCP_OVERHEAD) st of Inl e \<Rightarrow> Inl e
     | Inr st \<Rightarrow> put_bytes kcp (ikcp_encode_seg [] seg) st)"

section \<open>The stages of \<open>ikcp_flush\<close>\<close>

definition flush_head :: "ikcpcb \<Rightarrow> ikcpseg" where
  "flush_head kcp = \<lparr>conv = kconv kcp, cmd = IKCP_CMD_ACK, frg = 0,
     wnd = word_of_int (ikcp_wnd_unused kcp), ts = 0, sn = 0, una = rcv_nxt kcp, len = 0,
     resendts = 0, rto = 0, fastack = 0, xmit = 0, data = []\<rparr>"

fun flush_acks :: "ikcpcb \<Rightarrow> nat list \<Rightarrow> ikcpseg \<Rightarrow> bytes \<times> bytes list
    \<Rightarrow> (ikcpseg \<times> bytes \<times> bytes list) result" where
  "flush_acks kcp [] seg st = Inr (seg, st)"
| "flush_acks kcp (i # is) seg st =
    (case make_room kcp (sint IKCP_OVERHEAD) st of Inl e \<Rightarrow> Inl e
     | Inr st \<Rightarrow>
       (case ikcp_ack_get kcp i of Inl e \<Rightarrow> Inl e
        | Inr (s, t) \<Rightarrow>
          (let seg = seg\<lparr>sn := s, ts := t\<rparr>
           in case put_bytes kcp (ikcp_encode_seg [] seg) st of Inl e \<Rightarrow> Inl e
            | Inr st \<Rightarrow> flush_acks kcp is seg st)))"

definition flush_probe :: "ikcpcb \<Rightarrow> ikcpcb" where
  "flush_probe kcp =
    (if rmt_wnd kcp = 0 then
       if probe_wait kcp = 0
       then kcp\<lparr>probe_wait := IKCP_PROBE_INIT, ts_probe := current kcp + IKCP_PROBE_INIT\<rparr>
       else if itimediff (current kcp) (ts_probe kcp) \<ge> 0
       then
         let w = (if probe_wait kcp < IKCP_PROBE_INIT then IKCP_PROBE_INIT else probe_wait kcp);
             w = w + w div 2;
             w = (if w > IKCP_PROBE_LIMIT then IKCP_PROBE_LIMIT else w)
         in kcp\<lparr>probe_wait := w, ts_probe := current kcp + w, probe := probe kcp OR IKCP_ASK_SEND\<rparr>
       else kcp
     else kcp\<lparr>ts_probe := 0, probe_wait := 0\<rparr>)"

definition flush_ask :: "ikcpcb \<Rightarrow> u32 \<Rightarrow> u32 \<Rightarrow> ikcpseg \<Rightarrow> bytes \<times> bytes list
    \<Rightarrow> (ikcpseg \<times> bytes \<times> bytes list) result" where
  "flush_ask kcp ask c seg st =
    (if probe kcp AND ask \<noteq> 0
     then (let seg = seg\<lparr>cmd := c\<rparr>
           in case put_header kcp seg st of Inl e \<Rightarrow> Inl e | Inr st \<Rightarrow> Inr (seg, st))
     else Inr (seg, st))"

definition flush_cwnd :: "ikcpcb \<Rightarrow> u32" where
  "flush_cwnd kcp =
    (let w = imin (snd_wnd kcp) (rmt_wnd kcp) in if nocwnd kcp = 0 then imin (cwnd kcp) w else w)"

text \<open>Moving segments from \<open>snd_queue\<close> to \<open>snd_buf\<close> while the window has room.\<close>

definition send_ready :: "ikcpcb \<Rightarrow> u32 \<Rightarrow> ikcpseg \<Rightarrow> ikcpseg" where
  "send_ready kcp w seg = seg\<lparr>conv := kconv kcp, cmd := IKCP_CMD_PUSH, wnd := w, ts := current kcp,
     sn := snd_nxt kcp, una := rcv_nxt kcp, resendts := current kcp, rto := rx_rto kcp,
     fastack := 0, xmit := 0\<rparr>"

function flush_move :: "ikcpcb \<Rightarrow> u32 \<Rightarrow> u32 \<Rightarrow> ikcpcb" where
  "flush_move kcp w cw =
    (if itimediff (snd_nxt kcp) (snd_una kcp + cw) < 0
     then (case snd_queue kcp of [] \<Rightarrow> kcp
           | newseg # q \<Rightarrow>
             flush_move (kcp\<lparr>snd_queue := q, snd_buf := snd_buf kcp @ [send_ready kcp w newseg],
               nsnd_que := nsnd_que kcp - 1, nsnd_buf := nsnd_buf kcp + 1,
               snd_nxt := snd_nxt kcp + 1\<rparr>) w cw)
     else kcp)"
  by pat_completeness auto
termination by (relation "measure (\<lambda>(k, w, cw). length (snd_queue k))") auto

declare flush_move.simps [simp del]

text \<open>
  One segment of \<open>snd_buf\<close>: the first transmission, the timeout, or the fast retransmission.
  The result is whether it is sent, the segment, the control block (\<open>xmit\<close> counts the
  timeouts), and the updates of \<open>change\<close> and \<open>lost\<close>.
\<close>

definition seg_due :: "ikcpcb \<Rightarrow> u32 \<Rightarrow> u32 \<Rightarrow> ikcpseg \<Rightarrow> bool \<times> ikcpseg \<times> ikcpcb \<times> int \<times> bool" where
  "seg_due kcp resent rtomin seg =
    (if xmit seg = 0
     then (True, seg\<lparr>xmit := xmit seg + 1, rto := rx_rto kcp,
                     resendts := current kcp + rx_rto kcp + rtomin\<rparr>, kcp, 0, False)
     else if itimediff (current kcp) (resendts seg) \<ge> 0
     then (let r = (if nodelay kcp = 0 then rto seg + rx_rto kcp else rto seg + rx_rto kcp div 2)
           in (True, seg\<lparr>xmit := xmit seg + 1, rto := r, resendts := current kcp + r\<rparr>,
               kcp\<lparr>kxmit := kxmit kcp + 1\<rparr>, 0, True))
     else if fastack seg \<ge> resent
     then (True, seg\<lparr>xmit := xmit seg + 1, fastack := 0, resendts := current kcp + rto seg\<rparr>, kcp, 1, False)
     else (False, seg, kcp, 0, False))"

definition seg_send :: "ikcpcb \<Rightarrow> ikcpseg \<Rightarrow> bytes \<times> bytes list \<Rightarrow> (bytes \<times> bytes list) result" where
  "seg_send kcp seg st =
    (case make_room kcp (sint (IKCP_OVERHEAD + len seg)) st of Inl e \<Rightarrow> Inl e
     | Inr st \<Rightarrow>
       (case put_bytes kcp (ikcp_encode_seg [] seg) st of Inl e \<Rightarrow> Inl e
        | Inr st \<Rightarrow> if len seg > 0 then put_bytes kcp (take (unat (len seg)) (data seg)) st
                     else Inr st))"

fun flush_segs :: "u32 \<Rightarrow> u32 \<Rightarrow> u32 \<Rightarrow> ikcpseg list \<Rightarrow> ikcpcb \<Rightarrow> int \<Rightarrow> bool \<Rightarrow> bytes \<times> bytes list
    \<Rightarrow> (ikcpseg list \<times> ikcpcb \<times> int \<times> bool \<times> bytes \<times> bytes list) result" where
  "flush_segs resent rtomin w [] kcp change lost st = Inr ([], kcp, change, lost, st)"
| "flush_segs resent rtomin w (seg # p) kcp change lost st =
    (let (needsend, seg, kcp, c, l) = seg_due kcp resent rtomin seg;
         change = change + c; lost = (lost \<or> l)
     in if needsend
        then
          let seg = seg\<lparr>ts := current kcp, wnd := w, una := rcv_nxt kcp\<rparr>
          in case seg_send kcp seg st of Inl e \<Rightarrow> Inl e
           | Inr st \<Rightarrow>
              (let kcp = (if xmit seg \<ge> dead_link kcp then kcp\<lparr>state := -1\<rparr> else kcp)
               in case flush_segs resent rtomin w p kcp change lost st of Inl e \<Rightarrow> Inl e
                | Inr (q, r) \<Rightarrow> Inr (seg # q, r))
        else (case flush_segs resent rtomin w p kcp change lost st of Inl e \<Rightarrow> Inl e
              | Inr (q, r) \<Rightarrow> Inr (seg # q, r)))"

definition flush_windows :: "ikcpcb \<Rightarrow> u32 \<Rightarrow> u32 \<Rightarrow> int \<Rightarrow> bool \<Rightarrow> ikcpcb" where
  "flush_windows kcp cw resent change lost =
    (let kcp = (if change \<noteq> 0
           then let t = (snd_nxt kcp - snd_una kcp) div 2;
                    t = (if t < IKCP_THRESH_MIN then IKCP_THRESH_MIN else t);
                    kcp = kcp\<lparr>ssthresh := t, cwnd := t + resent\<rparr>
                in kcp\<lparr>incr := cwnd kcp * mss kcp\<rparr>
           else kcp);
         kcp = (if lost
           then let t = cw div 2;
                    t = (if t < IKCP_THRESH_MIN then IKCP_THRESH_MIN else t)
                in kcp\<lparr>ssthresh := t, cwnd := 1, incr := mss kcp\<rparr>
           else kcp)
     in if cwnd kcp < 1 then kcp\<lparr>cwnd := 1, incr := mss kcp\<rparr> else kcp)"

text \<open>Everything that goes out before the data segments.\<close>

definition flush_control :: "ikcpcb \<Rightarrow> (ikcpseg \<times> ikcpcb \<times> bytes \<times> bytes list) result" where
  "flush_control kcp =
    (case flush_acks kcp [0..<nat (sint (ackcount kcp))] (flush_head kcp) ([], []) of Inl e \<Rightarrow> Inl e
     | Inr (seg, st) \<Rightarrow>
       (let kcp = flush_probe (kcp\<lparr>ackcount := 0\<rparr>)
        in case flush_ask kcp IKCP_ASK_SEND IKCP_CMD_WASK seg st of Inl e \<Rightarrow> Inl e
         | Inr (seg, st) \<Rightarrow>
           (case flush_ask kcp IKCP_ASK_TELL IKCP_CMD_WINS seg st of Inl e \<Rightarrow> Inl e
            | Inr (seg, st) \<Rightarrow> Inr (seg, kcp\<lparr>probe := 0\<rparr>, st))))"

definition flush_resent :: "ikcpcb \<Rightarrow> u32" where
  "flush_resent kcp = (if fastresend kcp > 0 then word_of_int (fastresend kcp) else 0xffffffff)"

definition flush_rtomin :: "ikcpcb \<Rightarrow> u32" where
  "flush_rtomin kcp = (if nodelay kcp = 0 then drop_bit 3 (rx_rto kcp) else 0)"

definition ikcp_flush :: "ikcpcb \<Rightarrow> (ikcpcb \<times> bytes list) result" where
  "ikcp_flush kcp =
    (case flush_control kcp of Inl e \<Rightarrow> Inl e
     | Inr (seg, kcp, st) \<Rightarrow>
       (let cw = flush_cwnd kcp;
            kcp = flush_move kcp (wnd seg) cw;
            resent = flush_resent kcp
        in case flush_segs resent (flush_rtomin kcp) (wnd seg) (snd_buf kcp) kcp 0 False st of Inl e \<Rightarrow> Inl e
         | Inr (b, kcp, change, lost, ptr, out) \<Rightarrow>
           (let kcp = kcp\<lparr>snd_buf := b\<rparr>
            in case (if length ptr > 0 then ikcp_output kcp ptr out else Inr out) of Inl e \<Rightarrow> Inl e
             | Inr out \<Rightarrow> Inr (flush_windows kcp cw resent change lost, out))))"

section \<open>\<open>ikcp_update\<close> and \<open>ikcp_check\<close>\<close>

text \<open>What \<open>ikcp_update\<close> does to the clock; the flag tells whether it flushes.\<close>

definition update_clock :: "ikcpcb \<Rightarrow> u32 \<Rightarrow> bool \<times> ikcpcb" where
  "update_clock kcp now =
    (let kcp = kcp\<lparr>current := now\<rparr>;
         kcp = (if updated kcp = 0 then kcp\<lparr>updated := 1, ts_flush := now\<rparr> else kcp);
         slap = itimediff now (ts_flush kcp);
         (slap, kcp) = (if slap \<ge> 10000 \<or> slap < -10000 then (0, kcp\<lparr>ts_flush := now\<rparr>) else (slap, kcp))
     in if slap \<ge> 0
        then
          let kcp = kcp\<lparr>ts_flush := ts_flush kcp + interval kcp\<rparr>;
              kcp = (if itimediff now (ts_flush kcp) \<ge> 0
                     then kcp\<lparr>ts_flush := now + interval kcp\<rparr> else kcp)
          in (True, kcp)
        else (False, kcp))"

definition ikcp_update :: "ikcpcb \<Rightarrow> u32 \<Rightarrow> (ikcpcb \<times> bytes list) result" where
  "ikcp_update kcp now =
    (let (due, kcp) = update_clock kcp now in if due then ikcp_flush kcp else Inr (kcp, []))"

text \<open>The scan of \<open>snd_buf\<close> returns \<open>None\<close> when a segment is already due.\<close>

fun check_packets :: "u32 \<Rightarrow> ikcpseg list \<Rightarrow> int \<Rightarrow> int option" where
  "check_packets now [] tm_packet = Some tm_packet"
| "check_packets now (seg # p) tm_packet =
    (let diff = itimediff (resendts seg) now
     in if diff \<le> 0 then None
        else check_packets now p (if diff < tm_packet then diff else tm_packet))"

definition ikcp_check :: "ikcpcb \<Rightarrow> u32 \<Rightarrow> u32" where
  "ikcp_check kcp now =
    (if updated kcp = 0 then now
     else
       let tsf = (if itimediff now (ts_flush kcp) \<ge> 10000 \<or> itimediff now (ts_flush kcp) < -10000
                  then now else ts_flush kcp)
       in if itimediff now tsf \<ge> 0 then now
          else
            let tm_flush = itimediff tsf now
            in case check_packets now (snd_buf kcp) 0x7fffffff of None \<Rightarrow> now
             | Some tm_packet \<Rightarrow>
                let minimal = (word_of_int (if tm_packet < tm_flush then tm_packet else tm_flush) :: u32);
                    minimal = (if minimal \<ge> interval kcp then interval kcp else minimal)
                in now + minimal)"


section \<open>Packing whole segments into datagrams\<close>

text \<open>
  \<open>packed m ps st\<close>: the pieces \<open>ps\<close> have been written in order, no piece is split between
  datagrams, the datagrams handed over and the one being filled are at most \<open>m\<close> bytes.
\<close>

definition packed :: "nat \<Rightarrow> bytes list \<Rightarrow> bytes \<times> bytes list \<Rightarrow> bool" where
  "packed m ps st \<longleftrightarrow>
    (\<exists>ds cur. snd st = map concat ds \<and> fst st = concat cur \<and> concat ds @ cur = ps)
    \<and> (\<forall>d \<in> set (snd st). 0 < length d \<and> length d \<le> m) \<and> length (fst st) \<le> m"

lemma packedI:
  "out = map concat ds \<Longrightarrow> ptr = concat cur \<Longrightarrow> concat ds @ cur = ps \<Longrightarrow>
    \<forall>d \<in> set out. 0 < length d \<and> length d \<le> m \<Longrightarrow> length ptr \<le> m \<Longrightarrow> packed m ps (ptr, out)"
  unfolding packed_def by auto

lemma packed_start: "packed m [] ([], [])"
  by (auto simp: packed_def intro: exI [of _ "[]"])

lemma packed_put:
  assumes "packed m ps (ptr, out)" "length ptr + length b \<le> m"
  shows "packed m (ps @ [b]) (ptr @ b, out)"
proof -
  from assms(1) obtain ds cur where "out = map concat ds" "ptr = concat cur" "concat ds @ cur = ps"
    by (auto simp: packed_def)
  then have "out = map concat ds \<and> ptr @ b = concat (cur @ [b]) \<and> concat ds @ (cur @ [b]) = ps @ [b]"
    by auto
  with assms show ?thesis unfolding packed_def fst_conv snd_conv length_append by blast
qed

lemma packed_done:
  assumes "packed m ps (ptr, out)" "\<forall>p \<in> set ps. p \<noteq> []"
  shows "\<exists>ds. (if ptr = [] then out else out @ [ptr]) = map concat ds \<and> concat ds = ps"
proof -
  from assms(1) obtain ds cur where d: "out = map concat ds" "ptr = concat cur" "concat ds @ cur = ps"
    by (auto simp: packed_def)
  show ?thesis
  proof (cases "ptr = []")
    case True
    then have "cur = []" using d assms(2) by (cases cur) auto
    with True d show ?thesis by auto
  next
    case False
    with d have "(if ptr = [] then out else out @ [ptr]) = map concat (ds @ [cur]) \<and> concat (ds @ [cur]) = ps" by simp
    then show ?thesis by blast
  qed
qed

lemma packed_output:
  assumes "packed m ps (ptr, out)"
  shows "packed m ps ([], if ptr = [] then out else out @ [ptr])"
proof (cases "ptr = []")
  case True
  with assms show ?thesis by simp
next
  case False
  from assms obtain ds cur where d: "out = map concat ds" "ptr = concat cur" "concat ds @ cur = ps"
    by (auto simp: packed_def)
  have "packed m ps ([], out @ [ptr])"
  proof (rule packedI [where ds = "ds @ [cur]" and cur = "[]"])
    show "\<forall>d \<in> set (out @ [ptr]). 0 < length d \<and> length d \<le> m"
      using assms False by (simp add: packed_def)
  qed (use d in simp_all)
  with False show ?thesis by simp
qed

lemma sint_mtu: "mtu_inv k \<Longrightarrow> sint (mtu k) = int (unat (mtu k))"
  by (auto simp: mtu_inv_def sint_u32_unat)

text \<open>The test before a piece of \<open>n\<close> bytes leaves room for it, and keeps what was packed.\<close>

lemma make_room_packed:
  assumes inv: "mtu_inv k" and out: "output_set k" and p: "packed (unat (mtu k)) ps st"
    and n: "n \<le> unat (mtu k)"
  shows "\<exists>st'. make_room k (int n) st = Inr st' \<and> packed (unat (mtu k)) ps st'
    \<and> length (fst st') + n \<le> unat (mtu k)"
proof -
  obtain ptr o1 where st: "st = (ptr, o1)" by (cases st)
  show ?thesis
    using packed_output [of "unat (mtu k)" ps ptr o1] p n out
    by (auto simp: st make_room_def ikcp_output_def sint_mtu [OF inv])
qed

lemma put_bytes_packed:
  assumes inv: "mtu_inv k" and p: "packed (unat (mtu k)) ps st"
    and n: "length (fst st) + length b \<le> unat (mtu k)"
  shows "\<exists>st'. put_bytes k b st = Inr st' \<and> packed (unat (mtu k)) (ps @ [b]) st'"
proof -
  obtain ptr o1 where st: "st = (ptr, o1)" by (cases st)
  show ?thesis using packed_put [of "unat (mtu k)" ps ptr o1 b] p n inv
    by (auto simp: st put_bytes_def mtu_inv_def)
qed

lemma sint_overhead: "sint IKCP_OVERHEAD = int 24"
  by (simp add: IKCP_OVERHEAD_def)

lemma put_header_packed:
  assumes "mtu_inv k" "output_set k" "packed (unat (mtu k)) ps st"
  shows "\<exists>st'. put_header k seg st = Inr st' \<and> packed (unat (mtu k)) (ps @ [ikcp_encode_seg [] seg]) st'"
proof -
  have "24 \<le> unat (mtu k)" using assms(1) by (simp add: mtu_inv_def)
  from make_room_packed [OF assms this] obtain s where
    s: "make_room k (int 24) st = Inr s" "packed (unat (mtu k)) ps s" "length (fst s) + 24 \<le> unat (mtu k)" by blast
  then show ?thesis using put_bytes_packed [OF assms(1) s(2), of "ikcp_encode_seg [] seg"]
    by (auto simp: put_header_def sint_overhead)
qed

definition ack_piece :: "ikcpseg \<Rightarrow> u32 \<times> u32 \<Rightarrow> bytes" where
  "ack_piece seg a = ikcp_encode_seg [] (seg\<lparr>sn := fst a, ts := snd a\<rparr>)"

lemma flush_acks_step:
  assumes "ikcp_ack_get k i = Inr a"
  shows "flush_acks k (i # is) seg st =
    (case put_header k (seg\<lparr>sn := fst a, ts := snd a\<rparr>) st of Inl e \<Rightarrow> Inl e
     | Inr st \<Rightarrow> flush_acks k is (seg\<lparr>sn := fst a, ts := snd a\<rparr>) st)"
  using assms by (cases a) (simp add: put_header_def Let_def split: sum.split)

lemma ack_piece_upd [simp]: "ack_piece (seg\<lparr>sn := s, ts := t\<rparr>) a = ack_piece seg a"
  by (simp add: ack_piece_def)

lemma flush_acks_packed:
  assumes "mtu_inv k" "output_set k" "packed (unat (mtu k)) ps st" "\<forall>i \<in> set is. ikcp_ack_get k i = Inr (f i)"
  shows "\<exists>st'. flush_acks k is seg st = Inr (seg\<lparr>sn := fst (last ((sn seg, ts seg) # map f is)),
        ts := snd (last ((sn seg, ts seg) # map f is))\<rparr>, st')
    \<and> packed (unat (mtu k)) (ps @ map (ack_piece seg \<circ> f) is) st'"
  using assms(3,4)
proof (induction "is" arbitrary: seg st ps)
  case Nil
  then show ?case by simp
next
  case (Cons i js)
  let ?s = "seg\<lparr>sn := fst (f i), ts := snd (f i)\<rparr>"
  from put_header_packed [OF assms(1,2) Cons.prems(1), of ?s] obtain s1 where
    1: "put_header k ?s st = Inr s1" "packed (unat (mtu k)) (ps @ [ikcp_encode_seg [] ?s]) s1" by blast
  have 2: "\<forall>i \<in> set js. ikcp_ack_get k i = Inr (f i)" using Cons.prems(2) by simp
  let ?l = "last ((sn seg, ts seg) # map f (i # js))"
  have l: "last ((sn ?s, ts ?s) # map f js) = ?l" by simp
  from Cons.IH [OF 1(2) 2, of ?s, unfolded l] obtain st' where
    "flush_acks k js ?s s1 = Inr (?s\<lparr>sn := fst ?l, ts := snd ?l\<rparr>, st')"
    "packed (unat (mtu k)) ((ps @ [ikcp_encode_seg [] ?s]) @ map (ack_piece ?s \<circ> f) js) st'" by blast
  moreover have "ikcp_encode_seg [] ?s = ack_piece seg (f i)" by (simp add: ack_piece_def)
  moreover have "ack_piece ?s \<circ> f = ack_piece seg \<circ> f" by (simp add: fun_eq_iff)
  moreover have "flush_acks k (i # js) seg st = flush_acks k js ?s s1"
    using flush_acks_step [of k i "f i" js seg st] Cons.prems(2) 1(1) by simp
  ultimately have "flush_acks k (i # js) seg st = Inr (seg\<lparr>sn := fst ?l, ts := snd ?l\<rparr>, st')"
    "packed (unat (mtu k)) (ps @ map (ack_piece seg \<circ> f) (i # js)) st'" by simp_all
  then show ?case by blast
qed

section \<open>Data segments\<close>

text \<open>
  The reference: what becomes of one segment depends on the clock and the timers only;
  \<open>Some\<close> is the segment as it is sent.
\<close>

definition seg_next :: "ikcpcb \<Rightarrow> u32 \<Rightarrow> u32 \<Rightarrow> u32 \<Rightarrow> ikcpseg \<Rightarrow> ikcpseg option" where
  "seg_next k resent rtomin w seg =
    (case seg_due k resent rtomin seg of (n, s, _) \<Rightarrow>
       if n then Some (s\<lparr>ts := current k, wnd := w, una := rcv_nxt k\<rparr>) else None)"

definition seg_after :: "ikcpcb \<Rightarrow> u32 \<Rightarrow> u32 \<Rightarrow> u32 \<Rightarrow> ikcpseg \<Rightarrow> ikcpseg" where
  "seg_after k resent rtomin w seg = (case seg_next k resent rtomin w seg of None \<Rightarrow> seg | Some s \<Rightarrow> s)"

definition seg_piece :: "ikcpseg \<Rightarrow> bytes" where
  "seg_piece s = ikcp_encode_seg [] s @ data s"

lemma put_bytes_append:
  "length (fst st) + length a + length b \<le> buffer_size k \<Longrightarrow>
    (case put_bytes k a st of Inl e \<Rightarrow> Inl e | Inr st \<Rightarrow> put_bytes k b st) = put_bytes k (a @ b) st"
  by (auto simp: put_bytes_def split: prod.split)

lemma seg_send_packed:
  assumes inv: "mtu_inv k" and out: "output_set k" and p: "packed (unat (mtu k)) ps st"
    and ok: "seg_ok s" and l: "length (data s) \<le> unat (mss k)"
  shows "\<exists>st'. seg_send k s st = Inr st' \<and> packed (unat (mtu k)) (ps @ [seg_piece s]) st'"
proof -
  let ?n = "24 + length (data s)"
  have n: "?n \<le> unat (mtu k)" using inv l by (simp add: mtu_inv_def)
  have "unat (IKCP_OVERHEAD + len s) = ?n"
    using n inv ok by (subst unat_add_u32) (auto simp: IKCP_OVERHEAD_def seg_ok_def mtu_inv_def)
  then have need: "sint (IKCP_OVERHEAD + len s) = int ?n"
    using n inv by (simp add: sint_u32_unat mtu_inv_def)
  from make_room_packed [OF inv out p n] obtain s1 where
    s1: "make_room k (int ?n) st = Inr s1" "packed (unat (mtu k)) ps s1" "length (fst s1) + ?n \<le> unat (mtu k)" by blast
  have e: "seg_send k s st = put_bytes k (seg_piece s) s1"
  proof (cases "len s > 0")
    case True
    have "take (unat (len s)) (data s) = data s" by (rule take_data [OF ok])
    moreover have "length (fst s1) + length (ikcp_encode_seg [] s) + length (data s) \<le> buffer_size k"
      using s1(3) inv by (simp add: mtu_inv_def)
    ultimately show ?thesis
      using put_bytes_append [of s1 "ikcp_encode_seg [] s" "data s" k] True s1(1)
      unfolding seg_send_def need seg_piece_def by (simp cong: sum.case_cong)
  next
    case False
    then have "data s = []" using ok by (simp add: seg_ok_def word_gt_0)
    then show ?thesis using False s1(1) unfolding seg_send_def need seg_piece_def by (simp split: sum.split)
  qed
  show ?thesis
    unfolding e using s1 by (intro put_bytes_packed [OF inv]) (simp_all add: seg_piece_def)
qed


definition timed_out :: "ikcpcb \<Rightarrow> ikcpseg \<Rightarrow> bool" where
  "timed_out k s \<longleftrightarrow> xmit s \<noteq> 0 \<and> itimediff (current k) (resendts s) \<ge> 0"

definition fast_due :: "ikcpcb \<Rightarrow> u32 \<Rightarrow> ikcpseg \<Rightarrow> bool" where
  "fast_due k resent s \<longleftrightarrow> xmit s \<noteq> 0 \<and> \<not> timed_out k s \<and> fastack s \<ge> resent"

lemma seg_due_eq:
  "seg_due k resent rtomin s =
    (xmit s = 0 \<or> timed_out k s \<or> fast_due k resent s, fst (snd (seg_due k resent rtomin s)),
     if timed_out k s then k\<lparr>kxmit := kxmit k + 1\<rparr> else k, if fast_due k resent s then 1 else 0, timed_out k s)"
  by (auto simp: seg_due_def timed_out_def fast_due_def Let_def)

lemma seg_next_cases:
  "seg_next k resent rtomin w s \<noteq> None \<longleftrightarrow> xmit s = 0 \<or> timed_out k s \<or> fast_due k resent s"
  unfolding seg_next_def by (subst seg_due_eq) simp

lemma seg_due_data:
  assumes "seg_due k resent rtomin s = (b, s', r)"
  shows "data s' = data s" "len s' = len s" "sn s' = sn s" "frg s' = frg s" "conv s' = conv s" "cmd s' = cmd s"
  using assms by (auto simp: seg_due_def Let_def split: if_splits)

lemma seg_next_data:
  assumes "seg_next k resent rtomin w s = Some s'"
  shows "data s' = data s" "len s' = len s" "sn s' = sn s" "frg s' = frg s" "conv s' = conv s" "cmd s' = cmd s"
  using assms by (auto simp: seg_next_def split: prod.splits if_splits dest: seg_due_data)

lemma seg_after_data [simp]:
  "data (seg_after k r m w s) = data s" "len (seg_after k r m w s) = len s" "sn (seg_after k r m w s) = sn s"
  "frg (seg_after k r m w s) = frg s"
  by (auto simp: seg_after_def split: option.splits dest: seg_next_data)

text \<open>The counters the loop updates are not read by it.\<close>

lemma seg_next_frame [simp]:
  "seg_next (k\<lparr>kxmit := x\<rparr>) r m w s = seg_next k r m w s" "seg_next (k\<lparr>state := y\<rparr>) r m w s = seg_next k r m w s"
  by (auto simp: seg_next_def seg_due_def Let_def)

lemma seg_due_frame [simp]:
  "timed_out (k\<lparr>kxmit := x\<rparr>) = timed_out k" "timed_out (k\<lparr>state := y\<rparr>) = timed_out k"
  "fast_due (k\<lparr>kxmit := x\<rparr>) r = fast_due k r" "fast_due (k\<lparr>state := y\<rparr>) r = fast_due k r"
  by (auto simp: timed_out_def fast_due_def fun_eq_iff)

lemma seg_after_frame [simp]:
  "seg_after (k\<lparr>kxmit := x\<rparr>) r m w = seg_after k r m w" "seg_after (k\<lparr>state := y\<rparr>) r m w = seg_after k r m w"
  by (auto simp: seg_after_def fun_eq_iff)

definition bump :: "ikcpcb \<Rightarrow> ikcpseg \<Rightarrow> ikcpcb" where
  "bump k s = (if timed_out k s then k\<lparr>kxmit := kxmit k + 1\<rparr> else k)"

definition mark_dead :: "ikcpcb \<Rightarrow> ikcpseg \<Rightarrow> ikcpcb" where
  "mark_dead k s = (if xmit s \<ge> dead_link k then k\<lparr>state := -1\<rparr> else k)"

lemma flush_segs_None:
  assumes "seg_next k resent rtomin w s = None"
  shows "flush_segs resent rtomin w (s # p) k change lost st =
    (case flush_segs resent rtomin w p k change lost st of Inl e \<Rightarrow> Inl e | Inr (q, r) \<Rightarrow> Inr (s # q, r))"
proof -
  have "xmit s \<noteq> 0 \<and> \<not> timed_out k s \<and> \<not> fast_due k resent s"
    using assms seg_next_cases [of k resent rtomin w s] by simp
  then have "seg_due k resent rtomin s = (False, s, k, 0, False)"
    by (auto simp: seg_due_def timed_out_def fast_due_def)
  then show ?thesis by simp
qed

lemma flush_segs_Some:
  assumes "seg_next k resent rtomin w s = Some s'"
  shows "flush_segs resent rtomin w (s # p) k change lost st =
    (case seg_send (bump k s) s' st of Inl e \<Rightarrow> Inl e
     | Inr st \<Rightarrow>
       (case flush_segs resent rtomin w p (mark_dead (bump k s) s')
          (change + (if fast_due k resent s then 1 else 0)) (lost \<or> timed_out k s) st of
          Inl e \<Rightarrow> Inl e | Inr (q, r) \<Rightarrow> Inr (s' # q, r)))"
proof -
  let ?d = "fst (snd (seg_due k resent rtomin s))"
  have e: "seg_due k resent rtomin s =
    (True, ?d, bump k s, if fast_due k resent s then 1 else 0, timed_out k s)"
    using assms seg_next_cases [of k resent rtomin w s] unfolding bump_def by (subst seg_due_eq) auto
  then have "s' = ?d\<lparr>ts := current k, wnd := w, una := rcv_nxt k\<rparr>"
    using assms unfolding seg_next_def by (cases "seg_due k resent rtomin s") (auto split: if_splits)
  moreover have "current (bump k s) = current k" "rcv_nxt (bump k s) = rcv_nxt k" by (simp_all add: bump_def)
  ultimately show ?thesis
    unfolding flush_segs.simps by (subst e) (simp add: Let_def mark_dead_def cong: sum.case_cong if_cong)
qed

lemma bump_dead_eq: "\<exists>x y. mark_dead (bump k s) s' = k\<lparr>kxmit := x, state := y\<rparr>"
proof -
  have "\<exists>x. bump k s = k\<lparr>kxmit := x\<rparr>"
    by (cases "timed_out k s") (auto simp: bump_def intro: exI [of _ "kxmit k"])
  then obtain x where x: "bump k s = k\<lparr>kxmit := x\<rparr>" by blast
  have "\<exists>y. mark_dead (k\<lparr>kxmit := x\<rparr>) s' = k\<lparr>kxmit := x, state := y\<rparr>"
    by (cases "xmit s' \<ge> dead_link k") (auto simp: mark_dead_def intro: exI [of _ "state k"])
  with x show ?thesis by auto
qed

lemma flush_segs_spec:
  assumes "mtu_inv k" "output_set k" "packed (unat (mtu k)) ps st"
    "\<forall>s \<in> set q. seg_ok s \<and> length (data s) \<le> unat (mss k)"
  shows "\<exists>x y st'. flush_segs resent rtomin w q k change lost st =
      Inr (map (seg_after k resent rtomin w) q, k\<lparr>kxmit := x, state := y\<rparr>,
           change + int (length (filter (fast_due k resent) q)), lost \<or> (\<exists>s \<in> set q. timed_out k s), st')
    \<and> packed (unat (mtu k)) (ps @ map seg_piece (List.map_filter (seg_next k resent rtomin w) q)) st'"
  using assms
proof (induction q arbitrary: k ps st change lost)
  case Nil
  have "k = k\<lparr>kxmit := kxmit k, state := state k\<rparr>" by simp
  then have "flush_segs resent rtomin w [] k change lost st =
      Inr ([], k\<lparr>kxmit := kxmit k, state := state k\<rparr>, change, lost, st)" by simp
  with Nil(3) show ?case by (intro exI [of _ "kxmit k"] exI [of _ "state k"] exI [of _ st]) (simp add: map_filter_simps)
next
  case (Cons s q)
  show ?case
  proof (cases "seg_next k resent rtomin w s")
    case None
    then have n: "\<not> timed_out k s" "\<not> fast_due k resent s" using seg_next_cases [of k resent rtomin w s] by auto
    have sq: "\<forall>s \<in> set q. seg_ok s \<and> length (data s) \<le> unat (mss k)" using Cons.prems by simp
    from Cons.IH [OF Cons.prems(1-3) sq, of change lost] obtain x y st' where
      "flush_segs resent rtomin w q k change lost st =
        Inr (map (seg_after k resent rtomin w) q, k\<lparr>kxmit := x, state := y\<rparr>,
           change + int (length (filter (fast_due k resent) q)), lost \<or> (\<exists>s \<in> set q. timed_out k s), st')"
      "packed (unat (mtu k)) (ps @ map seg_piece (List.map_filter (seg_next k resent rtomin w) q)) st'"
      by blast
    moreover have "seg_after k resent rtomin w s = s" using None by (simp add: seg_after_def)
    ultimately show ?thesis
      using n None
      by (intro exI [of _ x] exI [of _ y] exI [of _ st'])
         (simp add: flush_segs_None map_filter_simps del: flush_segs.simps)
  next
    case (Some s')
    obtain x y where k2: "mark_dead (bump k s) s' = k\<lparr>kxmit := x, state := y\<rparr>"
      using bump_dead_eq by blast
    let ?k = "k\<lparr>kxmit := x, state := y\<rparr>"
    let ?b = "bump k s"
    have b: "mtu ?b = mtu k" "output_set ?b" "mtu_inv ?b" "mss ?b = mss k"
      using Cons.prems by (auto simp: bump_def mtu_inv_def)
    have "seg_ok s'" "length (data s') \<le> unat (mss ?b)"
      using Cons.prems(4) seg_next_data [OF Some] b by (auto simp: seg_ok_def)
    with seg_send_packed [of ?b ps st s'] b Cons.prems(3) obtain s1 where
      1: "seg_send ?b s' st = Inr s1" "packed (unat (mtu k)) (ps @ [seg_piece s']) s1" by auto
    have k': "mtu_inv ?k" "output_set ?k" "\<forall>s \<in> set q. seg_ok s \<and> length (data s) \<le> unat (mss ?k)"
      "packed (unat (mtu ?k)) (ps @ [seg_piece s']) s1"
      using Cons.prems 1 by (simp_all add: mtu_inv_def)
    from Cons.IH [OF k'(1,2,4,3), of "change + (if fast_due k resent s then 1 else 0)" "lost \<or> timed_out k s"]
    obtain x2 y2 st' where
      2: "flush_segs resent rtomin w q ?k (change + (if fast_due k resent s then 1 else 0)) (lost \<or> timed_out k s) s1 =
        Inr (map (seg_after k resent rtomin w) q, k\<lparr>kxmit := x2, state := y2\<rparr>,
           change + (if fast_due k resent s then 1 else 0) + int (length (filter (fast_due k resent) q)),
           (lost \<or> timed_out k s) \<or> (\<exists>s \<in> set q. timed_out k s), st')"
      "packed (unat (mtu k)) ((ps @ [seg_piece s']) @ map seg_piece (List.map_filter (seg_next k resent rtomin w) q)) st'"
      by auto
    have "flush_segs resent rtomin w (s # q) k change lost st =
      Inr (map (seg_after k resent rtomin w) (s # q), k\<lparr>kxmit := x2, state := y2\<rparr>,
           change + int (length (filter (fast_due k resent) (s # q))), lost \<or> (\<exists>s \<in> set (s # q). timed_out k s), st')"
      unfolding flush_segs_Some [OF Some] 1(1) k2 sum.case 2(1) using Some by (simp add: seg_after_def)
    moreover have "packed (unat (mtu k)) (ps @ map seg_piece (List.map_filter (seg_next k resent rtomin w) (s # q))) st'"
      using 2(2) Some by (simp add: map_filter_simps)
    ultimately show ?thesis by blast
  qed
qed


section \<open>The send window\<close>

text \<open>Moving stops at the window: \<open>cw\<close> segments beyond \<open>snd_una\<close> at most, in queue order.\<close>

definition move_count :: "ikcpcb \<Rightarrow> u32 \<Rightarrow> nat" where
  "move_count k cw = min (length (snd_queue k)) (unat cw - unat (snd_nxt k - snd_una k))"

lemma send_ready_facts [simp]:
  "data (send_ready k w s) = data s" "len (send_ready k w s) = len s" "sn (send_ready k w s) = snd_nxt k"
  "frg (send_ready k w s) = frg s" "xmit (send_ready k w s) = 0"
  by (simp_all add: send_ready_def)

lemma window_room:
  assumes "unat cw < 2 ^ 16" "unat (snd_nxt k - snd_una k) < 2 ^ 16"
  shows "itimediff (snd_nxt k) (snd_una k + cw) < 0 \<longleftrightarrow> unat (snd_nxt k - snd_una k) < unat cw"
proof -
  have "itimediff (snd_nxt k) (snd_una k + cw) = int (unat (snd_nxt k - snd_una k)) - int (unat cw)"
    using itimediff_from_base [of "snd_nxt k" "snd_una k" "snd_una k + cw"] assms by simp
  then show ?thesis by simp
qed

lemma flush_move_step_inv:
  assumes inv: "kcp_inv k" and q: "snd_queue k = s # q" and cw: "unat cw < 2 ^ 16"
    and room: "unat (snd_nxt k - snd_una k) < unat cw"
  shows "kcp_inv (k\<lparr>snd_queue := q, snd_buf := snd_buf k @ [send_ready k w s],
               nsnd_que := nsnd_que k - 1, nsnd_buf := nsnd_buf k + 1, snd_nxt := snd_nxt k + 1\<rparr>)"
proof -
  let ?d = "unat (snd_nxt k - snd_una k)"
  have e: "snd_nxt k + 1 - snd_una k = (snd_nxt k - snd_una k) + 1" by simp
  have d: "unat (snd_nxt k + 1 - snd_una k) = ?d + 1"
    unfolding e using room cw by (subst unat_add_u32) auto
  have o: "off (snd_una k) (send_ready k w s) = ?d" by (simp add: off_def)
  have c: "unat (nsnd_que k - 1) = length q" using inv q by (simp add: unat_sub_u32 kcp_inv_defs)
  have "length (snd_buf k) \<le> ?d"
    using inv by (intro in_window_length [of "snd_una k"]) (simp add: kcp_inv_defs in_window_def)
  then have b: "unat (nsnd_buf k + 1) = length (snd_buf k) + 1"
    using inv by (subst unat_add_u32) (auto simp: kcp_inv_defs)
  have srt: "sorted_wrt (<) (map (off (snd_una k)) (snd_buf k @ [send_ready k w s]))"
    using inv by (simp add: kcp_inv_defs sorted_wrt_append o)
  have so: "seg_ok (send_ready k w s)" "length (data s) \<le> unat (mss k)"
    using inv q by (simp_all add: kcp_inv_defs seg_ok_def)
  show ?thesis
    using inv q c b srt d o so room cw by (auto simp: kcp_inv_defs less_Suc_eq)
qed

lemma flush_move_inv:
  assumes "kcp_inv k" "unat cw < 2 ^ 16"
  shows "kcp_inv (flush_move k w cw)"
  using assms
proof (induction k w cw rule: flush_move.induct)
  case (1 k w cw)
  show ?case
  proof (cases "itimediff (snd_nxt k) (snd_una k + cw) < 0")
    case False
    then show ?thesis using "1.prems" by (simp add: flush_move.simps [of k])
  next
    case True
    show ?thesis
    proof (cases "snd_queue k")
      case Nil
      then show ?thesis using "1.prems" by (simp add: flush_move.simps [of k])
    next
      case (Cons s q)
      have room: "unat (snd_nxt k - snd_una k) < unat cw"
        using True window_room [of cw k] "1.prems" by (simp add: kcp_inv_defs)
      show ?thesis
        using "1.IH" [OF True Cons flush_move_step_inv [OF "1.prems"(1) Cons "1.prems"(2) room] "1.prems"(2)]
        True Cons by (simp add: flush_move.simps [of k])
    qed
  qed
qed

text \<open>What is moved keeps its payload and is numbered consecutively from \<open>snd_nxt\<close>.\<close>

lemma flush_move_frame [simp]:
  "mtu (flush_move k w cw) = mtu k \<and> mss (flush_move k w cw) = mss k \<and> output_set (flush_move k w cw) = output_set k
   \<and> ackcount (flush_move k w cw) = ackcount k \<and> snd_una (flush_move k w cw) = snd_una k
   \<and> buffer_size (flush_move k w cw) = buffer_size k \<and> kconv (flush_move k w cw) = kconv k
   \<and> current (flush_move k w cw) = current k \<and> rcv_nxt (flush_move k w cw) = rcv_nxt k
   \<and> rx_rto (flush_move k w cw) = rx_rto k \<and> nodelay (flush_move k w cw) = nodelay k"
proof (induction k w cw rule: flush_move.induct)
  case (1 k w cw)
  then show ?case by (auto simp: flush_move.simps [of k] split: list.split)
qed

lemma flush_move_spec:
  assumes "kcp_inv k" "unat cw < 2 ^ 16"
  defines "n \<equiv> move_count k cw"
  shows "snd_queue (flush_move k w cw) = drop n (snd_queue k)
    \<and> map data (snd_buf (flush_move k w cw)) = map data (snd_buf k) @ map data (take n (snd_queue k))
    \<and> map sn (snd_buf (flush_move k w cw)) = map sn (snd_buf k) @ map (\<lambda>i. snd_nxt k + word_of_nat i) [0..<n]
    \<and> snd_nxt (flush_move k w cw) = snd_nxt k + word_of_nat n"
  using assms(1,2) unfolding n_def
proof (induction k w cw rule: flush_move.induct)
  case (1 k w cw)
  show ?case
  proof (cases "itimediff (snd_nxt k) (snd_una k + cw) < 0 \<and> snd_queue k \<noteq> []")
    case False
    then have "move_count k cw = 0"
      using window_room [of cw k] "1.prems" by (auto simp: move_count_def kcp_inv_defs)
    moreover have "flush_move k w cw = k" using False by (auto simp: flush_move.simps [of k] split: list.split)
    ultimately show ?thesis by simp
  next
    case True
    then obtain s q where q: "snd_queue k = s # q" by (cases "snd_queue k") auto
    have room: "unat (snd_nxt k - snd_una k) < unat cw"
      using True window_room [of cw k] "1.prems" by (simp add: kcp_inv_defs)
    let ?k = "k\<lparr>snd_queue := q, snd_buf := snd_buf k @ [send_ready k w s],
               nsnd_que := nsnd_que k - 1, nsnd_buf := nsnd_buf k + 1, snd_nxt := snd_nxt k + 1\<rparr>"
    have e: "snd_nxt k + 1 - snd_una k = (snd_nxt k - snd_una k) + 1" by simp
    have d0: "unat (snd_nxt k + 1 - snd_una k) = unat (snd_nxt k - snd_una k) + 1"
      unfolding e using room "1.prems"(2) by (subst unat_add_u32) auto
    have d: "unat (snd_nxt ?k - snd_una ?k) = unat (snd_nxt k - snd_una k) + 1"
      using d0 by simp
    have n: "move_count k cw = Suc (move_count ?k cw)"
      unfolding move_count_def d using room by (simp add: q)
    have f: "flush_move k w cw = flush_move ?k w cw" using True q by (simp add: flush_move.simps [of k])
    have inv: "kcp_inv ?k" using flush_move_step_inv [OF "1.prems"(1) q "1.prems"(2) room] .
    have ih: "snd_queue (flush_move ?k w cw) = drop (move_count ?k cw) q
      \<and> map data (snd_buf (flush_move ?k w cw)) = (map data (snd_buf k) @ [data s]) @ map data (take (move_count ?k cw) q)
      \<and> map sn (snd_buf (flush_move ?k w cw)) = (map sn (snd_buf k) @ [snd_nxt k])
           @ map (\<lambda>i. (snd_nxt k + 1) + word_of_nat i) [0..<move_count ?k cw]
      \<and> snd_nxt (flush_move ?k w cw) = (snd_nxt k + 1) + word_of_nat (move_count ?k cw)"
      using "1.IH" [OF conjunct1 [OF True] q inv "1.prems"(2)] by simp
    have m: "map (\<lambda>i. snd_nxt k + word_of_nat i) [0..<Suc n]
        = snd_nxt k # map (\<lambda>i. (snd_nxt k + 1) + word_of_nat i) [0..<n]" for n
      by (simp add: upt_conv_Cons map_Suc_upt [symmetric] add.assoc del: upt_Suc)
    show ?thesis using ih unfolding f n m by (simp add: q add.assoc)
  qed
qed


section \<open>What a flush sends\<close>

lemma flush_probe_eq: "\<exists>w t p. flush_probe k = k\<lparr>ts_probe := t, probe_wait := w, probe := p\<rparr>"
proof -
  have "k = k\<lparr>ts_probe := ts_probe k, probe_wait := probe_wait k, probe := probe k\<rparr>" by simp
  moreover have "k\<lparr>probe_wait := a, ts_probe := b\<rparr> = k\<lparr>ts_probe := b, probe_wait := a, probe := probe k\<rparr>" for a b
    by simp
  moreover have "k\<lparr>ts_probe := b, probe_wait := a\<rparr> = k\<lparr>ts_probe := b, probe_wait := a, probe := probe k\<rparr>" for a b
    by simp
  moreover have "k\<lparr>probe_wait := a, ts_probe := b, probe := p\<rparr> = k\<lparr>ts_probe := b, probe_wait := a, probe := p\<rparr>" for a b p
    by simp
  ultimately show ?thesis unfolding flush_probe_def Let_def by metis
qed

definition probe_pieces :: "ikcpseg \<Rightarrow> u32 \<Rightarrow> bytes list" where
  "probe_pieces seg pr =
    (if pr AND IKCP_ASK_SEND \<noteq> 0 then [ikcp_encode_seg [] (seg\<lparr>cmd := IKCP_CMD_WASK\<rparr>)] else [])
    @ (if pr AND IKCP_ASK_TELL \<noteq> 0 then [ikcp_encode_seg [] (seg\<lparr>cmd := IKCP_CMD_WINS\<rparr>)] else [])"

lemma flush_ask_packed:
  assumes "mtu_inv k" "output_set k" "packed (unat (mtu k)) ps st"
  shows "\<exists>st'. flush_ask k ask c seg st = Inr (if probe k AND ask \<noteq> 0 then seg\<lparr>cmd := c\<rparr> else seg, st')
    \<and> packed (unat (mtu k)) (ps @ (if probe k AND ask \<noteq> 0 then [ikcp_encode_seg [] (seg\<lparr>cmd := c\<rparr>)] else [])) st'"
  using put_header_packed [OF assms, of "seg\<lparr>cmd := c\<rparr>"] assms(3)
  by (cases "probe k AND ask \<noteq> 0") (auto simp: flush_ask_def)

definition after_control :: "ikcpcb \<Rightarrow> ikcpcb" where
  "after_control k = (flush_probe (k\<lparr>ackcount := 0\<rparr>))\<lparr>probe := 0\<rparr>"

definition flush_asked :: "ikcpcb \<Rightarrow> u32" where
  "flush_asked k = probe (flush_probe (k\<lparr>ackcount := 0\<rparr>))"

lemma flush_probe_inv: "kcp_inv k \<Longrightarrow> kcp_inv (flush_probe k)"
  using flush_probe_eq [of k] by (auto simp: kcp_inv_defs)

lemma after_control_inv: "kcp_inv k \<Longrightarrow> kcp_inv (after_control k)"
proof -
  assume "kcp_inv k"
  then have "kcp_inv (k\<lparr>ackcount := 0\<rparr>)" by (simp add: kcp_inv_defs)
  then have "kcp_inv (flush_probe (k\<lparr>ackcount := 0\<rparr>))" by (rule flush_probe_inv)
  then show ?thesis by (simp add: after_control_def kcp_inv_defs)
qed

lemma after_control_frame [simp]:
  "mtu (after_control k) = mtu k" "mss (after_control k) = mss k" "output_set (after_control k) = output_set k"
  "snd_buf (after_control k) = snd_buf k" "snd_queue (after_control k) = snd_queue k"
  "snd_una (after_control k) = snd_una k" "snd_nxt (after_control k) = snd_nxt k"
  "ackcount (after_control k) = 0" "kconv (after_control k) = kconv k" "current (after_control k) = current k"
  "rcv_nxt (after_control k) = rcv_nxt k" "snd_wnd (after_control k) = snd_wnd k"
  "rmt_wnd (after_control k) = rmt_wnd k" "nocwnd (after_control k) = nocwnd k" "cwnd (after_control k) = cwnd k"
  using flush_probe_eq [of "k\<lparr>ackcount := 0\<rparr>"] by (auto simp: after_control_def)

text \<open>The sequence number and the time stamp of a probe are left over from the last acknowledgement.\<close>

definition last_ack :: "ikcpcb \<Rightarrow> u32 \<times> u32" where
  "last_ack k = last ((0, 0) # acks k)"

lemma flush_control_packed:
  assumes m: "mtu_inv k" and a: "ack_inv k" and out: "output_set k" and small: "unat (ackcount k) < 2 ^ 30"
  shows "\<exists>seg st. flush_control k = Inr (seg, after_control k, st)
    \<and> wnd seg = word_of_int (ikcp_wnd_unused k)
    \<and> packed (unat (mtu k)) (map (ack_piece (flush_head k)) (acks k)
          @ probe_pieces ((flush_head k)\<lparr>sn := fst (last_ack k), ts := snd (last_ack k)\<rparr>) (flush_asked k)) st"
proof -
  let ?n = "unat (ackcount k)" and ?m = "unat (mtu k)"
  let ?kp = "flush_probe (k\<lparr>ackcount := 0\<rparr>)"
  define s t where "s = fst (last_ack k)" and "t = snd (last_ack k)"
  have n: "nat (sint (ackcount k)) = ?n" using small by (simp add: sint_u32_unat)
  have len: "length (acks k) = ?n" by (simp add: acks_def)
  have "\<forall>i \<in> set [0..<?n]. ikcp_ack_get k i = Inr (acks k ! i)" using a by (auto intro: ack_get_acks)
  from flush_acks_packed [OF m out packed_start this, of "flush_head k"] obtain s1 where
    1: "flush_acks k [0..<?n] (flush_head k) ([], []) = Inr ((flush_head k)\<lparr>sn := s, ts := t\<rparr>, s1)"
      "packed ?m (map (ack_piece (flush_head k) \<circ> (!) (acks k)) [0..<?n]) s1"
    using map_nth [of "acks k"] unfolding len s_def t_def last_ack_def by (auto simp: flush_head_def)
  let ?seg = "(flush_head k)\<lparr>sn := s, ts := t\<rparr>"
  have e: "map (ack_piece (flush_head k) \<circ> (!) (acks k)) [0..<?n] = map (ack_piece (flush_head k)) (acks k)"
    using map_nth [of "acks k"] unfolding len by (metis map_map)
  have kp: "mtu ?kp = mtu k" "output_set ?kp" "mtu_inv ?kp"
    using flush_probe_eq [of "k\<lparr>ackcount := 0\<rparr>"] m out by (auto simp: mtu_inv_def)
  let ?A = "map (ack_piece (flush_head k)) (acks k)"
  have p1: "packed (unat (mtu ?kp)) ?A s1" using 1(2) e kp by simp
  from flush_ask_packed [OF kp(3,2) p1, of IKCP_ASK_SEND IKCP_CMD_WASK ?seg] obtain s2 where
    2: "flush_ask ?kp IKCP_ASK_SEND IKCP_CMD_WASK ?seg s1 =
          Inr (if probe ?kp AND IKCP_ASK_SEND \<noteq> 0 then ?seg\<lparr>cmd := IKCP_CMD_WASK\<rparr> else ?seg, s2)"
      and p2: "packed (unat (mtu ?kp)) (?A @ (if probe ?kp AND IKCP_ASK_SEND \<noteq> 0
          then [ikcp_encode_seg [] (?seg\<lparr>cmd := IKCP_CMD_WASK\<rparr>)] else [])) s2" by blast
  let ?seg2 = "if probe ?kp AND IKCP_ASK_SEND \<noteq> 0 then ?seg\<lparr>cmd := IKCP_CMD_WASK\<rparr> else ?seg"
  from flush_ask_packed [OF kp(3,2) p2, of IKCP_ASK_TELL IKCP_CMD_WINS ?seg2] obtain s3 where
    3: "flush_ask ?kp IKCP_ASK_TELL IKCP_CMD_WINS ?seg2 s2 =
          Inr (if probe ?kp AND IKCP_ASK_TELL \<noteq> 0 then ?seg2\<lparr>cmd := IKCP_CMD_WINS\<rparr> else ?seg2, s3)"
      and p3: "packed (unat (mtu ?kp)) ((?A @ (if probe ?kp AND IKCP_ASK_SEND \<noteq> 0
          then [ikcp_encode_seg [] (?seg\<lparr>cmd := IKCP_CMD_WASK\<rparr>)] else [])) @
          (if probe ?kp AND IKCP_ASK_TELL \<noteq> 0 then [ikcp_encode_seg [] (?seg2\<lparr>cmd := IKCP_CMD_WINS\<rparr>)] else [])) s3"
    by blast
  let ?seg3 = "if probe ?kp AND IKCP_ASK_TELL \<noteq> 0 then ?seg2\<lparr>cmd := IKCP_CMD_WINS\<rparr> else ?seg2"
  have "flush_control k = Inr (?seg3, after_control k, s3)"
    unfolding flush_control_def n 1(1) using 2 3 by (simp add: Let_def after_control_def)
  moreover have "wnd ?seg3 = word_of_int (ikcp_wnd_unused k)" by (simp add: flush_head_def)
  moreover have "?seg2\<lparr>cmd := IKCP_CMD_WINS\<rparr> = ?seg\<lparr>cmd := IKCP_CMD_WINS\<rparr>" by simp
  then have "packed ?m (?A @ probe_pieces ?seg (flush_asked k)) s3"
    using p3 by (simp only: kp probe_pieces_def flush_asked_def append_assoc)
  ultimately show ?thesis unfolding s_def t_def by blast
qed

text \<open>The window update touches three fields only.\<close>

definition cwnd_only :: "ikcpcb \<Rightarrow> ikcpcb \<Rightarrow> bool" where
  "cwnd_only k k' \<longleftrightarrow> (\<exists>a b c. k' = k\<lparr>ssthresh := a, cwnd := b, incr := c\<rparr>)"

lemma cwnd_only_refl: "cwnd_only k k"
proof -
  have "k = k\<lparr>ssthresh := ssthresh k, cwnd := cwnd k, incr := incr k\<rparr>" by simp
  then show ?thesis unfolding cwnd_only_def by blast
qed

lemma cwnd_only_upd:
  "cwnd_only k k' \<Longrightarrow> cwnd_only k (k'\<lparr>ssthresh := x\<rparr>)"
  "cwnd_only k k' \<Longrightarrow> cwnd_only k (k'\<lparr>cwnd := x\<rparr>)"
  "cwnd_only k k' \<Longrightarrow> cwnd_only k (k'\<lparr>incr := x\<rparr>)"
proof -
  have "k\<lparr>ssthresh := a, cwnd := b, incr := c\<rparr>\<lparr>ssthresh := x\<rparr> = k\<lparr>ssthresh := x, cwnd := b, incr := c\<rparr>"
    "k\<lparr>ssthresh := a, cwnd := b, incr := c\<rparr>\<lparr>cwnd := x\<rparr> = k\<lparr>ssthresh := a, cwnd := x, incr := c\<rparr>"
    "k\<lparr>ssthresh := a, cwnd := b, incr := c\<rparr>\<lparr>incr := x\<rparr> = k\<lparr>ssthresh := a, cwnd := b, incr := x\<rparr>" for a b c
    by simp_all
  then show "cwnd_only k k' \<Longrightarrow> cwnd_only k (k'\<lparr>ssthresh := x\<rparr>)"
    "cwnd_only k k' \<Longrightarrow> cwnd_only k (k'\<lparr>cwnd := x\<rparr>)" "cwnd_only k k' \<Longrightarrow> cwnd_only k (k'\<lparr>incr := x\<rparr>)"
    unfolding cwnd_only_def by metis+
qed

lemma cwnd_only_if: "cwnd_only k a \<Longrightarrow> cwnd_only k b \<Longrightarrow> cwnd_only k (if c then a else b)"
  by simp

lemma flush_windows_only: "cwnd_only k (flush_windows k cw r ch l)"
  unfolding flush_windows_def Let_def by (intro cwnd_only_if cwnd_only_upd cwnd_only_refl)

lemma flush_windows_eq: "\<exists>a b c. flush_windows k cw r ch l = k\<lparr>ssthresh := a, cwnd := b, incr := c\<rparr>"
  using flush_windows_only unfolding cwnd_only_def .

lemma map_after_inv:
  assumes "kcp_inv k" shows "kcp_inv (k\<lparr>snd_buf := map (seg_after x r m w) (snd_buf k)\<rparr>)"
proof -
  have "off b \<circ> seg_after x r m w = off b" for b by (simp add: fun_eq_iff off_def)
  with assms show ?thesis by (auto simp: kcp_inv_defs seg_ok_def off_def)
qed

text \<open>The window granted to the data segments, and the state they are sent from.\<close>

definition before_segs :: "ikcpcb \<Rightarrow> ikcpcb" where
  "before_segs k = flush_move (after_control k) (word_of_int (ikcp_wnd_unused k)) (flush_cwnd (after_control k))"

definition sent_segs :: "ikcpcb \<Rightarrow> ikcpseg list" where
  "sent_segs k = (let b = before_segs k
     in List.map_filter (seg_next b (flush_resent b) (flush_rtomin b) (word_of_int (ikcp_wnd_unused k))) (snd_buf b))"

definition flush_pieces :: "ikcpcb \<Rightarrow> u32 \<Rightarrow> u32 \<Rightarrow> bytes list" where
  "flush_pieces k s t = map (ack_piece (flush_head k)) (acks k)
     @ probe_pieces ((flush_head k)\<lparr>sn := s, ts := t\<rparr>) (flush_asked k) @ map seg_piece (sent_segs k)"

lemma flush_pieces_nonempty: "\<forall>p \<in> set (flush_pieces k s t). p \<noteq> []"
proof -
  have "ikcp_encode_seg [] x \<noteq> [] \<and> [] \<noteq> ikcp_encode_seg [] x" for x
    by (metis length_encode_seg list.size(3) add_is_0 zero_neq_numeral)
  then show ?thesis by (auto simp: flush_pieces_def ack_piece_def probe_pieces_def seg_piece_def)
qed

lemma flush_cwnd_bound:
  assumes "kcp_inv k" shows "unat (flush_cwnd k) < 2 ^ 16"
proof -
  have "flush_cwnd k \<le> rmt_wnd k" by (auto simp: flush_cwnd_def imin_def Let_def)
  then show ?thesis using assms by (auto simp: kcp_inv_defs word_le_nat_alt)
qed

lemma before_segs_inv: "kcp_inv k \<Longrightarrow> kcp_inv (before_segs k)"
  unfolding before_segs_def by (intro flush_move_inv flush_cwnd_bound after_control_inv)

lemma before_segs_frame [simp]:
  "mtu (before_segs k) = mtu k" "mss (before_segs k) = mss k" "output_set (before_segs k) = output_set k"
  "ackcount (before_segs k) = 0" "snd_una (before_segs k) = snd_una k" "kconv (before_segs k) = kconv k"
  "current (before_segs k) = current k" "rcv_nxt (before_segs k) = rcv_nxt k"
  by (simp_all add: before_segs_def)

lemma ikcp_flush_exact:
  assumes inv: "kcp_inv k" and out: "output_set k" and small: "unat (ackcount k) < 2 ^ 30"
  shows "\<exists>k' ds. ikcp_flush k = Inr (k', map concat ds) \<and> concat ds = flush_pieces k (fst (last_ack k)) (snd (last_ack k))
    \<and> (\<forall>d \<in> set (map concat ds). 0 < length d \<and> length d \<le> unat (mtu k))
    \<and> kcp_inv k' \<and> ackcount k' = 0 \<and> kconv k' = kconv k \<and> output_set k'
    \<and> snd_queue k' = snd_queue (before_segs k) \<and> snd_nxt k' = snd_nxt (before_segs k)
    \<and> snd_una k' = snd_una k
    \<and> snd_buf k' = map (seg_after (before_segs k) (flush_resent (before_segs k)) (flush_rtomin (before_segs k))
           (word_of_int (ikcp_wnd_unused k))) (snd_buf (before_segs k))"
proof -
  define s t where "s = fst (last_ack k)" and "t = snd (last_ack k)"
  have i: "mtu_inv k" "ack_inv k" using inv by (simp_all add: kcp_inv_def)
  from flush_control_packed [OF i out small, folded s_def t_def] obtain seg st where
    1: "flush_control k = Inr (seg, after_control k, st)" and w: "wnd seg = word_of_int (ikcp_wnd_unused k)"
    and p1: "packed (unat (mtu k)) (map (ack_piece (flush_head k)) (acks k)
          @ probe_pieces ((flush_head k)\<lparr>sn := s, ts := t\<rparr>) (flush_asked k)) st" by blast
  let ?b = "before_segs k"
  let ?w = "word_of_int (ikcp_wnd_unused k) :: u32"
  have b: "flush_move (after_control k) ?w (flush_cwnd (after_control k)) = ?b" by (simp add: before_segs_def)
  have binv: "kcp_inv ?b" using inv by (rule before_segs_inv)
  have m: "mtu_inv ?b" and q: "\<forall>s \<in> set (snd_buf ?b). seg_ok s \<and> length (data s) \<le> unat (mss ?b)"
    using binv by (auto simp: kcp_inv_def snd_inv_def)
  have ob: "output_set ?b" using out by simp
  have p2: "packed (unat (mtu ?b)) (map (ack_piece (flush_head k)) (acks k)
          @ probe_pieces ((flush_head k)\<lparr>sn := s, ts := t\<rparr>) (flush_asked k)) st" using p1 by simp
  let ?sa = "seg_after ?b (flush_resent ?b) (flush_rtomin ?b) ?w"
  obtain x y ch l ptr o1 where
    2: "flush_segs (flush_resent ?b) (flush_rtomin ?b) ?w (snd_buf ?b) ?b 0 False st =
        Inr (map ?sa (snd_buf ?b), ?b\<lparr>kxmit := x, state := y\<rparr>, ch, l, ptr, o1)"
    and p3: "packed (unat (mtu k)) (flush_pieces k s t) (ptr, o1)"
  proof -
    from flush_segs_spec [OF m ob p2 q, of "flush_resent ?b" "flush_rtomin ?b" ?w 0 False] obtain x y st' where
      "flush_segs (flush_resent ?b) (flush_rtomin ?b) ?w (snd_buf ?b) ?b 0 False st =
          Inr (map ?sa (snd_buf ?b), ?b\<lparr>kxmit := x, state := y\<rparr>,
             0 + int (length (filter (fast_due ?b (flush_resent ?b)) (snd_buf ?b))),
             False \<or> (\<exists>s \<in> set (snd_buf ?b). timed_out ?b s), fst st', snd st')"
      "packed (unat (mtu k)) (flush_pieces k s t) (fst st', snd st')"
      unfolding flush_pieces_def sent_segs_def Let_def prod.collapse append_assoc before_segs_frame by blast
    then show thesis by (rule that)
  qed
  let ?k2 = "?b\<lparr>kxmit := x, state := y, snd_buf := map ?sa (snd_buf ?b)\<rparr>"
  let ?k3 = "flush_windows ?k2 (flush_cwnd (after_control k)) (flush_resent ?b) ch l"
  let ?out = "if ptr = [] then o1 else o1 @ [ptr]"
  have 3: "ikcp_flush k = Inr (?k3, ?out)"
    using out unfolding ikcp_flush_def 1 sum.case prod.case w Let_def b 2 by (simp add: ikcp_output_def)
  from packed_done [OF p3 flush_pieces_nonempty] obtain ds where
    d: "?out = map concat ds" "concat ds = flush_pieces k s t" by blast
  have bounds: "\<forall>d \<in> set (map concat ds). 0 < length d \<and> length d \<le> unat (mtu k)"
    using packed_output [OF p3] unfolding d(1) packed_def by simp
  have k2: "kcp_inv (?b\<lparr>snd_buf := map ?sa (snd_buf ?b)\<rparr>)" using binv by (rule map_after_inv)
  obtain a c e where k3: "?k3 = ?k2\<lparr>ssthresh := a, cwnd := c, incr := e\<rparr>"
    using flush_windows_eq [of ?k2 "flush_cwnd (after_control k)" "flush_resent ?b" ch l] by (elim exE)
  let ?k4 = "?k2\<lparr>ssthresh := a, cwnd := c, incr := e\<rparr>"
  have "ikcp_flush k = Inr (?k4, map concat ds)" unfolding 3 k3 d(1) ..
  moreover have "kcp_inv ?k4" using k2 by (simp add: kcp_inv_defs)
  moreover have "ackcount ?k4 = 0 \<and> kconv ?k4 = kconv k \<and> output_set ?k4 \<and> snd_queue ?k4 = snd_queue ?b
      \<and> snd_nxt ?k4 = snd_nxt ?b \<and> snd_una ?k4 = snd_una k \<and> snd_buf ?k4 = map ?sa (snd_buf ?b)"
    using out by simp
  ultimately show ?thesis unfolding s_def [symmetric] t_def [symmetric]
    using d(2) bounds by (intro exI [of _ ?k4] exI [of _ ds] conjI) simp_all
qed

lemma ikcp_flush_spec:
  assumes "kcp_inv k" "output_set k" "unat (ackcount k) < 2 ^ 30"
  shows "\<exists>k' ds s t. ikcp_flush k = Inr (k', map concat ds) \<and> concat ds = flush_pieces k s t
    \<and> (\<forall>d \<in> set (map concat ds). 0 < length d \<and> length d \<le> unat (mtu k))
    \<and> kcp_inv k' \<and> ackcount k' = 0 \<and> kconv k' = kconv k \<and> output_set k'
    \<and> snd_queue k' = snd_queue (before_segs k) \<and> snd_nxt k' = snd_nxt (before_segs k)
    \<and> snd_una k' = snd_una k
    \<and> snd_buf k' = map (seg_after (before_segs k) (flush_resent (before_segs k)) (flush_rtomin (before_segs k))
           (word_of_int (ikcp_wnd_unused k))) (snd_buf (before_segs k))"
  using ikcp_flush_exact [OF assms] by blast

section \<open>The clock\<close>

lemma update_clock_inv: "kcp_inv k \<Longrightarrow> kcp_inv (snd (update_clock k now))"
  by (simp add: update_clock_def Let_def kcp_inv_defs split: prod.split)

lemma ikcp_update_inv:
  assumes "kcp_inv k" "output_set k" "unat (ackcount k) < 2 ^ 30"
  shows "\<exists>k' out. ikcp_update k now = Inr (k', out) \<and> kcp_inv k'"
proof -
  obtain due c where c: "update_clock k now = (due, c)" by fastforce
  have "kcp_inv c" using update_clock_inv [OF assms(1), of now] c by simp
  moreover have "output_set c = output_set k" "ackcount c = ackcount k"
    using c by (auto simp: update_clock_def Let_def split: if_splits prod.splits)
  ultimately show ?thesis
    using assms ikcp_flush_spec [of c] by (cases due) (auto simp: ikcp_update_def c)
qed

end
