(* ===== verification/Kcp_Frame.thy ===== *)
theory Kcp_Frame
  imports Kcp_Flush
begin

text \<open>
  What each operation leaves alone. \<open>rx_same\<close>: the receiving queues and \<open>rcv_nxt\<close> are
  untouched. \<open>tx_sub\<close>: the send queue, \<open>snd_nxt\<close>, the segment size and the mode are
  untouched, and what is in flight afterwards was in flight before, with its number and payload.
\<close>

definition seg_key :: "ikcpseg \<Rightarrow> u32 \<times> bytes" where
  "seg_key s = (frg s, data s)"

definition rx_same :: "ikcpcb \<Rightarrow> ikcpcb \<Rightarrow> bool" where
  "rx_same k k' \<longleftrightarrow> rcv_queue k' = rcv_queue k \<and> rcv_buf k' = rcv_buf k \<and> rcv_nxt k' = rcv_nxt k"

definition kept_in :: "ikcpseg list \<Rightarrow> ikcpseg \<Rightarrow> bool" where
  "kept_in q s \<longleftrightarrow> (\<exists>t \<in> set q. sn t = sn s \<and> seg_key t = seg_key s)"

definition tx_sub :: "ikcpcb \<Rightarrow> ikcpcb \<Rightarrow> bool" where
  "tx_sub k k' \<longleftrightarrow> snd_queue k' = snd_queue k \<and> snd_nxt k' = snd_nxt k \<and> mss k' = mss k \<and> stream k' = stream k
     \<and> (\<forall>s \<in> set (snd_buf k'). kept_in (snd_buf k) s)"

lemma rx_same_refl [simp]: "rx_same k k"
  by (simp add: rx_same_def)

lemma rx_same_trans: "rx_same k k' \<Longrightarrow> rx_same k' k'' \<Longrightarrow> rx_same k k''"
  by (simp add: rx_same_def)

lemma kept_in_self: "s \<in> set q \<Longrightarrow> kept_in q s"
  by (auto simp: kept_in_def)

lemma tx_sub_same:
  "snd_queue k' = snd_queue k \<Longrightarrow> snd_nxt k' = snd_nxt k \<Longrightarrow> mss k' = mss k \<Longrightarrow> stream k' = stream k \<Longrightarrow>
    set (snd_buf k') \<subseteq> set (snd_buf k) \<Longrightarrow> tx_sub k k'"
  by (auto simp: tx_sub_def kept_in_self)

lemma tx_sub_refl [simp]: "tx_sub k k"
  by (intro tx_sub_same) auto

lemma tx_sub_trans: "tx_sub k k' \<Longrightarrow> tx_sub k' k'' \<Longrightarrow> tx_sub k k''"
  unfolding tx_sub_def kept_in_def by metis

section \<open>Acknowledgements\<close>

lemma update_ack_eq:
  "\<exists>a b c. ikcp_update_ack k r = k\<lparr>rx_srtt := a, rx_rttval := b, rx_rto := c\<rparr>"
proof -
  have "k\<lparr>rx_srtt := a, rx_rttval := b, rx_rto := c\<rparr> = k\<lparr>rx_srtt := a, rx_rttval := b, rx_rto := c\<rparr>
    \<and> k\<lparr>rx_rttval := b, rx_srtt := a, rx_rto := c\<rparr> = k\<lparr>rx_srtt := a, rx_rttval := b, rx_rto := c\<rparr>" for a b c by simp
  then show ?thesis unfolding ikcp_update_ack_def Let_def by (cases "rx_srtt k = 0") auto
qed

lemma update_ack_frames: "rx_same k (ikcp_update_ack k r) \<and> tx_sub k (ikcp_update_ack k r)"
  using update_ack_eq [of k r] by (auto simp: rx_same_def intro!: tx_sub_same)

lemma shrink_buf_frames: "rx_same k (ikcp_shrink_buf k) \<and> tx_sub k (ikcp_shrink_buf k)"
  by (auto simp: rx_same_def ikcp_shrink_buf_def intro!: tx_sub_same split: list.split)

lemma parse_una_frames: "rx_same k (ikcp_parse_una k u) \<and> tx_sub k (ikcp_parse_una k u)"
  by (auto simp: rx_same_def ikcp_parse_una_def parse_una_loop_eq intro!: tx_sub_same dest: set_dropWhileD)

lemma parse_ack_loop_subset: "set (fst (parse_ack_loop u q n)) \<subseteq> set q"
  by (induction u q n rule: parse_ack_loop.induct) (auto simp: Let_def split: prod.split)

lemma parse_ack_frames: "rx_same k (ikcp_parse_ack k u) \<and> tx_sub k (ikcp_parse_ack k u)"
  using parse_ack_loop_subset [of u "snd_buf k" "nsnd_buf k"]
  by (auto simp: rx_same_def ikcp_parse_ack_def Let_def intro!: tx_sub_same split: prod.splits)

lemma fastack_loop_kept: "s \<in> set (fastack_loop u q) \<Longrightarrow> kept_in q s"
proof (induction u q rule: fastack_loop.induct)
  case (1 u)
  then show ?case by simp
next
  case (2 u t q)
  then show ?case by (auto simp: kept_in_def seg_key_def Let_def split: if_splits)
qed

lemma parse_fastack_frames: "rx_same k (ikcp_parse_fastack k u) \<and> tx_sub k (ikcp_parse_fastack k u)"
  by (auto simp: rx_same_def ikcp_parse_fastack_def tx_sub_def kept_in_self intro: fastack_loop_kept)

lemma input_ack_frames: "rx_same k (fst (input_ack k f m s t)) \<and> tx_sub k (fst (input_ack k f m s t))"
proof -
  let ?a = "if itimediff (current k) t \<ge> 0
            then ikcp_update_ack k (word_of_int (itimediff (current k) t)) else k"
  have 1: "rx_same k ?a \<and> tx_sub k ?a" using update_ack_frames by simp
  have "fst (input_ack k f m s t) = ikcp_shrink_buf (ikcp_parse_ack ?a s)"
    by (simp add: input_ack_def Let_def)
  with 1 show ?thesis
    using parse_ack_frames [of ?a s] shrink_buf_frames [of "ikcp_parse_ack ?a s"]
    by (auto intro: rx_same_trans tx_sub_trans)
qed

lemma seg_start_frames: "rx_same k (seg_start k h) \<and> tx_sub k (seg_start k h)"
proof -
  let ?w = "k\<lparr>rmt_wnd := ucast (h_wnd h)\<rparr>"
  have "rx_same k ?w \<and> tx_sub k ?w" by (auto simp: rx_same_def intro: tx_sub_same)
  then show ?thesis
    using parse_una_frames [of ?w "h_una h"] shrink_buf_frames [of "ikcp_parse_una ?w (h_una h)"]
    by (auto simp: seg_start_def intro: rx_same_trans tx_sub_trans)
qed

lemma input_cwnd_only: "cwnd_only k (input_cwnd k u)"
  unfolding input_cwnd_def Let_def by (intro cwnd_only_if cwnd_only_upd cwnd_only_refl)

lemma input_cwnd_frames: "rx_same k (input_cwnd k u) \<and> tx_sub k (input_cwnd k u)"
  using input_cwnd_only [of k u] by (auto simp: rx_same_def cwnd_only_def intro!: tx_sub_same)

section \<open>Data segments and whole datagrams\<close>

lemma ack_push_frames: "ikcp_ack_push ok k s t = Inr k' \<Longrightarrow> rx_same k k' \<and> tx_sub k k'"
  unfolding ikcp_ack_push_def ack_grow_def Let_def rx_same_def
  by (intro conjI tx_sub_same) (auto split: if_splits sum.splits)

lemma move_ready_tx: "tx_sub k (move_ready k)"
proof (induction k rule: move_ready.induct)
  case (1 k)
  show ?case
  proof (cases "rcv_buf k")
    case Nil
    then show ?thesis by (simp add: move_ready.simps [of k])
  next
    case (Cons s q)
    let ?k = "k\<lparr>rcv_buf := q, nrcv_buf := nrcv_buf k - 1, rcv_queue := rcv_queue k @ [s],
               nrcv_que := nrcv_que k + 1, rcv_nxt := rcv_nxt k + 1\<rparr>"
    have "tx_sub k ?k" by (intro tx_sub_same) auto
    then show ?thesis using "1.IH" [OF Cons] Cons
      by (auto simp: move_ready.simps [of k] intro: tx_sub_trans)
  qed
qed

lemma parse_data_tx: "tx_sub k (ikcp_parse_data k s)"
proof -
  have "tx_sub k (k\<lparr>rcv_buf := a, nrcv_buf := b\<rparr>)" for a b by (intro tx_sub_same) auto
  then have "tx_sub k (move_ready (k\<lparr>rcv_buf := a, nrcv_buf := b\<rparr>))" for a b
    using move_ready_tx tx_sub_trans by blast
  then show ?thesis
    unfolding ikcp_parse_data_def Let_def by (auto intro: move_ready_tx split: prod.split)
qed

lemma input_push_tx:
  assumes "input_push ok k h p = Inr k'" shows "tx_sub k k'"
  using assms unfolding input_push_def
  by (auto split: if_splits sum.splits dest!: ack_push_frames intro: tx_sub_trans parse_data_tx)

lemma probe_tx: "tx_sub k (k\<lparr>probe := x\<rparr>)"
  by (intro tx_sub_same) auto

lemma input_seg_tx:
  assumes "input_seg ok h p st = Inr st'" shows "tx_sub (fst st) (fst st')"
proof -
  obtain k flag m where st: "st = (k, flag, m)" by (cases st)
  let ?k = "seg_start k h"
  have s: "tx_sub k ?k" using seg_start_frames by simp
  have "tx_sub ?k (fst st')"
    using assms unfolding st input_seg_eq
    by (auto split: if_splits sum.splits dest: input_push_tx intro: probe_tx
        simp: input_ack_frames [THEN conjunct2, unfolded fst_conv])
  with s show ?thesis by (simp add: st tx_sub_trans [OF s])
qed

lemma input_loop_tx:
  "input_loop ok i p st = Inr (r, st') \<Longrightarrow> tx_sub (fst st) (fst st')"
proof (induction ok i p st rule: input_loop.induct)
  case (1 ok i p st)
  show ?case
  proof (cases rule: input_loop_cases [of p ok i st])
    case stop
    then show ?thesis using "1.prems" by simp
  next
    case (refuse r')
    then show ?thesis using "1.prems" by simp
  next
    case (step p1 h p2)
    then obtain st1 where s1: "input_seg (ok i) h p2 st = Inr st1" using "1.prems" by (auto split: sum.splits)
    have "input_loop ok (Suc i) (drop (unat (h_len h)) p2) st1 = Inr (r, st')"
      using "1.prems" step(6) s1 by simp
    moreover have "\<not> length p < unat IKCP_OVERHEAD" using step(5) by (simp add: ikcp_consts)
    ultimately have "tx_sub (fst st1) (fst st')"
      using "1.IH" [OF _ step(1) refl _ step(2) refl, of st1] step(3,4) s1 by simp
    then show ?thesis using input_seg_tx [OF s1] tx_sub_trans by blast
  qed
qed

lemma input_tx:
  assumes "ikcp_input ok k dat = Inr (r, k')" shows "tx_sub k k'"
proof (cases "dat = None \<or> length (the dat) < 24")
  case True
  then show ?thesis using assms by (auto simp: ikcp_input_def split: option.splits)
next
  case False
  then obtain p where p: "dat = Some p" "\<not> length p < 24" by auto
  obtain r1 k1 f m where l: "input_loop ok 0 p (k, 0, 0) = Inr (r1, k1, f, m)"
    using assms p unfolding ikcp_input_def Let_def by (auto split: sum.splits)
  have 1: "tx_sub k k1" using input_loop_tx [OF l] by simp
  show ?thesis
  proof (cases r1)
    case None
    let ?k2 = "if f \<noteq> 0 then ikcp_parse_fastack k1 m else k1"
    have "k' = input_cwnd ?k2 (snd_una k)" using assms p l None by (simp add: ikcp_input_def Let_def)
    moreover have "tx_sub k1 ?k2" using parse_fastack_frames by simp
    ultimately show ?thesis using 1 input_cwnd_frames tx_sub_trans by metis
  next
    case (Some x)
    then have "k' = k1" using assms p l by (simp add: ikcp_input_def)
    with 1 show ?thesis by simp
  qed
qed

section \<open>Reading\<close>

lemma recv_merge_tx: "tx_sub k (fst (recv_merge ispeek b q k l out))"
  by (auto simp: recv_merge_eq intro!: tx_sub_same)

lemma recv_tx:
  assumes "ikcp_recv k b l = Inr (r, out, k')" shows "tx_sub k k'"
proof -
  obtain k1 n o1 where m: "recv_merge (l < 0) b (rcv_queue k) k 0 [] = (k1, n, o1)" by (metis prod_cases3)
  have 1: "tx_sub k k1" using recv_merge_tx [of k "l < 0" b "rcv_queue k" 0 "[]"] m by simp
  have "k' = k \<or> k' = move_ready k1 \<or> k' = (move_ready k1)\<lparr>probe := probe (move_ready k1) OR IKCP_ASK_TELL\<rparr>"
    using assms unfolding ikcp_recv_def Let_def m by (auto split: if_splits)
  then show ?thesis using 1 move_ready_tx probe_tx tx_sub_trans tx_sub_refl by metis
qed

section \<open>Flushing\<close>

lemma flush_control_state:
  assumes "flush_control k = Inr (seg, k', st)" shows "k' = after_control k"
  using assms unfolding flush_control_def Let_def after_control_def
  by (auto split: sum.splits prod.splits)

lemma flush_segs_state:
  "flush_segs r m w q k ch l st = Inr (q', k', z) \<Longrightarrow> \<exists>x y. k' = k\<lparr>kxmit := x, state := y\<rparr>"
proof (induction q arbitrary: k ch l st q' k' z)
  case Nil
  then have "k' = k\<lparr>kxmit := kxmit k, state := state k\<rparr>" by simp
  then show ?case by blast
next
  case (Cons s q)
  show ?case
  proof (cases "seg_next k r m w s")
    case None
    obtain q1 where "flush_segs r m w q k ch l st = Inr (q1, k', z)"
      using Cons.prems unfolding flush_segs_None [OF None] by (auto split: sum.splits)
    from Cons.IH [OF this] show ?thesis .
  next
    case (Some s')
    obtain st1 q1 where "flush_segs r m w q (mark_dead (bump k s) s') (ch + (if fast_due k r s then 1 else 0))
        (l \<or> timed_out k s) st1 = Inr (q1, k', z)"
      using Cons.prems unfolding flush_segs_Some [OF Some] by (auto split: sum.splits)
    from Cons.IH [OF this] obtain x y where "k' = (mark_dead (bump k s) s')\<lparr>kxmit := x, state := y\<rparr>" by blast
    moreover obtain a b where "mark_dead (bump k s) s' = k\<lparr>kxmit := a, state := b\<rparr>" using bump_dead_eq by blast
    ultimately have "k' = k\<lparr>kxmit := x, state := y\<rparr>" by simp
    then show ?thesis by blast
  qed
qed

lemma flush_move_rx: "rx_same k (flush_move k w cw) \<and> stream (flush_move k w cw) = stream k"
proof (induction k w cw rule: flush_move.induct)
  case (1 k w cw)
  then show ?case by (auto simp: flush_move.simps [of k] rx_same_def split: list.split)
qed

lemma after_control_rx: "rx_same k (after_control k) \<and> stream (after_control k) = stream k"
  using flush_probe_eq [of "k\<lparr>ackcount := 0\<rparr>"] by (auto simp: after_control_def rx_same_def)

text \<open>The state after a flush, up to fields of the send side.\<close>

lemma flush_state:
  assumes "ikcp_flush k = Inr (k', out)"
  shows "rx_same k k' \<and> mss k' = mss k \<and> stream k' = stream k"
proof -
  obtain seg k1 st where c: "flush_control k = Inr (seg, k1, st)"
    using assms unfolding ikcp_flush_def by (auto split: sum.splits)
  let ?b = "flush_move (after_control k) (wnd seg) (flush_cwnd (after_control k))"
  obtain q' k2 ch l ptr o1 where s: "flush_segs (flush_resent ?b) (flush_rtomin ?b) (wnd seg) (snd_buf ?b) ?b 0 False st =
      Inr (q', k2, ch, l, ptr, o1)"
    using assms unfolding ikcp_flush_def c flush_control_state [OF c] Let_def by (auto split: sum.splits)
  obtain x y where k2: "k2 = ?b\<lparr>kxmit := x, state := y\<rparr>" using flush_segs_state [OF s] by blast
  have "k' = flush_windows (k2\<lparr>snd_buf := q'\<rparr>) (flush_cwnd (after_control k)) (flush_resent ?b) ch l"
    using assms unfolding ikcp_flush_def c flush_control_state [OF c] Let_def sum.case prod.case s
    by (auto split: sum.splits)
  moreover obtain a b c where "flush_windows (k2\<lparr>snd_buf := q'\<rparr>) (flush_cwnd (after_control k)) (flush_resent ?b) ch l
      = (k2\<lparr>snd_buf := q'\<rparr>)\<lparr>ssthresh := a, cwnd := b, incr := c\<rparr>"
    using flush_windows_eq by blast
  ultimately show ?thesis
    using flush_move_rx [of "after_control k" "wnd seg" "flush_cwnd (after_control k)"] after_control_rx [of k]
    by (simp add: k2 rx_same_def)
qed

lemma update_clock_fields:
  "rx_same k (snd (update_clock k now))" "tx_sub k (snd (update_clock k now))"
  "ackcount (snd (update_clock k now)) = ackcount k" "output_set (snd (update_clock k now)) = output_set k"
  by (simp_all add: update_clock_def Let_def rx_same_def tx_sub_def kept_in_self split: prod.split)

end
