(* ===== verification/Machine.thy ===== *)
theory Machine
  imports Main
begin

text \<open>
  State machines and their contracts as locales. \<open>reachable\<close> closes a set of initial states
  under a step relation. The locale \<open>machine\<close> is the interface of a component whose operations
  keep an invariant; \<open>simulation\<close> extends it with an abstract machine that every concrete step
  follows (or stutters), so that what holds of the abstract runs holds of the concrete ones.
\<close>

inductive reachable :: "('s \<Rightarrow> bool) \<Rightarrow> ('s \<Rightarrow> 's \<Rightarrow> bool) \<Rightarrow> 's \<Rightarrow> bool"
  for start :: "'s \<Rightarrow> bool" and step :: "'s \<Rightarrow> 's \<Rightarrow> bool" where
  reach_start: "start s \<Longrightarrow> reachable start step s"
| reach_step: "reachable start step s \<Longrightarrow> step s t \<Longrightarrow> reachable start step t"

locale machine =
  fixes start :: "'s \<Rightarrow> bool"
    and step :: "'s \<Rightarrow> 's \<Rightarrow> bool"
    and inv :: "'s \<Rightarrow> bool"
  assumes inv_start: "start s \<Longrightarrow> inv s"
    and inv_step: "inv s \<Longrightarrow> step s t \<Longrightarrow> inv t"
begin

lemma inv_reachable: "reachable start step s \<Longrightarrow> inv s"
  by (induction rule: reachable.induct) (auto intro: inv_start inv_step)

end

locale simulation = machine start step inv
  for start :: "'s \<Rightarrow> bool" and step :: "'s \<Rightarrow> 's \<Rightarrow> bool" and inv :: "'s \<Rightarrow> bool" +
  fixes astart :: "'a \<Rightarrow> bool"
    and astep :: "'a \<Rightarrow> 'a \<Rightarrow> bool"
    and abs :: "'s \<Rightarrow> 'a"
  assumes sim_start: "start s \<Longrightarrow> astart (abs s)"
    and sim_step: "inv s \<Longrightarrow> step s t \<Longrightarrow> abs t = abs s \<or> astep (abs s) (abs t)"
begin

lemma abs_reachable: "reachable start step s \<Longrightarrow> reachable astart astep (abs s)"
proof (induction rule: reachable.induct)
  case (reach_start s)
  then show ?case by (auto intro: reachable.reach_start sim_start)
next
  case (reach_step s t)
  then have "abs t = abs s \<or> astep (abs s) (abs t)" by (intro sim_step inv_reachable)
  with reach_step.IH show ?case by (auto intro: reachable.reach_step)
qed

end

end
