(* ===== verification/Kcp_Machine.thy ===== *)
theory Kcp_Machine
  imports Kcp_Flush Machine
begin

text \<open>
  The control block under its interface: a step is one call of the API of \<open>ikcp/ikcp.h\<close> with
  any arguments. The conditions are those of the caller: an \<open>int\<close> argument is one, the send
  queue and the list of pending acknowledgements stay below the range of their counters, windows
  are below half the sequence space, and the MTU is only lowered while what is queued still fits
  (the code does not check that, see \<open>setmtu_overruns\<close>). Every state reached from
  \<open>ikcp_create\<close> keeps the invariants, and no call faults in it.
\<close>

definition kcp_start :: "ikcpcb \<Rightarrow> bool" where
  "kcp_start k \<longleftrightarrow> (\<exists>cv. ikcp_create (\<lambda>_. True) cv = Some k)"

inductive kcp_step :: "ikcpcb \<Rightarrow> ikcpcb \<Rightarrow> bool" where
  call_send: "ikcp_send ok k buf l = Inr (r, k') \<Longrightarrow> l < 2 ^ 31 \<Longrightarrow> length (snd_queue k) + 256 < 2 ^ 32 \<Longrightarrow>
    kcp_step k k'"
| call_recv: "ikcp_recv k b l = Inr (r, out, k') \<Longrightarrow> kcp_step k k'"
| call_input: "ikcp_input ok k dat = Inr (r, k') \<Longrightarrow>
    (case dat of None \<Rightarrow> True | Some p \<Rightarrow> unat (ackcount k) + length p div 24 < 2 ^ 30) \<Longrightarrow> kcp_step k k'"
| call_update: "ikcp_update k now = Inr (k', out) \<Longrightarrow> output_set k \<Longrightarrow> unat (ackcount k) < 2 ^ 30 \<Longrightarrow> kcp_step k k'"
| call_flush: "ikcp_flush k = Inr (k', out) \<Longrightarrow> output_set k \<Longrightarrow> unat (ackcount k) < 2 ^ 30 \<Longrightarrow> kcp_step k k'"
| call_setoutput: "kcp_step k (ikcp_setoutput k out)"
| call_nodelay: "kcp_step k (snd (ikcp_nodelay k nd i resend nc))"
| call_interval: "kcp_step k (snd (ikcp_interval k i))"
| call_wndsize: "snd (ikcp_wndsize (Some k) sndwnd rcvwnd) = Some k' \<Longrightarrow> sndwnd < 2 ^ 31 \<Longrightarrow> rcvwnd < 2 ^ 31 \<Longrightarrow>
    kcp_step k k'"
| call_setmtu: "m < 2 ^ 30 \<Longrightarrow> \<forall>s \<in> set (snd_queue k) \<union> set (snd_buf k). int (length (data s)) + 24 \<le> m \<Longrightarrow>
    kcp_step k (snd (ikcp_setmtu ok k m))"

lemma setoutput_inv: "kcp_inv k \<Longrightarrow> kcp_inv (ikcp_setoutput k out)"
  by (simp add: kcp_inv_defs ikcp_setoutput_def)

lemma flush_inv:
  assumes "kcp_inv k" "output_set k" "unat (ackcount k) < 2 ^ 30" "ikcp_flush k = Inr (k', out)"
  shows "kcp_inv k'"
  using ikcp_flush_spec [OF assms(1-3)] assms(4) by auto

lemma update_inv:
  assumes "kcp_inv k" "output_set k" "unat (ackcount k) < 2 ^ 30" "ikcp_update k now = Inr (k', out)"
  shows "kcp_inv k'"
  using ikcp_update_inv [OF assms(1-3), of now] assms(4) by auto

lemma input_inv:
  assumes "kcp_inv k" "ikcp_input ok k dat = Inr (r, k')"
    "case dat of None \<Rightarrow> True | Some p \<Rightarrow> unat (ackcount k) + length p div 24 < 2 ^ 30"
  shows "kcp_inv k'"
  using assms ikcp_input_inv by (cases dat) (auto simp: ikcp_input_def)

lemma kcp_step_inv:
  assumes "kcp_inv k" "kcp_step k k'" shows "kcp_inv k'"
  using assms(2)
proof (cases rule: kcp_step.cases)
  case (call_send ok buf l r)
  then show ?thesis using ikcp_send_inv assms(1) by blast
next
  case (call_recv b l r out)
  then show ?thesis using ikcp_recv_inv assms(1) by blast
next
  case (call_input ok dat r)
  then show ?thesis using input_inv assms(1) by blast
next
  case (call_update now out)
  then show ?thesis using update_inv assms(1) by blast
next
  case (call_flush out)
  then show ?thesis using flush_inv assms(1) by blast
next
  case (call_setoutput out)
  then show ?thesis using setoutput_inv assms(1) by simp
next
  case (call_nodelay nd i resend nc)
  then show ?thesis using nodelay_inv assms(1) by simp
next
  case (call_interval i)
  then show ?thesis using interval_inv assms(1) by simp
next
  case (call_wndsize sndwnd rcvwnd)
  then show ?thesis using wndsize_inv [OF assms(1), of sndwnd rcvwnd] by simp
next
  case (call_setmtu m ok)
  then show ?thesis using setmtu_inv [OF assms(1), of m ok] by simp
qed

interpretation kcm: machine kcp_start kcp_step kcp_inv
  by unfold_locales (auto simp: kcp_start_def intro: create_inv kcp_step_inv)

end
