(* ===== verification/Kcp_Link.thy ===== *)
theory Kcp_Link
  imports Kcp_Frame Kcp_Machine
begin

text \<open>
  Two endpoints and the network between them. The receiving endpoint may be given any datagram the
  sending one has ever handed to its callback, in any order, any number of times or never: the
  network loses, duplicates, reorders and delays. The sending endpoint may be given any bytes at
  all. Ghost fields record the messages \<open>ikcp_send\<close> accepted and those \<open>ikcp_recv\<close> returned;
  the specification is a channel that delivers the messages sent in order, once each.

  The log of the connection is the list of segments of all messages sent: number \<open>i\<close> of the
  log has sequence number \<open>i\<close>. At most \<open>2 ^ 31\<close> segments are sent in the life of the
  connection: beyond that an old datagram could pass for a new one.
\<close>

section \<open>The log\<close>

definition msg_keys :: "nat \<Rightarrow> bytes \<Rightarrow> (u32 \<times> bytes) list" where
  "msg_keys m b = map seg_key (frag_segs (fragments m b))"

definition log_of :: "nat \<Rightarrow> bytes list \<Rightarrow> (u32 \<times> bytes) list" where
  "log_of m msgs = concat (map (msg_keys m) msgs)"

lemma log_of_append [simp]: "log_of m (a @ b) = log_of m a @ log_of m b"
  by (simp add: log_of_def)

lemma log_of_simps [simp]: "log_of m [] = []" "log_of m (b # bs) = msg_keys m b @ log_of m bs"
  by (simp_all add: log_of_def)

definition at_log :: "(u32 \<times> bytes) list \<Rightarrow> nat \<Rightarrow> ikcpseg \<Rightarrow> bool" where
  "at_log st n s \<longleftrightarrow> (\<exists>i < n. sn s = word_of_nat i \<and> seg_key s = st ! i)"

lemma at_log_append: "at_log st n s \<Longrightarrow> n \<le> length st \<Longrightarrow> n \<le> n' \<Longrightarrow> at_log (st @ r) n' s"
  unfolding at_log_def by (metis nth_append order_less_le_trans)

lemma map_key_frags: "map seg_key (frag_segs ds) = zip (map word_of_nat (rev [0..<length ds])) ds"
  by (induction ds) (simp_all add: seg_key_def fresh_seg_def)

lemma msg_keys_frg:
  assumes "length (fragments m b) \<le> 255" "x \<in> set (msg_keys m b)"
  shows "unat (fst x) < 256"
proof -
  have "fst x \<in> set (map word_of_nat (rev [0..<length (fragments m b)]))"
    using assms(2) unfolding msg_keys_def map_key_frags by (metis prod.collapse set_zip_leftD)
  then obtain i where i: "i < length (fragments m b)" "fst x = word_of_nat i" by auto
  then have "unat (fst x) = i" using assms(1) by (simp add: unat_word_of_nat_u32)
  then show ?thesis using i(1) assms(1) by simp
qed

section \<open>The sending endpoint\<close>

definition tx_ok :: "(u32 \<times> bytes) list \<Rightarrow> ikcpcb \<Rightarrow> bool" where
  "tx_ok st k \<longleftrightarrow> stream k = 0 \<and> (\<exists>n \<le> length st. snd_nxt k = word_of_nat n
     \<and> map seg_key (snd_queue k) = drop n st \<and> (\<forall>s \<in> set (snd_buf k). at_log st n s))"

lemma at_log_kept: "kept_in q s \<Longrightarrow> \<forall>t \<in> set q. at_log st n t \<Longrightarrow> at_log st n s"
  unfolding kept_in_def at_log_def by metis

lemma tx_ok_sub: "tx_ok st k \<Longrightarrow> tx_sub k k' \<Longrightarrow> tx_ok st k'"
  unfolding tx_ok_def tx_sub_def by (metis at_log_kept)

lemma tx_ok_send:
  assumes t: "tx_ok st k" and m: "mtu_inv k" "length b < 2 ^ 31"
    and s: "ikcp_send (\<lambda>_. True) k (Some b) (int (length b)) = Inr (0, k')"
  shows "tx_ok (st @ msg_keys (unat (mss k)) b) k' \<and> length (fragments (unat (mss k)) b) \<le> 255 \<and> mss k' = mss k"
proof -
  let ?fs = "fragments (unat (mss k)) b"
  have k': "length ?fs \<le> 255" "k' = k\<lparr>snd_queue := snd_queue k @ frag_segs ?fs, nsnd_que := nsnd_que k + word_of_nat (length ?fs)\<rparr>"
    using s ikcp_send_message [of "\<lambda>_. True" k b] t m by (auto simp: tx_ok_def Let_def split: if_splits)
  obtain n where n: "n \<le> length st" "snd_nxt k = word_of_nat n" "map seg_key (snd_queue k) = drop n st"
    "\<forall>s \<in> set (snd_buf k). at_log st n s" using t by (auto simp: tx_ok_def)
  have "\<forall>s \<in> set (snd_buf k). at_log (st @ msg_keys (unat (mss k)) b) n s" using n(1,4) at_log_append by blast
  then show ?thesis using t n k' by (auto simp: tx_ok_def msg_keys_def intro!: exI [of _ n])
qed

lemma tx_ok_move: "tx_ok st k \<Longrightarrow> tx_ok st (flush_move k w cw)"
proof (induction k w cw rule: flush_move.induct)
  case (1 k w cw)
  show ?case
  proof (cases "itimediff (snd_nxt k) (snd_una k + cw) < 0 \<and> snd_queue k \<noteq> []")
    case False
    then have "flush_move k w cw = k" by (auto simp: flush_move.simps [of k] split: list.split)
    with "1.prems" show ?thesis by simp
  next
    case True
    then obtain s q where q: "snd_queue k = s # q" by (cases "snd_queue k") auto
    let ?k = "k\<lparr>snd_queue := q, snd_buf := snd_buf k @ [send_ready k w s],
               nsnd_que := nsnd_que k - 1, nsnd_buf := nsnd_buf k + 1, snd_nxt := snd_nxt k + 1\<rparr>"
    obtain n where n: "n \<le> length st" "snd_nxt k = word_of_nat n" "seg_key s # map seg_key q = drop n st"
      "\<forall>s \<in> set (snd_buf k). at_log st n s" "stream k = 0" using "1.prems" q by (auto simp: tx_ok_def)
    have lt: "n < length st" using n(3) by (metis drop_eq_Nil2 linorder_not_le list.distinct(1))
    have d: "seg_key s = st ! n" "map seg_key q = drop (Suc n) st"
      using n(3) lt by (metis Cons_nth_drop_Suc list.inject)+
    have "seg_key (send_ready k w s) = seg_key s" "sn (send_ready k w s) = word_of_nat n"
      using n(2) by (simp_all add: seg_key_def)
    then have "at_log st (Suc n) (send_ready k w s)" unfolding at_log_def using d(1) by (intro exI [of _ n]) simp
    moreover have "\<forall>s \<in> set (snd_buf k). at_log st (Suc n) s" using n(4) by (auto simp: at_log_def less_Suc_eq)
    ultimately have "tx_ok st ?k"
      unfolding tx_ok_def using n(2,5) lt d(2) by (intro conjI exI [of _ "Suc n"]) (auto simp: add.commute)
    from "1.IH" [OF conjunct1 [OF True] q this] show ?thesis using True q by (simp add: flush_move.simps [of k])
  qed
qed

section \<open>Datagrams\<close>

text \<open>A piece is a header and the payload it announces; one that a receiver takes for data is the
  segment of the log with its number.\<close>

definition piece_ok :: "(u32 \<times> bytes) list \<Rightarrow> bytes \<Rightarrow> bool" where
  "piece_ok st p \<longleftrightarrow> (\<exists>s. p = seg_piece s \<and> seg_ok s \<and> ((ucast (ucast (cmd s) :: u8) :: u32) = IKCP_CMD_PUSH \<longrightarrow>
     (\<exists>i < length st. sn s = word_of_nat i \<and> (ucast (ucast (frg s) :: u8), data s) = st ! i)))"

definition datagram_ok :: "(u32 \<times> bytes) list \<Rightarrow> bytes \<Rightarrow> bool" where
  "datagram_ok st d \<longleftrightarrow> (\<exists>ps. d = concat ps \<and> (\<forall>p \<in> set ps. piece_ok st p))"

lemma piece_ok_append: "piece_ok st p \<Longrightarrow> piece_ok (st @ r) p"
  unfolding piece_ok_def by (metis length_append nth_append trans_less_add1)

lemma datagram_ok_append: "datagram_ok st d \<Longrightarrow> datagram_ok (st @ r) d"
  unfolding datagram_ok_def using piece_ok_append by blast

lemma ucast_ucast_small: "unat (w :: u32) < 256 \<Longrightarrow> ucast (ucast w :: u8) = w"
  by (intro word_unat_eq_iff [THEN iffD2]) (simp add: unsigned_ucast_eq unsigned_take_bit_eq take_bit_nat_eq_self)

lemma control_piece_ok:
  assumes "len s = 0" "data s = []" "cmd s = IKCP_CMD_ACK \<or> cmd s = IKCP_CMD_WASK \<or> cmd s = IKCP_CMD_WINS"
  shows "piece_ok st (ikcp_encode_seg [] s)"
  unfolding piece_ok_def using assms
  by (intro exI [of _ s]) (auto simp: seg_piece_def seg_ok_def ikcp_consts)

definition small_frg :: "(u32 \<times> bytes) list \<Rightarrow> bool" where
  "small_frg st \<longleftrightarrow> (\<forall>x \<in> set st. unat (fst x) < 256)"

lemma data_piece_ok:
  assumes "at_log st n s" "n \<le> length st" "small_frg st" "seg_ok s"
  shows "piece_ok st (seg_piece s)"
proof -
  obtain i where i: "i < n" "sn s = word_of_nat i" "seg_key s = st ! i" using assms(1) by (auto simp: at_log_def)
  have "st ! i \<in> set st" using i(1) assms(2) by simp
  then have "unat (frg s) < 256" using assms(3) i(3) unfolding small_frg_def seg_key_def by (metis fst_conv)
  then have "(ucast (ucast (frg s) :: u8), data s) = st ! i" using i(3) by (simp add: ucast_ucast_small seg_key_def)
  then show ?thesis unfolding piece_ok_def using i(1,2) assms(2,4) by (intro exI [of _ s] conjI impI exI [of _ i]) simp_all
qed

lemma sent_segs_from:
  assumes "s \<in> set (sent_segs k)"
  shows "\<exists>t \<in> set (snd_buf (before_segs k)). sn s = sn t \<and> seg_key s = seg_key t \<and> (seg_ok s \<longleftrightarrow> seg_ok t)"
proof -
  let ?b = "before_segs k"
  obtain t where t: "t \<in> set (snd_buf ?b)"
    "seg_next ?b (flush_resent ?b) (flush_rtomin ?b) (word_of_int (ikcp_wnd_unused k)) t = Some s"
    using assms unfolding sent_segs_def Let_def List.map_filter_def by auto
  from seg_next_data [OF t(2)] show ?thesis using t(1) by (auto simp: seg_key_def seg_ok_def)
qed

lemma flush_pieces_ok:
  assumes inv: "kcp_inv k" and t: "tx_ok st k" and f: "small_frg st"
  shows "\<forall>p \<in> set (flush_pieces k a c). piece_ok st p"
proof -
  have tb: "tx_ok st (before_segs k)"
    unfolding before_segs_def using t
    by (intro tx_ok_move) (simp add: tx_ok_def after_control_rx)
  have ctl: "len (flush_head k) = 0" "data (flush_head k) = []" "cmd (flush_head k) = IKCP_CMD_ACK"
    by (simp_all add: flush_head_def)
  have 1: "piece_ok st p" if "p \<in> set (map (ack_piece (flush_head k)) (acks k))" for p
    using that ctl by (auto simp: ack_piece_def intro!: control_piece_ok)
  have 2: "piece_ok st p" if "p \<in> set (probe_pieces ((flush_head k)\<lparr>sn := a, ts := c\<rparr>) (flush_asked k))" for p
    using that ctl by (auto simp: probe_pieces_def intro!: control_piece_ok split: if_splits)
  have 3: "piece_ok st (seg_piece s)" if s: "s \<in> set (sent_segs k)" for s
  proof -
    obtain x where x: "x \<in> set (snd_buf (before_segs k))" "sn s = sn x" "seg_key s = seg_key x" "seg_ok s \<longleftrightarrow> seg_ok x"
      using sent_segs_from [OF s] by blast
    obtain n where n: "n \<le> length st" "at_log st n x" using tb x(1) by (auto simp: tx_ok_def)
    have "seg_ok x" using before_segs_inv [OF inv] x(1) by (auto simp: kcp_inv_defs)
    moreover have "at_log st n s" using n(2) x(2,3) by (simp add: at_log_def)
    ultimately show ?thesis using x(4) n(1) f by (intro data_piece_ok) auto
  qed
  show ?thesis using 1 2 3 unfolding flush_pieces_def by auto
qed

lemma seg_after_kept: "s \<in> set q \<Longrightarrow> kept_in q (seg_after b r m w s)"
  unfolding kept_in_def by (intro bexI [of _ s]) (simp_all add: seg_key_def)

lemma tx_ok_flush:
  assumes inv: "kcp_inv k" and t: "tx_ok st k" and f: "small_frg st"
    and o1: "output_set k" "unat (ackcount k) < 2 ^ 30" and fl: "ikcp_flush k = Inr (k', out)"
  shows "kcp_inv k' \<and> tx_ok st k' \<and> mss k' = mss k \<and> (\<forall>d \<in> set out. datagram_ok st d)"
proof -
  obtain ds a c where s: "out = map concat ds" "concat ds = flush_pieces k a c" "kcp_inv k'"
    "snd_queue k' = snd_queue (before_segs k)" "snd_nxt k' = snd_nxt (before_segs k)"
    "snd_buf k' = map (seg_after (before_segs k) (flush_resent (before_segs k)) (flush_rtomin (before_segs k))
           (word_of_int (ikcp_wnd_unused k))) (snd_buf (before_segs k))"
    using ikcp_flush_spec [OF inv o1] fl by auto
  have m: "mss k' = mss k" "stream k' = stream k" using flush_state [OF fl] by simp_all
  have tb: "tx_ok st (before_segs k)"
    unfolding before_segs_def using t by (intro tx_ok_move) (simp add: tx_ok_def after_control_rx)
  have "stream (before_segs k) = stream k"
    using flush_move_rx after_control_rx by (simp add: before_segs_def)
  then have "tx_sub (before_segs k) k'"
    using s(4,5) m \<open>stream (before_segs k) = stream k\<close> unfolding tx_sub_def s(6) by (auto simp: seg_after_kept)
  then have "tx_ok st k'" using tb tx_ok_sub by blast
  moreover have "datagram_ok st d" if d: "d \<in> set out" for d
  proof -
    obtain ps where "ps \<in> set ds" "d = concat ps" using d s(1) by auto
    moreover have "\<forall>p \<in> set ps. piece_ok st p"
      using flush_pieces_ok [OF inv t f, of a c] \<open>ps \<in> set ds\<close> s(2) by (metis UN_I set_concat)
    ultimately show ?thesis unfolding datagram_ok_def by blast
  qed
  ultimately show ?thesis using s(3) m by blast
qed

section \<open>The receiving endpoint\<close>

text \<open>\<open>base\<close> segments of the log have been read; the receive queue holds the ones from there to
  \<open>rcv_nxt\<close>, and what waits out of order is in the log too.\<close>

definition rx_ok :: "(u32 \<times> bytes) list \<Rightarrow> nat \<Rightarrow> ikcpcb \<Rightarrow> bool" where
  "rx_ok st base k \<longleftrightarrow> (\<exists>n. base \<le> n \<and> n \<le> length st \<and> rcv_nxt k = word_of_nat n
     \<and> map seg_key (rcv_queue k) = drop base (take n st) \<and> (\<forall>s \<in> set (rcv_buf k). at_log st (length st) s))"

lemma rx_ok_same: "rx_ok st base k \<Longrightarrow> rx_same k k' \<Longrightarrow> rx_ok st base k'"
  by (simp add: rx_ok_def rx_same_def)

lemma rx_ok_append: "rx_ok st base k \<Longrightarrow> rx_ok (st @ r) base k"
proof -
  assume "rx_ok st base k"
  then obtain n where n: "base \<le> n" "n \<le> length st" "rcv_nxt k = word_of_nat n"
    "map seg_key (rcv_queue k) = drop base (take n st)" "\<forall>s \<in> set (rcv_buf k). at_log st (length st) s"
    by (auto simp: rx_ok_def)
  have "\<forall>s \<in> set (rcv_buf k). at_log (st @ r) (length (st @ r)) s"
    using n(5) at_log_append [of st "length st" _ "length (st @ r)" r] by simp
  with n show ?thesis unfolding rx_ok_def by (intro exI [of _ n]) simp
qed

lemma rx_ok_move:
  assumes "length st \<le> 2 ^ 31" "rx_ok st base k" shows "rx_ok st base (move_ready k)"
  using assms(2)
proof (induction k rule: move_ready.induct)
  case (1 k)
  show ?case
  proof (cases "rcv_buf k")
    case Nil
    then show ?thesis using "1.prems" by (simp add: move_ready.simps [of k])
  next
    case (Cons s q)
    show ?thesis
    proof (cases "sn s = rcv_nxt k \<and> nrcv_que k < rcv_wnd k")
      case False
      then have "move_ready k = k" using Cons by (auto simp: move_ready.simps [of k])
      then show ?thesis using "1.prems" by simp
    next
      case True
      let ?k = "k\<lparr>rcv_buf := q, nrcv_buf := nrcv_buf k - 1, rcv_queue := rcv_queue k @ [s],
               nrcv_que := nrcv_que k + 1, rcv_nxt := rcv_nxt k + 1\<rparr>"
      obtain n where n: "base \<le> n" "n \<le> length st" "rcv_nxt k = word_of_nat n"
        "map seg_key (rcv_queue k) = drop base (take n st)" "\<forall>s \<in> set (rcv_buf k). at_log st (length st) s"
        using "1.prems" by (auto simp: rx_ok_def)
      obtain i where i: "i < length st" "sn s = word_of_nat i" "seg_key s = st ! i"
        using n(5) Cons by (auto simp: at_log_def)
      have "i = n"
        using True i(1,2) n(2,3) assms(1) by (intro word_of_nat_u32_inj) auto
      then have "take (Suc n) st = take n st @ [seg_key s]" using i by (simp add: take_Suc_conv_app_nth)
      then have "map seg_key (rcv_queue ?k) = drop base (take (Suc n) st)" using n(1,2,4) by simp
      then have "rx_ok st base ?k"
        unfolding rx_ok_def using n(1,3,5) i(1) \<open>i = n\<close> Cons
        by (intro exI [of _ "Suc n"] conjI) (simp_all add: add.commute)
      from "1.IH" [OF Cons True this] show ?thesis using Cons True by (simp add: move_ready.simps [of k])
    qed
  qed
qed

lemma rx_ok_parse_data:
  assumes inv: "kcp_inv k" and l: "length st \<le> 2 ^ 31" and r: "rx_ok st base k" and s: "at_log st (length st) s"
  shows "rx_ok st base (ikcp_parse_data k s)"
proof (cases "in_rcv_window k (sn s)")
  case False
  then show ?thesis using parse_data_outside [OF inv] r by simp
next
  case True
  let ?k = "k\<lparr>rcv_buf := insort_key (off (rcv_nxt k)) s (rcv_buf k), nrcv_buf := nrcv_buf k + 1\<rparr>"
  have "rx_ok st base ?k" using r s by (auto simp: rx_ok_def set_insort_key)
  then have "rx_ok st base (if sn s \<in> sn ` set (rcv_buf k) then k else ?k)" using r by simp
  then show ?thesis unfolding parse_data_inside [OF inv True] by (rule rx_ok_move [OF l])
qed

lemma rx_ok_push:
  assumes inv: "kcp_inv k" and small: "unat (ackcount k) < 2 ^ 30" and l: "length st \<le> 2 ^ 31" and r: "rx_ok st base k"
    and s: "at_log st (length st) (new_segment h p)" and p: "input_push ok k h p = Inr k'"
  shows "rx_ok st base k'"
proof -
  have *: "rx_ok st base k1 \<and> kcp_inv k1" if "ikcp_ack_push ok k a b = Inr k1" for ok a b k1
    using ack_push_frames [OF that] ack_push_inv [OF inv small that] r rx_ok_same by blast
  show ?thesis
    using p r * s rx_ok_parse_data [OF _ l] unfolding input_push_def
    by (auto split: if_splits sum.splits)
qed

lemma rx_ok_seg:
  assumes inv: "kcp_inv (fst st1)" and small: "unat (ackcount (fst st1)) < 2 ^ 30" and l: "length st \<le> 2 ^ 31"
    and r: "rx_ok st base (fst st1)" and i: "input_seg ok h p st1 = Inr st2"
    and s: "ucast (h_cmd h) = IKCP_CMD_PUSH \<longrightarrow> at_log st (length st) (new_segment h p)"
  shows "rx_ok st base (fst st2)"
proof -
  obtain k flag m where st: "st1 = (k, flag, m)" by (cases st1)
  let ?k = "seg_start k h"
  have 1: "rx_ok st base ?k" "kcp_inv ?k" "unat (ackcount ?k) < 2 ^ 30"
    using seg_start_frames [of k h] r inv seg_start_inv small rx_ok_same by (auto simp: st)
  have ack: "rx_ok st base (fst (input_ack ?k flag m (h_sn h) (h_ts h)))"
    using input_ack_frames 1(1) rx_ok_same by blast
  have prb: "rx_ok st base (?k\<lparr>probe := x\<rparr>)" for x
    using 1(1) by (rule rx_ok_same) (simp add: rx_same_def)
  show ?thesis
    using i 1 ack prb s rx_ok_push [OF 1(2,3) l 1(1)] unfolding st input_seg_eq
    by (auto split: if_splits sum.splits)
qed

lemma new_segment_hdr:
  assumes "seg_ok s"
  shows "sn (new_segment (hdr_of s) (data s @ r)) = sn s"
    "seg_key (new_segment (hdr_of s) (data s @ r)) = (ucast (ucast (frg s) :: u8), data s)"
  using assms by (simp_all add: new_segment_def hdr_of_def seg_key_def seg_ok_def)

text \<open>The loop of \<open>ikcp_input\<close> on a datagram that starts with a whole piece.\<close>

lemma input_loop_piece:
  assumes "seg_ok s"
  shows "input_loop ok i (seg_piece s @ rest) st1 =
     (if conv s \<noteq> kconv (fst st1) then Inr (Some (-1), st1)
      else if \<not> cmd_known (h_cmd (hdr_of s)) then Inr (Some (-3), st1)
      else case input_seg (ok i) (hdr_of s) (data s @ rest) st1 of Inl e \<Rightarrow> Inl e
        | Inr st \<Rightarrow> input_loop ok (Suc i) rest st)"
proof -
  let ?rest = "data s @ rest"
  have c: "seg_piece s @ rest = ikcp_encode_seg [] s @ ?rest" by (simp add: seg_piece_def)
  have len: "\<not> length (ikcp_encode_seg [] s @ ?rest) < unat IKCP_OVERHEAD" by (simp add: ikcp_consts)
  have ul: "\<not> length ?rest < unat (h_len (hdr_of s))" "drop (unat (h_len (hdr_of s))) ?rest = rest"
    using assms by (simp_all add: hdr_of_def seg_ok_def)
  show ?thesis
  proof (cases "conv s = kconv (fst st1)")
    case True
    note e = True [symmetric]
    show ?thesis
      unfolding c using len ul by (subst input_loop.simps)
        (simp only: if_False decode_encode_seg_conv option.case prod.case e refl not_True_eq_False
          decode_encode_seg_tail)
  next
    case False
    then show ?thesis
      unfolding c using len decode_encode_seg_conv [of s ?rest] by (subst input_loop.simps) simp
  qed
qed

lemma rx_ok_loop:
  assumes "kcp_inv (fst st1)" "unat (ackcount (fst st1)) + length ps < 2 ^ 30" "length st \<le> 2 ^ 31"
    "rx_ok st base (fst st1)" "\<forall>p \<in> set ps. piece_ok st p" "input_loop ok i (concat ps) st1 = Inr (r, st2)"
  shows "rx_ok st base (fst st2)"
  using assms
proof (induction ps arbitrary: i st1)
  case Nil
  then show ?case by (simp add: input_loop.simps [of ok i] ikcp_consts)
next
  case (Cons p ps)
  obtain s where s: "p = seg_piece s" "seg_ok s" "(ucast (ucast (cmd s) :: u8) :: u32) = IKCP_CMD_PUSH \<longrightarrow>
     (\<exists>i < length st. sn s = word_of_nat i \<and> (ucast (ucast (frg s) :: u8), data s) = st ! i)"
    using Cons.prems(5) by (auto simp: piece_ok_def)
  let ?rest = "data s @ concat ps"
  have ul: "\<not> length ?rest < unat (h_len (hdr_of s))" using s(2) by (simp add: hdr_of_def seg_ok_def)
  have c: "concat (p # ps) = seg_piece s @ concat ps" by (simp add: s(1))
  note step = input_loop_piece [OF s(2), of ok i "concat ps" st1, folded c]
  show ?case
  proof (cases "conv s \<noteq> kconv (fst st1) \<or> \<not> cmd_known (h_cmd (hdr_of s))")
    case True
    then show ?thesis using Cons.prems(4,6) unfolding step by (auto split: if_splits)
  next
    case False
    then obtain st3 where i3: "input_seg (ok i) (hdr_of s) ?rest st1 = Inr st3"
      and rec: "input_loop ok (Suc i) (concat ps) st3 = Inr (r, st2)"
      using Cons.prems(6) unfolding step by (auto split: sum.splits)
    have small: "unat (ackcount (fst st1)) < 2 ^ 30" using Cons.prems(2) by simp
    have n: "ucast (h_cmd (hdr_of s)) = IKCP_CMD_PUSH \<longrightarrow> at_log st (length st) (new_segment (hdr_of s) ?rest)"
      using s(3) new_segment_hdr [OF s(2), of "concat ps"] by (auto simp: at_log_def hdr_of_def)
    have "unat (h_len (hdr_of s)) \<le> length ?rest" using ul(1) by simp
    note S = input_seg_spec [OF Cons.prems(1) small this i3]
    have "rx_ok st base (fst st3)"
      using rx_ok_seg [OF Cons.prems(1) small Cons.prems(3,4) i3 n] .
    then show ?thesis using S Cons.prems(2,3,5) by (intro Cons.IH [OF _ _ _ _ _ rec]) auto
  qed
qed

lemma piece_length: "piece_ok st p \<Longrightarrow> 24 \<le> length p"
  by (auto simp: piece_ok_def seg_piece_def)

lemma pieces_length: "\<forall>p \<in> set ps. piece_ok st p \<Longrightarrow> length ps \<le> length (concat ps) div 24"
proof -
  assume "\<forall>p \<in> set ps. piece_ok st p"
  then have "24 * length ps \<le> length (concat ps)"
    by (induction ps) (auto dest: piece_length)
  then show ?thesis by simp
qed

lemma rx_ok_input:
  assumes inv: "kcp_inv k" and small: "unat (ackcount k) + length d div 24 < 2 ^ 30" and l: "length st \<le> 2 ^ 31"
    and r: "rx_ok st base k" and d: "datagram_ok st d" and i: "ikcp_input ok k (Some d) = Inr (x, k')"
  shows "rx_ok st base k'"
proof (cases "length d < 24")
  case True
  then show ?thesis using i r by (simp add: ikcp_input_def)
next
  case False
  obtain ps where ps: "d = concat ps" "\<forall>p \<in> set ps. piece_ok st p" using d by (auto simp: datagram_ok_def)
  obtain r1 k1 f m where lp: "input_loop ok 0 d (k, 0, 0) = Inr (r1, k1, f, m)"
    using i False unfolding ikcp_input_def Let_def by (auto split: sum.splits)
  have "rx_ok st base k1"
    using rx_ok_loop [of "(k, 0, 0)" ps st base ok 0 r1 "(k1, f, m)"] inv small l r ps pieces_length [OF ps(2)] lp
    by simp
  moreover have "rx_same k1 k'"
  proof (cases r1)
    case None
    let ?k2 = "if f \<noteq> 0 then ikcp_parse_fastack k1 m else k1"
    have "k' = input_cwnd ?k2 (snd_una k)" using i False lp None by (simp add: ikcp_input_def Let_def)
    moreover have "rx_same k1 ?k2" using parse_fastack_frames by simp
    ultimately show ?thesis using input_cwnd_frames rx_same_trans by metis
  next
    case (Some y)
    then show ?thesis using i False lp by (simp add: ikcp_input_def)
  qed
  ultimately show ?thesis by (rule rx_ok_same)
qed

section \<open>Reading\<close>

lemma length_msg_keys [simp]: "length (msg_keys m b) = length (fragments m b)"
  by (simp add: msg_keys_def flip: length_frag_segs)

lemma keys_message:
  assumes "map seg_key segs = msg_keys m b" "length (fragments m b) \<le> 255"
  shows "is_message segs b"
proof -
  let ?f = "frag_segs (fragments m b)"
  have "map fst (map seg_key segs) = map fst (map seg_key ?f)" "map snd (map seg_key segs) = map snd (map seg_key ?f)"
    "length (map seg_key segs) = length (map seg_key ?f)"
    using assms(1) by (simp_all only: msg_keys_def)
  then have "map frg segs = map frg ?f" "map data segs = map data ?f" "length segs = length ?f"
    by (simp_all add: seg_key_def comp_def)
  moreover have "is_message ?f b" using assms(2) by (intro is_message_fragments) simp
  ultimately show ?thesis unfolding is_message_def by (metis length_0_conv)
qed

lemma recv_refused: "ikcp_recv k buf l = Inr (r, out, k') \<Longrightarrow> 0 \<le> l \<Longrightarrow> r < 0 \<Longrightarrow> k' = k \<and> out = []"
  unfolding ikcp_recv_def Let_def recv_merge_eq by (auto split: if_splits)

lemma recv_accepted:
  assumes "ikcp_recv k buf l = Inr (r, out, k')" "0 \<le> l" "0 \<le> r"
  shows "rcv_queue k \<noteq> [] \<and> 0 \<le> ikcp_peeksize k \<and> ikcp_peeksize k \<le> l"
  using assms unfolding ikcp_recv_def Let_def recv_merge_eq by (auto split: if_splits)

lemma peeksize_complete:
  assumes "0 \<le> ikcp_peeksize k" "rcv_queue k = s # q" "que_inv k" "unat (frg s) < 256"
  shows "unat (frg s) < length (rcv_queue k)"
proof (cases "frg s = 0")
  case True
  then show ?thesis using assms(2) by simp
next
  case False
  have "unat (frg s + 1) = unat (frg s) + 1" using assms(4) by (subst unat_add_u32) auto
  moreover have "\<not> nrcv_que k < frg s + 1" using assms(1,2) False by (auto simp: ikcp_peeksize_def)
  ultimately show ?thesis using assms(3) by (simp add: word_less_nat_alt que_inv_def)
qed

lemma rx_queue_message:
  assumes inv: "kcp_inv k" and r: "rx_ok (log_of m (got @ todo)) (length (log_of m got)) k"
    and small: "\<forall>b \<in> set todo. length (fragments m b) \<le> 255"
    and p: "rcv_queue k \<noteq> []" "0 \<le> ikcp_peeksize k"
  obtains b todo' segs rest where "todo = b # todo'" "rcv_queue k = segs @ rest" "map seg_key segs = msg_keys m b"
proof -
  obtain n where n: "map seg_key (rcv_queue k) = take n (log_of m todo)"
    using r by (auto simp: rx_ok_def drop_take)
  have ne: "fragments m x \<noteq> []" for x by (simp add: fragments.simps [of m x])
  obtain b todo' where t: "todo = b # todo'" using n p(1) by (cases todo) auto
  let ?ds = "fragments m b"
  have nk: "msg_keys m b \<noteq> []" using ne [of b] by (metis length_0_conv length_msg_keys)
  obtain s q where q: "rcv_queue k = s # q" using p(1) by (cases "rcv_queue k") auto
  have "seg_key s = hd (take n (log_of m todo))" using n q by (metis list.sel(1) list.simps(9))
  also have "\<dots> = hd (msg_keys m b)" using n q t nk by (cases n) (auto simp: hd_append)
  finally have "frg s = word_of_nat (length ?ds - 1)"
    using ne [of b] unfolding msg_keys_def by (cases ?ds) (auto simp: seg_key_def fresh_seg_def)
  moreover have l: "length ?ds \<le> 255" using small t by simp
  ultimately have "unat (frg s) = length ?ds - 1" by (simp add: unat_word_of_nat_u32)
  moreover have "que_inv k" "0 < length ?ds" using inv ne [of b] by (simp_all add: kcp_inv_def)
  ultimately have "length ?ds \<le> length (rcv_queue k)"
    using peeksize_complete [OF p(2) q] l by linarith
  then have "length ?ds \<le> n \<and> length ?ds \<le> length (log_of m todo)"
    using arg_cong [OF n, of length] by auto
  then have "take (length ?ds) (map seg_key (rcv_queue k)) = msg_keys m b"
    unfolding n t by (simp add: min_def)
  then show thesis
    by (intro that [of b todo' "take (length ?ds) (rcv_queue k)" "drop (length ?ds) (rcv_queue k)"])
       (simp_all add: t take_map)
qed

lemma rx_ok_recv:
  assumes inv: "kcp_inv k" and r: "rx_ok (log_of m (got @ todo)) (length (log_of m got)) k"
    and l: "length (log_of m (got @ todo)) \<le> 2 ^ 31"
    and small: "\<forall>b \<in> set todo. length (fragments m b) \<le> 255 \<and> length b < 2 ^ 31"
    and c: "ikcp_recv k True z = Inr (x, out, k')" "0 \<le> z" "z < 2 ^ 31" "0 \<le> x"
  shows "\<exists>todo'. todo = out # todo' \<and> rx_ok (log_of m (got @ todo)) (length (log_of m (got @ [out]))) k'"
proof -
  have p: "rcv_queue k \<noteq> []" "0 \<le> ikcp_peeksize k" "ikcp_peeksize k \<le> z"
    using recv_accepted [OF c(1,2,4)] by auto
  obtain b todo' segs rest where s: "todo = b # todo'" "rcv_queue k = segs @ rest" "map seg_key segs = msg_keys m b"
    using rx_queue_message [OF inv r _ p(1,2)] small by metis
  have len: "length segs = length (fragments m b)" using arg_cong [OF s(3), of length] by simp
  have msg: "is_message segs b" using s small by (intro keys_message) auto
  have ok: "\<forall>s \<in> set segs. seg_ok s" and q: "que_inv k" using inv s(2) by (auto simp: kcp_inv_defs)
  have "ikcp_peeksize k = int (length b)"
    using s small by (intro peeksize_message [OF s(2) msg ok q]) simp
  then have "ikcp_recv k True z = Inr (int (length b), b, recv_state k segs)"
    using p(3) c(3) by (intro ikcp_recv_message [OF s(2) msg ok q]) simp_all
  then have out: "out = b" "k' = recv_state k segs" using c(1) by simp_all
  let ?st = "log_of m (got @ todo)"
  let ?k = "k\<lparr>rcv_queue := drop (length segs) (rcv_queue k), nrcv_que := nrcv_que k - word_of_nat (length segs)\<rparr>"
  obtain n where n: "length (log_of m got) \<le> n" "n \<le> length ?st" "rcv_nxt k = word_of_nat n"
    "map seg_key (rcv_queue k) = drop (length (log_of m got)) (take n ?st)"
    "\<forall>s \<in> set (rcv_buf k). at_log ?st (length ?st) s" using r by (auto simp: rx_ok_def)
  have "length (log_of m (got @ [b])) \<le> n"
    using arg_cong [OF n(4), of length] n(1,2) s(2) len by simp
  moreover have "map seg_key (rcv_queue ?k) = drop (length (log_of m (got @ [b]))) (take n ?st)"
    using n(4) len by (simp add: add.commute flip: drop_map)
  ultimately have "rx_ok ?st (length (log_of m (got @ [b]))) ?k"
    unfolding rx_ok_def using n(2,3,5) by (intro exI [of _ n]) simp
  then have "rx_ok ?st (length (log_of m (got @ [b]))) (move_ready ?k)" by (rule rx_ok_move [OF l])
  then have "rx_ok ?st (length (log_of m (got @ [b]))) k'"
    unfolding out(2) recv_state_def Let_def by (auto intro: rx_ok_same simp: rx_same_def)
  then show ?thesis using s(1) out(1) by blast
qed

end
