(* ===== verification/Kcp_Channel.thy ===== *)
theory Kcp_Channel
  imports Kcp_Link
begin

text \<open>
  The connection as a machine: the two endpoints with the network, and the specification it
  implements, a channel whose receiver gets the messages sent in order and once each. The locale
  \<open>simulation\<close> is interpreted on the two.
\<close>

section \<open>The remaining calls\<close>

lemma send_frags_rx: "send_frags ok a n k b l = Inr (r, k') \<Longrightarrow> rx_same k k'"
proof (induction ok a n k b l rule: send_frags.induct)
  case (1 ok a k b l)
  then show ?case by simp
next
  case (2 ok a n k b l)
  let ?z = "if l > sint (mss k) then sint (mss k) else l"
  obtain d where d: "ok a \<longrightarrow> copy_in b (nat ?z) = Inr d"
    using "2.prems" by (cases "ok a") (auto simp: Let_def split: sum.splits)
  show ?case
  proof (cases "ok a")
    case True
    let ?k = "k\<lparr>snd_queue := snd_queue k @ [(fresh_seg d)\<lparr>frg := (if stream k = 0 then word_of_nat n else 0)\<rparr>],
                 nsnd_que := nsnd_que k + 1\<rparr>"
    have "rx_same ?k k'" using "2.IH" [OF refl _ _ refl, of d] "2.prems" d True by (simp add: Let_def)
    then show ?thesis by (simp add: rx_same_def)
  next
    case False
    then show ?thesis using "2.prems" by (simp add: Let_def)
  qed
qed

lemma send_extend_rx: "send_extend ok k b l = Inr (Inr (a, k', b', l')) \<Longrightarrow> rx_same k k'"
  by (auto simp: send_extend_def Let_def rx_same_def split: if_splits sum.splits)

lemma send_rx: "ikcp_send ok k b l = Inr (r, k') \<Longrightarrow> rx_same k k'"
  unfolding ikcp_send_def Let_def
  by (auto split: if_splits sum.splits dest!: send_frags_rx send_extend_rx intro: rx_same_trans simp del: send_frags.simps)

lemma recv_peek:
  assumes "ikcp_recv k b l = Inr (r, out, k')" "l < 0"
  shows "rx_same k k' \<or> rx_same (move_ready k) k'"
  using assms unfolding ikcp_recv_def Let_def recv_merge_eq by (auto simp: rx_same_def split: if_splits)

lemma update_rx: "ikcp_update k now = Inr (k', out) \<Longrightarrow> rx_same k k'"
  using update_clock_fields(1) [of k now] flush_state rx_same_trans
  unfolding ikcp_update_def by (auto split: prod.splits if_splits)

text \<open>The setters that leave the segment size alone.\<close>

inductive tuned :: "ikcpcb \<Rightarrow> ikcpcb \<Rightarrow> bool" where
  tune_nodelay: "tuned k (snd (ikcp_nodelay k nd i resend nc))"
| tune_interval: "tuned k (snd (ikcp_interval k i))"
| tune_wndsize: "snd (ikcp_wndsize (Some k) sndwnd rcvwnd) = Some k' \<Longrightarrow> sndwnd < 2 ^ 31 \<Longrightarrow> rcvwnd < 2 ^ 31 \<Longrightarrow>
    tuned k k'"

lemma tuned_frames: "tuned k k' \<Longrightarrow> rx_same k k' \<and> tx_sub k k'"
  by (induction rule: tuned.induct)
     (auto simp: ikcp_nodelay_def ikcp_interval_def ikcp_wndsize_def Let_def rx_same_def intro!: tx_sub_same)

lemma tuned_inv: "tuned k k' \<Longrightarrow> kcp_inv k \<Longrightarrow> kcp_inv k'"
  by (induction rule: tuned.induct) (auto simp: nodelay_inv interval_inv dest: wndsize_inv)

section \<open>The connection\<close>

record link =
  tx :: ikcpcb
  rx :: ikcpcb
  net :: "bytes list"
  sent :: "bytes list"
  got :: "bytes list"

definition link_log :: "link \<Rightarrow> (u32 \<times> bytes) list" where
  "link_log s = log_of (unat (mss (tx s))) (sent s)"

definition link_start :: "link \<Rightarrow> bool" where
  "link_start s \<longleftrightarrow> (\<exists>c1 c2. ikcp_create (\<lambda>_. True) c1 = Some (tx s) \<and> ikcp_create (\<lambda>_. True) c2 = Some (rx s))
     \<and> net s = [] \<and> sent s = [] \<and> got s = []"

definition can_flush :: "ikcpcb \<Rightarrow> bool" where
  "can_flush k \<longleftrightarrow> output_set k \<and> unat (ackcount k) < 2 ^ 30"

definition can_input :: "ikcpcb \<Rightarrow> bytes \<Rightarrow> bool" where
  "can_input k d \<longleftrightarrow> unat (ackcount k) + length d div 24 < 2 ^ 30"

inductive link_step :: "link \<Rightarrow> link \<Rightarrow> bool" where
  link_send: "ikcp_send (\<lambda>_. True) (tx s) (Some b) (int (length b)) = Inr (r, k') \<Longrightarrow> length b < 2 ^ 31 \<Longrightarrow>
    length (snd_queue (tx s)) + 256 < 2 ^ 32 \<Longrightarrow>
    length (log_of (unat (mss (tx s))) (sent s @ [b])) \<le> 2 ^ 31 \<Longrightarrow>
    link_step s (s\<lparr>tx := k', sent := (if r < 0 then sent s else sent s @ [b])\<rparr>)"
| link_flush: "ikcp_flush (tx s) = Inr (k', out) \<Longrightarrow> can_flush (tx s) \<Longrightarrow> link_step s (s\<lparr>tx := k', net := net s @ out\<rparr>)"
| link_update: "ikcp_update (tx s) now = Inr (k', out) \<Longrightarrow> can_flush (tx s) \<Longrightarrow>
    link_step s (s\<lparr>tx := k', net := net s @ out\<rparr>)"
| link_tx_input: "ikcp_input ok (tx s) (Some d) = Inr (r, k') \<Longrightarrow> can_input (tx s) d \<Longrightarrow> link_step s (s\<lparr>tx := k'\<rparr>)"
| link_tx_recv: "ikcp_recv (tx s) b l = Inr (r, out, k') \<Longrightarrow> link_step s (s\<lparr>tx := k'\<rparr>)"
| link_tx_tune: "tuned (tx s) k' \<Longrightarrow> link_step s (s\<lparr>tx := k'\<rparr>)"
| link_tx_setoutput: "link_step s (s\<lparr>tx := ikcp_setoutput (tx s) out\<rparr>)"
| link_deliver: "d \<in> set (net s) \<Longrightarrow> ikcp_input ok (rx s) (Some d) = Inr (r, k') \<Longrightarrow> can_input (rx s) d \<Longrightarrow>
    link_step s (s\<lparr>rx := k'\<rparr>)"
| link_recv: "ikcp_recv (rx s) True l = Inr (r, out, k') \<Longrightarrow> 0 \<le> l \<Longrightarrow> l < 2 ^ 31 \<Longrightarrow>
    link_step s (s\<lparr>rx := k', got := (if r < 0 then got s else got s @ [out])\<rparr>)"
| link_peek: "ikcp_recv (rx s) b l = Inr (r, out, k') \<Longrightarrow> l < 0 \<Longrightarrow> link_step s (s\<lparr>rx := k'\<rparr>)"
| link_rx_send: "ikcp_send ok (rx s) b l = Inr (r, k') \<Longrightarrow> l < 2 ^ 31 \<Longrightarrow> length (snd_queue (rx s)) + 256 < 2 ^ 32 \<Longrightarrow>
    link_step s (s\<lparr>rx := k'\<rparr>)"
| link_rx_flush: "ikcp_flush (rx s) = Inr (k', out) \<Longrightarrow> can_flush (rx s) \<Longrightarrow> link_step s (s\<lparr>rx := k'\<rparr>)"
| link_rx_update: "ikcp_update (rx s) now = Inr (k', out) \<Longrightarrow> can_flush (rx s) \<Longrightarrow> link_step s (s\<lparr>rx := k'\<rparr>)"
| link_rx_tune: "tuned (rx s) k' \<Longrightarrow> link_step s (s\<lparr>rx := k'\<rparr>)"
| link_rx_setoutput: "link_step s (s\<lparr>rx := ikcp_setoutput (rx s) out\<rparr>)"

section \<open>The invariant\<close>

definition tx_inv :: "link \<Rightarrow> bool" where
  "tx_inv s \<longleftrightarrow> kcp_inv (tx s) \<and> tx_ok (link_log s) (tx s)"

definition log_inv :: "link \<Rightarrow> bool" where
  "log_inv s \<longleftrightarrow> length (link_log s) \<le> 2 ^ 31 \<and> (\<forall>d \<in> set (net s). datagram_ok (link_log s) d)
     \<and> (\<forall>b \<in> set (sent s). length (fragments (unat (mss (tx s))) b) \<le> 255 \<and> length b < 2 ^ 31)"

definition rx_inv :: "link \<Rightarrow> bool" where
  "rx_inv s \<longleftrightarrow> kcp_inv (rx s) \<and> (\<exists>todo. sent s = got s @ todo)
     \<and> rx_ok (link_log s) (length (log_of (unat (mss (tx s))) (got s))) (rx s)"

definition link_inv :: "link \<Rightarrow> bool" where
  "link_inv s \<longleftrightarrow> tx_inv s \<and> log_inv s \<and> rx_inv s"

lemma log_small: "log_inv s \<Longrightarrow> small_frg (link_log s)"
  unfolding small_frg_def log_inv_def link_log_def log_of_def by (auto dest: msg_keys_frg)

text \<open>A step of the sender that keeps the segment size and adds good datagrams.\<close>

lemma link_inv_tx:
  assumes "link_inv s" "kcp_inv k'" "tx_ok (link_log s) k'" "mss k' = mss (tx s)"
    "\<forall>d \<in> set out. datagram_ok (link_log s) d"
  shows "link_inv (s\<lparr>tx := k', net := net s @ out\<rparr>)"
  using assms by (auto simp: link_inv_def tx_inv_def log_inv_def rx_inv_def link_log_def)

lemma link_inv_tx_sub:
  assumes "link_inv s" "kcp_inv k'" "tx_sub (tx s) k'"
  shows "link_inv (s\<lparr>tx := k'\<rparr>)"
proof -
  have "tx_ok (link_log s) k'" using assms tx_ok_sub by (auto simp: link_inv_def tx_inv_def)
  moreover have "mss k' = mss (tx s)" using assms(3) by (simp add: tx_sub_def)
  ultimately show ?thesis using link_inv_tx [OF assms(1,2), of "[]"] by simp
qed

lemma link_inv_rx:
  assumes "link_inv s" "kcp_inv k'"
    "rx_ok (link_log s) (length (log_of (unat (mss (tx s))) (got s))) k'"
  shows "link_inv (s\<lparr>rx := k'\<rparr>)"
  using assms by (auto simp: link_inv_def tx_inv_def log_inv_def rx_inv_def link_log_def)

lemma link_inv_rx_same:
  assumes "link_inv s" "kcp_inv k'" "rx_same (rx s) k'"
  shows "link_inv (s\<lparr>rx := k'\<rparr>)"
  using assms by (intro link_inv_rx) (auto simp: link_inv_def rx_inv_def intro: rx_ok_same)

lemma create_empty:
  assumes "ikcp_create ok c = Some k"
  shows "stream k = 0" "snd_nxt k = 0" "snd_queue k = []" "snd_buf k = []" "rcv_nxt k = 0" "rcv_queue k = []" "rcv_buf k = []"
  using assms by (auto simp: ikcp_create_def split: if_splits)

lemma start_link_inv: "link_start s \<Longrightarrow> link_inv s"
proof -
  assume "link_start s"
  then obtain c1 c2 where s: "ikcp_create (\<lambda>_. True) c1 = Some (tx s)" "ikcp_create (\<lambda>_. True) c2 = Some (rx s)"
    "net s = []" "sent s = []" "got s = []" by (auto simp: link_start_def)
  have i: "kcp_inv (tx s)" "kcp_inv (rx s)" using create_inv s(1,2) by blast+
  have "stream (tx s) = 0" "snd_nxt (tx s) = 0" "snd_queue (tx s) = []" "snd_buf (tx s) = []"
    "rcv_nxt (rx s) = 0" "rcv_queue (rx s) = []" "rcv_buf (rx s) = []"
    using create_empty [OF s(1)] create_empty [OF s(2)] by simp_all
  then show ?thesis
    using i s(3-5) by (simp add: link_inv_def tx_inv_def log_inv_def rx_inv_def link_log_def tx_ok_def rx_ok_def)
qed

lemma link_send_inv:
  assumes inv: "link_inv s" and b: "length b < 2 ^ 31" "length (snd_queue (tx s)) + 256 < 2 ^ 32"
    and l: "length (log_of (unat (mss (tx s))) (sent s @ [b])) \<le> 2 ^ 31"
    and c: "ikcp_send (\<lambda>_. True) (tx s) (Some b) (int (length b)) = Inr (r, k')"
  shows "link_inv (s\<lparr>tx := k', sent := (if r < 0 then sent s else sent s @ [b])\<rparr>)"
proof -
  let ?k = "tx s" and ?m = "unat (mss (tx s))"
  have i: "kcp_inv ?k" "tx_ok (link_log s) ?k" using inv by (auto simp: link_inv_def tx_inv_def)
  then have m: "mtu_inv ?k" "stream ?k = 0" by (simp_all add: kcp_inv_def tx_ok_def)
  have k': "kcp_inv k'" using b by (intro ikcp_send_inv [OF c i(1)]) simp_all
  show ?thesis
  proof (cases "r < 0")
    case True
    then have "k' = ?k" using ikcp_send_message [of "\<lambda>_. True" ?k b] m b(1) c by (auto simp: Let_def split: if_splits)
    with True inv show ?thesis by simp
  next
    case False
    then have r: "r = 0" using ikcp_send_message [of "\<lambda>_. True" ?k b] m b(1) c by (auto simp: Let_def split: if_splits)
    note T = tx_ok_send [OF i(2) m(1) b(1) c [unfolded r]]
    let ?s = "s\<lparr>tx := k', sent := sent s @ [b]\<rparr>"
    have log: "link_log ?s = link_log s @ msg_keys ?m b" using T by (simp add: link_log_def)
    have "tx_inv ?s" using k' T log by (simp add: tx_inv_def)
    moreover have "log_inv ?s"
      using inv T l b(1) datagram_ok_append unfolding log_inv_def log by (auto simp: link_inv_def log_inv_def link_log_def)
    moreover have "rx_inv ?s"
      using inv T rx_ok_append unfolding rx_inv_def log by (auto simp: link_inv_def rx_inv_def)
    ultimately show ?thesis using False by (simp add: link_inv_def)
  qed
qed

lemma link_flush_inv:
  assumes inv: "link_inv s" and o: "can_flush (tx s)" and f: "ikcp_flush (tx s) = Inr (k', out)"
  shows "link_inv (s\<lparr>tx := k', net := net s @ out\<rparr>)"
proof -
  have i: "kcp_inv (tx s)" "tx_ok (link_log s) (tx s)" "small_frg (link_log s)"
    using inv log_small by (auto simp: link_inv_def tx_inv_def)
  have o': "output_set (tx s)" "unat (ackcount (tx s)) < 2 ^ 30" using o by (simp_all add: can_flush_def)
  show ?thesis using tx_ok_flush [OF i o' f] by (intro link_inv_tx [OF inv]) simp_all
qed

lemma link_update_inv:
  assumes inv: "link_inv s" and o: "can_flush (tx s)" and f: "ikcp_update (tx s) now = Inr (k', out)"
  shows "link_inv (s\<lparr>tx := k', net := net s @ out\<rparr>)"
proof -
  obtain due k where c: "update_clock (tx s) now = (due, k)" by fastforce
  have "tx_sub (tx s) k" "can_flush k"
    using update_clock_fields(2-4) [of "tx s" now] c o by (simp_all add: can_flush_def)
  moreover have "kcp_inv k" using update_clock_inv [of "tx s" now] c inv by (simp add: link_inv_def tx_inv_def)
  ultimately have k: "link_inv (s\<lparr>tx := k\<rparr>)" "can_flush k" using inv link_inv_tx_sub by auto
  show ?thesis
  proof (cases due)
    case True
    then have "ikcp_flush k = Inr (k', out)" using f c by (simp add: ikcp_update_def)
    then show ?thesis using link_flush_inv [OF k(1)] k(2) by simp
  next
    case False
    then show ?thesis using f c k by (simp add: ikcp_update_def)
  qed
qed

lemma link_recv_inv:
  assumes inv: "link_inv s" and c: "ikcp_recv (rx s) True l = Inr (r, out, k')" "0 \<le> l" "l < 2 ^ 31"
  shows "link_inv (s\<lparr>rx := k', got := (if r < 0 then got s else got s @ [out])\<rparr>)
    \<and> (0 \<le> r \<longrightarrow> (\<exists>todo. sent s = got s @ out # todo))"
proof (cases "r < 0")
  case True
  then have "k' = rx s" using recv_refused [OF c(1,2)] by blast
  with True inv show ?thesis by simp
next
  case False
  let ?m = "unat (mss (tx s))"
  obtain todo where t: "sent s = got s @ todo" using inv by (auto simp: link_inv_def rx_inv_def)
  have i: "kcp_inv (rx s)" "kcp_inv k'" using inv ikcp_recv_inv [OF c(1)] by (auto simp: link_inv_def rx_inv_def)
  have r: "rx_ok (log_of ?m (got s @ todo)) (length (log_of ?m (got s))) (rx s)"
    using inv by (simp add: link_inv_def rx_inv_def link_log_def t)
  have "length (log_of ?m (got s @ todo)) \<le> 2 ^ 31"
    "\<forall>b \<in> set todo. length (fragments ?m b) \<le> 255 \<and> length b < 2 ^ 31"
    using inv unfolding link_inv_def log_inv_def link_log_def t by simp_all
  from rx_ok_recv [OF i(1) r this c] False obtain todo' where
    "todo = out # todo'" "rx_ok (log_of ?m (got s @ todo)) (length (log_of ?m (got s @ [out]))) k'" by auto
  then show ?thesis
    using inv i t False by (simp add: link_inv_def tx_inv_def log_inv_def rx_inv_def link_log_def)
qed

lemma link_deliver_inv:
  assumes inv: "link_inv s" and d: "d \<in> set (net s)" "can_input (rx s) d" and c: "ikcp_input ok (rx s) (Some d) = Inr (r, k')"
  shows "link_inv (s\<lparr>rx := k'\<rparr>)"
proof -
  have i: "kcp_inv (rx s)" "length (link_log s) \<le> 2 ^ 31" "datagram_ok (link_log s) d"
    "rx_ok (link_log s) (length (log_of (unat (mss (tx s))) (got s))) (rx s)"
    using inv d by (auto simp: link_inv_def log_inv_def rx_inv_def)
  have a: "unat (ackcount (rx s)) + length d div 24 < 2 ^ 30" using d(2) by (simp add: can_input_def)
  have "kcp_inv k'" using a by (intro input_inv [OF i(1) c]) simp
  with rx_ok_input [OF i(1) a i(2,4,3) c] show ?thesis by (intro link_inv_rx [OF inv])
qed

lemma link_step_inv:
  assumes inv: "link_inv s" and st: "link_step s t" shows "link_inv t"
proof -
  have i: "kcp_inv (tx s)" "kcp_inv (rx s)" using inv by (simp_all add: link_inv_def tx_inv_def rx_inv_def)
  note T = link_inv_tx_sub [OF inv]
  note R = link_inv_rx_same [OF inv]
  show ?thesis using st
  proof (cases rule: link_step.cases)
    case link_send then show ?thesis using link_send_inv [OF inv] by blast
  next
    case link_flush then show ?thesis using link_flush_inv [OF inv] by blast
  next
    case link_update then show ?thesis using link_update_inv [OF inv] by blast
  next
    case (link_tx_input ok d r k')
    then show ?thesis using input_inv [OF i(1) link_tx_input(2)] input_tx by (auto simp: can_input_def intro!: T)
  next
    case link_tx_recv then show ?thesis using ikcp_recv_inv i(1) recv_tx by (auto intro!: T)
  next
    case link_tx_tune then show ?thesis using tuned_inv i(1) tuned_frames by (auto intro!: T)
  next
    case link_tx_setoutput then show ?thesis
      using setoutput_inv i(1) by (auto intro!: T tx_sub_same simp: ikcp_setoutput_def)
  next
    case link_deliver then show ?thesis using link_deliver_inv [OF inv] by blast
  next
    case link_recv then show ?thesis using link_recv_inv [OF inv] by blast
  next
    case (link_peek b l r out k')
    have "length (link_log s) \<le> 2 ^ 31" "rx_ok (link_log s) (length (log_of (unat (mss (tx s))) (got s))) (rx s)"
      using inv by (auto simp: link_inv_def log_inv_def rx_inv_def)
    then have "rx_ok (link_log s) (length (log_of (unat (mss (tx s))) (got s))) k'"
      using recv_peek [OF link_peek(2,3)] rx_ok_move rx_ok_same by blast
    then show ?thesis using link_peek ikcp_recv_inv i(2) by (auto intro!: link_inv_rx [OF inv])
  next
    case link_rx_send then show ?thesis using ikcp_send_inv i(2) send_rx by (auto intro!: R)
  next
    case link_rx_flush then show ?thesis using flush_inv i(2) flush_state by (auto simp: can_flush_def intro!: R)
  next
    case link_rx_update then show ?thesis using update_inv i(2) update_rx by (auto simp: can_flush_def intro!: R)
  next
    case link_rx_tune then show ?thesis using tuned_inv i(2) tuned_frames by (auto intro!: R)
  next
    case link_rx_setoutput then show ?thesis using setoutput_inv i(2) by (auto intro!: R simp: rx_same_def ikcp_setoutput_def)
  qed
qed

section \<open>The specification: a channel\<close>

record chan =
  ch_sent :: "bytes list"
  ch_got :: "bytes list"

definition chan_start :: "chan \<Rightarrow> bool" where
  "chan_start c \<longleftrightarrow> ch_sent c = [] \<and> ch_got c = []"

inductive chan_step :: "chan \<Rightarrow> chan \<Rightarrow> bool" where
  chan_send: "chan_step c (c\<lparr>ch_sent := ch_sent c @ [b]\<rparr>)"
| chan_deliver: "ch_sent c = ch_got c @ b # todo \<Longrightarrow> chan_step c (c\<lparr>ch_got := ch_got c @ [b]\<rparr>)"

definition chan_inv :: "chan \<Rightarrow> bool" where
  "chan_inv c \<longleftrightarrow> (\<exists>todo. ch_sent c = ch_got c @ todo)"

definition link_abs :: "link \<Rightarrow> chan" where
  "link_abs s = \<lparr>ch_sent = sent s, ch_got = got s\<rparr>"

lemma chan_step_inv: "chan_step c d \<Longrightarrow> chan_inv c \<Longrightarrow> chan_inv d"
  by (induction rule: chan_step.induct) (auto simp: chan_inv_def)

interpretation chm: machine chan_start chan_step chan_inv
  by unfold_locales (auto simp: chan_start_def chan_inv_def dest: chan_step_inv [unfolded chan_inv_def])

lemma link_step_refines:
  assumes inv: "link_inv s" and st: "link_step s t"
  shows "link_abs t = link_abs s \<or> chan_step (link_abs s) (link_abs t)"
  using st
proof (cases rule: link_step.cases)
  case (link_send b r k')
  then show ?thesis using chan_send [of "link_abs s" b] by (auto simp: link_abs_def)
next
  case (link_recv l r out k')
  show ?thesis
  proof (cases "r < 0")
    case True
    then show ?thesis using link_recv by (simp add: link_abs_def)
  next
    case False
    then obtain todo where "sent s = got s @ out # todo" using link_recv_inv [OF inv link_recv(2-4)] by auto
    then show ?thesis
      using link_recv(1) False chan_deliver [of "link_abs s" out todo] by (simp add: link_abs_def)
  qed
qed (auto simp: link_abs_def)

interpretation lnk: simulation link_start link_step link_inv chan_start chan_step link_abs
  by unfold_locales
     (auto simp: start_link_inv link_start_def chan_start_def link_abs_def
           dest: link_step_inv link_step_refines)

end
