(* ===== verification/Kcp_Delivery.thy ===== *)
theory Kcp_Delivery
  imports Kcp_Channel
begin

text \<open>
  What the network has to do for a message to arrive: hand over the datagrams of one flush, in
  order. The receiver then returns the message, from any idle state of the two endpoints.
\<close>

section \<open>What a flush of an idle sender sends\<close>

lemma flush_move_keys:
  "map seg_key (snd_buf (flush_move k w cw) @ snd_queue (flush_move k w cw)) = map seg_key (snd_buf k @ snd_queue k)"
proof (induction k w cw rule: flush_move.induct)
  case (1 k w cw)
  then show ?case by (auto simp: flush_move.simps [of k] seg_key_def split: list.split)
qed

lemma flush_move_new:
  "s \<in> set (snd_buf (flush_move k w cw)) \<Longrightarrow>
    s \<in> set (snd_buf k) \<or> xmit s = 0 \<and> cmd s = IKCP_CMD_PUSH \<and> conv s = kconv k"
proof (induction k w cw rule: flush_move.induct)
  case (1 k w cw)
  show ?case
  proof (cases "itimediff (snd_nxt k) (snd_una k + cw) < 0 \<and> snd_queue k \<noteq> []")
    case False
    then have "flush_move k w cw = k" by (auto simp: flush_move.simps [of k] split: list.split)
    with "1.prems" show ?thesis by simp
  next
    case True
    then obtain x q where q: "snd_queue k = x # q" by (cases "snd_queue k") auto
    have "s \<in> set (snd_buf k) \<or> s = send_ready k w x \<or> xmit s = 0 \<and> cmd s = IKCP_CMD_PUSH \<and> conv s = kconv k"
      using "1.IH" [OF conjunct1 [OF True] q] "1.prems" True q by (auto simp: flush_move.simps [of k w cw])
    then show ?thesis by (auto simp: send_ready_def)
  qed
qed

lemma flush_cwnd_control [simp]: "flush_cwnd (after_control k) = flush_cwnd k"
  by (simp add: flush_cwnd_def Let_def)

lemma map_filter_all: "\<forall>x \<in> set xs. f x \<noteq> None \<Longrightarrow> List.map_filter f xs = map (the \<circ> f) xs"
  by (induction xs) (auto simp: List.map_filter_simps)

text \<open>Everything queued goes out at once, in order, when it fits the window.\<close>

lemma idle_sent_segs:
  assumes inv: "kcp_inv k" and e: "snd_buf k = []"
    and fit: "unat (snd_nxt k - snd_una k) + length (snd_queue k) \<le> unat (flush_cwnd k)"
  shows "map seg_key (sent_segs k) = map seg_key (snd_queue k)
    \<and> map sn (sent_segs k) = map (\<lambda>i. snd_nxt k + word_of_nat i) [0..<length (snd_queue k)]
    \<and> (\<forall>s \<in> set (sent_segs k). cmd s = IKCP_CMD_PUSH \<and> conv s = kconv k \<and> seg_ok s)"
proof -
  let ?b = "before_segs k" and ?c = "after_control k"
  let ?f = "seg_next ?b (flush_resent ?b) (flush_rtomin ?b) (word_of_int (ikcp_wnd_unused k))"
  have cw: "unat (flush_cwnd ?c) < 2 ^ 16" using flush_cwnd_bound [OF inv] by simp
  have n: "move_count ?c (flush_cwnd ?c) = length (snd_queue k)" using fit by (simp add: move_count_def)
  note M = flush_move_spec [OF after_control_inv [OF inv] cw, unfolded n, folded before_segs_def]
  have b: "map sn (snd_buf ?b) = map (\<lambda>i. snd_nxt k + word_of_nat i) [0..<length (snd_queue k)]"
    "snd_queue ?b = []" using M [of "word_of_int (ikcp_wnd_unused k)", folded before_segs_def] e by (simp_all add: before_segs_def)
  have keys: "map seg_key (snd_buf ?b) = map seg_key (snd_queue k)"
    using flush_move_keys [of ?c "word_of_int (ikcp_wnd_unused k)" "flush_cwnd ?c", folded before_segs_def] b(2) e by simp
  have new: "xmit s = 0 \<and> cmd s = IKCP_CMD_PUSH \<and> conv s = kconv k" if "s \<in> set (snd_buf ?b)" for s
    using that flush_move_new [of s ?c] e unfolding before_segs_def by auto
  have "?f s \<noteq> None" if "s \<in> set (snd_buf ?b)" for s
    using new [OF that] by (simp add: seg_next_def seg_due_def)
  then have sent: "sent_segs k = map (the \<circ> ?f) (snd_buf ?b)"
    unfolding sent_segs_def Let_def by (intro map_filter_all) blast
  have f: "seg_key (the (?f s)) = seg_key s \<and> sn (the (?f s)) = sn s \<and> cmd (the (?f s)) = cmd s
      \<and> conv (the (?f s)) = conv s \<and> (seg_ok (the (?f s)) \<longleftrightarrow> seg_ok s)" if "s \<in> set (snd_buf ?b)" for s
  proof -
    obtain s' where "?f s = Some s'" using \<open>s \<in> set (snd_buf ?b)\<close> \<open>\<And>s. s \<in> set (snd_buf ?b) \<Longrightarrow> ?f s \<noteq> None\<close> by blast
    with seg_next_data [OF this] show ?thesis by (simp add: seg_key_def seg_ok_def)
  qed
  have "map seg_key (sent_segs k) = map seg_key (snd_buf ?b)" "map sn (sent_segs k) = map sn (snd_buf ?b)"
    using f by (simp_all add: sent)
  moreover have "\<forall>s \<in> set (snd_buf ?b). seg_ok s" using before_segs_inv [OF inv] by (auto simp: kcp_inv_defs)
  ultimately show ?thesis using f new keys b(1) by (auto simp: sent)
qed

section \<open>Datagrams that carry the log in order\<close>

text \<open>\<open>carries c K base i ps j\<close>: the pieces \<open>ps\<close> of conversation \<open>c\<close> hold the segments \<open>i\<close> to
  \<open>j - 1\<close> of \<open>K\<close> in order, and control segments anywhere.\<close>

inductive carries :: "u32 \<Rightarrow> (u32 \<times> bytes) list \<Rightarrow> u32 \<Rightarrow> nat \<Rightarrow> bytes list \<Rightarrow> nat \<Rightarrow> bool" for c K base where
  carry_nil: "carries c K base i [] i"
| carry_control: "seg_ok s \<Longrightarrow> conv s = c \<Longrightarrow> cmd s = IKCP_CMD_ACK \<or> cmd s = IKCP_CMD_WASK \<or> cmd s = IKCP_CMD_WINS \<Longrightarrow>
    carries c K base i ps j \<Longrightarrow> carries c K base i (seg_piece s # ps) j"
| carry_push: "seg_ok s \<Longrightarrow> conv s = c \<Longrightarrow> cmd s = IKCP_CMD_PUSH \<Longrightarrow> sn s = base + word_of_nat i \<Longrightarrow> i < length K \<Longrightarrow>
    (ucast (ucast (frg s) :: u8), data s) = K ! i \<Longrightarrow> carries c K base (Suc i) ps j \<Longrightarrow>
    carries c K base i (seg_piece s # ps) j"

inductive_cases carry_NilE: "carries c K base i [] j"
inductive_cases carry_ConsE: "carries c K base i (p # ps) j"

lemma carries_append: "carries c K base i ps m \<Longrightarrow> carries c K base m qs j \<Longrightarrow> carries c K base i (ps @ qs) j"
  by (induction rule: carries.induct) (auto intro: carries.intros)

lemma carries_split: "carries c K base i (ps @ qs) j \<Longrightarrow> \<exists>m. carries c K base i ps m \<and> carries c K base m qs j"
proof (induction ps arbitrary: i)
  case Nil
  then show ?case by (auto intro: carry_nil)
next
  case (Cons p ps)
  from Cons.prems have "carries c K base i (p # ps @ qs) j" by simp
  then show ?case
    by (rule carry_ConsE) (use Cons.IH carry_control carry_push in \<open>blast+\<close>)
qed

lemma carries_le: "carries c K base i ps j \<Longrightarrow> i \<le> j"
  by (induction rule: carries.induct) auto

lemma carries_control:
  assumes "\<forall>p \<in> set ps. \<exists>s. p = seg_piece s \<and> seg_ok s \<and> conv s = c
     \<and> (cmd s = IKCP_CMD_ACK \<or> cmd s = IKCP_CMD_WASK \<or> cmd s = IKCP_CMD_WINS)"
  shows "carries c K base i ps i"
  using assms by (induction ps) (auto intro: carry_nil carry_control)

lemma carries_data:
  assumes "map seg_key q = drop i K" "map sn q = map (\<lambda>i. base + word_of_nat i) [i..<length K]" "small_frg K" "i \<le> length K"
    "\<forall>s \<in> set q. cmd s = IKCP_CMD_PUSH \<and> conv s = c \<and> seg_ok s"
  shows "carries c K base i (map seg_piece q) (length K)"
  using assms
proof (induction q arbitrary: i)
  case Nil
  then have "i = length K" by simp
  then show ?case by (simp add: carry_nil)
next
  case (Cons s q)
  have lt: "i < length K" using arg_cong [OF Cons.prems(1), of length] by simp
  have d: "drop i K = K ! i # drop (Suc i) K" using lt by (simp add: Cons_nth_drop_Suc)
  have k: "seg_key s = K ! i" "map seg_key q = drop (Suc i) K" using Cons.prems(1) unfolding d by simp_all
  have n: "sn s = base + word_of_nat i" "map sn q = map (\<lambda>i. base + word_of_nat i) [Suc i..<length K]"
    using Cons.prems(2) lt by (simp_all add: upt_conv_Cons)
  have "K ! i \<in> set K" using lt by simp
  then have "unat (fst (seg_key s)) < 256" using Cons.prems(3) unfolding small_frg_def k(1) by blast
  then have "unat (frg s) < 256" by (simp add: seg_key_def)
  then have fk: "(ucast (ucast (frg s) :: u8), data s) = K ! i" using k(1) by (simp add: ucast_ucast_small seg_key_def)
  have s: "cmd s = IKCP_CMD_PUSH" "conv s = c" "seg_ok s" and q: "\<forall>s \<in> set q. cmd s = IKCP_CMD_PUSH \<and> conv s = c \<and> seg_ok s"
    using Cons.prems(5) by simp_all
  have "carries c K base (Suc i) (map seg_piece q) (length K)"
    using Cons.IH [OF k(2) n(2) Cons.prems(3) _ q] lt by simp
  from carry_push [OF s(3,2,1) n(1) lt fk this] show ?case by simp
qed

lemma flush_pieces_carry:
  assumes inv: "kcp_inv k" and e: "snd_buf k = []" and f: "small_frg (map seg_key (snd_queue k))"
    and fit: "unat (snd_nxt k - snd_una k) + length (snd_queue k) \<le> unat (flush_cwnd k)"
  shows "carries (kconv k) (map seg_key (snd_queue k)) (snd_nxt k) 0 (flush_pieces k a t) (length (snd_queue k))"
proof -
  let ?K = "map seg_key (snd_queue k)"
  have h: "len (flush_head k) = 0" "data (flush_head k) = []" "cmd (flush_head k) = IKCP_CMD_ACK" "conv (flush_head k) = kconv k"
    by (simp_all add: flush_head_def)
  have p: "\<exists>s. ikcp_encode_seg [] x = seg_piece s \<and> seg_ok s \<and> conv s = kconv k
      \<and> (cmd s = IKCP_CMD_ACK \<or> cmd s = IKCP_CMD_WASK \<or> cmd s = IKCP_CMD_WINS)"
    if "len x = 0" "data x = []" "conv x = kconv k" "cmd x = IKCP_CMD_ACK \<or> cmd x = IKCP_CMD_WASK \<or> cmd x = IKCP_CMD_WINS" for x
    using that by (intro exI [of _ x]) (simp add: seg_piece_def seg_ok_def)
  have "carries (kconv k) ?K (snd_nxt k) 0 (map (ack_piece (flush_head k)) (acks k)) 0"
    using h by (intro carries_control) (auto simp: ack_piece_def intro!: p)
  moreover have "carries (kconv k) ?K (snd_nxt k) 0 (probe_pieces ((flush_head k)\<lparr>sn := a, ts := t\<rparr>) (flush_asked k)) 0"
    using h by (intro carries_control) (auto simp: probe_pieces_def intro!: p)
  moreover have "carries (kconv k) ?K (snd_nxt k) 0 (map seg_piece (sent_segs k)) (length ?K)"
    using idle_sent_segs [OF inv e fit] f by (intro carries_data) simp_all
  ultimately show ?thesis unfolding flush_pieces_def by (auto intro: carries_append)
qed

section \<open>Receiving them\<close>

definition arriving :: "(u32 \<times> bytes) list \<Rightarrow> u32 \<Rightarrow> u32 \<Rightarrow> u32 \<Rightarrow> nat \<Rightarrow> nat \<Rightarrow> ikcpcb \<Rightarrow> bool" where
  "arriving K base c w a i k \<longleftrightarrow> kcp_inv k \<and> rcv_buf k = [] \<and> map seg_key (rcv_queue k) = take i K
     \<and> rcv_nxt k = base + word_of_nat i \<and> rcv_wnd k = w \<and> kconv k = c \<and> unat (ackcount k) \<le> a + i"

text \<open>What the other operations on the state keep.\<close>

definition rx_idle :: "ikcpcb \<Rightarrow> ikcpcb \<Rightarrow> bool" where
  "rx_idle k k' \<longleftrightarrow> rx_same k k' \<and> rcv_wnd k' = rcv_wnd k \<and> kconv k' = kconv k \<and> ackcount k' = ackcount k"

lemma arriving_idle: "arriving K base c w a i k \<Longrightarrow> rx_idle k k' \<Longrightarrow> kcp_inv k' \<Longrightarrow> arriving K base c w a i k'"
  by (simp add: arriving_def rx_idle_def rx_same_def)

lemma shrink_wnd [simp]: "rcv_wnd (ikcp_shrink_buf k) = rcv_wnd k"
  by (simp add: ikcp_shrink_buf_def split: list.split)

lemma parse_una_wnd [simp]: "rcv_wnd (ikcp_parse_una k u) = rcv_wnd k"
  by (simp add: ikcp_parse_una_def split: prod.split)

lemma parse_ack_wnd [simp]: "rcv_wnd (ikcp_parse_ack k u) = rcv_wnd k"
  by (simp add: ikcp_parse_ack_def split: prod.split)

lemma update_ack_wnd [simp]: "rcv_wnd (ikcp_update_ack k r) = rcv_wnd k"
  by (simp add: ikcp_update_ack_def Let_def split: prod.split)

lemma seg_start_idle: "rx_idle k (seg_start k h)"
  using seg_start_frames [of k h] by (simp add: rx_idle_def) (simp add: seg_start_def)

lemma input_ack_idle: "rx_idle k (fst (input_ack k f m s t))"
  using input_ack_frames [of k f m s t] by (simp add: rx_idle_def) (simp add: input_ack_def Let_def)

lemma fastack_idle: "rx_idle k (ikcp_parse_fastack k u)"
  using parse_fastack_frames [of k u] by (auto simp: rx_idle_def ikcp_parse_fastack_def)

lemma input_cwnd_idle: "rx_idle k (input_cwnd k u)"
  using input_cwnd_only [of k u] by (auto simp: rx_idle_def rx_same_def cwnd_only_def)

lemma rx_idle_trans: "rx_idle k k' \<Longrightarrow> rx_idle k' k'' \<Longrightarrow> rx_idle k k''"
  by (simp add: rx_idle_def rx_same_def)

lemma move_one:
  assumes "rcv_buf k = [s]" "sn s = rcv_nxt k" "nrcv_que k < rcv_wnd k"
  shows "move_ready k = k\<lparr>rcv_buf := [], nrcv_buf := nrcv_buf k - 1, rcv_queue := rcv_queue k @ [s],
     nrcv_que := nrcv_que k + 1, rcv_nxt := rcv_nxt k + 1\<rparr>"
  using assms by (simp add: move_ready.simps [of k]) (simp add: move_ready.simps)

lemma parse_data_next:
  assumes inv: "kcp_inv k" and e: "rcv_buf k = []" and s: "sn s = rcv_nxt k" "seg_ok s"
    and room: "length (rcv_queue k) < unat (rcv_wnd k)"
  shows "let k' = ikcp_parse_data k s in kcp_inv k' \<and> rcv_buf k' = [] \<and> rcv_queue k' = rcv_queue k @ [s]
    \<and> rcv_nxt k' = rcv_nxt k + 1 \<and> rcv_wnd k' = rcv_wnd k"
proof -
  have w: "in_rcv_window k (sn s)" using room by (simp add: in_rcv_window_def s(1))
  have q: "unat (nrcv_que k) = length (rcv_queue k)" using inv by (simp add: kcp_inv_defs)
  let ?k = "k\<lparr>rcv_buf := [s], nrcv_buf := nrcv_buf k + 1\<rparr>"
  have d: "ikcp_parse_data k s = move_ready ?k" using parse_data_inside [OF inv w] e by simp
  have "move_ready ?k = ?k\<lparr>rcv_buf := [], nrcv_buf := nrcv_buf ?k - 1, rcv_queue := rcv_queue ?k @ [s],
     nrcv_que := nrcv_que ?k + 1, rcv_nxt := rcv_nxt ?k + 1\<rparr>"
    using s(1) room q by (intro move_one) (simp_all add: word_less_nat_alt)
  then show ?thesis using parse_data_inv [OF inv s(2)] by (simp add: d Let_def)
qed

lemma push_next:
  assumes inv: "kcp_inv k" and e: "rcv_buf k = []" and small: "unat (ackcount k) < 2 ^ 30"
    and h: "h_sn h = rcv_nxt k" "unat (h_len h) \<le> length p" and room: "length (rcv_queue k) < unat (rcv_wnd k)"
  shows "\<exists>k'. input_push (\<lambda>_. True) k h p = Inr k' \<and> kcp_inv k' \<and> rcv_buf k' = []
    \<and> rcv_queue k' = rcv_queue k @ [new_segment h p] \<and> rcv_nxt k' = rcv_nxt k + 1 \<and> rcv_wnd k' = rcv_wnd k
    \<and> kconv k' = kconv k \<and> unat (ackcount k') = unat (ackcount k) + 1"
proof -
  have a: "ack_inv k" and w: "unat (rcv_wnd k) < 2 ^ 31" using inv by (simp_all add: kcp_inv_defs)
  obtain g where g: "ikcp_ack_push True k (h_sn h) (h_ts h) = Inr g" using ack_push_total [OF a small] by blast
  obtain l b c where ge: "g = k\<lparr>acklist := l, ackblock := b, ackcount := c\<rparr>" and ac: "unat (ackcount g) = unat (ackcount k) + 1"
    using ack_push_spec [OF a small g] by blast
  have gi: "kcp_inv g" using ack_push_inv [OF inv small g] .
  have "in_rcv_window k (h_sn h)" using room by (simp add: in_rcv_window_def h(1))
  then have "itimediff (h_sn h) (rcv_nxt k + rcv_wnd k) < 0" "\<not> itimediff (h_sn h) (rcv_nxt k) < 0"
    using in_rcv_window_iff [OF w] by auto
  then have p: "input_push (\<lambda>_. True) k h p = Inr (ikcp_parse_data g (new_segment h p))"
    using g ge by (simp add: input_push_def)
  have "let k' = ikcp_parse_data g (new_segment h p) in kcp_inv k' \<and> rcv_buf k' = []
    \<and> rcv_queue k' = rcv_queue g @ [new_segment h p] \<and> rcv_nxt k' = rcv_nxt g + 1 \<and> rcv_wnd k' = rcv_wnd g"
    using e h room new_segment_ok [OF h(2)] by (intro parse_data_next [OF gi]) (simp_all add: ge, simp add: new_segment_def)
  then show ?thesis using p ac by (simp add: Let_def ge)
qed

lemma arriving_piece:
  assumes A: "arriving K base c w a i (fst st)" and P: "carries c K base i (p # ps) j"
    and small: "a + i < 2 ^ 30" and room: "length K \<le> unat w"
  shows "\<exists>i' st'. input_loop (\<lambda>_ _. True) n (p @ rest) st = input_loop (\<lambda>_ _. True) (Suc n) rest st'
    \<and> arriving K base c w a i' (fst st') \<and> carries c K base i' ps j"
proof -
  obtain k f m where st: "st = (k, f, m)" by (cases st)
  have inv: "kcp_inv k" and kc: "kconv k = c" using A by (simp_all add: st arriving_def)
  have idle: "arriving K base c w a i (seg_start k h)" for h
    using A seg_start_inv [OF inv] by (auto simp: st intro: arriving_idle [OF _ seg_start_idle])
  from P show ?thesis
  proof (rule carry_ConsE)
    fix s assume s: "p = seg_piece s" "seg_ok s" "conv s = c" "carries c K base i ps j"
      and cmd: "cmd s = IKCP_CMD_ACK \<or> cmd s = IKCP_CMD_WASK \<or> cmd s = IKCP_CMD_WINS"
    let ?h = "hdr_of s" and ?k = "seg_start k (hdr_of s)"
    have known: "cmd_known (h_cmd ?h)" using cmd by (auto simp: cmd_known_def hdr_of_def ikcp_consts)
    have np: "ucast (h_cmd ?h) \<noteq> IKCP_CMD_PUSH" using cmd by (auto simp: hdr_of_def ikcp_consts)
    have i: "kcp_inv ?k" using idle by (simp add: arriving_def)
    have "arriving K base c w a i (fst (input_ack ?k f m (h_sn ?h) (h_ts ?h)))"
      using idle input_ack_inv [OF i] by (auto intro: arriving_idle [OF _ input_ack_idle])
    moreover have "arriving K base c w a i (?k\<lparr>probe := x\<rparr>)" for x
      using idle [of ?h] by (rule arriving_idle) (use i in \<open>simp_all add: rx_idle_def rx_same_def kcp_inv_defs\<close>)
    ultimately have "\<exists>st'. input_seg (\<lambda>_. True) ?h (data s @ rest) st = Inr st' \<and> arriving K base c w a i (fst st')"
      using np idle unfolding st input_seg_eq
      by (cases "input_ack ?k f m (h_sn ?h) (h_ts ?h)") (auto split: if_splits)
    then obtain st' where "input_seg (\<lambda>_. True) ?h (data s @ rest) st = Inr st'" "arriving K base c w a i (fst st')"
      by blast
    then show ?thesis
      using s kc known input_loop_piece [OF s(2), of "\<lambda>_ _. True" n rest st]
      by (intro exI [of _ i] exI [of _ st']) (simp add: st)
  next
    fix s assume s: "p = seg_piece s" "seg_ok s" "conv s = c" "cmd s = IKCP_CMD_PUSH" "sn s = base + word_of_nat i"
      "i < length K" "(ucast (ucast (frg s) :: u8), data s) = K ! i" "carries c K base (Suc i) ps j"
    let ?h = "hdr_of s" and ?k = "seg_start k (hdr_of s)" and ?p = "data s @ rest"
    note B = idle [of ?h, unfolded arriving_def]
    have len: "length (rcv_queue ?k) = i" using arg_cong [of _ _ length] B s(6) by (metis length_map length_take min.absorb2 less_imp_le)
    obtain k' where k': "input_push (\<lambda>_. True) ?k ?h ?p = Inr k'" "kcp_inv k'" "rcv_buf k' = []"
      "rcv_queue k' = rcv_queue ?k @ [new_segment ?h ?p]" "rcv_nxt k' = rcv_nxt ?k + 1" "rcv_wnd k' = rcv_wnd ?k"
      "kconv k' = kconv ?k" "unat (ackcount k') = unat (ackcount ?k) + 1"
      using push_next [of ?k ?h ?p] B len small room s(2,5,6) by (auto simp: hdr_of_def seg_ok_def)
    have key: "seg_key (new_segment ?h ?p) = K ! i" using new_segment_hdr(2) [OF s(2)] s(7) by simp
    have "arriving K base c w a (Suc i) k'"
      unfolding arriving_def using B k' s(6) key by (simp add: take_Suc_conv_app_nth add.assoc)
    moreover have "input_seg (\<lambda>_. True) ?h ?p st = Inr (k', f, m)"
      unfolding st input_seg_eq using k'(1) s(4) by (simp add: hdr_of_def ikcp_consts)
    ultimately show ?thesis
      using s kc input_loop_piece [OF s(2), of "\<lambda>_ _. True" n rest st]
      by (auto simp: st cmd_known_def hdr_of_def ikcp_consts)
  qed
qed

lemma arriving_loop:
  assumes "arriving K base c w a i (fst st)" "carries c K base i ps j" "a + length K < 2 ^ 30" "length K \<le> unat w" "j \<le> length K"
  shows "\<exists>st'. input_loop (\<lambda>_ _. True) n (concat ps) st = Inr (None, st') \<and> arriving K base c w a j (fst st')"
  using assms
proof (induction ps arbitrary: i st n)
  case Nil
  then have "i = j" by (auto elim: carry_NilE)
  with Nil show ?case by (simp add: input_loop.simps [of "\<lambda>_ _. True" n] ikcp_consts)
next
  case (Cons p ps)
  have "a + i < 2 ^ 30" using carries_le [OF Cons.prems(2)] Cons.prems(3,5) by linarith
  from arriving_piece [OF Cons.prems(1,2) this Cons.prems(4), of n "concat ps"] obtain i' st' where
    "input_loop (\<lambda>_ _. True) n (p @ concat ps) st = input_loop (\<lambda>_ _. True) (Suc n) (concat ps) st'"
    "arriving K base c w a i' (fst st')" "carries c K base i' ps j" by blast
  with Cons.IH [of i' st' "Suc n"] Cons.prems(3-5) show ?case by simp
qed

lemma arriving_input:
  assumes A: "arriving K base c w a i k" and P: "carries c K base i ps j" "24 \<le> length (concat ps)"
    and b: "a + length K < 2 ^ 30" "length K \<le> unat w" "j \<le> length K"
  shows "\<exists>k'. ikcp_input (\<lambda>_ _. True) k (Some (concat ps)) = Inr (0, k') \<and> arriving K base c w a j k'"
proof -
  obtain k1 f m where l: "input_loop (\<lambda>_ _. True) 0 (concat ps) (k, 0, 0) = Inr (None, k1, f, m)"
    and A1: "arriving K base c w a j k1"
    using arriving_loop [of K base c w a i "(k, 0, 0)" ps j 0] A P(1) b by auto
  let ?k2 = "if f \<noteq> 0 then ikcp_parse_fastack k1 m else k1"
  have i: "kcp_inv k1" using A1 by (simp add: arriving_def)
  have i2: "kcp_inv ?k2" using i parse_fastack_inv by simp
  have "arriving K base c w a j ?k2"
    using A1 i2 by (auto intro: arriving_idle [OF _ fastack_idle] split: if_splits)
  then have "arriving K base c w a j (input_cwnd ?k2 (snd_una k))"
    using input_cwnd_inv [OF i2] by (rule arriving_idle [OF _ input_cwnd_idle])
  moreover have "ikcp_input (\<lambda>_ _. True) k (Some (concat ps)) = Inr (0, input_cwnd ?k2 (snd_una k))"
    using P(2) l by (simp add: ikcp_input_def Let_def)
  ultimately show ?thesis by blast
qed

text \<open>Feeding datagrams to an endpoint, in order.\<close>

fun deliver_all :: "ikcpcb \<Rightarrow> bytes list \<Rightarrow> ikcpcb result" where
  "deliver_all k [] = Inr k"
| "deliver_all k (d # ds) =
    (case ikcp_input (\<lambda>_ _. True) k (Some d) of Inl e \<Rightarrow> Inl e | Inr (_, k) \<Rightarrow> deliver_all k ds)"

lemma carries_pieces: "carries c K base i ps j \<Longrightarrow> \<forall>p \<in> set ps. 24 \<le> length p"
  by (induction rule: carries.induct) (auto simp: seg_piece_def)

text \<open>A delivery in the connection: the datagrams are in the network.\<close>

lemma link_deliver_reach:
  assumes "reachable link_start link_step s" "d \<in> set (net s)" "can_input (rx s) d"
    "ikcp_input (\<lambda>_ _. True) (rx s) (Some d) = Inr (r, k')"
  shows "reachable link_start link_step (s\<lparr>rx := k'\<rparr>)"
  using assms by (intro reach_step [OF assms(1)] link_deliver)

definition link_accepts :: "ikcpcb \<Rightarrow> bytes list \<Rightarrow> ikcpcb \<Rightarrow> bool" where
  "link_accepts k out k' \<longleftrightarrow> (\<forall>s. reachable link_start link_step s \<longrightarrow> rx s = k \<longrightarrow> set out \<subseteq> set (net s) \<longrightarrow>
     reachable link_start link_step (s\<lparr>rx := k'\<rparr>))"

lemma link_accepts_Cons:
  assumes "ikcp_input (\<lambda>_ _. True) k (Some d) = Inr (r, k1)" "can_input k d" "link_accepts k1 out k'"
  shows "link_accepts k (d # out) k'"
  unfolding link_accepts_def
proof (intro allI impI)
  fix s assume s: "reachable link_start link_step s" "rx s = k" "set (d # out) \<subseteq> set (net s)"
  then have "reachable link_start link_step (s\<lparr>rx := k1\<rparr>)"
    using assms(1,2) by (intro link_deliver_reach) auto
  moreover have "set out \<subseteq> set (net (s\<lparr>rx := k1\<rparr>))" using s(3) by simp
  ultimately have "reachable link_start link_step ((s\<lparr>rx := k1\<rparr>)\<lparr>rx := k'\<rparr>)"
    using assms(3) unfolding link_accepts_def by (metis link.select_convs(2) link.surjective link.update_convs(2))
  then show "reachable link_start link_step (s\<lparr>rx := k'\<rparr>)" by simp
qed

lemma arriving_all:
  assumes "arriving K base c w a i k" "carries c K base i (concat ds) j" "\<forall>d \<in> set ds. concat d \<noteq> [] \<and> length (concat d) < 2 ^ 30"
    "a + length K < 2 ^ 29 + 2 ^ 8" "length K \<le> unat w" "j \<le> length K"
  shows "\<exists>k'. deliver_all k (map concat ds) = Inr k' \<and> arriving K base c w a j k' \<and> link_accepts k (map concat ds) k'"
  using assms
proof (induction ds arbitrary: i k)
  case Nil
  then have "i = j" by (auto elim: carry_NilE)
  with Nil show ?case by (auto simp: link_accepts_def)
next
  case (Cons d ds)
  have "carries c K base i (d @ concat ds) j" using Cons.prems(2) by simp
  then obtain m where m: "carries c K base i d m" "carries c K base m (concat ds) j" using carries_split by blast
  obtain p where p: "p \<in> set d" using Cons.prems(3) by (cases d) auto
  have "24 \<le> length p" using carries_pieces [OF m(1)] p by blast
  also have "\<dots> \<le> length (concat d)" using length_le_concat [OF p] .
  finally have l: "24 \<le> length (concat d)" .
  have mj: "m \<le> length K" "i \<le> length K"
    using carries_le [OF m(1)] carries_le [OF m(2)] Cons.prems(6) by linarith+
  have small: "a + length K < 2 ^ 30" using Cons.prems(4) by simp
  from arriving_input [OF Cons.prems(1) m(1) l small Cons.prems(5) mj(1)] obtain k1 where
    k1: "ikcp_input (\<lambda>_ _. True) k (Some (concat d)) = Inr (0, k1)" "arriving K base c w a m k1" by blast
  have "length (concat d) < 2 ^ 30" using Cons.prems(3) by simp
  moreover have "unat (ackcount k) < 2 ^ 29 + 2 ^ 8"
    using Cons.prems(1,4) mj(2) unfolding arriving_def by linarith
  ultimately have "can_input k (concat d)"
    unfolding can_input_def by (simp add: div_less_iff_less_mult)
  with Cons.IH [OF k1(2) m(2) _ Cons.prems(4-6)] Cons.prems(3) k1(1) link_accepts_Cons show ?case by fastforce
qed

section \<open>From one application to the other\<close>

definition idle_tx :: "ikcpcb \<Rightarrow> bool" where
  "idle_tx k \<longleftrightarrow> kcp_inv k \<and> stream k = 0 \<and> snd_queue k = [] \<and> snd_buf k = [] \<and> can_flush k"

definition idle_rx :: "ikcpcb \<Rightarrow> bool" where
  "idle_rx k \<longleftrightarrow> kcp_inv k \<and> rcv_queue k = [] \<and> rcv_buf k = [] \<and> unat (ackcount k) < 2 ^ 29"

lemma keys_small: "length (fragments m b) \<le> 255 \<Longrightarrow> small_frg (msg_keys m b)"
  using msg_keys_frg unfolding small_frg_def by blast

lemma idle_pair_delivers:
  assumes t: "idle_tx kt" and r: "idle_rx kr" and eq: "kconv kr = kconv kt" "rcv_nxt kr = snd_nxt kt"
    and b: "length b < 2 ^ 31" and n: "length (fragments (unat (mss kt)) b) \<le> 255"
    "length (fragments (unat (mss kt)) b) \<le> unat (rcv_wnd kr)"
    "unat (snd_nxt kt - snd_una kt) + length (fragments (unat (mss kt)) b) \<le> unat (flush_cwnd kt)"
  shows "\<exists>k1 k2 out k3 k4. ikcp_send (\<lambda>_. True) kt (Some b) (int (length b)) = Inr (0, k1)
    \<and> ikcp_flush k1 = Inr (k2, out) \<and> deliver_all kr out = Inr k3
    \<and> ikcp_recv k3 True (int (length b)) = Inr (int (length b), b, k4) \<and> can_flush k1 \<and> link_accepts kr out k3"
proof -
  let ?fs = "fragments (unat (mss kt)) b" and ?K = "msg_keys (unat (mss kt)) b"
  let ?k1 = "kt\<lparr>snd_queue := frag_segs ?fs, nsnd_que := nsnd_que kt + word_of_nat (length ?fs)\<rparr>"
  have kt: "kcp_inv kt" "stream kt = 0" "snd_queue kt = []" "snd_buf kt = []" "output_set kt" "unat (ackcount kt) < 2 ^ 30"
    using t by (auto simp: idle_tx_def can_flush_def)
  have s: "ikcp_send (\<lambda>_. True) kt (Some b) (int (length b)) = Inr (0, ?k1)"
    using ikcp_send_message [of "\<lambda>_. True" kt b] kt(1-3) b n(1) by (simp add: kcp_inv_def Let_def)
  have i1: "kcp_inv ?k1" using ikcp_send_inv [OF s kt(1)] b kt(3) by simp
  obtain k2 ds x y where f: "ikcp_flush ?k1 = Inr (k2, map concat ds)" "concat ds = flush_pieces ?k1 x y"
    "\<forall>d \<in> set (map concat ds). 0 < length d \<and> length d \<le> unat (mtu ?k1)"
    using ikcp_flush_spec [OF i1] kt(5,6) by auto
  have "unat (mtu ?k1) < 2 ^ 30" using i1 by (simp add: kcp_inv_def mtu_inv_def)
  then have lens: "\<forall>d \<in> set ds. concat d \<noteq> [] \<and> length (concat d) < 2 ^ 30" using f(3) by fastforce
  have cw: "flush_cwnd ?k1 = flush_cwnd kt" by (simp add: flush_cwnd_def Let_def)
  have "carries (kconv kt) ?K (snd_nxt kt) 0 (concat ds) (length ?K)"
    using flush_pieces_carry [OF i1, of x y] kt(4) keys_small [OF n(1)] n(3) unfolding f(2) cw
    by (simp add: msg_keys_def)
  moreover have "arriving ?K (snd_nxt kt) (kconv kt) (rcv_wnd kr) (unat (ackcount kr)) 0 kr"
    using r eq by (simp add: arriving_def idle_rx_def)
  moreover have "unat (ackcount kr) + length ?K < 2 ^ 29 + 2 ^ 8" using r n(1) by (simp add: idle_rx_def)
  ultimately obtain k3 where d: "deliver_all kr (map concat ds) = Inr k3"
    and A: "arriving ?K (snd_nxt kt) (kconv kt) (rcv_wnd kr) (unat (ackcount kr)) (length ?K) k3"
    and L: "link_accepts kr (map concat ds) k3"
    using arriving_all [of ?K "snd_nxt kt" "kconv kt" "rcv_wnd kr" "unat (ackcount kr)" 0 kr ds "length ?K"] n(2) lens by auto
  have q: "map seg_key (rcv_queue k3) = ?K" "kcp_inv k3" using A by (simp_all add: arriving_def)
  have "ikcp_recv k3 True (int (length b)) = Inr (int (length b), b, recv_state k3 (rcv_queue k3))"
    using keys_message [OF q(1) n(1)] q(2) b
    by (intro ikcp_recv_message [of k3 _ "[]"]) (auto simp: kcp_inv_defs)
  moreover have "can_flush ?k1" using kt(5,6) by (simp add: can_flush_def)
  ultimately show ?thesis using s f(1) d L by blast
qed

text \<open>When everything sent has been read, the counters of the two endpoints agree.\<close>

lemma idle_link_counters:
  assumes "link_inv s" "idle_tx (tx s)" "sent s = got s"
  shows "rcv_nxt (rx s) = snd_nxt (tx s)"
proof -
  obtain n where n: "n \<le> length (link_log s)" "snd_nxt (tx s) = word_of_nat n" "drop n (link_log s) = []"
    using assms by (auto simp: link_inv_def tx_inv_def tx_ok_def idle_tx_def)
  obtain m where "length (link_log s) \<le> m" "m \<le> length (link_log s)" "rcv_nxt (rx s) = word_of_nat m"
    using assms by (auto simp: link_inv_def rx_inv_def rx_ok_def link_log_def)
  with n show ?thesis by simp
qed

lemma idle_link_delivers:
  assumes s: "reachable link_start link_step s" and t: "idle_tx (tx s)" and r: "idle_rx (rx s)"
    and eq: "sent s = got s" "kconv (rx s) = kconv (tx s)" and b: "length b < 2 ^ 31"
    and n: "length (fragments (unat (mss (tx s))) b) \<le> 255"
    "length (fragments (unat (mss (tx s))) b) \<le> unat (rcv_wnd (rx s))"
    "unat (snd_nxt (tx s) - snd_una (tx s)) + length (fragments (unat (mss (tx s))) b) \<le> unat (flush_cwnd (tx s))"
    "length (log_of (unat (mss (tx s))) (sent s @ [b])) \<le> 2 ^ 31"
  shows "\<exists>k1 k2 out k3 k4. ikcp_send (\<lambda>_. True) (tx s) (Some b) (int (length b)) = Inr (0, k1)
    \<and> ikcp_flush k1 = Inr (k2, out) \<and> deliver_all (rx s) out = Inr k3
    \<and> ikcp_recv k3 True (int (length b)) = Inr (int (length b), b, k4)
    \<and> reachable link_start link_step
        (s\<lparr>tx := k2, rx := k4, net := net s @ out, sent := sent s @ [b], got := got s @ [b]\<rparr>)"
proof -
  have "rcv_nxt (rx s) = snd_nxt (tx s)" using idle_link_counters [OF lnk.inv_reachable [OF s] t eq(1)] .
  from idle_pair_delivers [OF t r eq(2) this b n(1-3)] obtain k1 k2 out k3 k4 where
    d0: "deliver_all (rx s) out = Inr k3" and
    d: "ikcp_send (\<lambda>_. True) (tx s) (Some b) (int (length b)) = Inr (0, k1)" "ikcp_flush k1 = Inr (k2, out)"
    "ikcp_recv k3 True (int (length b)) = Inr (int (length b), b, k4)" "can_flush k1" "link_accepts (rx s) out k3"
    by blast
  have "link_step s (s\<lparr>tx := k1, sent := (if (0 :: int) < 0 then sent s else sent s @ [b])\<rparr>)"
    using t n(4) by (intro link_send [OF d(1) b]) (simp_all add: idle_tx_def)
  then have 1: "reachable link_start link_step (s\<lparr>tx := k1, sent := sent s @ [b]\<rparr>)" using reach_step [OF s] by simp
  let ?s1 = "s\<lparr>tx := k1, sent := sent s @ [b]\<rparr>"
  have 2: "reachable link_start link_step (?s1\<lparr>tx := k2, net := net ?s1 @ out\<rparr>)"
    using d(2,4) by (intro reach_step [OF 1] link_flush) simp_all
  let ?s2 = "?s1\<lparr>tx := k2, net := net ?s1 @ out\<rparr>"
  have "rx ?s2 = rx s" "set out \<subseteq> set (net ?s2)" by simp_all
  then have 3: "reachable link_start link_step (?s2\<lparr>rx := k3\<rparr>)" using d(5) 2 unfolding link_accepts_def by blast
  let ?s3 = "?s2\<lparr>rx := k3\<rparr>"
  have "link_step ?s3 (?s3\<lparr>rx := k4, got := (if int (length b) < 0 then got ?s3 else got ?s3 @ [b])\<rparr>)"
    using d(3) b by (intro link_recv [where l = "int (length b)"]) simp_all
  then have "reachable link_start link_step (?s3\<lparr>rx := k4, got := got s @ [b]\<rparr>)" using reach_step [OF 3] by simp
  moreover have "?s3\<lparr>rx := k4, got := got s @ [b]\<rparr>
      = s\<lparr>tx := k2, rx := k4, net := net s @ out, sent := sent s @ [b], got := got s @ [b]\<rparr>" by (cases s) simp
  ultimately have "reachable link_start link_step
      (s\<lparr>tx := k2, rx := k4, net := net s @ out, sent := sent s @ [b], got := got s @ [b]\<rparr>)" by metis
  with d0 d(1-3) show ?thesis by blast
qed

end
