(* ===== verification/Kcp_Check.thy ===== *)
theory Kcp_Check
  imports Kcp_Flush
begin

text \<open>
  When \<open>ikcp_check\<close> tells the caller to come back: at once exactly when something is due
  (\<open>flush_overdue\<close>), and otherwise after a delay that passes neither the next flush, nor the
  retransmission time of a segment in flight, nor the flush interval.
\<close>

lemma itimediff_swap: "itimediff a b < 0 \<Longrightarrow> - 10000 \<le> itimediff a b \<Longrightarrow> itimediff b a = - itimediff a b"
  by (auto simp: itimediff_def sint_u32_unat unat_sub_u32 split: if_splits)

lemma check_packets_None: "0 < m \<Longrightarrow> check_packets now p m = None \<longleftrightarrow> (\<exists>s \<in> set p. itimediff (resendts s) now \<le> 0)"
  by (induction p arbitrary: m) (auto simp: Let_def)

lemma check_packets_Some:
  "check_packets now p m = Some r \<Longrightarrow> r \<le> m \<and> (\<forall>s \<in> set p. 0 < itimediff (resendts s) now \<and> r \<le> itimediff (resendts s) now)
    \<and> (r = m \<or> (\<exists>s \<in> set p. r = itimediff (resendts s) now))"
proof (induction p arbitrary: m)
  case (Cons a p)
  let ?d = "itimediff (resendts a) now"
  have "\<not> ?d \<le> 0" "check_packets now p (if ?d < m then ?d else m) = Some r"
    using Cons.prems by (auto simp: Let_def split: if_splits)
  with Cons.IH [OF this(2)] show ?case by (auto split: if_splits)
qed simp

definition flush_overdue :: "ikcpcb \<Rightarrow> u32 \<Rightarrow> bool" where
  "flush_overdue k now \<longleftrightarrow> updated k = 0 \<or> itimediff now (ts_flush k) \<ge> 0 \<or> itimediff now (ts_flush k) < -10000
     \<or> (\<exists>s \<in> set (snd_buf k). itimediff (resendts s) now \<le> 0)"

lemma check_delay:
  assumes "\<not> flush_overdue k now"
  shows "\<exists>r. ikcp_check k now = now + (let m = word_of_int r in if m \<ge> interval k then interval k else m)
    \<and> 0 < r \<and> r < 2 ^ 31 \<and> r \<le> itimediff (ts_flush k) now \<and> (\<forall>s \<in> set (snd_buf k). r \<le> itimediff (resendts s) now)"
proof -
  let ?f = "itimediff (ts_flush k) now"
  have n: "\<not> updated k = 0" "itimediff now (ts_flush k) < 0" "- 10000 \<le> itimediff now (ts_flush k)"
    "\<not> (\<exists>s \<in> set (snd_buf k). itimediff (resendts s) now \<le> 0)"
    using assms by (auto simp: flush_overdue_def)
  have f: "?f = - itimediff now (ts_flush k)" using n(2,3) by (rule itimediff_swap)
  obtain t where t: "check_packets now (snd_buf k) 0x7fffffff = Some t"
    using check_packets_None [of "0x7fffffff" now "snd_buf k"] n(4) by auto
  note S = check_packets_Some [OF t]
  let ?r = "if t < ?f then t else ?f"
  have tsf: "(if itimediff now (ts_flush k) \<ge> 10000 \<or> itimediff now (ts_flush k) < -10000
                  then now else ts_flush k) = ts_flush k" using n by auto
  have c: "ikcp_check k now = now + (let m = word_of_int ?r in if m \<ge> interval k then interval k else m)"
    using n(1,2) unfolding ikcp_check_def Let_def tsf t by simp
  have "0 < t" using S by fastforce
  then have "0 < ?r" using f n(2) by simp
  moreover have "?r < 2 ^ 31" using S by auto
  moreover have "?r \<le> ?f" by simp
  moreover have "\<forall>s \<in> set (snd_buf k). ?r \<le> itimediff (resendts s) now" using S by fastforce
  ultimately show ?thesis using c by blast
qed

lemma check_due: "flush_overdue k now \<Longrightarrow> ikcp_check k now = now"
  by (auto simp: flush_overdue_def ikcp_check_def check_packets_None Let_def split: option.splits dest!: check_packets_Some)

lemma check_spec:
  assumes "kcp_inv k"
  shows "(ikcp_check k now = now \<longleftrightarrow> flush_overdue k now) \<and> unat (ikcp_check k now - now) \<le> unat (interval k)
    \<and> (ikcp_check k now \<noteq> now \<longrightarrow> int (unat (ikcp_check k now - now)) \<le> itimediff (ts_flush k) now
        \<and> (\<forall>s \<in> set (snd_buf k). int (unat (ikcp_check k now - now)) \<le> itimediff (resendts s) now))"
proof (cases "flush_overdue k now")
  case True
  then show ?thesis using check_due by simp
next
  case False
  then obtain r where r: "ikcp_check k now = now + (let m = word_of_int r in if m \<ge> interval k then interval k else m)"
    "0 < r" "r < 2 ^ 31" "r \<le> itimediff (ts_flush k) now" "\<forall>s \<in> set (snd_buf k). r \<le> itimediff (resendts s) now"
    using check_delay by blast
  let ?d = "let m = word_of_int r in if m \<ge> interval k then interval k else m"
  have i: "10 \<le> unat (interval k)" using assms by (simp add: kcp_inv_defs)
  have w: "unat (word_of_int r :: u32) = nat r" using r(2,3) by (simp add: unat_word_of_int_u32)
  have d: "unat ?d \<le> unat (interval k)" "int (unat ?d) \<le> r" "0 < unat ?d"
    using w i r(2) by (auto simp: Let_def word_le_nat_alt)
  have e: "ikcp_check k now - now = ?d" using r(1) by simp
  have "ikcp_check k now \<noteq> now" using e d(3) by (metis unat_0 less_irrefl right_minus_eq)
  then show ?thesis using False e d r(4,5) by fastforce
qed

end
