(* ===== verification/Kcp_Flush_Spec.thy ===== *)
theory Kcp_Flush_Spec
  imports Kcp_Flush
begin

text \<open>
  What a flush has to send, said without the functions of the flush: the bytes of each header, which
  control segments are due, which segments in flight, and how many of the queue follow them.
\<close>

section \<open>The reference\<close>

definition le2 :: "u16 \<Rightarrow> bytes" where
  "le2 x = [ucast x, ucast (drop_bit 8 x)]"

definition le4 :: "u32 \<Rightarrow> bytes" where
  "le4 x = [ucast x, ucast (drop_bit 8 x), ucast (drop_bit 16 x), ucast (drop_bit 24 x)]"

definition header_bytes :: "u32 \<Rightarrow> u8 \<Rightarrow> u8 \<Rightarrow> u16 \<Rightarrow> u32 \<Rightarrow> u32 \<Rightarrow> u32 \<Rightarrow> u32 \<Rightarrow> bytes" where
  "header_bytes c m f w t n u l = le4 c @ [m, f] @ le2 w @ le4 t @ le4 n @ le4 u @ le4 l"

definition free_slots :: "ikcpcb \<Rightarrow> nat" where
  "free_slots k = unat (rcv_wnd k) - length (rcv_queue k)"

definition control_of :: "ikcpcb \<Rightarrow> u8 \<Rightarrow> u32 \<times> u32 \<Rightarrow> bytes" where
  "control_of k m a = header_bytes (kconv k) m 0 (word_of_nat (free_slots k)) (snd a) (fst a) (rcv_nxt k) 0"

definition segment_of :: "ikcpcb \<Rightarrow> ikcpseg \<Rightarrow> bytes" where
  "segment_of k s = header_bytes (conv s) (ucast (cmd s)) (ucast (frg s)) (word_of_nat (free_slots k)) (current k) (sn s)
     (rcv_nxt k) (len s) @ data s"

text \<open>A window probe is asked for, or the closed window of the peer has been waited for long enough.\<close>

definition asks_window :: "ikcpcb \<Rightarrow> bool" where
  "asks_window k \<longleftrightarrow> probe k AND 1 \<noteq> 0 \<or> rmt_wnd k = 0 \<and> probe_wait k \<noteq> 0 \<and> 0 \<le> sint (current k - ts_probe k)"

definition tells_window :: "ikcpcb \<Rightarrow> bool" where
  "tells_window k \<longleftrightarrow> probe k AND 2 \<noteq> 0"

text \<open>A segment in flight goes out when it never did, when it timed out, or when it was skipped often enough.\<close>

definition seg_is_due :: "ikcpcb \<Rightarrow> ikcpseg \<Rightarrow> bool" where
  "seg_is_due k s \<longleftrightarrow> xmit s = 0 \<or> 0 \<le> sint (current k - resendts s)
     \<or> fastack s \<ge> (if fastresend k > 0 then word_of_int (fastresend k) else 0xffffffff)"

definition send_limit :: "ikcpcb \<Rightarrow> nat" where
  "send_limit k =
    (let w = min (unat (snd_wnd k)) (unat (rmt_wnd k)) in if nocwnd k = 0 then min (unat (cwnd k)) w else w)"

definition new_count :: "ikcpcb \<Rightarrow> nat" where
  "new_count k = min (length (snd_queue k)) (send_limit k - unat (snd_nxt k - snd_una k))"

definition newly_sent :: "ikcpcb \<Rightarrow> ikcpseg list" where
  "newly_sent k = map (\<lambda>i. (snd_queue k ! i)\<lparr>conv := kconv k, cmd := 81, sn := snd_nxt k + word_of_nat i\<rparr>) [0..<new_count k]"

definition expected_pieces :: "ikcpcb \<Rightarrow> bytes list" where
  "expected_pieces k = map (control_of k 82) (acks k)
     @ (if asks_window k then [control_of k 83 (last_ack k)] else [])
     @ (if tells_window k then [control_of k 84 (last_ack k)] else [])
     @ map (segment_of k) (filter (seg_is_due k) (snd_buf k)) @ map (segment_of k) (newly_sent k)"

section \<open>The flush sends it\<close>

lemma encode_header:
  "ikcp_encode_seg [] s = header_bytes (conv s) (ucast (cmd s)) (ucast (frg s)) (ucast (wnd s)) (ts s) (sn s) (una s) (len s)"
  by (simp add: ikcp_encode_seg_def ikcp_encode8u_def ikcp_encode16u_def ikcp_encode32u_def header_bytes_def le2_def le4_def
      byte_of_def Let_def)

lemma wnd_bytes:
  assumes "kcp_inv k" shows "(word_of_int (ikcp_wnd_unused k) :: u32) = word_of_nat (free_slots k)"
proof -
  have r: "unat (nrcv_que k) = length (rcv_queue k)" "unat (rcv_wnd k) < 2 ^ 31" using assms by (simp_all add: kcp_inv_defs)
  show ?thesis
  proof (cases "nrcv_que k < rcv_wnd k")
    case True
    then have u: "unat (rcv_wnd k - nrcv_que k) = free_slots k"
      using r by (simp add: free_slots_def unat_sub_u32 word_less_nat_alt)
    then have "sint (rcv_wnd k - nrcv_que k) = int (free_slots k)" using r(2) by (simp add: sint_u32_unat free_slots_def)
    then show ?thesis using True by (simp add: ikcp_wnd_unused_def)
  next
    case False
    then show ?thesis using r by (simp add: ikcp_wnd_unused_def free_slots_def word_less_nat_alt)
  qed
qed

lemma control_pieces:
  assumes "kcp_inv k"
  shows "map (ack_piece (flush_head k)) (acks k) = map (control_of k 82) (acks k)"
    "probe_pieces ((flush_head k)\<lparr>sn := fst a, ts := snd a\<rparr>) (flush_asked k)
      = (if asks_window k then [control_of k 83 a] else []) @ (if tells_window k then [control_of k 84 a] else [])"
proof -
  have w: "(ucast (word_of_nat (free_slots k) :: u32) :: u16) = word_of_nat (free_slots k)"
    by transfer simp
  show "map (ack_piece (flush_head k)) (acks k) = map (control_of k 82) (acks k)"
    by (simp add: ack_piece_def encode_header control_of_def flush_head_def wnd_bytes [OF assms] w IKCP_CMD_ACK_def)
  have a: "flush_asked k AND IKCP_ASK_SEND \<noteq> 0 \<longleftrightarrow> asks_window k" "flush_asked k AND IKCP_ASK_TELL \<noteq> 0 \<longleftrightarrow> tells_window k"
    by (auto simp: flush_asked_def flush_probe_def asks_window_def tells_window_def IKCP_ASK_SEND_def IKCP_ASK_TELL_def
        itimediff_def Let_def bit.conj_disj_distrib2)
  show "probe_pieces ((flush_head k)\<lparr>sn := fst a, ts := snd a\<rparr>) (flush_asked k)
      = (if asks_window k then [control_of k 83 a] else []) @ (if tells_window k then [control_of k 84 a] else [])"
    by (simp add: probe_pieces_def a encode_header control_of_def flush_head_def wnd_bytes [OF assms] w
        IKCP_CMD_WASK_def IKCP_CMD_WINS_def)
qed

text \<open>The segments moved out of the queue, in full.\<close>

definition moved_seg :: "ikcpcb \<Rightarrow> u32 \<Rightarrow> nat \<Rightarrow> ikcpseg" where
  "moved_seg k w i = (send_ready k w (snd_queue k ! i))\<lparr>sn := snd_nxt k + word_of_nat i\<rparr>"

lemma flush_move_segs:
  "\<exists>m \<le> length (snd_queue k). snd_buf (flush_move k w cw) = snd_buf k @ map (moved_seg k w) [0..<m]
    \<and> snd_queue (flush_move k w cw) = drop m (snd_queue k)"
proof (induction k w cw rule: flush_move.induct)
  case (1 k w cw)
  show ?case
  proof (cases "itimediff (snd_nxt k) (snd_una k + cw) < 0 \<and> snd_queue k \<noteq> []")
    case False
    then have "flush_move k w cw = k" by (auto simp: flush_move.simps [of k] split: list.split)
    then show ?thesis by (intro exI [of _ 0]) simp
  next
    case True
    then obtain x q where q: "snd_queue k = x # q" by (cases "snd_queue k") auto
    let ?k = "k\<lparr>snd_queue := q, snd_buf := snd_buf k @ [send_ready k w x],
               nsnd_que := nsnd_que k - 1, nsnd_buf := nsnd_buf k + 1, snd_nxt := snd_nxt k + 1\<rparr>"
    obtain m where m: "m \<le> length q" "snd_buf (flush_move ?k w cw) = (snd_buf k @ [send_ready k w x]) @ map (moved_seg ?k w) [0..<m]"
      "snd_queue (flush_move ?k w cw) = drop m q"
      using "1.IH" [OF conjunct1 [OF True] q] by auto
    have f: "flush_move k w cw = flush_move ?k w cw" using True q by (simp add: flush_move.simps [of k])
    have "moved_seg ?k w i = moved_seg k w (Suc i)" for i by (simp add: moved_seg_def send_ready_def q add.assoc)
    moreover have "send_ready k w x = moved_seg k w 0" by (simp add: moved_seg_def q)
    ultimately have "send_ready k w x # map (moved_seg ?k w) [0..<m] = map (moved_seg k w) [0..<Suc m]"
      by (simp add: upt_conv_Cons map_Suc_upt [symmetric] comp_def del: upt_Suc)
    then show ?thesis unfolding f using m q by (intro exI [of _ "Suc m"]) simp
  qed
qed

lemma send_limit_cwnd: "unat (flush_cwnd (after_control k)) = send_limit k"
  by (auto simp: flush_cwnd_def send_limit_def imin_def Let_def word_less_nat_alt word_le_nat_alt min_def)

lemma before_segs_buf:
  assumes "kcp_inv k"
  shows "snd_buf (before_segs k) = snd_buf k @ map (moved_seg (after_control k) (word_of_nat (free_slots k))) [0..<new_count k]"
    "snd_queue (before_segs k) = drop (new_count k) (snd_queue k)"
proof -
  let ?c = "after_control k" and ?w = "word_of_int (ikcp_wnd_unused k) :: u32"
  have n: "move_count ?c (flush_cwnd ?c) = new_count k" by (simp add: move_count_def new_count_def send_limit_cwnd)
  have cw: "unat (flush_cwnd ?c) < 2 ^ 16" by (rule flush_cwnd_bound [OF after_control_inv [OF assms]])
  show q: "snd_queue (before_segs k) = drop (new_count k) (snd_queue k)"
    using flush_move_spec [OF after_control_inv [OF assms] cw, of ?w] unfolding n before_segs_def by simp
  obtain m where m: "m \<le> length (snd_queue k)" "snd_buf (before_segs k) = snd_buf k @ map (moved_seg ?c ?w) [0..<m]"
    "snd_queue (before_segs k) = drop m (snd_queue k)"
    using flush_move_segs [of ?c ?w "flush_cwnd ?c"] unfolding before_segs_def by auto
  have "new_count k \<le> length (snd_queue k)" by (simp add: new_count_def)
  then have "m = new_count k" using m(1,3) q by (metis diff_diff_cancel length_drop)
  then show "snd_buf (before_segs k) = snd_buf k @ map (moved_seg ?c (word_of_nat (free_slots k))) [0..<new_count k]"
    using m(2) wnd_bytes [OF assms] by simp
qed

lemma flush_move_fastresend [simp]: "fastresend (flush_move k w cw) = fastresend k"
proof (induction k w cw rule: flush_move.induct)
  case (1 k w cw)
  then show ?case by (auto simp: flush_move.simps [of k] split: list.split)
qed

lemma flush_resent_before [simp]: "flush_resent (before_segs k) = flush_resent k"
  using flush_probe_eq [of "k\<lparr>ackcount := 0\<rparr>"] by (auto simp: flush_resent_def before_segs_def after_control_def)

lemma seg_next_due: "seg_next (before_segs k) (flush_resent k) m w s \<noteq> None \<longleftrightarrow> seg_is_due k s"
  unfolding seg_next_cases by (auto simp: timed_out_def fast_due_def seg_is_due_def itimediff_def flush_resent_def)

lemma seg_next_sent:
  assumes "seg_next b r m w s = Some s'"
  shows "ts s' = current b" "wnd s' = w" "una s' = rcv_nxt b" "xmit s' = xmit s + 1"
  using assms by (auto simp: seg_next_def seg_due_def Let_def split: if_splits)

lemma map_map_filter:
  assumes "\<And>x y. f x = Some y \<Longrightarrow> g y = h x"
  shows "map g (List.map_filter f xs) = map h (filter (\<lambda>x. f x \<noteq> None) xs)"
  using assms by (induction xs) (auto simp: List.map_filter_simps split: option.split)

lemma data_pieces:
  assumes "kcp_inv k"
  shows "map seg_piece (sent_segs k) = map (segment_of k) (filter (seg_is_due k) (snd_buf k)) @ map (segment_of k) (newly_sent k)"
proof -
  let ?w = "word_of_nat (free_slots k) :: u32" and ?b = "before_segs k"
  let ?f = "seg_next ?b (flush_resent k) (flush_rtomin ?b) ?w"
  have w: "(ucast ?w :: u16) = word_of_nat (free_slots k)" by transfer simp
  have p: "seg_piece s' = segment_of k s" if "?f s = Some s'" for s s'
    using seg_next_data [OF that] seg_next_sent [OF that] by (simp add: seg_piece_def segment_of_def encode_header w)
  have "map seg_piece (sent_segs k) = map (segment_of k) (filter (\<lambda>s. ?f s \<noteq> None) (snd_buf ?b))"
    unfolding sent_segs_def Let_def flush_resent_before wnd_bytes [OF assms] by (rule map_map_filter) (rule p)
  also have "\<dots> = map (segment_of k) (filter (seg_is_due k) (snd_buf ?b))" by (simp only: seg_next_due)
  also have "\<dots> = map (segment_of k) (filter (seg_is_due k) (snd_buf k))
      @ map (segment_of k) (filter (seg_is_due k) (map (moved_seg (after_control k) ?w) [0..<new_count k]))"
    by (simp add: before_segs_buf(1) [OF assms])
  also have "filter (seg_is_due k) (map (moved_seg (after_control k) ?w) [0..<new_count k]) = map (moved_seg (after_control k) ?w) [0..<new_count k]"
    by (rule filter_True) (auto simp: seg_is_due_def moved_seg_def)
  also have "map (segment_of k) \<dots> = map (segment_of k) (newly_sent k)"
    by (auto simp: newly_sent_def segment_of_def moved_seg_def send_ready_def IKCP_CMD_PUSH_def)
  finally show ?thesis .
qed

lemma flush_pieces_expected:
  "kcp_inv k \<Longrightarrow> flush_pieces k (fst (last_ack k)) (snd (last_ack k)) = expected_pieces k"
  by (simp add: flush_pieces_def expected_pieces_def control_pieces data_pieces)

text \<open>What becomes of the segments: every one sent counts one more transmission.\<close>

lemma xmit_after:
  "xmit (seg_after (before_segs k) (flush_resent k) m w s) = (if seg_is_due k s then xmit s + 1 else xmit s)"
  using seg_next_due [of k m w s]
  by (cases "seg_next (before_segs k) (flush_resent k) m w s") (auto simp: seg_after_def dest: seg_next_sent)

lemma flush_sends_expected:
  assumes "kcp_inv k" "output_set k" "unat (ackcount k) < 2 ^ 30"
  shows "\<exists>k' ds. ikcp_flush k = Inr (k', map concat ds) \<and> concat ds = expected_pieces k
    \<and> (\<forall>d \<in> set (map concat ds). 0 < length d \<and> length d \<le> unat (mtu k))
    \<and> kcp_inv k' \<and> ackcount k' = 0 \<and> snd_queue k' = drop (new_count k) (snd_queue k)
    \<and> map (\<lambda>s. (sn s, data s, xmit s)) (snd_buf k')
      = map (\<lambda>s. (sn s, data s, if seg_is_due k s then xmit s + 1 else xmit s)) (snd_buf k)
        @ map (\<lambda>s. (sn s, data s, 1)) (newly_sent k)"
proof -
  let ?w = "word_of_nat (free_slots k) :: u32" and ?b = "before_segs k"
  obtain k' ds where f: "ikcp_flush k = Inr (k', map concat ds)" "concat ds = flush_pieces k (fst (last_ack k)) (snd (last_ack k))"
    "\<forall>d \<in> set (map concat ds). 0 < length d \<and> length d \<le> unat (mtu k)" "kcp_inv k'" "ackcount k' = 0"
    "snd_queue k' = snd_queue ?b" "snd_buf k' = map (seg_after ?b (flush_resent k) (flush_rtomin ?b) ?w) (snd_buf ?b)"
    using ikcp_flush_exact [OF assms] unfolding flush_resent_before wnd_bytes [OF assms(1)] by blast
  have "map (\<lambda>s. (sn s, data s, xmit s)) (snd_buf k')
      = map (\<lambda>s. (sn s, data s, if seg_is_due k s then xmit s + 1 else xmit s)) (snd_buf ?b)"
    by (simp add: f(7) xmit_after comp_def)
  also have "\<dots> = map (\<lambda>s. (sn s, data s, if seg_is_due k s then xmit s + 1 else xmit s)) (snd_buf k)
        @ map (\<lambda>s. (sn s, data s, 1)) (newly_sent k)"
    by (simp add: before_segs_buf(1) [OF assms(1)] newly_sent_def moved_seg_def seg_is_due_def comp_def)
  finally show ?thesis
    using f(1-6) before_segs_buf(2) [OF assms(1)] flush_pieces_expected [OF assms(1)] by auto
qed

section \<open>A segment that is longer than the output buffer\<close>

text \<open>
  \<open>ikcp_setmtu\<close> makes the output buffer anew and leaves the segments as they are. One that is longer
  than the new buffer overruns it when the flush reaches it.
\<close>

lemma oversized_send:
  assumes m: "mtu_inv k" "output_set k" and s: "seg_ok s" "length (data s) < 2 ^ 30" "buffer_size k < 24 + length (data s)"
  shows "seg_send k s st = Inl BufferOverrun"
proof -
  obtain ptr out where st: "st = (ptr, out)" by (cases st)
  let ?n = "24 + length (data s)"
  have l: "unat (len s) = length (data s)" using s(1) by (simp add: seg_ok_def)
  have "unat (IKCP_OVERHEAD + len s) = ?n"
    using l s(2) by (subst unat_add_u32) (auto simp: IKCP_OVERHEAD_def)
  then have need: "sint (IKCP_OVERHEAD + len s) = int ?n" using s(2) by (simp add: sint_u32_unat)
  have mtu: "sint (mtu k) = int (unat (mtu k))" "unat (mtu k) < ?n" "24 \<le> buffer_size k"
    using m(1) s(3) by (simp_all add: mtu_inv_def sint_u32_unat)
  have pos: "len s > 0" using l s(3) mtu(3) by (auto simp: word_gt_0)
  obtain o2 where "make_room k (int ?n) st = Inr ([], o2)"
    using m(2) mtu(1,2) by (cases "ptr = []") (auto simp: st make_room_def ikcp_output_def)
  moreover have "put_bytes k (ikcp_encode_seg [] s) ([], o2) = Inr (ikcp_encode_seg [] s, o2)"
    using mtu(3) by (simp add: put_bytes_def)
  moreover have "put_bytes k (take (unat (len s)) (data s)) (ikcp_encode_seg [] s, o2) = Inl BufferOverrun"
    using s(3) by (simp add: put_bytes_def l)
  ultimately show ?thesis unfolding seg_send_def need using pos by simp
qed

lemma setmtu_makes_buffer:
  assumes "50 \<le> m" "m < 2 ^ 30"
  shows "\<exists>a b. ikcp_setmtu True k m = (0, k\<lparr>mtu := a, mss := b, buffer_size := 3 * (nat m + 24)\<rparr>)
    \<and> mtu_inv (k\<lparr>mtu := a, mss := b, buffer_size := 3 * (nat m + 24)\<rparr>)"
proof -
  have w: "unat (word_of_int m :: u32) = nat m" using assms by (simp add: unat_word_of_int_u32)
  have o: "IKCP_OVERHEAD = 24" "sint IKCP_OVERHEAD = 24" by (simp_all add: IKCP_OVERHEAD_def)
  have b: "unat ((word_of_int m + 24) * 3 :: u32) = 3 * (nat m + 24)"
    using assms by (simp add: unat_word_ariths w nat_less_iff)
  have s: "unat (word_of_int m - 24 :: u32) = nat m - 24"
    using assms by (simp add: unat_sub_u32 w nat_le_iff)
  have "ikcp_setmtu True k m = (0, k\<lparr>mtu := word_of_int m, mss := word_of_int m - 24, buffer_size := 3 * (nat m + 24)\<rparr>)"
    using assms(1) by (simp only: ikcp_setmtu_def o b) simp
  moreover have "mtu_inv (k\<lparr>mtu := word_of_int m, mss := word_of_int m - 24, buffer_size := 3 * (nat m + 24)\<rparr>)"
    using assms w s by (simp add: mtu_inv_def) arith
  ultimately show ?thesis by blast
qed

lemma oversized_flush:
  assumes i: "mtu_inv k" "ack_inv k" "output_set k" "unat (ackcount k) < 2 ^ 30"
    and q: "snd_buf k = []" "snd_queue k = x # q" "seg_ok x" "length (data x) < 2 ^ 30" "buffer_size k < 24 + length (data x)"
    and w: "unat (rmt_wnd k) < 2 ^ 16" "unat (snd_nxt k - snd_una k) < unat (flush_cwnd k)"
  shows "ikcp_flush k = Inl BufferOverrun"
proof -
  let ?c = "after_control k"
  have c: "flush_cwnd ?c = flush_cwnd k" by (simp add: flush_cwnd_def Let_def)
  have "flush_cwnd k \<le> rmt_wnd k" by (auto simp: flush_cwnd_def imin_def Let_def)
  then have cw: "unat (flush_cwnd k) < 2 ^ 16" using w(1) by (simp add: word_le_nat_alt)
  obtain seg st where f: "flush_control k = Inr (seg, ?c, st)" using flush_control_packed [OF i] by blast
  have go: "itimediff (snd_nxt ?c) (snd_una ?c + flush_cwnd k) < 0"
    using window_room [OF cw, of ?c] w(2) cw by simp
  let ?n = "?c\<lparr>snd_queue := q, snd_buf := [send_ready ?c (wnd seg) x], nsnd_que := nsnd_que ?c - 1,
     nsnd_buf := nsnd_buf ?c + 1, snd_nxt := snd_nxt ?c + 1\<rparr>"
  let ?m = "flush_move ?c (wnd seg) (flush_cwnd k)"
  have m: "?m = flush_move ?n (wnd seg) (flush_cwnd k)" using go q(1,2) by (simp add: flush_move.simps [of ?c])
  obtain rest where b: "snd_buf ?m = send_ready ?c (wnd seg) x # rest"
    using flush_move_segs [of ?n "wnd seg" "flush_cwnd k"] unfolding m by auto
  have bs: "buffer_size ?m = buffer_size k" "mtu_inv ?m" "output_set ?m"
    using i(1,3) flush_probe_eq [of "k\<lparr>ackcount := 0\<rparr>"] by (auto simp: mtu_inv_def after_control_def)
  let ?x = "send_ready ?c (wnd seg) x"
  define y where "y = (fst (snd (seg_due ?m (flush_resent ?m) (flush_rtomin ?m) ?x)))\<lparr>ts := current ?m, wnd := wnd seg, una := rcv_nxt ?m\<rparr>"
  have d: "\<exists>z. seg_due ?m (flush_resent ?m) (flush_rtomin ?m) ?x = (True, z, ?m, 0, False)
      \<and> y = z\<lparr>ts := current ?m, wnd := wnd seg, una := rcv_nxt ?m\<rparr> \<and> data z = data x \<and> len z = len x"
    by (simp add: seg_due_def y_def)
  then obtain z where z: "seg_due ?m (flush_resent ?m) (flush_rtomin ?m) ?x = (True, z, ?m, 0, False)"
    "y = z\<lparr>ts := current ?m, wnd := wnd seg, una := rcv_nxt ?m\<rparr>" "data z = data x" "len z = len x" by blast
  have y: "seg_ok y" "data y = data x" using z q(3) by (simp_all add: seg_ok_def)
  have "seg_send ?m y st = Inl BufferOverrun"
    using y q(4,5) bs by (intro oversized_send) simp_all
  then have "flush_segs (flush_resent ?m) (flush_rtomin ?m) (wnd seg) (snd_buf ?m) ?m 0 False st = Inl BufferOverrun"
    unfolding b using z(1,2) by simp
  then show ?thesis unfolding ikcp_flush_def f by (simp add: Let_def c)
qed

end
