(* ===== verification/Kcp_Properties.thy ===== *)
theory Kcp_Properties
  imports Kcp_Delivery Kcp_Check Kcp_Flush_Spec
begin

text \<open>
  The properties of the KCP endpoint (\<open>ikcp/ikcp.c\<close>), each followed by a witness that applies
  it to a concrete control block. The states of the witnesses are made by the API: \<open>kcp0\<close> is a
  fresh endpoint with a callback, \<open>kcp1\<close> has received three segments, one of them early.
\<close>

definition kcp0 :: ikcpcb where
  "kcp0 = ikcp_setoutput (the (ikcp_create (\<lambda>_. True) 7)) True"

definition push_seg :: "u32 \<Rightarrow> u32 \<Rightarrow> bytes \<Rightarrow> ikcpseg" where
  "push_seg s f d = (fresh_seg d)\<lparr>conv := 7, cmd := IKCP_CMD_PUSH, sn := s, frg := f\<rparr>"

lemma kcp0_inv: "kcp_inv kcp0"
  unfolding kcp0_def by (intro setoutput_inv create_inv [of "\<lambda>_. True" 7]) (simp add: ikcp_create_def)

lemma kcp0_mtu: "mtu_inv kcp0"
  using kcp0_inv by (simp add: kcp_inv_def)

lemma kcp0_fields: "stream kcp0 = 0" "mss kcp0 = 1376" "mtu kcp0 = 1400" "snd_queue kcp0 = []" "rcv_queue kcp0 = []"
  "output_set kcp0" "ackcount kcp0 = 0" "nsnd_que kcp0 = 0" "rcv_wnd kcp0 = 32" "rcv_nxt kcp0 = 0" "rcv_buf kcp0 = []"
  by (simp_all add: kcp0_def ikcp_create_def ikcp_setoutput_def ikcp_consts)

text \<open>The header an endpoint writes before a segment is the header it reads. For
  every segment and whatever follows, decoding the conversation number and then the rest gives back
  the fields, the narrow ones at their wire width, and leaves exactly what follows.\<close>

lemma header_round_trip:
  "\<exists>p'. ikcp_decode32u (ikcp_encode_seg [] seg @ p) = Some (conv seg, p')
     \<and> decode_tail (conv seg) p' = Some (hdr_of seg, p) \<and> length (ikcp_encode_seg [] seg) = 24"
  using decode_encode_seg_conv [of seg p] decode_encode_seg_tail [of seg p] by simp

text \<open>C11 (functional): in message mode, with allocations that succeed, \<open>ikcp_send\<close> refuses a
  message that needs more than 255 fragments and leaves the state alone; any other message is cut
  into \<open>mss\<close>-byte fragments, numbered down to zero, that go behind the send queue, and nothing
  else changes.\<close>

theorem send_fragments_message:
  assumes "\<forall>i. ok i" "stream k = 0" "mtu_inv k" "length b < 2 ^ 31"
  shows "ikcp_send ok k (Some b) (int (length b)) =
      (let fs = fragments (unat (mss k)) b
       in if length fs > 255 then Inr (-2, k)
          else Inr (0, k\<lparr>snd_queue := snd_queue k @ frag_segs fs,
                        nsnd_que := nsnd_que k + word_of_nat (length fs)\<rparr>))
    \<and> concat (fragments (unat (mss k)) b) = b \<and> (\<forall>f \<in> set (fragments (unat (mss k)) b). length f \<le> unat (mss k))
    \<and> length (fragments (unat (mss k)) b) =
        (if length b \<le> unat (mss k) then 1 else (length b + unat (mss k) - 1) div unat (mss k))"
proof -
  have m: "0 < unat (mss k)" using assms(3) by (auto simp: mtu_inv_def)
  show ?thesis
    using ikcp_send_message [OF assms] concat_fragments fragments_bounded [OF m] length_fragments [OF m] by blast
qed

theorem send_fragments_message_witness:
  "ikcp_send (\<lambda>_. True) kcp0 (Some [1, 2, 3]) 3 =
    Inr (0, kcp0\<lparr>snd_queue := [fresh_seg [1, 2, 3]], nsnd_que := 1\<rparr>)"
  using send_fragments_message [of "\<lambda>_. True" kcp0 "[1, 2, 3]"] kcp0_mtu
  by (simp add: kcp0_fields fragments_small fresh_seg_def)

text \<open>C12 (functional): whatever the mode and the allocator, when \<open>ikcp_send\<close> returns 0 every
  byte of the buffer has been queued behind what was queued, in order.\<close>

theorem send_zero_queues_all:
  assumes "ikcp_send ok k (Some b) (int (length b)) = Inr (0, k')" "mtu_inv k" "length b < 2 ^ 31"
  shows "queued_bytes k' = queued_bytes k @ b"
  using assms by (rule ikcp_send_zero_queues_all)

theorem send_zero_queues_all_witness:
  "queued_bytes (kcp0\<lparr>snd_queue := [fresh_seg [1, 2, 3]], nsnd_que := 1\<rparr>) = queued_bytes kcp0 @ [1, 2, 3]"
proof -
  have "ikcp_send (\<lambda>_. True) kcp0 (Some [1, 2, 3]) (int (length [1, 2, 3 :: u8])) =
      Inr (0, kcp0\<lparr>snd_queue := [fresh_seg [1, 2, 3]], nsnd_que := 1\<rparr>)"
    using ikcp_send_message [of "\<lambda>_. True" kcp0 "[1, 2, 3]"] kcp0_mtu
    by (simp add: kcp0_fields fragments_small fresh_seg_def)
  then show ?thesis by (rule send_zero_queues_all) (simp_all add: kcp0_mtu)
qed

text \<open>C13 (roundtrip): what the sender cuts up, the reader gets back. When the receive queue starts
  with the fragments of a message, followed by anything, one \<open>ikcp_recv\<close> with a buffer that is
  large enough returns exactly that message and its length, and takes exactly its fragments.\<close>

theorem recv_returns_message:
  assumes "rcv_queue k = frag_segs (fragments m b) @ rest" "length (fragments m b) \<le> 255"
    "que_inv k" "length b < 2 ^ 31" "int (length b) \<le> l" "l < 2 ^ 31"
  shows "ikcp_recv k True l = Inr (int (length b), b, recv_state k (frag_segs (fragments m b)))"
proof -
  have msg: "is_message (frag_segs (fragments m b)) b" using assms(2) by (intro is_message_fragments) simp
  have "length d < 2 ^ 32" if "d \<in> set (fragments m b)" for d
    using length_le_concat [OF that] assms(4) by (simp add: concat_fragments)
  then have "\<forall>s \<in> set (frag_segs (fragments m b)). seg_ok s" by (intro frag_segs_ok) blast
  then show ?thesis by (rule ikcp_recv_message [OF assms(1) msg _ assms(3,5,6)])
qed

definition kcp_got :: ikcpcb where
  "kcp_got = kcp0\<lparr>rcv_queue := frag_segs [[1, 2], [3]], nrcv_que := 2\<rparr>"

lemma kcp_got_que: "que_inv kcp_got"
  by (simp add: kcp_got_def que_inv_def kcp0_def ikcp_create_def ikcp_setoutput_def)

theorem recv_returns_message_witness:
  "ikcp_recv kcp_got True 10 = Inr (3, [1, 2, 3], recv_state kcp_got (frag_segs [[1, 2], [3]]))"
proof -
  have f: "fragments 2 [1, 2, 3 :: u8] = [[1, 2], [3]]" by (simp add: fragments_step fragments_small)
  show ?thesis
    using recv_returns_message [of kcp_got 2 "[1, 2, 3]" "[]" 10, unfolded f, OF _ _ kcp_got_que]
    by (simp add: kcp_got_def)
qed

text \<open>moving segments to the reader releases the longest run that is in order and
  fits the window: the first \<open>n\<close> segments have the next \<open>n\<close> numbers, they go to the end of
  the receive queue, \<open>rcv_nxt\<close> advances by \<open>n\<close>, and it stops only where the next segment is
  missing or the window is full.\<close>

lemma move_ready_longest_run:
  assumes "kcp_inv k" "length (rcv_queue k) + length (rcv_buf k) < 2 ^ 32"
  shows "\<exists>n \<le> length (rcv_buf k).
    move_ready k = k\<lparr>rcv_buf := drop n (rcv_buf k), nrcv_buf := nrcv_buf k - word_of_nat n,
       rcv_queue := rcv_queue k @ take n (rcv_buf k), nrcv_que := nrcv_que k + word_of_nat n,
       rcv_nxt := rcv_nxt k + word_of_nat n\<rparr>
    \<and> (\<forall>i < n. sn (rcv_buf k ! i) = rcv_nxt k + word_of_nat i)
    \<and> (n < length (rcv_buf k) \<longrightarrow> sn (rcv_buf k ! n) \<noteq> rcv_nxt k + word_of_nat n
         \<or> length (rcv_queue k) + n \<ge> unat (rcv_wnd k))"
proof -
  let ?n = "ready_run (rcv_nxt k) (unat (rcv_wnd k) - length (rcv_queue k)) (rcv_buf k)"
  have q: "que_inv k" using assms(1) by (simp add: kcp_inv_def)
  have m: "?n < length (rcv_buf k) \<Longrightarrow> sn (rcv_buf k ! ?n) \<noteq> rcv_nxt k + word_of_nat ?n
         \<or> length (rcv_queue k) + ?n \<ge> unat (rcv_wnd k)"
    using ready_run_stops [of "rcv_nxt k" "unat (rcv_wnd k) - length (rcv_queue k)" "rcv_buf k"] by linarith
  show ?thesis
    using move_ready_eq [OF q assms(2)] ready_run_le(1) ready_run_numbers m by (intro exI [of _ ?n] conjI) blast+
qed

definition kcp1 :: ikcpcb where
  "kcp1 = kcp0\<lparr>rcv_buf := [push_seg 0 0 [1], push_seg 1 0 [2], push_seg 3 0 [4]], nrcv_buf := 3\<rparr>"

lemma kcp1_inv: "kcp_inv kcp1"
  using kcp0_inv by (simp add: kcp1_def kcp_inv_defs kcp0_fields push_seg_def fresh_seg_def off_def seg_ok_def)

lemma move_ready_longest_run_witness:
  "rcv_queue (move_ready kcp1) = [push_seg 0 0 [1], push_seg 1 0 [2]] \<and> rcv_nxt (move_ready kcp1) = 2"
proof -
  have f: "rcv_queue kcp1 = []" "rcv_nxt kcp1 = 0" "length (rcv_buf kcp1) = 3" "rcv_wnd kcp1 = 32"
    "rcv_buf kcp1 = [push_seg 0 0 [1], push_seg 1 0 [2], push_seg 3 0 [4]]"
    by (simp_all add: kcp1_def kcp0_fields)
  obtain n where n: "n \<le> 3" "\<forall>i < n. sn (rcv_buf kcp1 ! i) = word_of_nat i"
    "n < 3 \<Longrightarrow> sn (rcv_buf kcp1 ! n) \<noteq> word_of_nat n \<or> n \<ge> 32"
    "rcv_queue (move_ready kcp1) = take n (rcv_buf kcp1)" "rcv_nxt (move_ready kcp1) = word_of_nat n"
  proof -
    have "length (rcv_queue kcp1) + length (rcv_buf kcp1) < 2 ^ 32" by (simp add: f)
    from move_ready_longest_run [OF kcp1_inv this] show thesis
      unfolding f(1-4) by (elim exE conjE) (rule that, simp_all)
  qed
  consider "n = 0" | "n = 1" | "n = 2" | "n = 3" using n(1) by linarith
  then have "n = 2"
  proof cases
    case 4
    then show ?thesis using n(2) by (auto simp: f(5) push_seg_def dest: spec [of _ 2])
  qed (use n(3) in \<open>auto simp: f(5) push_seg_def\<close>)
  then show ?thesis using n by (simp add: f(5))
qed

text \<open>A cumulative acknowledgement \<open>una\<close> up to half the sequence space ahead
  removes exactly the segments in flight before it, and keeps the order of the others.\<close>

lemma parse_una_removes_acknowledged:
  assumes "kcp_inv k" "unat (u - snd_una k) < 2 ^ 31"
  shows "snd_buf (ikcp_parse_una k u) = filter (\<lambda>s. unat (u - snd_una k) \<le> unat (sn s - snd_una k)) (snd_buf k)"
  using parse_una_window [OF sndwin_in_window [OF assms(1)] _ assms(2)] assms(1)
  by (simp add: ikcp_parse_una_def parse_una_loop_eq off_def kcp_inv_defs)

definition kcp2 :: ikcpcb where
  "kcp2 = kcp0\<lparr>snd_buf := [push_seg 0 0 [1], push_seg 1 0 [2], push_seg 2 0 [3]], nsnd_buf := 3, snd_nxt := 3,
     current := 100\<rparr>"

lemma kcp2_inv: "kcp_inv kcp2"
  using kcp0_inv
  by (simp add: kcp2_def kcp_inv_defs kcp0_fields push_seg_def fresh_seg_def off_def seg_ok_def)
     (simp add: kcp0_def ikcp_create_def ikcp_setoutput_def)

lemma kcp2_una: "snd_una kcp2 = 0"
  by (simp add: kcp2_def kcp0_def ikcp_create_def ikcp_setoutput_def)

lemma parse_una_removes_acknowledged_witness:
  "snd_buf (ikcp_parse_una kcp2 2) = [push_seg 2 0 [3]]"
  using parse_una_removes_acknowledged [OF kcp2_inv, of 2]
  by (simp add: kcp2_una) (simp add: kcp2_def push_seg_def)

text \<open>A selective acknowledgement removes exactly the segment with its number; one
  that matches no segment in flight changes nothing.\<close>

lemma parse_ack_removes_one:
  assumes "kcp_inv k"
  shows "snd_buf (ikcp_parse_ack k u) = filter (\<lambda>s. sn s \<noteq> u) (snd_buf k)"
  using parse_ack_filter [OF assms] .

lemma parse_ack_removes_one_witness:
  "snd_buf (ikcp_parse_ack kcp2 1) = [push_seg 0 0 [1], push_seg 2 0 [3]]"
  using parse_ack_removes_one [OF kcp2_inv, of 1] by (simp add: kcp2_def push_seg_def)

text \<open>C15 (bounds): after a round-trip sample the retransmission timeout is at least the configured
  minimum and at most \<open>IKCP_RTO_MAX\<close> (60 s), whatever the sample; the sample may come from a
  forged timestamp.\<close>

theorem update_ack_bounds_rto:
  assumes "kcp_inv k"
  shows "rx_minrto k \<le> rx_rto (ikcp_update_ack k rtt) \<and> unat (rx_rto (ikcp_update_ack k rtt)) \<le> 60000"
  using assms by (intro update_ack_rto_bounds) (simp add: kcp_inv_def)

theorem update_ack_bounds_rto_witness: "unat (rx_rto (ikcp_update_ack kcp0 0xfffffff0)) \<le> 60000"
  using update_ack_bounds_rto [OF kcp0_inv] by blast

text \<open>While the numbers stay below 2^28, the 32-bit integer code computes the
  smoothed estimates of the textbook: the mean moves an eighth of the way to the sample, the
  deviation a quarter of the way to the distance, both rounded down, and the mean is never zero.\<close>

lemma update_ack_smooths:
  assumes "rx_srtt k \<noteq> 0" "unat rtt < 2 ^ 28" "unat (rx_srtt k) < 2 ^ 28" "unat (rx_rttval k) < 2 ^ 28"
  shows "int (unat (rx_srtt (ikcp_update_ack k rtt))) = max 1 ((7 * int (unat (rx_srtt k)) + int (unat rtt)) div 8)
    \<and> int (unat (rx_rttval (ikcp_update_ack k rtt))) =
        (3 * int (unat (rx_rttval k)) + \<bar>int (unat rtt) - int (unat (rx_srtt k))\<bar>) div 4"
proof -
  have "int (if a < b then b - a else a - b) = \<bar>int a - int b\<bar>" for a b :: nat by auto
  then show ?thesis
    using update_ack_later [OF assms] by (simp add: zdiv_int of_nat_max)
qed

lemma update_ack_smooths_witness:
  "int (unat (rx_srtt (ikcp_update_ack (kcp0\<lparr>rx_srtt := 80, rx_rttval := 40\<rparr>) 120))) = 85
   \<and> int (unat (rx_rttval (ikcp_update_ack (kcp0\<lparr>rx_srtt := 80, rx_rttval := 40\<rparr>) 120))) = 40"
  using update_ack_smooths [of "kcp0\<lparr>rx_srtt := 80, rx_rttval := 40\<rparr>" 120] by simp

text \<open>C14 (equivalence): the backward search of \<open>ikcp_parse_data\<close> is sorted insertion without
  duplicates: a segment inside the receive window goes to its place in the order of sequence
  numbers unless its number is there already, and one outside the window is dropped.\<close>

theorem parse_data_is_insertion:
  assumes "kcp_inv k"
  shows "ikcp_parse_data k s =
    (if \<not> unat (sn s - rcv_nxt k) < unat (rcv_wnd k) then k
     else if sn s \<in> sn ` set (rcv_buf k) then move_ready k
     else move_ready (k\<lparr>rcv_buf := insort_key (\<lambda>x. unat (sn x - rcv_nxt k)) s (rcv_buf k), nrcv_buf := nrcv_buf k + 1\<rparr>))"
proof -
  have o: "(\<lambda>x. unat (sn x - rcv_nxt k)) = off (rcv_nxt k)" by (simp add: fun_eq_iff off_def)
  show ?thesis
    using parse_data_outside [OF assms, of s] parse_data_inside [OF assms, of s] unfolding o
    by (auto simp: in_rcv_window_def)
qed

theorem parse_data_is_insertion_witness:
  "ikcp_parse_data kcp1 (push_seg 2 0 [3]) = move_ready (kcp1\<lparr>rcv_buf :=
      [push_seg 0 0 [1], push_seg 1 0 [2], push_seg 2 0 [3], push_seg 3 0 [4]], nrcv_buf := 4\<rparr>)"
proof -
  have f: "rcv_nxt kcp1 = 0" "rcv_wnd kcp1 = 32" "nrcv_buf kcp1 + 1 = 4"
    "rcv_buf kcp1 = [push_seg 0 0 [1], push_seg 1 0 [2], push_seg 3 0 [4]]"
    by (simp_all add: kcp1_def kcp0_fields)
  have n: "sn (push_seg a b c) = a" for a b c by (simp add: push_seg_def)
  show ?thesis using parse_data_is_insertion [OF kcp1_inv, of "push_seg 2 0 [3]"] by (simp add: f n)
qed

text \<open>C6 (safety): \<open>ikcp_input\<close> accepts any bytes: with allocations that succeed it returns
  normally on every datagram, however malformed, never reads past its end, and keeps all
  invariants.\<close>

theorem input_survives_any_datagram:
  assumes "kcp_inv k" "unat (ackcount k) + length p div 24 < 2 ^ 30"
  shows "\<exists>n k'. ikcp_input (\<lambda>_ _. True) k (Some p) = Inr (n, k') \<and> kcp_inv k'"
  using ikcp_input_total [OF assms] ikcp_input_inv [OF assms] by blast

theorem input_survives_any_datagram_witness:
  "\<exists>n k'. ikcp_input (\<lambda>_ _. True) kcp1 (Some (replicate 1400 0xff)) = Inr (n, k') \<and> kcp_inv k'"
proof -
  have "unat (ackcount kcp1) + length (replicate 1400 (0xff :: u8)) div 24 < 2 ^ 30"
    by (simp add: kcp1_def kcp0_fields)
  from input_survives_any_datagram [OF kcp1_inv this] show ?thesis .
qed

text \<open>C7 (functional): a flush never overruns its buffer and hands the callback exactly these pieces, in
  this order and each whole, packed into non-empty datagrams of at most one MTU: a header for every
  pending acknowledgement; a window request when one is marked or the closed window of the peer was
  waited for; a window announcement when one is marked; every segment in flight that was never
  sent, whose retransmission time has come or that was skipped as often as the fast retransmission
  asks, and no other; then as much of the queue as the windows leave room for, numbered on. Each
  header announces the free slots of the receive queue and the next number expected. Exactly the
  segments sent count one transmission more, the acknowledgements are forgotten and all invariants kept.\<close>

theorem flush_sends_due_pieces:
  assumes "kcp_inv k" "output_set k" "unat (ackcount k) < 2 ^ 30"
  shows "\<exists>k' ds. ikcp_flush k = Inr (k', map concat ds)
    \<and> concat ds = map (control_of k 82) (acks k)
         @ (if asks_window k then [control_of k 83 (last_ack k)] else [])
         @ (if tells_window k then [control_of k 84 (last_ack k)] else [])
         @ map (segment_of k) (filter (seg_is_due k) (snd_buf k)) @ map (segment_of k) (newly_sent k)
    \<and> (\<forall>d \<in> set (map concat ds). 0 < length d \<and> length d \<le> unat (mtu k))
    \<and> snd_queue k' = drop (new_count k) (snd_queue k)
    \<and> map (\<lambda>s. (sn s, data s, xmit s)) (snd_buf k')
      = map (\<lambda>s. (sn s, data s, if seg_is_due k s then xmit s + 1 else xmit s)) (snd_buf k)
        @ map (\<lambda>s. (sn s, data s, 1)) (newly_sent k)
    \<and> ackcount k' = 0 \<and> kcp_inv k'"
  using flush_sends_expected [OF assms] unfolding expected_pieces_def by blast

text \<open>A control block with an acknowledgement pending, a window announcement marked, a segment that timed
  out, one that did not, and one in the queue.\<close>

definition kcp_busy :: ikcpcb where
  "kcp_busy = kcp0\<lparr>current := 1000, acklist := [5, 900], ackcount := 1, ackblock := 1, probe := 2, nocwnd := 1,
     snd_buf := [(push_seg 0 0 [10])\<lparr>xmit := 1, resendts := 990\<rparr>, (push_seg 1 0 [11])\<lparr>xmit := 1, resendts := 1200\<rparr>],
     nsnd_buf := 2, snd_nxt := 2, snd_queue := [fresh_seg [12]], nsnd_que := 1\<rparr>"

lemma kcp_busy_inv: "kcp_inv kcp_busy" "output_set kcp_busy" "ackcount kcp_busy = 1"
proof -
  have k: "snd_una kcp0 = 0" "rmt_wnd kcp0 = 32" by (simp_all add: kcp0_def ikcp_create_def ikcp_setoutput_def ikcp_consts)
  show "kcp_inv kcp_busy"
    using kcp0_inv by (simp add: kcp_busy_def kcp_inv_defs kcp0_fields k push_seg_def fresh_seg_def seg_ok_def off_def)
  show "output_set kcp_busy" "ackcount kcp_busy = 1" by (simp_all add: kcp_busy_def kcp0_fields)
qed

theorem flush_sends_due_pieces_witness:
  "\<exists>k' ds. ikcp_flush kcp_busy = Inr (k', map concat ds)
    \<and> concat ds =
      [[7,0,0,0, 82, 0, 32,0, 132,3,0,0, 5,0,0,0, 0,0,0,0, 0,0,0,0],
       [7,0,0,0, 84, 0, 32,0, 132,3,0,0, 5,0,0,0, 0,0,0,0, 0,0,0,0],
       [7,0,0,0, 81, 0, 32,0, 232,3,0,0, 0,0,0,0, 0,0,0,0, 1,0,0,0, 10],
       [7,0,0,0, 81, 0, 32,0, 232,3,0,0, 2,0,0,0, 0,0,0,0, 1,0,0,0, 12]]
    \<and> map (\<lambda>s. (sn s, xmit s)) (snd_buf k') = [(0, 2), (1, 1), (2, 1)] \<and> snd_queue k' = []"
proof -
  have s: "acks kcp_busy = [(5, 900)]" "last_ack kcp_busy = (5, 900)" "\<not> asks_window kcp_busy" "tells_window kcp_busy" "new_count kcp_busy = 1"
    by (simp_all add: kcp_busy_def kcp0_def ikcp_create_def ikcp_setoutput_def acks_def last_ack_def asks_window_def tells_window_def
        new_count_def send_limit_def ikcp_consts)
  have w: "free_slots kcp_busy = 32" "kconv kcp_busy = 7" "rcv_nxt kcp_busy = 0" "current kcp_busy = 1000"
    by (simp_all add: kcp_busy_def kcp0_def ikcp_create_def ikcp_setoutput_def free_slots_def ikcp_consts)
  have n: "newly_sent kcp_busy = [(fresh_seg [12])\<lparr>conv := 7, cmd := 81, sn := 2\<rparr>]" "snd_queue kcp_busy = [fresh_seg [12]]"
    unfolding newly_sent_def s by (simp_all add: kcp_busy_def kcp0_def ikcp_create_def ikcp_setoutput_def)
  have d: "snd_buf kcp_busy = [(push_seg 0 0 [10])\<lparr>xmit := 1, resendts := 990\<rparr>, (push_seg 1 0 [11])\<lparr>xmit := 1, resendts := 1200\<rparr>]"
    "seg_is_due kcp_busy ((push_seg 0 0 [10])\<lparr>xmit := 1, resendts := 990\<rparr>)"
    "\<not> seg_is_due kcp_busy ((push_seg 1 0 [11])\<lparr>xmit := 1, resendts := 1200\<rparr>)"
    by (simp_all add: kcp_busy_def kcp0_def ikcp_create_def ikcp_setoutput_def seg_is_due_def push_seg_def fresh_seg_def)
  have p: "sn (push_seg n f b) = n" "data (push_seg n f b) = b" "conv (push_seg n f b) = 7" "cmd (push_seg n f b) = 81"
    "frg (push_seg n f b) = f" "len (push_seg n f b) = word_of_nat (length b)" for n f b
    by (simp_all add: push_seg_def fresh_seg_def IKCP_CMD_PUSH_def)
  have out: "map (segment_of kcp_busy) (filter (seg_is_due kcp_busy) (snd_buf kcp_busy))
      = [[7,0,0,0, 81, 0, 32,0, 232,3,0,0, 0,0,0,0, 0,0,0,0, 1,0,0,0, 10]]"
    unfolding d(1) using d(2,3) by (simp add: segment_of_def w p header_bytes_def le2_def le4_def)
  have new: "map (segment_of kcp_busy) (newly_sent kcp_busy) = [[7,0,0,0, 81, 0, 32,0, 232,3,0,0, 2,0,0,0, 0,0,0,0, 1,0,0,0, 12]]"
    by (simp add: n segment_of_def w fresh_seg_def header_bytes_def le2_def le4_def)
  have ctl: "control_of kcp_busy c (5, 900) = [7,0,0,0, c, 0, 32,0, 132,3,0,0, 5,0,0,0, 0,0,0,0, 0,0,0,0]" for c
    by (simp add: control_of_def w header_bytes_def le2_def le4_def)
  obtain k' ds where f: "ikcp_flush kcp_busy = Inr (k', map concat ds)"
    "concat ds = map (control_of kcp_busy 82) (acks kcp_busy)
         @ (if asks_window kcp_busy then [control_of kcp_busy 83 (last_ack kcp_busy)] else [])
         @ (if tells_window kcp_busy then [control_of kcp_busy 84 (last_ack kcp_busy)] else [])
         @ map (segment_of kcp_busy) (filter (seg_is_due kcp_busy) (snd_buf kcp_busy)) @ map (segment_of kcp_busy) (newly_sent kcp_busy)"
    "snd_queue k' = drop (new_count kcp_busy) (snd_queue kcp_busy)"
    "map (\<lambda>s. (sn s, data s, xmit s)) (snd_buf k')
      = map (\<lambda>s. (sn s, data s, if seg_is_due kcp_busy s then xmit s + 1 else xmit s)) (snd_buf kcp_busy)
        @ map (\<lambda>s. (sn s, data s, 1)) (newly_sent kcp_busy)"
    using flush_sends_due_pieces [OF kcp_busy_inv(1,2)] kcp_busy_inv(3) by auto
  have "map (\<lambda>s. (sn s, data s, xmit s)) (snd_buf k') = [(0, [10], 2), (1, [11], 1), (2, [12], 1)]"
    unfolding f(4) d(1) n(1) using d(2,3) by (simp add: p fresh_seg_def)
  then have "map ((\<lambda>(a, b, c). (a, c)) \<circ> (\<lambda>s. (sn s, data s, xmit s))) (snd_buf k') = [(0, 2), (1, 1), (2, 1)]"
    by (metis (no_types, lifting) list.simps(8,9) map_map old.prod.case)
  moreover have "concat ds = [control_of kcp_busy 82 (5, 900), control_of kcp_busy 84 (5, 900)]
      @ [[7,0,0,0, 81, 0, 32,0, 232,3,0,0, 0,0,0,0, 0,0,0,0, 1,0,0,0, 10]]
      @ [[7,0,0,0, 81, 0, 32,0, 232,3,0,0, 2,0,0,0, 0,0,0,0, 1,0,0,0, 12]]"
    unfolding f(2) out new using s by simp
  moreover have "snd_queue k' = []" using f(3) s(5) n(2) by simp
  ultimately show ?thesis using f(1) by (intro exI [of _ k'] exI [of _ ds]) (simp add: ctl comp_def)
qed

text \<open>A flush moves the front of the send queue into flight, as much as the
  window allows, with its payload, numbered consecutively from \<open>snd_nxt\<close>, and the window bounds
  what is in flight.\<close>

lemma flush_numbers_segments:
  assumes "kcp_inv k" "unat cw < 2 ^ 16"
  shows "\<exists>n \<le> length (snd_queue k). let k' = flush_move k w cw in
      snd_queue k' = drop n (snd_queue k)
    \<and> map data (snd_buf k') = map data (snd_buf k) @ map data (take n (snd_queue k))
    \<and> map sn (snd_buf k') = map sn (snd_buf k) @ map (\<lambda>i. snd_nxt k + word_of_nat i) [0..<n]
    \<and> snd_nxt k' = snd_nxt k + word_of_nat n
    \<and> (n = length (snd_queue k) \<or> unat (snd_nxt k - snd_una k) + n \<ge> unat cw)
    \<and> (n > 0 \<longrightarrow> unat (snd_nxt k - snd_una k) + n \<le> unat cw)"
proof -
  let ?n = "move_count k cw"
  have "?n \<le> length (snd_queue k)"
    "?n = length (snd_queue k) \<or> unat (snd_nxt k - snd_una k) + ?n \<ge> unat cw"
    "?n > 0 \<longrightarrow> unat (snd_nxt k - snd_una k) + ?n \<le> unat cw"
    unfolding move_count_def by linarith+
  with flush_move_spec [OF assms, of w] show ?thesis
    unfolding Let_def by (intro exI [of _ ?n]) blast
qed

definition kcp3 :: ikcpcb where
  "kcp3 = kcp0\<lparr>snd_queue := [fresh_seg [1], fresh_seg [2]], nsnd_que := 2\<rparr>"

lemma kcp3_inv: "kcp_inv kcp3"
  using kcp0_inv by (simp add: kcp3_def kcp_inv_defs kcp0_fields fresh_seg_def seg_ok_def)

lemma flush_numbers_segments_witness:
  "map sn (snd_buf (flush_move kcp3 32 1)) = [0] \<and> map data (snd_buf (flush_move kcp3 32 1)) = [[1]]
   \<and> snd_nxt (flush_move kcp3 32 1) = 1"
proof -
  have f: "snd_queue kcp3 = [fresh_seg [1], fresh_seg [2]]" "snd_buf kcp3 = []" "snd_nxt kcp3 = 0" "snd_una kcp3 = 0"
    by (simp_all add: kcp3_def kcp0_def ikcp_create_def ikcp_setoutput_def)
  have w: "unat (1 :: u32) < 2 ^ 16" by simp
  obtain n where n: "n \<le> 2" "map data (snd_buf (flush_move kcp3 32 1)) = map data (take n [fresh_seg [1], fresh_seg [2]])"
    "map sn (snd_buf (flush_move kcp3 32 1)) = map word_of_nat [0..<n]" "snd_nxt (flush_move kcp3 32 1) = word_of_nat n"
    "n = 2 \<or> n \<ge> 1" "n > 0 \<longrightarrow> n \<le> 1"
    using flush_numbers_segments [OF kcp3_inv w, of 32, unfolded Let_def f]
    by (elim exE conjE) (rule that, simp_all add: numeral_2_eq_2)
  then have "n = 1" by auto
  then show ?thesis using n by (simp add: f fresh_seg_def)
qed



text \<open>C16 (bounds): \<open>ikcp_check\<close> answers "now" exactly when a flush or a retransmission is due;
  otherwise the time it names is at most one interval away and not later than the next flush or the
  retransmission of any segment in flight, also when the 32-bit clock wraps around.\<close>

theorem check_never_oversleeps:
  assumes "kcp_inv k"
  shows "(ikcp_check k now = now \<longleftrightarrow> flush_overdue k now) \<and> unat (ikcp_check k now - now) \<le> unat (interval k)
    \<and> (ikcp_check k now \<noteq> now \<longrightarrow> int (unat (ikcp_check k now - now)) \<le> itimediff (ts_flush k) now
        \<and> (\<forall>s \<in> set (snd_buf k). int (unat (ikcp_check k now - now)) \<le> itimediff (resendts s) now))"
  using check_spec [OF assms] .

theorem check_never_oversleeps_witness:
  "ikcp_check (kcp0\<lparr>updated := 1, ts_flush := 3\<rparr>) 0xfffffff0 \<noteq> 0xfffffff0
   \<and> int (unat (ikcp_check (kcp0\<lparr>updated := 1, ts_flush := 3\<rparr>) 0xfffffff0 - 0xfffffff0)) \<le> 19"
proof -
  let ?k = "kcp0\<lparr>updated := 1, ts_flush := 3\<rparr>"
  have i: "kcp_inv ?k" using kcp0_inv by (simp add: kcp_inv_defs)
  have d: "itimediff 3 0xfffffff0 = 19" "itimediff 0xfffffff0 3 = -19" by (simp_all add: itimediff_def)
  have "\<not> flush_overdue ?k 0xfffffff0"
    by (simp add: flush_overdue_def Let_def d) (simp add: kcp0_def ikcp_create_def ikcp_setoutput_def)
  with check_never_oversleeps [OF i, of "0xfffffff0"] show ?thesis by (simp add: d)
qed

definition kcp_fast :: ikcpcb where
  "kcp_fast = snd (ikcp_nodelay kcp0 1 10 2 1)"

lemma kcp_fast_eq: "kcp_fast = kcp0\<lparr>nodelay := 1, rx_minrto := 30, interval := 10, fastresend := 2, nocwnd := 1\<rparr>"
  by (simp add: kcp_fast_def ikcp_nodelay_def clamp_interval_def ikcp_consts)

lemma kcp_fast_idle: "idle_tx kcp_fast" "mss kcp_fast = 1376" "unat (snd_nxt kcp_fast - snd_una kcp_fast) = 0" "send_limit kcp_fast = 32"
proof -
  have "kcp_inv kcp_fast" using nodelay_inv [OF kcp0_inv] by (simp add: kcp_fast_def)
  then show "idle_tx kcp_fast"
    by (simp add: idle_tx_def can_flush_def kcp_fast_eq kcp0_def ikcp_create_def ikcp_setoutput_def)
  show "mss kcp_fast = 1376" "unat (snd_nxt kcp_fast - snd_una kcp_fast) = 0" "send_limit kcp_fast = 32"
    by (simp_all add: kcp_fast_eq kcp0_def ikcp_create_def ikcp_setoutput_def send_limit_def ikcp_consts)
qed

lemma unat_flush_cwnd: "unat (flush_cwnd k) = send_limit k"
  by (auto simp: flush_cwnd_def send_limit_def imin_def Let_def word_less_nat_alt word_le_nat_alt min_def)

text \<open>C17 (error): lowering the MTU is not safe while a message is queued. When an idle sender with
  room in its windows has queued a message whose first segment, with its header of 24 bytes, is longer
  than three times the sum of the new MTU and 24, \<open>ikcp_setmtu\<close> to that MTU succeeds and the next
  flush writes past its output buffer.\<close>

theorem setmtu_overruns:
  assumes "idle_tx k" "unat (snd_nxt k - snd_una k) < send_limit k"
    and "length b < 2 ^ 31" "length (fragments (unat (mss k)) b) \<le> 255"
    and "50 \<le> m" "3 * (m + 24) < int (min (length b) (unat (mss k))) + 24"
  shows "\<exists>k1 k2. ikcp_send (\<lambda>_. True) k (Some b) (int (length b)) = Inr (0, k1)
     \<and> ikcp_setmtu True k1 m = (0, k2) \<and> ikcp_flush k2 = Inl BufferOverrun"
proof -
  let ?fs = "fragments (unat (mss k)) b"
  let ?k1 = "k\<lparr>snd_queue := frag_segs ?fs, nsnd_que := nsnd_que k + word_of_nat (length ?fs)\<rparr>"
  have k: "kcp_inv k" "stream k = 0" "snd_queue k = []" "snd_buf k = []" "output_set k" "unat (ackcount k) < 2 ^ 30"
    using assms(1) by (auto simp: idle_tx_def can_flush_def)
  have send: "ikcp_send (\<lambda>_. True) k (Some b) (int (length b)) = Inr (0, ?k1)"
    using ikcp_send_message [of "\<lambda>_. True" k b] k(1-3) assms(3,4) by (simp add: kcp_inv_def Let_def)
  have mss: "unat (mss k) < 2 ^ 30" using k(1) by (auto simp: kcp_inv_defs)
  then have small: "m < 2 ^ 30" using assms(6) by simp
  obtain c d where mtu: "ikcp_setmtu True ?k1 m = (0, ?k1\<lparr>mtu := c, mss := d, buffer_size := 3 * (nat m + 24)\<rparr>)"
    "mtu_inv (?k1\<lparr>mtu := c, mss := d, buffer_size := 3 * (nat m + 24)\<rparr>)"
    using setmtu_makes_buffer [OF assms(5) small, of ?k1] by blast
  let ?k2 = "?k1\<lparr>mtu := c, mss := d, buffer_size := 3 * (nat m + 24)\<rparr>"
  have pos: "unat (mss k) > 0" using k(1) by (auto simp: kcp_inv_defs)
  obtain q where "?fs = take (unat (mss k)) b # q"
    using pos by (cases "length b \<le> unat (mss k)") (auto simp: fragments.simps [of _ b])
  then have "frag_segs ?fs = ((fresh_seg (take (unat (mss k)) b))\<lparr>frg := word_of_nat (length q)\<rparr>) # frag_segs q" by simp
  moreover have "seg_ok ((fresh_seg (take (unat (mss k)) b))\<lparr>frg := word_of_nat (length q)\<rparr>)"
    using assms(3) by (simp add: seg_ok_def fresh_seg_def unat_word_of_nat_u32)
  ultimately obtain x q' where x: "frag_segs ?fs = x # q'" "data x = take (unat (mss k)) b" "seg_ok x"
    by (simp add: fresh_seg_def)
  have l: "length (data x) = min (length b) (unat (mss k))" by (simp add: x(2) min.commute)
  have "ikcp_flush ?k2 = Inl BufferOverrun"
  proof (rule oversized_flush)
    show "unat (snd_nxt ?k2 - snd_una ?k2) < unat (flush_cwnd ?k2)" using assms(2) by (auto simp: unat_flush_cwnd send_limit_def Let_def split: if_splits)
    have "int (3 * (nat m + 24)) < int (24 + length (data x))" using assms(5,6) unfolding l by simp
    then show "buffer_size ?k2 < 24 + length (data x)" by (simp only: of_nat_less_iff) simp
    show "length (data x) < 2 ^ 30" using mss l by simp
  qed (use k mtu(2) x in \<open>auto simp: kcp_inv_defs\<close>)
  then show ?thesis using send mtu(1) by blast
qed

theorem setmtu_overruns_witness:
  "\<exists>k1 k2. ikcp_send (\<lambda>_. True) kcp_fast (Some (replicate 2000 0)) 2000 = Inr (0, k1)
     \<and> ikcp_setmtu True k1 400 = (0, k2) \<and> ikcp_flush k2 = Inl BufferOverrun"
  using setmtu_overruns [OF kcp_fast_idle(1), of "replicate 2000 0" 400]
  by (simp add: kcp_fast_idle fragments_small fragments.simps)

section \<open>The connection\<close>

definition kcp_new :: ikcpcb where
  "kcp_new = the (ikcp_create (\<lambda>_. True) 7)"

definition link0 :: link where
  "link0 = \<lparr>tx = kcp_fast, rx = kcp_new, net = [], sent = [], got = []\<rparr>"

lemma link0_reachable: "reachable link_start link_step link0"
proof -
  let ?s = "link0\<lparr>tx := kcp_new\<rparr>" and ?t = "link0\<lparr>tx := kcp0\<rparr>"
  have "link_start ?s" by (auto simp: link_start_def kcp_new_def link0_def ikcp_create_def)
  then have "reachable link_start link_step ?s" by (rule reach_start)
  moreover have "link_step ?s ?t" using link_tx_setoutput [of ?s True] by (simp add: kcp0_def kcp_new_def)
  ultimately have t: "reachable link_start link_step ?t" by (rule reach_step)
  have "tuned kcp0 kcp_fast" unfolding kcp_fast_def by (rule tune_nodelay)
  then have "link_step ?t (?t\<lparr>tx := kcp_fast\<rparr>)" by (intro link_tx_tune) simp
  from reach_step [OF t this] show ?thesis by (simp add: link0_def)
qed

lemma link0_idle: "idle_tx (tx link0)" "idle_rx (rx link0)" "kconv (rx link0) = kconv (tx link0)"
proof -
  have "kcp_inv kcp_fast" using nodelay_inv [OF kcp0_inv] by (simp add: kcp_fast_def)
  then show "idle_tx (tx link0)"
    by (simp add: link0_def idle_tx_def can_flush_def kcp_fast_eq kcp0_def ikcp_create_def ikcp_setoutput_def)
  have "kcp_inv kcp_new" unfolding kcp_new_def by (intro create_inv [of "\<lambda>_. True" 7]) (simp add: ikcp_create_def)
  then show "idle_rx (rx link0)" by (simp add: link0_def idle_rx_def kcp_new_def ikcp_create_def)
  show "kconv (rx link0) = kconv (tx link0)"
    by (simp add: link0_def kcp_fast_eq kcp0_def kcp_new_def ikcp_create_def ikcp_setoutput_def)
qed

lemma link0_fits:
  "length (fragments (unat (mss (tx link0))) [1, 2, 3]) = 1" "unat (rcv_wnd (rx link0)) = 32"
  "unat (snd_nxt (tx link0) - snd_una (tx link0)) = 0" "unat (flush_cwnd (tx link0)) = 32" "sent link0 = []" "got link0 = []"
  by (simp_all add: link0_def kcp_fast_eq kcp0_def kcp_new_def ikcp_create_def ikcp_setoutput_def fragments_small
      flush_cwnd_def imin_def ikcp_consts)

text \<open>C1 (refinement): whatever the network does to the datagrams of the sender (lose, repeat,
  reorder, delay) and whatever bytes anyone feeds the sender, a connection of two endpoints is a
  reliable channel: every step of it is a step of the channel or changes nothing there, and what
  the receiving application has read is a prefix of the messages sent, in order, each once and
  unchanged, as long as fewer than 2^31 segments are sent.\<close>

theorem connection_is_reliable_channel:
  assumes "reachable link_start link_step s"
  shows "reachable chan_start chan_step (link_abs s) \<and> (\<exists>todo. sent s = got s @ todo)"
proof -
  have r: "reachable chan_start chan_step (link_abs s)" using lnk.abs_reachable [OF assms] .
  from chm.inv_reachable [OF r] r show ?thesis by (simp add: chan_inv_def link_abs_def)
qed

theorem connection_is_reliable_channel_witness:
  "\<exists>s. reachable link_start link_step s \<and> got s = [[1, 2, 3]] \<and> (\<exists>todo. sent s = got s @ todo)"
proof -
  obtain k2 out k4 where t: "reachable link_start link_step
      (link0\<lparr>tx := k2, rx := k4, net := net link0 @ out, sent := sent link0 @ [[1, 2, 3]], got := got link0 @ [[1, 2, 3]]\<rparr>)"
    using idle_link_delivers [OF link0_reachable link0_idle(1,2) _ link0_idle(3), of "[1, 2, 3]"] by (auto simp: link0_fits)
  from connection_is_reliable_channel [OF t] t show ?thesis by (force simp: link0_fits)
qed

text \<open>C5 (liveness): from any reachable state of the connection in which both endpoints are idle and
  everything sent has been read, a message that fits the windows is delivered by this run: one
  \<open>ikcp_send\<close>, one \<open>ikcp_flush\<close>, the datagrams of that flush handed to the receiver in order, and one
  \<open>ikcp_recv\<close>, which returns the message. The state after it, in which the message is the last one
  sent and the last one read and nothing else changed but the endpoints and the datagrams on the
  network, is reachable again.\<close>

theorem idle_connection_delivers:
  assumes "reachable link_start link_step s" "idle_tx (tx s)" "idle_rx (rx s)" "sent s = got s"
    "kconv (rx s) = kconv (tx s)" "length b < 2 ^ 31"
    "length (fragments (unat (mss (tx s))) b) \<le> min 255 (unat (rcv_wnd (rx s)))"
    "unat (snd_nxt (tx s) - snd_una (tx s)) + length (fragments (unat (mss (tx s))) b) \<le> send_limit (tx s)"
    "length (log_of (unat (mss (tx s))) (sent s @ [b])) \<le> 2 ^ 31"
  shows "\<exists>k1 k2 out k3 k4. ikcp_send (\<lambda>_. True) (tx s) (Some b) (int (length b)) = Inr (0, k1)
    \<and> ikcp_flush k1 = Inr (k2, out) \<and> deliver_all (rx s) out = Inr k3
    \<and> ikcp_recv k3 True (int (length b)) = Inr (int (length b), b, k4)
    \<and> reachable link_start link_step
        (s\<lparr>tx := k2, rx := k4, net := net s @ out, sent := sent s @ [b], got := got s @ [b]\<rparr>)"
  using assms by (intro idle_link_delivers) (simp_all add: unat_flush_cwnd)

theorem idle_connection_delivers_witness:
  "\<exists>k1 k2 out k3 k4. ikcp_send (\<lambda>_. True) kcp_fast (Some [1, 2, 3]) 3 = Inr (0, k1)
    \<and> ikcp_flush k1 = Inr (k2, out) \<and> deliver_all kcp_new out = Inr k3 \<and> ikcp_recv k3 True 3 = Inr (3, [1, 2, 3], k4)"
proof -
  have e: "tx link0 = kcp_fast" "rx link0 = kcp_new" by (simp_all add: link0_def)
  have f: "unat (snd_nxt (tx link0) - snd_una (tx link0)) + length (fragments (unat (mss (tx link0))) [1, 2, 3]) \<le> send_limit (tx link0)"
    using kcp_fast_idle(4) by (simp add: link0_fits e(1) [symmetric])
  have l: "length [1, 2, 3 :: u8] < 2 ^ 31" by simp
  have g: "length (fragments (unat (mss (tx link0))) [1, 2, 3]) \<le> min 255 (unat (rcv_wnd (rx link0)))"
    by (simp add: link0_fits)
  have h: "sent link0 = got link0" "length (log_of (unat (mss (tx link0))) (sent link0 @ [[1, 2, 3]])) \<le> 2 ^ 31"
    by (simp_all add: link0_fits)
  from idle_connection_delivers [OF link0_reachable link0_idle(1,2) h(1) link0_idle(3) l g f h(2)]
  show ?thesis unfolding e by auto
qed

end
