(* ===== verification/Kcp_Keeps.thy ===== *)
theory Kcp_Keeps
  imports Kcp_Frame
begin

text \<open>
  What no call but the setters changes: the configuration of a control block (\<open>cfg\<close>), and the
  front of its receive queue, which only \<open>ikcp_recv\<close> takes from (\<open>rx_grows\<close>). A relation
  that is reflexive, transitive and kept by one segment of a datagram is kept by \<open>ikcp_input\<close>.
\<close>

definition cfg :: "ikcpcb \<Rightarrow> bool \<times> u32 \<times> u32 \<times> int \<times> u32 \<times> u32 \<times> int" where
  "cfg k = (output_set k, mtu k, mss k, stream k, rcv_wnd k, snd_wnd k, nocwnd k)"

definition rx_grows :: "ikcpcb \<Rightarrow> ikcpcb \<Rightarrow> bool" where
  "rx_grows k k' \<longleftrightarrow> (\<exists>t. rcv_queue k' = rcv_queue k @ t)"

definition keeps :: "ikcpcb \<Rightarrow> ikcpcb \<Rightarrow> bool" where
  "keeps k k' \<longleftrightarrow> cfg k' = cfg k \<and> rx_grows k k'"

lemma keeps_refl [simp]: "keeps k k"
  by (simp add: keeps_def rx_grows_def)

lemma keeps_trans: "keeps k k' \<Longrightarrow> keeps k' k'' \<Longrightarrow> keeps k k''"
  by (auto simp: keeps_def rx_grows_def)

lemma keeps_same: "cfg k' = cfg k \<Longrightarrow> rcv_queue k' = rcv_queue k \<Longrightarrow> keeps k k'"
  by (simp add: keeps_def rx_grows_def)

section \<open>The steps of the input loop\<close>

lemma cfg_steps [simp]:
  "cfg (ikcp_shrink_buf k) = cfg k" "cfg (ikcp_parse_una k u) = cfg k" "cfg (ikcp_parse_ack k u) = cfg k"
  "cfg (ikcp_update_ack k r) = cfg k" "cfg (ikcp_parse_fastack k u) = cfg k" "cfg (seg_start k h) = cfg k"
proof -
  show 1: "cfg (ikcp_shrink_buf k) = cfg k" for k by (simp add: cfg_def ikcp_shrink_buf_def split: list.split)
  have 2: "cfg (ikcp_parse_una k v) = cfg k" for k v by (simp add: cfg_def ikcp_parse_una_def split: prod.split)
  then show "cfg (ikcp_parse_una k u) = cfg k" .
  show "cfg (ikcp_parse_ack k u) = cfg k" by (simp add: cfg_def ikcp_parse_ack_def split: prod.split)
  show "cfg (ikcp_update_ack k r) = cfg k" using update_ack_eq [of k r] by (auto simp: cfg_def)
  show "cfg (ikcp_parse_fastack k u) = cfg k" by (simp add: cfg_def ikcp_parse_fastack_def)
  show "cfg (seg_start k h) = cfg k"
    unfolding seg_start_def 1 2 by (simp add: cfg_def)
qed

lemma input_ack_keeps: "keeps k (fst (input_ack k f m s t))"
  using input_ack_frames [of k f m s t]
  by (intro keeps_same) (auto simp: rx_same_def input_ack_def Let_def)

lemma move_ready_keeps: "keeps k (move_ready k)"
proof (induction k rule: move_ready.induct)
  case (1 k)
  show ?case
  proof (cases "rcv_buf k")
    case Nil
    then show ?thesis by (simp add: move_ready.simps [of k])
  next
    case (Cons s q)
    let ?k = "k\<lparr>rcv_buf := q, nrcv_buf := nrcv_buf k - 1, rcv_queue := rcv_queue k @ [s],
               nrcv_que := nrcv_que k + 1, rcv_nxt := rcv_nxt k + 1\<rparr>"
    have "keeps k ?k" by (simp add: keeps_def rx_grows_def cfg_def)
    then show ?thesis using "1.IH" [OF Cons] Cons
      by (auto simp: move_ready.simps [of k] intro: keeps_trans)
  qed
qed

lemma parse_data_keeps: "keeps k (ikcp_parse_data k s)"
proof -
  have "keeps k (k\<lparr>rcv_buf := a, nrcv_buf := b\<rparr>)" for a b by (intro keeps_same) (simp_all add: cfg_def)
  then have "keeps k (move_ready (k\<lparr>rcv_buf := a, nrcv_buf := b\<rparr>))" for a b
    using move_ready_keeps keeps_trans by blast
  then show ?thesis
    unfolding ikcp_parse_data_def Let_def by (auto intro: move_ready_keeps split: prod.split)
qed

lemma ack_push_keeps: "ikcp_ack_push ok k s t = Inr k' \<Longrightarrow> keeps k k'"
  unfolding ikcp_ack_push_def ack_grow_def Let_def
  by (intro keeps_same) (auto simp: cfg_def split: if_splits sum.splits)

lemma input_push_keeps:
  assumes "input_push ok k h p = Inr k'" shows "keeps k k'"
  using assms unfolding input_push_def
  by (auto split: if_splits sum.splits dest!: ack_push_keeps intro: keeps_trans parse_data_keeps)

lemma input_seg_keeps:
  assumes "input_seg ok h p st = Inr st'" shows "keeps (fst st) (fst st')"
proof -
  obtain k flag m where st: "st = (k, flag, m)" by (cases st)
  let ?k = "seg_start k h"
  have s: "keeps k ?k" using seg_start_frames [of k h] by (intro keeps_same) (simp_all add: rx_same_def)
  have p: "keeps ?k (?k\<lparr>probe := x\<rparr>)" for x by (intro keeps_same) (simp_all add: cfg_def)
  have "keeps ?k (fst st')"
    using assms unfolding st input_seg_eq
    by (auto split: if_splits sum.splits dest: input_push_keeps intro: p
        simp: input_ack_keeps [unfolded fst_conv])
  with s show ?thesis by (simp add: st keeps_trans [OF s])
qed

text \<open>From one segment to the whole datagram.\<close>

lemma input_loop_rel:
  assumes self: "\<And>k. R k k" and trans: "\<And>a b c. R a b \<Longrightarrow> R b c \<Longrightarrow> R a c"
    and seg: "\<And>ok h p st st'. input_seg ok h p st = Inr st' \<Longrightarrow> R (fst st) (fst st')"
  shows "input_loop ok i p st = Inr (r, st') \<Longrightarrow> R (fst st) (fst st')"
proof (induction ok i p st rule: input_loop.induct)
  case (1 ok i p st)
  show ?case
  proof (cases rule: input_loop_cases [of p ok i st])
    case stop
    then show ?thesis using "1.prems" self by simp
  next
    case (refuse r')
    then show ?thesis using "1.prems" self by simp
  next
    case (step p1 h p2)
    then obtain st1 where s1: "input_seg (ok i) h p2 st = Inr st1" using "1.prems" by (auto split: sum.splits)
    have "input_loop ok (Suc i) (drop (unat (h_len h)) p2) st1 = Inr (r, st')"
      using "1.prems" step(6) s1 by simp
    moreover have "\<not> length p < unat IKCP_OVERHEAD" using step(5) by (simp add: ikcp_consts)
    ultimately have "R (fst st1) (fst st')"
      using "1.IH" [OF _ step(1) refl _ step(2) refl, of st1] step(3,4) s1 by simp
    then show ?thesis using seg [OF s1] trans by blast
  qed
qed

lemma input_cwnd_keeps: "keeps k (input_cwnd k u)"
  using input_cwnd_only [of k u] by (auto simp: cwnd_only_def cfg_def intro!: keeps_same)

lemma input_keeps:
  assumes "ikcp_input ok k dat = Inr (r, k')" shows "keeps k k'"
proof (cases "dat = None \<or> length (the dat) < 24")
  case True
  then show ?thesis using assms by (auto simp: ikcp_input_def split: option.splits)
next
  case False
  then obtain p where p: "dat = Some p" "\<not> length p < 24" by auto
  obtain r1 k1 f m where l: "input_loop ok 0 p (k, 0, 0) = Inr (r1, k1, f, m)"
    using assms p unfolding ikcp_input_def Let_def by (auto split: sum.splits)
  have 1: "keeps k k1"
    using input_loop_rel [of keeps, OF keeps_refl keeps_trans input_seg_keeps l] by simp
  show ?thesis
  proof (cases r1)
    case None
    let ?k2 = "if f \<noteq> 0 then ikcp_parse_fastack k1 m else k1"
    have "k' = input_cwnd ?k2 (snd_una k)" using assms p l None by (simp add: ikcp_input_def Let_def)
    moreover have "keeps k1 ?k2"
      using parse_fastack_frames [of k1 m] by (auto simp: rx_same_def intro: keeps_same)
    ultimately show ?thesis using 1 input_cwnd_keeps keeps_trans by metis
  next
    case (Some x)
    then have "k' = k1" using assms p l by (simp add: ikcp_input_def)
    with 1 show ?thesis by simp
  qed
qed

section \<open>Sending, flushing and reading\<close>

lemma keeps_queue [simp]:
  "keeps (k\<lparr>snd_queue := q, nsnd_que := m\<rparr>) k' \<longleftrightarrow> keeps k k'" "keeps (k\<lparr>snd_queue := q\<rparr>) k' \<longleftrightarrow> keeps k k'"
  "keeps k (k'\<lparr>snd_queue := q\<rparr>) \<longleftrightarrow> keeps k k'"
  by (simp_all add: keeps_def rx_grows_def cfg_def)

lemma send_frags_keeps: "send_frags ok a n k buf l = Inr (r, k') \<Longrightarrow> keeps k k'"
proof (induction ok a n k buf l rule: send_frags.induct)
  case (1 ok a k buf l)
  then show ?case by simp
next
  case (2 ok a n k buf l)
  then show ?case by (auto simp: Let_def split: if_splits sum.splits)
qed

lemma send_keeps: "ikcp_send ok k buf l = Inr (r, k') \<Longrightarrow> keeps k k'"
  unfolding ikcp_send_def send_extend_def Let_def
  by (auto simp del: send_frags.simps split: if_splits sum.splits dest!: send_frags_keeps)

lemma flush_keeps:
  assumes "kcp_inv k" "output_set k" "unat (ackcount k) < 2 ^ 30" "ikcp_flush k = Inr (k', out)"
  shows "rcv_queue k' = rcv_queue k \<and> output_set k' \<and> mss k' = mss k \<and> stream k' = stream k"
  using ikcp_flush_spec [OF assms(1-3)] flush_state [OF assms(4)] assms(4) by (auto simp: rx_same_def)

lemma recv_cfg:
  assumes "ikcp_recv k b l = Inr (r, out, k')" shows "cfg k' = cfg k"
proof -
  obtain k1 n o1 where m: "recv_merge (l < 0) b (rcv_queue k) k 0 [] = (k1, n, o1)" by (metis prod_cases3)
  have "cfg k1 = cfg k" using m unfolding recv_merge_eq by (auto simp: cfg_def split: if_splits)
  moreover have "cfg (k1\<lparr>probe := x\<rparr>) = cfg k1" for x k1 by (simp add: cfg_def)
  moreover have "k' = k \<or> k' = move_ready k1 \<or> k' = (move_ready k1)\<lparr>probe := probe (move_ready k1) OR IKCP_ASK_TELL\<rparr>"
    using assms unfolding ikcp_recv_def Let_def m by (auto split: if_splits)
  ultimately show ?thesis using move_ready_keeps [of k1] by (auto simp: keeps_def)
qed

section \<open>A message too long for the reader\<close>

text \<open>
  \<open>jammed\<close>: the message at the head of the receive queue is complete and longer than \<open>l\<close>
  bytes. A read into \<open>l\<close> bytes refuses it and leaves it there, and nothing that arrives later
  changes it.
\<close>

definition jammed :: "int \<Rightarrow> ikcpcb \<Rightarrow> bool" where
  "jammed l k \<longleftrightarrow> (\<exists>s \<in> set (rcv_queue k). frg s = 0) \<and> l < ikcp_peeksize k"

lemma first_msg_append: "\<exists>s \<in> set q. frg s = 0 \<Longrightarrow> first_msg (q @ t) = first_msg q"
  by (induction q) auto

lemma peeksize_grows:
  assumes "\<exists>s \<in> set (rcv_queue k). frg s = 0" "0 \<le> ikcp_peeksize k" "que_inv k" "que_inv k'" "rx_grows k k'"
  shows "ikcp_peeksize k' = ikcp_peeksize k"
proof -
  obtain t where t: "rcv_queue k' = rcv_queue k @ t" using assms(5) by (auto simp: rx_grows_def)
  obtain s q where q: "rcv_queue k = s # q" using assms(1) by (cases "rcv_queue k") auto
  have n: "nrcv_que k \<le> nrcv_que k'"
    using assms(3,4) t by (simp add: que_inv_def word_le_nat_alt)
  have f: "first_msg (s # q @ t) = first_msg (s # q)"
    using first_msg_append [OF assms(1), of t] q by simp
  show ?thesis
  proof (cases "frg s = 0")
    case True
    then show ?thesis by (simp add: ikcp_peeksize_def t q)
  next
    case False
    then have "\<not> nrcv_que k < frg s + 1" using assms(2) by (auto simp: ikcp_peeksize_def q)
    then have "\<not> nrcv_que k' < frg s + 1" using n by simp
    with \<open>\<not> nrcv_que k < frg s + 1\<close> False show ?thesis
      by (simp add: ikcp_peeksize_def t q peek_sum_eq f del: first_msg.simps peek_sum.simps)
  qed
qed

lemma jammed_grows: "jammed l k \<Longrightarrow> 0 \<le> l \<Longrightarrow> que_inv k \<Longrightarrow> que_inv k' \<Longrightarrow> rx_grows k k' \<Longrightarrow> jammed l k'"
  using peeksize_grows [of k k'] by (auto simp: jammed_def rx_grows_def)

lemma jammed_recv: "jammed l k \<Longrightarrow> 0 \<le> l \<Longrightarrow> ikcp_recv k b l = Inr (-3, [], k)"
  by (auto simp: jammed_def ikcp_recv_def Let_def)


end
