(* ===== verification/Wo_Aes.thy ===== *)
theory Wo_Aes
  imports Prelude
begin

text \<open>
  The AES-128-CBC wrapper of \<open>wo_aes.c\<close>: PKCS#7 padding, the initialisation of the two
  contexts, encryption and decryption of a buffer. The block cipher is the library mbedtls, which
  is a parameter: \<open>cbc_enc k v p\<close> and \<open>cbc_dec k v c\<close> are \<open>None\<close> when
  \<open>mbedtls_aes_crypt_cbc\<close> refuses the length (the code ignores that result and its output
  buffer stays as it was). Buffers are lists of their allocated size.
\<close>

definition AES_KEY_SIZE :: nat where "AES_KEY_SIZE = 16"
definition AES_BLOCK_SIZE :: nat where "AES_BLOCK_SIZE = 16"

datatype aes_opt_type =
  AES_OPT_TYPE_ENC_INIT | AES_OPT_TYPE_ENC_DEINIT | AES_OPT_TYPE_DEC_INIT | AES_OPT_TYPE_DEC_DEINIT

record aes_ctx =
  is_init :: int
  aes_key :: bytes
  aes_iv :: bytes

definition aes_ctx_zero :: aes_ctx where
  "aes_ctx_zero = \<lparr>is_init = 0, aes_key = replicate 16 0, aes_iv = replicate 16 0\<rparr>"

definition get_aes_enc_out_len :: "nat \<Rightarrow> nat" where
  "get_aes_enc_out_len in_len = AES_BLOCK_SIZE - in_len mod AES_BLOCK_SIZE + in_len"

section \<open>Padding\<close>

fun pad_loop :: "nat \<Rightarrow> nat \<Rightarrow> u8 \<Rightarrow> bytes \<Rightarrow> bytes result" where
  "pad_loop 0 at c dat = Inr dat"
| "pad_loop (Suc n) at c dat =
    (if at < length dat then pad_loop n (Suc at) c (dat[at := c]) else Inl BufferOverrun)"

definition aes_padding_pkcs7_set :: "bytes \<Rightarrow> nat \<Rightarrow> (nat \<times> bytes) result" where
  "aes_padding_pkcs7_set dat data_len =
    (let padding_len = AES_BLOCK_SIZE - data_len mod AES_BLOCK_SIZE
     in case pad_loop padding_len data_len (word_of_nat padding_len) dat of Inl e \<Rightarrow> Inl e
      | Inr dat \<Rightarrow> Inr (data_len + padding_len, dat))"

text \<open>The first loop, which may run in front of the buffer; \<open>False\<close> is its early return.\<close>

fun pad_match :: "bytes \<Rightarrow> nat \<Rightarrow> u8 \<Rightarrow> nat \<Rightarrow> nat \<Rightarrow> bool result" where
  "pad_match dat data_len c i 0 = Inr True"
| "pad_match dat data_len c i (Suc n) =
    (if data_len < Suc i \<or> length dat < data_len then Inl BufferOverrun
     else if dat ! (data_len - 1 - i) \<noteq> c then Inr False
     else pad_match dat data_len c (Suc i) n)"

text \<open>The second loop, which looks at every byte.\<close>

definition pad_bad :: "bytes \<Rightarrow> nat \<Rightarrow> u8 \<Rightarrow> bool" where
  "pad_bad dat data_len c =
    foldl (\<lambda>bad i. bad \<or> ((dat ! i XOR c) \<noteq> 0 \<and> int i \<ge> int data_len - int (unat c))) False [0..<data_len]"

definition aes_padding_pkcs7_get :: "bytes \<Rightarrow> nat \<Rightarrow> int result" where
  "aes_padding_pkcs7_get dat data_len =
    (if data_len = 0 \<or> length dat < data_len then Inl BufferOverrun
     else
       let c = dat ! (data_len - 1)
       in case pad_match dat data_len c 0 (unat c) of Inl e \<Rightarrow> Inl e
        | Inr False \<Rightarrow> Inr 0
        | Inr True \<Rightarrow>
            (let len = int data_len - int (unat c);
                 bad = (int (unat c) > int data_len);
                 bad = (bad \<or> c = 0);
                 bad = (bad \<or> pad_bad dat data_len c)
             in Inr (if bad then 0 else len)))"

section \<open>Contexts\<close>

definition aes_encrypo_opt :: "aes_ctx \<Rightarrow> bytes option \<Rightarrow> bytes option \<Rightarrow> aes_opt_type \<Rightarrow> (int \<times> aes_ctx) result" where
  "aes_encrypo_opt enc key iv opt =
    (let r = (case opt of
        AES_OPT_TYPE_ENC_INIT \<Rightarrow>
          if is_init enc = 0
          then (case (key, iv) of (Some k, Some v) \<Rightarrow>
                  if length k < AES_KEY_SIZE \<or> length v < AES_KEY_SIZE then Inl BufferOverrun
                  else Inr (enc\<lparr>aes_key := take AES_KEY_SIZE k, aes_iv := take AES_KEY_SIZE v, is_init := 1\<rparr>)
                | _ \<Rightarrow> Inl NullPointer)
          else Inr enc
      | AES_OPT_TYPE_ENC_DEINIT \<Rightarrow> Inr (if is_init enc \<noteq> 0 then enc\<lparr>is_init := 0\<rparr> else enc)
      | _ \<Rightarrow> Inr enc)
     in case r of Inl e \<Rightarrow> Inl e | Inr enc \<Rightarrow> Inr (if is_init enc \<noteq> 0 then 0 else -1, enc))"

definition aes_decrypo_opt :: "aes_ctx \<Rightarrow> bytes option \<Rightarrow> bytes option \<Rightarrow> aes_opt_type \<Rightarrow> (int \<times> aes_ctx) result" where
  "aes_decrypo_opt dec key iv opt =
    (let r = (case opt of
        AES_OPT_TYPE_DEC_INIT \<Rightarrow>
          if is_init dec = 0
          then (case (key, iv) of (Some k, Some v) \<Rightarrow>
                  if length k < AES_KEY_SIZE \<or> length v < AES_KEY_SIZE then Inl BufferOverrun
                  else Inr (dec\<lparr>aes_key := take AES_KEY_SIZE k, aes_iv := take AES_KEY_SIZE v, is_init := 1\<rparr>)
                | _ \<Rightarrow> Inl NullPointer)
          else Inr dec
      | AES_OPT_TYPE_DEC_DEINIT \<Rightarrow> Inr (if is_init dec \<noteq> 0 then dec\<lparr>is_init := 0\<rparr> else dec)
      | _ \<Rightarrow> Inr dec)
     in case r of Inl e \<Rightarrow> Inl e | Inr dec \<Rightarrow> Inr (if is_init dec \<noteq> 0 then 0 else -1, dec))"

section \<open>Encryption and decryption\<close>

type_synonym cipher = "bytes \<Rightarrow> bytes \<Rightarrow> bytes \<Rightarrow> bytes option"

text \<open>
  \<open>aes_encrypo_data\<close> also prints the result in hexadecimal into \<open>char hexBuf[1024]\<close>: two
  digits a byte, a colon between two bytes and the final null, so \<open>3 * len\<close> characters. A
  context that is not initialised makes the function end without a return value.
\<close>

definition hex_dump :: "nat \<Rightarrow> unit result" where
  "hex_dump len = (if 3 * len > 1024 then Inl BufferOverrun else Inr ())"

definition aes_encrypo_data :: "cipher \<Rightarrow> aes_ctx \<Rightarrow> bytes \<Rightarrow> nat \<Rightarrow> bytes \<Rightarrow> (nat \<times> bytes) result" where
  "aes_encrypo_data cbc enc inp in_len out =
    (if is_init enc = 0 then Inl Uninitialised
     else if length inp < in_len \<or> length out < in_len then Inl BufferOverrun
     else case aes_padding_pkcs7_set (take in_len inp @ drop in_len out) in_len of Inl e \<Rightarrow> Inl e
      | Inr (len, out) \<Rightarrow>
         (let out = (case cbc (aes_key enc) (aes_iv enc) (take len out) of
                       Some c \<Rightarrow> c @ drop len out | None \<Rightarrow> out)
          in case hex_dump len of Inl e \<Rightarrow> Inl e | Inr _ \<Rightarrow> Inr (len, out)))"

definition aes_decrypo_data :: "cipher \<Rightarrow> aes_ctx option \<Rightarrow> bytes option \<Rightarrow> nat \<Rightarrow> bytes \<Rightarrow> (int \<times> bytes) result" where
  "aes_decrypo_data cbc dec inp in_len out =
    (case (dec, inp) of
       (Some d, Some i) \<Rightarrow>
         if is_init d = 0 then Inr (-1, out)
         else if length i < in_len then Inl BufferOverrun
         else (case cbc (aes_key d) (aes_iv d) (take in_len i) of
                 None \<Rightarrow> (case aes_padding_pkcs7_get out in_len of Inl e \<Rightarrow> Inl e | Inr n \<Rightarrow> Inr (n, out))
               | Some p \<Rightarrow>
                   if length out < in_len then Inl BufferOverrun
                   else (let out = p @ drop in_len out
                         in case aes_padding_pkcs7_get out in_len of Inl e \<Rightarrow> Inl e | Inr n \<Rightarrow> Inr (n, out)))
     | _ \<Rightarrow> Inr (-1, out))"

definition init_enc_dec :: "aes_ctx \<Rightarrow> aes_ctx \<Rightarrow> bytes \<Rightarrow> bytes \<Rightarrow> (aes_ctx \<times> aes_ctx) result" where
  "init_enc_dec enc dec key iv =
    (case aes_encrypo_opt enc (Some key) (Some iv) AES_OPT_TYPE_ENC_INIT of Inl e \<Rightarrow> Inl e
     | Inr (_, enc) \<Rightarrow>
        (case aes_decrypo_opt dec (Some key) (Some iv) AES_OPT_TYPE_DEC_INIT of Inl e \<Rightarrow> Inl e
         | Inr (_, dec) \<Rightarrow> Inr (enc, dec)))"

definition deinit_enc_dec :: "aes_ctx \<Rightarrow> aes_ctx \<Rightarrow> (aes_ctx \<times> aes_ctx) result" where
  "deinit_enc_dec enc dec =
    (case aes_encrypo_opt enc None None AES_OPT_TYPE_ENC_DEINIT of Inl e \<Rightarrow> Inl e
     | Inr (_, enc) \<Rightarrow>
        (case aes_decrypo_opt dec None None AES_OPT_TYPE_DEC_DEINIT of Inl e \<Rightarrow> Inl e
         | Inr (_, dec) \<Rightarrow> Inr (enc, dec)))"

text \<open>What the documentation of the library promises of the two directions of CBC.\<close>

definition cbc_pair :: "cipher \<Rightarrow> cipher \<Rightarrow> bool" where
  "cbc_pair cbc_enc cbc_dec \<longleftrightarrow>
    (\<forall>k v p. length k = 16 \<longrightarrow> length v = 16 \<longrightarrow> length p mod 16 = 0 \<longrightarrow>
      (\<exists>c. cbc_enc k v p = Some c \<and> length c = length p \<and> cbc_dec k v c = Some p))"

section \<open>Lemmas\<close>

lemma pad_loop_eq:
  "at + n \<le> length dat \<Longrightarrow> pad_loop n at c dat = Inr (take at dat @ replicate n c @ drop (at + n) dat)"
proof (induction n at c dat rule: pad_loop.induct)
  case (1 at c dat)
  then show ?case by simp
next
  case (2 n at c dat)
  then have "pad_loop n (Suc at) c (dat[at := c]) =
    Inr (take (Suc at) (dat[at := c]) @ replicate n c @ drop (Suc at + n) (dat[at := c]))" by simp
  moreover have "take (Suc at) (dat[at := c]) = take at dat @ [c]"
    using "2.prems" by (simp add: take_Suc_conv_app_nth)
  ultimately show ?case using "2.prems" by simp
qed

lemma pad_len_range: "0 < 16 - n mod (16 :: nat)" "16 - n mod (16 :: nat) \<le> 16"
  by simp_all

lemma pkcs7_set_eq:
  assumes "get_aes_enc_out_len n \<le> length dat"
  defines "k \<equiv> 16 - n mod 16"
  shows "aes_padding_pkcs7_set dat n = Inr (n + k, take n dat @ replicate k (word_of_nat k) @ drop (n + k) dat)"
  using assms pad_loop_eq [of n k dat]
  by (simp add: aes_padding_pkcs7_set_def get_aes_enc_out_len_def AES_BLOCK_SIZE_def Let_def)

lemma pad_match_all:
  "\<forall>j < n. dat ! (data_len - 1 - (i + j)) = c \<Longrightarrow> i + n \<le> data_len \<Longrightarrow> data_len \<le> length dat \<Longrightarrow>
    pad_match dat data_len c i n = Inr True"
proof (induction n arbitrary: i)
  case 0
  then show ?case by simp
next
  case (Suc n)
  have "dat ! (data_len - 1 - i) = c" using Suc.prems(1) by (metis add_0_right zero_less_Suc)
  moreover have "\<forall>j < n. dat ! (data_len - 1 - (Suc i + j)) = c"
    using Suc.prems(1) by (metis Suc_less_eq add_Suc_shift)
  ultimately show ?case using Suc by simp
qed

lemma pad_bad_eq: "pad_bad dat n c \<longleftrightarrow> (\<exists>i < n. dat ! i \<noteq> c \<and> int i \<ge> int n - int (unat c))"
proof -
  have "foldl (\<lambda>bad i. bad \<or> P i) b xs \<longleftrightarrow> b \<or> (\<exists>i \<in> set xs. P i)" for P b and xs :: "nat list"
    by (induction xs arbitrary: b) auto
  then show ?thesis by (auto simp: pad_bad_def xor_zero_iff)
qed

lemma pkcs7_get_padded:
  assumes k: "0 < k" "k \<le> 16"
  shows "aes_padding_pkcs7_get (m @ replicate k (word_of_nat k) @ rest) (length m + k) = Inr (int (length m))"
proof -
  let ?d = "m @ replicate k (word_of_nat k :: u8) @ rest"
  let ?n = "length m + k"
  have u: "unat (word_of_nat k :: u8) = k" using k by (simp add: unat_of_nat)
  have nz: "(word_of_nat k :: u8) \<noteq> 0" using u k by auto
  have nth: "?d ! i = word_of_nat k" if "length m \<le> i" "i < ?n" for i
    using that by (auto simp: nth_append)
  have last: "?d ! (?n - 1) = word_of_nat k" using nth [of "?n - 1"] k by simp
  have "pad_match ?d ?n (word_of_nat k) 0 k = Inr True"
    using k nth by (intro pad_match_all) (auto intro!: nth)
  moreover have "\<not> pad_bad ?d ?n (word_of_nat k)" using nth unfolding pad_bad_eq u by auto
  ultimately show ?thesis
    using k nz unfolding aes_padding_pkcs7_get_def Let_def last u by simp
qed


text \<open>
  Encryption is total for an initialised context, a buffer that can hold the padded text and a
  text short enough for the hexadecimal dump; decryption then gives the text back.
\<close>

lemma drop_joined: "drop (length m + k) (m @ drop (length m) out) = drop (length m + k) out"
  by (simp add: add.commute)

lemma encrypo_data_ok:
  assumes "is_init enc \<noteq> 0" "length (aes_key enc) = 16" "length (aes_iv enc) = 16" "cbc_pair ce cd"
    "length m < 336" "get_aes_enc_out_len (length m) \<le> length out"
  defines "n \<equiv> get_aes_enc_out_len (length m)"
  defines "pm \<equiv> m @ replicate (16 - length m mod 16) (word_of_nat (16 - length m mod 16))"
  shows "\<exists>c. ce (aes_key enc) (aes_iv enc) pm = Some c \<and> length c = n
    \<and> cd (aes_key enc) (aes_iv enc) c = Some pm
    \<and> aes_encrypo_data ce enc m (length m) out = Inr (n, c @ drop n out)"
proof -
  let ?k = "16 - length m mod 16"
  have n: "n = length m + ?k" by (simp add: n_def get_aes_enc_out_len_def AES_BLOCK_SIZE_def)
  have pm: "length pm = n" by (simp add: pm_def n)
  have blk: "n mod 16 = 0" unfolding n by (simp add: mod_simps) presburger
  obtain c where c: "ce (aes_key enc) (aes_iv enc) pm = Some c" "length c = length pm"
    "cd (aes_key enc) (aes_iv enc) c = Some pm"
    using assms(2-4) pm blk unfolding cbc_pair_def by metis
  have "n \<le> length (m @ drop (length m) out)" using assms(6) unfolding n_def by simp
  then have set: "aes_padding_pkcs7_set (m @ drop (length m) out) (length m) =
      Inr (n, pm @ drop n (m @ drop (length m) out))"
    using pkcs7_set_eq [of "length m" "m @ drop (length m) out"] by (simp add: n_def [symmetric] n pm_def)
  have d: "drop n (m @ drop (length m) out) = drop n out" unfolding n by (rule drop_joined)
  have "3 * n \<le> 1024"
  proof -
    have "n \<le> 336" using assms(5) blk n by presburger
    then show ?thesis by simp
  qed
  moreover have "length m \<le> length out" using assms(6) by (simp add: get_aes_enc_out_len_def)
  ultimately have "aes_encrypo_data ce enc m (length m) out = Inr (n, c @ drop n out)"
    using assms(1) c pm unfolding aes_encrypo_data_def by (simp add: set [unfolded d] hex_dump_def Let_def)
  with c pm show ?thesis by auto
qed

lemma aes_round_trip:
  assumes "is_init enc \<noteq> 0" "length (aes_key enc) = 16" "length (aes_iv enc) = 16" "cbc_pair ce cd"
    "length m < 336" "get_aes_enc_out_len (length m) \<le> length out"
    "is_init dec \<noteq> 0" "aes_key dec = aes_key enc" "aes_iv dec = aes_iv enc"
    "get_aes_enc_out_len (length m) \<le> length out2"
  shows "\<exists>n c out2'. aes_encrypo_data ce enc m (length m) out = Inr (n, c)
    \<and> aes_decrypo_data cd (Some dec) (Some c) n out2 = Inr (int (length m), out2')
    \<and> take (length m) out2' = m"
proof -
  let ?k = "16 - length m mod 16"
  let ?n = "get_aes_enc_out_len (length m)"
  let ?pm = "m @ replicate ?k (word_of_nat ?k :: u8)"
  from encrypo_data_ok [OF assms(1-6)] obtain c where
    c: "length c = ?n" "cd (aes_key enc) (aes_iv enc) c = Some ?pm"
      "aes_encrypo_data ce enc m (length m) out = Inr (?n, c @ drop ?n out)" by blast
  have n: "?n = length m + ?k" by (simp add: get_aes_enc_out_len_def AES_BLOCK_SIZE_def)
  have "aes_padding_pkcs7_get (m @ replicate ?k (word_of_nat ?k) @ drop ?n out2) (length m + ?k) = Inr (int (length m))"
    by (rule pkcs7_get_padded) simp_all
  moreover have long: "\<not> length (c @ drop ?n out) < ?n" "\<not> length out2 < ?n" using c(1) assms(10) by simp_all
  ultimately have "aes_decrypo_data cd (Some dec) (Some (c @ drop ?n out)) ?n out2 =
      Inr (int (length m), ?pm @ drop ?n out2)"
    using assms(7-9) c(2) long unfolding aes_decrypo_data_def option.case prod.case n [symmetric]
    by (simp add: c(1) [symmetric] assms(10) [folded c(1)])
  with c(3) show ?thesis by (intro exI) auto
qed

text \<open>A text of 336 bytes or more runs over the dump buffer.\<close>

lemma encrypo_data_overrun:
  assumes "is_init enc \<noteq> 0" "336 \<le> n"
  shows "\<exists>e. aes_encrypo_data ce enc m n out = Inl e"
proof (cases "aes_padding_pkcs7_set (take n m @ drop n out) n")
  case (Inl e)
  then show ?thesis using assms by (simp add: aes_encrypo_data_def)
next
  case (Inr r)
  obtain l o2 where r: "r = (l, o2)" by (cases r)
  have "l = n + (16 - n mod 16)"
    using Inr r by (simp add: aes_padding_pkcs7_set_def Let_def AES_BLOCK_SIZE_def split: sum.splits)
  then have "3 * l > 1024" using assms(2) by presburger
  then show ?thesis using Inr r assms by (auto simp: aes_encrypo_data_def hex_dump_def Let_def)
qed

section \<open>Opening and closing\<close>

lemma encrypo_init:
  assumes "is_init enc = 0" "length k = 16" "length v = 16"
  shows "aes_encrypo_opt enc (Some k) (Some v) AES_OPT_TYPE_ENC_INIT =
    Inr (0, enc\<lparr>aes_key := k, aes_iv := v, is_init := 1\<rparr>)"
  using assms by (simp add: aes_encrypo_opt_def AES_KEY_SIZE_def)

lemma decrypo_init:
  assumes "is_init dec = 0" "length k = 16" "length v = 16"
  shows "aes_decrypo_opt dec (Some k) (Some v) AES_OPT_TYPE_DEC_INIT =
    Inr (0, dec\<lparr>aes_key := k, aes_iv := v, is_init := 1\<rparr>)"
  using assms by (simp add: aes_decrypo_opt_def AES_KEY_SIZE_def)

lemma deinit_closes:
  "\<exists>e d. deinit_enc_dec enc dec = Inr (e, d) \<and> is_init e = 0 \<and> is_init d = 0"
  by (auto simp: deinit_enc_dec_def aes_encrypo_opt_def aes_decrypo_opt_def)

end
