(* ===== verification/Kcp_Wrapper.thy ===== *)
theory Kcp_Wrapper
  imports Kcp_Delivery Kcp_Machine Kcp_Keeps Wo_Aes
begin

text \<open>
  The native methods of \<open>KcpClient\<close> in \<open>kcp_wrapper.cpp\<close>, on its static variables: one
  control block, one UDP socket, the remote address, and the key and vector that
  \<open>repeater_aes.c\<close> hands over for Java. The socket calls and the Java VM answer by arguments:
  the descriptor of \<open>socket\<close> (\<open>bind\<close> is only logged), the address \<open>inet_pton\<close> reads
  (\<open>None\<close> when the text is no address), the result of each \<open>sendto\<close>, the datagram waiting
  in the socket (\<open>None\<close> for an empty socket or an error), whether an array is pinned or made.
  Descriptors opened and not closed are kept in \<open>open_fds\<close>.
\<close>

record kcp_app =
  app_kcp :: "ikcpcb option"
  udp_fd :: int
  remote_ip :: u32
  remote_port :: u16
  last_key :: bytes
  last_iv :: bytes
  has_aes_data :: bool
  open_fds :: "int list"

definition app_zero :: kcp_app where
  "app_zero = \<lparr>app_kcp = None, udp_fd = -1, remote_ip = 0, remote_port = 0,
     last_key = replicate AES_KEY_SIZE 0, last_iv = replicate AES_KEY_SIZE 0, has_aes_data = False,
     open_fds = []\<rparr>"

definition htons :: "u16 \<Rightarrow> u16" where
  "htons w = push_bit 8 w OR drop_bit 8 w"

definition set_aes_key_iv :: "kcp_app \<Rightarrow> bytes \<Rightarrow> bytes \<Rightarrow> kcp_app result" where
  "set_aes_key_iv g key iv =
    (if length key < AES_KEY_SIZE \<or> length iv < AES_KEY_SIZE then Inl BufferOverrun
     else Inr (g\<lparr>last_key := take AES_KEY_SIZE key, last_iv := take AES_KEY_SIZE iv, has_aes_data := True\<rparr>))"

text \<open>The callback of the control block: its result, and what went out.\<close>

definition udp_output :: "kcp_app \<Rightarrow> int \<Rightarrow> bytes \<Rightarrow> int \<times> bytes list" where
  "udp_output g res buf = (if udp_fd g < 0 then (-1, []) else (0, if res < 0 then [] else [buf]))"

text \<open>The callback run on the datagrams of one flush; \<open>ret i\<close> answers the \<open>i\<close>-th.\<close>

fun output_all :: "kcp_app \<Rightarrow> (nat \<Rightarrow> int) \<Rightarrow> nat \<Rightarrow> bytes list \<Rightarrow> bytes list" where
  "output_all g ret i [] = []"
| "output_all g ret i (d # ds) = snd (udp_output g (ret i) d) @ output_all g ret (Suc i) ds"

definition initKcp :: "(nat \<Rightarrow> bool) \<Rightarrow> int \<Rightarrow> u32 option \<Rightarrow> kcp_app \<Rightarrow> int \<Rightarrow> int \<Rightarrow> kcp_app result" where
  "initKcp ok fd pton g port cv =
    (let g = g\<lparr>udp_fd := fd\<rparr>
     in if fd < 0 then Inr g
        else
          let g = g\<lparr>open_fds := fd # open_fds g, remote_ip := 0, remote_port := 0\<rparr>;
              g = g\<lparr>remote_port := htons (word_of_int port)\<rparr>;
              g = (case pton of None \<Rightarrow> g | Some a \<Rightarrow> g\<lparr>remote_ip := a\<rparr>)
          in case ikcp_create ok (word_of_int cv) of None \<Rightarrow> Inl NullPointer
             | Some k \<Rightarrow>
                let k = ikcp_setoutput k True;
                    k = snd (ikcp_nodelay k 1 10 2 1)
                in Inr (g\<lparr>app_kcp := snd (ikcp_wndsize (Some k) 128 128)\<rparr>))"

definition updateKcp :: "(nat \<Rightarrow> int) \<Rightarrow> kcp_app \<Rightarrow> int \<Rightarrow> (kcp_app \<times> bytes list) result" where
  "updateKcp ret g now =
    (case app_kcp g of None \<Rightarrow> Inr (g, [])
     | Some k \<Rightarrow>
        (case ikcp_update k (word_of_int now) of Inl e \<Rightarrow> Inl e
         | Inr (k, out) \<Rightarrow> Inr (g\<lparr>app_kcp := Some k\<rparr>, output_all g ret 0 out)))"

definition sendData :: "(nat \<Rightarrow> bool) \<Rightarrow> bool \<Rightarrow> kcp_app \<Rightarrow> bytes \<Rightarrow> (int \<times> kcp_app) result" where
  "sendData ok pinned g arr =
    (case app_kcp g of None \<Rightarrow> Inr (-1, g)
     | Some k \<Rightarrow>
        (let buf = (if pinned then Some arr else None)
         in case ikcp_send ok k buf (int (length arr)) of Inl e \<Rightarrow> Inl e
            | Inr (ret, k) \<Rightarrow> Inr (ret, g\<lparr>app_kcp := Some k\<rparr>)))"

definition RECV_SIZE :: nat where "RECV_SIZE = 1500"

definition receiveData :: "(nat \<Rightarrow> nat \<Rightarrow> bool) \<Rightarrow> bool \<Rightarrow> kcp_app \<Rightarrow> bytes option \<Rightarrow> (bytes option \<times> kcp_app) result" where
  "receiveData ok made g dgram =
    (case app_kcp g of None \<Rightarrow> Inr (None, g)
     | Some k \<Rightarrow>
        if udp_fd g < 0 then Inr (None, g)
        else
          let got = (case dgram of None \<Rightarrow> [] | Some d \<Rightarrow> take RECV_SIZE d)
          in case (if got \<noteq> [] then ikcp_input ok k (Some got) else Inr (0, k)) of Inl e \<Rightarrow> Inl e
             | Inr (_, k) \<Rightarrow>
                (case ikcp_recv k True (int RECV_SIZE) of Inl e \<Rightarrow> Inl e
                 | Inr (recv_len, out, k) \<Rightarrow>
                    if recv_len > 0
                    then if \<not> made then Inl NullPointer
                         else Inr (Some (take (nat recv_len) out), g\<lparr>app_kcp := Some k\<rparr>)
                    else Inr (None, g\<lparr>app_kcp := Some k\<rparr>)))"

definition getLastAesKey :: "kcp_app \<Rightarrow> bytes option" where
  "getLastAesKey g = (if \<not> has_aes_data g then None else Some (take AES_KEY_SIZE (last_key g)))"

definition getLastAesIv :: "kcp_app \<Rightarrow> bytes option" where
  "getLastAesIv g = (if \<not> has_aes_data g then None else Some (take AES_KEY_SIZE (last_iv g)))"

definition releaseKcp :: "kcp_app \<Rightarrow> kcp_app" where
  "releaseKcp g =
    (let g = (case app_kcp g of None \<Rightarrow> g | Some k \<Rightarrow> g\<lparr>app_kcp := None\<rparr>)
     in if udp_fd g \<ge> 0 then g\<lparr>open_fds := remove1 (udp_fd g) (open_fds g), udp_fd := -1\<rparr> else g)"

section \<open>The wrapper as a machine\<close>

text \<open>
  What holds between two calls from Java: no control block, or one that keeps the invariants of
  the protocol in the configuration \<open>initKcp\<close> gives it (callback installed, message mode,
  segments of 1376 bytes), and an open descriptor behind a valid number.
\<close>

definition app_inv :: "kcp_app \<Rightarrow> bool" where
  "app_inv g \<longleftrightarrow> (case app_kcp g of None \<Rightarrow> True
      | Some k \<Rightarrow> kcp_inv k \<and> output_set k \<and> mss k = 1376 \<and> stream k = 0)
    \<and> length (last_key g) = AES_KEY_SIZE \<and> length (last_iv g) = AES_KEY_SIZE
    \<and> (udp_fd g \<ge> 0 \<longrightarrow> udp_fd g \<in> set (open_fds g))"

text \<open>The counters of pending acknowledgements and queued segments stay in range.\<close>

definition app_room :: "kcp_app \<Rightarrow> bool" where
  "app_room g \<longleftrightarrow> (case app_kcp g of None \<Rightarrow> True
      | Some k \<Rightarrow> unat (ackcount k) + 62 < 2 ^ 30 \<and> length (snd_queue k) + 256 < 2 ^ 32)"

text \<open>Traffic on an open connection.\<close>

inductive app_traffic :: "kcp_app \<Rightarrow> kcp_app \<Rightarrow> bool" where
  app_update: "updateKcp ret g now = Inr (g', out) \<Longrightarrow> app_room g \<Longrightarrow> app_traffic g g'"
| app_send: "sendData ok pinned g arr = Inr (r, g') \<Longrightarrow> length arr < 2 ^ 31 \<Longrightarrow> app_room g \<Longrightarrow> app_traffic g g'"
| app_receive: "receiveData ok made g dgram = Inr (r, g') \<Longrightarrow> app_room g \<Longrightarrow> app_traffic g g'"
| app_key: "set_aes_key_iv g key iv = Inr g' \<Longrightarrow> app_traffic g g'"

inductive app_step :: "kcp_app \<Rightarrow> kcp_app \<Rightarrow> bool" where
  app_moves: "app_traffic g g' \<Longrightarrow> app_step g g'"
| app_init: "initKcp ok fd pton g port cv = Inr g' \<Longrightarrow> app_step g g'"
| app_release: "app_step g (releaseKcp g)"

definition app_start :: "kcp_app \<Rightarrow> bool" where
  "app_start g \<longleftrightarrow> g = app_zero"

lemma app_kcpD:
  assumes "app_inv g" "app_kcp g = Some k"
  shows "kcp_inv k" "output_set k" "mss k = 1376" "stream k = 0" "que_inv k" "mtu_inv k"
  using assms by (simp_all add: app_inv_def kcp_inv_def)

lemma app_roomD:
  "app_room g \<Longrightarrow> app_kcp g = Some k \<Longrightarrow> unat (ackcount k) + 62 < 2 ^ 30 \<and> length (snd_queue k) + 256 < 2 ^ 32"
  by (simp add: app_room_def)

lemma app_inv_kcp:
  "app_inv g \<Longrightarrow> kcp_inv k' \<Longrightarrow> output_set k' \<Longrightarrow> mss k' = 1376 \<Longrightarrow> stream k' = 0 \<Longrightarrow>
    app_inv (g\<lparr>app_kcp := Some k'\<rparr>)"
  by (simp add: app_inv_def)

lemma app_inv_keeps:
  "app_inv g \<Longrightarrow> app_kcp g = Some k \<Longrightarrow> kcp_inv k' \<Longrightarrow> cfg k' = cfg k \<Longrightarrow> app_inv (g\<lparr>app_kcp := Some k'\<rparr>)"
  using app_kcpD [of g k] by (intro app_inv_kcp) (auto simp: cfg_def)

lemma AES_KEY_SIZE_16 [simp]: "AES_KEY_SIZE = 16"
  by (simp add: AES_KEY_SIZE_def)

lemma start_app_inv: "app_inv app_zero"
  by (simp add: app_inv_def app_zero_def)

lemma initKcp_inv:
  assumes "initKcp ok fd pton g port cv = Inr g'" "app_inv g" shows "app_inv g'"
proof (cases "fd < 0")
  case True
  with assms show ?thesis by (auto simp: initKcp_def Let_def app_inv_def)
next
  case False
  obtain k where k: "ikcp_create ok (word_of_int cv) = Some k"
    using assms(1) False by (auto simp: initKcp_def Let_def split: option.splits)
  let ?n = "snd (ikcp_nodelay (ikcp_setoutput k True) 1 10 2 1)"
  have "kcp_inv ?n" using nodelay_inv setoutput_inv create_inv [OF k] by blast
  from wndsize_inv [OF this, of 128 128] obtain w where
    w: "snd (ikcp_wndsize (Some ?n) 128 128) = Some w" "kcp_inv w" by auto
  have "output_set w" "mss w = 1376" "stream w = 0"
    using w(1) k
    by (auto simp: ikcp_wndsize_def ikcp_nodelay_def ikcp_setoutput_def ikcp_create_def Let_def ikcp_consts split: if_splits)
  with w False assms k show ?thesis
    by (auto simp: initKcp_def Let_def app_inv_def split: option.splits)
qed

lemma initKcp_opens:
  assumes "0 \<le> fd"
  shows "\<exists>g' k. initKcp (\<lambda>_. True) fd pton g port cv = Inr g' \<and> app_kcp g' = Some k \<and> udp_fd g' = fd
    \<and> snd_queue k = [] \<and> snd_buf k = [] \<and> rcv_queue k = [] \<and> rcv_buf k = [] \<and> snd_nxt k = 0 \<and> snd_una k = 0 \<and> rcv_nxt k = 0
    \<and> kconv k = word_of_int cv \<and> ackcount k = 0 \<and> updated k = 0 \<and> rcv_wnd k = 128 \<and> snd_wnd k = 128 \<and> rmt_wnd k = 32 \<and> nocwnd k = 1"
  using assms
  by (auto simp: initKcp_def Let_def ikcp_wndsize_def ikcp_nodelay_def ikcp_setoutput_def ikcp_create_def ikcp_consts split: option.splits)

lemma sendData_inv:
  assumes "sendData ok pinned g arr = Inr (r, g')" "app_inv g" "length arr < 2 ^ 31" "app_room g"
  shows "app_inv g'"
proof (cases "app_kcp g")
  case None
  with assms show ?thesis by (simp add: sendData_def)
next
  case (Some k)
  obtain k' where s: "ikcp_send ok k (if pinned then Some arr else None) (int (length arr)) = Inr (r, k')"
    and g': "g' = g\<lparr>app_kcp := Some k'\<rparr>"
    using assms(1) Some by (auto simp: sendData_def Let_def split: sum.splits)
  have "kcp_inv k'" using ikcp_send_inv [OF s app_kcpD(1) [OF assms(2) Some]] assms(3) app_roomD [OF assms(4) Some] by simp
  then show ?thesis using send_keeps [OF s] app_inv_keeps [OF assms(2) Some] by (simp add: g' keeps_def)
qed

lemma updateKcp_eq:
  assumes "app_inv g" "app_room g" "app_kcp g = Some k"
  shows "\<exists>k' ds. ikcp_update k (word_of_int now) = Inr (k', ds)
    \<and> updateKcp ret g now = Inr (g\<lparr>app_kcp := Some k'\<rparr>, output_all g ret 0 ds)
    \<and> kcp_inv k' \<and> output_set k' \<and> mss k' = mss k \<and> stream k' = stream k \<and> rcv_queue k' = rcv_queue k"
proof -
  note k = app_kcpD [OF assms(1,3)] and r = app_roomD [OF assms(2,3)]
  obtain due c where c: "update_clock k (word_of_int now) = (due, c)" by fastforce
  have f: "kcp_inv c" "output_set c" "unat (ackcount c) < 2 ^ 30" "mss c = mss k" "stream c = stream k" "rcv_queue c = rcv_queue k"
    using update_clock_inv [OF k(1), of "word_of_int now"] update_clock_fields [of k "word_of_int now"] c k r
    by (simp_all add: tx_sub_def rx_same_def)
  obtain k' ds where u: "ikcp_update k (word_of_int now) = Inr (k', ds)" "kcp_inv k'"
    using ikcp_update_inv [OF k(1,2)] r by fastforce
  have "output_set k' \<and> mss k' = mss k \<and> stream k' = stream k \<and> rcv_queue k' = rcv_queue k"
  proof (cases due)
    case True
    then show ?thesis using u(1) c flush_keeps [OF f(1-3)] f by (simp add: ikcp_update_def)
  next
    case False
    then show ?thesis using u(1) c f by (simp add: ikcp_update_def)
  qed
  with u show ?thesis using assms(3) by (simp add: updateKcp_def)
qed

lemma updateKcp_inv:
  assumes "updateKcp ret g now = Inr (g', out)" "app_inv g" "app_room g" shows "app_inv g'"
proof (cases "app_kcp g")
  case None
  with assms show ?thesis by (simp add: updateKcp_def)
next
  case (Some k)
  from updateKcp_eq [OF assms(2,3) Some, of now ret] assms(1) show ?thesis
    using app_kcpD [OF assms(2) Some] app_inv_kcp [OF assms(2)] by auto
qed

text \<open>One call of \<open>receiveData\<close>: the state after the datagram, then the read.\<close>

lemma receiveData_cases:
  assumes "receiveData ok made g dgram = Inr (r, g')"
  obtains (off) "g' = g" "r = None"
  | (on) k k1 n k2 recv_len out where "app_kcp g = Some k"
      "(if (case dgram of None \<Rightarrow> [] | Some d \<Rightarrow> take RECV_SIZE d) = [] then k1 = k
        else ikcp_input ok k (Some (case dgram of None \<Rightarrow> [] | Some d \<Rightarrow> take RECV_SIZE d)) = Inr (n, k1))"
      "ikcp_recv k1 True (int RECV_SIZE) = Inr (recv_len, out, k2)" "g' = g\<lparr>app_kcp := Some k2\<rparr>"
      "r = (if recv_len > 0 then Some (take (nat recv_len) out) else None)"
  using assms unfolding receiveData_def Let_def
  by (auto split: option.splits if_splits sum.splits)

lemma receive_input_inv:
  assumes "app_inv g" "app_room g" "app_kcp g = Some k" "length d \<le> RECV_SIZE"
    "ikcp_input ok k (Some d) = Inr (n, k1)"
  shows "kcp_inv k1 \<and> keeps k k1"
proof -
  have "length d div 24 \<le> 62" using assms(4) unfolding RECV_SIZE_def by presburger
  then have "unat (ackcount k) + length d div 24 < 2 ^ 30" using app_roomD [OF assms(2,3)] by linarith
  then show ?thesis
    using input_inv [OF app_kcpD(1) [OF assms(1,3)] assms(5)] input_keeps [OF assms(5)] by simp
qed

lemma receiveData_inv:
  assumes "receiveData ok made g dgram = Inr (r, g')" "app_inv g" "app_room g" shows "app_inv g'"
  using assms(1)
proof (cases rule: receiveData_cases)
  case off
  with assms show ?thesis by simp
next
  case (on k k1 n k2 recv_len out)
  let ?d = "case dgram of None \<Rightarrow> [] | Some d \<Rightarrow> take RECV_SIZE d"
  have "length ?d \<le> RECV_SIZE" by (auto split: option.split)
  then have "kcp_inv k1 \<and> keeps k k1"
    using on(2) receive_input_inv [OF assms(2,3) on(1)] app_kcpD(1) [OF assms(2) on(1)]
    by (cases "?d = []") (simp, metis)
  moreover have "kcp_inv k2" using ikcp_recv_inv on(3) calculation by blast
  ultimately show ?thesis
    using recv_cfg [OF on(3)] app_inv_keeps [OF assms(2) on(1)] by (simp add: on(4) keeps_def)
qed

lemma releaseKcp_inv: "app_inv g \<Longrightarrow> app_inv (releaseKcp g)"
  by (auto simp: app_inv_def releaseKcp_def Let_def split: option.splits)

lemma set_key_inv: "set_aes_key_iv g key iv = Inr g' \<Longrightarrow> app_inv g \<Longrightarrow> app_inv g'"
  by (auto simp: set_aes_key_iv_def app_inv_def split: if_splits)

lemma traffic_inv: "app_traffic g g' \<Longrightarrow> app_inv g \<Longrightarrow> app_inv g'"
  by (induction rule: app_traffic.induct) (auto intro: updateKcp_inv sendData_inv receiveData_inv set_key_inv)

interpretation app: machine app_start app_step app_inv
proof unfold_locales
  show "app_inv g" if "app_start g" for g using that start_app_inv by (simp add: app_start_def)
  show "app_inv g'" if "app_inv g" "app_step g g'" for g g'
    using that(2,1) by (cases rule: app_step.cases) (auto intro: traffic_inv initKcp_inv releaseKcp_inv)
qed

section \<open>No call faults\<close>

lemma updateKcp_total: "app_inv g \<Longrightarrow> app_room g \<Longrightarrow> \<exists>g' out. updateKcp ret g now = Inr (g', out)"
  using updateKcp_eq [of g _ now ret] by (cases "app_kcp g") (auto simp: updateKcp_def)

lemma receiveData_total:
  assumes "app_inv g" "app_room g" shows "\<exists>r g'. receiveData (\<lambda>_ _. True) True g dgram = Inr (r, g')"
proof (cases "app_kcp g")
  case None
  then show ?thesis by (simp add: receiveData_def)
next
  case (Some k)
  let ?d = "case dgram of None \<Rightarrow> [] | Some d \<Rightarrow> take RECV_SIZE d"
  have "length ?d \<le> RECV_SIZE" by (auto split: option.split)
  then have "length ?d div 24 \<le> 62" unfolding RECV_SIZE_def by presburger
  then have "unat (ackcount k) + length ?d div 24 < 2 ^ 30" using app_roomD [OF assms(2) Some] by linarith
  from ikcp_input_total [OF app_kcpD(1) [OF assms(1) Some] this] obtain n k1
    where i: "ikcp_input (\<lambda>_ _. True) k (Some ?d) = Inr (n, k1)" by blast
  have "\<exists>x. ikcp_recv kx True (int RECV_SIZE) = Inr x" for kx
    using ikcp_recv_no_fault [of kx True "int RECV_SIZE"] by (cases "ikcp_recv kx True (int RECV_SIZE)") auto
  then obtain x y where "ikcp_recv k1 True (int RECV_SIZE) = Inr x" "ikcp_recv k True (int RECV_SIZE) = Inr y" by blast
  with i Some show ?thesis by (cases x; cases y) (auto simp: receiveData_def Let_def split: option.splits)
qed

end
