(* ===== verification/App_Delivery.thy ===== *)
theory App_Delivery
  imports Kcp_Wrapper
begin

text \<open>
  Two wrappers and the datagrams between them: what the native methods do with a message. The
  receiving side feeds one datagram to the control block and reads once, into 1500 bytes. A message
  of 1 to 1500 bytes comes out of exactly one call; a longer one is never handed over, and blocks
  everything behind it.
\<close>

section \<open>A message that is too long blocks the reader\<close>

definition app_jammed :: "kcp_app \<Rightarrow> bool" where
  "app_jammed g \<longleftrightarrow> (\<exists>k. app_kcp g = Some k \<and> jammed (int RECV_SIZE) k)"

lemma app_jammed_grows:
  assumes "app_inv g" "app_jammed g" "app_kcp g = Some k" "kcp_inv k'" "rx_grows k k'"
  shows "app_jammed (g\<lparr>app_kcp := Some k'\<rparr>)"
  using jammed_grows [of "int RECV_SIZE" k k'] assms app_kcpD(5) [OF assms(1,3)]
  by (simp add: app_jammed_def kcp_inv_def)

lemma jammed_receive:
  assumes "app_inv g" "app_jammed g" "app_room g" "receiveData ok made g dgram = Inr (r, g')"
  shows "r = None \<and> app_jammed g'"
  using assms(4)
proof (cases rule: receiveData_cases)
  case off
  with assms(2) show ?thesis by simp
next
  case (on k k1 n k2 recv_len out)
  let ?d = "case dgram of None \<Rightarrow> [] | Some d \<Rightarrow> take RECV_SIZE d"
  have "length ?d \<le> RECV_SIZE" by (auto split: option.split)
  then have k1: "kcp_inv k1 \<and> keeps k k1"
    using on(2) receive_input_inv [OF assms(1,3) on(1)] app_kcpD(1) [OF assms(1) on(1)]
    by (cases "?d = []") (simp, metis)
  then have "app_jammed (g\<lparr>app_kcp := Some k1\<rparr>)"
    using app_jammed_grows [OF assms(1,2) on(1)] by (simp add: keeps_def)
  then have j: "jammed (int RECV_SIZE) k1" by (simp add: app_jammed_def)
  then have "recv_len = -3 \<and> k2 = k1" using jammed_recv [OF j, of True] on(3) by simp
  with j on(4,5) show ?thesis by (simp add: app_jammed_def)
qed

lemma jammed_traffic:
  assumes "app_traffic g g'" "app_inv g" "app_jammed g" shows "app_jammed g'"
  using assms(1)
proof (cases rule: app_traffic.cases)
  case (app_update ret now out)
  obtain k where k: "app_kcp g = Some k" using assms(3) by (auto simp: app_jammed_def)
  from updateKcp_eq [OF assms(2) app_update(2) k, of now ret] app_update(1)
  obtain k' where "g' = g\<lparr>app_kcp := Some k'\<rparr>" "kcp_inv k'" "rcv_queue k' = rcv_queue k" by auto
  then show ?thesis using app_jammed_grows [OF assms(2,3) k] by (simp add: rx_grows_def)
next
  case (app_send ok pinned arr r)
  obtain k where k: "app_kcp g = Some k" using assms(3) by (auto simp: app_jammed_def)
  obtain k' where s: "ikcp_send ok k (if pinned then Some arr else None) (int (length arr)) = Inr (r, k')"
    and g': "g' = g\<lparr>app_kcp := Some k'\<rparr>"
    using app_send(1) k by (auto simp: sendData_def Let_def split: sum.splits)
  have "kcp_inv k'" using ikcp_send_inv [OF s app_kcpD(1) [OF assms(2) k]] app_send(2) app_roomD [OF app_send(3) k] by simp
  then show ?thesis
    using app_jammed_grows [OF assms(2,3) k] send_keeps [OF s] by (simp add: g' keeps_def)
next
  case (app_receive ok made dgram r)
  then show ?thesis using jammed_receive assms(2,3) by blast
next
  case (app_key key iv)
  then show ?thesis using assms(3) by (auto simp: set_aes_key_iv_def app_jammed_def split: if_splits)
qed

lemma jammed_reach:
  assumes "reachable (\<lambda>s. s = g) app_traffic g'" "app_inv g" "app_jammed g"
  shows "app_inv g' \<and> app_jammed g'"
  using assms
  by (induction rule: reachable.induct) (auto intro: traffic_inv jammed_traffic)

section \<open>The datagrams of one message\<close>

fun receive_all :: "kcp_app \<Rightarrow> bytes list \<Rightarrow> (bytes list \<times> kcp_app) result" where
  "receive_all g [] = Inr ([], g)"
| "receive_all g (d # ds) =
    (case receiveData (\<lambda>_ _. True) True g (Some d) of Inl e \<Rightarrow> Inl e
     | Inr (r, g) \<Rightarrow>
        (case receive_all g ds of Inl e \<Rightarrow> Inl e
         | Inr (rs, g) \<Rightarrow> Inr ((case r of None \<Rightarrow> [] | Some b \<Rightarrow> [b]) @ rs, g)))"

text \<open>A reader that has got \<open>i\<close> of the fragments of a message.\<close>

lemma recv_empty: "arriving [] base c w a 0 k \<Longrightarrow> ikcp_recv k True l = Inr (-1, [], k)"
  by (simp add: arriving_def ikcp_recv_def)

lemma recv_incomplete:
  assumes A: "arriving (msg_keys m b) base c w a i k" and n: "length (fragments m b) \<le> 255" and i: "i < length (fragments m b)"
  shows "\<exists>r < 0. ikcp_recv k True (int l) = Inr (r, [], k)"
proof (cases "rcv_queue k")
  case Nil
  then show ?thesis by (intro exI [of _ "-1"]) (simp add: ikcp_recv_def)
next
  case (Cons s q)
  have q: "map seg_key (rcv_queue k) = take i (msg_keys m b)" "que_inv k" using A by (simp_all add: arriving_def kcp_inv_def)
  have len: "length (rcv_queue k) = i" using arg_cong [OF q(1), of length] i by simp
  then have "0 < i" using Cons by auto
  have l0: "fragments m b \<noteq> []" using i by auto
  have "frg s = fst (seg_key (rcv_queue k ! 0))" by (simp add: Cons seg_key_def)
  also have "\<dots> = fst (map seg_key (rcv_queue k) ! 0)" using \<open>0 < i\<close> len by (subst nth_map) auto
  also have "\<dots> = fst (msg_keys m b ! 0)" using q(1) \<open>0 < i\<close> by simp
  also have "\<dots> = word_of_nat (length (fragments m b) - 1)"
    unfolding msg_keys_def map_key_frags by (simp add: nth_zip rev_nth l0)
  finally have f: "unat (frg s) = length (fragments m b) - 1" using n by (simp add: unat_word_of_nat_u32)
  have "\<not> 0 \<le> ikcp_peeksize k" using peeksize_complete [OF _ Cons q(2)] f n i len by fastforce
  then show ?thesis using Cons by (intro exI [of _ "-2"]) (simp add: ikcp_recv_def Let_def)
qed

lemma recv_state_idle:
  assumes A: "arriving K base c w a (length K) k" and r: "ikcp_recv k True l = Inr (n, out, recv_state k (rcv_queue k))"
  shows "arriving [] (base + word_of_nat (length K)) c w (a + length K) 0 (recv_state k (rcv_queue k))"
proof -
  let ?k = "k\<lparr>rcv_queue := [], nrcv_que := nrcv_que k - word_of_nat (length (rcv_queue k))\<rparr>"
  have i: "kcp_inv (recv_state k (rcv_queue k))" using ikcp_recv_inv [OF r] A by (simp add: arriving_def)
  have "move_ready ?k = ?k" using A by (simp add: arriving_def move_ready.simps [of ?k])
  then have "recv_state k (rcv_queue k) = ?k \<or> (\<exists>p. recv_state k (rcv_queue k) = ?k\<lparr>probe := p\<rparr>)"
    by (auto simp: recv_state_def Let_def)
  then show ?thesis using A i by (auto simp: arriving_def)
qed

lemma recv_complete:
  assumes A: "arriving (msg_keys m b) base c w a (length (fragments m b)) k" and n: "length (fragments m b) \<le> 255"
    and b: "length b < 2 ^ 31"
  shows "if length b \<le> RECV_SIZE
    then \<exists>k'. ikcp_recv k True (int RECV_SIZE) = Inr (int (length b), b, k')
      \<and> arriving [] (base + word_of_nat (length (fragments m b))) c w (a + length (fragments m b)) 0 k'
    else jammed (int RECV_SIZE) k"
proof -
  have q: "map seg_key (rcv_queue k) = msg_keys m b" "que_inv k" "\<forall>s \<in> set (rcv_queue k). seg_ok s"
    using A by (auto simp: arriving_def kcp_inv_defs)
  have msg: "is_message (rcv_queue k) b" using keys_message [OF q(1) n] .
  show ?thesis
  proof (cases "length b \<le> RECV_SIZE")
    case True
    then have "ikcp_recv k True (int RECV_SIZE) = Inr (int (length b), b, recv_state k (rcv_queue k))"
      by (intro ikcp_recv_message [of k _ "[]"] msg q(2,3)) (auto simp: RECV_SIZE_def)
    with recv_state_idle [of "msg_keys m b" base c w a k] A True show ?thesis by auto
  next
    case False
    have p: "ikcp_peeksize k = int (length b)"
      using peeksize_message [of k "rcv_queue k" "[]"] msg q(2,3) b by simp
    obtain xs x where x: "rcv_queue k = xs @ [x]" using msg by (metis is_message_def rev_exhaust)
    have "last (map frg (rcv_queue k)) = word_of_nat (last (rev [0..<length (rcv_queue k)]))"
      using msg by (simp add: is_message_def last_map)
    then have "frg x = 0" by (simp add: x last_rev)
    with p False show ?thesis by (auto simp: jammed_def x)
  qed
qed

text \<open>Datagrams that carry no further data.\<close>

lemma carries_none: "carries c K base i ps j \<Longrightarrow> j \<le> i \<Longrightarrow> carries c [] base' 0 ps 0"
proof (induction rule: carries.induct)
  case (carry_push s i ps j)
  then show ?case using carries_le [of c K base "Suc i" ps j] by simp
qed (auto intro: carries.intros)

lemma carries_datagrams: "carries c K base i (concat ds) j \<Longrightarrow> d \<in> set ds \<Longrightarrow> p \<in> set d \<Longrightarrow> 24 \<le> length (concat d)"
  using carries_pieces [of c K base i "concat ds" j] length_le_concat [of p d] by fastforce

definition piece_sizes :: "bytes list list \<Rightarrow> bool" where
  "piece_sizes ds \<longleftrightarrow> (\<forall>d \<in> set ds. concat d \<noteq> [] \<and> length (concat d) \<le> RECV_SIZE)"

text \<open>One call of \<open>receiveData\<close> on such a datagram.\<close>

lemma receive_step:
  assumes g: "app_kcp g = Some k" "udp_fd g \<ge> 0" and A: "arriving K base c w a i k"
    and P: "carries c K base i d j" and d: "concat d \<noteq> []" "length (concat d) \<le> RECV_SIZE"
    and b: "a + length K < 2 ^ 30" "length K \<le> unat w" "j \<le> length K"
  shows "\<exists>k1. arriving K base c w a j k1
    \<and> receiveData (\<lambda>_ _. True) True g (Some (concat d)) =
        (case ikcp_recv k1 True (int RECV_SIZE) of Inl e \<Rightarrow> Inl e
         | Inr (n, out, k2) \<Rightarrow> Inr (if n > 0 then Some (take (nat n) out) else None, g\<lparr>app_kcp := Some k2\<rparr>))"
proof -
  obtain p where "p \<in> set d" using d(1) by (cases d) auto
  then have "24 \<le> length (concat d)" using carries_datagrams [of c K base i "[d]" j d p] P by simp
  from arriving_input [OF A P this b] obtain k1 where
    "ikcp_input (\<lambda>_ _. True) k (Some (concat d)) = Inr (0, k1)" "arriving K base c w a j k1" by blast
  with g d show ?thesis
    by (intro exI [of _ k1]) (auto simp: receiveData_def Let_def RECV_SIZE_def split: sum.splits)
qed

lemma receive_idle:
  assumes "app_kcp g = Some k" "udp_fd g \<ge> 0" "arriving [] base c w a 0 k" "carries c [] base 0 (concat ds) 0"
    "piece_sizes ds" "a < 2 ^ 30"
  shows "\<exists>g'. receive_all g (map concat ds) = Inr ([], g')"
  using assms
proof (induction ds arbitrary: g k)
  case (Cons d ds)
  obtain m where m: "carries c [] base 0 d m" "carries c [] base m (concat ds) 0"
    using carries_split [of c "[]" base 0 d "concat ds" 0] Cons.prems(4) by auto
  have z: "m = 0" using carries_le [OF m(2)] by simp
  obtain k1 where k1: "arriving [] base c w a 0 k1"
    "receiveData (\<lambda>_ _. True) True g (Some (concat d)) =
        (case ikcp_recv k1 True (int RECV_SIZE) of Inl e \<Rightarrow> Inl e
         | Inr (n, out, k2) \<Rightarrow> Inr (if n > 0 then Some (take (nat n) out) else None, g\<lparr>app_kcp := Some k2\<rparr>))"
    using receive_step [OF Cons.prems(1-3), of d 0] m(1) z Cons.prems(5,6) by (auto simp: piece_sizes_def)
  have "receiveData (\<lambda>_ _. True) True g (Some (concat d)) = Inr (None, g\<lparr>app_kcp := Some k1\<rparr>)"
    using k1(2) recv_empty [OF k1(1)] by simp
  moreover have "\<exists>g'. receive_all (g\<lparr>app_kcp := Some k1\<rparr>) (map concat ds) = Inr ([], g')"
    by (rule Cons.IH [of _ k1]) (use k1(1) m(2) z Cons.prems(2,5,6) in \<open>simp_all add: piece_sizes_def\<close>)
  ultimately show ?case by auto
qed simp

text \<open>A reader blocked by a message that has arrived in full.\<close>

lemma receive_blocked:
  assumes "app_kcp g = Some k" "udp_fd g \<ge> 0" "arriving (msg_keys m b) base c w a (length (fragments m b)) k"
    "carries c (msg_keys m b) base (length (fragments m b)) (concat ds) (length (fragments m b))" "piece_sizes ds"
    "a + length (fragments m b) < 2 ^ 30" "length (fragments m b) \<le> unat w"
    "length (fragments m b) \<le> 255" "length b < 2 ^ 31" "RECV_SIZE < length b"
  shows "\<exists>g'. receive_all g (map concat ds) = Inr ([], g') \<and> app_jammed g'"
  using assms
proof (induction ds arbitrary: g k)
  case Nil
  then show ?case using recv_complete [OF Nil.prems(3,8,9)] by (simp add: app_jammed_def)
next
  case (Cons d ds)
  let ?n = "length (fragments m b)"
  obtain j where j: "carries c (msg_keys m b) base ?n d j" "carries c (msg_keys m b) base j (concat ds) ?n"
    using carries_split [of c "msg_keys m b" base ?n d "concat ds" ?n] Cons.prems(4) by auto
  have z: "j = ?n" using carries_le [OF j(1)] carries_le [OF j(2)] by simp
  obtain k1 where k1: "arriving (msg_keys m b) base c w a ?n k1"
    "receiveData (\<lambda>_ _. True) True g (Some (concat d)) =
        (case ikcp_recv k1 True (int RECV_SIZE) of Inl e \<Rightarrow> Inl e
         | Inr (n, out, k2) \<Rightarrow> Inr (if n > 0 then Some (take (nat n) out) else None, g\<lparr>app_kcp := Some k2\<rparr>))"
    using receive_step [OF Cons.prems(1-3), of d ?n] j(1) z Cons.prems(5-7) by (auto simp: piece_sizes_def)
  have "jammed (int RECV_SIZE) k1" using recv_complete [OF k1(1) Cons.prems(8,9)] Cons.prems(10) by simp
  then have "receiveData (\<lambda>_ _. True) True g (Some (concat d)) = Inr (None, g\<lparr>app_kcp := Some k1\<rparr>)"
    using k1(2) jammed_recv [of "int RECV_SIZE" k1] by simp
  moreover have "\<exists>g'. receive_all (g\<lparr>app_kcp := Some k1\<rparr>) (map concat ds) = Inr ([], g') \<and> app_jammed g'"
    by (rule Cons.IH [of _ k1]) (use k1(1) j(2) z Cons.prems(2,5-10) in \<open>simp_all add: piece_sizes_def\<close>)
  ultimately show ?case by auto
qed

definition handed_over :: "bytes \<Rightarrow> bytes list" where
  "handed_over b = (if b \<noteq> [] \<and> length b \<le> RECV_SIZE then [b] else [])"

lemma receive_message:
  assumes "app_kcp g = Some k" "udp_fd g \<ge> 0" "arriving (msg_keys m b) base c w a i k" "i < length (fragments m b)"
    "carries c (msg_keys m b) base i (concat ds) (length (fragments m b))" "piece_sizes ds"
    "a + length (fragments m b) < 2 ^ 30" "length (fragments m b) \<le> unat w"
    "length (fragments m b) \<le> 255" "length b < 2 ^ 31"
  shows "\<exists>g'. receive_all g (map concat ds) = Inr (handed_over b, g') \<and> (RECV_SIZE < length b \<longrightarrow> app_jammed g')"
  using assms
proof (induction ds arbitrary: g k i)
  case Nil
  then have "i = length (fragments m b)" by (auto elim: carry_NilE)
  with Nil.prems(4) show ?case by simp
next
  case (Cons d ds)
  let ?n = "length (fragments m b)"
  obtain j where j: "carries c (msg_keys m b) base i d j" "carries c (msg_keys m b) base j (concat ds) ?n"
    using carries_split [of c "msg_keys m b" base i d "concat ds" ?n] Cons.prems(5) by auto
  have jn: "j \<le> ?n" using carries_le [OF j(2)] .
  obtain k1 where k1: "arriving (msg_keys m b) base c w a j k1"
    and r: "receiveData (\<lambda>_ _. True) True g (Some (concat d)) =
        (case ikcp_recv k1 True (int RECV_SIZE) of Inl e \<Rightarrow> Inl e
         | Inr (n, out, k2) \<Rightarrow> Inr (if n > 0 then Some (take (nat n) out) else None, g\<lparr>app_kcp := Some k2\<rparr>))"
    using receive_step [OF Cons.prems(1-3) j(1)] jn Cons.prems(6-8) by (auto simp: piece_sizes_def)
  have ds: "piece_sizes ds" using Cons.prems(6) by (simp add: piece_sizes_def)
  show ?case
  proof (cases "j < ?n")
    case True
    obtain e where "e < 0" "ikcp_recv k1 True (int RECV_SIZE) = Inr (e, [], k1)"
      using recv_incomplete [OF k1 Cons.prems(9) True] by blast
    then have "receiveData (\<lambda>_ _. True) True g (Some (concat d)) = Inr (None, g\<lparr>app_kcp := Some k1\<rparr>)" using r by simp
    moreover have "\<exists>g'. receive_all (g\<lparr>app_kcp := Some k1\<rparr>) (map concat ds) = Inr (handed_over b, g')
        \<and> (RECV_SIZE < length b \<longrightarrow> app_jammed g')"
      by (rule Cons.IH [of _ k1 j]) (use k1(1) j(2) True ds Cons.prems(2,7-10) in simp_all)
    ultimately show ?thesis by auto
  next
    case False
    then have z: "j = ?n" using jn by simp
    note C = recv_complete [OF k1 [unfolded z] Cons.prems(9,10)]
    show ?thesis
    proof (cases "length b \<le> RECV_SIZE")
      case True
      then obtain k' where k': "ikcp_recv k1 True (int RECV_SIZE) = Inr (int (length b), b, k')"
        "arriving [] (base + word_of_nat ?n) c w (a + ?n) 0 k'" using C by auto
      have c0: "carries c [] (base + word_of_nat ?n) 0 (concat ds) 0" using carries_none [OF j(2)] z by simp
      have "\<exists>g'. receive_all (g\<lparr>app_kcp := Some k'\<rparr>) (map concat ds) = Inr ([], g')"
        by (rule receive_idle [OF _ _ k'(2) c0 ds]) (use Cons.prems(2,7) in simp_all)
      moreover have "receiveData (\<lambda>_ _. True) True g (Some (concat d)) =
          Inr (if b \<noteq> [] then Some b else None, g\<lparr>app_kcp := Some k'\<rparr>)" using r k'(1) by simp
      ultimately show ?thesis using True by (auto simp: handed_over_def)
    next
      case F: False
      then have "receiveData (\<lambda>_ _. True) True g (Some (concat d)) = Inr (None, g\<lparr>app_kcp := Some k1\<rparr>)"
        using r C jammed_recv [of "int RECV_SIZE" k1] by simp
      moreover have "\<exists>g'. receive_all (g\<lparr>app_kcp := Some k1\<rparr>) (map concat ds) = Inr ([], g') \<and> app_jammed g'"
        by (rule receive_blocked [of _ k1]) (use k1 j(2) z ds F Cons.prems(2,7-10) in \<open>simp_all add: not_le\<close>)
      ultimately show ?thesis using F by (auto simp: handed_over_def)
    qed
  qed
qed

section \<open>From one wrapper to the other\<close>

text \<open>A wrapper with nothing queued, in flight or waiting to be read.\<close>

definition app_idle :: "kcp_app \<Rightarrow> ikcpcb \<Rightarrow> bool" where
  "app_idle g k \<longleftrightarrow> app_inv g \<and> app_kcp g = Some k \<and> udp_fd g \<ge> 0
     \<and> snd_queue k = [] \<and> snd_buf k = [] \<and> rcv_queue k = [] \<and> rcv_buf k = [] \<and> unat (ackcount k) < 2 ^ 29"

lemma output_all_sent: "udp_fd g \<ge> 0 \<Longrightarrow> \<forall>i. ret i \<ge> 0 \<Longrightarrow> output_all g ret i ds = ds"
  by (induction ds arbitrary: i) (auto simp: udp_output_def not_less)

lemma update_clock_queue:
  "update_clock (k\<lparr>snd_queue := q, nsnd_que := n\<rparr>) now =
    (let (due, c) = update_clock k now in (due, c\<lparr>snd_queue := q, nsnd_que := n\<rparr>))"
proof -
  let ?t = "if updated k = 0 then now else ts_flush k"
  show ?thesis
    by (cases "updated k = 0"; cases "itimediff now ?t \<ge> 10000 \<or> itimediff now ?t < -10000"; cases "itimediff now ?t \<ge> 0")
       (simp_all add: update_clock_def Let_def if_distrib cong: if_cong)
qed

lemma update_clock_same:
  "update_clock k now = (due, c) \<Longrightarrow> snd_queue c = snd_queue k \<and> snd_buf c = snd_buf k \<and> kconv c = kconv k
    \<and> snd_nxt c = snd_nxt k \<and> snd_una c = snd_una k \<and> flush_cwnd c = flush_cwnd k"
  by (auto simp: update_clock_def Let_def flush_cwnd_def split: if_splits)

lemma flush_cwnd_queue: "flush_cwnd (k\<lparr>snd_queue := q, nsnd_que := n\<rparr>) = flush_cwnd k"
  by (simp add: flush_cwnd_def Let_def)

lemma app_delivers:
  assumes t: "app_idle gt kt" and r: "app_idle gr kr" and eq: "kconv kr = kconv kt" "rcv_nxt kr = snd_nxt kt"
    and b: "length b < 2 ^ 31" and n: "length (fragments 1376 b) \<le> 255"
    "length (fragments 1376 b) \<le> unat (rcv_wnd kr)"
    "unat (snd_nxt kt - snd_una kt) + length (fragments 1376 b) \<le> unat (flush_cwnd kt)"
    and due: "fst (update_clock kt (word_of_int now))" and ret: "\<forall>i. ret i \<ge> 0"
  shows "\<exists>g1 g2 out g3. sendData (\<lambda>_. True) True gt b = Inr (0, g1) \<and> updateKcp ret g1 now = Inr (g2, out)
    \<and> receive_all gr out = Inr (handed_over b, g3) \<and> (RECV_SIZE < length b \<longrightarrow> app_jammed g3)"
proof -
  let ?fs = "fragments 1376 b" and ?K = "msg_keys 1376 b"
  let ?k1 = "kt\<lparr>snd_queue := frag_segs ?fs, nsnd_que := nsnd_que kt + word_of_nat (length ?fs)\<rparr>"
  have gt: "app_inv gt" "app_kcp gt = Some kt" "udp_fd gt \<ge> 0" "snd_queue kt = []" "snd_buf kt = []" "unat (ackcount kt) < 2 ^ 29"
    using t by (simp_all add: app_idle_def)
  note kt = app_kcpD [OF gt(1,2)]
  have um: "unat (mss kt) = 1376" using kt(3) by simp
  have s: "ikcp_send (\<lambda>_. True) kt (Some b) (int (length b)) = Inr (0, ?k1)"
    using ikcp_send_message [of "\<lambda>_. True" kt b] kt b n(1) gt(4) by (simp add: Let_def um)
  have i1: "kcp_inv ?k1" using ikcp_send_inv [OF s kt(1)] b gt(4) by simp
  obtain c0 where c0: "update_clock kt (word_of_int now) = (True, c0)" using due by (metis prod.collapse)
  let ?c = "c0\<lparr>snd_queue := frag_segs ?fs, nsnd_que := nsnd_que kt + word_of_nat (length ?fs)\<rparr>"
  obtain c where c: "update_clock ?k1 (word_of_int now) = (True, c)" and "c = ?c"
    unfolding update_clock_queue c0 by simp
  then have cq: "snd_queue c = frag_segs ?fs" "snd_buf c = []" "kconv c = kconv kt" "snd_nxt c = snd_nxt kt"
    "snd_una c = snd_una kt" "flush_cwnd c = flush_cwnd kt"
    using update_clock_same [OF c0] gt(5) flush_cwnd_queue [where k = c0] by simp_all
  have ci: "kcp_inv c" "output_set c" "unat (ackcount c) < 2 ^ 30" "mss c = 1376"
    using update_clock_inv [OF i1, of "word_of_int now"] update_clock_fields [of ?k1 "word_of_int now"] c kt gt(6)
    by (simp_all add: tx_sub_def)
  obtain k2 ds x y where f: "ikcp_flush c = Inr (k2, map concat ds)" "concat ds = flush_pieces c x y"
    "\<forall>d \<in> set (map concat ds). 0 < length d \<and> length d \<le> unat (mtu c)"
    using ikcp_flush_spec [OF ci(1-3)] by auto
  have "unat (mtu c) = 1400" using ci(1,4) by (simp add: kcp_inv_def mtu_inv_def)
  then have ps: "piece_sizes ds" using f(3) by (fastforce simp: piece_sizes_def RECV_SIZE_def)
  have ca: "carries (kconv kt) ?K (snd_nxt kt) 0 (concat ds) (length ?fs)"
    using flush_pieces_carry [OF ci(1) cq(2), of x y] cq keys_small [OF n(1)] n(3) unfolding f(2)
    by (simp add: msg_keys_def)
  have ar: "arriving ?K (snd_nxt kt) (kconv kt) (rcv_wnd kr) (unat (ackcount kr)) 0 kr"
    using r eq app_kcpD(1) [of gr kr] by (simp add: arriving_def app_idle_def)
  have ne: "0 < length ?fs" by (simp add: fragments.simps [of 1376 b])
  have "\<exists>g'. receive_all gr (map concat ds) = Inr (handed_over b, g') \<and> (RECV_SIZE < length b \<longrightarrow> app_jammed g')"
    by (rule receive_message [OF _ _ ar ne ca ps]) (use r n b in \<open>simp_all add: app_idle_def\<close>)
  then obtain g3 where g3: "receive_all gr (map concat ds) = Inr (handed_over b, g3)" "RECV_SIZE < length b \<longrightarrow> app_jammed g3" by blast
  have "sendData (\<lambda>_. True) True gt b = Inr (0, gt\<lparr>app_kcp := Some ?k1\<rparr>)" using s gt(2) by (simp add: sendData_def)
  moreover have "updateKcp ret (gt\<lparr>app_kcp := Some ?k1\<rparr>) now = Inr (gt\<lparr>app_kcp := Some k2\<rparr>, map concat ds)"
    using c f(1) gt(3) output_all_sent [of "gt\<lparr>app_kcp := Some ?k1\<rparr>" ret 0 "map concat ds"] ret
    by (simp add: updateKcp_def ikcp_update_def)
  ultimately show ?thesis using g3 by blast
qed

end
