(* ===== verification/Repeater_Aes.thy ===== *)
theory Repeater_Aes
  imports Wo_Aes "HOL-Library.Char_ord"
begin

text \<open>
  The registry of \<open>repeater_aes.c\<close>: up to five quadruples (address, MAC, key, iv) of the
  connected clients, the client's own quadruple, the default key and the MAC of the master. The
  context is passed explicitly; every operation holds the mutex from its first access to its last,
  so that an operation is one step. A null pointer argument is \<open>None\<close>. Logging is left out,
  and the load and save functions, whose bodies are commented out in the code.
\<close>

definition MAX_AES_KEY_NUM :: nat where "MAX_AES_KEY_NUM = 5"

record quadruples =
  ip :: u32
  mac :: bytes
  qkey :: bytes
  qiv :: bytes

record repeater_ctx =
  client_count :: nat
  default_key :: bytes
  repeater_quadruples :: "quadruples list"
  client_quadruples :: quadruples
  master_mac :: bytes

definition zero_quad :: quadruples where
  "zero_quad = \<lparr>ip = 0, mac = replicate 6 0, qkey = replicate 16 0, qiv = replicate 16 0\<rparr>"

definition ctx_init :: repeater_ctx where
  "ctx_init = \<lparr>client_count = 0, default_key = replicate 16 0,
     repeater_quadruples = replicate MAX_AES_KEY_NUM zero_quad, client_quadruples = zero_quad,
     master_mac = replicate 6 0\<rparr>"

section \<open>MAC addresses as text\<close>

text \<open>
  \<open>sscanf\<close> with \<open>%hhX\<close>: white space is skipped, then an optional sign and an optional
  \<open>0x\<close> (taken as a prefix when a digit follows), then hexadecimal digits, at least one; a
  field width limits what is read after the white space. The value is stored as an unsigned char.
  A directive that does not match stops the scan; the result counts the assignments.
\<close>

definition hex_val :: "char \<Rightarrow> nat option" where
  "hex_val c =
    (let n = of_char c in
     if 48 \<le> n \<and> n \<le> (57 :: nat) then Some (n - 48)
     else if 65 \<le> n \<and> n \<le> 70 then Some (n - 55)
     else if 97 \<le> n \<and> n \<le> 102 then Some (n - 87) else None)"

definition is_space :: "char \<Rightarrow> bool" where
  "is_space c = (let n = of_char c :: nat in n = 32 \<or> (9 \<le> n \<and> n \<le> 13))"

fun scan_digits :: "string \<Rightarrow> nat \<Rightarrow> nat \<times> nat" where
  "scan_digits [] v = (v, 0)"
| "scan_digits (c # s) v =
    (case hex_val c of None \<Rightarrow> (v, 0)
     | Some d \<Rightarrow> let (w, n) = scan_digits s (16 * v + d) in (w, Suc n))"

definition scan_sign :: "string \<Rightarrow> bool \<times> string" where
  "scan_sign s = (case s of [] \<Rightarrow> (False, s)
     | c # r \<Rightarrow> if c = CHR ''-'' then (True, r) else if c = CHR ''+'' then (False, r) else (False, s))"

definition scan_prefix :: "string \<Rightarrow> string" where
  "scan_prefix s = (case s of a # b # c # r \<Rightarrow>
       if a = CHR ''0'' \<and> (b = CHR ''x'' \<or> b = CHR ''X'') \<and> hex_val c \<noteq> None then c # r else s
     | _ \<Rightarrow> s)"

definition scan_hhx :: "nat option \<Rightarrow> string \<Rightarrow> (u8 \<times> string) option" where
  "scan_hhx width s =
    (let s = dropWhile is_space s;
         t = (case width of None \<Rightarrow> s | Some w \<Rightarrow> take w s);
         (neg, u) = scan_sign t;
         u = scan_prefix u;
         (v, n) = scan_digits u 0;
         v = (if v < 2 ^ 64 then int v else 2 ^ 64 - 1)
     in if n = 0 then None
        else Some (word_of_int (if neg then - v else v), drop (length t - length u + n) s))"

fun scan_mac :: "nat option \<Rightarrow> bool \<Rightarrow> nat \<Rightarrow> nat \<Rightarrow> string \<Rightarrow> bytes \<Rightarrow> nat \<times> bytes" where
  "scan_mac width colon i 0 s m = (i, m)"
| "scan_mac width colon i (Suc n) s m =
    (case scan_hhx width s of None \<Rightarrow> (i, m)
     | Some (b, s) \<Rightarrow>
        (let m = m[i := b]
         in if colon \<and> n > 0
            then (case s of c # s \<Rightarrow> if c = CHR '':'' then scan_mac width colon (Suc i) n s m else (Suc i, m)
                  | [] \<Rightarrow> (Suc i, m))
            else scan_mac width colon (Suc i) n s m))"

definition str2mac :: "string option \<Rightarrow> bytes \<Rightarrow> int \<times> bytes" where
  "str2mac mac_str m =
    (case mac_str of None \<Rightarrow> (-1, m)
     | Some s \<Rightarrow>
        if length m < 6 then (-1, m)
        else
          let (ret, m) = scan_mac None True 0 6 s m
          in if ret \<noteq> 6
             then if length s \<noteq> 12 then (-1, m)
                  else let (ret, m) = scan_mac (Some 2) False 0 6 s m
                       in if ret \<noteq> 6 then (-1, m) else (0, m)
             else (0, m))"

definition hex_digit :: "nat \<Rightarrow> char" where
  "hex_digit d = char_of (if d < 10 then 48 + d else 55 + d)"

definition put_hhX :: "u8 \<Rightarrow> string" where
  "put_hhX b = [hex_digit (unat b div 16), hex_digit (unat b mod 16)]"

text \<open>
  \<open>mat2str\<close> and \<open>mat2str_raw\<close> give the text written to the buffer, or the literal
  \<open>NULL\<close> when the buffer is too small; their \<open>snprintf\<close> fits the 18 bytes asked for.
\<close>

definition mat2str :: "bytes option \<Rightarrow> nat \<Rightarrow> string" where
  "mat2str m buff_size =
    (case m of None \<Rightarrow> ''NULL''
     | Some m \<Rightarrow> if buff_size < 18 then ''NULL''
        else put_hhX (m ! 0) @ '':'' @ put_hhX (m ! 1) @ '':'' @ put_hhX (m ! 2) @ '':'' @
             put_hhX (m ! 3) @ '':'' @ put_hhX (m ! 4) @ '':'' @ put_hhX (m ! 5))"

definition mat2str_raw :: "bytes option \<Rightarrow> nat \<Rightarrow> string" where
  "mat2str_raw m buff_size =
    (case m of None \<Rightarrow> ''NULL''
     | Some m \<Rightarrow> if buff_size < 18 then ''NULL''
        else put_hhX (m ! 0) @ put_hhX (m ! 1) @ put_hhX (m ! 2) @
             put_hhX (m ! 3) @ put_hhX (m ! 4) @ put_hhX (m ! 5))"

definition key2str :: "bytes \<Rightarrow> bytes \<Rightarrow> bytes option" where
  "key2str key buff =
    (if length buff < AES_KEY_SIZE + 1 then None
     else Some (take AES_KEY_SIZE key @ [0] @ drop (AES_KEY_SIZE + 1) buff))"

section \<open>The registry\<close>

text \<open>The shift loop \<open>for (j = i; j < client_count - 1; j++) q[j] = q[j + 1]\<close>, and the reset of
  the freed slot.\<close>

function shift_loop :: "nat \<Rightarrow> nat \<Rightarrow> 'a list \<Rightarrow> 'a list" where
  "shift_loop j n q = (if j + 1 < n then shift_loop (j + 1) n (q[j := q ! (j + 1)]) else q)"
  by pat_completeness auto
termination by (relation "measure (\<lambda>(j, n, q). n - j)") auto

declare shift_loop.simps [simp del]

definition remove_slot :: "nat \<Rightarrow> repeater_ctx \<Rightarrow> repeater_ctx" where
  "remove_slot i ctx =
    (let n = client_count ctx;
         q = shift_loop i n (repeater_quadruples ctx)
     in ctx\<lparr>repeater_quadruples := q[n - 1 := zero_quad], client_count := n - 1\<rparr>)"

text \<open>The search loops: the index of the first slot, of those in use, with the given MAC.\<close>

fun find_slot :: "quadruples list \<Rightarrow> bytes \<Rightarrow> nat \<Rightarrow> nat \<Rightarrow> nat option" where
  "find_slot q m i 0 = None"
| "find_slot q m i (Suc n) = (if mac (q ! i) = m then Some i else find_slot q m (Suc i) n)"

definition repeater_set_master_mac :: "repeater_ctx \<Rightarrow> bytes \<Rightarrow> repeater_ctx" where
  "repeater_set_master_mac ctx m = ctx\<lparr>master_mac := take 6 m\<rparr>"

definition repeater_get_master_mac :: "repeater_ctx \<Rightarrow> bytes" where
  "repeater_get_master_mac ctx = master_mac ctx"

definition repeater_del_quadruples :: "repeater_ctx \<Rightarrow> bytes option \<Rightarrow> int \<times> repeater_ctx" where
  "repeater_del_quadruples ctx m =
    (case m of None \<Rightarrow> (-1, ctx)
     | Some m \<Rightarrow>
        (case find_slot (repeater_quadruples ctx) m 0 (client_count ctx) of
           None \<Rightarrow> (-1, ctx)
         | Some i \<Rightarrow> (0, remove_slot i ctx)))"

definition repeater_del_all_quadruples :: "repeater_ctx \<Rightarrow> int \<times> repeater_ctx" where
  "repeater_del_all_quadruples ctx =
    (0, ctx\<lparr>client_count := 0, repeater_quadruples := replicate MAX_AES_KEY_NUM zero_quad\<rparr>)"

text \<open>
  \<open>parsed_macs\<close> is a five-slot array; each text that parses fills the next slot, and one
  that does not leaves its partial bytes in the slot the next one uses.
\<close>

fun parse_macs :: "string option list \<Rightarrow> bytes list \<Rightarrow> nat \<Rightarrow> nat \<Rightarrow> bytes list \<times> nat" where
  "parse_macs [] macs i cnt = (macs, cnt)"
| "parse_macs (s # r) macs i cnt =
    (if i < MAX_AES_KEY_NUM
     then let (ret, m) = str2mac s (macs ! cnt)
          in parse_macs r (macs[cnt := m]) (Suc i) (if ret = 0 then Suc cnt else cnt)
     else (macs, cnt))"

fun mac_listed :: "bytes \<Rightarrow> bytes list \<Rightarrow> nat \<Rightarrow> nat \<Rightarrow> bool" where
  "mac_listed m macs j 0 = False"
| "mac_listed m macs j (Suc n) = (if m = macs ! j then True else mac_listed m macs (Suc j) n)"

function sync_loop :: "bytes list \<Rightarrow> nat \<Rightarrow> nat \<Rightarrow> repeater_ctx \<Rightarrow> repeater_ctx" where
  "sync_loop macs cnt idx ctx =
    (if idx < client_count ctx
     then if mac_listed (mac (repeater_quadruples ctx ! idx)) macs 0 cnt
          then sync_loop macs cnt (Suc idx) ctx
          else sync_loop macs cnt idx (remove_slot idx ctx)
     else ctx)"
  by pat_completeness auto
termination
  by (relation "measure (\<lambda>(macs, cnt, idx, ctx). client_count ctx - idx)")
     (auto simp: remove_slot_def Let_def)

declare sync_loop.simps [simp del]

definition repeater_sync_quadruples :: "repeater_ctx \<Rightarrow> string option list option \<Rightarrow> int \<Rightarrow> int \<times> repeater_ctx" where
  "repeater_sync_quadruples ctx macs mac_count =
    (case macs of None \<Rightarrow> (-1, ctx)
     | Some ms \<Rightarrow>
        if mac_count \<le> 0 then (-1, ctx)
        else
          let (parsed, cnt) = parse_macs (take (nat mac_count) ms) (replicate MAX_AES_KEY_NUM (replicate 6 0)) 0 0
          in (0, sync_loop parsed cnt 0 ctx))"

definition repeater_get_client_list :: "repeater_ctx \<Rightarrow> nat \<times> bytes list" where
  "repeater_get_client_list ctx =
    (client_count ctx, map (\<lambda>i. mac (repeater_quadruples ctx ! i)) [0..<client_count ctx])"

definition repeater_set_default_key :: "repeater_ctx \<Rightarrow> bytes option \<Rightarrow> repeater_ctx" where
  "repeater_set_default_key ctx k =
    (case k of None \<Rightarrow> ctx | Some k \<Rightarrow> ctx\<lparr>default_key := take AES_KEY_SIZE k\<rparr>)"

definition repeater_get_default_key :: "repeater_ctx \<Rightarrow> bytes" where
  "repeater_get_default_key ctx = default_key ctx"

definition repeater_get_quadruples :: "repeater_ctx \<Rightarrow> bytes option \<Rightarrow> quadruples option" where
  "repeater_get_quadruples ctx m =
    (case m of None \<Rightarrow> None
     | Some m \<Rightarrow> map_option (\<lambda>i. repeater_quadruples ctx ! i)
         (find_slot (repeater_quadruples ctx) m 0 (client_count ctx)))"

definition repeater_add_quadruples :: "repeater_ctx \<Rightarrow> quadruples option \<Rightarrow> int \<times> repeater_ctx" where
  "repeater_add_quadruples ctx quad =
    (case quad of None \<Rightarrow> (-1, ctx)
     | Some qd \<Rightarrow>
        if client_count ctx \<ge> MAX_AES_KEY_NUM then (-1, ctx)
        else (0, ctx\<lparr>repeater_quadruples := (repeater_quadruples ctx)[client_count ctx := qd],
                     client_count := client_count ctx + 1\<rparr>))"

definition merge_quad :: "quadruples \<Rightarrow> quadruples \<Rightarrow> quadruples" where
  "merge_quad old qd =
    (let old = (if ip qd \<noteq> 0 then old\<lparr>ip := ip qd\<rparr> else old);
         old = (if qkey qd ! 0 \<noteq> 0 then old\<lparr>qkey := qkey qd\<rparr> else old)
     in if qiv qd ! 0 \<noteq> 0 then old\<lparr>qiv := qiv qd\<rparr> else old)"

definition repeater_update_quadruples :: "repeater_ctx \<Rightarrow> quadruples option \<Rightarrow> int \<times> repeater_ctx" where
  "repeater_update_quadruples ctx quad =
    (case quad of None \<Rightarrow> (-1, ctx)
     | Some qd \<Rightarrow>
        (case find_slot (repeater_quadruples ctx) (mac qd) 0 (client_count ctx) of
           Some i \<Rightarrow> (0, ctx\<lparr>repeater_quadruples :=
                        (repeater_quadruples ctx)[i := merge_quad (repeater_quadruples ctx ! i) qd]\<rparr>)
         | None \<Rightarrow> (-1, snd (repeater_add_quadruples ctx (Some qd)))))"

definition repeater_init_client_quadruples :: "repeater_ctx \<Rightarrow> quadruples option \<Rightarrow> repeater_ctx" where
  "repeater_init_client_quadruples ctx quad =
    (case quad of None \<Rightarrow> ctx | Some qd \<Rightarrow> ctx\<lparr>client_quadruples := qd\<rparr>)"

definition repeater_client_get_aes_key :: "repeater_ctx \<Rightarrow> bytes" where
  "repeater_client_get_aes_key ctx = qkey (client_quadruples ctx)"

definition repeater_client_get_aes_iv :: "repeater_ctx \<Rightarrow> bytes" where
  "repeater_client_get_aes_iv ctx = qiv (client_quadruples ctx)"

definition repeater_client_get_mac :: "repeater_ctx \<Rightarrow> bytes" where
  "repeater_client_get_mac ctx = mac (client_quadruples ctx)"

definition repeater_client_get_ip :: "repeater_ctx \<Rightarrow> u32" where
  "repeater_client_get_ip ctx = ip (client_quadruples ctx)"

definition repeater_client_set_ip :: "repeater_ctx \<Rightarrow> u32 \<Rightarrow> repeater_ctx" where
  "repeater_client_set_ip ctx a = ctx\<lparr>client_quadruples := (client_quadruples ctx)\<lparr>ip := a\<rparr>\<rparr>"

text \<open>The repeater id is the low 16 bits of the MAC.\<close>

definition mac_low16 :: "bytes \<Rightarrow> u16" where
  "mac_low16 m = push_bit 8 (ucast (m ! 4)) OR ucast (m ! 5)"

fun find_id :: "quadruples list \<Rightarrow> u16 \<Rightarrow> nat \<Rightarrow> nat \<Rightarrow> bytes option" where
  "find_id q r i 0 = None"
| "find_id q r i (Suc n) =
    (if mac_low16 (mac (q ! i)) = r then Some (mac (q ! i)) else find_id q r (Suc i) n)"

definition repeater_get_mac_by_repeater_id :: "repeater_ctx \<Rightarrow> u16 \<Rightarrow> bytes option \<Rightarrow> int \<times> bytes option" where
  "repeater_get_mac_by_repeater_id ctx r m =
    (case m of None \<Rightarrow> (-1, None)
     | Some buf \<Rightarrow>
        (case find_id (repeater_quadruples ctx) r 0 (client_count ctx) of
           Some x \<Rightarrow> (0, Some x) | None \<Rightarrow> (-1, Some buf)))"

section \<open>Contexts for the cipher\<close>

text \<open>
  \<open>calloc\<close> is the argument \<open>ok\<close>. The encrypter also hands key and iv to the C++ layer: that
  call is the second component.
\<close>

definition repeater_aes_enc_of :: "bool \<Rightarrow> quadruples option \<Rightarrow> (aes_ctx option \<times> (bytes \<times> bytes) option) result" where
  "repeater_aes_enc_of ok quad =
    (case quad of None \<Rightarrow> Inr (None, None)
     | Some qd \<Rightarrow>
        if \<not> ok then Inr (None, None)
        else (case aes_encrypo_opt aes_ctx_zero (Some (qkey qd)) (Some (qiv qd)) AES_OPT_TYPE_ENC_INIT of
            Inl e \<Rightarrow> Inl e
          | Inr (r, enc) \<Rightarrow> Inr (if r \<noteq> 0 then None else Some enc, Some (qkey qd, qiv qd))))"

definition repeater_aes_dec_of :: "bool \<Rightarrow> quadruples option \<Rightarrow> aes_ctx option result" where
  "repeater_aes_dec_of ok quad =
    (case quad of None \<Rightarrow> Inr None
     | Some qd \<Rightarrow>
        if \<not> ok then Inr None
        else (case aes_decrypo_opt aes_ctx_zero (Some (qkey qd)) (Some (qiv qd)) AES_OPT_TYPE_DEC_INIT of
            Inl e \<Rightarrow> Inl e
          | Inr (r, dec) \<Rightarrow> Inr (if r \<noteq> 0 then None else Some dec)))"

definition repeater_aes_enc_get :: "bool \<Rightarrow> repeater_ctx \<Rightarrow> bytes option \<Rightarrow> (aes_ctx option \<times> (bytes \<times> bytes) option) result" where
  "repeater_aes_enc_get ok ctx m =
    (case repeater_get_quadruples ctx m of None \<Rightarrow> Inr (None, None)
     | Some qd \<Rightarrow> repeater_aes_enc_of ok (Some qd))"

definition repeater_aes_dec_get :: "bool \<Rightarrow> repeater_ctx \<Rightarrow> bytes option \<Rightarrow> aes_ctx option result" where
  "repeater_aes_dec_get ok ctx m =
    (case repeater_get_quadruples ctx m of None \<Rightarrow> Inr None
     | Some qd \<Rightarrow> repeater_aes_dec_of ok (Some qd))"

definition repeater_client_aes_enc_get :: "bool \<Rightarrow> repeater_ctx \<Rightarrow> (aes_ctx option \<times> (bytes \<times> bytes) option) result" where
  "repeater_client_aes_enc_get ok ctx = repeater_aes_enc_of ok (Some (client_quadruples ctx))"

definition repeater_client_aes_dec_get :: "bool \<Rightarrow> repeater_ctx \<Rightarrow> aes_ctx option result" where
  "repeater_client_aes_dec_get ok ctx = repeater_aes_dec_of ok (Some (client_quadruples ctx))"


section \<open>The registry as a list of entries\<close>

definition entries :: "repeater_ctx \<Rightarrow> quadruples list" where
  "entries ctx = take (client_count ctx) (repeater_quadruples ctx)"

definition reg_inv :: "repeater_ctx \<Rightarrow> bool" where
  "reg_inv ctx \<longleftrightarrow> length (repeater_quadruples ctx) = MAX_AES_KEY_NUM \<and> client_count ctx \<le> MAX_AES_KEY_NUM
     \<and> distinct (map mac (entries ctx))"

lemma shift_loop_length [simp]: "length (shift_loop j n q) = length q"
proof (induction j n q rule: shift_loop.induct)
  case (1 j n q)
  then show ?case by (simp add: shift_loop.simps [of j])
qed

lemma shift_loop_spec:
  "j < n \<Longrightarrow> n \<le> length q \<Longrightarrow> take (n - 1) (shift_loop j n q) = take j q @ drop (Suc j) (take n q)"
proof (induction j n q rule: shift_loop.induct)
  case (1 j n q)
  show ?case
  proof (cases "j + 1 < n")
    case False
    then have "n = Suc j" using "1.prems" by simp
    then show ?thesis by (simp add: shift_loop.simps [of j])
  next
    case True
    let ?q = "q[j := q ! (j + 1)]"
    have "take (n - 1) (shift_loop j n q) = take (j + 1) ?q @ drop (Suc (j + 1)) (take n ?q)"
      using 1 True by (simp add: shift_loop.simps [of j])
    also have "take (j + 1) ?q = take j q @ [q ! (j + 1)]"
      using 1 True by (simp add: take_Suc_conv_app_nth)
    also have "drop (Suc (j + 1)) (take n ?q) = drop (Suc (j + 1)) (take n q)"
      by (simp add: take_update_swap)
    also have "(take j q @ [q ! (j + 1)]) @ drop (Suc (j + 1)) (take n q) = take j q @ drop (Suc j) (take n q)"
      using True "1.prems" Cons_nth_drop_Suc [of "Suc j" "take n q"] by simp
    finally show ?thesis .
  qed
qed

lemma entries_remove:
  assumes "reg_inv ctx" "i < client_count ctx"
  shows "entries (remove_slot i ctx) = take i (entries ctx) @ drop (Suc i) (entries ctx)"
    and "client_count (remove_slot i ctx) = client_count ctx - 1"
    and "length (repeater_quadruples (remove_slot i ctx)) = MAX_AES_KEY_NUM"
proof -
  have n: "client_count ctx \<le> length (repeater_quadruples ctx)" using assms(1) by (simp add: reg_inv_def)
  show "entries (remove_slot i ctx) = take i (entries ctx) @ drop (Suc i) (entries ctx)"
    using shift_loop_spec [OF assms(2) n] assms(2)
    by (simp add: entries_def remove_slot_def Let_def min_def)
  show "client_count (remove_slot i ctx) = client_count ctx - 1"
    "length (repeater_quadruples (remove_slot i ctx)) = MAX_AES_KEY_NUM"
    using assms(1) by (simp_all add: remove_slot_def Let_def reg_inv_def)
qed

text \<open>Slots in use, by their number.\<close>

lemma entries_nth: "reg_inv ctx \<Longrightarrow> i < client_count ctx \<Longrightarrow> entries ctx ! i = repeater_quadruples ctx ! i"
  by (simp add: entries_def)

lemma length_entries: "reg_inv ctx \<Longrightarrow> length (entries ctx) = client_count ctx"
  by (simp add: entries_def reg_inv_def)

lemma filter_distinct_nth:
  assumes "distinct (map f xs)" "i < length xs"
  shows "filter (\<lambda>x. f x \<noteq> f (xs ! i)) xs = take i xs @ drop (Suc i) xs"
proof -
  have e: "xs = take i xs @ xs ! i # drop (Suc i) xs" using assms(2) by (rule id_take_nth_drop)
  have d: "distinct (map f (take i xs @ xs ! i # drop (Suc i) xs))" using assms(1) e by simp
  have "\<forall>x \<in> set (take i xs). f x \<noteq> f (xs ! i)" "\<forall>x \<in> set (drop (Suc i) xs). f x \<noteq> f (xs ! i)"
  proof -
    have "f (xs ! i) \<notin> f ` set (take i xs)" "f (xs ! i) \<notin> f ` set (drop (Suc i) xs)" using d by simp_all
    then show "\<forall>x \<in> set (take i xs). f x \<noteq> f (xs ! i)" "\<forall>x \<in> set (drop (Suc i) xs). f x \<noteq> f (xs ! i)"
      by (metis image_eqI)+
  qed
  then have "filter (\<lambda>x. f x \<noteq> f (xs ! i)) (take i xs @ xs ! i # drop (Suc i) xs) = take i xs @ drop (Suc i) xs"
    by (simp only: filter_append filter.simps filter_True) simp
  then show ?thesis using e by simp
qed

lemma entries_remove_filter:
  assumes inv: "reg_inv ctx" and i: "i < client_count ctx"
  shows "entries (remove_slot i ctx) = filter (\<lambda>q. mac q \<noteq> mac (repeater_quadruples ctx ! i)) (entries ctx)"
  using filter_distinct_nth [of mac "entries ctx" i] inv i length_entries [OF inv] entries_nth [OF inv i]
    entries_remove(1) [OF inv i]
  by (simp add: reg_inv_def)

lemma remove_slot_inv:
  assumes "reg_inv ctx" "i < client_count ctx" shows "reg_inv (remove_slot i ctx)"
proof -
  have "distinct (map mac (entries (remove_slot i ctx)))"
    unfolding entries_remove_filter [OF assms] using assms(1) by (auto simp: reg_inv_def intro: distinct_map_filter)
  moreover have "client_count (remove_slot i ctx) \<le> MAX_AES_KEY_NUM"
    using assms(1) entries_remove(2) [OF assms] by (auto simp: reg_inv_def)
  ultimately show ?thesis using entries_remove(3) [OF assms] by (simp add: reg_inv_def)
qed

lemma find_slot_Some: "find_slot q m i n = Some j \<Longrightarrow> i \<le> j \<and> j < i + n \<and> mac (q ! j) = m"
proof (induction n arbitrary: i)
  case 0
  then show ?case by simp
next
  case (Suc n)
  then show ?case using Suc.IH [of "Suc i"] by (fastforce split: if_splits)
qed

lemma find_slot_None: "find_slot q m i n = None \<longleftrightarrow> (\<forall>j. i \<le> j \<and> j < i + n \<longrightarrow> mac (q ! j) \<noteq> m)"
proof (induction n arbitrary: i)
  case 0
  then show ?case by auto
next
  case (Suc n)
  have "(\<forall>j. i \<le> j \<and> j < i + Suc n \<longrightarrow> mac (q ! j) \<noteq> m) \<longleftrightarrow>
    mac (q ! i) \<noteq> m \<and> (\<forall>j. Suc i \<le> j \<and> j < Suc i + n \<longrightarrow> mac (q ! j) \<noteq> m)"
    by (metis Suc_le_eq add_Suc_shift le_eq_less_or_eq less_add_Suc1 order_refl add_Suc_right)
  then show ?case using Suc.IH [of "Suc i"] by simp
qed

text \<open>With distinct MACs, the slot found is the only entry with that MAC.\<close>

lemma find_slot_entries:
  assumes "reg_inv ctx"
  shows "find_slot (repeater_quadruples ctx) m 0 (client_count ctx) = None \<longleftrightarrow> m \<notin> mac ` set (entries ctx)"
proof -
  have "(\<forall>j < client_count ctx. mac (repeater_quadruples ctx ! j) \<noteq> m) \<longleftrightarrow> m \<notin> mac ` set (entries ctx)"
    using length_entries [OF assms] entries_nth [OF assms] unfolding image_iff in_set_conv_nth Bex_def by metis
  then show ?thesis by (simp add: find_slot_None)
qed

lemma del_quadruples_spec:
  assumes inv: "reg_inv ctx" and d: "repeater_del_quadruples ctx (Some m) = (r, ctx')"
  shows "entries ctx' = filter (\<lambda>q. mac q \<noteq> m) (entries ctx) \<and> reg_inv ctx'
    \<and> r = (if m \<in> mac ` set (entries ctx) then 0 else -1)"
proof (cases "find_slot (repeater_quadruples ctx) m 0 (client_count ctx)")
  case None
  then have "m \<notin> mac ` set (entries ctx)" using find_slot_entries [OF inv] by simp
  moreover from this have "filter (\<lambda>q. mac q \<noteq> m) (entries ctx) = entries ctx"
    by (auto simp: filter_id_conv)
  ultimately show ?thesis using d None inv by (auto simp: repeater_del_quadruples_def)
next
  case (Some i)
  then have i: "i < client_count ctx" "mac (entries ctx ! i) = m"
    using find_slot_Some [OF Some] entries_nth [OF inv] by auto
  have m: "m \<in> mac ` set (entries ctx)" using Some find_slot_entries [OF inv] by (metis option.discI)
  have "entries (remove_slot i ctx) = filter (\<lambda>q. mac q \<noteq> m) (entries ctx)"
    using entries_remove_filter [OF inv i(1)] entries_nth [OF inv i(1)] i(2) by simp
  moreover have "ctx' = remove_slot i ctx" "r = 0" using d Some by (auto simp: repeater_del_quadruples_def)
  ultimately show ?thesis using m remove_slot_inv [OF inv i(1)] by simp
qed


lemma mac_listed_iff: "j + n \<le> length macs \<Longrightarrow> mac_listed m macs j n \<longleftrightarrow> m \<in> set (take n (drop j macs))"
proof (induction n arbitrary: j)
  case 0
  then show ?case by simp
next
  case (Suc n)
  then have "take (Suc n) (drop j macs) = macs ! j # take n (drop (Suc j) macs)"
    by (simp add: Cons_nth_drop_Suc [symmetric])
  then show ?case using Suc by simp
qed

text \<open>
  The synchronisation deletes, in place and in one pass, exactly the entries whose MAC is not in
  the list.
\<close>

lemma sync_loop_spec:
  assumes "reg_inv ctx" "idx \<le> client_count ctx" "cnt \<le> length macs"
    "\<forall>q \<in> set (take idx (entries ctx)). mac q \<in> set (take cnt macs)"
  shows "entries (sync_loop macs cnt idx ctx) = filter (\<lambda>q. mac q \<in> set (take cnt macs)) (entries ctx)
    \<and> reg_inv (sync_loop macs cnt idx ctx)"
  using assms
proof (induction macs cnt idx ctx rule: sync_loop.induct)
  case (1 macs cnt idx ctx)
  let ?P = "\<lambda>q. mac q \<in> set (take cnt macs)"
  note inv = "1.prems"(1)
  show ?case
  proof (cases "idx < client_count ctx")
    case False
    then have "idx = client_count ctx" using "1.prems" by simp
    then have "filter ?P (entries ctx) = entries ctx"
      using "1.prems" length_entries [OF inv] by (simp add: filter_id_conv)
    then show ?thesis using False inv by (simp add: sync_loop.simps [of macs cnt idx])
  next
    case True
    have nth: "repeater_quadruples ctx ! idx = entries ctx ! idx" using entries_nth [OF inv True] by simp
    have L: "idx < length (entries ctx)" using length_entries [OF inv] True by simp
    have listed: "mac_listed (mac (repeater_quadruples ctx ! idx)) macs 0 cnt \<longleftrightarrow> ?P (entries ctx ! idx)"
      using "1.prems"(3) mac_listed_iff [of 0 cnt macs] nth by simp
    show ?thesis
    proof (cases "?P (entries ctx ! idx)")
      case True2: True
      have "\<forall>q \<in> set (take (Suc idx) (entries ctx)). ?P q"
        using "1.prems"(4) True2 L by (simp add: take_Suc_conv_app_nth)
      then show ?thesis
        using "1.IH"(1) [OF True] True2 True listed "1.prems"
        by (simp add: sync_loop.simps [of macs cnt idx ctx])
    next
      case False2: False
      let ?c = "remove_slot idx ctx"
      have c: "reg_inv ?c" "idx \<le> client_count ?c"
        using remove_slot_inv [OF inv True] entries_remove(2) [OF inv True] True by auto
      have e: "entries ?c = take idx (entries ctx) @ drop (Suc idx) (entries ctx)"
        using entries_remove(1) [OF inv True] .
      have t: "take idx (entries ?c) = take idx (entries ctx)" using L by (simp add: e)
      have "filter ?P (entries ctx) = filter ?P (take idx (entries ctx) @ entries ctx ! idx # drop (Suc idx) (entries ctx))"
        using id_take_nth_drop [OF L] by simp
      then have "filter ?P (entries ctx) = filter ?P (entries ?c)" using False2 by (simp add: e)
      then show ?thesis
        using "1.IH"(2) [OF True] False2 True listed "1.prems" c t
        by (simp add: sync_loop.simps [of macs cnt idx ctx])
    qed
  qed
qed

lemma parse_macs_bounds:
  assumes "cnt \<le> i" "cnt \<le> MAX_AES_KEY_NUM" "length macs = MAX_AES_KEY_NUM" "parse_macs ss macs i cnt = (macs', n)"
  shows "n \<le> MAX_AES_KEY_NUM \<and> length macs' = MAX_AES_KEY_NUM"
  using assms
proof (induction ss macs i cnt rule: parse_macs.induct)
  case (1 macs i cnt)
  then show ?case by simp
next
  case (2 s r macs i cnt)
  show ?case
  proof (cases "i < MAX_AES_KEY_NUM")
    case True
    obtain ret m where m: "str2mac s (macs ! cnt) = (ret, m)" by fastforce
    let ?cnt = "if ret = 0 then Suc cnt else cnt"
    have p: "parse_macs r (macs[cnt := m]) (Suc i) ?cnt = (macs', n)"
      using "2.prems"(4) True m by simp
    show ?thesis
      using "2.prems" True p by (intro "2.IH" [OF True m [symmetric] refl]) auto
  next
    case False
    with "2.prems" show ?thesis by simp
  qed
qed

lemma sync_quadruples_spec:
  assumes inv: "reg_inv ctx" and n: "0 < n"
  shows "\<exists>listed. length listed \<le> MAX_AES_KEY_NUM \<and>
    (let (r, ctx') = repeater_sync_quadruples ctx (Some ms) n
     in r = 0 \<and> reg_inv ctx' \<and> entries ctx' = filter (\<lambda>q. mac q \<in> set listed) (entries ctx)
       \<and> (let (macs, cnt) = parse_macs (take (nat n) ms) (replicate MAX_AES_KEY_NUM (replicate 6 0)) 0 0
          in listed = take cnt macs))"
proof -
  obtain macs cnt where p: "parse_macs (take (nat n) ms) (replicate MAX_AES_KEY_NUM (replicate 6 0)) 0 0 = (macs, cnt)"
    by fastforce
  have b: "cnt \<le> MAX_AES_KEY_NUM" "length macs = MAX_AES_KEY_NUM"
    using parse_macs_bounds [OF _ _ _ p] by simp_all
  have "entries (sync_loop macs cnt 0 ctx) = filter (\<lambda>q. mac q \<in> set (take cnt macs)) (entries ctx)
      \<and> reg_inv (sync_loop macs cnt 0 ctx)"
    using inv b by (intro sync_loop_spec) simp_all
  then show ?thesis
    using n b p by (intro exI [of _ "take cnt macs"]) (simp add: repeater_sync_quadruples_def)
qed


lemma update_quadruples_spec:
  assumes inv: "reg_inv ctx" and u: "repeater_update_quadruples ctx (Some qd) = (r, ctx')"
  shows "reg_inv ctx' \<and>
    (if mac qd \<in> mac ` set (entries ctx)
     then r = 0 \<and> entries ctx' = map (\<lambda>q. if mac q = mac qd then merge_quad q qd else q) (entries ctx)
     else r = -1 \<and> entries ctx' = (if client_count ctx < MAX_AES_KEY_NUM then entries ctx @ [qd] else entries ctx))"
proof (cases "find_slot (repeater_quadruples ctx) (mac qd) 0 (client_count ctx)")
  case None
  then have m: "mac qd \<notin> mac ` set (entries ctx)" using find_slot_entries [OF inv] by simp
  have c: "ctx' = snd (repeater_add_quadruples ctx (Some qd))" "r = -1"
    using u None by (auto simp: repeater_update_quadruples_def)
  show ?thesis
  proof (cases "client_count ctx < MAX_AES_KEY_NUM")
    case True
    have "entries ctx' = entries ctx @ [qd]"
      using True inv unfolding c by (simp add: repeater_add_quadruples_def entries_def reg_inv_def take_Suc_conv_app_nth)
    then show ?thesis using True m inv c by (auto simp: reg_inv_def repeater_add_quadruples_def)
  next
    case False
    then show ?thesis using m inv c by (simp add: repeater_add_quadruples_def)
  qed
next
  case (Some i)
  then have i: "i < client_count ctx" "mac (entries ctx ! i) = mac qd"
    using find_slot_Some [OF Some] entries_nth [OF inv] by auto
  have L: "i < length (entries ctx)" using i(1) length_entries [OF inv] by simp
  have m: "mac qd \<in> mac ` set (entries ctx)" using i(2) L by (metis image_eqI nth_mem)
  have mm: "mac (merge_quad q qd) = mac q" for q by (simp add: merge_quad_def Let_def)
  have c: "ctx' = ctx\<lparr>repeater_quadruples :=
      (repeater_quadruples ctx)[i := merge_quad (repeater_quadruples ctx ! i) qd]\<rparr>" "r = 0"
    using u Some by (auto simp: repeater_update_quadruples_def)
  have e: "entries ctx' = (entries ctx)[i := merge_quad (entries ctx ! i) qd]"
    using i(1) entries_nth [OF inv] unfolding c by (simp add: entries_def take_update_swap)
  have d: "distinct (map mac (entries ctx))" using inv by (simp add: reg_inv_def)
  have "(entries ctx)[i := merge_quad (entries ctx ! i) qd] =
      map (\<lambda>q. if mac q = mac qd then merge_quad q qd else q) (entries ctx)"
  proof (rule nth_equalityI)
    fix j assume "j < length ((entries ctx)[i := merge_quad (entries ctx ! i) qd])"
    then have j: "j < length (entries ctx)" by simp
    have "mac (entries ctx ! j) = mac qd \<longleftrightarrow> j = i"
      using d L j i(2) by (metis length_map nth_eq_iff_index_eq nth_map)
    then show "(entries ctx)[i := merge_quad (entries ctx ! i) qd] ! j =
        map (\<lambda>q. if mac q = mac qd then merge_quad q qd else q) (entries ctx) ! j"
      using j by (auto simp: nth_list_update)
  qed simp
  moreover have "map mac (map (\<lambda>q. if mac q = mac qd then merge_quad q qd else q) (entries ctx)) = map mac (entries ctx)"
    by (auto simp: mm)
  ultimately have e2: "entries ctx' = map (\<lambda>q. if mac q = mac qd then merge_quad q qd else q) (entries ctx)"
      and "map mac (entries ctx') = map mac (entries ctx)" using e by simp_all
  then have "distinct (map mac (entries ctx'))" using d by metis
  then have "reg_inv ctx'" using inv unfolding reg_inv_def by (simp add: c)
  with m e2 c(2) show ?thesis by simp
qed

lemma get_quadruples_Some: "repeater_get_quadruples ctx (Some m) = Some q \<Longrightarrow> mac q = m"
  using find_slot_Some by (fastforce simp: repeater_get_quadruples_def)

lemma get_quadruples_iff:
  assumes inv: "reg_inv ctx"
  shows "repeater_get_quadruples ctx (Some m) = Some q \<longleftrightarrow> q \<in> set (entries ctx) \<and> mac q = m"
proof
  assume g: "repeater_get_quadruples ctx (Some m) = Some q"
  then obtain i where i: "find_slot (repeater_quadruples ctx) m 0 (client_count ctx) = Some i"
    "q = repeater_quadruples ctx ! i" by (auto simp: repeater_get_quadruples_def)
  then have "i < length (entries ctx)" "q = entries ctx ! i"
    using find_slot_Some [OF i(1)] length_entries [OF inv] entries_nth [OF inv, of i] by auto
  then show "q \<in> set (entries ctx) \<and> mac q = m" using get_quadruples_Some [OF g] by simp
next
  assume a: "q \<in> set (entries ctx) \<and> mac q = m"
  then have "m \<in> mac ` set (entries ctx)" by auto
  then obtain i where s: "find_slot (repeater_quadruples ctx) m 0 (client_count ctx) = Some i"
    using find_slot_entries [OF inv] by (metis option.exhaust)
  then have i: "i < length (entries ctx)" "mac (entries ctx ! i) = m"
    using find_slot_Some [OF s] length_entries [OF inv] entries_nth [OF inv, of i] by auto
  obtain j where j: "j < length (entries ctx)" "entries ctx ! j = q" using a by (auto simp: in_set_conv_nth)
  have "distinct (map mac (entries ctx))" using inv by (simp add: reg_inv_def)
  then have "i = j" using i j a by (metis length_map nth_eq_iff_index_eq nth_map)
  then show "repeater_get_quadruples ctx (Some m) = Some q"
    using s i j length_entries [OF inv] entries_nth [OF inv, of i] by (simp add: repeater_get_quadruples_def)
qed

section \<open>Printing and parsing a MAC\<close>

lemma of_char_digit: "d < 16 \<Longrightarrow> of_char (hex_digit d) = (if d < 10 then 48 + d else 55 + d)"
  by (simp add: hex_digit_def)

lemma hex_digit_neq:
  assumes "d < 16" "of_char c < (48 :: nat) \<or> of_char c > (70 :: nat)"
  shows "hex_digit d \<noteq> c"
  using of_char_digit [OF assms(1)] assms by (auto split: if_splits)

lemma hex_digit_simps:
  assumes "d < 16"
  shows "hex_val (hex_digit d) = Some d" "\<not> is_space (hex_digit d)" "hex_digit d \<noteq> CHR ''-''"
    "hex_digit d \<noteq> CHR ''+''" "hex_digit d \<noteq> CHR ''x''" "hex_digit d \<noteq> CHR ''X''"
  using assms by (simp_all add: hex_val_def is_space_def of_char_digit hex_digit_neq)

lemma byte_digits: "unat (b :: u8) div 16 < 16" "unat b mod 16 < 16"
  using unsigned_less [of b, where 'a = nat] by auto

lemmas byte_digit_simps = hex_digit_simps [OF byte_digits(1)] hex_digit_simps [OF byte_digits(2)]

lemma colon_not_hex: "hex_val (CHR '':'') = None"
  by (simp add: hex_val_def)

lemma scan_put_hhX:
  assumes "s = [] \<or> hd s = CHR '':''"
  shows "scan_hhx None (put_hhX b @ s) = Some (b, s)"
proof -
  have v: "16 * (unat b div 16) + unat b mod 16 = unat b" by simp
  have lt: "unat b < 2 ^ 64" using unsigned_less [of b, where 'a = nat] by simp
  have "scan_digits s v = (v, 0)" for v using assms colon_not_hex by (cases s) auto
  then have d: "scan_digits (put_hhX b @ s) 0 = (unat b, 2)"
    by (simp add: put_hhX_def byte_digit_simps v)
  have p: "scan_prefix (put_hhX b @ s) = put_hhX b @ s"
    by (simp add: scan_prefix_def put_hhX_def byte_digit_simps split: list.split)
  have sg: "scan_sign (put_hhX b @ s) = (False, put_hhX b @ s)"
    by (simp add: scan_sign_def put_hhX_def byte_digit_simps)
  have sp: "dropWhile is_space (put_hhX b @ s) = put_hhX b @ s"
    by (simp add: put_hhX_def byte_digit_simps)
  have dr: "drop (length (put_hhX b @ s) - length (put_hhX b @ s) + 2) (put_hhX b @ s) = s" by (simp add: put_hhX_def)
  show ?thesis
    unfolding scan_hhx_def Let_def sp option.case sg prod.case p d dr using lt by (simp add: of_nat_unat)
qed

lemma scan_put_hhX_width: "scan_hhx (Some 2) (put_hhX b @ s) = Some (b, s)"
proof -
  have v: "16 * (unat b div 16) + unat b mod 16 = unat b" by simp
  have lt: "unat b < 2 ^ 64" using unsigned_less [of b, where 'a = nat] by simp
  have d: "scan_digits (put_hhX b) 0 = (unat b, 2)" by (simp add: put_hhX_def byte_digit_simps v)
  have p: "scan_prefix (put_hhX b) = put_hhX b" by (simp add: scan_prefix_def put_hhX_def)
  have sg: "scan_sign (put_hhX b) = (False, put_hhX b)" by (simp add: scan_sign_def put_hhX_def byte_digit_simps)
  have sp: "dropWhile is_space (put_hhX b @ s) = put_hhX b @ s" by (simp add: put_hhX_def byte_digit_simps)
  have t: "take 2 (put_hhX b @ s) = put_hhX b" by (simp add: put_hhX_def)
  have dr: "drop (length (put_hhX b) - length (put_hhX b) + 2) (put_hhX b @ s) = s" by (simp add: put_hhX_def)
  show ?thesis
    unfolding scan_hhx_def Let_def sp option.case t sg prod.case p d dr using lt by (simp add: of_nat_unat)
qed

lemma length6: "length m = 6 \<Longrightarrow> \<exists>a b c d e f. m = [a, b, c, d, e, f]"
  by (auto simp: length_Suc_conv eval_nat_numeral)

lemma str2mac_mat2str:
  assumes "length m = 6" "length m' = 6" "18 \<le> n"
  shows "str2mac (Some (mat2str (Some m) n)) m' = (0, m)"
proof -
  obtain a b c d e f where m: "m = [a, b, c, d, e, f]" using length6 [OF assms(1)] by blast
  obtain a' b' c' d' e' f' where m': "m' = [a', b', c', d', e', f']" using length6 [OF assms(2)] by blast
  have t: "mat2str (Some m) n = put_hhX a @ CHR '':'' # put_hhX b @ CHR '':'' # put_hhX c @ CHR '':'' #
      put_hhX d @ CHR '':'' # put_hhX e @ CHR '':'' # put_hhX f @ []"
    using assms(3) by (simp add: mat2str_def m)
  have "scan_mac None True 0 6 (mat2str (Some m) n) m' = (6, m)"
    unfolding t m' by (simp add: eval_nat_numeral scan_put_hhX m del: append_Nil2)
  then show ?thesis using assms by (simp add: str2mac_def)
qed

text \<open>Without colons: the first scan takes all digits as one number and stops, the second one
  reads them two by two.\<close>

lemma scan_hhx_whole: "scan_hhx None s = Some (v, []) \<Longrightarrow> length m = 6 \<Longrightarrow> fst (scan_mac None True 0 6 s m) = 1"
  by (simp add: eval_nat_numeral)

lemma scan_digits_all: "\<forall>c \<in> set s. hex_val c \<noteq> None \<Longrightarrow> snd (scan_digits s v) = length s"
  by (induction s arbitrary: v) (auto split: prod.split simp: case_prod_beta)

lemma scan_hhx_all_hex:
  assumes "\<forall>c \<in> set s. hex_val c \<noteq> None \<and> \<not> is_space c \<and> c \<noteq> CHR ''-'' \<and> c \<noteq> CHR ''+'' \<and> c \<noteq> CHR ''x'' \<and> c \<noteq> CHR ''X''"
    "s \<noteq> []"
  shows "\<exists>v. scan_hhx None s = Some (v, [])"
proof -
  have sp: "dropWhile is_space s = s" using assms by (cases s) auto
  have sg: "scan_sign s = (False, s)" using assms by (cases s) (auto simp: scan_sign_def)
  have pr: "scan_prefix s = s" using assms by (auto simp: scan_prefix_def split: list.split)
  have "snd (scan_digits s 0) = length s" using assms by (intro scan_digits_all) auto
  then obtain v where d: "scan_digits s 0 = (v, length s)" by (metis prod.collapse)
  show ?thesis using assms(2) by (simp add: scan_hhx_def sp sg pr d Let_def)
qed

lemma scan_mac_pair:
  "scan_mac (Some 2) False i (Suc n) (put_hhX b @ s) m = scan_mac (Some 2) False (Suc i) n s (m[i := b])"
  by (simp add: scan_put_hhX_width)

lemma six: "(6 :: nat) = Suc (Suc (Suc (Suc (Suc (Suc 0)))))"
  by simp

lemma str2mac_mat2str_raw:
  assumes "length m = 6" "length m' = 6" "18 \<le> n"
  shows "str2mac (Some (mat2str_raw (Some m) n)) m' = (0, m)"
proof -
  obtain a b c d e f where m: "m = [a, b, c, d, e, f]" using length6 [OF assms(1)] by blast
  let ?s = "mat2str_raw (Some m) n"
  have t: "?s = put_hhX a @ put_hhX b @ put_hhX c @ put_hhX d @ put_hhX e @ put_hhX f @ []"
    using assms(3) by (simp add: mat2str_raw_def m)
  have hex: "\<forall>c \<in> set ?s. hex_val c \<noteq> None \<and> \<not> is_space c \<and> c \<noteq> CHR ''-'' \<and> c \<noteq> CHR ''+''
      \<and> c \<noteq> CHR ''x'' \<and> c \<noteq> CHR ''X''"
    unfolding t by (simp add: put_hhX_def byte_digit_simps)
  have "?s \<noteq> []" "length ?s = 12" unfolding t by (simp_all add: put_hhX_def)
  then obtain v where v: "scan_hhx None ?s = Some (v, [])" using scan_hhx_all_hex [OF hex] by blast
  obtain m1 where m1: "scan_mac None True 0 6 ?s m' = (1, m1)"
    using scan_hhx_whole [OF v assms(2)] by (metis prod.collapse)
  have "length (snd (scan_mac w cl i k s x)) = length x" for w cl i k s x
    by (induction w cl i k s x rule: scan_mac.induct) (auto simp: Let_def split: option.split list.split)
  then have "length m1 = 6" using m1 assms(2) by (metis snd_conv)
  then obtain a' b' c' d' e' f' where m1': "m1 = [a', b', c', d', e', f']" using length6 by blast
  have "scan_mac (Some 2) False 0 6 ?s m1 = (6, m)"
    unfolding t m1' by (simp only: six scan_mac_pair) (simp add: m)
  then show ?thesis using assms m1 \<open>length ?s = 12\<close> by (simp add: str2mac_def)
qed

end
