(* ===== verification/Common_Sock.thy ===== *)
theory Common_Sock
  imports Prelude
begin

text \<open>
  The socket helpers of \<open>common_sock.c\<close>. What the kernel answers is a list of results,
  consumed one by one: the loops recurse on it, and \<open>None\<close> means that the loop is still
  waiting when the list ends. The bytes handed to \<open>send\<close> are collected in the order they go
  out. A null pointer is \<open>None\<close>.
\<close>

datatype errno = EINTR | EAGAIN | EWOULDBLOCK | OTHER_ERRNO

definition Common_socket :: "int \<Rightarrow> int \<Rightarrow> int \<Rightarrow> int" where
  "Common_socket protocolType tcp_fd udp_fd =
    (if protocolType \<noteq> 0 then (if tcp_fd < 0 then -1 else tcp_fd)
     else (if udp_fd < 0 then -1 else udp_fd))"

definition Common_socket_close :: "int \<Rightarrow> int" where
  "Common_socket_close close_ret = (if close_ret < 0 then -1 else 0)"

section \<open>Readiness\<close>

text \<open>An answer of \<open>select\<close>: an error, a timeout, or the two readiness bits.\<close>

datatype select_res = SelErr errno | SelTimeout | SelReady bool bool

fun select_loop :: "select_res list \<Rightarrow> nat \<Rightarrow> int \<Rightarrow> int \<Rightarrow> (int \<times> int \<times> int) option" where
  "select_loop [] tryCnt rd wr = None"
| "select_loop (r # rs) tryCnt rd wr =
    (case r of
       SelErr e \<Rightarrow>
         if (e = EINTR \<or> e = EWOULDBLOCK \<or> e = EAGAIN) \<and> tryCnt < 10
         then select_loop rs (Suc tryCnt) rd wr else Some (0, rd, wr)
     | SelTimeout \<Rightarrow> Some (0, rd, wr)
     | SelReady a b \<Rightarrow> Some (0, if a then 1 else rd, if b then 1 else wr))"

definition Comm_socket_select_rwset :: "select_res list \<Rightarrow> int \<Rightarrow> int option \<Rightarrow> int option
    \<Rightarrow> (int \<times> int option \<times> int option) option" where
  "Comm_socket_select_rwset rs sock readable writeable =
    (if sock > 0 \<and> writeable \<noteq> None \<and> readable \<noteq> None
     then map_option (\<lambda>(r, a, b). (r, Some a, Some b)) (select_loop rs 0 0 0)
     else Some (-1, readable, writeable))"

section \<open>Sending\<close>

text \<open>An answer of \<open>send\<close>: the number of bytes taken, or an error.\<close>

datatype send_res = SendOk nat | SendErr errno

fun send_loop :: "send_res list \<Rightarrow> bytes \<Rightarrow> nat \<Rightarrow> nat \<Rightarrow> bytes
    \<Rightarrow> (int \<times> nat \<times> bytes \<times> send_res list) option" where
  "send_loop [] dat need real wire = None"
| "send_loop (r # rs) dat need real wire =
    (case r of
       SendOk n \<Rightarrow>
         if n = 0 then Some (-1, real, wire, rs)
         else
           let wire = wire @ take n (drop real dat); real = real + n
           in if real < need then send_loop rs dat need real wire else Some (0, real, wire, rs)
     | SendErr e \<Rightarrow>
         if e = EINTR \<or> e = EWOULDBLOCK \<or> e = EAGAIN
         then (if real < need then send_loop rs dat need real wire else Some (0, real, wire, rs))
         else Some (-2, real, wire, rs))"

text \<open>The result: the return value, \<open>*realSendSize\<close>, the bytes sent and the answers left.\<close>

definition Comm_sock_send_data :: "send_res list \<Rightarrow> int \<Rightarrow> bytes option \<Rightarrow> nat
    \<Rightarrow> (int \<times> nat \<times> bytes \<times> send_res list) option" where
  "Comm_sock_send_data rs sock dat need =
    (case dat of None \<Rightarrow> Some (-1, 0, [], rs)
     | Some d \<Rightarrow> if sock = 0 then Some (-1, 0, [], rs) else send_loop rs d need 0 [])"

section \<open>Receiving\<close>

text \<open>
  An answer of \<open>recv\<close>: the bytes received (none when the peer has closed), or an error with the
  milliseconds since the start that the clock shows at that moment.
\<close>

datatype recv_res = RecvOk bytes | RecvErr errno int

fun recv_loop :: "recv_res list \<Rightarrow> nat \<Rightarrow> nat \<Rightarrow> bytes \<Rightarrow> (int \<times> bytes \<times> recv_res list) option" where
  "recv_loop [] need trycnt got = None"
| "recv_loop (r # rs) need trycnt got =
    (case r of
       RecvOk b \<Rightarrow>
         if b = [] then Some (-1, got, rs)
         else (let got = got @ b
               in if length got < need then recv_loop rs need trycnt got else Some (0, got, rs))
     | RecvErr e elapsed \<Rightarrow>
         if e = EINTR then (if length got < need then recv_loop rs need trycnt got else Some (0, got, rs))
         else if e = EAGAIN \<and> trycnt > 0
           then (if length got < need then recv_loop rs need (trycnt - 1) got else Some (0, got, rs))
         else if e = EAGAIN \<and> elapsed < 500
           then (if length got < need then recv_loop rs need trycnt got else Some (0, got, rs))
         else Some (-2, got, rs))"

definition Comm_sock_recv_data :: "recv_res list \<Rightarrow> int \<Rightarrow> bool \<Rightarrow> int
    \<Rightarrow> (int \<times> bytes \<times> recv_res list) option" where
  "Comm_sock_recv_data rs sockfd rBuf needReadLen =
    (if rBuf \<and> sockfd > 0 \<and> needReadLen > 0 then recv_loop rs (nat needReadLen) 3 []
     else Some (-1, [], rs))"

text \<open>The kernel never takes or gives more bytes than it is asked for.\<close>

fun sends_fit :: "send_res list \<Rightarrow> nat \<Rightarrow> bool" where
  "sends_fit [] need = True"
| "sends_fit (SendOk n # rs) need \<longleftrightarrow> n \<le> need \<and> sends_fit rs (need - n)"
| "sends_fit (SendErr e # rs) need = sends_fit rs need"

fun recvs_fit :: "recv_res list \<Rightarrow> nat \<Rightarrow> bool" where
  "recvs_fit [] need = True"
| "recvs_fit (RecvOk b # rs) need \<longleftrightarrow> length b \<le> need \<and> recvs_fit rs (need - length b)"
| "recvs_fit (RecvErr e t # rs) need = recvs_fit rs need"

section \<open>Lemmas\<close>

lemma select_loop_total:
  "tryCnt \<le> 10 \<Longrightarrow> 11 - tryCnt \<le> length rs \<Longrightarrow> select_loop rs tryCnt rd wr \<noteq> None"
proof (induction rs tryCnt rd wr rule: select_loop.induct)
  case (1 tryCnt rd wr)
  then show ?case by simp
next
  case (2 r rs tryCnt rd wr)
  then show ?case by (cases r) auto
qed

lemma take_add_drop: "take (i + n) xs = take i xs @ take n (drop i xs)"
  by (rule take_add)

text \<open>What has been sent is always a prefix of the data, of the length reported.\<close>

lemma send_loop_prefix:
  assumes "send_loop rs dat need real wire = Some (r, real', wire', rs')"
    "sends_fit rs (need - real)" "wire = take real dat" "real \<le> need" "need \<le> length dat"
  shows "wire' = take real' dat \<and> real' \<le> need \<and> (r = 0 \<longrightarrow> real' = need)"
  using assms
proof (induction rs dat need real wire rule: send_loop.induct)
  case (1 dat need real wire)
  then show ?case by simp
next
  case (2 x rs dat need real wire)
  show ?case
  proof (cases x)
    case (SendOk n)
    then have n: "n \<le> need - real" using "2.prems"(2) by simp
    show ?thesis
    proof (cases "n = 0")
      case True
      with SendOk "2.prems" show ?thesis by auto
    next
      case False
      show ?thesis
      proof (cases "real + n < need")
        case True
        have "wire @ take n (drop real dat) = take (real + n) dat" using "2.prems"(3) by (simp add: take_add)
        then show ?thesis
          using "2.IH"(1) [OF SendOk False refl refl True] "2.prems" SendOk False True n by simp
      next
        case nt: False
        then have "real + n = need" using n "2.prems"(4) by simp
        then show ?thesis using "2.prems" SendOk False by (auto simp: take_add [symmetric])
      qed
    qed
  next
    case (SendErr e)
    then show ?thesis using 2 by (auto split: if_splits)
  qed
qed

lemma send_data_spec:
  assumes "Comm_sock_send_data rs sock (Some dat) (length dat) = Some (r, real, wire, rs')"
    "sends_fit rs (length dat)" "sock \<noteq> 0"
  shows "wire = take real dat \<and> (r = 0 \<longrightarrow> wire = dat)"
  using send_loop_prefix [of rs dat "length dat" 0 "[]" r real wire rs'] assms
  by (auto simp: Comm_sock_send_data_def)

lemma recv_loop_spec:
  assumes "recv_loop rs need trycnt got = Some (r, got', rs')" "recvs_fit rs (need - length got)"
    "length got < need"
  shows "length got' \<le> need \<and> (\<exists>b. got' = got @ b) \<and> (r = 0 \<longrightarrow> length got' = need) \<and> r \<in> {0, -1, -2}"
  using assms
proof (induction rs need trycnt got rule: recv_loop.induct)
  case (1 need trycnt got)
  then show ?case by simp
next
  case (2 x rs need trycnt got)
  show ?case
  proof (cases x)
    case (RecvOk b)
    show ?thesis
    proof (cases "b \<noteq> [] \<and> length (got @ b) < need")
      case True
      then have "length got' \<le> need \<and> (\<exists>c. got' = (got @ b) @ c) \<and> (r = 0 \<longrightarrow> length got' = need) \<and> r \<in> {0, -1, -2}"
        using 2 RecvOk by simp
      then show ?thesis by auto
    next
      case False
      then show ?thesis using "2.prems" RecvOk by (auto split: if_splits)
    qed
  next
    case (RecvErr e t)
    then show ?thesis using 2 by (auto split: if_splits)
  qed
qed

text \<open>A socket that stays unreadable past the half second is given up after three retries.\<close>

lemma recv_loop_gives_up:
  assumes "\<forall>x \<in> set (take (Suc trycnt) rs). \<exists>t \<ge> 500. x = RecvErr EAGAIN t" "trycnt < length rs"
    "length got < need"
  shows "recv_loop rs need trycnt got = Some (-2, got, drop (Suc trycnt) rs)"
  using assms
proof (induction trycnt arbitrary: rs)
  case 0
  then show ?case by (cases rs) auto
next
  case (Suc n)
  then obtain x xs where "rs = x # xs" by (cases rs) auto
  with Suc show ?case by auto
qed

end
