(* ===== verification/Aes_Key_Gen.thy ===== *)
theory Aes_Key_Gen
  imports Wo_Aes
begin

text \<open>
  Key generation of \<open>aes_key_gen.c\<close>: sixteen characters of a 62-character set chosen by
  \<open>rand\<close>, whose answers are a list, and the functions that save a key to a file and load one.
  The file system is an argument: what \<open>fopen\<close>, \<open>fwrite\<close>, \<open>access\<close> and
  \<open>fread\<close> answer. Characters are bytes.
\<close>

definition charset :: bytes where
  "charset = map word_of_nat ([65..<91] @ [97..<123] @ [48..<58])"

definition aes_generate_key_128_string :: "nat list \<Rightarrow> bytes option \<Rightarrow> int \<times> bytes option" where
  "aes_generate_key_128_string rands key_str =
    (case key_str of None \<Rightarrow> (-1, None)
     | Some buf \<Rightarrow>
        if length buf < 17 then (-1, Some buf)
        else (0, Some (map (\<lambda>i. charset ! ((rands ! i) mod length charset)) [0..<16] @ [0] @ drop 17 buf)))"

text \<open>\<open>strlen\<close>: the bytes before the first null.\<close>

definition c_string :: "bytes \<Rightarrow> bytes" where
  "c_string b = takeWhile (\<lambda>x. x \<noteq> 0) b"

text \<open>
  The file written: \<open>None\<close> when it cannot be opened, else how many bytes \<open>fwrite\<close> takes.
  The result holds the content of the file when one was opened.
\<close>

definition aes_generate_and_save_key_string :: "nat list \<Rightarrow> bool \<Rightarrow> nat option \<Rightarrow> int \<times> bytes option" where
  "aes_generate_and_save_key_string rands filename write =
    (if \<not> filename then (-1, None)
     else case aes_generate_key_128_string rands (Some (replicate 17 0)) of
       (r, Some key_str) \<Rightarrow>
         if r \<noteq> 0 then (-1, None)
         else (case write of None \<Rightarrow> (-1, None)
               | Some n \<Rightarrow> (if n \<noteq> length (c_string key_str) then -1 else 0, Some (take n (c_string key_str))))
     | (r, None) \<Rightarrow> (-1, None))"

text \<open>The file read: \<open>None\<close> when it does not exist, \<open>Some None\<close> when it cannot be opened.\<close>

definition aes_load_key_from_file :: "bytes option \<Rightarrow> bool \<Rightarrow> bytes option option \<Rightarrow> int \<times> bytes option" where
  "aes_load_key_from_file key filename file =
    (case key of None \<Rightarrow> (-1, None)
     | Some k \<Rightarrow>
        if \<not> filename \<or> length k < 16 then (-1, Some k)
        else (case file of Some (Some content) \<Rightarrow>
                (let got = take 16 content
                 in (if length got < 16 then -1 else 0, Some (got @ drop (length got) k)))
              | _ \<Rightarrow> (-1, Some k)))"

definition aes_generate_iv_string :: "nat list \<Rightarrow> bytes \<Rightarrow> nat \<Rightarrow> (int \<times> bytes) result" where
  "aes_generate_iv_string rands iv iv_len =
    (case aes_generate_key_128_string rands (Some (replicate 17 0)) of
       (r, Some tmp) \<Rightarrow>
         if r \<noteq> 0 then Inr (-1, iv)
         else if iv_len > length tmp \<or> iv_len > length iv then Inl BufferOverrun
         else Inr (0, take iv_len tmp @ drop iv_len iv)
     | (r, None) \<Rightarrow> Inr (-1, iv))"

section \<open>Lemmas\<close>

lemma length_charset [simp]: "length charset = 62"
  by (simp add: charset_def)

lemma charset_nonzero: "\<forall>c \<in> set charset. c \<noteq> 0"
proof -
  have "(word_of_nat n :: u8) \<noteq> 0" if "0 < n" "n < 256" for n :: nat
  proof
    assume "(word_of_nat n :: u8) = 0"
    then have "unat (word_of_nat n :: u8) = 0" by simp
    with that show False by (simp add: unat_of_nat)
  qed
  then show ?thesis by (auto simp: charset_def)
qed

definition key_chars :: "nat list \<Rightarrow> bytes" where
  "key_chars rands = map (\<lambda>i. charset ! ((rands ! i) mod 62)) [0..<16]"

lemma key_chars_facts: "length (key_chars rands) = 16" "set (key_chars rands) \<subseteq> set charset"
  by (auto simp: key_chars_def)

lemma generate_key_eq:
  "17 \<le> length buf \<Longrightarrow> aes_generate_key_128_string rands (Some buf) = (0, Some (key_chars rands @ [0] @ drop 17 buf))"
  by (simp add: aes_generate_key_128_string_def key_chars_def)

lemma c_string_key: "c_string (key_chars rands @ [0] @ r) = key_chars rands"
proof -
  have "\<forall>c \<in> set (key_chars rands). c \<noteq> 0" using key_chars_facts(2) charset_nonzero by blast
  then show ?thesis by (simp add: c_string_def takeWhile_append2)
qed

lemma save_load_key:
  assumes "aes_generate_and_save_key_string rands True (Some n) = (0, Some content)" "length k = 16"
  shows "aes_load_key_from_file (Some k) True (Some (Some content)) = (0, Some (key_chars rands))
    \<and> set (key_chars rands) \<subseteq> set charset"
proof -
  have "content = key_chars rands"
    using assms(1) c_string_key [of rands "[]"] key_chars_facts(1) [of rands]
    by (auto simp: aes_generate_and_save_key_string_def generate_key_eq split: if_splits)
  then show ?thesis using assms(2) key_chars_facts [of rands] by (simp add: aes_load_key_from_file_def)
qed

lemma generate_iv_eq:
  assumes "n \<le> 16" "n \<le> length iv"
  shows "aes_generate_iv_string rands iv n = Inr (0, take n (key_chars rands) @ drop n iv)"
  using assms key_chars_facts(1) [of rands] by (simp add: aes_generate_iv_string_def generate_key_eq)

end
