(* ===== verification/Memory.thy ===== *)
theory Memory
  imports Prelude
begin

text \<open>
  Blocks of memory as lists of bytes, shared by the components that copy through pointers: a store
  or a copy that leaves its block, on either side, is the fault \<open>BufferOverrun\<close>. \<open>bindR\<close>
  sequences operations that may fault.
\<close>

definition bindR :: "'a result \<Rightarrow> ('a \<Rightarrow> 'b result) \<Rightarrow> 'b result" where
  "bindR r f = (case r of Inl e \<Rightarrow> Inl e | Inr x \<Rightarrow> f x)"

lemma bindR_simps [simp]: "bindR (Inl e) f = Inl e" "bindR (Inr x) f = f x"
  by (simp_all add: bindR_def)

lemma bindR_InrE: "bindR r f = Inr y \<Longrightarrow> (\<And>x. r = Inr x \<Longrightarrow> f x = Inr y \<Longrightarrow> P) \<Longrightarrow> P"
  by (cases r) auto

definition store_byte :: "bytes \<Rightarrow> nat \<Rightarrow> u8 \<Rightarrow> bytes result" where
  "store_byte m i c = (if i < length m then Inr (m[i := c]) else Inl BufferOverrun)"

definition load_byte :: "bytes \<Rightarrow> nat \<Rightarrow> u8 result" where
  "load_byte m i = (if i < length m then Inr (m ! i) else Inl BufferOverrun)"

definition mem_read :: "bytes \<Rightarrow> nat \<Rightarrow> nat \<Rightarrow> bytes result" where
  "mem_read m i n = (if i + n \<le> length m then Inr (take n (drop i m)) else Inl BufferOverrun)"

definition mem_write :: "bytes \<Rightarrow> nat \<Rightarrow> bytes \<Rightarrow> bytes result" where
  "mem_write m i d = (if i + length d \<le> length m
     then Inr (take i m @ d @ drop (i + length d) m) else Inl BufferOverrun)"

lemma store_byte_ok: "i < length m \<Longrightarrow> store_byte m i c = Inr (m[i := c])"
  and store_byte_fault: "\<not> i < length m \<Longrightarrow> store_byte m i c = Inl BufferOverrun"
  and load_byte_ok: "i < length m \<Longrightarrow> load_byte m i = Inr (m ! i)"
  and load_byte_fault: "\<not> i < length m \<Longrightarrow> load_byte m i = Inl BufferOverrun"
  by (simp_all add: store_byte_def load_byte_def)

lemma mem_write_length: "mem_write m i d = Inr m' \<Longrightarrow> length m' = length m"
  by (auto simp: mem_write_def split: if_splits)

lemma mem_read_write:
  assumes "mem_write m i d = Inr m'"
  shows "mem_read m' i (length d) = Inr d"
  using assms by (auto simp: mem_write_def mem_read_def split: if_splits)

lemma mem_read_write_other:
  assumes "mem_write m i d = Inr m'" and "j + n \<le> i \<or> i + length d \<le> j"
  shows "mem_read m' j n = mem_read m j n"
proof (cases "j + n \<le> length m")
  case False
  then show ?thesis using assms(1) by (auto simp: mem_write_def mem_read_def split: if_splits)
next
  case True
  have m': "m' = take i m @ d @ drop (i + length d) m" and l: "i + length d \<le> length m"
    using assms(1) by (auto simp: mem_write_def split: if_splits)
  have "take n (drop j m') = take n (drop j m)"
  proof (rule nth_equalityI)
    show "length (take n (drop j m')) = length (take n (drop j m))"
      using mem_write_length [OF assms(1)] by simp
  next
    fix k assume "k < length (take n (drop j m'))"
    then have "k < n" "j + k < length m" using mem_write_length [OF assms(1)] True by simp_all
    then show "take n (drop j m') ! k = take n (drop j m) ! k"
      using assms(2) l by (auto simp: m' nth_append)
  qed
  then show ?thesis using True l by (simp add: mem_read_def m')
qed

lemma mem_write_front: "length p = i \<Longrightarrow> length d \<le> length r
  \<Longrightarrow> mem_write (p @ r) i d = Inr (p @ d @ drop (length d) r)"
  by (simp add: mem_write_def)

lemma mem_read_front: "length p = i \<Longrightarrow> length d = n \<Longrightarrow> mem_read (p @ d @ r) i n = Inr d"
  by (simp add: mem_read_def)

lemma store_byte_front: "length p = j \<Longrightarrow> r \<noteq> []
  \<Longrightarrow> store_byte (p @ r) j c = Inr ((p @ [c]) @ drop 1 r)"
  by (cases r) (auto simp: store_byte_def)

text \<open>Machine words in memory, little-endian.\<close>

abbreviation le_bytes :: "nat \<Rightarrow> 'a :: len word \<Rightarrow> bytes" where
  "le_bytes n w \<equiv> map (byte_of w) [0..<n]"

definition le_word :: "bytes \<Rightarrow> 'a :: len word" where
  "le_word b = foldr (\<lambda>x w. push_bit 8 w OR ucast x) b 0"

lemma le_word_byte_of:
  fixes w :: "'a :: len word"
  assumes "8 * n \<ge> LENGTH('a)"
  shows "le_word (map (byte_of w) [0..<n]) = w"
proof -
  have "bit (foldr (\<lambda>x w. push_bit 8 w OR ucast x) (map (byte_of w) [i..<n]) (0 :: 'a word)) m
      \<longleftrightarrow> m < LENGTH('a) \<and> 8 * i + m < 8 * n \<and> bit w (8 * i + m)" if "i \<le> n" for i m
    using that
  proof (induction i arbitrary: m rule: inc_induct)
    case base
    then show ?case by simp
  next
    case (step i)
    have "[i..<n] = i # [Suc i..<n]" using step.hyps by (simp add: upt_conv_Cons)
    then show ?case
      using step.hyps step.IH [of "m - 8"]
      by (auto simp: bit_simps byte_of_def not_le dest: bit_imp_le_length)
  qed
  from this [of 0] show ?thesis
    using assms unfolding le_word_def by (intro bit_word_eqI) auto
qed

end
