(* ===== verification/Tcp_Client.thy ===== *)
theory Tcp_Client
  imports Repeater_Aes Common_Sock Aes_Key_Gen Memory
begin

text \<open>
  The TCP client of \<open>tcp_client.c\<close>: creation and connection, framed sending, and the hello
  exchange. The system calls answer from the lists of \<open>Common_Sock\<close>; allocations, the clock
  and the other answers of the environment are arguments. A client is one heap block: \<open>freed\<close>
  says that \<open>tcp_client_deinit\<close> has released it, and a second release is the fault
  \<open>DoubleFree\<close>. A run is \<open>Waiting\<close> when a socket call has no answer yet.
\<close>

datatype 'a run = Done 'a | Waiting | Fault fault

fun run_bind :: "'a run \<Rightarrow> ('a \<Rightarrow> 'b run) \<Rightarrow> 'b run" where
  "run_bind (Done a) f = f a"
| "run_bind Waiting f = Waiting"
| "run_bind (Fault e) f = Fault e"

fun run_result :: "'a result \<Rightarrow> 'a run" where
  "run_result (Inl e) = Fault e"
| "run_result (Inr a) = Done a"

fun run_answer :: "'a option \<Rightarrow> 'a run" where
  "run_answer None = Waiting"
| "run_answer (Some a) = Done a"

definition TCP_CLIENT_BUFFER_SIZE :: nat where "TCP_CLIENT_BUFFER_SIZE = 2048"
definition TCP_SERVER_PORT :: int where "TCP_SERVER_PORT = 1600"
definition MAGIC_HEAD :: u16 where "MAGIC_HEAD = 0xAF55"
definition TCP_FRAME_TYPE_CLIENT_HELLO :: u16 where "TCP_FRAME_TYPE_CLIENT_HELLO = 0"
definition TCP_FRAME_TYPE_SERVER_HELLO :: u16 where "TCP_FRAME_TYPE_SERVER_HELLO = 1"
definition TCP_FRAME_TYPE_SERVER_HELLO_ACK :: u16 where "TCP_FRAME_TYPE_SERVER_HELLO_ACK = 2"

definition ascii :: "string \<Rightarrow> bytes" where
  "ascii s = map of_char s"

definition CLIENT_HELLO :: bytes where "CLIENT_HELLO = ascii ''client hello''"
definition SERVER_HELLO :: bytes where "SERVER_HELLO = ascii ''server hello''"
definition SERVER_HELLO_ACK :: bytes where "SERVER_HELLO_ACK = ascii ''server hello ack''"

section \<open>The client block\<close>

record tcp_client =
  init :: bool
  sock :: int
  server_ip :: "bytes option"
  server_port :: int
  cbuffer :: "bytes option"
  bufferSize :: nat
  connected :: bool
  freed :: bool

definition client_zero :: tcp_client where
  "client_zero = \<lparr>init = False, sock = 0, server_ip = None, server_port = 0, cbuffer = None,
     bufferSize = 0, connected = False, freed = False\<rparr>"

text \<open>\<open>connect\<close>: at once, refused, or in progress with what \<open>select\<close> and
  \<open>getsockopt(SO_ERROR)\<close> answer.\<close>

datatype connect_res = ConnOk | ConnRefused | ConnProgress int int

definition tcp_client_connect :: "bool \<Rightarrow> connect_res \<Rightarrow> tcp_client option \<Rightarrow> int \<times> tcp_client option" where
  "tcp_client_connect pton conn client =
    (case client of None \<Rightarrow> (-1, None)
     | Some c \<Rightarrow>
        if \<not> init c then (-1, Some c)
        else if \<not> sock c > 0 then (-1, Some c)
        else if connected c then (0, Some c)
        else if \<not> pton then (-1, Some c)
        else (case conn of
            ConnOk \<Rightarrow> (0, Some (c\<lparr>connected := True\<rparr>))
          | ConnRefused \<Rightarrow> (-1, Some c)
          | ConnProgress sel so_error \<Rightarrow>
              if sel > 0 then (if so_error = 0 then (0, Some (c\<lparr>connected := True\<rparr>)) else (-1, Some c))
              else (-1, Some c)))"

definition tcp_client_disconnect :: "tcp_client option \<Rightarrow> int \<times> tcp_client option" where
  "tcp_client_disconnect client =
    (case client of None \<Rightarrow> (-1, None)
     | Some c \<Rightarrow> (0, Some (if connected c \<and> sock c > 0 then c\<lparr>sock := 0, connected := False\<rparr> else c)))"

definition tcp_client_is_connected :: "tcp_client option \<Rightarrow> int" where
  "tcp_client_is_connected client =
    (case client of None \<Rightarrow> 0 | Some c \<Rightarrow> if connected c then 1 else 0)"

definition tcp_client_deinit :: "tcp_client option \<Rightarrow> (int \<times> tcp_client option) result" where
  "tcp_client_deinit client =
    (case client of None \<Rightarrow> Inr (-1, None)
     | Some c \<Rightarrow>
        if freed c then Inl DoubleFree
        else (case snd (tcp_client_disconnect (Some c)) of
                Some d \<Rightarrow> Inr (0, Some (d\<lparr>server_ip := None, cbuffer := None, freed := True\<rparr>))
              | None \<Rightarrow> Inr (-1, None)))"

text \<open>
  The result of \<open>tcp_client_init\<close>: the client returned, and the block it allocated, which is
  still there when the socket cannot be created.
\<close>

definition tcp_client_init :: "bool \<Rightarrow> int \<Rightarrow> bool \<Rightarrow> bool \<Rightarrow> connect_res \<Rightarrow> bytes option \<Rightarrow> int
    \<Rightarrow> (tcp_client option \<times> tcp_client option) result" where
  "tcp_client_init calloc_ok fd buf_ok pton conn ip_text port =
    (if (case ip_text of None \<Rightarrow> True | Some s \<Rightarrow> c_string s = []) then Inr (None, None)
     else if \<not> (port > 0 \<and> port \<le> 65535) then Inr (None, None)
     else if \<not> calloc_ok then Inr (None, None)
     else if \<not> fd > 0 then Inr (None, Some client_zero)
     else
       let c = client_zero\<lparr>sock := fd, server_ip := map_option c_string ip_text, server_port := port,
                           bufferSize := TCP_CLIENT_BUFFER_SIZE,
                           cbuffer := (if buf_ok then Some (replicate TCP_CLIENT_BUFFER_SIZE 0) else None)\<rparr>
       in if \<not> buf_ok
          then (case tcp_client_deinit (Some c) of Inl e \<Rightarrow> Inl e | Inr (_, b) \<Rightarrow> Inr (None, b))
          else
            let (ret, c) = tcp_client_connect pton conn (Some (c\<lparr>init := True, connected := False\<rparr>))
            in if ret = 0 then Inr (c, c)
               else (case tcp_client_deinit c of Inl e \<Rightarrow> Inl e | Inr (_, b) \<Rightarrow> Inr (None, b)))"

section \<open>Raw data\<close>

text \<open>What goes over the socket: the bytes sent so far and the answers left.\<close>

record session =
  client :: tcp_client
  wire :: bytes
  sends :: "send_res list"
  recvs :: "recv_res list"

definition tcp_client_send_data :: "session \<Rightarrow> bytes option \<Rightarrow> int \<Rightarrow> (int \<times> session) run" where
  "tcp_client_send_data s dat data_len =
    (case dat of None \<Rightarrow> Done (-1, s)
     | Some d \<Rightarrow>
        if \<not> init (client s) then Done (-1, s)
        else if \<not> connected (client s) then Done (-1, s)
        else if \<not> data_len > 0 then Done (-1, s)
        else run_bind (run_answer (Comm_sock_send_data (sends s) (sock (client s)) (Some d) (nat data_len)))
          (\<lambda>(r, n, w, rest).
             let s = s\<lparr>wire := wire s @ w, sends := rest\<rparr>
             in if data_len \<noteq> int n then Done (-1, s\<lparr>client := (client s)\<lparr>connected := False\<rparr>\<rparr>)
                else Done (int n, s)))"

text \<open>The bytes received are the second component; the caller's buffer takes them at its start.\<close>

definition tcp_client_recv_data :: "session \<Rightarrow> bool \<Rightarrow> int \<Rightarrow> int \<Rightarrow> (int \<times> bytes \<times> session) run" where
  "tcp_client_recv_data s buf buffer_size needReadLen =
    (if \<not> init (client s) then Done (-1, [], s)
     else if \<not> connected (client s) then Done (-1, [], s)
     else if \<not> (buf \<and> buffer_size > 0) then Done (-1, [], s)
     else if \<not> buffer_size \<ge> needReadLen then Done (-1, [], s)
     else run_bind (run_answer (Comm_sock_recv_data (recvs s) (sock (client s)) buf needReadLen))
       (\<lambda>(r, got, rest).
          let s = s\<lparr>recvs := rest\<rparr>
          in if int (length got) \<noteq> needReadLen then Done (-1, got, s\<lparr>client := (client s)\<lparr>connected := False\<rparr>\<rparr>)
             else Done (int (length got), got, s)))"

section \<open>Frames\<close>

record tcp_frame =
  head :: u16
  frameType :: u16
  frameSize :: u32
  timestamp :: u64
  randomData :: bytes
  frameMac :: bytes
  reserved :: bytes
  frameData :: bytes

definition FRAME_HEADER_SIZE :: nat where "FRAME_HEADER_SIZE = 48"

text \<open>The memory image of the structure on the (little-endian) target.\<close>

definition frame_bytes :: "tcp_frame \<Rightarrow> bytes" where
  "frame_bytes f = map (byte_of (head f)) [0..<2] @ map (byte_of (frameType f)) [0..<2]
     @ map (byte_of (frameSize f)) [0..<4] @ map (byte_of (timestamp f)) [0..<8]
     @ randomData f @ frameMac f @ reserved f @ frameData f"

definition frame_of :: "bytes \<Rightarrow> tcp_frame" where
  "frame_of b = \<lparr>head = le_word (take 2 b), frameType = le_word (take 2 (drop 2 b)),
     frameSize = le_word (take 4 (drop 4 b)), timestamp = le_word (take 8 (drop 8 b)),
     randomData = take 16 (drop 16 b), frameMac = take 6 (drop 32 b), reserved = take 10 (drop 38 b),
     frameData = drop 48 b\<rparr>"

text \<open>
  The frame is built in a block from \<open>malloc\<close>, whose content before is \<open>junk\<close>: the
  reserved bytes are never written, and the random bytes only in a client hello.
\<close>

definition tcp_client_send_frame :: "bool \<Rightarrow> bytes \<Rightarrow> u64 \<Rightarrow> repeater_ctx \<Rightarrow> session \<Rightarrow> u16 \<Rightarrow> bytes option \<Rightarrow> int
    \<Rightarrow> (int \<times> session) run" where
  "tcp_client_send_frame ok junk now ctx s ft payload payloadLen =
    (if \<not> init (client s) then Done (-1, s)
     else if \<not> connected (client s) then Done (-1, s)
     else (case payload of None \<Rightarrow> Done (-1, s)
      | Some pl \<Rightarrow>
         if \<not> payloadLen > 0 then Done (-1, s)
         else
           let totalSize = int FRAME_HEADER_SIZE + payloadLen
           in if \<not> ok then Done (-1, s)
              else
                let frame = \<lparr>head = MAGIC_HEAD, frameType = ft, frameSize = word_of_int payloadLen,
                             timestamp = now,
                             randomData = (if ft = TCP_FRAME_TYPE_CLIENT_HELLO then repeater_client_get_aes_iv ctx
                                           else take 16 (drop 16 junk)),
                             frameMac = repeater_client_get_mac ctx, reserved = take 10 (drop 38 junk),
                             frameData = take (nat payloadLen) pl\<rparr>
                in run_bind (tcp_client_send_data s (Some (frame_bytes frame)) totalSize)
                     (\<lambda>(ret, s). if ret \<noteq> totalSize then Done (-1, s) else Done (ret, s))))"


section \<open>The hello exchange\<close>

text \<open>
  The environment of one exchange. Its allocations are numbered in the order of the calls: the
  payload buffer (0), the encrypter (1) and the frame (2) of the client hello, then the decrypter
  (3), the payload buffer (4), the encrypter (5) and the frame (6) of the acknowledgement. Both
  payload buffers start with arbitrary content, like the frames.
\<close>

record hello_env =
  e_calloc :: bool
  e_fd :: int
  e_buf :: bool
  e_pton :: bool
  e_connect :: connect_res
  e_rands :: "nat list"
  e_addr :: u32
  e_alloc :: "nat \<Rightarrow> bool"
  e_junk :: "nat \<Rightarrow> bytes"
  e_now :: "nat \<Rightarrow> u64"
  e_select :: int
  e_sends :: "send_res list"
  e_recvs :: "recv_res list"

text \<open>\<open>strncmp\<close> used as an equality test.\<close>

fun strncmp_eq :: "bytes \<Rightarrow> bytes \<Rightarrow> nat \<Rightarrow> bool" where
  "strncmp_eq a b 0 = True"
| "strncmp_eq (x # a) (y # b) (Suc n) = (x = y \<and> (x = 0 \<or> strncmp_eq a b n))"
| "strncmp_eq [] [] (Suc n) = True"
| "strncmp_eq [] (y # b) (Suc n) = (y = 0)"
| "strncmp_eq (x # a) [] (Suc n) = (x = 0)"

text \<open>Encrypting a text into a fresh buffer of the padded length, with the client's quadruple.\<close>

definition encrypt_hello :: "cipher \<Rightarrow> bool \<Rightarrow> bytes \<Rightarrow> repeater_ctx \<Rightarrow> bytes \<Rightarrow> (nat \<times> bytes) option run" where
  "encrypt_hello ce ok junk ctx txt =
    run_bind (run_result (repeater_client_aes_enc_get ok ctx)) (\<lambda>(enc, _).
      case enc of None \<Rightarrow> Done None
      | Some e \<Rightarrow> run_bind (run_result (aes_encrypo_data ce e txt (length txt)
                          (take (get_aes_enc_out_len (length txt)) junk))) (\<lambda>r. Done (Some r)))"

definition send_client_hello :: "cipher \<Rightarrow> hello_env \<Rightarrow> repeater_ctx \<Rightarrow> session \<Rightarrow> (int \<times> session) run" where
  "send_client_hello ce env ctx s =
    (let n = get_aes_enc_out_len (length CLIENT_HELLO)
     in if \<not> e_alloc env 0 then Done (-1, s)
        else run_bind (encrypt_hello ce (e_alloc env 1) (e_junk env 0) ctx CLIENT_HELLO) (\<lambda>r.
          case r of None \<Rightarrow> Done (-1, s)
          | Some (encLen, payload) \<Rightarrow>
              if encLen \<noteq> n then Done (-1, s)
              else run_bind (tcp_client_send_frame (e_alloc env 2) (e_junk env 2) (e_now env 0) ctx s
                         TCP_FRAME_TYPE_CLIENT_HELLO (Some payload) (int n)) (\<lambda>(ret, s).
                if ret < 0
                then run_bind (run_result (tcp_client_deinit (Some (client s)))) (\<lambda>(_, c).
                       Done (-1, case c of Some c \<Rightarrow> s\<lparr>client := c\<rparr> | None \<Rightarrow> s))
                else Done (0, s))))"

definition recv_server_hello :: "cipher \<Rightarrow> cipher \<Rightarrow> hello_env \<Rightarrow> repeater_ctx \<Rightarrow> session \<Rightarrow> tcp_frame \<Rightarrow> (int \<times> session) run" where
  "recv_server_hello ce cd env ctx s f =
    (let n = unat (frameSize f)
     in if n > 255 then Done (-1, s)
        else
          let tmp = take n (frameData f) @ replicate (256 - n) 0
          in run_bind (run_result (repeater_client_aes_dec_get (e_alloc env 3) ctx)) (\<lambda>dec.
             case dec of None \<Rightarrow> Done (-1, s)
             | Some d \<Rightarrow>
               run_bind (run_result (aes_decrypo_data cd (Some d) (Some tmp) n (replicate 256 0))) (\<lambda>(decLen, decData).
               if decLen \<noteq> int (length SERVER_HELLO) then Done (-1, s)
               else if \<not> strncmp_eq decData SERVER_HELLO (nat decLen) then Done (-1, s)
               else if \<not> e_alloc env 4 then Done (-1, s)
               else run_bind (encrypt_hello ce (e_alloc env 5) (e_junk env 4) ctx SERVER_HELLO_ACK) (\<lambda>r.
                 case r of None \<Rightarrow> Done (-1, s)
                 | Some (encLen, payload) \<Rightarrow>
                   if encLen \<noteq> get_aes_enc_out_len (length SERVER_HELLO_ACK) then Done (-1, s)
                   else run_bind (tcp_client_send_frame (e_alloc env 6) (e_junk env 6) (e_now env 1) ctx s
                            TCP_FRAME_TYPE_SERVER_HELLO_ACK (Some payload)
                            (int (get_aes_enc_out_len (length SERVER_HELLO_ACK)))) (\<lambda>(ret, s).
                     Done (if ret < 0 then -1 else 0, s))))))"

text \<open>The part after \<open>select\<close> has announced data: the value of \<open>ret\<close> at the label
  \<open>exit\<close>.\<close>

definition handle_reply :: "cipher \<Rightarrow> cipher \<Rightarrow> hello_env \<Rightarrow> repeater_ctx \<Rightarrow> session \<Rightarrow> (int \<times> session) run" where
  "handle_reply ce cd env ctx s =
    run_bind (tcp_client_recv_data s (cbuffer (client s) \<noteq> None) (int (bufferSize (client s))) (int FRAME_HEADER_SIZE))
      (\<lambda>(ret, got, s).
        if \<not> ret > 0 then Done (ret, s)
        else
          let f = frame_of got
          in if head f \<noteq> MAGIC_HEAD then Done (ret, s)
             else if frameType f \<noteq> TCP_FRAME_TYPE_SERVER_HELLO then Done (ret, s)
             else if \<not> frameSize f > 0 then Done (0, s)
             else if unat (frameSize f) > bufferSize (client s) - FRAME_HEADER_SIZE then Done (ret, s)
             else run_bind (tcp_client_recv_data s (cbuffer (client s) \<noteq> None)
                       (int (bufferSize (client s) - FRAME_HEADER_SIZE)) (int (unat (frameSize f))))
               (\<lambda>(ret, got, s).
                  if ret = int (unat (frameSize f))
                  then run_bind (recv_server_hello ce cd env ctx s (f\<lparr>frameData := got\<rparr>)) (\<lambda>(r, s).
                         if r \<noteq> 0 then Done (ret, s) else Done (0, s))
                  else Done (ret, s)))"

definition finish_hello :: "int \<times> session \<Rightarrow> (int \<times> session) run" where
  "finish_hello r =
    (let (ret, s) = r
     in run_bind (run_result (tcp_client_deinit (Some (client s)))) (\<lambda>(_, c).
          Done (ret, case c of Some c \<Rightarrow> s\<lparr>client := c\<rparr> | None \<Rightarrow> s)))"

definition hello_quadruples :: "bytes \<Rightarrow> bytes \<Rightarrow> bytes \<Rightarrow> u32 \<Rightarrow> quadruples" where
  "hello_quadruples m key iv addr = \<lparr>ip = addr, mac = take 6 m, qkey = take 16 key, qiv = take 16 iv\<rparr>"

text \<open>
  \<open>tcp_client_send_hello\<close> returns, besides its result, the final session (\<open>None\<close> when no
  client could be made) and the registry context.
\<close>

definition tcp_client_send_hello :: "cipher \<Rightarrow> cipher \<Rightarrow> hello_env \<Rightarrow> repeater_ctx \<Rightarrow> bytes option \<Rightarrow> bytes \<Rightarrow> bytes \<Rightarrow> bytes
    \<Rightarrow> (int \<times> session option \<times> repeater_ctx) run" where
  "tcp_client_send_hello ce cd env ctx ip_text m master key =
    (if (case ip_text of None \<Rightarrow> True | Some t \<Rightarrow> c_string t = []) then Done (-1, None, ctx)
     else
       let ctx = repeater_set_master_mac ctx master
       in run_bind (run_result (tcp_client_init (e_calloc env) (e_fd env) (e_buf env) (e_pton env) (e_connect env)
                                  ip_text TCP_SERVER_PORT)) (\<lambda>(cl, _).
          case cl of None \<Rightarrow> Done (-1, None, ctx)
          | Some c \<Rightarrow>
            run_bind (run_result (aes_generate_iv_string (e_rands env) (replicate 16 0) 16)) (\<lambda>(_, iv).
            let ctx = repeater_init_client_quadruples ctx (Some (hello_quadruples m key iv (e_addr env)));
                s = \<lparr>client = c, wire = [], sends = e_sends env, recvs = e_recvs env\<rparr>
            in run_bind (run_bind (send_client_hello ce env ctx s) (\<lambda>(ret, s).
                   if ret \<noteq> 0 then Done (ret, s)
                   else if e_select env < 0 then Done (0, s)
                   else if e_select env = 0 then Done (-2, s)
                   else handle_reply ce cd env ctx s)) (\<lambda>r.
                 run_bind (finish_hello r) (\<lambda>(ret, s). Done (ret, Some s, ctx))))))"


section \<open>Life of a client block\<close>

definition client_ok :: "tcp_client \<Rightarrow> bool" where
  "client_ok c \<longleftrightarrow> init c \<and> sock c > 0 \<and> connected c \<and> \<not> freed c \<and> cbuffer c \<noteq> None
     \<and> bufferSize c = TCP_CLIENT_BUFFER_SIZE"

lemma init_ok:
  assumes "tcp_client_init a fd b p conn ip_text port = Inr (Some c, blk)"
  shows "client_ok c \<and> blk = Some c \<and> server_port c = port \<and> 0 < port \<and> port \<le> 65535"
  using assms
  by (auto simp: tcp_client_init_def tcp_client_connect_def tcp_client_deinit_def tcp_client_disconnect_def
      client_ok_def client_zero_def Let_def split: if_splits option.splits connect_res.splits)

text \<open>Every failing path but one releases the block; a socket that cannot be made loses it.\<close>

lemma init_leak:
  assumes "tcp_client_init a fd b p conn ip_text port = Inr (None, Some blk)"
  shows "freed blk \<longleftrightarrow> fd > 0"
  using assms
  by (auto simp: tcp_client_init_def tcp_client_connect_def tcp_client_deinit_def tcp_client_disconnect_def
      client_zero_def Let_def split: if_splits option.splits connect_res.splits)

lemma init_no_fault: "tcp_client_init a fd b p conn ip_text port \<noteq> Inl e"
  by (auto simp: tcp_client_init_def tcp_client_connect_def tcp_client_deinit_def tcp_client_disconnect_def
      client_zero_def Let_def split: if_splits option.splits connect_res.splits)

lemma deinit_twice:
  assumes "tcp_client_deinit (Some c) = Inr (r, Some c')"
  shows "tcp_client_deinit (Some c') = Inl DoubleFree"
  using assms by (auto simp: tcp_client_deinit_def tcp_client_disconnect_def split: if_splits)

section \<open>Frames on the wire\<close>

definition frame_ok :: "tcp_frame \<Rightarrow> bool" where
  "frame_ok f \<longleftrightarrow> length (randomData f) = 16 \<and> length (frameMac f) = 6 \<and> length (reserved f) = 10"

lemma length_frame_bytes: "frame_ok f \<Longrightarrow> length (frame_bytes f) = 48 + length (frameData f)"
  by (simp add: frame_ok_def frame_bytes_def)

lemma frame_round_trip:
  assumes "frame_ok f" shows "frame_of (frame_bytes f) = f"
proof -
  have w: "le_word (map (byte_of (head f)) [0..<2]) = head f" "le_word (map (byte_of (frameType f)) [0..<2]) = frameType f"
    "le_word (map (byte_of (frameSize f)) [0..<4]) = frameSize f" "le_word (map (byte_of (timestamp f)) [0..<8]) = timestamp f"
    by (intro le_word_byte_of, simp)+
  let ?h = "map (byte_of (head f)) [0..<2]" and ?t = "map (byte_of (frameType f)) [0..<2]"
  let ?s = "map (byte_of (frameSize f)) [0..<4]" and ?c = "map (byte_of (timestamp f)) [0..<8]"
  have "take 2 (frame_bytes f) = ?h" "take 2 (drop 2 (frame_bytes f)) = ?t" "take 4 (drop 4 (frame_bytes f)) = ?s"
    "take 8 (drop 8 (frame_bytes f)) = ?c" "take 16 (drop 16 (frame_bytes f)) = randomData f"
    "take 6 (drop 32 (frame_bytes f)) = frameMac f" "take 10 (drop 38 (frame_bytes f)) = reserved f"
    "drop 48 (frame_bytes f) = frameData f"
    using assms by (simp_all add: frame_bytes_def frame_ok_def del: upt_rec_numeral upt_Suc)
  then show ?thesis unfolding frame_of_def w by (simp add: w del: upt_rec_numeral)
qed


section \<open>Sending one encrypted frame\<close>

definition ctx_ok :: "repeater_ctx \<Rightarrow> bool" where
  "ctx_ok ctx \<longleftrightarrow> length (qkey (client_quadruples ctx)) = 16 \<and> length (qiv (client_quadruples ctx)) = 16
     \<and> length (mac (client_quadruples ctx)) = 6"

lemma client_enc_get:
  assumes "ctx_ok ctx"
  shows "repeater_client_aes_enc_get True ctx =
    Inr (Some \<lparr>is_init = 1, aes_key = qkey (client_quadruples ctx), aes_iv = qiv (client_quadruples ctx)\<rparr>,
         Some (qkey (client_quadruples ctx), qiv (client_quadruples ctx)))"
  using assms
  by (simp add: repeater_client_aes_enc_get_def repeater_aes_enc_of_def ctx_ok_def aes_ctx_zero_def
      encrypo_init [of aes_ctx_zero] aes_encrypo_opt_def AES_KEY_SIZE_def)

lemma client_dec_get:
  assumes "ctx_ok ctx"
  shows "repeater_client_aes_dec_get True ctx =
    Inr (Some \<lparr>is_init = 1, aes_key = qkey (client_quadruples ctx), aes_iv = qiv (client_quadruples ctx)\<rparr>)"
  using assms
  by (simp add: repeater_client_aes_dec_get_def repeater_aes_dec_of_def ctx_ok_def aes_ctx_zero_def
      aes_decrypo_opt_def AES_KEY_SIZE_def)

definition padded :: "bytes \<Rightarrow> bytes" where
  "padded m = m @ replicate (16 - length m mod 16) (word_of_nat (16 - length m mod 16))"

lemma encrypt_hello_ok:
  assumes "ctx_ok ctx" "cbc_pair ce cd" "length txt < 336" "get_aes_enc_out_len (length txt) \<le> length junk"
  shows "\<exists>c. encrypt_hello ce True junk ctx txt = Done (Some (get_aes_enc_out_len (length txt), c))
    \<and> length c = get_aes_enc_out_len (length txt)
    \<and> cd (qkey (client_quadruples ctx)) (qiv (client_quadruples ctx)) c = Some (padded txt)"
proof -
  let ?e = "\<lparr>is_init = 1, aes_key = qkey (client_quadruples ctx), aes_iv = qiv (client_quadruples ctx)\<rparr>"
  let ?n = "get_aes_enc_out_len (length txt)"
  have k: "is_init ?e \<noteq> 0" "length (aes_key ?e) = 16" "length (aes_iv ?e) = 16"
    using assms(1) by (simp_all add: ctx_ok_def)
  have l: "?n \<le> length (take ?n junk)" using assms(4) by simp
  from encrypo_data_ok [OF k assms(2,3) l] obtain c where
    c: "cd (aes_key ?e) (aes_iv ?e) c = Some (padded txt)" "length c = ?n"
      "aes_encrypo_data ce ?e txt (length txt) (take ?n junk) = Inr (?n, c @ drop ?n (take ?n junk))"
    unfolding padded_def by blast
  then show ?thesis
    unfolding encrypt_hello_def client_enc_get [OF assms(1)] by simp
qed

text \<open>A frame goes out whole when the kernel takes it in one piece.\<close>

definition sent_frame :: "bytes \<Rightarrow> u64 \<Rightarrow> repeater_ctx \<Rightarrow> u16 \<Rightarrow> bytes \<Rightarrow> tcp_frame" where
  "sent_frame junk now ctx ft payload = \<lparr>head = MAGIC_HEAD, frameType = ft, frameSize = word_of_nat (length payload),
     timestamp = now,
     randomData = (if ft = TCP_FRAME_TYPE_CLIENT_HELLO then qiv (client_quadruples ctx) else take 16 (drop 16 junk)),
     frameMac = mac (client_quadruples ctx), reserved = take 10 (drop 38 junk), frameData = payload\<rparr>"

lemma sent_frame_data: "frameData (sent_frame junk now ctx ft payload) = payload"
  by (simp add: sent_frame_def)

lemma sent_frame_ok: "ctx_ok ctx \<Longrightarrow> 48 \<le> length junk \<Longrightarrow> frame_ok (sent_frame junk now ctx ft payload)"
  by (simp add: frame_ok_def sent_frame_def ctx_ok_def)

lemma send_frame_eq:
  assumes c: "client_ok (client s)" and p: "0 < length payload"
  shows "tcp_client_send_frame True junk now ctx s ft (Some payload) (int (length payload)) =
    run_bind (tcp_client_send_data s (Some (frame_bytes (sent_frame junk now ctx ft payload))) (48 + int (length payload)))
      (\<lambda>(ret, s). if ret \<noteq> 48 + int (length payload) then Done (-1, s) else Done (ret, s))"
  using c p
  by (simp add: tcp_client_send_frame_def client_ok_def FRAME_HEADER_SIZE_def sent_frame_def
      repeater_client_get_aes_iv_def repeater_client_get_mac_def Let_def)

lemma send_data_whole:
  assumes "client_ok (client s)" "sends s = SendOk (length dat) # rest" "dat \<noteq> []"
  shows "tcp_client_send_data s (Some dat) (int (length dat)) =
    Done (int (length dat), s\<lparr>wire := wire s @ dat, sends := rest\<rparr>)"
  using assms by (simp add: tcp_client_send_data_def client_ok_def Comm_sock_send_data_def)

lemma send_data_fails:
  assumes "client_ok (client s)" "sends s = SendErr OTHER_ERRNO # rest" "dat \<noteq> []"
  shows "tcp_client_send_data s (Some dat) (int (length dat)) =
    Done (-1, s\<lparr>sends := rest, client := (client s)\<lparr>connected := False\<rparr>\<rparr>)"
  using assms by (simp add: tcp_client_send_data_def client_ok_def Comm_sock_send_data_def)

lemma send_frame_whole:
  assumes c: "client_ok (client s)" and x: "ctx_ok ctx" and j: "48 \<le> length junk" and p: "0 < length payload"
    and s: "sends s = SendOk (48 + length payload) # rest"
  shows "tcp_client_send_frame True junk now ctx s ft (Some payload) (int (length payload)) =
    Done (48 + int (length payload),
      s\<lparr>wire := wire s @ frame_bytes (sent_frame junk now ctx ft payload), sends := rest\<rparr>)"
proof -
  let ?b = "frame_bytes (sent_frame junk now ctx ft payload)"
  have l: "length ?b = 48 + length payload"
    using length_frame_bytes [OF sent_frame_ok [OF x j]] by (simp add: sent_frame_def)
  have "?b \<noteq> []" using l by auto
  then have "tcp_client_send_data s (Some ?b) (int (length ?b)) = Done (int (length ?b), s\<lparr>wire := wire s @ ?b, sends := rest\<rparr>)"
    using s l by (intro send_data_whole [OF c]) simp_all
  then show ?thesis using send_frame_eq [OF c p] l by simp
qed

lemma send_frame_fails:
  assumes c: "client_ok (client s)" and x: "ctx_ok ctx" and j: "48 \<le> length junk" and p: "0 < length payload"
    and s: "sends s = SendErr OTHER_ERRNO # rest"
  shows "tcp_client_send_frame True junk now ctx s ft (Some payload) (int (length payload)) =
    Done (-1, s\<lparr>sends := rest, client := (client s)\<lparr>connected := False\<rparr>\<rparr>)"
proof -
  let ?b = "frame_bytes (sent_frame junk now ctx ft payload)"
  have l: "length ?b = 48 + length payload"
    using length_frame_bytes [OF sent_frame_ok [OF x j]] by (simp add: sent_frame_def)
  have "?b \<noteq> []" using l by auto
  then have "tcp_client_send_data s (Some ?b) (int (length ?b)) =
      Done (-1, s\<lparr>sends := rest, client := (client s)\<lparr>connected := False\<rparr>\<rparr>)"
    using s by (intro send_data_fails [OF c])
  then show ?thesis using send_frame_eq [OF c p] l by simp
qed

lemma hello_lengths:
  "length CLIENT_HELLO = 12" "length SERVER_HELLO = 12" "length SERVER_HELLO_ACK = 16"
  "get_aes_enc_out_len 12 = 16" "get_aes_enc_out_len 16 = 32"
  by (simp_all add: CLIENT_HELLO_def SERVER_HELLO_def SERVER_HELLO_ACK_def ascii_def
      get_aes_enc_out_len_def AES_BLOCK_SIZE_def)

section \<open>The client hello\<close>

definition env_ok :: "hello_env \<Rightarrow> bool" where
  "env_ok env \<longleftrightarrow> (\<forall>i. e_alloc env i) \<and> (\<forall>i. 48 \<le> length (e_junk env i))"

lemma env_okD: "env_ok env \<Longrightarrow> e_alloc env i" "env_ok env \<Longrightarrow> 48 \<le> length (e_junk env i)"
  by (auto simp: env_ok_def)

lemma client_hello_cases:
  assumes c: "client_ok (client s)" and x: "ctx_ok ctx" and e: "env_ok env" and ci: "cbc_pair ce cd"
  shows "\<exists>p. length p = 16 \<and> cd (qkey (client_quadruples ctx)) (qiv (client_quadruples ctx)) p = Some (padded CLIENT_HELLO)
    \<and> (\<forall>rest. sends s = SendOk 64 # rest \<longrightarrow> send_client_hello ce env ctx s =
          Done (0, s\<lparr>wire := wire s @ frame_bytes (sent_frame (e_junk env 2) (e_now env 0) ctx TCP_FRAME_TYPE_CLIENT_HELLO p),
                     sends := rest\<rparr>))
    \<and> (\<forall>rest. sends s = SendErr OTHER_ERRNO # rest \<longrightarrow>
          (\<exists>s'. send_client_hello ce env ctx s = Done (-1, s') \<and> freed (client s')))"
proof -
  have j: "get_aes_enc_out_len (length CLIENT_HELLO) \<le> length (e_junk env 0)"
    using env_okD(2) [OF e, of 0] by (simp add: hello_lengths)
  have l: "length CLIENT_HELLO < 336" by (simp add: hello_lengths)
  from encrypt_hello_ok [OF x ci l j] obtain p where
    p: "encrypt_hello ce True (e_junk env 0) ctx CLIENT_HELLO = Done (Some (16, p))" "length p = 16"
      "cd (qkey (client_quadruples ctx)) (qiv (client_quadruples ctx)) p = Some (padded CLIENT_HELLO)"
    by (auto simp: hello_lengths)
  note al = env_okD(1) [OF e] and jk = env_okD(2) [OF e, of 2]
  have ok: "send_client_hello ce env ctx s =
      Done (0, s\<lparr>wire := wire s @ frame_bytes (sent_frame (e_junk env 2) (e_now env 0) ctx TCP_FRAME_TYPE_CLIENT_HELLO p),
                     sends := rest\<rparr>)" if "sends s = SendOk 64 # rest" for rest
    using send_frame_whole [OF c x jk, of p rest "e_now env 0" TCP_FRAME_TYPE_CLIENT_HELLO] that p
    by (simp add: send_client_hello_def hello_lengths al Let_def)
  have bad: "\<exists>s'. send_client_hello ce env ctx s = Done (-1, s') \<and> freed (client s')"
    if "sends s = SendErr OTHER_ERRNO # rest" for rest
    using send_frame_fails [OF c x jk, of p rest "e_now env 0" TCP_FRAME_TYPE_CLIENT_HELLO] that p c
    by (simp add: send_client_hello_def hello_lengths al Let_def tcp_client_deinit_def tcp_client_disconnect_def client_ok_def)
  from p(2,3) ok bad show ?thesis by blast
qed


section \<open>The whole exchange\<close>

definition hello_setup :: "hello_env \<Rightarrow> bytes option \<Rightarrow> bytes \<Rightarrow> bytes \<Rightarrow> bool" where
  "hello_setup env ip_text m key \<longleftrightarrow> env_ok env \<and> e_calloc env \<and> e_fd env > 0 \<and> e_buf env \<and> e_pton env
     \<and> e_connect env = ConnOk \<and> 6 \<le> length m \<and> 16 \<le> length key
     \<and> (case ip_text of None \<Rightarrow> False | Some t \<Rightarrow> c_string t \<noteq> [])"

definition hello_ctx :: "hello_env \<Rightarrow> repeater_ctx \<Rightarrow> bytes \<Rightarrow> bytes \<Rightarrow> bytes \<Rightarrow> repeater_ctx" where
  "hello_ctx env ctx m master key =
    repeater_init_client_quadruples (repeater_set_master_mac ctx master)
      (Some (hello_quadruples m key (key_chars (e_rands env)) (e_addr env)))"

definition after_hello :: "cipher \<Rightarrow> cipher \<Rightarrow> hello_env \<Rightarrow> repeater_ctx \<Rightarrow> int \<times> session \<Rightarrow> (int \<times> session) run" where
  "after_hello ce cd env ctx = (\<lambda>(ret, s).
     if ret \<noteq> 0 then Done (ret, s)
     else if e_select env < 0 then Done (0, s)
     else if e_select env = 0 then Done (-2, s)
     else handle_reply ce cd env ctx s)"

lemma hello_ctx_ok: "6 \<le> length m \<Longrightarrow> 16 \<le> length key \<Longrightarrow> ctx_ok (hello_ctx env ctx m master key)"
  by (simp add: ctx_ok_def hello_ctx_def repeater_init_client_quadruples_def hello_quadruples_def
      key_chars_facts)

lemma hello_start:
  assumes "hello_setup env ip_text m key"
  shows "\<exists>s. client_ok (client s) \<and> wire s = [] \<and> sends s = e_sends env \<and> recvs s = e_recvs env \<and>
    tcp_client_send_hello ce cd env ctx ip_text m master key =
      run_bind (run_bind (send_client_hello ce env (hello_ctx env ctx m master key) s)
          (after_hello ce cd env (hello_ctx env ctx m master key)))
        (\<lambda>r. run_bind (finish_hello r) (\<lambda>(ret, s). Done (ret, Some s, hello_ctx env ctx m master key)))"
proof -
  obtain t where t: "ip_text = Some t" "c_string t \<noteq> []"
    using assms by (auto simp: hello_setup_def split: option.splits)
  obtain c where c: "tcp_client_init (e_calloc env) (e_fd env) (e_buf env) (e_pton env) (e_connect env)
      ip_text TCP_SERVER_PORT = Inr (Some c, Some c)"
    using assms t by (simp add: tcp_client_init_def hello_setup_def TCP_SERVER_PORT_def Let_def
        tcp_client_connect_def client_zero_def)
  have iv: "aes_generate_iv_string (e_rands env) (replicate 16 0) 16 = Inr (0, key_chars (e_rands env))"
    using generate_iv_eq [of 16 "replicate 16 0" "e_rands env"] key_chars_facts(1) [of "e_rands env"] by simp
  let ?s = "\<lparr>client = c, wire = [], sends = e_sends env, recvs = e_recvs env\<rparr>"
  have "tcp_client_send_hello ce cd env ctx ip_text m master key =
      run_bind (run_bind (send_client_hello ce env (hello_ctx env ctx m master key) ?s)
          (after_hello ce cd env (hello_ctx env ctx m master key)))
        (\<lambda>r. run_bind (finish_hello r) (\<lambda>(ret, s). Done (ret, Some s, hello_ctx env ctx m master key)))"
    using t(2) unfolding tcp_client_send_hello_def c iv Let_def
    by (simp add: t(1) hello_ctx_def after_hello_def)
  moreover have "client_ok c" using init_ok [OF c] by simp
  ultimately show ?thesis by (intro exI [of _ ?s]) simp
qed

lemma finish_hello_ok:
  assumes "\<not> freed (client s)"
  shows "\<exists>s'. finish_hello (r, s) = Done (r, s') \<and> freed (client s') \<and> wire s' = wire s"
  using assms by (simp add: finish_hello_def tcp_client_deinit_def tcp_client_disconnect_def)

text \<open>When the client hello cannot be sent, the block is released twice.\<close>

lemma hello_send_fails:
  assumes e: "hello_setup env ip_text m key" and ci: "cbc_pair ce cd" and s: "e_sends env = SendErr OTHER_ERRNO # rest"
  shows "tcp_client_send_hello ce cd env ctx ip_text m master key = Fault DoubleFree"
proof -
  let ?x = "hello_ctx env ctx m master key"
  have x: "ctx_ok ?x" and ev: "env_ok env" using e by (auto simp: hello_setup_def intro: hello_ctx_ok)
  from hello_start [OF e, of ce cd ctx master] obtain s0 where
    s0: "client_ok (client s0)" "sends s0 = e_sends env"
    and h: "tcp_client_send_hello ce cd env ctx ip_text m master key =
      run_bind (run_bind (send_client_hello ce env ?x s0) (after_hello ce cd env ?x))
        (\<lambda>r. run_bind (finish_hello r) (\<lambda>(ret, s). Done (ret, Some s, ?x)))" by blast
  from client_hello_cases [OF s0(1) x ev ci] obtain s1 where
    "send_client_hello ce env ?x s0 = Done (-1, s1)" "freed (client s1)"
    using s s0(2) by metis
  then show ?thesis unfolding h by (simp add: after_hello_def finish_hello_def tcp_client_deinit_def)
qed

lemma hello_sent:
  assumes e: "hello_setup env ip_text m key" and ci: "cbc_pair ce cd" and s: "e_sends env = SendOk 64 # rest"
  shows "\<exists>p s1. cd (take 16 key) (key_chars (e_rands env)) p = Some (padded CLIENT_HELLO)
    \<and> client_ok (client s1) \<and> sends s1 = rest \<and> recvs s1 = e_recvs env
    \<and> wire s1 = frame_bytes (sent_frame (e_junk env 2) (e_now env 0) (hello_ctx env ctx m master key)
                   TCP_FRAME_TYPE_CLIENT_HELLO p)
    \<and> length (wire s1) = 64
    \<and> tcp_client_send_hello ce cd env ctx ip_text m master key =
      run_bind (after_hello ce cd env (hello_ctx env ctx m master key) (0, s1))
        (\<lambda>r. run_bind (finish_hello r) (\<lambda>(ret, s). Done (ret, Some s, hello_ctx env ctx m master key)))"
proof -
  let ?x = "hello_ctx env ctx m master key"
  have x: "ctx_ok ?x" and ev: "env_ok env" using e by (auto simp: hello_setup_def intro: hello_ctx_ok)
  have kv: "qkey (client_quadruples ?x) = take 16 key" "qiv (client_quadruples ?x) = key_chars (e_rands env)"
    by (simp_all add: hello_ctx_def repeater_init_client_quadruples_def hello_quadruples_def key_chars_facts)
  from hello_start [OF e, of ce cd ctx master] obtain s0 where
    s0: "client_ok (client s0)" "wire s0 = []" "sends s0 = e_sends env" "recvs s0 = e_recvs env"
    and h: "tcp_client_send_hello ce cd env ctx ip_text m master key =
      run_bind (run_bind (send_client_hello ce env ?x s0) (after_hello ce cd env ?x))
        (\<lambda>r. run_bind (finish_hello r) (\<lambda>(ret, s). Done (ret, Some s, ?x)))" by blast
  let ?f = "\<lambda>p. sent_frame (e_junk env 2) (e_now env 0) ?x TCP_FRAME_TYPE_CLIENT_HELLO p"
  from client_hello_cases [OF s0(1) x ev ci] obtain p where
    p: "length p = 16" "cd (take 16 key) (key_chars (e_rands env)) p = Some (padded CLIENT_HELLO)"
      "send_client_hello ce env ?x s0 = Done (0, s0\<lparr>wire := wire s0 @ frame_bytes (?f p), sends := rest\<rparr>)"
    using s s0(3) unfolding kv by metis
  have "length (frame_bytes (?f p)) = 64"
    using length_frame_bytes [OF sent_frame_ok [OF x env_okD(2) [OF ev, of 2]], of "e_now env 0" TCP_FRAME_TYPE_CLIENT_HELLO p]
      p(1) by (simp add: sent_frame_data)
  then show ?thesis
    using s0 p by (intro exI [of _ p] exI [of _ "s0\<lparr>wire := wire s0 @ frame_bytes (?f p), sends := rest\<rparr>"]) (simp add: h)
qed

text \<open>
  Two ways to a reported success without any proof by the server that it knows the key: a failing
  \<open>select\<close>, and a reply whose frame announces no payload.
\<close>

lemma hello_select_error:
  assumes e: "hello_setup env ip_text m key" and ci: "cbc_pair ce cd" and s: "e_sends env = SendOk 64 # rest"
    and sel: "e_select env < 0"
  shows "\<exists>s'. tcp_client_send_hello ce cd env ctx ip_text m master key = Done (0, Some s', hello_ctx env ctx m master key)
    \<and> length (wire s') = 64"
proof -
  from hello_sent [OF e ci s, of ctx master] obtain s1 where
    s1: "client_ok (client s1)" "length (wire s1) = 64"
    and h: "tcp_client_send_hello ce cd env ctx ip_text m master key =
      run_bind (after_hello ce cd env (hello_ctx env ctx m master key) (0, s1))
        (\<lambda>r. run_bind (finish_hello r) (\<lambda>(ret, s). Done (ret, Some s, hello_ctx env ctx m master key)))" by blast
  have "\<not> freed (client s1)" using s1(1) by (simp add: client_ok_def)
  from finish_hello_ok [OF this, of 0] s1 sel show ?thesis unfolding h by (auto simp: after_hello_def)
qed

lemma recv_data_whole:
  assumes "client_ok (client s)" "recvs s = RecvOk b # rest" "length b = n" "0 < n" "int n \<le> sz"
  shows "tcp_client_recv_data s True sz (int n) = Done (int n, b, s\<lparr>recvs := rest\<rparr>)"
  using assms by (auto simp: tcp_client_recv_data_def client_ok_def Comm_sock_recv_data_def)

lemma client_ok_buf: "client_ok c \<Longrightarrow> cbuffer c \<noteq> None \<and> bufferSize c = 2048"
  by (simp add: client_ok_def TCP_CLIENT_BUFFER_SIZE_def)

lemma handle_reply_empty:
  assumes "client_ok (client s)" "recvs s = RecvOk hdr # rest" "length hdr = 48" "head (frame_of hdr) = MAGIC_HEAD"
    "frameType (frame_of hdr) = TCP_FRAME_TYPE_SERVER_HELLO" "frameSize (frame_of hdr) = 0"
  shows "handle_reply ce cd env ctx s = Done (0, s\<lparr>recvs := rest\<rparr>)"
  using assms recv_data_whole [of s hdr rest 48 2048] client_ok_buf [OF assms(1)]
  by (simp add: handle_reply_def FRAME_HEADER_SIZE_def Let_def)

lemma hello_empty_reply:
  assumes e: "hello_setup env ip_text m key" and ci: "cbc_pair ce cd" and s: "e_sends env = SendOk 64 # rest"
    and sel: "e_select env > 0" and r: "e_recvs env = RecvOk hdr # later" "length hdr = 48"
    "head (frame_of hdr) = MAGIC_HEAD" "frameType (frame_of hdr) = TCP_FRAME_TYPE_SERVER_HELLO" "frameSize (frame_of hdr) = 0"
  shows "\<exists>s'. tcp_client_send_hello ce cd env ctx ip_text m master key = Done (0, Some s', hello_ctx env ctx m master key)
    \<and> length (wire s') = 64"
proof -
  from hello_sent [OF e ci s, of ctx master] obtain s1 where
    s1: "client_ok (client s1)" "recvs s1 = e_recvs env" "length (wire s1) = 64"
    and h: "tcp_client_send_hello ce cd env ctx ip_text m master key =
      run_bind (after_hello ce cd env (hello_ctx env ctx m master key) (0, s1))
        (\<lambda>r. run_bind (finish_hello r) (\<lambda>(ret, s). Done (ret, Some s, hello_ctx env ctx m master key)))" by blast
  let ?s2 = "s1\<lparr>recvs := later\<rparr>"
  have "after_hello ce cd env (hello_ctx env ctx m master key) (0, s1) = Done (0, ?s2)"
    using handle_reply_empty [OF s1(1) _ r(2-5)] s1(2) r(1) sel by (simp add: after_hello_def)
  moreover have "\<not> freed (client ?s2)" using s1(1) by (simp add: client_ok_def)
  from finish_hello_ok [OF this, of 0] obtain s' where
    "finish_hello (0, ?s2) = Done (0, s')" "wire s' = wire s1" by auto
  ultimately show ?thesis unfolding h using s1(3) by auto
qed


section \<open>Authentication of a reply with a payload\<close>

lemma strncmp_eq_take:
  "strncmp_eq a b n \<Longrightarrow> 0 \<notin> set b \<Longrightarrow> n \<le> length b \<Longrightarrow> take n a = take n b"
proof (induction a b n rule: strncmp_eq.induct)
  case (2 x a y b n)
  then show ?case by auto
qed auto

lemma server_hello_nonzero: "0 \<notin> set SERVER_HELLO"
  by (simp add: SERVER_HELLO_def ascii_def)

lemma pkcs7_get_zeros: "n \<le> length d \<Longrightarrow> \<forall>x \<in> set d. x = 0 \<Longrightarrow> aes_padding_pkcs7_get d n = Inr k \<Longrightarrow> k = 0"
  by (auto simp: aes_padding_pkcs7_get_def Let_def pad_bad_eq split: if_splits sum.splits bool.splits)

lemma decrypo_server_hello:
  assumes d: "aes_decrypo_data cd (Some dec) (Some tmp) n (replicate 256 0) = Inr (12, out)"
    and eq: "strncmp_eq out SERVER_HELLO 12" and n: "n \<le> 255" "n \<le> length tmp"
  shows "\<exists>p. cd (aes_key dec) (aes_iv dec) (take n tmp) = Some p \<and> take 12 (p @ drop n (replicate 256 0)) = SERVER_HELLO"
proof (cases "cd (aes_key dec) (aes_iv dec) (take n tmp)")
  case None
  then obtain k where "aes_padding_pkcs7_get (replicate 256 0) n = Inr k" "k = 12"
    using d n by (auto simp: aes_decrypo_data_def split: if_splits sum.splits)
  with pkcs7_get_zeros [of n "replicate 256 0" k] n have False by simp
  then show ?thesis ..
next
  case (Some p)
  then have "out = p @ drop n (replicate 256 0)"
    using d n by (auto simp: aes_decrypo_data_def Let_def split: if_splits sum.splits)
  with strncmp_eq_take [OF eq server_hello_nonzero] Some show ?thesis by (simp add: hello_lengths)
qed

lemma recv_server_hello_auth:
  assumes x: "ctx_ok ctx" and r: "recv_server_hello ce cd env ctx s f = Done (0, s')"
    and l: "length (frameData f) = unat (frameSize f)"
  shows "\<exists>p. cd (qkey (client_quadruples ctx)) (qiv (client_quadruples ctx)) (frameData f) = Some p
    \<and> take 12 (p @ drop (length (frameData f)) (replicate 256 0)) = SERVER_HELLO"
proof -
  let ?n = "unat (frameSize f)"
  let ?tmp = "take ?n (frameData f) @ replicate (256 - ?n) 0"
  let ?d = "\<lparr>is_init = 1, aes_key = qkey (client_quadruples ctx), aes_iv = qiv (client_quadruples ctx)\<rparr>"
  have n: "?n \<le> 255" using r by (auto simp: recv_server_hello_def Let_def split: if_splits)
  have al: "e_alloc env 3"
  proof (rule ccontr)
    assume "\<not> e_alloc env 3"
    then have "repeater_client_aes_dec_get (e_alloc env 3) ctx = Inr None"
      by (simp add: repeater_client_aes_dec_get_def repeater_aes_dec_of_def)
    with r n show False by (simp add: recv_server_hello_def Let_def)
  qed
  obtain dl out where d: "aes_decrypo_data cd (Some ?d) (Some ?tmp) ?n (replicate 256 0) = Inr (dl, out)"
    using r n al by (cases "aes_decrypo_data cd (Some ?d) (Some ?tmp) ?n (replicate 256 0)")
      (auto simp: recv_server_hello_def Let_def client_dec_get [OF x] hello_lengths)
  have "dl = 12" "strncmp_eq out SERVER_HELLO 12"
    using r n al d by (auto simp: recv_server_hello_def Let_def client_dec_get [OF x] hello_lengths split: if_splits)
  with decrypo_server_hello [of cd ?d ?tmp ?n out] d n l show ?thesis by simp
qed

lemma handle_reply_auth:
  assumes x: "ctx_ok ctx" and r: "handle_reply ce cd env ctx s = Done (0, s')"
  shows "\<exists>hdr s1. tcp_client_recv_data s (cbuffer (client s) \<noteq> None) (int (bufferSize (client s))) 48 = Done (48, hdr, s1)
    \<and> head (frame_of hdr) = MAGIC_HEAD \<and> frameType (frame_of hdr) = TCP_FRAME_TYPE_SERVER_HELLO
    \<and> (frameSize (frame_of hdr) = 0 \<or>
        (\<exists>got s2 p. tcp_client_recv_data s1 (cbuffer (client s1) \<noteq> None) (int (bufferSize (client s1) - 48))
              (int (unat (frameSize (frame_of hdr)))) = Done (int (length got), got, s2)
           \<and> cd (qkey (client_quadruples ctx)) (qiv (client_quadruples ctx)) got = Some p
           \<and> take 12 (p @ drop (length got) (replicate 256 0)) = SERVER_HELLO))"
proof -
  have exact: "ret = -1 \<or> ret = n \<and> ret = int (length got)"
    if "tcp_client_recv_data q b sz n = Done (ret, got, q')" for q q' b sz n ret got
  proof (cases "Comm_sock_recv_data (recvs q) (sock (client q)) b n")
    case None
    then show ?thesis using that by (auto simp: tcp_client_recv_data_def Let_def split: if_splits)
  next
    case (Some z)
    then show ?thesis using that by (cases z) (auto simp: tcp_client_recv_data_def Let_def split: if_splits)
  qed
  let ?r1 = "tcp_client_recv_data s (cbuffer (client s) \<noteq> None) (int (bufferSize (client s))) (int FRAME_HEADER_SIZE)"
  obtain ret hdr s1 where 1: "?r1 = Done (ret, hdr, s1)"
    using r by (cases ?r1) (auto simp: handle_reply_def)
  have "ret \<noteq> 0" "ret = -1 \<or> ret = 48" using exact [OF 1] by (auto simp: FRAME_HEADER_SIZE_def)
  then have ret: "ret = 48" using r 1 by (auto simp: handle_reply_def)
  have hd: "head (frame_of hdr) = MAGIC_HEAD" "frameType (frame_of hdr) = TCP_FRAME_TYPE_SERVER_HELLO"
    using r 1 ret by (auto simp: handle_reply_def Let_def split: if_splits)
  show ?thesis
  proof (cases "frameSize (frame_of hdr) = 0")
    case True
    with 1 ret hd show ?thesis by (auto simp: FRAME_HEADER_SIZE_def)
  next
    case False
    let ?f = "frame_of hdr"
    have fit: "\<not> unat (frameSize ?f) > bufferSize (client s1) - FRAME_HEADER_SIZE"
      using r 1 ret hd False by (auto simp: handle_reply_def Let_def word_gt_0 split: if_splits)
    let ?r2 = "tcp_client_recv_data s1 (cbuffer (client s1) \<noteq> None) (int (bufferSize (client s1) - FRAME_HEADER_SIZE))
        (int (unat (frameSize ?f)))"
    obtain ret2 got s2 where 2: "?r2 = Done (ret2, got, s2)"
      using r 1 ret hd False fit by (cases ?r2) (auto simp: handle_reply_def Let_def word_gt_0)
    have nz: "unat (frameSize ?f) \<noteq> 0" using False by (simp add: unat_eq_zero)
    have ret2: "ret2 = int (unat (frameSize ?f))"
      using r 1 ret hd False fit 2 exact [OF 2] by (auto simp: handle_reply_def Let_def word_gt_0 split: if_splits)
    then have len: "length got = unat (frameSize ?f)" using exact [OF 2] by auto
    obtain r3 s3 where 3: "recv_server_hello ce cd env ctx s2 (?f\<lparr>frameData := got\<rparr>) = Done (r3, s3)"
      using r 1 ret hd False fit 2 ret2
      by (cases "recv_server_hello ce cd env ctx s2 (?f\<lparr>frameData := got\<rparr>)") (auto simp: handle_reply_def Let_def word_gt_0)
    have "r3 = 0"
      using r 1 ret hd False fit 2 ret2 3 nz by (auto simp: handle_reply_def Let_def word_gt_0 split: if_splits)
    with recv_server_hello_auth [OF x, of ce cd env s2 "?f\<lparr>frameData := got\<rparr>" s3] 3 len obtain p where
      "cd (qkey (client_quadruples ctx)) (qiv (client_quadruples ctx)) got = Some p"
      "take 12 (p @ drop (length got) (replicate 256 0)) = SERVER_HELLO" by auto
    then show ?thesis using 1 ret hd 2 ret2 len unfolding FRAME_HEADER_SIZE_def by (intro exI conjI disjI2) auto
  qed
qed


section \<open>An honest server\<close>

lemma strncmp_eq_refl: "n \<le> length b \<Longrightarrow> strncmp_eq (b @ r) b n"
proof (induction n arbitrary: b)
  case 0
  then show ?case by simp
next
  case (Suc n)
  then show ?case by (cases b) auto
qed

lemma decrypo_padded:
  assumes d: "is_init dec \<noteq> 0" and c: "cd (aes_key dec) (aes_iv dec) b = Some (padded SERVER_HELLO)" and b: "length b = 16"
  shows "aes_decrypo_data cd (Some dec) (Some (b @ r)) 16 (replicate 256 0) =
    Inr (12, padded SERVER_HELLO @ replicate 240 0)"
proof -
  have p: "padded SERVER_HELLO = SERVER_HELLO @ replicate 4 (word_of_nat 4)"
    by (simp add: padded_def hello_lengths)
  have "aes_padding_pkcs7_get (SERVER_HELLO @ replicate 4 (word_of_nat 4) @ replicate 240 0) (length SERVER_HELLO + 4)
      = Inr (int (length SERVER_HELLO))"
    by (rule pkcs7_get_padded) simp_all
  then have g: "aes_padding_pkcs7_get (padded SERVER_HELLO @ replicate 240 0) 16 = Inr 12"
    by (simp add: p hello_lengths)
  have dr: "drop 16 (replicate 256 (0 :: u8)) = replicate 240 0" by simp
  show ?thesis
    unfolding aes_decrypo_data_def option.case prod.case dr using d c b g by (simp add: Let_def)
qed

lemma recv_server_hello_ok:
  assumes c: "client_ok (client s)" and x: "ctx_ok ctx" and e: "env_ok env" and ci: "cbc_pair ce cd"
    and f: "frameSize f = 16" "length (frameData f) = 16"
      "cd (qkey (client_quadruples ctx)) (qiv (client_quadruples ctx)) (frameData f) = Some (padded SERVER_HELLO)"
    and s: "sends s = SendOk 80 # rest"
  shows "\<exists>p. length p = 32
    \<and> cd (qkey (client_quadruples ctx)) (qiv (client_quadruples ctx)) p = Some (padded SERVER_HELLO_ACK)
    \<and> recv_server_hello ce cd env ctx s f =
        Done (0, s\<lparr>wire := wire s @ frame_bytes (sent_frame (e_junk env 6) (e_now env 1) ctx TCP_FRAME_TYPE_SERVER_HELLO_ACK p),
                   sends := rest\<rparr>)"
proof -
  have j: "get_aes_enc_out_len (length SERVER_HELLO_ACK) \<le> length (e_junk env 4)"
    using env_okD(2) [OF e, of 4] by (simp add: hello_lengths)
  have l: "length SERVER_HELLO_ACK < 336" by (simp add: hello_lengths)
  from encrypt_hello_ok [OF x ci l j] obtain p where
    p: "encrypt_hello ce True (e_junk env 4) ctx SERVER_HELLO_ACK = Done (Some (32, p))" "length p = 32"
      "cd (qkey (client_quadruples ctx)) (qiv (client_quadruples ctx)) p = Some (padded SERVER_HELLO_ACK)"
    by (auto simp: hello_lengths)
  note al = env_okD(1) [OF e] and jk = env_okD(2) [OF e, of 6]
  let ?d = "\<lparr>is_init = 1, aes_key = qkey (client_quadruples ctx), aes_iv = qiv (client_quadruples ctx)\<rparr>"
  have d: "aes_decrypo_data cd (Some ?d) (Some (frameData f @ replicate 240 0)) 16 (replicate 256 0) =
      Inr (12, padded SERVER_HELLO @ replicate 240 0)"
    using f by (intro decrypo_padded) simp_all
  have eq: "strncmp_eq (padded SERVER_HELLO @ replicate 240 0) SERVER_HELLO 12"
    unfolding padded_def append_assoc by (rule strncmp_eq_refl) (simp add: hello_lengths)
  have sf: "tcp_client_send_frame True (e_junk env 6) (e_now env 1) ctx s TCP_FRAME_TYPE_SERVER_HELLO_ACK (Some p) 32 =
      Done (80, s\<lparr>wire := wire s @ frame_bytes (sent_frame (e_junk env 6) (e_now env 1) ctx TCP_FRAME_TYPE_SERVER_HELLO_ACK p),
                   sends := rest\<rparr>)"
    using send_frame_whole [OF c x jk, of p rest "e_now env 1" TCP_FRAME_TYPE_SERVER_HELLO_ACK] s p(2) by simp
  have "recv_server_hello ce cd env ctx s f =
        Done (0, s\<lparr>wire := wire s @ frame_bytes (sent_frame (e_junk env 6) (e_now env 1) ctx TCP_FRAME_TYPE_SERVER_HELLO_ACK p),
                   sends := rest\<rparr>)"
    unfolding recv_server_hello_def Let_def using f(1,2) d eq p(1) sf
    by (simp add: al client_dec_get [OF x] hello_lengths)
  with p show ?thesis by blast
qed

lemma handle_reply_honest:
  assumes c: "client_ok (client s)" and x: "ctx_ok ctx" and e: "env_ok env" and ci: "cbc_pair ce cd"
    and r: "recvs s = RecvOk hdr # RecvOk reply # rest" "length hdr = 48" "head (frame_of hdr) = MAGIC_HEAD"
      "frameType (frame_of hdr) = TCP_FRAME_TYPE_SERVER_HELLO" "frameSize (frame_of hdr) = 16" "length reply = 16"
      "cd (qkey (client_quadruples ctx)) (qiv (client_quadruples ctx)) reply = Some (padded SERVER_HELLO)"
    and s: "sends s = SendOk 80 # more_sends"
  shows "\<exists>p. cd (qkey (client_quadruples ctx)) (qiv (client_quadruples ctx)) p = Some (padded SERVER_HELLO_ACK)
    \<and> handle_reply ce cd env ctx s = Done (0, s\<lparr>recvs := rest,
         wire := wire s @ frame_bytes (sent_frame (e_junk env 6) (e_now env 1) ctx TCP_FRAME_TYPE_SERVER_HELLO_ACK p),
         sends := more_sends\<rparr>)"
proof -
  let ?s2 = "s\<lparr>recvs := rest\<rparr>"
  let ?f = "(frame_of hdr)\<lparr>frameData := reply\<rparr>"
  have c2: "client_ok (client ?s2)" "sends ?s2 = SendOk 80 # more_sends" using c s by simp_all
  have f: "frameSize ?f = 16" "length (frameData ?f) = 16"
    "cd (qkey (client_quadruples ctx)) (qiv (client_quadruples ctx)) (frameData ?f) = Some (padded SERVER_HELLO)"
    using r by simp_all
  from recv_server_hello_ok [OF c2(1) x e ci f c2(2)] obtain p where
    p: "cd (qkey (client_quadruples ctx)) (qiv (client_quadruples ctx)) p = Some (padded SERVER_HELLO_ACK)"
      "recv_server_hello ce cd env ctx ?s2 ?f = Done (0, ?s2\<lparr>wire := wire ?s2 @
         frame_bytes (sent_frame (e_junk env 6) (e_now env 1) ctx TCP_FRAME_TYPE_SERVER_HELLO_ACK p), sends := more_sends\<rparr>)"
    by blast
  have 1: "tcp_client_recv_data s True 2048 48 = Done (48, hdr, s\<lparr>recvs := RecvOk reply # rest\<rparr>)"
    using recv_data_whole [of s hdr "RecvOk reply # rest" 48 2048] c r by simp
  have 2: "tcp_client_recv_data (s\<lparr>recvs := RecvOk reply # rest\<rparr>) True 2000 16 = Done (16, reply, ?s2)"
    using recv_data_whole [of "s\<lparr>recvs := RecvOk reply # rest\<rparr>" reply rest 16 2000] c r by simp
  have "handle_reply ce cd env ctx s = Done (0, s\<lparr>recvs := rest,
         wire := wire s @ frame_bytes (sent_frame (e_junk env 6) (e_now env 1) ctx TCP_FRAME_TYPE_SERVER_HELLO_ACK p),
         sends := more_sends\<rparr>)"
    using client_ok_buf [OF c] 1 2 p(2) r(3-5)
    by (simp add: handle_reply_def FRAME_HEADER_SIZE_def Let_def)
  with p(1) show ?thesis by blast
qed

lemma hello_honest:
  assumes e: "hello_setup env ip_text m key" and ci: "cbc_pair ce cd" and s: "e_sends env = SendOk 64 # SendOk 80 # rest"
    and sel: "e_select env > 0"
    and r: "e_recvs env = RecvOk hdr # RecvOk reply # later" "length hdr = 48" "head (frame_of hdr) = MAGIC_HEAD"
      "frameType (frame_of hdr) = TCP_FRAME_TYPE_SERVER_HELLO" "frameSize (frame_of hdr) = 16" "length reply = 16"
      "cd (take 16 key) (key_chars (e_rands env)) reply = Some (padded SERVER_HELLO)"
  shows "\<exists>s' p q. tcp_client_send_hello ce cd env ctx ip_text m master key = Done (0, Some s', hello_ctx env ctx m master key)
    \<and> freed (client s')
    \<and> wire s' = frame_bytes (sent_frame (e_junk env 2) (e_now env 0) (hello_ctx env ctx m master key) TCP_FRAME_TYPE_CLIENT_HELLO p)
        @ frame_bytes (sent_frame (e_junk env 6) (e_now env 1) (hello_ctx env ctx m master key) TCP_FRAME_TYPE_SERVER_HELLO_ACK q)
    \<and> cd (take 16 key) (key_chars (e_rands env)) p = Some (padded CLIENT_HELLO)
    \<and> cd (take 16 key) (key_chars (e_rands env)) q = Some (padded SERVER_HELLO_ACK)"
proof -
  let ?x = "hello_ctx env ctx m master key"
  have x: "ctx_ok ?x" and ev: "env_ok env" using e by (auto simp: hello_setup_def intro: hello_ctx_ok)
  have kv: "qkey (client_quadruples ?x) = take 16 key" "qiv (client_quadruples ?x) = key_chars (e_rands env)"
    by (simp_all add: hello_ctx_def repeater_init_client_quadruples_def hello_quadruples_def key_chars_facts)
  from hello_sent [OF e ci s, of ctx master] obtain p s1 where
    p: "cd (take 16 key) (key_chars (e_rands env)) p = Some (padded CLIENT_HELLO)"
    and s1: "client_ok (client s1)" "sends s1 = SendOk 80 # rest" "recvs s1 = e_recvs env"
      "wire s1 = frame_bytes (sent_frame (e_junk env 2) (e_now env 0) ?x TCP_FRAME_TYPE_CLIENT_HELLO p)"
    and h: "tcp_client_send_hello ce cd env ctx ip_text m master key =
      run_bind (after_hello ce cd env ?x (0, s1)) (\<lambda>r. run_bind (finish_hello r) (\<lambda>(ret, s). Done (ret, Some s, ?x)))"
    by blast
  have rr: "recvs s1 = RecvOk hdr # RecvOk reply # later" using s1(3) r(1) by simp
  from handle_reply_honest [OF s1(1) x ev ci rr r(2-6) _ s1(2)] r(7) obtain q where
    q: "cd (take 16 key) (key_chars (e_rands env)) q = Some (padded SERVER_HELLO_ACK)"
      "handle_reply ce cd env ?x s1 = Done (0, s1\<lparr>recvs := later,
         wire := wire s1 @ frame_bytes (sent_frame (e_junk env 6) (e_now env 1) ?x TCP_FRAME_TYPE_SERVER_HELLO_ACK q),
         sends := rest\<rparr>)" unfolding kv by blast
  let ?s3 = "s1\<lparr>recvs := later,
         wire := wire s1 @ frame_bytes (sent_frame (e_junk env 6) (e_now env 1) ?x TCP_FRAME_TYPE_SERVER_HELLO_ACK q),
         sends := rest\<rparr>"
  have "\<not> freed (client ?s3)" using s1(1) by (simp add: client_ok_def)
  from finish_hello_ok [OF this, of 0] obtain s' where
    "finish_hello (0, ?s3) = Done (0, s')" "freed (client s')" "wire s' = wire ?s3" by blast
  moreover have "after_hello ce cd env ?x (0, s1) = Done (0, ?s3)" using sel q(2) by (simp add: after_hello_def)
  ultimately show ?thesis using p q(1) s1(4) unfolding h by auto
qed

end
