(* ===== verification/Tcp_Jni.thy ===== *)
theory Tcp_Jni
  imports Tcp_Client Machine
begin

text \<open>
  The native methods of \<open>TcpClient\<close> in \<open>tcp_jni.cpp\<close>. Java holds a client by its address;
  the heap maps an address to the session of the client there, and a block that has been released
  stays in it, marked \<open>freed\<close>. Address 0 is the null pointer; using an address with no live
  block behind it is a fault. The class \<open>TcpClient.java\<close> keeps one address and clears it when
  it releases the client.
\<close>

type_synonym client_heap = "int \<Rightarrow> session option"

definition live_client :: "client_heap \<Rightarrow> int \<Rightarrow> session result" where
  "live_client h handle =
    (case h handle of None \<Rightarrow> Inl BufferOverrun
     | Some s \<Rightarrow> if freed (client s) then Inl BufferOverrun else Inr s)"

text \<open>The address a new client gets is \<open>addr\<close>; \<open>ip_text\<close> is what
  \<open>GetStringUTFChars\<close> returns.\<close>

definition initTcpClient :: "bool \<Rightarrow> int \<Rightarrow> bool \<Rightarrow> bool \<Rightarrow> connect_res \<Rightarrow> int \<Rightarrow> client_heap \<Rightarrow> bytes option \<Rightarrow> int
    \<Rightarrow> (int \<times> client_heap) result" where
  "initTcpClient calloc_ok fd buf_ok pton conn addr h ip_text port =
    (case ip_text of None \<Rightarrow> Inr (0, h)
     | Some txt \<Rightarrow>
        (case tcp_client_init calloc_ok fd buf_ok pton conn (Some txt) port of Inl e \<Rightarrow> Inl e
         | Inr (None, blk) \<Rightarrow> Inr (0, h)
         | Inr (Some c, blk) \<Rightarrow> Inr (addr, h(addr \<mapsto> \<lparr>client = c, wire = [], sends = [], recvs = []\<rparr>))))"

definition jni_connect :: "bool \<Rightarrow> connect_res \<Rightarrow> client_heap \<Rightarrow> int \<Rightarrow> (int \<times> client_heap) result" where
  "jni_connect pton conn h handle =
    (if handle = 0 then Inr (-1, h)
     else case live_client h handle of Inl e \<Rightarrow> Inl e
      | Inr s \<Rightarrow>
         (case tcp_client_connect pton conn (Some (client s)) of
            (ret, Some c) \<Rightarrow> Inr (ret, h(handle \<mapsto> s\<lparr>client := c\<rparr>))
          | (ret, None) \<Rightarrow> Inr (ret, h)))"

text \<open>\<open>ans\<close> is what the kernel answers during the call; the array is \<open>None\<close> when it cannot be
  pinned.\<close>

definition jni_sendData :: "send_res list \<Rightarrow> client_heap \<Rightarrow> int \<Rightarrow> bytes option \<Rightarrow> nat \<Rightarrow> (int \<times> client_heap) run" where
  "jni_sendData ans h handle dat len =
    (if handle = 0 then Done (-1, h)
     else case dat of None \<Rightarrow> Done (-1, h)
      | Some d \<Rightarrow>
         run_bind (run_result (live_client h handle)) (\<lambda>s.
           run_bind (tcp_client_send_data (s\<lparr>sends := ans\<rparr>) (Some d) (int len)) (\<lambda>(ret, s).
             Done (ret, h(handle \<mapsto> s)))))"

text \<open>The whole array is asked for; what arrives is copied back over its start.\<close>

definition jni_recvData :: "recv_res list \<Rightarrow> client_heap \<Rightarrow> int \<Rightarrow> bool \<Rightarrow> bytes \<Rightarrow> (int \<times> bytes \<times> client_heap) run" where
  "jni_recvData ans h handle pinned arr =
    (if handle = 0 then Done (-1, arr, h)
     else if \<not> pinned then Done (-1, arr, h)
     else run_bind (run_result (live_client h handle)) (\<lambda>s.
       run_bind (tcp_client_recv_data (s\<lparr>recvs := ans\<rparr>) True (int (length arr)) (int (length arr)))
         (\<lambda>(ret, got, s). Done (ret, got @ drop (length got) arr, h(handle \<mapsto> s)))))"

definition jni_release :: "client_heap \<Rightarrow> int \<Rightarrow> client_heap result" where
  "jni_release h handle =
    (if handle = 0 then Inr h
     else case h handle of None \<Rightarrow> Inl BufferOverrun
      | Some s \<Rightarrow>
         (case tcp_client_deinit (Some (client s)) of Inl e \<Rightarrow> Inl e
          | Inr (_, Some c) \<Rightarrow> Inr (h(handle \<mapsto> s\<lparr>client := c\<rparr>))
          | Inr (_, None) \<Rightarrow> Inr h))"

definition jni_sendHello :: "cipher \<Rightarrow> cipher \<Rightarrow> hello_env \<Rightarrow> repeater_ctx \<Rightarrow> bytes option \<Rightarrow> bytes option \<Rightarrow> bytes option
    \<Rightarrow> bytes option \<Rightarrow> (int \<times> repeater_ctx) run" where
  "jni_sendHello ce cd env ctx ip_text m master key =
    (case ip_text of None \<Rightarrow> Done (-1, ctx)
     | Some txt \<Rightarrow>
        (case (m, master, key) of
           (Some mb, Some sb, Some kb) \<Rightarrow>
             run_bind (tcp_client_send_hello ce cd env ctx (Some txt) mb sb kb) (\<lambda>(ret, _, ctx). Done (ret, ctx))
         | _ \<Rightarrow> Done (-1, ctx)))"

section \<open>The object in Java\<close>

record tcp_java =
  native_ptr :: int
  jheap :: client_heap

inductive java_step :: "tcp_java \<Rightarrow> tcp_java \<Rightarrow> bool" where
  java_init: "initTcpClient a fd b p conn addr (jheap j) ip_text port = Inr (r, h) \<Longrightarrow> addr \<noteq> 0 \<Longrightarrow> jheap j addr = None \<Longrightarrow>
    java_step j (j\<lparr>native_ptr := r, jheap := h\<rparr>)"
| java_connect: "jni_connect p conn (jheap j) (native_ptr j) = Inr (r, h) \<Longrightarrow> java_step j (j\<lparr>jheap := h\<rparr>)"
| java_send: "jni_sendData ans (jheap j) (native_ptr j) dat n = Done (r, h) \<Longrightarrow> java_step j (j\<lparr>jheap := h\<rparr>)"
| java_recv: "jni_recvData ans (jheap j) (native_ptr j) pinned arr = Done (r, arr', h) \<Longrightarrow> java_step j (j\<lparr>jheap := h\<rparr>)"
| java_release: "jni_release (jheap j) (native_ptr j) = Inr h \<Longrightarrow> java_step j (j\<lparr>native_ptr := 0, jheap := h\<rparr>)"

definition java_start :: "tcp_java \<Rightarrow> bool" where
  "java_start j \<longleftrightarrow> j = \<lparr>native_ptr = 0, jheap = Map.empty\<rparr>"

definition java_inv :: "tcp_java \<Rightarrow> bool" where
  "java_inv j \<longleftrightarrow> jheap j 0 = None \<and> (native_ptr j \<noteq> 0 \<longrightarrow> (\<exists>s. jheap j (native_ptr j) = Some s \<and> \<not> freed (client s)))"

text \<open>How a run in steps ends.\<close>

lemma run_bind_Done: "run_bind r f = Done b \<longleftrightarrow> (\<exists>a. r = Done a \<and> f a = Done b)"
  by (cases r) auto

lemma run_bind_Fault: "run_bind r f = Fault e \<longleftrightarrow> r = Fault e \<or> (\<exists>a. r = Done a \<and> f a = Fault e)"
  by (cases r) auto

lemma run_result_simps [simp]: "run_result r = Done a \<longleftrightarrow> r = Inr a" "run_result r = Fault e \<longleftrightarrow> r = Inl e"
  by (cases r; auto)+

lemma run_answer_simps [simp]: "run_answer x = Done a \<longleftrightarrow> x = Some a" "run_answer x \<noteq> Fault e"
  by (cases x; auto)+

lemma connect_keeps_live:
  "tcp_client_connect p conn (Some c) = (r, Some c') \<Longrightarrow> freed c' = freed c"
  by (auto simp: tcp_client_connect_def split: if_splits connect_res.splits)

lemma connect_some: "snd (tcp_client_connect p conn (Some c)) \<noteq> None"
  by (auto simp: tcp_client_connect_def split: if_splits connect_res.splits)

lemma send_data_keeps_live: "tcp_client_send_data s dat n = Done (r, s') \<Longrightarrow> freed (client s') = freed (client s)"
  by (auto simp: tcp_client_send_data_def Let_def run_bind_Done split: option.splits if_splits)

lemma recv_data_keeps_live: "tcp_client_recv_data s b n m = Done (r, got, s') \<Longrightarrow> freed (client s') = freed (client s)"
  by (auto simp: tcp_client_recv_data_def Let_def run_bind_Done split: if_splits)

lemma live_client_Inr: "live_client h p = Inr s \<longleftrightarrow> h p = Some s \<and> \<not> freed (client s)"
  by (auto simp: live_client_def split: option.splits)

lemma java_inv_keep:
  "java_inv j \<Longrightarrow> native_ptr j \<noteq> 0 \<Longrightarrow> \<not> freed (client s) \<Longrightarrow> java_inv (j\<lparr>jheap := (jheap j)(native_ptr j \<mapsto> s)\<rparr>)"
  by (simp add: java_inv_def)

lemma java_step_inv:
  assumes "java_inv j" "java_step j j'" shows "java_inv j'"
  using assms(2)
proof (cases rule: java_step.cases)
  case (java_init a fd b p conn addr ip_text port r h)
  then show ?thesis using assms(1) init_ok
    by (fastforce simp: initTcpClient_def java_inv_def client_ok_def split: option.splits sum.splits)
next
  case (java_connect p conn r h)
  show ?thesis
  proof (cases "native_ptr j = 0")
    case True
    then show ?thesis using java_connect assms(1) by (cases j) (auto simp: jni_connect_def)
  next
    case False
    obtain s where l: "live_client (jheap j) (native_ptr j) = Inr s"
      using False assms(1) by (auto simp: java_inv_def live_client_Inr)
    obtain c where c: "tcp_client_connect p conn (Some (client s)) = (r, Some c)" "h = (jheap j)(native_ptr j \<mapsto> s\<lparr>client := c\<rparr>)"
      using java_connect(2) False connect_some [of p conn "client s"]
      by (auto simp: jni_connect_def l split: prod.splits option.splits)
    have "\<not> freed c" using connect_keeps_live [OF c(1)] l by (simp add: live_client_Inr)
    then show ?thesis using java_inv_keep [OF assms(1) False] java_connect(1) c(2) by simp
  qed
next
  case (java_send ans dat n r h)
  then show ?thesis
    using assms(1) java_inv_keep [OF assms(1)]
    by (auto simp: jni_sendData_def run_bind_Done live_client_Inr split: if_splits option.splits
        dest!: send_data_keeps_live)
next
  case (java_recv ans pinned arr r arr' h)
  then show ?thesis
    using assms(1) java_inv_keep [OF assms(1)]
    by (auto simp: jni_recvData_def run_bind_Done live_client_Inr split: if_splits
        dest!: recv_data_keeps_live)
next
  case (java_release h)
  then show ?thesis
    using assms(1) by (auto simp: jni_release_def java_inv_def split: if_splits option.splits sum.splits)
qed

interpretation jni: machine java_start java_step java_inv
  by unfold_locales (simp add: java_start_def java_inv_def, rule java_step_inv)

section \<open>No call faults\<close>

text \<open>What the four methods that take an address do on the one Java holds.\<close>

lemma java_live: "java_inv j \<Longrightarrow> native_ptr j \<noteq> 0 \<Longrightarrow> \<exists>s. live_client (jheap j) (native_ptr j) = Inr s"
  by (auto simp: java_inv_def live_client_Inr)

lemma deinit_live: "\<not> freed c \<Longrightarrow> \<exists>r c'. tcp_client_deinit (Some c) = Inr (r, Some c') \<and> freed c'"
  by (simp add: tcp_client_deinit_def tcp_client_disconnect_def)

lemma data_no_fault: "tcp_client_send_data s dat n \<noteq> Fault e" "tcp_client_recv_data s b n m \<noteq> Fault e"
  by (auto simp: tcp_client_send_data_def tcp_client_recv_data_def Let_def run_bind_Fault split: option.splits if_splits)

lemma java_calls_safe:
  assumes "java_inv j"
  shows "\<exists>r h. jni_connect p conn (jheap j) (native_ptr j) = Inr (r, h)"
    "jni_sendData sends_left (jheap j) (native_ptr j) dat n \<noteq> Fault e"
    "jni_recvData recvs_left (jheap j) (native_ptr j) pinned arr \<noteq> Fault e"
    "\<exists>h. jni_release (jheap j) (native_ptr j) = Inr h
      \<and> (native_ptr j \<noteq> 0 \<longrightarrow> (\<exists>s. h (native_ptr j) = Some s \<and> freed (client s)))"
proof -
  consider "native_ptr j = 0" | s where "native_ptr j \<noteq> 0" "live_client (jheap j) (native_ptr j) = Inr s"
    using java_live [OF assms] by blast
  note cs = this
  show "\<exists>r h. jni_connect p conn (jheap j) (native_ptr j) = Inr (r, h)"
    using cs by cases (auto simp: jni_connect_def split: prod.splits option.splits)
  show "jni_sendData sends_left (jheap j) (native_ptr j) dat n \<noteq> Fault e"
    using cs by cases (auto simp: jni_sendData_def run_bind_Fault data_no_fault split: option.splits)
  show "jni_recvData recvs_left (jheap j) (native_ptr j) pinned arr \<noteq> Fault e"
    using cs by cases (auto simp: jni_recvData_def run_bind_Fault data_no_fault)
  show "\<exists>h. jni_release (jheap j) (native_ptr j) = Inr h
      \<and> (native_ptr j \<noteq> 0 \<longrightarrow> (\<exists>s. h (native_ptr j) = Some s \<and> freed (client s)))"
    using cs
  proof cases
    case (2 s)
    then obtain r c where "tcp_client_deinit (Some (client s)) = Inr (r, Some c)" "freed c"
      using deinit_live [of "client s"] by (auto simp: live_client_Inr)
    with 2 show ?thesis by (simp add: jni_release_def live_client_Inr)
  qed (simp add: jni_release_def)
qed

text \<open>Releasing the same address twice is a fault.\<close>

lemma release_twice:
  assumes "p \<noteq> 0" "jni_release h p = Inr h'" shows "jni_release h' p = Inl DoubleFree"
  using assms deinit_twice
  by (auto simp: jni_release_def split: option.splits sum.splits prod.splits)
     (auto simp: tcp_client_deinit_def tcp_client_disconnect_def split: if_splits)

end
