(* ===== verification/App_Properties.thy ===== *)
theory App_Properties
  imports App_Delivery Tcp_Jni
begin

text \<open>
  The properties of the native methods: the KCP wrapper under any sequence of calls from Java, what
  two wrappers do with a message, and the life of a TCP client held by Java.
\<close>

section \<open>The KCP wrapper\<close>

text \<open>C4 (safety): whatever sequence of native calls Java makes, with any arguments, any datagrams
  and any failing system calls, the wrapper has no control block or one that keeps the invariants
  of the protocol, in message mode with segments of 1376 bytes; and as long as the counters have
  room no further update or receive faults when the memory for it is there.\<close>

theorem native_calls_are_safe:
  assumes "reachable app_start app_step g"
  shows "(app_kcp g = None \<or> (\<exists>k. app_kcp g = Some k \<and> kcp_inv k \<and> output_set k \<and> mss k = 1376 \<and> stream k = 0))
    \<and> (app_room g \<longrightarrow> (\<exists>g' out. updateKcp ret g now = Inr (g', out))
         \<and> (\<exists>r g'. receiveData (\<lambda>_ _. True) True g dgram = Inr (r, g')))"
proof -
  have i: "app_inv g" using app.inv_reachable [OF assms] .
  then have "app_kcp g = None \<or> (\<exists>k. app_kcp g = Some k \<and> kcp_inv k \<and> output_set k \<and> mss k = 1376 \<and> stream k = 0)"
    using app_kcpD [of g] by (cases "app_kcp g") auto
  then show ?thesis using updateKcp_total [OF i] receiveData_total [OF i] by blast
qed

lemma open_app:
  "\<exists>g k. initKcp (\<lambda>_. True) 5 (Some 1) app_zero 8888 7 = Inr g \<and> app_idle g k \<and> kconv k = 7 \<and> rcv_nxt k = 0
    \<and> snd_nxt k = 0 \<and> snd_una k = 0 \<and> rcv_wnd k = 128 \<and> flush_cwnd k = 32 \<and> updated k = 0 \<and> app_room g"
proof -
  obtain g k where k: "initKcp (\<lambda>_. True) 5 (Some 1) app_zero 8888 7 = Inr g" "app_kcp g = Some k" "udp_fd g = 5"
    "snd_queue k = []" "snd_buf k = []" "rcv_queue k = []" "rcv_buf k = []" "snd_nxt k = 0" "snd_una k = 0" "rcv_nxt k = 0"
    "kconv k = 7" "ackcount k = 0" "updated k = 0" "rcv_wnd k = 128" "snd_wnd k = 128" "rmt_wnd k = 32" "nocwnd k = 1"
    using initKcp_opens [of 5 "Some 1" app_zero 8888 7] by auto
  moreover have "app_inv g" using initKcp_inv [OF k(1) start_app_inv] .
  moreover have "flush_cwnd k = 32" by (simp add: flush_cwnd_def Let_def imin_def k)
  ultimately show ?thesis by (auto simp: app_idle_def app_room_def)
qed

theorem native_calls_are_safe_witness:
  "\<exists>g g' out. initKcp (\<lambda>_. True) 5 (Some 1) app_zero 8888 7 = Inr g \<and> app_kcp g \<noteq> None
    \<and> updateKcp (\<lambda>_. -1) g 1000 = Inr (g', out)"
proof -
  obtain g k where g: "initKcp (\<lambda>_. True) 5 (Some 1) app_zero 8888 7 = Inr g" "app_idle g k" "app_room g"
    using open_app by blast
  have "reachable app_start app_step app_zero" by (rule reach_start) (simp add: app_start_def)
  then have "reachable app_start app_step g" by (rule reach_step) (rule app_init [OF g(1)])
  from native_calls_are_safe [OF this] g show ?thesis by (auto simp: app_idle_def)
qed

text \<open>C2 (liveness): between two idle wrappers a message passed to \<open>sendData\<close> is accepted, goes
  out with the next update that is due, and when its datagrams arrive in order \<open>receiveData\<close>
  hands it to Java in exactly one call, provided it has 1 to 1500 bytes. An empty message is
  swallowed, and a longer one, although \<open>sendData\<close> returned 0, is never handed over and leaves
  the receiver blocked.\<close>

theorem wrappers_deliver:
  assumes "app_idle gt kt" "app_idle gr kr" "kconv kr = kconv kt" "rcv_nxt kr = snd_nxt kt"
    "length b < 2 ^ 31" "length (fragments 1376 b) \<le> min 255 (unat (rcv_wnd kr))"
    "unat (snd_nxt kt - snd_una kt) + length (fragments 1376 b) \<le> unat (flush_cwnd kt)"
    "fst (update_clock kt (word_of_int now))" "\<forall>i. ret i \<ge> 0"
  shows "\<exists>g1 g2 out g3. sendData (\<lambda>_. True) True gt b = Inr (0, g1) \<and> updateKcp ret g1 now = Inr (g2, out)
    \<and> receive_all gr out = Inr (if b \<noteq> [] \<and> length b \<le> 1500 then [b] else [], g3)
    \<and> (1500 < length b \<longrightarrow> app_jammed g3)"
proof -
  have "length (fragments 1376 b) \<le> 255" "length (fragments 1376 b) \<le> unat (rcv_wnd kr)" using assms(6) by simp_all
  from app_delivers [OF assms(1-5) this assms(7-9)] show ?thesis by (simp add: handed_over_def RECV_SIZE_def)
qed

theorem wrappers_deliver_witness:
  "\<exists>g g1 g2 out g3. initKcp (\<lambda>_. True) 5 (Some 1) app_zero 8888 7 = Inr g \<and> sendData (\<lambda>_. True) True g [1, 2, 3] = Inr (0, g1)
    \<and> updateKcp (\<lambda>_. 27) g1 1000 = Inr (g2, out) \<and> receive_all g out = Inr ([[1, 2, 3]], g3)"
proof -
  obtain g k where g: "initKcp (\<lambda>_. True) 5 (Some 1) app_zero 8888 7 = Inr g" "app_idle g k"
    "rcv_nxt k = 0" "snd_nxt k = 0" "snd_una k = 0" "rcv_wnd k = 128" "flush_cwnd k = 32" "updated k = 0"
    using open_app by blast
  have f: "length (fragments 1376 [1, 2, 3 :: u8]) = 1" by (simp add: fragments_small)
  have d: "fst (update_clock k (word_of_int 1000))" using g(8) by (simp add: update_clock_def Let_def itimediff_def)
  from wrappers_deliver [OF g(2,2), of "[1, 2, 3]" 1000 "\<lambda>_. 27"] d g show ?thesis by (auto simp: f)
qed

text \<open>C18 (error): a complete message of more than 1500 bytes at the head of the receive queue is
  never handed over and never dropped: after any further traffic, every call of \<open>receiveData\<close>
  returns null, so nothing behind it is delivered until the connection is released.\<close>

theorem long_message_blocks_receiver:
  assumes "app_inv g" "app_kcp g = Some k" "\<exists>s \<in> set (rcv_queue k). frg s = 0" "1500 < ikcp_peeksize k"
    "reachable (\<lambda>s. s = g) app_traffic g'" "app_room g'" "receiveData ok made g' dgram = Inr (r, g'')"
  shows "r = None \<and> (\<exists>k'. app_kcp g'' = Some k' \<and> ikcp_peeksize k' > 1500)"
proof -
  have "app_jammed g" using assms(2-4) by (auto simp: app_jammed_def jammed_def RECV_SIZE_def)
  then have "app_inv g'" "app_jammed g'" using jammed_reach [OF assms(5,1)] by simp_all
  then show ?thesis
    using jammed_receive [OF _ _ assms(6,7)] by (auto simp: app_jammed_def jammed_def RECV_SIZE_def)
qed

definition long_seg :: ikcpseg where
  "long_seg = fresh_seg (replicate 2000 7)"

theorem long_message_blocks_receiver_witness:
  "\<exists>g k r g'. app_kcp g = Some k \<and> rcv_queue k = [long_seg] \<and> receiveData (\<lambda>_ _. True) True g None = Inr (r, g') \<and> r = None"
proof -
  obtain g0 k0 where g0: "app_idle g0 k0" "app_room g0" using open_app by blast
  let ?k = "k0\<lparr>rcv_queue := [long_seg], nrcv_que := 1\<rparr>"
  let ?g = "g0\<lparr>app_kcp := Some ?k\<rparr>"
  have k0: "app_inv g0" "app_kcp g0 = Some k0" "rcv_queue k0 = []" using g0(1) by (simp_all add: app_idle_def)
  have s: "len long_seg = 2000" "frg long_seg = 0" "seg_ok long_seg" by (simp_all add: long_seg_def fresh_seg_def seg_ok_def)
  have i: "app_inv ?g" using app_kcpD [OF k0(1,2)] s(3) by (intro app_inv_kcp [OF k0(1)]) (auto simp: kcp_inv_defs)
  have p: "1500 < ikcp_peeksize ?k" by (simp add: ikcp_peeksize_def s)
  have r: "app_room ?g" using g0(2) k0(2) by (simp add: app_room_def)
  obtain x g' where x: "receiveData (\<lambda>_ _. True) True ?g None = Inr (x, g')" using receiveData_total [OF i r] by blast
  have "reachable (\<lambda>s. s = ?g) app_traffic ?g" by (rule reach_start) simp
  from long_message_blocks_receiver [OF i _ _ p this r x] s(2) have "x = None" by simp
  with x show ?thesis by (intro exI [of _ ?g] exI [of _ ?k] exI [of _ x] exI [of _ g']) simp
qed

section \<open>A client held by Java\<close>

text \<open>C10 (safety): the object \<open>TcpClient\<close> in Java holds the null address or that of a client
  that has not been released, after any sequence of its methods; so none of them touches a released
  client, and releasing marks the client released, once. Calling the native \<open>release\<close> twice on
  the same address, which only the object prevents, is a double free.\<close>

theorem java_holds_live_client:
  assumes "reachable java_start java_step j"
  shows "(native_ptr j \<noteq> 0 \<longrightarrow> (\<exists>s. jheap j (native_ptr j) = Some s \<and> \<not> freed (client s)))
    \<and> (\<exists>r h. jni_connect p conn (jheap j) (native_ptr j) = Inr (r, h))
    \<and> jni_sendData snds (jheap j) (native_ptr j) dat n \<noteq> Fault e
    \<and> jni_recvData rcvs (jheap j) (native_ptr j) pinned arr \<noteq> Fault e
    \<and> (\<exists>h. jni_release (jheap j) (native_ptr j) = Inr h
        \<and> (native_ptr j \<noteq> 0 \<longrightarrow> jni_release h (native_ptr j) = Inl DoubleFree))"
proof -
  have i: "java_inv j" using jni.inv_reachable [OF assms] .
  from java_calls_safe(4) [OF i] obtain h where h: "jni_release (jheap j) (native_ptr j) = Inr h" by blast
  show ?thesis using java_calls_safe(1-3) [OF i] h release_twice [OF _ h] i by (auto simp: java_inv_def)
qed

theorem java_holds_live_client_witness:
  "\<exists>h s h'. initTcpClient True 3 True True ConnOk 4096 Map.empty (Some [49]) 1600 = Inr (4096, h)
    \<and> h 4096 = Some s \<and> \<not> freed (client s) \<and> jni_release h 4096 = Inr h' \<and> jni_release h' 4096 = Inl DoubleFree"
proof -
  let ?j0 = "\<lparr>native_ptr = 0, jheap = Map.empty\<rparr>"
  obtain c where "tcp_client_init True 3 True True ConnOk (Some [49]) 1600 = Inr (Some c, Some c)"
    by (simp add: tcp_client_init_def tcp_client_connect_def client_zero_def c_string_def Let_def)
  then have h: "initTcpClient True 3 True True ConnOk 4096 (jheap ?j0) (Some [49]) 1600 =
      Inr (4096, [4096 \<mapsto> \<lparr>client = c, wire = [], sends = [], recvs = []\<rparr>])" (is "_ = Inr (_, ?h)")
    by (simp add: initTcpClient_def)
  have "reachable java_start java_step ?j0" by (rule reach_start) (simp add: java_start_def)
  then have "reachable java_start java_step (?j0\<lparr>native_ptr := 4096, jheap := ?h\<rparr>)"
    by (rule reach_step) (rule java_init [OF h], simp_all)
  from java_holds_live_client [OF this] h show ?thesis by auto
qed

end
