(* ===== verification/Fifo.thy ===== *)
theory Fifo
  imports Memory
begin

text \<open>
  The contract the message queues of \<open>common/queue\<close> share, as a locale. The reference is a plain
  list with a condition \<open>room\<close> that says when it takes one more element: a put answers whether the
  element was accepted and goes behind the content, a get answers the front of it or nothing. The
  laws say that an operation of the queue never faults and answers what the list answers; the client
  of the contract is any sequence of puts and gets, and it sees the answers of the list.
\<close>

datatype 'a fifo_op = Put 'a | Get

datatype 'a fifo_reply = Accepted | Refused | Taken 'a | Nothing

text \<open>A run: the answers and the final queue; a fault of an operation is the fault of the run.\<close>

fun fifo_run :: "('q \<Rightarrow> 'a \<Rightarrow> (bool \<times> 'q) result) \<Rightarrow> ('q \<Rightarrow> ('a option \<times> 'q) result) \<Rightarrow> 'a fifo_op list \<Rightarrow> 'q
    \<Rightarrow> ('a fifo_reply list \<times> 'q) result" where
  "fifo_run put get [] q = Inr ([], q)"
| "fifo_run put get (Put x # ops) q =
    bindR (put q x) (\<lambda>(b, q). bindR (fifo_run put get ops q) (\<lambda>(rs, r).
      Inr ((if b then Accepted else Refused) # rs, r)))"
| "fifo_run put get (Get # ops) q =
    bindR (get q) (\<lambda>(y, q). bindR (fifo_run put get ops q) (\<lambda>(rs, r).
      Inr ((case y of None \<Rightarrow> Nothing | Some y \<Rightarrow> Taken y) # rs, r)))"

text \<open>The reference: the same operations on a list.\<close>

fun list_run :: "('a list \<Rightarrow> 'a \<Rightarrow> bool) \<Rightarrow> 'a fifo_op list \<Rightarrow> 'a list \<Rightarrow> 'a fifo_reply list \<times> 'a list" where
  "list_run room [] xs = ([], xs)"
| "list_run room (Put x # ops) xs =
    (if room xs x then map_prod ((#) Accepted) id (list_run room ops (xs @ [x]))
     else map_prod ((#) Refused) id (list_run room ops xs))"
| "list_run room (Get # ops) xs =
    (case xs of [] \<Rightarrow> map_prod ((#) Nothing) id (list_run room ops [])
     | y # ys \<Rightarrow> map_prod ((#) (Taken y)) id (list_run room ops ys))"

text \<open>The elements accepted and the elements taken, in order.\<close>

fun accepted :: "'a fifo_op list \<Rightarrow> 'a fifo_reply list \<Rightarrow> 'a list" where
  "accepted (Put x # ops) (Accepted # rs) = x # accepted ops rs"
| "accepted (op # ops) (r # rs) = accepted ops rs"
| "accepted ops rs = []"

fun taken :: "'a fifo_reply list \<Rightarrow> 'a list" where
  "taken (Taken y # rs) = y # taken rs"
| "taken (r # rs) = taken rs"
| "taken [] = []"

lemma list_run_order:
  "xs @ accepted ops (fst (list_run room ops xs)) = taken (fst (list_run room ops xs)) @ snd (list_run room ops xs)"
proof (induction room ops xs rule: list_run.induct)
  case (2 room x ops xs)
  then show ?case by simp
next
  case (3 room ops xs)
  then show ?case by (cases xs) simp_all
qed simp

locale fifo =
  fixes put :: "'q \<Rightarrow> 'a \<Rightarrow> (bool \<times> 'q) result"
    and get :: "'q \<Rightarrow> ('a option \<times> 'q) result"
    and contents :: "'q \<Rightarrow> 'a list"
    and inv :: "'q \<Rightarrow> bool"
    and ok :: "'a \<Rightarrow> bool"
    and room :: "'a list \<Rightarrow> 'a \<Rightarrow> bool"
  assumes put_law: "inv q \<Longrightarrow> ok x \<Longrightarrow> \<exists>q'. put q x = Inr (room (contents q) x, q') \<and> inv q'
      \<and> contents q' = (if room (contents q) x then contents q @ [x] else contents q)"
    and get_law: "inv q \<Longrightarrow> \<exists>q'. get q = Inr (case contents q of [] \<Rightarrow> None | y # ys \<Rightarrow> Some y, q') \<and> inv q'
      \<and> contents q' = tl (contents q)"
begin

lemma run_as_list:
  assumes "inv q" "\<forall>x. Put x \<in> set ops \<longrightarrow> ok x"
  shows "\<exists>r. fifo_run put get ops q = Inr (fst (list_run room ops (contents q)), r) \<and> inv r
    \<and> contents r = snd (list_run room ops (contents q))"
  using assms
proof (induction ops arbitrary: q)
  case Nil
  then show ?case by simp
next
  case (Cons op ops)
  have rest: "\<forall>x. Put x \<in> set ops \<longrightarrow> ok x" using Cons.prems(2) by simp
  show ?case
  proof (cases op)
    case (Put x)
    obtain q' where q': "put q x = Inr (room (contents q) x, q')" "inv q'"
      "contents q' = (if room (contents q) x then contents q @ [x] else contents q)"
      using put_law [OF Cons.prems(1), of x] Cons.prems(2) Put by auto
    from Cons.IH [OF q'(2) rest] show ?thesis using Put q'(1,3) by auto
  next
    case Get
    obtain q' where q': "get q = Inr (case contents q of [] \<Rightarrow> None | y # ys \<Rightarrow> Some y, q')" "inv q'"
      "contents q' = tl (contents q)"
      using get_law [OF Cons.prems(1)] by blast
    from Cons.IH [OF q'(2) rest] show ?thesis using Get q'(1,3) by (auto split: list.split)
  qed
qed

text \<open>What comes out, followed by what is still inside, is what was accepted, in order.\<close>

lemma run_from_empty:
  assumes "inv q" "contents q = []" "\<forall>x. Put x \<in> set ops \<longrightarrow> ok x"
  shows "\<exists>rs r. fifo_run put get ops q = Inr (rs, r) \<and> rs = fst (list_run room ops [])
    \<and> inv r \<and> accepted ops rs = taken rs @ contents r"
proof -
  obtain r where r: "fifo_run put get ops q = Inr (fst (list_run room ops []), r)" "inv r"
    "contents r = snd (list_run room ops [])"
    using run_as_list [OF assms(1,3)] assms(2) by auto
  moreover have "accepted ops (fst (list_run room ops [])) = taken (fst (list_run room ops [])) @ contents r"
    using list_run_order [of "[]" ops room] r(3) by simp
  ultimately show ?thesis by blast
qed

end

end
