(* ===== verification/Element_Queue.thy ===== *)
theory Element_Queue
  imports Fifo
begin

text \<open>
  The bounded queue of \<open>common/queue/element_queue.c\<close>: a ring of \<open>numofNode\<close> slots of
  \<open>elementSize\<close> bytes, and one more slot into which \<open>queue_get\<close> copies the element for the
  single consumer. A slot keeps its buffer and the size of the element in it.
\<close>

record queue_node =
  buf :: bytes
  node_size :: nat
  maxsize :: nat

record queue_context =
  node :: "queue_node list"
  consumeNode :: queue_node
  numofNode :: nat
  freeNum :: nat
  usedNum :: nat
  readIndex :: nat
  writeIndex :: nat
  elementSize :: nat

definition fresh_node :: "nat \<Rightarrow> queue_node" where
  "fresh_node n = \<lparr>buf = replicate n 0, node_size = 0, maxsize = n\<rparr>"

definition queue_init :: "bool \<Rightarrow> bool \<Rightarrow> nat \<Rightarrow> nat \<Rightarrow> queue_context option" where
  "queue_init malloc_ok mutex_ok num elsize =
    (if \<not> malloc_ok then None
     else if \<not> mutex_ok then None
     else Some \<lparr>node = replicate num (fresh_node elsize), consumeNode = fresh_node elsize, numofNode = num,
            freeNum = num, usedNum = 0, readIndex = 0, writeIndex = 0, elementSize = elsize\<rparr>)"

text \<open>\<open>memcpy\<close> of the first \<open>n\<close> bytes of a source over a buffer.\<close>

definition copy_over :: "bytes \<Rightarrow> nat \<Rightarrow> bytes \<Rightarrow> bytes" where
  "copy_over src n dst = take n src @ drop n dst"

definition queue_put :: "queue_context option \<Rightarrow> bytes option \<Rightarrow> int \<Rightarrow> (int \<times> queue_context option) result" where
  "queue_put q b sz =
    (case (q, b) of (Some q, Some b) \<Rightarrow>
       if sz > int (elementSize q) then Inr (-1, Some q)
       else if freeNum q > 0
         then let nd = node q ! writeIndex q;
                  n = (if int (maxsize nd) > sz then sz else int (maxsize nd))
              in if n < 0 \<or> length b < nat n then Inl BufferOverrun
                 else Inr (1, Some (q\<lparr>freeNum := freeNum q - 1, usedNum := usedNum q + 1,
                        node := (node q)[writeIndex q := nd\<lparr>node_size := nat n, buf := copy_over b (nat n) (buf nd)\<rparr>],
                        writeIndex := (writeIndex q + 1) mod numofNode q\<rparr>))
         else Inr (0, Some q)
     | _ \<Rightarrow> Inr (-1, q))"

definition queue_get :: "queue_context option \<Rightarrow> int \<times> queue_context option" where
  "queue_get q =
    (case q of None \<Rightarrow> (-1, None)
     | Some q \<Rightarrow>
        if usedNum q > 0
        then let nd = node q ! readIndex q
             in (1, Some (q\<lparr>usedNum := usedNum q - 1, freeNum := freeNum q + 1,
                   consumeNode := (consumeNode q)\<lparr>node_size := node_size nd, buf := copy_over (buf nd) (node_size nd) (buf (consumeNode q))\<rparr>,
                   readIndex := (readIndex q + 1) mod numofNode q\<rparr>))
        else (0, Some q))"

definition queue_deinit :: "queue_context option \<Rightarrow> int \<times> queue_context option" where
  "queue_deinit q = (case q of None \<Rightarrow> (-1, None) | Some _ \<Rightarrow> (0, None))"

section \<open>The ring as a list\<close>

definition node_data :: "queue_node \<Rightarrow> bytes" where
  "node_data nd = take (node_size nd) (buf nd)"

definition eq_contents :: "queue_context \<Rightarrow> bytes list" where
  "eq_contents q = map (\<lambda>i. node_data (node q ! ((readIndex q + i) mod numofNode q))) [0..<usedNum q]"

definition node_ok :: "nat \<Rightarrow> queue_node \<Rightarrow> bool" where
  "node_ok n nd \<longleftrightarrow> length (buf nd) = n \<and> maxsize nd = n \<and> node_size nd \<le> n"

definition eq_inv :: "queue_context \<Rightarrow> bool" where
  "eq_inv q \<longleftrightarrow> length (node q) = numofNode q \<and> freeNum q + usedNum q = numofNode q
     \<and> (\<forall>nd \<in> set (node q). node_ok (elementSize q) nd) \<and> node_ok (elementSize q) (consumeNode q)
     \<and> (numofNode q > 0 \<longrightarrow> readIndex q < numofNode q \<and> writeIndex q = (readIndex q + usedNum q) mod numofNode q)"

text \<open>The operations as the contract sees them.\<close>

definition eq_put :: "queue_context \<Rightarrow> bytes \<Rightarrow> (bool \<times> queue_context) result" where
  "eq_put q b =
     bindR (queue_put (Some q) (Some b) (int (length b))) (\<lambda>(r, g).
     (case g of None \<Rightarrow> Inl NullPointer | Some q \<Rightarrow> Inr (r = 1, q)))"

definition eq_get :: "queue_context \<Rightarrow> (bytes option \<times> queue_context) result" where
  "eq_get q =
    (case queue_get (Some q) of (r, g) \<Rightarrow>
       (case g of None \<Rightarrow> Inl NullPointer
        | Some q \<Rightarrow> Inr (if r = 1 then Some (node_data (consumeNode q)) else None, q)))"

text \<open>The ring takes one more element when it holds fewer than \<open>num\<close> and the element fits a slot.\<close>

definition eq_room :: "nat \<Rightarrow> nat \<Rightarrow> bytes list \<Rightarrow> bytes \<Rightarrow> bool" where
  "eq_room num sz xs b \<longleftrightarrow> length xs < num \<and> length b \<le> sz"

definition eq_ring :: "nat \<Rightarrow> nat \<Rightarrow> queue_context \<Rightarrow> bool" where
  "eq_ring num sz q \<longleftrightarrow> eq_inv q \<and> numofNode q = num \<and> elementSize q = sz"

lemma eq_init_inv: "queue_init a b num sz = Some q \<Longrightarrow> eq_inv q \<and> eq_contents q = []"
  by (auto simp: queue_init_def eq_inv_def eq_contents_def node_ok_def fresh_node_def split: if_splits)

lemma put_accepts:
  assumes inv: "eq_inv q" and fit: "length b \<le> elementSize q" and room: "freeNum q > 0"
  shows "\<exists>nd. eq_put q b = Inr (True, q\<lparr>freeNum := freeNum q - 1, usedNum := usedNum q + 1,
       node := (node q)[writeIndex q := nd], writeIndex := (writeIndex q + 1) mod numofNode q\<rparr>)
     \<and> node_data nd = b \<and> node_ok (elementSize q) nd"
proof -
  let ?o = "node q ! writeIndex q"
  let ?nd = "?o\<lparr>node_size := length b, buf := copy_over b (length b) (buf ?o)\<rparr>"
  have "writeIndex q < length (node q)" using inv room by (auto simp: eq_inv_def)
  then have o: "node_ok (elementSize q) ?o" using inv by (simp add: eq_inv_def)
  then have n: "(if int (maxsize ?o) > int (length b) then int (length b) else int (maxsize ?o)) = int (length b)"
    using fit by (auto simp: node_ok_def)
  have "eq_put q b = Inr (True, q\<lparr>freeNum := freeNum q - 1, usedNum := usedNum q + 1,
       node := (node q)[writeIndex q := ?nd], writeIndex := (writeIndex q + 1) mod numofNode q\<rparr>)"
    using fit room o by (cases "length b = elementSize q") (simp_all add: eq_put_def queue_put_def Let_def node_ok_def)
  moreover have "node_data ?nd = b" "node_ok (elementSize q) ?nd"
    using o fit by (simp_all add: node_data_def copy_over_def node_ok_def)
  ultimately show ?thesis by blast
qed

lemma put_refuses: "freeNum q = 0 \<or> length b > elementSize q \<Longrightarrow> eq_put q b = Inr (False, q)"
  by (auto simp: eq_put_def queue_put_def)

lemma mod_slot_neq:
  assumes "i < u" "u < n" shows "(r + i) mod n \<noteq> (r + u) mod (n :: nat)"
proof
  assume "(r + i) mod n = (r + u) mod n"
  then have "(r + u - (r + i)) mod n = 0" using assms by (metis add_le_cancel_left less_imp_le mod_eq_dvd_iff_nat dvd_imp_mod_0)
  then show False using assms by simp
qed

lemma eq_contents_length [simp]: "length (eq_contents q) = usedNum q"
  by (simp add: eq_contents_def)

lemma put_contract:
  assumes inv: "eq_inv q" and fit: "length b \<le> elementSize q" and room: "freeNum q > 0"
  shows "\<exists>q'. eq_put q b = Inr (True, q') \<and> eq_inv q' \<and> eq_contents q' = eq_contents q @ [b]
    \<and> elementSize q' = elementSize q \<and> numofNode q' = numofNode q"
proof -
  from put_accepts [OF inv fit room] obtain nd where
    put: "eq_put q b = Inr (True, q\<lparr>freeNum := freeNum q - 1, usedNum := usedNum q + 1,
       node := (node q)[writeIndex q := nd], writeIndex := (writeIndex q + 1) mod numofNode q\<rparr>)" (is "_ = Inr (True, ?q)")
    and nd: "node_data nd = b" "node_ok (elementSize q) nd" by auto
  have n: "numofNode q > 0" "usedNum q < numofNode q" and w: "writeIndex q = (readIndex q + usedNum q) mod numofNode q"
    and L: "length (node q) = numofNode q"
    using inv room by (auto simp: eq_inv_def)
  have wl: "writeIndex q < length (node q)" using n L w by simp
  have "\<forall>x \<in> set ((node q)[writeIndex q := nd]). node_ok (elementSize q) x"
    using inv nd(2) by (auto simp: eq_inv_def dest!: set_update_subset_insert [THEN subsetD])
  then have "eq_inv ?q"
    using inv room n w by (auto simp: eq_inv_def mod_Suc_eq)
  moreover have "eq_contents ?q = eq_contents q @ [b]"
  proof -
    have "(node q)[writeIndex q := nd] ! ((readIndex q + i) mod numofNode q) = node q ! ((readIndex q + i) mod numofNode q)"
      if "i < usedNum q" for i
      using mod_slot_neq [OF that n(2)] w by (intro nth_list_update_neq) metis
    then show ?thesis using nd(1) wl w unfolding eq_contents_def by simp
  qed
  ultimately show ?thesis using put by auto
qed

lemma get_contract:
  assumes inv: "eq_inv q" and u: "usedNum q > 0"
  shows "\<exists>y q'. eq_get q = Inr (Some y, q') \<and> eq_inv q' \<and> eq_contents q = y # eq_contents q'
    \<and> elementSize q' = elementSize q \<and> numofNode q' = numofNode q"
proof -
  let ?nd = "node q ! readIndex q"
  have n: "numofNode q > 0" "readIndex q < numofNode q" and L: "length (node q) = numofNode q"
    using inv u by (auto simp: eq_inv_def)
  then have nd: "node_ok (elementSize q) ?nd" using inv by (simp add: eq_inv_def)
  let ?c = "(consumeNode q)\<lparr>node_size := node_size ?nd, buf := copy_over (buf ?nd) (node_size ?nd) (buf (consumeNode q))\<rparr>"
  let ?q = "q\<lparr>usedNum := usedNum q - 1, freeNum := freeNum q + 1, consumeNode := ?c,
                   readIndex := (readIndex q + 1) mod numofNode q\<rparr>"
  have get: "eq_get q = Inr (Some (node_data ?c), ?q)"
    using u by (auto simp: eq_get_def queue_get_def Let_def)
  have y: "node_data ?c = node_data ?nd" using nd by (simp add: node_data_def copy_over_def node_ok_def)
  have c: "node_ok (elementSize q) ?c" using nd inv by (simp add: node_ok_def copy_over_def eq_inv_def)
  obtain u' where u': "usedNum q = Suc u'" using u by (cases "usedNum q") auto
  have "eq_inv ?q"
    using inv n c unfolding u' by (auto simp: eq_inv_def mod_add_left_eq u')
  moreover have "eq_contents q = node_data ?nd # eq_contents ?q"
  proof -
    have "[0..<usedNum q] = 0 # map Suc [0..<u']" unfolding u' by (simp add: upt_conv_Cons map_Suc_upt del: upt_Suc)
    moreover have "(readIndex q + Suc i) mod numofNode q = ((readIndex q + 1) mod numofNode q + i) mod numofNode q" for i
      by (simp add: mod_add_left_eq)
    ultimately show ?thesis using n(2) unfolding eq_contents_def by (simp add: u' comp_def)
  qed
  ultimately show ?thesis using get y by auto
qed

lemma get_empty_ring: "usedNum q = 0 \<Longrightarrow> eq_get q = Inr (None, q)"
  by (simp add: eq_get_def queue_get_def)

lemma eq_put_law:
  assumes "eq_ring num sz q"
  shows "\<exists>q'. eq_put q b = Inr (eq_room num sz (eq_contents q) b, q') \<and> eq_ring num sz q'
    \<and> eq_contents q' = (if eq_room num sz (eq_contents q) b then eq_contents q @ [b] else eq_contents q)"
proof -
  have i: "eq_inv q" "numofNode q = num" "elementSize q = sz" using assms by (simp_all add: eq_ring_def)
  then have "eq_room num sz (eq_contents q) b \<longleftrightarrow> length b \<le> elementSize q \<and> freeNum q > 0"
    by (auto simp: eq_room_def eq_inv_def)
  then show ?thesis
    using put_contract [OF i(1), of b] put_refuses [of q b] i
    by (cases "eq_room num sz (eq_contents q) b") (auto simp: eq_ring_def not_le)
qed

lemma eq_get_law:
  assumes "eq_ring num sz q"
  shows "\<exists>q'. eq_get q = Inr (case eq_contents q of [] \<Rightarrow> None | y # ys \<Rightarrow> Some y, q') \<and> eq_ring num sz q'
    \<and> eq_contents q' = tl (eq_contents q)"
proof (cases "usedNum q = 0")
  case True
  then have "eq_contents q = []" by (metis eq_contents_length length_0_conv)
  then show ?thesis using get_empty_ring [OF True] assms by simp
next
  case False
  with get_contract [of q] assms show ?thesis by (auto simp: eq_ring_def)
qed

interpretation elq: fifo eq_put eq_get eq_contents "eq_ring num sz" "\<lambda>_. True" "eq_room num sz" for num sz
  by unfold_locales (use eq_put_law eq_get_law in blast)+

end
