(* ===== verification/Comm_Queue.thy ===== *)
theory Comm_Queue
  imports Fifo
begin

text \<open>
  The double-ended queue of \<open>common/queue/comm_queue.c\<close> with its linked entries, and the
  wrapper \<open>comm_queue_api.c\<close> around it. The entries live in an explicit store: a map from
  addresses to entries with their \<open>prev\<close> and \<open>next\<close> links, and a supply of fresh addresses.
  A link to an address that is not in the store is the fault \<open>NullPointer\<close>. The allocator
  answers \<open>ok 0\<close>, \<open>ok 1\<close> in the order of the calls.
\<close>

record qentry =
  edata :: bytes
  eprev :: "nat option"
  enext :: "nat option"

record dqueue =
  qhead :: "nat option"
  qtail :: "nat option"
  store :: "nat \<Rightarrow> qentry option"
  fresh :: nat

definition COMM_queue_new :: "bool \<Rightarrow> dqueue option" where
  "COMM_queue_new ok = (if \<not> ok then None
     else Some \<lparr>qhead = None, qtail = None, store = (\<lambda>_. None), fresh = 0\<rparr>)"

definition set_prev :: "(nat \<Rightarrow> qentry option) \<Rightarrow> nat \<Rightarrow> nat option \<Rightarrow> (nat \<Rightarrow> qentry option) result" where
  "set_prev h a p = (case h a of None \<Rightarrow> Inl NullPointer | Some e \<Rightarrow> Inr (h(a := Some (e\<lparr>eprev := p\<rparr>))))"

definition set_next :: "(nat \<Rightarrow> qentry option) \<Rightarrow> nat \<Rightarrow> nat option \<Rightarrow> (nat \<Rightarrow> qentry option) result" where
  "set_next h a n = (case h a of None \<Rightarrow> Inl NullPointer | Some e \<Rightarrow> Inr (h(a := Some (e\<lparr>enext := n\<rparr>))))"

definition COMM_queue_push_head :: "(nat \<Rightarrow> bool) \<Rightarrow> dqueue \<Rightarrow> bytes \<Rightarrow> (nat \<times> dqueue) result" where
  "COMM_queue_push_head ok q d =
    (if \<not> ok 0 then Inr (0, q)
     else if \<not> ok 1 then Inr (0, q)
     else
       let a = fresh q;
           h = (store q)(a := Some \<lparr>edata = d, eprev = None, enext = qhead q\<rparr>)
       in case qhead q of
            None \<Rightarrow> Inr (length d, q\<lparr>store := h, fresh := Suc a, qhead := Some a, qtail := Some a\<rparr>)
          | Some b \<Rightarrow>
             (case set_prev h b (Some a) of Inl e \<Rightarrow> Inl e
              | Inr h \<Rightarrow> Inr (length d, q\<lparr>store := h, fresh := Suc a, qhead := Some a\<rparr>)))"

definition COMM_queue_push_tail :: "(nat \<Rightarrow> bool) \<Rightarrow> dqueue \<Rightarrow> bytes \<Rightarrow> (nat \<times> dqueue) result" where
  "COMM_queue_push_tail ok q d =
    (if \<not> ok 0 then Inr (0, q)
     else if \<not> ok 1 then Inr (0, q)
     else
       let a = fresh q;
           h = (store q)(a := Some \<lparr>edata = d, eprev = qtail q, enext = None\<rparr>)
       in case qtail q of
            None \<Rightarrow> Inr (length d, q\<lparr>store := h, fresh := Suc a, qhead := Some a, qtail := Some a\<rparr>)
          | Some b \<Rightarrow>
             (case set_next h b (Some a) of Inl e \<Rightarrow> Inl e
              | Inr h \<Rightarrow> Inr (length d, q\<lparr>store := h, fresh := Suc a, qtail := Some a\<rparr>)))"

text \<open>A pop returns the size and, when it took an element, the copy of its data.\<close>

definition COMM_queue_pop_head :: "bool \<Rightarrow> dqueue \<Rightarrow> (nat \<times> bytes option \<times> dqueue) result" where
  "COMM_queue_pop_head ok q =
    (case qhead q of None \<Rightarrow> Inr (0, None, q)
     | Some a \<Rightarrow>
        (case store q a of None \<Rightarrow> Inl NullPointer
         | Some e \<Rightarrow>
            if \<not> ok then Inr (0, None, q)
            else (case enext e of
                None \<Rightarrow> Inr (length (edata e), Some (edata e),
                          q\<lparr>qhead := None, qtail := None, store := (store q)(a := None)\<rparr>)
              | Some b \<Rightarrow>
                 (case set_prev (store q) b None of Inl x \<Rightarrow> Inl x
                  | Inr h \<Rightarrow> Inr (length (edata e), Some (edata e),
                               q\<lparr>qhead := Some b, store := h(a := None)\<rparr>)))))"

definition COMM_queue_pop_tail :: "bool \<Rightarrow> dqueue \<Rightarrow> (nat \<times> bytes option \<times> dqueue) result" where
  "COMM_queue_pop_tail ok q =
    (case qtail q of None \<Rightarrow> Inr (0, None, q)
     | Some a \<Rightarrow>
        (case store q a of None \<Rightarrow> Inl NullPointer
         | Some e \<Rightarrow>
            if \<not> ok then Inr (0, None, q)
            else (case eprev e of
                None \<Rightarrow> Inr (length (edata e), Some (edata e),
                          q\<lparr>qhead := None, qtail := None, store := (store q)(a := None)\<rparr>)
              | Some b \<Rightarrow>
                 (case set_next (store q) b None of Inl x \<Rightarrow> Inl x
                  | Inr h \<Rightarrow> Inr (length (edata e), Some (edata e),
                               q\<lparr>qtail := Some b, store := h(a := None)\<rparr>)))))"

definition COMM_queue_is_empty :: "dqueue \<Rightarrow> bool" where
  "COMM_queue_is_empty q \<longleftrightarrow> qhead q = None"

text \<open>The traversal from the head; the fuel is the number of addresses ever used.\<close>

fun walk :: "(nat \<Rightarrow> qentry option) \<Rightarrow> nat \<Rightarrow> nat option \<Rightarrow> bytes list" where
  "walk h n None = []"
| "walk h 0 (Some a) = []"
| "walk h (Suc n) (Some a) = (case h a of None \<Rightarrow> [] | Some e \<Rightarrow> edata e # walk h n (enext e))"

definition COMM_queue_size :: "dqueue option \<Rightarrow> nat" where
  "COMM_queue_size q = (case q of None \<Rightarrow> 0 | Some q \<Rightarrow> length (walk (store q) (fresh q) (qhead q)))"

text \<open>The draining loop of \<open>COMM_queue_free\<close>, which cannot end while the allocator fails: fuel.\<close>

fun COMM_queue_free :: "nat \<Rightarrow> (nat \<Rightarrow> bool) \<Rightarrow> nat \<Rightarrow> dqueue \<Rightarrow> dqueue option result" where
  "COMM_queue_free 0 ok i q = Inr None"
| "COMM_queue_free (Suc n) ok i q =
    (if COMM_queue_is_empty q then Inr (Some q)
     else case COMM_queue_pop_head (ok i) q of Inl e \<Rightarrow> Inl e
      | Inr (_, _, q) \<Rightarrow> COMM_queue_free n ok (Suc i) q)"

section \<open>The chain of entries\<close>

fun first_of :: "nat list \<Rightarrow> nat option \<Rightarrow> nat option" where
  "first_of [] n = n"
| "first_of (a # as) n = Some a"

definition last_of :: "nat list \<Rightarrow> nat option \<Rightarrow> nat option" where
  "last_of as p = (if as = [] then p else Some (last as))"

fun dll :: "(nat \<Rightarrow> qentry option) \<Rightarrow> nat option \<Rightarrow> nat list \<Rightarrow> nat option \<Rightarrow> bool" where
  "dll h p [] n = True"
| "dll h p (a # as) n =
    (case h a of None \<Rightarrow> False
     | Some e \<Rightarrow> eprev e = p \<and> enext e = first_of as n \<and> dll h (Some a) as n)"

definition dq_rep :: "dqueue \<Rightarrow> nat list \<Rightarrow> bool" where
  "dq_rep q as \<longleftrightarrow> dll (store q) None as None \<and> qhead q = first_of as None \<and> qtail q = last_of as None
     \<and> distinct as \<and> (\<forall>a \<in> set as. a < fresh q)"

definition dq_inv :: "dqueue \<Rightarrow> bool" where
  "dq_inv q \<longleftrightarrow> (\<exists>as. dq_rep q as)"

definition dq_contents :: "dqueue \<Rightarrow> bytes list" where
  "dq_contents q = walk (store q) (fresh q) (qhead q)"

lemma first_of_append: "first_of (as @ bs) n = first_of as (first_of bs n)"
  by (cases as) auto

lemma last_of_simps [simp]:
  "last_of [] p = p" "last_of (a # as) p = last_of as (Some a)" "last_of (as @ [b]) p = Some b"
  by (auto simp: last_of_def)

lemma dll_append:
  "dll h p (as @ bs) n \<longleftrightarrow> dll h p as (first_of bs n) \<and> dll h (last_of as p) bs n"
  by (induction as arbitrary: p) (auto simp: first_of_append split: option.splits)

lemma dll_upd: "a \<notin> set as \<Longrightarrow> dll (h(a := x)) p as n = dll h p as n"
  by (induction as arbitrary: p) (auto split: option.split)

lemma dll_alloc: "dll h p as n \<Longrightarrow> a \<in> set as \<Longrightarrow> h a \<noteq> None"
  by (induction as arbitrary: p) (auto split: option.splits)

definition entry_data :: "(nat \<Rightarrow> qentry option) \<Rightarrow> nat \<Rightarrow> bytes" where
  "entry_data h a = (case h a of None \<Rightarrow> [] | Some e \<Rightarrow> edata e)"

lemma walk_dll: "dll h p as None \<Longrightarrow> length as \<le> n \<Longrightarrow> walk h n (first_of as None) = map (entry_data h) as"
proof (induction as arbitrary: p n)
  case Nil
  then show ?case by simp
next
  case (Cons a as)
  then obtain m where "n = Suc m" by (cases n) auto
  with Cons show ?case by (auto simp: entry_data_def split: option.splits)
qed

lemma rep_contents: "dq_rep q as \<Longrightarrow> dq_contents q = map (entry_data (store q)) as"
proof -
  assume r: "dq_rep q as"
  then have "set as \<subseteq> {..<fresh q}" "distinct as" by (auto simp: dq_rep_def)
  then have "length as \<le> fresh q" by (metis card_lessThan card_mono distinct_card finite_lessThan)
  with r show ?thesis unfolding dq_contents_def by (auto simp: dq_rep_def intro: walk_dll)
qed

lemma new_rep: "COMM_queue_new ok = Some q \<Longrightarrow> dq_rep q []"
  by (auto simp: COMM_queue_new_def dq_rep_def split: if_splits)

section \<open>Each operation on the chain\<close>

lemma push_tail_rep:
  assumes r: "dq_rep q as" and ok: "ok 0" "ok 1"
  shows "\<exists>q'. COMM_queue_push_tail ok q d = Inr (length d, q') \<and> dq_rep q' (as @ [fresh q])
    \<and> map (entry_data (store q')) (as @ [fresh q]) = map (entry_data (store q)) as @ [d]"
proof (cases as rule: rev_cases)
  case Nil
  then show ?thesis
    using r ok by (auto simp: COMM_queue_push_tail_def dq_rep_def Let_def entry_data_def)
next
  case (snoc bs b)
  let ?a = "fresh q"
  have b: "b \<noteq> ?a" "?a \<notin> set bs" "b \<notin> set bs" "qtail q = Some b" and d: "dll (store q) None (bs @ [b]) None"
    using r snoc by (auto simp: dq_rep_def)
  obtain e where e: "store q b = Some e" using dll_alloc [OF d] by fastforce
  have de: "dll (store q) None bs (Some b)" "eprev e = last_of bs None" "enext e = None"
    using d e by (auto simp: dll_append)
  let ?h = "(store q)(?a := Some \<lparr>edata = d, eprev = Some b, enext = None\<rparr>, b := Some (e\<lparr>enext := Some ?a\<rparr>))"
  let ?q = "q\<lparr>store := ?h, fresh := Suc ?a, qtail := Some ?a\<rparr>"
  have "COMM_queue_push_tail ok q d = Inr (length d, ?q)"
    using ok b e by (simp add: COMM_queue_push_tail_def Let_def set_next_def)
  moreover have "dll ?h None ((bs @ [b]) @ [?a]) None"
    using de b by (simp add: dll_append dll_upd)
  then have "dq_rep ?q (as @ [?a])"
    using r snoc by (auto simp: dq_rep_def first_of_append less_Suc_eq last_of_def)
  moreover have "map (entry_data ?h) (as @ [?a]) = map (entry_data (store q)) as @ [d]"
    using snoc b e by (auto simp: entry_data_def)
  ultimately show ?thesis by auto
qed

lemma push_head_rep:
  assumes r: "dq_rep q as" and ok: "ok 0" "ok 1"
  shows "\<exists>q'. COMM_queue_push_head ok q d = Inr (length d, q') \<and> dq_rep q' (fresh q # as)
    \<and> map (entry_data (store q')) (fresh q # as) = d # map (entry_data (store q)) as"
proof (cases as)
  case Nil
  then show ?thesis
    using r ok by (auto simp: COMM_queue_push_head_def dq_rep_def Let_def entry_data_def)
next
  case (Cons b bs)
  let ?a = "fresh q"
  have b: "b \<noteq> ?a" "?a \<notin> set bs" "b \<notin> set bs" "qhead q = Some b" and d: "dll (store q) None (b # bs) None"
    using r Cons by (auto simp: dq_rep_def)
  obtain e where e: "store q b = Some e" using dll_alloc [OF d] by fastforce
  let ?h = "(store q)(?a := Some \<lparr>edata = d, eprev = None, enext = Some b\<rparr>, b := Some (e\<lparr>eprev := Some ?a\<rparr>))"
  let ?q = "q\<lparr>store := ?h, fresh := Suc ?a, qhead := Some ?a\<rparr>"
  have "COMM_queue_push_head ok q d = Inr (length d, ?q)"
    using ok b e by (simp add: COMM_queue_push_head_def Let_def set_prev_def)
  moreover have "dll ?h None (?a # b # bs) None"
    using d e b by (simp add: dll_upd)
  then have "dq_rep ?q (?a # as)"
    using r Cons by (auto simp: dq_rep_def last_of_def)
  moreover have "map (entry_data ?h) (?a # as) = d # map (entry_data (store q)) as"
    using Cons b e by (auto simp: entry_data_def)
  ultimately show ?thesis by auto
qed

lemma pop_head_rep:
  assumes r: "dq_rep q (a # as)"
  shows "\<exists>q'. COMM_queue_pop_head True q = Inr (length (entry_data (store q) a), Some (entry_data (store q) a), q')
    \<and> dq_rep q' as \<and> map (entry_data (store q')) as = map (entry_data (store q)) as"
proof -
  have d: "dll (store q) None (a # as) None" and h: "qhead q = Some a" and na: "a \<notin> set as"
    using r by (auto simp: dq_rep_def)
  obtain e where e: "store q a = Some e" "eprev e = None" "enext e = first_of as None" "dll (store q) (Some a) as None"
    using d by (auto split: option.splits)
  show ?thesis
  proof (cases as)
    case Nil
    then show ?thesis using r e h by (auto simp: COMM_queue_pop_head_def dq_rep_def entry_data_def)
  next
    case (Cons b bs)
    obtain f where f: "store q b = Some f" "enext f = first_of bs None" "dll (store q) (Some b) bs None"
      using e(4) Cons by (auto split: option.splits)
    have nb: "b \<notin> set bs" "b \<noteq> a" "a \<notin> set bs" using r Cons by (auto simp: dq_rep_def)
    let ?h = "(store q)(b := Some (f\<lparr>eprev := None\<rparr>), a := None)"
    let ?q = "q\<lparr>qhead := Some b, store := ?h\<rparr>"
    have "COMM_queue_pop_head True q = Inr (length (edata e), Some (edata e), ?q)"
      using h e(1,3) f(1) Cons by (simp add: COMM_queue_pop_head_def set_prev_def)
    moreover have "dq_rep ?q as"
      using r Cons f nb by (auto simp: dq_rep_def dll_upd)
    moreover have "map (entry_data ?h) as = map (entry_data (store q)) as"
      using Cons nb f(1) by (auto simp: entry_data_def)
    ultimately show ?thesis using e(1) by (auto simp: entry_data_def)
  qed
qed

lemma pop_tail_rep:
  assumes r: "dq_rep q (as @ [a])"
  shows "\<exists>q'. COMM_queue_pop_tail True q = Inr (length (entry_data (store q) a), Some (entry_data (store q) a), q')
    \<and> dq_rep q' as \<and> map (entry_data (store q')) as = map (entry_data (store q)) as"
proof -
  have d: "dll (store q) None (as @ [a]) None" and t: "qtail q = Some a" and na: "a \<notin> set as"
    using r by (auto simp: dq_rep_def)
  obtain e where e: "store q a = Some e" "eprev e = last_of as None" "enext e = None" "dll (store q) None as (Some a)"
    using d by (auto simp: dll_append split: option.splits)
  show ?thesis
  proof (cases as rule: rev_cases)
    case Nil
    then show ?thesis using r e t by (auto simp: COMM_queue_pop_tail_def dq_rep_def entry_data_def)
  next
    case (snoc bs b)
    obtain f where f: "store q b = Some f" "eprev f = last_of bs None" "dll (store q) None bs (Some b)"
      using e(4) snoc by (auto simp: dll_append split: option.splits)
    have nb: "b \<notin> set bs" "b \<noteq> a" "a \<notin> set bs" using r snoc by (auto simp: dq_rep_def)
    let ?h = "(store q)(b := Some (f\<lparr>enext := None\<rparr>), a := None)"
    let ?q = "q\<lparr>qtail := Some b, store := ?h\<rparr>"
    have "COMM_queue_pop_tail True q = Inr (length (edata e), Some (edata e), ?q)"
      using t e(1,2) f(1) snoc by (simp add: COMM_queue_pop_tail_def set_next_def)
    moreover have "dq_rep ?q as"
      using r snoc f nb by (auto simp: dq_rep_def dll_append dll_upd first_of_append)
    moreover have "map (entry_data ?h) as = map (entry_data (store q)) as"
      using snoc nb f(1) by (auto simp: entry_data_def)
    ultimately show ?thesis using e(1) by (auto simp: entry_data_def)
  qed
qed

lemma free_empties:
  "dq_rep q as \<Longrightarrow> length as < n \<Longrightarrow> \<exists>q'. COMM_queue_free n (\<lambda>_. True) i q = Inr (Some q') \<and> COMM_queue_is_empty q'"
proof (induction as arbitrary: n i q)
  case Nil
  then obtain m where "n = Suc m" by (cases n) auto
  with Nil show ?case by (auto simp: COMM_queue_is_empty_def dq_rep_def)
next
  case (Cons a as)
  then obtain m where n: "n = Suc m" "length as < m" by (cases n) auto
  from pop_head_rep [OF Cons.prems(1)] obtain q' where
    q': "COMM_queue_pop_head True q = Inr (length (entry_data (store q) a), Some (entry_data (store q) a), q')" "dq_rep q' as"
    by blast
  have "\<not> COMM_queue_is_empty q" using Cons.prems(1) by (simp add: dq_rep_def COMM_queue_is_empty_def)
  with Cons.IH [OF q'(2) n(2)] q'(1) n(1) show ?case by auto
qed


section \<open>The wrapper\<close>

text \<open>
  \<open>COMM_QUE_S\<close>: the staging records \<open>setdata\<close> and \<open>getdata\<close> (byte images), the count
  and the queue. The staging record is a constant number of bytes.
\<close>

definition MAX_QUEUE_MSG_NUM :: int where "MAX_QUEUE_MSG_NUM = 50"

record comm_que =
  setdata :: bytes
  getdata :: bytes
  current_length :: int
  que :: "dqueue option"

definition COMM_API_queue_init :: "bool \<Rightarrow> comm_que \<Rightarrow> int \<times> comm_que" where
  "COMM_API_queue_init ok g =
    (case COMM_queue_new ok of None \<Rightarrow> (-1, g\<lparr>que := None\<rparr>)
     | Some q \<Rightarrow> (0, g\<lparr>que := Some q, current_length := 0\<rparr>))"

definition COMM_API_queue_free :: "nat \<Rightarrow> (nat \<Rightarrow> bool) \<Rightarrow> comm_que option \<Rightarrow> comm_que option option result" where
  "COMM_API_queue_free n ok g =
    (case g of None \<Rightarrow> Inr (Some None)
     | Some s \<Rightarrow>
        (case que s of None \<Rightarrow> Inr (Some (Some s))
         | Some q \<Rightarrow>
            (case COMM_queue_free n ok 0 q of Inl e \<Rightarrow> Inl e
             | Inr None \<Rightarrow> Inr None
             | Inr (Some _) \<Rightarrow> Inr (Some (Some (s\<lparr>que := None\<rparr>))))))"

definition COMM_API_queue_is_empty :: "comm_que option \<Rightarrow> int" where
  "COMM_API_queue_is_empty g =
    (case g of None \<Rightarrow> -1
     | Some s \<Rightarrow> (case que s of None \<Rightarrow> -1 | Some q \<Rightarrow> if COMM_queue_is_empty q then 1 else 0))"

definition COMM_API_queue_push_tail :: "(nat \<Rightarrow> bool) \<Rightarrow> comm_que option \<Rightarrow> (int \<times> comm_que option) result" where
  "COMM_API_queue_push_tail ok g =
    (case g of None \<Rightarrow> Inr (-1, None)
     | Some s \<Rightarrow>
        (case que s of None \<Rightarrow> Inr (-1, Some s)
         | Some q \<Rightarrow>
            (case COMM_queue_push_tail ok q (setdata s) of Inl e \<Rightarrow> Inl e
             | Inr (n, q) \<Rightarrow>
                if n \<noteq> 0 then Inr (0, Some (s\<lparr>que := Some q, current_length := current_length s + 1\<rparr>))
                else Inr (-1, Some (s\<lparr>que := Some q\<rparr>)))))"

definition COMM_API_queue_push_head :: "(nat \<Rightarrow> bool) \<Rightarrow> comm_que option \<Rightarrow> (int \<times> comm_que option) result" where
  "COMM_API_queue_push_head ok g =
    (case g of None \<Rightarrow> Inr (-1, None)
     | Some s \<Rightarrow>
        (case que s of None \<Rightarrow> Inr (-1, Some s)
         | Some q \<Rightarrow>
            if current_length s \<ge> MAX_QUEUE_MSG_NUM then Inr (-1, Some s)
            else (case COMM_queue_push_head ok q (setdata s) of Inl e \<Rightarrow> Inl e
             | Inr (n, q) \<Rightarrow>
                if n \<noteq> 0 then Inr (0, Some (s\<lparr>que := Some q, current_length := current_length s + 1\<rparr>))
                else Inr (-1, Some (s\<lparr>que := Some q\<rparr>)))))"

definition take_result :: "comm_que \<Rightarrow> nat \<times> bytes option \<times> dqueue \<Rightarrow> int \<times> comm_que option" where
  "take_result s r =
    (case r of (n, d, q) \<Rightarrow>
       if n \<noteq> 0
       then (0, Some (case d of None \<Rightarrow> s\<lparr>que := Some q\<rparr>
                      | Some b \<Rightarrow> s\<lparr>que := Some q, current_length := current_length s - 1, getdata := b\<rparr>))
       else (-1, Some (s\<lparr>que := Some q\<rparr>)))"

definition COMM_API_queue_pop_tail :: "bool \<Rightarrow> comm_que option \<Rightarrow> (int \<times> comm_que option) result" where
  "COMM_API_queue_pop_tail ok g =
    (case g of None \<Rightarrow> Inr (-1, None)
     | Some s \<Rightarrow>
        (case que s of None \<Rightarrow> Inr (-1, Some s)
         | Some q \<Rightarrow> (case COMM_queue_pop_tail ok q of Inl e \<Rightarrow> Inl e | Inr r \<Rightarrow> Inr (take_result s r))))"

definition COMM_API_queue_pop_head :: "bool \<Rightarrow> comm_que option \<Rightarrow> (int \<times> comm_que option) result" where
  "COMM_API_queue_pop_head ok g =
    (case g of None \<Rightarrow> Inr (-1, None)
     | Some s \<Rightarrow>
        (case que s of None \<Rightarrow> Inr (-1, Some s)
         | Some q \<Rightarrow> (case COMM_queue_pop_head ok q of Inl e \<Rightarrow> Inl e | Inr r \<Rightarrow> Inr (take_result s r))))"

section \<open>The wrapper is a first-in first-out queue\<close>

definition cq_inv :: "comm_que \<Rightarrow> bool" where
  "cq_inv s \<longleftrightarrow> (case que s of None \<Rightarrow> False
     | Some q \<Rightarrow> dq_inv q \<and> current_length s = int (length (dq_contents q)) \<and> [] \<notin> set (dq_contents q))"

definition que_contents :: "comm_que \<Rightarrow> bytes list" where
  "que_contents s = (case que s of None \<Rightarrow> [] | Some q \<Rightarrow> dq_contents q)"

text \<open>A client fills \<open>setdata\<close> and pushes; or pops and reads \<open>getdata\<close>.\<close>

definition que_put :: "comm_que \<Rightarrow> bytes \<Rightarrow> (bool \<times> comm_que) result" where
  "que_put s d =
     bindR (COMM_API_queue_push_tail (\<lambda>_. True) (Some (s\<lparr>setdata := d\<rparr>))) (\<lambda>(r, g).
     (case g of None \<Rightarrow> Inl NullPointer | Some s \<Rightarrow> Inr (r = 0, s)))"

definition que_get :: "comm_que \<Rightarrow> (bytes option \<times> comm_que) result" where
  "que_get s =
     bindR (COMM_API_queue_pop_head True (Some s)) (\<lambda>(r, g).
     (case g of None \<Rightarrow> Inl NullPointer | Some s \<Rightarrow> Inr (if r = 0 then Some (getdata s) else None, s)))"

text \<open>The wrapper bounds nothing at the tail: every put is accepted.\<close>

lemma que_put_law:
  assumes i: "cq_inv s" and d: "d \<noteq> []"
  shows "\<exists>s'. que_put s d = Inr (True, s') \<and> cq_inv s' \<and> que_contents s' = que_contents s @ [d]"
proof -
  obtain q where q: "que s = Some q" "dq_inv q" "current_length s = int (length (dq_contents q))" "[] \<notin> set (dq_contents q)"
    using i by (auto simp: cq_inv_def split: option.splits)
  then obtain as where r: "dq_rep q as" by (auto simp: dq_inv_def)
  obtain q' where q': "COMM_queue_push_tail (\<lambda>_. True) q d = Inr (length d, q')" "dq_rep q' (as @ [fresh q])"
    "map (entry_data (store q')) (as @ [fresh q]) = map (entry_data (store q)) as @ [d]"
    using push_tail_rep [OF r, of "\<lambda>_. True" d] by blast
  have c: "dq_contents q' = dq_contents q @ [d]"
    using rep_contents [OF q'(2)] rep_contents [OF r] q'(3) by simp
  let ?s = "s\<lparr>setdata := d, que := Some q', current_length := current_length s + 1\<rparr>"
  have "que_put s d = Inr (True, ?s)"
    using q(1) q'(1) d by (simp add: que_put_def COMM_API_queue_push_tail_def)
  moreover have "cq_inv ?s" using q q'(2) c d by (auto simp: cq_inv_def dq_inv_def)
  moreover have "que_contents ?s = que_contents s @ [d]" using q(1) c by (simp add: que_contents_def)
  ultimately show ?thesis by blast
qed

lemma que_get_law:
  assumes i: "cq_inv s"
  shows "\<exists>s'. que_get s = Inr (case que_contents s of [] \<Rightarrow> None | y # ys \<Rightarrow> Some y, s') \<and> cq_inv s'
    \<and> que_contents s' = tl (que_contents s)"
proof -
  obtain q where q: "que s = Some q" "dq_inv q" "current_length s = int (length (dq_contents q))" "[] \<notin> set (dq_contents q)"
    using i by (auto simp: cq_inv_def split: option.splits)
  then obtain as where r: "dq_rep q as" by (auto simp: dq_inv_def)
  show ?thesis
  proof (cases as)
    case Nil
    then have "qhead q = None" "dq_contents q = []" using r rep_contents [OF r] by (simp_all add: dq_rep_def)
    moreover have "cq_inv (s\<lparr>que := Some q\<rparr>)" using i q(1) by (simp add: cq_inv_def)
    ultimately show ?thesis using q(1)
      by (simp add: que_get_def que_contents_def COMM_API_queue_pop_head_def COMM_queue_pop_head_def take_result_def)
  next
    case (Cons a bs)
    let ?d = "entry_data (store q) a"
    obtain q' where q': "COMM_queue_pop_head True q = Inr (length ?d, Some ?d, q')" "dq_rep q' bs"
      "map (entry_data (store q')) bs = map (entry_data (store q)) bs"
      using pop_head_rep [of q a bs] r Cons by blast
    have c: "dq_contents q = ?d # dq_contents q'"
      using rep_contents [OF q'(2)] rep_contents [OF r] q'(3) Cons by simp
    then have d: "?d \<noteq> []" using q(4) by auto
    let ?s = "s\<lparr>que := Some q', current_length := current_length s - 1, getdata := ?d\<rparr>"
    have "que_get s = Inr (Some ?d, ?s)"
      using q(1) q'(1) d by (simp add: que_get_def COMM_API_queue_pop_head_def take_result_def)
    moreover have "cq_inv ?s" using q q'(2) c by (auto simp: cq_inv_def dq_inv_def)
    ultimately show ?thesis using c q(1) by (simp add: que_contents_def)
  qed
qed

interpretation cmq: fifo que_put que_get que_contents cq_inv "\<lambda>d. d \<noteq> []" "\<lambda>_ _. True"
  by unfold_locales (use que_put_law que_get_law in simp_all)

text \<open>The limit of fifty messages is checked at the head only.\<close>

lemma push_head_limit:
  "current_length s \<ge> 50 \<Longrightarrow> que s = Some q \<Longrightarrow> COMM_API_queue_push_head ok (Some s) = Inr (-1, Some s)"
  by (simp add: COMM_API_queue_push_head_def MAX_QUEUE_MSG_NUM_def)

lemma push_tail_no_limit:
  assumes "cq_inv s" "setdata s \<noteq> []"
  shows "\<exists>s'. COMM_API_queue_push_tail (\<lambda>_. True) (Some s) = Inr (0, Some s') \<and> current_length s' = current_length s + 1"
proof -
  obtain q where q: "que s = Some q" "dq_inv q" using assms(1) by (auto simp: cq_inv_def split: option.splits)
  then obtain as where r: "dq_rep q as" by (auto simp: dq_inv_def)
  show ?thesis using push_tail_rep [OF r, of "\<lambda>_. True" "setdata s"] q(1) assms(2)
    by (auto simp: COMM_API_queue_push_tail_def)
qed

end
