(* ===== verification/Msg_Queue.thy ===== *)
theory Msg_Queue
  imports Fifo
begin

text \<open>
  The intrusive message queue of \<open>common/queue/msg_queue.c\<close>. The nodes belong to the callers and
  live in an explicit store; the queue holds the addresses of the first and the last one. A null
  queue or node is \<open>None\<close>.
\<close>

record msg_data =
  mtype :: int
  mlength :: int
  timestamp_ms :: int
  mdata :: bytes

record msg_node =
  msg :: msg_data
  nnext :: "nat option"

type_synonym msg_store = "nat \<Rightarrow> msg_node option"

record msg_queue =
  minit :: bool
  node_count :: int
  max_node_count :: int
  mhead :: "nat option"
  mtail :: "nat option"

definition msg_queue_init :: "msg_queue option \<Rightarrow> int \<Rightarrow> msg_queue option" where
  "msg_queue_init q initQueueNum =
    (case q of None \<Rightarrow> None
     | Some s \<Rightarrow> if minit s then Some s
        else Some \<lparr>minit = True, node_count = 0, max_node_count = initQueueNum, mhead = None, mtail = None\<rparr>)"

definition msg_queue_put :: "msg_store \<Rightarrow> msg_queue option \<Rightarrow> nat option \<Rightarrow> (int \<times> msg_store \<times> msg_queue option) result" where
  "msg_queue_put h q nd =
    (case (q, nd) of (Some s, Some a) \<Rightarrow>
       if \<not> minit s then Inr (-1, h, q)
       else if max_node_count s > 0 \<and> node_count s \<ge> max_node_count s then Inr (-1, h, q)
       else (case h a of None \<Rightarrow> Inl NullPointer
         | Some n \<Rightarrow>
            (let h = h(a := Some (n\<lparr>nnext := None\<rparr>))
             in case mtail s of
                  None \<Rightarrow> Inr (0, h, Some (s\<lparr>mhead := Some a, mtail := Some a, node_count := node_count s + 1\<rparr>))
                | Some t \<Rightarrow>
                   (case h t of None \<Rightarrow> Inl NullPointer
                    | Some tn \<Rightarrow> Inr (0, h(t := Some (tn\<lparr>nnext := Some a\<rparr>)),
                                   Some (s\<lparr>mtail := Some a, node_count := node_count s + 1\<rparr>)))))
     | _ \<Rightarrow> Inr (-1, h, q))"

definition msg_queue_get :: "msg_store \<Rightarrow> msg_queue option \<Rightarrow> (nat option \<times> msg_queue option) result" where
  "msg_queue_get h q =
    (case q of None \<Rightarrow> Inr (None, None)
     | Some s \<Rightarrow>
        if \<not> minit s then Inr (None, q)
        else if node_count s \<le> 0 then Inr (None, q)
        else (case mhead s of None \<Rightarrow> Inr (None, q)
          | Some a \<Rightarrow>
             (case h a of None \<Rightarrow> Inl NullPointer
              | Some n \<Rightarrow> Inr (Some a, Some (s\<lparr>mhead := nnext n,
                    mtail := (if nnext n = None then None else mtail s), node_count := node_count s - 1\<rparr>)))))"

definition msg_queue_is_empty :: "msg_queue option \<Rightarrow> int" where
  "msg_queue_is_empty q =
    (case q of None \<Rightarrow> 1 | Some s \<Rightarrow> if \<not> minit s then 1 else if node_count s = 0 then 1 else 0)"

text \<open>The loop that frees the chain; the fuel bounds the number of nodes.\<close>

fun free_chain :: "nat \<Rightarrow> msg_store \<Rightarrow> nat option \<Rightarrow> msg_store option result" where
  "free_chain n h None = Inr (Some h)"
| "free_chain 0 h (Some a) = Inr None"
| "free_chain (Suc n) h (Some a) =
    (case h a of None \<Rightarrow> Inl NullPointer | Some nd \<Rightarrow> free_chain n (h(a := None)) (nnext nd))"

definition msg_queue_deinit :: "nat \<Rightarrow> msg_store \<Rightarrow> msg_queue option \<Rightarrow> (int \<times> msg_store \<times> msg_queue option) option result" where
  "msg_queue_deinit n h q =
    (case q of None \<Rightarrow> Inr (Some (-1, h, None))
     | Some s \<Rightarrow>
        if \<not> minit s then Inr (Some (-1, h, q))
        else (case free_chain n h (mhead s) of Inl e \<Rightarrow> Inl e
          | Inr None \<Rightarrow> Inr None
          | Inr (Some h) \<Rightarrow> Inr (Some (0, h, Some (s\<lparr>mhead := None, mtail := None, node_count := 0\<rparr>)))))"

section \<open>The chain of nodes\<close>

fun chain :: "msg_store \<Rightarrow> nat option \<Rightarrow> nat list \<Rightarrow> bool" where
  "chain h p [] \<longleftrightarrow> p = None"
| "chain h p (a # as) \<longleftrightarrow> p = Some a \<and> (case h a of None \<Rightarrow> False | Some n \<Rightarrow> chain h (nnext n) as)"

definition mq_rep :: "msg_store \<Rightarrow> msg_queue \<Rightarrow> nat list \<Rightarrow> bool" where
  "mq_rep h s as \<longleftrightarrow> minit s \<and> chain h (mhead s) as \<and> distinct as \<and> node_count s = int (length as)
     \<and> mtail s = (if as = [] then None else Some (last as))"

lemma chain_upd: "a \<notin> set as \<Longrightarrow> chain (h(a := x)) p as = chain h p as"
  by (induction as arbitrary: p) (auto split: option.split)

lemma chain_alloc: "chain h p as \<Longrightarrow> a \<in> set as \<Longrightarrow> h a \<noteq> None"
  by (induction as arbitrary: p) (auto split: option.splits)

text \<open>Hanging a fresh node behind the last one.\<close>

lemma chain_snoc:
  assumes "chain h p (as @ [t])" "distinct (as @ [t])" "a \<notin> set (as @ [t])" "h t = Some tn"
    "h a = Some n" "nnext n = None"
  shows "chain (h(t := Some (tn\<lparr>nnext := Some a\<rparr>))) p (as @ [t, a])"
  using assms
proof (induction as arbitrary: p)
  case Nil
  then show ?case by auto
next
  case (Cons b as)
  then obtain bn where b: "h b = Some bn" "p = Some b" "chain h (nnext bn) (as @ [t])"
    by (auto split: option.splits)
  have "b \<noteq> t" using Cons.prems(2) by auto
  with b Cons show ?case by simp
qed

lemma put_rep:
  assumes r: "mq_rep h s as" and a: "a \<notin> set as" "h a = Some n" and room: "max_node_count s \<le> 0 \<or> node_count s < max_node_count s"
  shows "\<exists>h' s'. msg_queue_put h (Some s) (Some a) = Inr (0, h', Some s') \<and> mq_rep h' s' (as @ [a])
    \<and> max_node_count s' = max_node_count s
    \<and> (\<forall>x. map_option msg (h' x) = map_option msg (h x))"
proof (cases as rule: rev_cases)
  case Nil
  then show ?thesis using r a room by (auto simp: msg_queue_put_def mq_rep_def Let_def)
next
  case (snoc bs t)
  have ch: "chain h (mhead s) (bs @ [t])" and d: "distinct (bs @ [t])" and tl: "mtail s = Some t"
    and at: "a \<noteq> t" "a \<notin> set (bs @ [t])"
    using r snoc a(1) by (auto simp: mq_rep_def)
  obtain tn where tn: "h t = Some tn" using chain_alloc [OF ch] by fastforce
  let ?h1 = "h(a := Some (n\<lparr>nnext := None\<rparr>))"
  let ?h = "?h1(t := Some (tn\<lparr>nnext := Some a\<rparr>))"
  let ?s = "s\<lparr>mtail := Some a, node_count := node_count s + 1\<rparr>"
  have put: "msg_queue_put h (Some s) (Some a) = Inr (0, ?h, Some ?s)"
    using r a(2) room tl at tn by (auto simp: msg_queue_put_def mq_rep_def Let_def)
  have "chain ?h1 (mhead s) (bs @ [t])" using ch at(2) by (simp add: chain_upd)
  then have "chain ?h (mhead s) (bs @ [t, a])"
    using d at tn by (intro chain_snoc [where n = "n\<lparr>nnext := None\<rparr>"]) simp_all
  then have "mq_rep ?h ?s (as @ [a])" using r snoc at by (auto simp: mq_rep_def)
  moreover have "\<forall>x. map_option msg (?h x) = map_option msg (h x)" using tn a(2) by simp
  ultimately show ?thesis using put by auto
qed

lemma put_full:
  "mq_rep h s as \<Longrightarrow> 0 < max_node_count s \<Longrightarrow> int (length as) \<ge> max_node_count s \<Longrightarrow>
    msg_queue_put h (Some s) (Some a) = Inr (-1, h, Some s)"
  by (simp add: msg_queue_put_def mq_rep_def)

lemma get_rep:
  assumes r: "mq_rep h s (a # as)"
  shows "\<exists>s'. msg_queue_get h (Some s) = Inr (Some a, Some s') \<and> mq_rep h s' as \<and> max_node_count s' = max_node_count s"
proof -
  obtain n where n: "h a = Some n" "chain h (nnext n) as" "mhead s = Some a"
    using r by (auto simp: mq_rep_def split: option.splits)
  have "nnext n = None \<longleftrightarrow> as = []" using n(2) by (cases as) auto
  then show ?thesis using r n by (auto simp: msg_queue_get_def mq_rep_def)
qed

lemma get_empty: "mq_rep h s [] \<Longrightarrow> msg_queue_get h (Some s) = Inr (None, Some s)"
  by (simp add: msg_queue_get_def mq_rep_def)

lemma free_chain_all:
  "chain h p as \<Longrightarrow> distinct as \<Longrightarrow> length as \<le> n \<Longrightarrow>
    \<exists>h'. free_chain n h p = Inr (Some h') \<and> (\<forall>x. h' x = (if x \<in> set as then None else h x))"
proof (induction as arbitrary: n h p)
  case Nil
  then show ?case by (cases n) auto
next
  case (Cons a as)
  then obtain m nd where m: "n = Suc m" "h a = Some nd" "p = Some a" "chain h (nnext nd) as"
    by (cases n) (auto split: option.splits)
  let ?h = "h(a := None)"
  have "chain ?h (nnext nd) as" using m(4) Cons.prems(2) by (simp add: chain_upd)
  moreover have "distinct as" "length as \<le> m" using Cons.prems m(1) by simp_all
  ultimately obtain h' where h': "free_chain m ?h (nnext nd) = Inr (Some h')"
    "\<forall>x. h' x = (if x \<in> set as then None else ?h x)"
    using Cons.IH [of ?h "nnext nd" m] by blast
  have "free_chain n h p = Inr (Some h')" using m(1,2,3) h'(1) by simp
  moreover have "\<forall>x. h' x = (if x \<in> set (a # as) then None else h x)" using h'(2) by simp
  ultimately show ?case by blast
qed

text \<open>Releasing the queue frees its nodes and no other; the flag stays raised.\<close>

lemma deinit_spec:
  assumes r: "mq_rep h s as" and n: "length as \<le> n"
  shows "\<exists>h' s'. msg_queue_deinit n h (Some s) = Inr (Some (0, h', Some s')) \<and> mq_rep h' s' [] \<and> minit s'
    \<and> (\<forall>x. h' x = (if x \<in> set as then None else h x))"
proof -
  obtain h' where "free_chain n h (mhead s) = Inr (Some h')" "\<forall>x. h' x = (if x \<in> set as then None else h x)"
    using free_chain_all [of h "mhead s" as n] r n by (auto simp: mq_rep_def)
  with r show ?thesis by (auto simp: msg_queue_deinit_def mq_rep_def)
qed

section \<open>The queue with its clients\<close>

text \<open>
  A producer allocates a node, fills it, puts it and releases it when it is refused; a consumer
  takes a node, reads it and releases it. The state is the store, the next fresh address and the
  queue.
\<close>

type_synonym mq_state = "msg_store \<times> nat \<times> msg_queue"

definition mq_put :: "mq_state \<Rightarrow> msg_data \<Rightarrow> (bool \<times> mq_state) result" where
  "mq_put st m = (case st of (h, fresh, s) \<Rightarrow>
     bindR (msg_queue_put (h(fresh := Some \<lparr>msg = m, nnext = None\<rparr>)) (Some s) (Some fresh)) (\<lambda>(r, h, q).
     (case q of None \<Rightarrow> Inl NullPointer
      | Some s \<Rightarrow> Inr (if r = 0 then (True, h, Suc fresh, s) else (False, h(fresh := None), Suc fresh, s)))))"

definition mq_get :: "mq_state \<Rightarrow> (msg_data option \<times> mq_state) result" where
  "mq_get st = (case st of (h, fresh, s) \<Rightarrow>
     bindR (msg_queue_get h (Some s)) (\<lambda>(nd, q).
     (case (q, nd) of
        (None, _) \<Rightarrow> Inl NullPointer
      | (Some s, None) \<Rightarrow> Inr (None, h, fresh, s)
      | (Some s, Some a) \<Rightarrow> (case h a of None \<Rightarrow> Inl NullPointer
          | Some n \<Rightarrow> Inr (Some (msg n), h(a := None), fresh, s)))))"

fun mq_walk :: "msg_store \<Rightarrow> nat \<Rightarrow> nat option \<Rightarrow> msg_data list" where
  "mq_walk h n None = []"
| "mq_walk h 0 (Some a) = []"
| "mq_walk h (Suc n) (Some a) = (case h a of None \<Rightarrow> [] | Some nd \<Rightarrow> msg nd # mq_walk h n (nnext nd))"

definition mq_contents :: "mq_state \<Rightarrow> msg_data list" where
  "mq_contents st = (case st of (h, fresh, s) \<Rightarrow> mq_walk h fresh (mhead s))"

definition mq_inv :: "int \<Rightarrow> mq_state \<Rightarrow> bool" where
  "mq_inv n st \<longleftrightarrow> (case st of (h, fresh, s) \<Rightarrow>
     max_node_count s = n \<and> (\<exists>as. mq_rep h s as \<and> (\<forall>a \<in> set as. a < fresh)))"

text \<open>The queue takes one more message when it has no limit or holds fewer.\<close>

definition mq_room :: "int \<Rightarrow> msg_data list \<Rightarrow> msg_data \<Rightarrow> bool" where
  "mq_room n xs m \<longleftrightarrow> n \<le> 0 \<or> int (length xs) < n"

definition node_msg :: "msg_store \<Rightarrow> nat \<Rightarrow> msg_data option" where
  "node_msg h a = map_option msg (h a)"

lemma walk_chain: "chain h p as \<Longrightarrow> length as \<le> n \<Longrightarrow> map Some (mq_walk h n p) = map (node_msg h) as"
proof (induction as arbitrary: p n)
  case Nil
  then show ?case by simp
next
  case (Cons a as)
  then obtain m where "n = Suc m" by (cases n) auto
  with Cons show ?case by (auto simp: node_msg_def split: option.splits)
qed

lemma mq_contents_rep:
  assumes "mq_rep h s as" "\<forall>a \<in> set as. a < fresh"
  shows "map Some (mq_contents (h, fresh, s)) = map (node_msg h) as"
proof -
  have "set as \<subseteq> {..<fresh}" "distinct as" using assms by (auto simp: mq_rep_def)
  then have "length as \<le> fresh" by (metis card_lessThan card_mono distinct_card finite_lessThan)
  then show ?thesis using assms(1) by (auto simp: mq_contents_def mq_rep_def intro: walk_chain)
qed

lemma mq_contents_length:
  "mq_rep h s as \<Longrightarrow> \<forall>a \<in> set as. a < fresh \<Longrightarrow> length (mq_contents (h, fresh, s)) = length as"
  using mq_contents_rep [of h s as fresh] by (metis length_map)

lemma mq_put_accepts:
  assumes r: "mq_rep h s as" "\<forall>a \<in> set as. a < fr" and room: "max_node_count s \<le> 0 \<or> node_count s < max_node_count s"
  shows "\<exists>h' s'. mq_put (h, fr, s) m = Inr (True, h', Suc fr, s') \<and> mq_inv (max_node_count s) (h', Suc fr, s')
    \<and> mq_contents (h', Suc fr, s') = mq_contents (h, fr, s) @ [m]"
proof -
  let ?h = "h(fr := Some \<lparr>msg = m, nnext = None\<rparr>)"
  have fr: "fr \<notin> set as" using r(2) by auto
  have r2: "mq_rep ?h s as" using r(1) fr by (simp add: mq_rep_def chain_upd)
  obtain h' s' where q: "msg_queue_put ?h (Some s) (Some fr) = Inr (0, h', Some s')" "mq_rep h' s' (as @ [fr])"
    "max_node_count s' = max_node_count s" "\<forall>x. map_option msg (h' x) = map_option msg (?h x)"
    using put_rep [OF r2 fr _ room] by fastforce
  have b: "\<forall>a \<in> set (as @ [fr]). a < Suc fr" using r(2) by (auto simp: less_Suc_eq)
  have "map Some (mq_contents (h', Suc fr, s')) = map (node_msg h') (as @ [fr])"
    using mq_contents_rep [OF q(2) b] .
  also have "\<dots> = map (node_msg h) as @ [Some m]"
    using q(4) fr by (auto simp: node_msg_def)
  also have "\<dots> = map Some (mq_contents (h, fr, s) @ [m])"
    using mq_contents_rep [OF r] by simp
  finally have "mq_contents (h', Suc fr, s') = mq_contents (h, fr, s) @ [m]"
    by (simp only: inj_map_eq_map [OF inj_Some])
  moreover have "mq_inv (max_node_count s) (h', Suc fr, s')"
    unfolding mq_inv_def prod.case using q(2,3) b by blast
  moreover have "mq_put (h, fr, s) m = Inr (True, h', Suc fr, s')" using q(1) by (simp add: mq_put_def)
  ultimately show ?thesis by blast
qed

lemma mq_put_refuses:
  assumes r: "mq_rep h s as" "\<forall>a \<in> set as. a < fr" and full: "0 < max_node_count s" "node_count s \<ge> max_node_count s"
  shows "mq_put (h, fr, s) m = Inr (False, h(fr := None), Suc fr, s) \<and> mq_inv (max_node_count s) (h(fr := None), Suc fr, s)
    \<and> mq_contents (h(fr := None), Suc fr, s) = mq_contents (h, fr, s)"
proof -
  let ?h = "h(fr := Some \<lparr>msg = m, nnext = None\<rparr>)" and ?g = "h(fr := None)"
  have fr: "fr \<notin> set as" using r(2) by auto
  have r2: "mq_rep ?h s as" and r3: "mq_rep ?g s as" using r(1) fr by (simp_all add: mq_rep_def chain_upd)
  have "int (length as) \<ge> max_node_count s" using r(1) full(2) by (simp add: mq_rep_def)
  then have put: "mq_put (h, fr, s) m = Inr (False, ?g, Suc fr, s)"
    using put_full [OF r2 full(1), of fr] by (simp add: mq_put_def)
  have b: "\<forall>a \<in> set as. a < Suc fr" using r(2) by (auto simp: less_Suc_eq)
  have "map Some (mq_contents (?g, Suc fr, s)) = map (node_msg h) as"
    using mq_contents_rep [OF r3 b] fr by (auto simp: node_msg_def)
  also have "\<dots> = map Some (mq_contents (h, fr, s))" using mq_contents_rep [OF r] by simp
  finally have "mq_contents (?g, Suc fr, s) = mq_contents (h, fr, s)" by (simp only: inj_map_eq_map [OF inj_Some])
  then show ?thesis using put r3 b by (auto simp: mq_inv_def)
qed

lemma mq_put_law:
  assumes "mq_inv n st"
  shows "\<exists>st'. mq_put st m = Inr (mq_room n (mq_contents st) m, st') \<and> mq_inv n st'
    \<and> mq_contents st' = (if mq_room n (mq_contents st) m then mq_contents st @ [m] else mq_contents st)"
proof -
  obtain h fr s where st: "st = (h, fr, s)" by (cases st)
  obtain as where r: "mq_rep h s as" "\<forall>a \<in> set as. a < fr" and n: "max_node_count s = n"
    using assms st by (auto simp: mq_inv_def)
  have "mq_room n (mq_contents st) m \<longleftrightarrow> max_node_count s \<le> 0 \<or> node_count s < max_node_count s"
    using mq_contents_length [OF r] r(1) st n by (simp add: mq_room_def mq_rep_def)
  then show ?thesis
    using mq_put_accepts [OF r, of m] mq_put_refuses [OF r, of m] st n
    by (cases "mq_room n (mq_contents st) m") auto
qed

lemma mq_get_law:
  assumes "mq_inv n st"
  shows "\<exists>st'. mq_get st = Inr (case mq_contents st of [] \<Rightarrow> None | y # ys \<Rightarrow> Some y, st') \<and> mq_inv n st'
    \<and> mq_contents st' = tl (mq_contents st)"
proof -
  obtain h fr s where st: "st = (h, fr, s)" by (cases st)
  obtain as where r: "mq_rep h s as" "\<forall>a \<in> set as. a < fr" and mx: "max_node_count s = n"
    using assms st by (auto simp: mq_inv_def)
  show ?thesis
  proof (cases as)
    case Nil
    then show ?thesis using r get_empty [of h s] mq_contents_length [OF r] st assms by (simp add: mq_get_def)
  next
    case (Cons a bs)
    obtain s' where s': "msg_queue_get h (Some s) = Inr (Some a, Some s')" "mq_rep h s' bs" "max_node_count s' = n"
      using get_rep [of h s a bs] r(1) Cons mx by auto
    obtain nd where nd: "h a = Some nd" using r(1) Cons by (auto simp: mq_rep_def split: option.splits)
    have get: "mq_get st = Inr (Some (msg nd), h(a := None), fr, s')" using st s'(1) nd by (simp add: mq_get_def)
    have na: "a \<notin> set bs" using r(1) Cons by (simp add: mq_rep_def)
    have r2: "mq_rep (h(a := None)) s' bs" using s'(2) na by (simp add: mq_rep_def chain_upd)
    have b: "\<forall>a \<in> set bs. a < fr" using r(2) Cons by simp
    have "map Some (mq_contents st) = Some (msg nd) # map (node_msg h) bs"
      using mq_contents_rep [OF r] st Cons nd by (simp add: node_msg_def)
    also have "map (node_msg h) bs = map (node_msg (h(a := None))) bs" using na by (auto simp: node_msg_def)
    also have "\<dots> = map Some (mq_contents (h(a := None), fr, s'))" using mq_contents_rep [OF r2 b] by simp
    finally have "map Some (mq_contents st) = map Some (msg nd # mq_contents (h(a := None), fr, s'))" by simp
    then have "mq_contents st = msg nd # mq_contents (h(a := None), fr, s')" by (simp only: inj_map_eq_map [OF inj_Some])
    moreover have "mq_inv n (h(a := None), fr, s')" unfolding mq_inv_def prod.case using r2 b s'(3) by blast
    ultimately show ?thesis using get by simp
  qed
qed

interpretation msq: fifo mq_put mq_get mq_contents "mq_inv n" "\<lambda>_. True" "mq_room n" for n
  by unfold_locales (use mq_put_law mq_get_law in blast)+

end
