(* ===== verification/Char_Buf.thy ===== *)
theory Char_Buf
  imports Prelude
begin

text \<open>
  The growing byte buffer of \<open>common/cbuf/char_buf.c\<close>: the allocated bytes, of which the first
  \<open>cur_size\<close> are data. A write that does not fit reallocates the buffer; when that fails it
  writes what fits. The allocator is an argument; memory added by \<open>realloc\<close> is taken as zeroes
  and always written before it is read. A copy of a negative length is the fault
  \<open>BufferOverrun\<close>; a released buffer is \<open>None\<close>.
\<close>

record char_buffer =
  cb_init :: bool
  max_size :: nat
  cur_size :: nat
  cbytes :: bytes

definition char_buffer_init :: "(nat \<Rightarrow> bool) \<Rightarrow> bool \<Rightarrow> nat \<Rightarrow> char_buffer option" where
  "char_buffer_init ok mutex_ok n =
    (if \<not> ok 0 then None
     else if \<not> ok 1 then None
     else if \<not> mutex_ok then None
     else Some \<lparr>cb_init = True, max_size = n, cur_size = 0, cbytes = replicate n 0\<rparr>)"

definition char_buffer_deinit :: "char_buffer option \<Rightarrow> int \<times> char_buffer option" where
  "char_buffer_deinit b = (case b of None \<Rightarrow> (-1, None) | Some _ \<Rightarrow> (0, None))"

definition char_buffer_write :: "bool \<Rightarrow> char_buffer option \<Rightarrow> bytes option \<Rightarrow> int \<Rightarrow> (int \<times> char_buffer option) result" where
  "char_buffer_write ok b src write_size =
    (case (b, src) of (Some c, Some d) \<Rightarrow>
       if \<not> cb_init c then Inr (-1, b)
       else
         let (c, n) = (if int (max_size c) - int (cur_size c) < write_size
                 then let new_max_size = nat (int (cur_size c) + write_size)
                      in if ok
                      then (c\<lparr>cbytes := cbytes c @ replicate (new_max_size - max_size c) 0,
                              max_size := new_max_size\<rparr>, write_size)
                      else (c, int (max_size c) - int (cur_size c))
                 else (c, write_size))
         in if n < 0 \<or> int (length d) < n then Inl BufferOverrun
            else Inr (0, Some (c\<lparr>cbytes := take (cur_size c) (cbytes c) @ take (nat n) d @ drop (cur_size c + nat n) (cbytes c),
                              cur_size := cur_size c + nat n\<rparr>))
     | _ \<Rightarrow> Inr (-1, b))"

text \<open>\<open>memmove\<close> of the rest to the front.\<close>

definition shift_down :: "char_buffer \<Rightarrow> nat \<Rightarrow> char_buffer" where
  "shift_down c n =
    c\<lparr>cur_size := cur_size c - n,
      cbytes := take (cur_size c - n) (drop n (cbytes c)) @ drop (cur_size c - n) (cbytes c)\<rparr>"

definition char_buffer_read :: "char_buffer option \<Rightarrow> bool \<Rightarrow> int \<Rightarrow> (int \<times> bytes \<times> char_buffer option) result" where
  "char_buffer_read b dst max_read_size =
    (case b of None \<Rightarrow> Inr (-1, [], None)
     | Some c \<Rightarrow>
        if \<not> cb_init c then Inr (-1, [], b)
        else let n = (if int (cur_size c) < max_read_size then int (cur_size c) else max_read_size)
             in if n < 0 then Inl BufferOverrun
                else Inr (n, if dst then take (nat n) (cbytes c) else [], Some (shift_down c (nat n))))"

definition char_buffer_get_avail_write_size :: "char_buffer option \<Rightarrow> int" where
  "char_buffer_get_avail_write_size b =
    (case b of None \<Rightarrow> -1 | Some c \<Rightarrow> if \<not> cb_init c then -1 else int (max_size c) - int (cur_size c))"

definition char_buffer_get_avail_read_size :: "char_buffer option \<Rightarrow> int" where
  "char_buffer_get_avail_read_size b =
    (case b of None \<Rightarrow> -1 | Some c \<Rightarrow> if \<not> cb_init c then -1 else int (cur_size c))"

definition char_buffer_clear :: "char_buffer option \<Rightarrow> int \<times> char_buffer option" where
  "char_buffer_clear b =
    (case b of None \<Rightarrow> (-1, None)
     | Some c \<Rightarrow> if \<not> cb_init c then (-1, b)
        else (0, Some (c\<lparr>cbytes := replicate (max_size c) 0 @ drop (max_size c) (cbytes c), cur_size := 0\<rparr>)))"

text \<open>The search: the first position, from \<open>i\<close> on and among the next \<open>n\<close>, where the target stands.\<close>

fun seek_loop :: "bytes \<Rightarrow> bytes \<Rightarrow> nat \<Rightarrow> nat \<Rightarrow> nat option" where
  "seek_loop d t i 0 = None"
| "seek_loop d t i (Suc n) = (if take (length t) (drop i d) = t then Some i else seek_loop d t (Suc i) n)"

definition char_buffer_seek :: "char_buffer option \<Rightarrow> bytes option \<Rightarrow> int \<times> char_buffer option" where
  "char_buffer_seek b target =
    (case b of None \<Rightarrow> (-1, None)
     | Some c \<Rightarrow>
        if \<not> cb_init c then (-1, b)
        else (case target of None \<Rightarrow> (-1, b)
          | Some t \<Rightarrow>
             if length t = 0 then (-1, b)
             else if cur_size c < length t then (-1, b)
             else (case seek_loop (cbytes c) t 0 (cur_size c - length t + 1) of None \<Rightarrow> (-1, b)
               | Some pos \<Rightarrow> (0, Some (shift_down c (pos + length t))))))"

section \<open>The buffer as a byte stream\<close>

definition cb_inv :: "char_buffer \<Rightarrow> bool" where
  "cb_inv c \<longleftrightarrow> cb_init c \<and> cur_size c \<le> max_size c \<and> length (cbytes c) = max_size c"

definition cb_contents :: "char_buffer \<Rightarrow> bytes" where
  "cb_contents c = take (cur_size c) (cbytes c)"

lemma cb_init_inv: "char_buffer_init ok m n = Some c \<Longrightarrow> cb_inv c \<and> cb_contents c = []"
  by (auto simp: char_buffer_init_def cb_inv_def cb_contents_def split: if_splits)

lemma write_ok:
  assumes "cb_inv c" "n \<le> length d"
  shows "\<exists>c'. char_buffer_write True (Some c) (Some d) (int n) = Inr (0, Some c') \<and> cb_inv c'
    \<and> cb_contents c' = cb_contents c @ take n d"
  using assms by (auto simp: char_buffer_write_def cb_inv_def cb_contents_def Let_def)

lemma write_no_memory:
  assumes "cb_inv c" "n \<le> length d"
  shows "\<exists>c'. char_buffer_write False (Some c) (Some d) (int n) = Inr (0, Some c') \<and> cb_inv c'
    \<and> cb_contents c' = cb_contents c @ take (min n (max_size c - cur_size c)) d"
proof -
  have "nat (int (max_size c) - int (cur_size c)) = max_size c - cur_size c" by (simp add: nat_diff_distrib)
  then show ?thesis
    using assms by (auto simp: char_buffer_write_def cb_inv_def cb_contents_def Let_def min_def)
qed

lemma shift_down_spec:
  assumes "cb_inv c" "n \<le> cur_size c"
  shows "cb_inv (shift_down c n) \<and> cb_contents (shift_down c n) = drop n (cb_contents c)"
  using assms by (auto simp: cb_inv_def cb_contents_def shift_down_def drop_take)

lemma read_spec:
  assumes "cb_inv c"
  shows "\<exists>c'. char_buffer_read (Some c) True (int n) =
      Inr (int (min n (length (cb_contents c))), take n (cb_contents c), Some c')
    \<and> cb_inv c' \<and> cb_contents c' = drop n (cb_contents c)"
proof -
  let ?k = "if cur_size c < n then cur_size c else n"
  have l: "length (cb_contents c) = cur_size c" using assms by (simp add: cb_inv_def cb_contents_def)
  have k: "?k \<le> cur_size c" "?k = min n (cur_size c)" by auto
  have r: "char_buffer_read (Some c) True (int n) = Inr (int ?k, take ?k (cbytes c), Some (shift_down c ?k))"
    using assms by (simp add: char_buffer_read_def cb_inv_def Let_def)
  have "take ?k (cbytes c) = take n (cb_contents c)" by (simp add: cb_contents_def min_def)
  moreover have "drop ?k (cb_contents c) = drop n (cb_contents c)" using l by simp
  ultimately show ?thesis using shift_down_spec [OF assms k(1)] r k(2) l by auto
qed

text \<open>The search finds the first occurrence, and none only when there is none.\<close>

lemma seek_loop_Some:
  "seek_loop d t i n = Some p \<Longrightarrow> i \<le> p \<and> p < i + n \<and> take (length t) (drop p d) = t
    \<and> (\<forall>j. i \<le> j \<and> j < p \<longrightarrow> take (length t) (drop j d) \<noteq> t)"
proof (induction n arbitrary: i)
  case 0
  then show ?case by simp
next
  case (Suc n)
  show ?case
  proof (cases "take (length t) (drop i d) = t")
    case True
    then have "p = i" using Suc.prems by simp
    then show ?thesis using True by (intro conjI allI impI) simp_all
  next
    case False
    with Suc.prems Suc.IH [of "Suc i"] have s: "Suc i \<le> p \<and> p < Suc i + n \<and> take (length t) (drop p d) = t
      \<and> (\<forall>j. Suc i \<le> j \<and> j < p \<longrightarrow> take (length t) (drop j d) \<noteq> t)" by simp
    then have "\<forall>j. i \<le> j \<and> j < p \<longrightarrow> take (length t) (drop j d) \<noteq> t"
      using False by (metis Suc_leI le_neq_implies_less)
    with s show ?thesis by auto
  qed
qed

lemma seek_loop_None:
  "seek_loop d t i n = None \<Longrightarrow> i \<le> j \<Longrightarrow> j < i + n \<Longrightarrow> take (length t) (drop j d) \<noteq> t"
proof (induction n arbitrary: i)
  case 0
  then show ?case by simp
next
  case (Suc n)
  then show ?case by (cases "j = i") (auto split: if_splits)
qed

lemma take_drop_contents:
  "p + k \<le> cur_size c \<Longrightarrow> take k (drop p (cbytes c)) = take k (drop p (cb_contents c))"
  by (simp add: cb_contents_def drop_take min_def)

lemma seek_spec:
  assumes inv: "cb_inv c" and t: "t \<noteq> []"
  shows "\<exists>r c'. char_buffer_seek (Some c) (Some t) = (r, Some c') \<and> cb_inv c' \<and>
    (if \<exists>pre post. cb_contents c = pre @ t @ post
     then r = 0 \<and> (\<exists>pre. cb_contents c = pre @ t @ cb_contents c'
            \<and> (\<forall>p q. cb_contents c = p @ t @ q \<longrightarrow> length pre \<le> length p))
     else r = -1 \<and> c' = c)"
proof -
  let ?d = "cb_contents c"
  have l: "length ?d = cur_size c" using inv by (simp add: cb_inv_def cb_contents_def)
  have init: "cb_init c" using inv by (simp add: cb_inv_def)
  have occ: "take (length t) (drop (length p) ?d) = t \<and> length p + length t \<le> cur_size c" if "?d = p @ t @ q" for p q
    using that l by auto
  show ?thesis
  proof (cases "cur_size c < length t")
    case True
    then have "\<nexists>p q. ?d = p @ t @ q" using occ by fastforce
    then show ?thesis using True init t inv by (auto simp: char_buffer_seek_def)
  next
    case False
    let ?n = "cur_size c - length t + 1"
    show ?thesis
    proof (cases "seek_loop (cbytes c) t 0 ?n")
      case None
      have "\<nexists>p q. ?d = p @ t @ q"
      proof
        assume "\<exists>p q. ?d = p @ t @ q"
        then obtain p q where pq: "?d = p @ t @ q" by blast
        then have "length p < 0 + ?n" "take (length t) (drop (length p) (cbytes c)) = t"
          using occ [OF pq] take_drop_contents [of "length p" "length t" c] by auto
        then show False using seek_loop_None [OF None, of "length p"] by simp
      qed
      then show ?thesis using None False init t inv by (auto simp: char_buffer_seek_def)
    next
      case (Some pos)
      note S = seek_loop_Some [OF Some]
      have fit: "pos + length t \<le> cur_size c" using S False by auto
      then have at: "take (length t) (drop pos ?d) = t" using S take_drop_contents by simp
      let ?c = "shift_down c (pos + length t)"
      have c': "cb_inv ?c" "cb_contents ?c = drop (pos + length t) ?d" using shift_down_spec [OF inv fit] by simp_all
      have e: "?d = take pos ?d @ t @ cb_contents ?c"
        using at c'(2) by (metis add.commute append_take_drop_id drop_drop)
      have least: "length (take pos ?d) \<le> length p" if pq: "?d = p @ t @ q" for p q
      proof (rule ccontr)
        assume "\<not> length (take pos ?d) \<le> length p"
        then have "length p < pos" by auto
        moreover have "take (length t) (drop (length p) (cbytes c)) = t"
          using occ [OF pq] take_drop_contents [of "length p" "length t" c] by simp
        ultimately show False using S by auto
      qed
      have sk: "char_buffer_seek (Some c) (Some t) = (0, Some ?c)"
        using Some False init t by (simp add: char_buffer_seek_def)
      have ex: "\<exists>pre post. ?d = pre @ t @ post" using e by blast
      have first: "\<exists>pre. ?d = pre @ t @ cb_contents ?c \<and> (\<forall>p q. ?d = p @ t @ q \<longrightarrow> length pre \<le> length p)"
        using e least by blast
      show ?thesis
        unfolding sk if_P [OF ex] using c'(1) first by blast
    qed
  qed
qed

end
