(* ===== verification/Container_Properties.thy ===== *)
theory Container_Properties
  imports Element_Queue Comm_Queue Msg_Queue Char_Buf
begin

text \<open>
  The properties of the containers of \<open>common/queue\<close> and \<open>common/cbuf\<close>. The three queues
  implement the contract \<open>fifo\<close> of the theory Fifo; what is stated of their runs comes from
  the locale through the interpretations \<open>elq\<close>, \<open>cmq\<close> and \<open>msq\<close>.
\<close>

section \<open>The element queue\<close>

text \<open>Any mix of puts and gets on a fresh element queue faults nowhere and gets the
  answers of a list that takes up to \<open>num\<close> elements of up to \<open>sz\<close> bytes: what comes out, followed by
  what the ring holds, is what was accepted, in order and unchanged, also when its indices have
  wrapped around.\<close>

lemma element_queue_is_fifo:
  assumes "queue_init True True num sz = Some q"
  shows "\<exists>rs r. fifo_run eq_put eq_get ops q = Inr (rs, r)
    \<and> rs = fst (list_run (\<lambda>xs b. length xs < num \<and> length b \<le> sz) ops [])
    \<and> accepted ops rs = taken rs @ eq_contents r"
proof -
  have "eq_ring num sz q" "eq_contents q = []"
    using eq_init_inv [OF assms] assms by (auto simp: eq_ring_def queue_init_def split: if_splits)
  from elq.run_from_empty [OF this, of ops] show ?thesis by (auto simp: eq_room_def [abs_def])
qed

lemma element_queue_is_fifo_witness:
  "\<exists>q r. queue_init True True 2 4 = Some q
    \<and> fifo_run eq_put eq_get [Put [1], Put [2], Put [3], Get, Put [4, 4, 4, 4, 4], Put [4], Get, Get, Get] q
        = Inr ([Accepted, Accepted, Refused, Taken [1], Refused, Accepted, Taken [2], Taken [4], Nothing], r)
    \<and> eq_contents r = []"
proof -
  let ?ops = "[Put [1], Put [2], Put [3], Get, Put [4, 4, 4, 4, 4], Put [4], Get, Get, Get]"
  obtain q where q: "queue_init True True 2 4 = Some q" by (simp add: queue_init_def)
  from element_queue_is_fifo [OF q, of ?ops] show ?thesis using q by (auto simp del: fifo_run.simps)
qed

text \<open>A put is refused exactly when the ring is full or the element is larger than a
  slot, and never truncates an element.\<close>

lemma element_queue_refuses_iff:
  assumes "eq_inv q"
  shows "(\<exists>q'. eq_put q b = Inr (False, q')) \<longleftrightarrow> freeNum q = 0 \<or> length b > elementSize q"
    "\<exists>r. eq_put q b = Inr r"
  using put_contract [OF assms, of b] put_refuses [of q b]
  by (cases "freeNum q = 0 \<or> length b > elementSize q"; force simp: not_le)+

lemma element_queue_refuses_iff_witness:
  "\<exists>q. queue_init True True 1 2 = Some q \<and> (\<exists>q'. eq_put q [1, 2, 3] = Inr (False, q'))
    \<and> (\<nexists>q'. eq_put q [1, 2] = Inr (False, q'))"
proof -
  obtain q where q: "queue_init True True 1 2 = Some q" "freeNum q = 1" "elementSize q = 2"
    by (simp add: queue_init_def)
  have "eq_inv q" using eq_init_inv [OF q(1)] by simp
  from element_queue_refuses_iff(1) [OF this, of "[1, 2, 3]"] element_queue_refuses_iff(1) [OF this, of "[1, 2]"] q
  show ?thesis by simp
qed

section \<open>The communication queue\<close>



text \<open>The limit of fifty messages holds only at the head. A push at the head of a queue
  that holds fifty or more is refused and changes nothing, a push at the tail is accepted however
  many messages wait.\<close>

lemma comm_queue_limit_at_head_only:
  assumes "cq_inv s" "setdata s \<noteq> []" "current_length s \<ge> 50"
  shows "COMM_API_queue_push_head (\<lambda>_. True) (Some s) = Inr (-1, Some s)
    \<and> (\<exists>s'. COMM_API_queue_push_tail (\<lambda>_. True) (Some s) = Inr (0, Some s') \<and> current_length s' = current_length s + 1)"
  using push_head_limit [OF assms(3)] push_tail_no_limit [OF assms(1,2)] assms(1)
  by (auto simp: cq_inv_def split: option.splits)

fun push_many :: "nat \<Rightarrow> comm_que \<Rightarrow> comm_que" where
  "push_many 0 s = s"
| "push_many (Suc n) s = (case que_put (push_many n s) [7] of Inr (True, t) \<Rightarrow> t | _ \<Rightarrow> push_many n s)"

lemma cq_inv_setdata [simp]: "cq_inv (s\<lparr>setdata := d\<rparr>) = cq_inv s"
  by (simp add: cq_inv_def split: option.split)

lemma push_many_inv:
  "cq_inv s \<Longrightarrow> cq_inv (push_many n s) \<and> current_length (push_many n s) = current_length s + int n"
proof (induction n)
  case (Suc n)
  let ?t = "push_many n s"
  obtain u where u: "COMM_API_queue_push_tail (\<lambda>_. True) (Some (?t\<lparr>setdata := [7]\<rparr>)) = Inr (0, Some u)"
    "current_length u = current_length ?t + 1"
    using push_tail_no_limit [of "?t\<lparr>setdata := [7]\<rparr>"] Suc by auto
  then have "que_put ?t [7] = Inr (True, u)" by (simp add: que_put_def)
  with que_put_law [of ?t "[7]"] u(2) Suc show ?case by simp
qed simp

lemma comm_queue_limit_at_head_only_witness:
  "\<exists>s. cq_inv s \<and> current_length s = 60 \<and> COMM_API_queue_push_head (\<lambda>_. True) (Some s) = Inr (-1, Some s)"
proof -
  let ?s = "\<lparr>setdata = [7], getdata = [], current_length = 0, que = COMM_queue_new True\<rparr>"
  have "cq_inv ?s"
    by (auto simp: cq_inv_def COMM_queue_new_def dq_inv_def dq_contents_def intro!: exI [of _ "[]"])
       (simp add: dq_rep_def)
  then have i: "cq_inv (push_many 60 ?s)" "current_length (push_many 60 ?s) = 60"
    using push_many_inv [of ?s 60] by simp_all
  let ?t = "(push_many 60 ?s)\<lparr>setdata := [7]\<rparr>"
  have "cq_inv ?t" "setdata ?t \<noteq> []" "current_length ?t \<ge> 50" "current_length ?t = 60" using i by simp_all
  with comm_queue_limit_at_head_only [of ?t] show ?thesis by blast
qed

section \<open>The message queue\<close>

text \<open>C33 (refinement): any mix of puts and gets on a fresh message queue, each message in a node of
  its own, faults nowhere: no operation follows a null link or a link to a released node. A put is
  accepted exactly when the queue has no limit or holds fewer messages than it, a get answers the
  oldest message and nothing only when none waits; so messages come out in order, each once and
  unchanged, also after the queue was emptied.\<close>

theorem message_queue_is_fifo:
  assumes "msg_queue_init (Some g) n = Some s" "\<not> minit g"
  shows "\<exists>rs r. fifo_run mq_put mq_get ops (\<lambda>_. None, 0, s) = Inr (rs, r)
    \<and> rs = fst (list_run (\<lambda>xs _. n \<le> 0 \<or> int (length xs) < n) ops [])
    \<and> accepted ops rs = taken rs @ mq_contents r"
proof -
  have "s = \<lparr>minit = True, node_count = 0, max_node_count = n, mhead = None, mtail = None\<rparr>"
    using assms(1,2) by (simp add: msg_queue_init_def)
  then have "mq_inv n (\<lambda>_. None, 0, s)" "mq_contents (\<lambda>_. None, 0, s) = []"
    by (auto simp: mq_inv_def mq_rep_def mq_contents_def intro!: exI [of _ "[]"])
  from msq.run_from_empty [OF this, of ops] show ?thesis by (auto simp: mq_room_def [abs_def])
qed

definition memo :: "int \<Rightarrow> msg_data" where
  "memo t = \<lparr>mtype = t, mlength = 0, timestamp_ms = 0, mdata = []\<rparr>"

theorem message_queue_is_fifo_witness:
  "\<exists>s r. msg_queue_init (Some \<lparr>minit = False, node_count = 5, max_node_count = 5, mhead = None, mtail = None\<rparr>) 2 = Some s
    \<and> fifo_run mq_put mq_get [Put (memo 1), Put (memo 2), Put (memo 3), Get, Get, Get, Put (memo 4), Put (memo 5), Get]
        (\<lambda>_. None, 0, s)
      = Inr ([Accepted, Accepted, Refused, Taken (memo 1), Taken (memo 2), Nothing, Accepted, Accepted, Taken (memo 4)], r)
    \<and> mq_contents r = [memo 5]"
proof -
  let ?g = "\<lparr>minit = False, node_count = 5, max_node_count = 5, mhead = None, mtail = None\<rparr>"
  let ?ops = "[Put (memo 1), Put (memo 2), Put (memo 3), Get, Get, Get, Put (memo 4), Put (memo 5), Get]"
  obtain s where s: "msg_queue_init (Some ?g) 2 = Some s" by (simp add: msg_queue_init_def)
  from message_queue_is_fifo [OF s, of ?ops] s show ?thesis by (auto simp: eq_commute [of "[memo 5]"] simp del: fifo_run.simps)
qed

section \<open>The byte buffer\<close>

text \<open>The byte buffer is a stream: a write that can grow the buffer appends all
  its bytes, one that cannot appends what fits and still reports success; a read takes the oldest
  bytes, as many as asked for and present, and leaves the rest.\<close>

lemma byte_buffer_is_stream:
  assumes "cb_inv c" "n \<le> length d"
  shows "\<exists>c'. char_buffer_write ok (Some c) (Some d) (int n) = Inr (0, Some c') \<and> cb_inv c'
    \<and> cb_contents c' = cb_contents c @ take (if ok then n else min n (max_size c - cur_size c)) d
    \<and> (\<exists>c''. char_buffer_read (Some c') True (int m) =
          Inr (int (min m (length (cb_contents c'))), take m (cb_contents c'), Some c'')
        \<and> cb_inv c'' \<and> cb_contents c'' = drop m (cb_contents c'))"
proof -
  obtain c' where "char_buffer_write ok (Some c) (Some d) (int n) = Inr (0, Some c')" "cb_inv c'"
    "cb_contents c' = cb_contents c @ take (if ok then n else min n (max_size c - cur_size c)) d"
    using write_ok [OF assms] write_no_memory [OF assms] by (cases ok) auto
  with read_spec [of c' m] show ?thesis by blast
qed

lemma byte_buffer_is_stream_witness:
  "\<exists>c c' c''. char_buffer_init (\<lambda>_. True) True 2 = Some c
    \<and> char_buffer_write True (Some c) (Some [1, 2, 3]) 3 = Inr (0, Some c')
    \<and> char_buffer_read (Some c') True 2 = Inr (2, [1, 2], Some c'') \<and> cb_contents c'' = [3]"
proof -
  obtain c where c: "char_buffer_init (\<lambda>_. True) True 2 = Some c" by (simp add: char_buffer_init_def)
  then have i: "cb_inv c" "cb_contents c = []" using cb_init_inv by blast+
  have l: "3 \<le> length [1, 2, 3 :: u8]" by simp
  show ?thesis
    using byte_buffer_is_stream [OF i(1) l, of True 2] c by (auto simp: i(2))
qed

text \<open>A seek finds the first occurrence of the target and drops everything up to
  and including it; when the target does not occur nothing changes.\<close>

lemma seek_finds_first:
  assumes "cb_inv c" "t \<noteq> []"
  shows "\<exists>r c'. char_buffer_seek (Some c) (Some t) = (r, Some c') \<and> cb_inv c' \<and>
    (if \<exists>pre post. cb_contents c = pre @ t @ post
     then r = 0 \<and> (\<exists>pre. cb_contents c = pre @ t @ cb_contents c'
            \<and> (\<forall>p q. cb_contents c = p @ t @ q \<longrightarrow> length pre \<le> length p))
     else r = -1 \<and> c' = c)"
  using seek_spec [OF assms] .

lemma seek_finds_first_witness:
  "\<exists>c. char_buffer_seek (Some \<lparr>cb_init = True, max_size = 4, cur_size = 4, cbytes = [9, 1, 2, 7]\<rparr>) (Some [5]) = (-1, Some c)"
proof -
  let ?c = "\<lparr>cb_init = True, max_size = 4, cur_size = 4, cbytes = [9, 1, 2, 7]\<rparr>"
  have i: "cb_inv ?c" by (simp add: cb_inv_def)
  have n: "\<not> (\<exists>pre post. cb_contents ?c = pre @ [5] @ post)"
  proof
    assume "\<exists>pre post. cb_contents ?c = pre @ [5] @ post"
    then have "5 \<in> set (cb_contents ?c)" by fastforce
    then show False by (simp add: cb_contents_def)
  qed
  show ?thesis using seek_finds_first [OF i, of "[5]"] n by auto
qed

end
