(* ===== verification/Client_Properties.thy ===== *)
theory Client_Properties
  imports Tcp_Client
begin

text \<open>
  The properties of the client side of the repeater: the AES wrapper (\<open>wo_aes.c\<close>), the
  registry (\<open>repeater_aes.c\<close>), the socket helpers (\<open>common_sock.c\<close>), the key files
  (\<open>aes_key_gen.c\<close>) and the hello exchange (\<open>tcp_client.c\<close>). The block cipher is a
  parameter; the witnesses take the identity, which satisfies the law the properties rely on.
\<close>

definition id_cipher :: cipher where
  "id_cipher k v p = Some p"

lemma id_cipher_pair: "cbc_pair id_cipher id_cipher"
  by (simp add: cbc_pair_def id_cipher_def)

section \<open>Encryption\<close>

text \<open>C32 (roundtrip): a text of at most 335 bytes, encrypted with an initialised context and
  decrypted with a context of the same key and iv, comes back unchanged, padding removed.\<close>

theorem encrypted_text_decrypts:
  assumes "is_init enc \<noteq> 0" "length (aes_key enc) = 16" "length (aes_iv enc) = 16" "cbc_pair ce cd"
    "length m < 336" "get_aes_enc_out_len (length m) \<le> length out"
    "is_init dec \<noteq> 0" "aes_key dec = aes_key enc" "aes_iv dec = aes_iv enc"
    "get_aes_enc_out_len (length m) \<le> length out2"
  shows "\<exists>n c out2'. aes_encrypo_data ce enc m (length m) out = Inr (n, c)
    \<and> aes_decrypo_data cd (Some dec) (Some c) n out2 = Inr (int (length m), out2')
    \<and> take (length m) out2' = m"
  using assms by (rule aes_round_trip)

definition aes0 :: aes_ctx where
  "aes0 = \<lparr>is_init = 1, aes_key = replicate 16 7, aes_iv = replicate 16 9\<rparr>"

theorem encrypted_text_decrypts_witness:
  "\<exists>n c out2'. aes_encrypo_data id_cipher aes0 (replicate 3 1) 3 (replicate 16 0) = Inr (n, c)
    \<and> aes_decrypo_data id_cipher (Some aes0) (Some c) n (replicate 16 0) = Inr (3, out2') \<and> take 3 out2' = replicate 3 1"
  using encrypted_text_decrypts [of aes0 id_cipher id_cipher "replicate 3 1" "replicate 16 0" aes0 "replicate 16 0"] id_cipher_pair
  by (simp add: aes0_def get_aes_enc_out_len_def AES_BLOCK_SIZE_def)

text \<open>Encrypting a text of 336 bytes or more always faults: the hexadecimal dump of the
  result does not fit its buffer of 1024 characters, even when the caller's buffers are large enough.\<close>

lemma long_text_overruns_dump:
  assumes "is_init enc \<noteq> 0" "336 \<le> n"
  shows "\<exists>e. aes_encrypo_data ce enc m n out = Inl e"
  using assms by (rule encrypo_data_overrun)

lemma long_text_overruns_dump_witness:
  "\<exists>e. aes_encrypo_data id_cipher aes0 (replicate 400 1) 400 (replicate 500 0) = Inl e"
  using long_text_overruns_dump [of aes0 400] by (simp add: aes0_def)

section \<open>The registry\<close>

text \<open>Both text forms of a MAC address, with and without colons, parse back to the
  six bytes, whatever the destination held before.\<close>

lemma mac_text_round_trip:
  assumes "length m = 6" "length m' = 6" "18 \<le> n"
  shows "str2mac (Some (mat2str (Some m) n)) m' = (0, m) \<and> str2mac (Some (mat2str_raw (Some m) n)) m' = (0, m)"
  using str2mac_mat2str [OF assms] str2mac_mat2str_raw [OF assms] ..

lemma mac_text_round_trip_witness:
  "str2mac (Some (mat2str (Some [0xAA, 0, 1, 2, 0x3F, 0xFF]) 18)) (replicate 6 0) = (0, [0xAA, 0, 1, 2, 0x3F, 0xFF])"
  using mac_text_round_trip [of "[0xAA, 0, 1, 2, 0x3F, 0xFF]" "replicate 6 0" 18] by simp

text \<open>updating a registered MAC merges the given fields into its entry and
  returns 0; updating an unknown one appends it while there is room, and returns -1 all the same.
  The registry stays a list of at most five entries with distinct MACs.\<close>

lemma update_merges_or_appends:
  assumes "reg_inv ctx" "repeater_update_quadruples ctx (Some qd) = (r, ctx')"
  shows "reg_inv ctx' \<and>
    (if mac qd \<in> mac ` set (entries ctx)
     then r = 0 \<and> entries ctx' = map (\<lambda>q. if mac q = mac qd then merge_quad q qd else q) (entries ctx)
     else r = -1 \<and> entries ctx' = (if client_count ctx < 5 then entries ctx @ [qd] else entries ctx))"
  using update_quadruples_spec [OF assms] by (simp add: MAX_AES_KEY_NUM_def)

definition quad :: "u8 \<Rightarrow> quadruples" where
  "quad x = \<lparr>ip = 1, mac = replicate 6 x, qkey = replicate 16 1, qiv = replicate 16 2\<rparr>"

lemma ctx_init_inv: "reg_inv ctx_init" "entries ctx_init = []"
  by (simp_all add: reg_inv_def ctx_init_def entries_def)

definition ctx2 :: repeater_ctx where
  "ctx2 = snd (repeater_update_quadruples (snd (repeater_update_quadruples ctx_init (Some (quad 1)))) (Some (quad 2)))"

lemma quad_mac [simp]: "mac (quad a) = mac (quad b) \<longleftrightarrow> a = b"
  by (simp add: quad_def)

lemma ctx2_inv: "reg_inv ctx2" "entries ctx2 = [quad 1, quad 2]"
proof -
  obtain r1 c1 where 1: "repeater_update_quadruples ctx_init (Some (quad 1)) = (r1, c1)" by fastforce
  have i1: "reg_inv c1" "entries c1 = [quad 1]"
    using update_quadruples_spec [OF ctx_init_inv(1) 1] ctx_init_inv(2) by (simp_all add: ctx_init_def MAX_AES_KEY_NUM_def)
  obtain r2 c2 where 2: "repeater_update_quadruples c1 (Some (quad 2)) = (r2, c2)" by fastforce
  have "client_count c1 = 1" using length_entries [OF i1(1)] i1(2) by simp
  then show "reg_inv ctx2" "entries ctx2 = [quad 1, quad 2]"
    using update_quadruples_spec [OF i1(1) 2] i1(2) 1 2 by (simp_all add: ctx2_def MAX_AES_KEY_NUM_def)
qed

lemma update_merges_or_appends_witness:
  "\<exists>ctx'. repeater_update_quadruples ctx2 (Some (quad 3)) = (-1, ctx') \<and> entries ctx' = [quad 1, quad 2, quad 3]"
proof -
  obtain r ctx' where u: "repeater_update_quadruples ctx2 (Some (quad 3)) = (r, ctx')" by fastforce
  have "client_count ctx2 = 2" using length_entries [OF ctx2_inv(1)] ctx2_inv(2) by simp
  with update_merges_or_appends [OF ctx2_inv(1) u] show ?thesis by (simp add: ctx2_inv(2) u)
qed

text \<open>deleting a MAC removes exactly its entry, returns 0 if there was one and -1
  if not, keeps the order of the others, and a later lookup finds every other client as before and
  the deleted one not at all.\<close>

lemma delete_removes_client:
  assumes "reg_inv ctx" "repeater_del_quadruples ctx (Some m) = (r, ctx')"
  shows "entries ctx' = filter (\<lambda>q. mac q \<noteq> m) (entries ctx) \<and> reg_inv ctx'
    \<and> r = (if m \<in> mac ` set (entries ctx) then 0 else -1)
    \<and> repeater_get_quadruples ctx' (Some m) = None
    \<and> (\<forall>x. x = m \<or> repeater_get_quadruples ctx' (Some x) = repeater_get_quadruples ctx (Some x))"
proof -
  have d: "entries ctx' = filter (\<lambda>q. mac q \<noteq> m) (entries ctx)" "reg_inv ctx'"
    "r = (if m \<in> mac ` set (entries ctx) then 0 else -1)"
    using del_quadruples_spec [OF assms] by simp_all
  have g: "repeater_get_quadruples ctx' (Some x) = Some q \<longleftrightarrow> x \<noteq> m \<and> repeater_get_quadruples ctx (Some x) = Some q" for x q
    using get_quadruples_iff [OF d(2), of x q] get_quadruples_iff [OF assms(1), of x q] d(1) by auto
  have "repeater_get_quadruples ctx' (Some m) = None" using g by (metis option.exhaust)
  moreover have "repeater_get_quadruples ctx' (Some x) = repeater_get_quadruples ctx (Some x)" if "x \<noteq> m" for x
    using g [of x] that by (cases "repeater_get_quadruples ctx (Some x)") (metis option.exhaust, auto)
  ultimately show ?thesis using d by blast
qed

lemma delete_removes_client_witness:
  "\<exists>ctx'. repeater_del_quadruples ctx2 (Some (replicate 6 1)) = (0, ctx') \<and> entries ctx' = [quad 2]"
proof -
  obtain r ctx' where u: "repeater_del_quadruples ctx2 (Some (replicate 6 1)) = (r, ctx')" by fastforce
  from delete_removes_client [OF ctx2_inv(1) u] show ?thesis by (simp add: ctx2_inv(2) u quad_def)
qed

text \<open>Synchronising with a list of MACs in text form keeps exactly the clients
  that are in the list, in order.\<close>

lemma parse_texts:
  "cnt + length ms \<le> 5 \<Longrightarrow> length macs = 5 \<Longrightarrow> \<forall>m \<in> set macs \<union> set ms. length m = 6 \<Longrightarrow>
    parse_macs (map (\<lambda>m. Some (mat2str (Some m) 18)) ms) macs cnt cnt =
      (take cnt macs @ ms @ drop (cnt + length ms) macs, cnt + length ms)"
proof (induction ms arbitrary: macs cnt)
  case Nil
  then show ?case by simp
next
  case (Cons m ms)
  have "str2mac (Some (mat2str (Some m) 18)) (macs ! cnt) = (0, m)"
    using Cons.prems by (intro str2mac_mat2str) auto
  moreover have "\<forall>x \<in> set (macs[cnt := m]) \<union> set ms. length x = 6"
    using Cons.prems(3) set_update_subset_insert [of macs cnt m] by auto
  ultimately show ?case
    using Cons.IH [of "Suc cnt" "macs[cnt := m]"] Cons.prems
    by (simp add: MAX_AES_KEY_NUM_def take_Suc_conv_app_nth)
qed

lemma sync_keeps_listed:
  assumes "reg_inv ctx" "ms \<noteq> []" "length ms \<le> 5" "\<forall>m \<in> set ms. length m = 6"
    "repeater_sync_quadruples ctx (Some (map (\<lambda>m. Some (mat2str (Some m) 18)) ms)) (int (length ms)) = (r, ctx')"
  shows "r = 0 \<and> reg_inv ctx' \<and> entries ctx' = filter (\<lambda>q. mac q \<in> set ms) (entries ctx)"
proof -
  have "parse_macs (map (\<lambda>m. Some (mat2str (Some m) 18)) ms) (replicate MAX_AES_KEY_NUM (replicate 6 0)) 0 0 =
      (ms @ drop (length ms) (replicate 5 (replicate 6 0)), length ms)"
    using parse_texts [of 0 ms "replicate 5 (replicate 6 0)"] assms(3,4) by (auto simp: MAX_AES_KEY_NUM_def)
  then show ?thesis
    using sync_quadruples_spec [OF assms(1), of "int (length ms)" "map (\<lambda>m. Some (mat2str (Some m) 18)) ms"] assms(2,5)
    by auto
qed

lemma sync_keeps_listed_witness:
  "\<exists>ctx'. repeater_sync_quadruples ctx2 (Some [Some (mat2str (Some (replicate 6 2)) 18)]) 1 = (0, ctx') \<and> entries ctx' = [quad 2]"
proof -
  obtain r ctx' where u: "repeater_sync_quadruples ctx2 (Some [Some (mat2str (Some (replicate 6 2)) 18)]) 1 = (r, ctx')"
    by fastforce
  from sync_keeps_listed [OF ctx2_inv(1), of "[replicate 6 2]" r ctx'] u show ?thesis
    by (simp add: ctx2_inv(2) quad_def)
qed

section \<open>Sockets and files\<close>

text \<open>The send loop puts a prefix of the data on the wire, exactly the count it
  reports, and the whole of it when it returns 0, however the kernel splits or interrupts it.\<close>

lemma send_puts_prefix:
  assumes "Comm_sock_send_data rs fd (Some dat) (length dat) = Some (r, real, b, rs')"
    "sends_fit rs (length dat)" "fd \<noteq> 0"
  shows "b = take real dat \<and> (r = 0 \<longrightarrow> b = dat)"
  using assms by (rule send_data_spec)

lemma send_puts_prefix_witness:
  "Comm_sock_send_data [SendOk 2, SendErr EINTR, SendOk 3] 4 (Some (replicate 5 7)) 5 = Some (0, 5, replicate 5 7, [])"
proof -
  obtain r real b rs' where
    u: "Comm_sock_send_data [SendOk 2, SendErr EINTR, SendOk 3] 4 (Some (replicate 5 7)) (length (replicate 5 (7 :: u8))) =
      Some (r, real, b, rs')" "r = 0" "real = 5" "rs' = []"
    by (simp add: Comm_sock_send_data_def)
  from send_puts_prefix [OF u(1)] u show ?thesis by simp
qed

text \<open>the receive loop never stores more bytes than asked for, and returns 0 only
  with all of them; its other results are -1 and -2.\<close>

lemma recv_is_exact:
  assumes "Comm_sock_recv_data rs sockfd b need = Some (r, got, rs')" "recvs_fit rs (nat need)"
  shows "int (length got) \<le> max 0 need \<and> (r = 0 \<longrightarrow> int (length got) = need) \<and> r \<in> {0, -1, -2}"
proof (cases "b \<and> sockfd > 0 \<and> need > 0")
  case True
  then have "recv_loop rs (nat need) 3 [] = Some (r, got, rs')" using assms(1) by (simp add: Comm_sock_recv_data_def)
  from recv_loop_spec [OF this] assms(2) True show ?thesis by auto
qed (use assms(1) in \<open>auto simp: Comm_sock_recv_data_def\<close>)

lemma recv_is_exact_witness:
  "Comm_sock_recv_data [RecvOk [1, 2], RecvErr EINTR 0, RecvOk [3]] 4 True 3 = Some (0, [1, 2, 3], [])"
proof -
  have r: "Comm_sock_recv_data [RecvOk [1, 2], RecvErr EINTR 0, RecvOk [3]] 4 True 3 = Some (0, [1, 2, 3], [])"
    by (simp add: Comm_sock_recv_data_def)
  from recv_is_exact [OF r] r show ?thesis by simp
qed

text \<open>The key that \<open>aes_generate_and_save_key_string\<close> wrote successfully is the
  one \<open>aes_load_key_from_file\<close> reads, and it consists of letters and digits.\<close>

lemma saved_key_loads:
  assumes "aes_generate_and_save_key_string rands True (Some n) = (0, Some content)" "length k = 16"
  shows "aes_load_key_from_file (Some k) True (Some (Some content)) = (0, Some (key_chars rands))
    \<and> set (key_chars rands) \<subseteq> set charset"
  using assms by (rule save_load_key)

lemma saved_key_loads_witness:
  "\<exists>content. aes_generate_and_save_key_string (replicate 16 3) True (Some 16) = (0, Some content)
    \<and> fst (aes_load_key_from_file (Some (replicate 16 0)) True (Some (Some content))) = 0"
proof -
  have "aes_generate_and_save_key_string (replicate 16 3) True (Some 16) = (0, Some (key_chars (replicate 16 3)))"
    using c_string_key [of "replicate 16 3" "[]"] key_chars_facts(1) [of "replicate 16 3"]
    by (simp add: aes_generate_and_save_key_string_def generate_key_eq)
  from saved_key_loads [OF this, of "replicate 16 0"] this show ?thesis by simp
qed

end
