(* ===== verification/Hello_Properties.thy ===== *)
theory Hello_Properties
  imports Client_Properties
begin

text \<open>
  The properties of the hello exchange of \<open>tcp_client.c\<close>: the frame format, when the exchange
  reports success, and what it does when the network fails.
\<close>

text \<open>The environments of the witnesses: everything local succeeds, the network answers as given.\<close>

definition hello_env0 :: "int \<Rightarrow> send_res list \<Rightarrow> recv_res list \<Rightarrow> hello_env" where
  "hello_env0 sel ss rs = \<lparr>e_calloc = True, e_fd = 3, e_buf = True, e_pton = True, e_connect = ConnOk,
     e_rands = replicate 16 0, e_addr = 1, e_alloc = (\<lambda>_. True), e_junk = (\<lambda>_. replicate 64 0),
     e_now = (\<lambda>_. 0), e_select = sel, e_sends = ss, e_recvs = rs\<rparr>"

lemma env0_setup: "hello_setup (hello_env0 sel ss rs) (Some [49]) (replicate 6 1) (replicate 16 5)"
  by (simp add: hello_setup_def hello_env0_def env_ok_def c_string_def)

lemma env0_fields: "e_sends (hello_env0 sel ss rs) = ss" "e_recvs (hello_env0 sel ss rs) = rs" "e_select (hello_env0 sel ss rs) = sel"
  by (simp_all add: hello_env0_def)

definition hello_frame :: "u32 \<Rightarrow> tcp_frame" where
  "hello_frame n = \<lparr>head = MAGIC_HEAD, frameType = TCP_FRAME_TYPE_SERVER_HELLO, frameSize = n, timestamp = 0,
     randomData = replicate 16 0, frameMac = replicate 6 0, reserved = replicate 10 0, frameData = []\<rparr>"

lemma hello_frame_ok: "frame_ok (hello_frame n)" "frame_of (frame_bytes (hello_frame n)) = hello_frame n"
  "length (frame_bytes (hello_frame n)) = 48"
proof -
  show ok: "frame_ok (hello_frame n)" by (simp add: frame_ok_def hello_frame_def)
  show "frame_of (frame_bytes (hello_frame n)) = hello_frame n" using frame_round_trip [OF ok] .
  show "length (frame_bytes (hello_frame n)) = 48" using length_frame_bytes [OF ok] by (simp add: hello_frame_def)
qed

text \<open>Reading the memory image of a frame as the receiver does gives the frame
  back, every field at its width and the payload behind the 48-byte header.\<close>

lemma frame_reads_back:
  assumes "length (randomData f) = 16" "length (frameMac f) = 6" "length (reserved f) = 10"
  shows "frame_of (frame_bytes f) = f \<and> length (frame_bytes f) = 48 + length (frameData f)"
proof -
  have "frame_ok f" using assms by (simp add: frame_ok_def)
  then show ?thesis using frame_round_trip length_frame_bytes by simp
qed

lemma frame_reads_back_witness: "frame_of (frame_bytes ((hello_frame 2)\<lparr>frameData := [8, 9]\<rparr>)) = (hello_frame 2)\<lparr>frameData := [8, 9]\<rparr>"
  using frame_reads_back [of "(hello_frame 2)\<lparr>frameData := [8, 9]\<rparr>"] by (simp add: hello_frame_def)

text \<open>C8 (functional): with a server that answers with the encrypted server hello, the exchange
  returns 0, has sent exactly two frames (the client hello and the acknowledgement, each decrypting
  to its text under the agreed key and the iv announced in the first one), and released the client.\<close>

theorem honest_exchange_succeeds:
  assumes "hello_setup env ip_text m key" "cbc_pair ce cd" "e_sends env = SendOk 64 # SendOk 80 # rest"
    "e_select env > 0" "e_recvs env = RecvOk hdr # RecvOk reply # later" "length hdr = 48" "head (frame_of hdr) = MAGIC_HEAD"
    "frameType (frame_of hdr) = TCP_FRAME_TYPE_SERVER_HELLO" "frameSize (frame_of hdr) = 16" "length reply = 16"
    "cd (take 16 key) (key_chars (e_rands env)) reply = Some (padded SERVER_HELLO)"
  shows "\<exists>s' p q. tcp_client_send_hello ce cd env ctx ip_text m master key = Done (0, Some s', hello_ctx env ctx m master key)
    \<and> freed (client s')
    \<and> wire s' = frame_bytes (sent_frame (e_junk env 2) (e_now env 0) (hello_ctx env ctx m master key) TCP_FRAME_TYPE_CLIENT_HELLO p)
        @ frame_bytes (sent_frame (e_junk env 6) (e_now env 1) (hello_ctx env ctx m master key) TCP_FRAME_TYPE_SERVER_HELLO_ACK q)
    \<and> cd (take 16 key) (key_chars (e_rands env)) p = Some (padded CLIENT_HELLO)
    \<and> cd (take 16 key) (key_chars (e_rands env)) q = Some (padded SERVER_HELLO_ACK)"
  using assms by (rule hello_honest)

lemma padded_hello_length: "length (padded SERVER_HELLO) = 16"
  by (simp add: padded_def hello_lengths)

theorem honest_exchange_succeeds_witness:
  "\<exists>s'. tcp_client_send_hello id_cipher id_cipher
      (hello_env0 1 [SendOk 64, SendOk 80] [RecvOk (frame_bytes (hello_frame 16)), RecvOk (padded SERVER_HELLO)])
      ctx_init (Some [49]) (replicate 6 1) (replicate 6 2) (replicate 16 5) = Done (0, Some s',
        hello_ctx (hello_env0 1 [SendOk 64, SendOk 80] [RecvOk (frame_bytes (hello_frame 16)), RecvOk (padded SERVER_HELLO)])
          ctx_init (replicate 6 1) (replicate 6 2) (replicate 16 5))
    \<and> freed (client s')"
proof -
  let ?e = "hello_env0 1 [SendOk 64, SendOk 80] [RecvOk (frame_bytes (hello_frame 16)), RecvOk (padded SERVER_HELLO)]"
  have f: "e_sends ?e = SendOk 64 # SendOk 80 # []" "e_select ?e > 0"
    "e_recvs ?e = RecvOk (frame_bytes (hello_frame 16)) # RecvOk (padded SERVER_HELLO) # []"
    by (simp_all add: env0_fields)
  have h: "head (frame_of (frame_bytes (hello_frame 16))) = MAGIC_HEAD"
    "frameType (frame_of (frame_bytes (hello_frame 16))) = TCP_FRAME_TYPE_SERVER_HELLO"
    "frameSize (frame_of (frame_bytes (hello_frame 16))) = 16"
    unfolding hello_frame_ok by (simp_all add: hello_frame_def)
  have d: "id_cipher (take 16 (replicate 16 5)) (key_chars (e_rands ?e)) (padded SERVER_HELLO) = Some (padded SERVER_HELLO)"
    by (simp add: id_cipher_def)
  from honest_exchange_succeeds [OF env0_setup id_cipher_pair f hello_frame_ok(3) h padded_hello_length d]
  show ?thesis by blast
qed

text \<open>C9 (safety): once the server's frame is there, the exchange reports success only if the header
  has the magic number and the type of a server hello and, unless it announces an empty payload,
  the payload decrypts under the agreed key to a text that starts with the server hello.\<close>

theorem reply_authenticates:
  assumes "ctx_ok ctx" "handle_reply ce cd env ctx s = Done (0, s')"
  shows "\<exists>hdr s1. tcp_client_recv_data s (cbuffer (client s) \<noteq> None) (int (bufferSize (client s))) 48 = Done (48, hdr, s1)
    \<and> head (frame_of hdr) = MAGIC_HEAD \<and> frameType (frame_of hdr) = TCP_FRAME_TYPE_SERVER_HELLO
    \<and> (frameSize (frame_of hdr) = 0 \<or>
        (\<exists>got s2 p. tcp_client_recv_data s1 (cbuffer (client s1) \<noteq> None) (int (bufferSize (client s1) - 48))
              (int (unat (frameSize (frame_of hdr)))) = Done (int (length got), got, s2)
           \<and> cd (qkey (client_quadruples ctx)) (qiv (client_quadruples ctx)) got = Some p
           \<and> take 12 (p @ drop (length got) (replicate 256 0)) = SERVER_HELLO))"
  using assms by (rule handle_reply_auth)

definition session0 :: "send_res list \<Rightarrow> recv_res list \<Rightarrow> session" where
  "session0 ss rs = \<lparr>client = \<lparr>init = True, sock = 3, server_ip = Some [49], server_port = 1600,
      cbuffer = Some (replicate 2048 0), bufferSize = 2048, connected = True, freed = False\<rparr>,
     wire = [], sends = ss, recvs = rs\<rparr>"

definition hello_ctx0 :: repeater_ctx where
  "hello_ctx0 = hello_ctx (hello_env0 1 [] []) ctx_init (replicate 6 1) (replicate 6 2) (replicate 16 5)"

theorem reply_authenticates_witness:
  "\<exists>s'. handle_reply id_cipher id_cipher (hello_env0 1 [] []) hello_ctx0
      (session0 [SendOk 80] [RecvOk (frame_bytes (hello_frame 16)), RecvOk (padded SERVER_HELLO)]) = Done (0, s')
   \<and> (\<exists>hdr s1. tcp_client_recv_data (session0 [SendOk 80] [RecvOk (frame_bytes (hello_frame 16)), RecvOk (padded SERVER_HELLO)])
        True 2048 48 = Done (48, hdr, s1) \<and> head (frame_of hdr) = MAGIC_HEAD)"
proof -
  let ?s = "session0 [SendOk 80] [RecvOk (frame_bytes (hello_frame 16)), RecvOk (padded SERVER_HELLO)]"
  have c: "client_ok (client ?s)" "cbuffer (client ?s) \<noteq> None" "bufferSize (client ?s) = 2048"
    by (simp_all add: session0_def client_ok_def TCP_CLIENT_BUFFER_SIZE_def)
  have x: "ctx_ok hello_ctx0" unfolding hello_ctx0_def by (rule hello_ctx_ok) simp_all
  have e: "env_ok (hello_env0 1 [] [])" by (simp add: env_ok_def hello_env0_def)
  have r: "recvs ?s = RecvOk (frame_bytes (hello_frame 16)) # RecvOk (padded SERVER_HELLO) # []" "sends ?s = SendOk 80 # []"
    by (simp_all add: session0_def)
  have h: "head (frame_of (frame_bytes (hello_frame 16))) = MAGIC_HEAD"
    "frameType (frame_of (frame_bytes (hello_frame 16))) = TCP_FRAME_TYPE_SERVER_HELLO"
    "frameSize (frame_of (frame_bytes (hello_frame 16))) = 16"
    unfolding hello_frame_ok by (simp_all add: hello_frame_def)
  have d: "id_cipher (qkey (client_quadruples hello_ctx0)) (qiv (client_quadruples hello_ctx0)) (padded SERVER_HELLO) =
      Some (padded SERVER_HELLO)" by (simp add: id_cipher_def)
  obtain s' where s': "handle_reply id_cipher id_cipher (hello_env0 1 [] []) hello_ctx0 ?s = Done (0, s')"
    using handle_reply_honest [OF c(1) x e id_cipher_pair r(1) hello_frame_ok(3) h padded_hello_length d r(2)] by blast
  have "\<exists>hdr s1. tcp_client_recv_data ?s True 2048 48 = Done (48, hdr, s1) \<and> head (frame_of hdr) = MAGIC_HEAD"
    using reply_authenticates [OF x s'] c(2,3) by auto
  with s' show ?thesis by blast
qed

text \<open>the exchange also returns 0, its success value, when no server has proved anything:
  after an error of \<open>select\<close>, and after a server hello that announces an empty payload. Only
  the client hello has been sent then.\<close>

lemma success_without_server:
  assumes "hello_setup env ip_text m key" "cbc_pair ce cd" "e_sends env = SendOk 64 # rest"
    "e_select env < 0 \<or> e_select env > 0 \<and> e_recvs env = RecvOk hdr # later \<and> length hdr = 48
      \<and> head (frame_of hdr) = MAGIC_HEAD \<and> frameType (frame_of hdr) = TCP_FRAME_TYPE_SERVER_HELLO \<and> frameSize (frame_of hdr) = 0"
  shows "\<exists>s'. tcp_client_send_hello ce cd env ctx ip_text m master key = Done (0, Some s', hello_ctx env ctx m master key)
    \<and> length (wire s') = 64"
  using assms(4)
proof
  assume "e_select env < 0"
  then show ?thesis using hello_select_error [OF assms(1-3)] by blast
next
  assume "e_select env > 0 \<and> e_recvs env = RecvOk hdr # later \<and> length hdr = 48
      \<and> head (frame_of hdr) = MAGIC_HEAD \<and> frameType (frame_of hdr) = TCP_FRAME_TYPE_SERVER_HELLO \<and> frameSize (frame_of hdr) = 0"
  then show ?thesis using hello_empty_reply [OF assms(1-3)] by blast
qed

lemma success_without_server_witness:
  "\<exists>s'. tcp_client_send_hello id_cipher id_cipher (hello_env0 (-1) [SendOk 64] []) ctx_init (Some [49])
      (replicate 6 1) (replicate 6 2) (replicate 16 5) = Done (0, Some s',
        hello_ctx (hello_env0 (-1) [SendOk 64] []) ctx_init (replicate 6 1) (replicate 6 2) (replicate 16 5))
    \<and> length (wire s') = 64"
proof -
  have s: "e_sends (hello_env0 (-1) [SendOk 64] []) = SendOk 64 # []" by (simp add: env0_fields)
  show ?thesis
    by (rule success_without_server [OF env0_setup id_cipher_pair s, of "[]" "[]"]) (simp add: env0_fields)
qed

text \<open>when sending the client hello fails, the client block is released twice:
  \<open>tcp_client_send_client_hello\<close> releases it, and so does its caller on the way out.\<close>

lemma send_error_frees_twice:
  assumes "hello_setup env ip_text m key" "cbc_pair ce cd" "e_sends env = SendErr OTHER_ERRNO # rest"
  shows "tcp_client_send_hello ce cd env ctx ip_text m master key = Fault DoubleFree"
  using assms by (rule hello_send_fails)

lemma send_error_frees_twice_witness:
  "tcp_client_send_hello id_cipher id_cipher (hello_env0 1 [SendErr OTHER_ERRNO] []) ctx_init (Some [49])
     (replicate 6 1) (replicate 6 2) (replicate 16 5) = Fault DoubleFree"
  using send_error_frees_twice [OF env0_setup id_cipher_pair, of 1 "[SendErr OTHER_ERRNO]" "[]" "[]"]
  by (simp add: env0_fields)

end
