(* ===== verification/Codec.thy ===== *)
theory Codec
  imports Prelude
begin

text \<open>
  The contract of an encoder and its decoder as locales. \<open>codec\<close>: what is encoded comes back.
  \<open>prefix_codec\<close>: it comes back from the front of a longer input, with exactly the rest left;
  then a sequence of encodings, one behind the other, can be taken apart in one way only.
\<close>

locale codec =
  fixes enc :: "'a \<Rightarrow> bytes"
    and dec :: "bytes \<Rightarrow> 'a option"
    and ok :: "'a \<Rightarrow> bool"
  assumes dec_enc: "ok x \<Longrightarrow> dec (enc x) = Some x"
begin

lemma enc_inj: "ok x \<Longrightarrow> ok y \<Longrightarrow> enc x = enc y \<Longrightarrow> x = y"
  by (metis dec_enc option.inject)

end

fun dec_many :: "(bytes \<Rightarrow> ('a \<times> bytes) option) \<Rightarrow> nat \<Rightarrow> bytes \<Rightarrow> ('a list \<times> bytes) option" where
  "dec_many dec 0 b = Some ([], b)"
| "dec_many dec (Suc n) b =
    (case dec b of None \<Rightarrow> None
     | Some (x, b) \<Rightarrow> (case dec_many dec n b of None \<Rightarrow> None | Some (xs, b) \<Rightarrow> Some (x # xs, b)))"

locale prefix_codec =
  fixes enc :: "'a \<Rightarrow> bytes"
    and pdec :: "bytes \<Rightarrow> ('a \<times> bytes) option"
    and ok :: "'a \<Rightarrow> bool"
  assumes pdec_enc: "ok x \<Longrightarrow> pdec (enc x @ r) = Some (x, r)"
begin

lemma dec_many_enc: "\<forall>x \<in> set xs. ok x
  \<Longrightarrow> dec_many pdec (length xs) (concat (map enc xs) @ r) = Some (xs, r)"
  by (induction xs) (auto simp: pdec_enc)

lemma enc_many_inj:
  assumes "\<forall>x \<in> set xs. ok x" "\<forall>x \<in> set ys. ok x" "length xs = length ys"
    and "concat (map enc xs) @ r = concat (map enc ys) @ s"
  shows "xs = ys \<and> r = s"
  by (metis assms dec_many_enc option.inject prod.inject)

end

sublocale prefix_codec \<subseteq> codec enc "\<lambda>b. map_option fst (pdec b)" ok
  using pdec_enc [where r = "[]"] by unfold_locales simp

end
