(* ===== verification/Base64.thy ===== *)
theory Base64
  imports Memory Codec
begin

text \<open>
  The base-64 codec of \<open>common/base64/base64.c\<close>. The encoder and the decoder write into
  buffers of their caller, so both may fault; the texts and the data are far below \<open>2 ^ 32\<close>
  bytes, so the counters are natural numbers.
\<close>

section \<open>The code\<close>

definition BASE64_PAD :: u8 where "BASE64_PAD = 61"
definition BASE64DE_FIRST :: u8 where "BASE64DE_FIRST = 43"
definition BASE64DE_LAST :: u8 where "BASE64DE_LAST = 122"

definition base64en :: bytes where
  "base64en =
    [65, 66, 67, 68, 69, 70, 71, 72, 73, 74, 75, 76, 77, 78, 79, 80,
     81, 82, 83, 84, 85, 86, 87, 88, 89, 90, 97, 98, 99, 100, 101, 102,
     103, 104, 105, 106, 107, 108, 109, 110, 111, 112, 113, 114, 115, 116, 117, 118,
     119, 120, 121, 122, 48, 49, 50, 51, 52, 53, 54, 55, 56, 57, 43, 47]"

definition base64de :: bytes where
  "base64de =
    [255, 255, 255, 255, 255, 255, 255, 255, 255, 255, 255, 255, 255, 255, 255, 255,
     255, 255, 255, 255, 255, 255, 255, 255, 255, 255, 255, 255, 255, 255, 255, 255,
     255, 255, 255, 255, 255, 255, 255, 255, 255, 255, 255, 62, 255, 255, 255, 63,
     52, 53, 54, 55, 56, 57, 58, 59, 60, 61, 255, 255, 255, 255, 255, 255,
     255, 0, 1, 2, 3, 4, 5, 6, 7, 8, 9, 10, 11, 12, 13, 14,
     15, 16, 17, 18, 19, 20, 21, 22, 23, 24, 25, 255, 255, 255, 255, 255,
     255, 26, 27, 28, 29, 30, 31, 32, 33, 34, 35, 36, 37, 38, 39, 40,
     41, 42, 43, 44, 45, 46, 47, 48, 49, 50, 51, 255, 255, 255, 255, 255]"

abbreviation en_char :: "u8 \<Rightarrow> u8" where
  "en_char v \<equiv> base64en ! unat v"

text \<open>The loop over the input: \<open>s\<close> is the state of the switch, \<open>l\<close> the byte before.\<close>

fun encode_loop :: "bytes \<Rightarrow> nat \<Rightarrow> u8 \<Rightarrow> nat \<Rightarrow> bytes \<Rightarrow> (nat \<times> u8 \<times> nat \<times> bytes) result" where
  "encode_loop [] s l j out = Inr (s, l, j, out)"
| "encode_loop (c # cs) s l j out =
    (if s = 0 then
       bindR (store_byte out j (en_char (drop_bit 2 c AND 0x3F))) (\<lambda>out.
       encode_loop cs 1 c (j + 1) out)
     else if s = 1 then
       bindR (store_byte out j (en_char (push_bit 4 (l AND 0x3) OR (drop_bit 4 c AND 0xF)))) (\<lambda>out.
       encode_loop cs 2 c (j + 1) out)
     else if s = 2 then
       bindR (store_byte out j (en_char (push_bit 2 (l AND 0xF) OR (drop_bit 6 c AND 0x3)))) (\<lambda>out.
       bindR (store_byte out (j + 1) (en_char (c AND 0x3F))) (\<lambda>out.
       encode_loop cs 0 c (j + 2) out))
     else encode_loop cs s c j out)"

definition encode_tail :: "nat \<Rightarrow> u8 \<Rightarrow> nat \<Rightarrow> bytes \<Rightarrow> (nat \<times> bytes) result" where
  "encode_tail s l j out =
    (if s = 1 then
       bindR (store_byte out j (en_char (push_bit 4 (l AND 0x3)))) (\<lambda>out.
       bindR (store_byte out (j + 1) BASE64_PAD) (\<lambda>out.
       bindR (store_byte out (j + 2) BASE64_PAD) (\<lambda>out. Inr (j + 3, out))))
     else if s = 2 then
       bindR (store_byte out j (en_char (push_bit 2 (l AND 0xF)))) (\<lambda>out.
       bindR (store_byte out (j + 1) BASE64_PAD) (\<lambda>out. Inr (j + 2, out)))
     else Inr (j, out))"

definition base64_encode :: "bytes \<Rightarrow> bytes \<Rightarrow> (nat \<times> bytes) result" where
  "base64_encode inp out =
    bindR (encode_loop inp 0 0 0 out) (\<lambda>(s, l, j, out).
    bindR (encode_tail s l j out) (\<lambda>(j, out).
    bindR (store_byte out j 0) (\<lambda>out. Inr (j, out))))"

text \<open>\<open>or_byte\<close> is the assignment \<open>out[j] |= x\<close>.\<close>

definition or_byte :: "bytes \<Rightarrow> nat \<Rightarrow> u8 \<Rightarrow> bytes result" where
  "or_byte out j x = bindR (load_byte out j) (\<lambda>y. store_byte out j (y OR x))"

text \<open>The loop of the decoder at index \<open>i\<close> of the text, of which \<open>cs\<close> is left.\<close>

fun decode_loop :: "bytes \<Rightarrow> nat \<Rightarrow> nat \<Rightarrow> bytes \<Rightarrow> (nat \<times> bytes) result" where
  "decode_loop [] i j out = Inr (j, out)"
| "decode_loop (ch # cs) i j out =
    (if ch = BASE64_PAD then Inr (j, out)
     else if ch < BASE64DE_FIRST \<or> ch > BASE64DE_LAST then Inr (0, out)
     else
       let c = base64de ! unat ch
       in if c = 255 then Inr (0, out)
          else if i mod 4 = 0 then
            bindR (store_byte out j (push_bit 2 c AND 0xFF)) (\<lambda>out.
            decode_loop cs (i + 1) j out)
          else if i mod 4 = 1 then
            bindR (or_byte out j (drop_bit 4 c AND 0x3)) (\<lambda>out.
            bindR (store_byte out (j + 1) (push_bit 4 (c AND 0xF))) (\<lambda>out.
            decode_loop cs (i + 1) (j + 1) out))
          else if i mod 4 = 2 then
            bindR (or_byte out j (drop_bit 2 c AND 0xF)) (\<lambda>out.
            bindR (store_byte out (j + 1) (push_bit 6 (c AND 0x3))) (\<lambda>out.
            decode_loop cs (i + 1) (j + 1) out))
          else
            bindR (or_byte out j c) (\<lambda>out.
            decode_loop cs (i + 1) (j + 1) out))"

definition base64_decode :: "bytes \<Rightarrow> bytes \<Rightarrow> (nat \<times> bytes) result" where
  "base64_decode inp out =
    (if length inp mod 4 \<noteq> 0 then Inr (0, out) else decode_loop inp 0 0 out)"

section \<open>The text of a byte string\<close>

text \<open>The four sextets of three octets, and the three octets of four sextets.\<close>

definition sx0 :: "u8 \<Rightarrow> u8" where "sx0 a = drop_bit 2 a AND 0x3F"
definition sx1 :: "u8 \<Rightarrow> u8 \<Rightarrow> u8" where "sx1 a b = push_bit 4 (a AND 0x3) OR (drop_bit 4 b AND 0xF)"
definition sx2 :: "u8 \<Rightarrow> u8 \<Rightarrow> u8" where "sx2 b c = push_bit 2 (b AND 0xF) OR (drop_bit 6 c AND 0x3)"
definition sx3 :: "u8 \<Rightarrow> u8" where "sx3 c = c AND 0x3F"

definition oc0 :: "u8 \<Rightarrow> u8 \<Rightarrow> u8" where "oc0 v w = (push_bit 2 v AND 0xFF) OR (drop_bit 4 w AND 0x3)"
definition lo4 :: "u8 \<Rightarrow> u8" where "lo4 v = push_bit 4 (v AND 0xF)"
definition oc1 :: "u8 \<Rightarrow> u8 \<Rightarrow> u8" where "oc1 v w = lo4 v OR (drop_bit 2 w AND 0xF)"
definition lo2 :: "u8 \<Rightarrow> u8" where "lo2 v = push_bit 6 (v AND 0x3)"
definition oc2 :: "u8 \<Rightarrow> u8 \<Rightarrow> u8" where "oc2 v w = lo2 v OR w"

fun b64 :: "bytes \<Rightarrow> bytes" where
  "b64 [] = []"
| "b64 [a] = [en_char (sx0 a), en_char (sx1 a 0), BASE64_PAD, BASE64_PAD]"
| "b64 [a, b] = [en_char (sx0 a), en_char (sx1 a b), en_char (sx2 b 0), BASE64_PAD]"
| "b64 (a # b # c # r) = [en_char (sx0 a), en_char (sx1 a b), en_char (sx2 b c), en_char (sx3 c)] @ b64 r"

definition b64_len :: "nat \<Rightarrow> nat" where
  "b64_len n = 4 * ((n + 2) div 3)"

lemma b64_len_step: "b64_len (n + 3) = b64_len n + 4"
  unfolding b64_len_def by presburger

lemma length_b64: "length (b64 d) = b64_len (length d)"
proof (induction d rule: b64.induct)
  case (4 a b c r)
  then show ?case using b64_len_step [of "length r"] by (simp add: eval_nat_numeral)
qed (simp_all add: b64_len_def)

lemma small64: "v AND 0x3F = v \<Longrightarrow> (v :: u8) < 64"
proof -
  assume "v AND 0x3F = v"
  then have "v \<le> 0x3F" using word_and_le1 [of v "0x3F"] by simp
  then show ?thesis by (simp add: word_less_nat_alt word_le_nat_alt)
qed

lemma byte_eqI: "(\<And>n. n \<in> {0,1,2,3,4,5,6,7} \<Longrightarrow> bit a n = bit b n) \<Longrightarrow> a = (b::u8)"
  by (rule bit_word_eqI) (auto simp: numeral_eq_Suc less_Suc_eq)

lemma sextets_small [simp]: "sx0 a < 64" "sx1 a b < 64" "sx2 b c < 64" "sx3 c < 64"
  unfolding sx0_def sx1_def sx2_def sx3_def
  by (rule small64, rule byte_eqI, auto simp: bit_simps simp del: add_2_eq_Suc add_2_eq_Suc')+

lemma octets_back [simp]:
  "oc0 (sx0 a) (sx1 a b) = a" "oc1 (sx1 a b) (sx2 b c) = b" "oc2 (sx2 b c) (sx3 c) = c"
  unfolding sx0_def sx1_def sx2_def sx3_def oc0_def oc1_def oc2_def lo4_def lo2_def
  by (rule byte_eqI, auto simp: bit_simps simp del: add_2_eq_Suc add_2_eq_Suc')+

lemma last_bits_zero [simp]: "lo4 (sx1 a 0) = 0" "lo2 (sx2 b 0) = 0"
  unfolding sx1_def sx2_def lo4_def lo2_def
  by (rule byte_eqI, auto simp: bit_simps simp del: add_2_eq_Suc add_2_eq_Suc')+

lemma store_byte_at: "length p = j \<Longrightarrow> store_byte (p @ x # r) j c = Inr ((p @ [c]) @ r)"
  by (simp add: store_byte_def list_update_append)

lemma store_byte_at2: "length p = j \<Longrightarrow> store_byte (p @ x # y # r) (Suc j) c = Inr (p @ x # c # r)"
  by (simp add: store_byte_def list_update_append)

lemma or_byte_at: "length p = j \<Longrightarrow> or_byte (p @ x # r) j c = Inr ((p @ [x OR c]) @ r)"
  by (auto simp: or_byte_def load_byte_def store_byte_at nth_append)

lemma split_at_least: "n \<le> length r \<Longrightarrow> \<exists>p q. r = p @ q \<and> length p = n"
  by (rule exI [of _ "take n r"], rule exI [of _ "drop n r"]) simp

lemma four_ahead:
  assumes "4 \<le> length r"
  obtains x1 x2 x3 x4 r' where "r = x1 # x2 # x3 # x4 # r'"
  using assms by (cases r; cases "tl r"; cases "tl (tl r)"; cases "tl (tl (tl r))") auto

lemma three_ahead:
  assumes "3 \<le> length r"
  obtains x1 x2 x3 r' where "r = x1 # x2 # x3 # r'"
  using assms by (cases r; cases "tl r"; cases "tl (tl r)") auto

section \<open>Encoding\<close>

lemma encode_step:
  "encode_loop (c # cs) 0 l j out = bindR (store_byte out j (en_char (sx0 c))) (\<lambda>out. encode_loop cs 1 c (j + 1) out)"
  "encode_loop (c # cs) (Suc 0) l j out = bindR (store_byte out j (en_char (sx1 l c))) (\<lambda>out. encode_loop cs 2 c (j + 1) out)"
  "encode_loop (c # cs) 2 l j out = bindR (store_byte out j (en_char (sx2 l c))) (\<lambda>out.
     bindR (store_byte out (j + 1) (en_char (sx3 c))) (\<lambda>out. encode_loop cs 0 c (j + 2) out))"
  by (simp_all add: sx0_def sx1_def sx2_def sx3_def)

lemma encode_tail_simps:
  "encode_tail 0 l j out = Inr (j, out)"
  "encode_tail (Suc 0) l j out = bindR (store_byte out j (en_char (sx1 l 0))) (\<lambda>out.
     bindR (store_byte out (j + 1) BASE64_PAD) (\<lambda>out. bindR (store_byte out (j + 2) BASE64_PAD) (\<lambda>out. Inr (j + 3, out))))"
  "encode_tail 2 l j out = bindR (store_byte out j (en_char (sx2 l 0))) (\<lambda>out.
     bindR (store_byte out (j + 1) BASE64_PAD) (\<lambda>out. Inr (j + 2, out)))"
  by (simp_all add: encode_tail_def sx1_def sx2_def)

declare encode_loop.simps(2) [simp del]

lemmas encode_steps = encode_step encode_tail_simps

lemma encode_ok:
  assumes "length p = j" "length (b64 d) < length r"
  shows "bindR (encode_loop d 0 l j (p @ r)) (\<lambda>(s, l, j, out). encode_tail s l j out)
    = Inr (j + length (b64 d), p @ b64 d @ drop (length (b64 d)) r)"
  using assms
proof (induction d arbitrary: p j r l rule: b64.induct)
  case 1
  then show ?case by (simp add: encode_steps)
next
  case (2 a)
  then have "4 \<le> length r" by simp
  then show ?case
    by (rule four_ahead) (simp add: encode_steps store_byte_def list_update_append nth_append 2(1))
next
  case (3 a b)
  then have "4 \<le> length r" by simp
  then show ?case
    by (rule four_ahead) (simp add: encode_steps store_byte_def list_update_append nth_append 3(1))
next
  case (4 a b c d)
  then have "4 \<le> length r" by simp
  then obtain x1 x2 x3 x4 r' where r: "r = x1 # x2 # x3 # x4 # r'" by (rule four_ahead)
  let ?q = "p @ [en_char (sx0 a), en_char (sx1 a b), en_char (sx2 b c), en_char (sx3 c)]"
  have "bindR (encode_loop d 0 c (j + 4) (?q @ r')) (\<lambda>(s, l, j, out). encode_tail s l j out)
    = Inr (j + 4 + length (b64 d), ?q @ b64 d @ drop (length (b64 d)) r')"
    by (rule "4.IH") (use "4.prems" r in simp_all)
  then show ?case using 4(2) r
    by (simp add: encode_steps encode_step(3) [unfolded numeral_2_eq_2] store_byte_def list_update_append
        nth_append eval_nat_numeral)
qed

lemma encode_spec:
  assumes "b64_len (length d) < length out"
  shows "base64_encode d out = Inr (b64_len (length d), b64 d @ 0 # drop (Suc (b64_len (length d))) out)"
proof -
  let ?n = "b64_len (length d)"
  have n: "length (b64 d) = ?n" by (rule length_b64)
  have "bindR (encode_loop d 0 0 0 out) (\<lambda>(s, l, j, out). encode_tail s l j out)
      = Inr (?n, b64 d @ drop ?n out)"
    using encode_ok [of "[]" 0 d out 0] assms n by simp
  then have "bindR (encode_loop d 0 0 0 out) (\<lambda>(s, l, j, out).
      bindR (encode_tail s l j out) (\<lambda>(j, out). bindR (store_byte out j 0) (\<lambda>out. Inr (j, out))))
    = bindR (store_byte (b64 d @ drop ?n out) ?n 0) (\<lambda>out. Inr (?n, out))"
    by (auto simp: bindR_def split: sum.splits)
  moreover have "drop ?n out = out ! ?n # drop (Suc ?n) out"
    using assms by (simp add: Cons_nth_drop_Suc)
  ultimately show ?thesis unfolding base64_encode_def using n store_byte_at [of "b64 d" ?n] by simp
qed

section \<open>Decoding\<close>

lemma table_inverse:
  "list_all (\<lambda>v. base64en ! v \<noteq> BASE64_PAD \<and> \<not> base64en ! v < BASE64DE_FIRST \<and> \<not> base64en ! v > BASE64DE_LAST
     \<and> base64de ! unat (base64en ! v) = word_of_nat v) [0..<64]"
  by code_simp

lemma en_char_facts:
  assumes "v < 64"
  shows "en_char v \<noteq> BASE64_PAD" "\<not> en_char v < BASE64DE_FIRST" "\<not> en_char v > BASE64DE_LAST"
    "base64de ! unat (en_char v) = v" "v \<noteq> 255"
proof -
  have "unat v \<in> set [0..<64]" using assms by (simp add: word_less_nat_alt)
  then show "en_char v \<noteq> BASE64_PAD" "\<not> en_char v < BASE64DE_FIRST" "\<not> en_char v > BASE64DE_LAST"
    "base64de ! unat (en_char v) = v"
    using table_inverse unfolding list_all_iff by (auto simp: of_nat_unat)
  show "v \<noteq> 255" using assms by auto
qed

lemma decode_char:
  assumes "v < 64"
  shows "i mod 4 = 0 \<Longrightarrow> decode_loop (en_char v # cs) i j out =
       bindR (store_byte out j (push_bit 2 v AND 0xFF)) (\<lambda>out. decode_loop cs (i + 1) j out)"
    and "i mod 4 = 1 \<Longrightarrow> decode_loop (en_char v # cs) i j out =
       bindR (or_byte out j (drop_bit 4 v AND 0x3)) (\<lambda>out.
       bindR (store_byte out (j + 1) (push_bit 4 (v AND 0xF))) (\<lambda>out. decode_loop cs (i + 1) (j + 1) out))"
    and "i mod 4 = 2 \<Longrightarrow> decode_loop (en_char v # cs) i j out =
       bindR (or_byte out j (drop_bit 2 v AND 0xF)) (\<lambda>out.
       bindR (store_byte out (j + 1) (push_bit 6 (v AND 0x3))) (\<lambda>out. decode_loop cs (i + 1) (j + 1) out))"
    and "i mod 4 = 3 \<Longrightarrow> decode_loop (en_char v # cs) i j out =
       bindR (or_byte out j v) (\<lambda>out. decode_loop cs (i + 1) (j + 1) out)"
  using en_char_facts [OF assms] by (simp_all add: Let_def)

lemma pad_ends: "decode_loop (BASE64_PAD # cs) i j out = Inr (j, out)"
  by simp

declare decode_loop.simps(2) [simp del]

lemma decode_octet0:
  assumes "v < 64" "w < 64" "length p = j" "i mod 4 = 0"
  shows "decode_loop (en_char v # en_char w # cs) i j (p @ x # y # r)
    = decode_loop cs (i + 2) (j + 1) (p @ oc0 v w # lo4 w # r)"
proof -
  have "Suc i mod 4 = 1" using assms(4) by presburger
  then show ?thesis using assms store_byte_at2 [OF assms(3)]
    by (simp add: decode_char store_byte_at or_byte_at [OF assms(3), unfolded append_assoc] oc0_def lo4_def)
qed

lemma decode_octet1:
  assumes "w < 64" "length p = j" "i mod 4 = 2"
  shows "decode_loop (en_char w # cs) i j (p @ lo4 v # y # r) = decode_loop cs (i + 1) (j + 1) (p @ oc1 v w # lo2 w # r)"
  using assms store_byte_at2 [OF assms(2)]
  by (simp add: decode_char or_byte_at [OF assms(2), unfolded append_assoc] oc1_def lo2_def)

lemma decode_octet2:
  assumes "w < 64" "length p = j" "i mod 4 = 3"
  shows "decode_loop (en_char w # cs) i j (p @ lo2 v # r) = decode_loop cs (i + 1) (j + 1) (p @ oc2 v w # r)"
  using assms by (simp add: decode_char or_byte_at [OF assms(2), unfolded append_assoc] oc2_def)

lemma decode_quad:
  assumes "v < 64" "w < 64" "y < 64" "z < 64" "length p = j" "i mod 4 = 0"
  shows "decode_loop (en_char v # en_char w # en_char y # en_char z # cs) i j (p @ x1 # x2 # x3 # r)
    = decode_loop cs (i + 4) (j + 3) (p @ oc0 v w # oc1 w y # oc2 y z # r)"
proof -
  have i: "(i + 2) mod 4 = 2" "(i + 3) mod 4 = 3" using assms(6) by presburger+
  have "decode_loop (en_char v # en_char w # en_char y # en_char z # cs) i j (p @ x1 # x2 # x3 # r)
    = decode_loop (en_char y # en_char z # cs) (i + 2) (j + 1) ((p @ [oc0 v w]) @ lo4 w # x3 # r)"
    using assms by (simp add: decode_octet0)
  also have "\<dots> = decode_loop (en_char z # cs) (i + 2 + 1) (j + 1 + 1) ((p @ [oc0 v w]) @ oc1 w y # lo2 y # r)"
    by (rule decode_octet1) (use assms i in simp_all)
  also have "\<dots> = decode_loop (en_char z # cs) (i + 3) (j + 2) ((p @ [oc0 v w, oc1 w y]) @ lo2 y # r)"
    by (simp add: eval_nat_numeral)
  also have "\<dots> = decode_loop cs (i + 3 + 1) (j + 2 + 1) ((p @ [oc0 v w, oc1 w y]) @ oc2 y z # r)"
    by (rule decode_octet2) (use assms i in simp_all)
  finally show ?thesis by (simp add: eval_nat_numeral)
qed

definition after_text :: "bytes \<Rightarrow> bytes \<Rightarrow> bytes" where
  "after_text d r = (if length d mod 3 = 0 then drop (length d) r else 0 # drop (Suc (length d)) r)"

lemma after_text_step: "after_text (a # b # c # d) (x # y # z # r) = after_text d r"
  by (simp add: after_text_def mod_Suc)

text \<open>Decoding a text gives its data, and a zero byte behind them when the last group is short.\<close>

lemma decode_text:
  assumes "length p = j" "i mod 4 = 0" "length d + (if length d mod 3 = 0 then 0 else 1) \<le> length r"
  shows "decode_loop (b64 d) i j (p @ r) = Inr (j + length d, p @ d @ after_text d r)"
  using assms
proof (induction d arbitrary: p i j r rule: b64.induct)
  case 1
  then show ?case by (simp add: after_text_def)
next
  case (2 a)
  then obtain x1 x2 r' where "r = x1 # x2 # r'"
    by (cases r rule: remdups_adj.cases) auto
  with 2 show ?case by (simp add: decode_octet0 pad_ends after_text_def)
next
  case (3 a b)
  then have "3 \<le> length r" by simp
  then obtain x1 x2 x3 r' where r: "r = x1 # x2 # x3 # r'" by (rule three_ahead)
  have i: "Suc (Suc i) mod 4 = 2" using 3(2) by presburger
  show ?case using 3 i decode_octet1 [of "sx2 b 0" "p @ [a]" "Suc j" "Suc (Suc i)"]
    by (simp add: r decode_octet0 pad_ends after_text_def)
next
  case (4 a b c d)
  then have "3 \<le> length r" by (auto split: if_splits)
  then obtain x1 x2 x3 r' where r: "r = x1 # x2 # x3 # r'" by (rule three_ahead)
  have "length d + (if length d mod 3 = 0 then 0 else 1) \<le> length r'"
    using 4(4) by (simp add: r mod_Suc split: if_splits)
  then have "decode_loop (b64 d) (i + 4) (j + 3) ((p @ [a, b, c]) @ r')
    = Inr (j + 3 + length d, (p @ [a, b, c]) @ d @ after_text d r')"
    using 4(2,3) by (intro "4.IH") simp_all
  then show ?case
    using 4(2,3) decode_quad [of "sx0 a" "sx1 a b" "sx2 b c" "sx3 c" p j i "b64 d" x1 x2 x3 r']
    by (simp add: r after_text_step)
qed

lemma decode_spec:
  assumes "length d + (if length d mod 3 = 0 then 0 else 1) \<le> length out"
  shows "base64_decode (b64 d) out = Inr (length d, d @ after_text d out)"
  using decode_text [of "[]" 0 0 d out] assms
  by (simp add: base64_decode_def length_b64 b64_len_def)

text \<open>On any text: the position in the output follows the position in the text.\<close>

definition out_pos :: "nat \<Rightarrow> nat" where
  "out_pos i = 3 * (i div 4) + (i mod 4 - 1)"

lemma out_pos_Suc: "out_pos (Suc i) = (if i mod 4 = 0 then out_pos i else Suc (out_pos i))"
  unfolding out_pos_def by (auto simp: mod_Suc div_Suc)

lemma out_pos_mono: "out_pos i \<le> out_pos (Suc i)"
  by (simp add: out_pos_Suc)

lemma decode_step_total:
  assumes "3 * (i div 4) + 3 \<le> length out"
  shows "decode_loop (ch # cs) i (out_pos i) out \<in> {Inr (out_pos i, out), Inr (0, out)}
    \<or> (\<exists>out'. length out' = length out
        \<and> decode_loop (ch # cs) i (out_pos i) out = decode_loop cs (Suc i) (out_pos (Suc i)) out')"
proof (cases "ch = BASE64_PAD \<or> ch < BASE64DE_FIRST \<or> ch > BASE64DE_LAST \<or> base64de ! unat ch = 255")
  case True
  then show ?thesis by (auto simp: decode_loop.simps(2))
next
  case ok: False
  let ?j = "out_pos i" and ?c = "base64de ! unat ch"
  let ?go = "\<lambda>out'. decode_loop (ch # cs) i ?j out = decode_loop cs (Suc i) (out_pos (Suc i)) out'"
  have go: ?thesis if "?go out'" "length out' = length out" for out' using that by blast
  consider "i mod 4 = 0" | "i mod 4 = 1" | "i mod 4 = 2" | "i mod 4 = 3" by linarith
  then show ?thesis
  proof cases
    case 1
    then have "?go (out[?j := push_bit 2 ?c AND 0xFF])"
      using ok assms by (simp add: decode_loop.simps(2) store_byte_def out_pos_Suc) (simp add: out_pos_def)
    then show ?thesis by (rule go) simp
  next
    case 2
    then have "?go (out[?j := out ! ?j OR (drop_bit 4 ?c AND 0x3), ?j + 1 := push_bit 4 (?c AND 0xF)])"
      using ok assms
      by (simp add: decode_loop.simps(2) Let_def or_byte_def load_byte_def store_byte_def out_pos_Suc) (simp add: out_pos_def)
    then show ?thesis by (rule go) simp
  next
    case 3
    then have "?go (out[?j := out ! ?j OR (drop_bit 2 ?c AND 0xF), ?j + 1 := push_bit 6 (?c AND 0x3)])"
      using ok assms
      by (simp add: decode_loop.simps(2) Let_def or_byte_def load_byte_def store_byte_def out_pos_Suc) (simp add: out_pos_def)
    then show ?thesis by (rule go) simp
  next
    case 4
    then have "?go (out[?j := out ! ?j OR ?c])"
      using ok assms
      by (simp add: decode_loop.simps(2) Let_def or_byte_def load_byte_def store_byte_def out_pos_Suc) (simp add: out_pos_def)
    then show ?thesis by (rule go) simp
  qed
qed

lemma next_group: "(i + Suc n) mod 4 = 0 \<Longrightarrow> Suc (i div 4) \<le> (i + Suc n) div (4 :: nat)"
  by presburger

lemma decode_loop_total:
  assumes "(i + length cs) mod 4 = 0" "3 * ((i + length cs) div 4) \<le> length out"
  shows "\<exists>n out'. decode_loop cs i (out_pos i) out = Inr (n, out') \<and> n \<le> out_pos (i + length cs)
    \<and> length out' = length out"
  using assms
proof (induction cs arbitrary: i out)
  case Nil
  then show ?case by simp
next
  case (Cons ch cs)
  have r: "3 * (i div 4) + 3 \<le> length out"
    using next_group [of i "length cs"] Cons.prems by simp
  have m: "out_pos i \<le> out_pos (i + length (ch # cs))"
    by (rule lift_Suc_mono_le [of out_pos]) (simp_all add: out_pos_mono)
  consider (stop) "decode_loop (ch # cs) i (out_pos i) out \<in> {Inr (out_pos i, out), Inr (0, out)}"
    | (go) out' where "length out' = length out"
      "decode_loop (ch # cs) i (out_pos i) out = decode_loop cs (Suc i) (out_pos (Suc i)) out'"
    using decode_step_total [OF r] by blast
  then show ?case
  proof cases
    case stop
    then show ?thesis using m by auto
  next
    case go
    then show ?thesis using Cons.IH [of "Suc i" out'] Cons.prems by simp
  qed
qed

lemma decode_total:
  assumes "3 * (length t div 4) \<le> length out"
  shows "\<exists>n out'. base64_decode t out = Inr (n, out') \<and> n \<le> 3 * (length t div 4) \<and> length out' = length out"
proof (cases "length t mod 4 = 0")
  case True
  then show ?thesis using decode_loop_total [of 0 t out] assms by (simp add: base64_decode_def out_pos_def)
qed (simp add: base64_decode_def)

section \<open>The codec contract\<close>

text \<open>Both directions with buffers of the sizes their callers must bring.\<close>

definition to_base64 :: "bytes \<Rightarrow> bytes" where
  "to_base64 d = (case base64_encode d (replicate (b64_len (length d) + 1) 0) of
     Inl _ \<Rightarrow> [] | Inr (n, out) \<Rightarrow> take n out)"

definition from_base64 :: "bytes \<Rightarrow> bytes option" where
  "from_base64 t = (case base64_decode t (replicate (3 * (length t div 4)) 0) of
     Inl _ \<Rightarrow> None | Inr (n, out) \<Rightarrow> Some (take n out))"

lemma to_base64_eq: "to_base64 d = b64 d"
  using encode_spec [of d "replicate (b64_len (length d) + 1) 0"]
  by (simp add: to_base64_def length_b64)

lemma from_base64_b64: "from_base64 (b64 d) = Some d"
proof -
  have "length d + (if length d mod 3 = 0 then 0 else 1) \<le> 3 * ((length d + 2) div 3)"
    by (simp split: if_splits) presburger+
  then show ?thesis
    using decode_spec [of d "replicate (3 * (length (b64 d) div 4)) 0"]
    by (simp add: from_base64_def length_b64 b64_len_def)
qed

interpretation b64c: codec to_base64 from_base64 "\<lambda>_. True"
  by unfold_locales (simp add: to_base64_eq from_base64_b64)

end
