(* ===== verification/Media_Slice.thy ===== *)
theory Media_Slice
  imports Memory Codec Fragments
begin

text \<open>
  The media slices of \<open>common/media_packet/Common_media_slice_packet.c\<close>: a frame of audio or
  video is cut into slices of at most 1312 bytes, each behind a 64-byte header, and put together
  again. A header is the memory image of the C structure; the bytes between its fields, and the
  fields the code never sets, are what the stack held before.
\<close>

section \<open>The code\<close>

record frameInfo_s =
  m_headidentifier :: u16
  m_frameType :: u16
  m_EncodeType :: u16
  m_width :: u16
  m_height :: u16
  m_frameRate :: u16
  m_frameGop :: u16
  m_freamSize :: u32
  m_frameIndex :: u64
  m_frmPts :: u64
  m_utcPts :: u64
  m_totalfragment :: u16
  m_fragmentIndex :: u16
  m_tailidentifier :: u16

record sliceDataHeader_s =
  frameInfo :: frameInfo_s
  m_sliceTotalNum :: u16
  m_sliceIndex :: u16
  m_packetLen :: u16

definition DATA_MAX_MTU_SIZE :: nat where "DATA_MAX_MTU_SIZE = 1376"
definition sliceHeadLen :: nat where "sliceHeadLen = 64"

text \<open>The memory image of a header; \<open>pd\<close> is the content of its ten bytes of padding.\<close>

definition slice_bytes :: "bytes \<Rightarrow> sliceDataHeader_s \<Rightarrow> bytes" where
  "slice_bytes pd h =
    (let f = frameInfo h in
     le_bytes 2 (m_headidentifier f) @ le_bytes 2 (m_frameType f) @ le_bytes 2 (m_EncodeType f)
     @ le_bytes 2 (m_width f) @ le_bytes 2 (m_height f) @ le_bytes 2 (m_frameRate f) @ le_bytes 2 (m_frameGop f)
     @ take 2 pd @ le_bytes 4 (m_freamSize f) @ take 4 (drop 2 pd)
     @ le_bytes 8 (m_frameIndex f) @ le_bytes 8 (m_frmPts f) @ le_bytes 8 (m_utcPts f)
     @ le_bytes 2 (m_totalfragment f) @ le_bytes 2 (m_fragmentIndex f) @ le_bytes 2 (m_tailidentifier f)
     @ take 2 (drop 6 pd)
     @ le_bytes 2 (m_sliceTotalNum h) @ le_bytes 2 (m_sliceIndex h) @ le_bytes 2 (m_packetLen h)
     @ take 2 (drop 8 pd))"

definition slice_of :: "bytes \<Rightarrow> sliceDataHeader_s" where
  "slice_of b = \<lparr>frameInfo = \<lparr>m_headidentifier = le_word (take 2 b), m_frameType = le_word (take 2 (drop 2 b)),
       m_EncodeType = le_word (take 2 (drop 4 b)), m_width = le_word (take 2 (drop 6 b)),
       m_height = le_word (take 2 (drop 8 b)), m_frameRate = le_word (take 2 (drop 10 b)),
       m_frameGop = le_word (take 2 (drop 12 b)), m_freamSize = le_word (take 4 (drop 16 b)),
       m_frameIndex = le_word (take 8 (drop 24 b)), m_frmPts = le_word (take 8 (drop 32 b)),
       m_utcPts = le_word (take 8 (drop 40 b)), m_totalfragment = le_word (take 2 (drop 48 b)),
       m_fragmentIndex = le_word (take 2 (drop 50 b)), m_tailidentifier = le_word (take 2 (drop 52 b))\<rparr>,
     m_sliceTotalNum = le_word (take 2 (drop 56 b)), m_sliceIndex = le_word (take 2 (drop 58 b)),
     m_packetLen = le_word (take 2 (drop 60 b))\<rparr>"

text \<open>The seven fields both directions copy.\<close>

definition copy_info :: "frameInfo_s \<Rightarrow> frameInfo_s \<Rightarrow> frameInfo_s" where
  "copy_info src dst = dst\<lparr>m_EncodeType := m_EncodeType src, m_frameType := m_frameType src,
     m_frameRate := m_frameRate src, m_frameGop := m_frameGop src, m_frameIndex := m_frameIndex src,
     m_frmPts := m_frmPts src, m_utcPts := m_utcPts src\<rparr>"

text \<open>A slice is copied if its length is at most that of a full one.\<close>

definition unpack_slice :: "bytes \<Rightarrow> sliceDataHeader_s \<Rightarrow> nat \<Rightarrow> nat \<Rightarrow> bytes \<Rightarrow> (nat \<times> nat \<times> bytes) option result" where
  "unpack_slice src hdr si di dest =
    (let n = unat (m_packetLen hdr)
     in if n \<le> DATA_MAX_MTU_SIZE - sliceHeadLen then
          bindR (mem_read src si n) (\<lambda>d. bindR (mem_write dest di d) (\<lambda>dest. Inr (Some (si + n, di + n, dest))))
        else Inr None)"

fun unpack_loop :: "bytes \<Rightarrow> nat \<Rightarrow> nat \<Rightarrow> sliceDataHeader_s \<Rightarrow> frameInfo_s \<Rightarrow> nat \<Rightarrow> nat \<Rightarrow> bytes
    \<Rightarrow> (int \<times> frameInfo_s \<times> nat \<times> bytes) result" where
  "unpack_loop src 0 i hdr fi si di dest = Inr (0, fi, di, dest)"
| "unpack_loop src (Suc n) i hdr fi si di dest =
    (if i = 0 then
       let fi = copy_info (frameInfo hdr) fi; si = si + sliceHeadLen
       in bindR (unpack_slice src hdr si di dest) (\<lambda>r. case r of None \<Rightarrow> Inr (-1, fi, di, dest)
            | Some (si, di, dest) \<Rightarrow> unpack_loop src n (Suc i) hdr fi si di dest)
     else
       bindR (mem_read src si sliceHeadLen) (\<lambda>b.
       let hdr = slice_of b; si = si + sliceHeadLen
       in bindR (unpack_slice src hdr si di dest) (\<lambda>r. case r of None \<Rightarrow> Inr (-1, fi, di, dest)
            | Some (si, di, dest) \<Rightarrow> unpack_loop src n (Suc i) hdr fi si di dest)))"

text \<open>
  The block behind \<open>srcdata\<close> and the length the caller announces are two arguments: the code
  uses the length for nothing but the size of the block it allocates. The result is the return
  code, the frame description, and the output block with its length once there is one.
\<close>

definition media_data_slice_unpack :: "bool \<Rightarrow> frameInfo_s \<Rightarrow> bytes option \<Rightarrow> nat
    \<Rightarrow> (int \<times> frameInfo_s \<times> (bytes \<times> nat) option) result" where
  "media_data_slice_unpack alloc fi srcdata srcLen =
    (case srcdata of None \<Rightarrow> Inr (-1, fi, None)
     | Some src \<Rightarrow>
        if \<not> alloc then Inr (-1, fi, None)
        else
          bindR (mem_read src 0 sliceHeadLen) (\<lambda>b.
          let hdr = slice_of b
          in bindR (unpack_loop src (unat (m_sliceTotalNum hdr)) 0 hdr fi 0 0 (replicate srcLen 0))
               (\<lambda>(r, fi, di, dest). Inr (r, fi, if r = 0 then Some (dest, di) else None))))"

fun pack_loop :: "bytes \<Rightarrow> frameInfo_s \<Rightarrow> bytes \<Rightarrow> int \<Rightarrow> int \<Rightarrow> nat \<Rightarrow> int \<Rightarrow> sliceDataHeader_s \<Rightarrow> nat \<Rightarrow> nat \<Rightarrow> bytes
    \<Rightarrow> (nat \<times> bytes) result" where
  "pack_loop pd fi src srcLen totalpkNum 0 i hdr si di dest = Inr (di, dest)"
| "pack_loop pd fi src srcLen totalpkNum (Suc n) i hdr si di dest =
    (let hdr = hdr\<lparr>frameInfo := copy_info fi (frameInfo hdr), m_sliceTotalNum := word_of_int totalpkNum,
           m_sliceIndex := word_of_int (i + 1),
           m_packetLen := (if i \<noteq> totalpkNum - 1 then word_of_nat (DATA_MAX_MTU_SIZE - sliceHeadLen)
                           else word_of_int (srcLen - int si))\<rparr>;
         l = unat (m_packetLen hdr)
     in if l \<noteq> 0 then
          bindR (mem_write dest di (slice_bytes pd hdr)) (\<lambda>dest.
          bindR (mem_read src si l) (\<lambda>d.
          bindR (mem_write dest (di + sliceHeadLen) d) (\<lambda>dest.
          pack_loop pd fi src srcLen totalpkNum n (i + 1) hdr (si + l) (di + sliceHeadLen + l) dest)))
        else pack_loop pd fi src srcLen totalpkNum n (i + 1) hdr si di dest)"

text \<open>
  \<open>junk\<close> and \<open>pd\<close> are what the stack holds where the header is built. A request for a
  negative size is one for almost the whole address space, which is refused.
\<close>

definition media_data_slice_pack :: "bool \<Rightarrow> bytes \<Rightarrow> sliceDataHeader_s \<Rightarrow> frameInfo_s \<Rightarrow> bytes \<Rightarrow> int
    \<Rightarrow> (int \<times> (bytes \<times> nat \<times> int) option) result" where
  "media_data_slice_pack alloc pd junk fi src srcLen =
    (let sliceLen = int (DATA_MAX_MTU_SIZE - sliceHeadLen);
         totalpkNum = srcLen sdiv sliceLen + (if srcLen smod sliceLen \<noteq> 0 then 1 else 0);
         mAllocSize = totalpkNum * int DATA_MAX_MTU_SIZE
     in if \<not> alloc \<or> mAllocSize < 0 then Inr (-1, None)
        else
          bindR (pack_loop pd fi src srcLen totalpkNum (nat totalpkNum) 0 junk 0 0 (replicate (nat mAllocSize) 0))
            (\<lambda>(di, dest). Inr (0, Some (dest, di, totalpkNum))))"

text \<open>The enumeration of frame types, and the text of a value of it; any other value is unknown.\<close>

definition FREAM_TYPES :: "string list" where
  "FREAM_TYPES = [''FREAM_TYPE_VIDEO_I'', ''FREAM_TYPE_VIDEO_P'', ''FREAM_TYPE_AUDIO'', ''FREAM_TYPE_HEARTBEAT'',
     ''FREAM_TYPE_PING'', ''FREAM_TYPE_PONG'', ''FREAM_TYPE_CTRL'', ''FREAM_TYPE_FILE'', ''FREAM_TYPE_REPEATER'']"

definition kcp_fream_type_to_string :: "int \<Rightarrow> string" where
  "kcp_fream_type_to_string type =
    (if 0 \<le> type \<and> type < int (length FREAM_TYPES) then FREAM_TYPES ! nat type else ''UNKNOWN_FREAM_TYPE'')"

section \<open>Headers\<close>

lemma length_slice_bytes: "length pd = 10 \<Longrightarrow> length (slice_bytes pd h) = 64"
  by (simp add: slice_bytes_def Let_def)

lemma slice_read_back:
  assumes "length pd = 10"
  shows "slice_of (slice_bytes pd h @ r) = h"
proof -
  have pd: "length (take 2 pd) = 2" "length (take 4 (drop 2 pd)) = 4" "length (take 2 (drop 6 pd)) = 2"
    "length (take 2 (drop 8 pd)) = 2"
    using assms by simp_all
  have w2: "le_word (le_bytes 2 w) = w" for w :: u16 by (rule le_word_byte_of) simp
  have w4: "le_word (le_bytes 4 w) = w" for w :: u32 by (rule le_word_byte_of) simp
  have w8: "le_word (le_bytes 8 w) = w" for w :: u64 by (rule le_word_byte_of) simp
  show ?thesis
    by (cases h, cases "frameInfo h")
      (simp add: assms slice_of_def slice_bytes_def Let_def pd w2 w4 w8 del: upt_rec_numeral upt_Suc take_take take_drop)
qed

interpretation slh: prefix_codec "slice_bytes (replicate 10 0)"
  "\<lambda>b. if length b < 64 then None else Some (slice_of b, drop 64 b)" "\<lambda>_. True"
  by unfold_locales (simp add: slice_read_back length_slice_bytes)

section \<open>The stream of slices\<close>

definition slice_hdr :: "sliceDataHeader_s \<Rightarrow> frameInfo_s \<Rightarrow> nat \<Rightarrow> nat \<Rightarrow> nat \<Rightarrow> sliceDataHeader_s" where
  "slice_hdr hdr fi tn i l = hdr\<lparr>frameInfo := copy_info fi (frameInfo hdr), m_sliceTotalNum := word_of_nat tn,
     m_sliceIndex := word_of_nat (Suc i), m_packetLen := word_of_nat l\<rparr>"

fun slice_stream :: "bytes \<Rightarrow> sliceDataHeader_s \<Rightarrow> frameInfo_s \<Rightarrow> nat \<Rightarrow> nat \<Rightarrow> bytes list \<Rightarrow> bytes" where
  "slice_stream pd hdr fi tn i [] = []"
| "slice_stream pd hdr fi tn i (d # ds) =
    slice_bytes pd (slice_hdr hdr fi tn i (length d)) @ d @ slice_stream pd hdr fi tn (Suc i) ds"

lemma copy_info_again [simp]: "copy_info fi (copy_info fi f) = copy_info fi f"
  by (simp add: copy_info_def)

lemma slice_hdr_again [simp]:
  "slice_hdr (slice_hdr hdr fi tn i l) fi tn j k = slice_hdr hdr fi tn j k"
  by (simp add: slice_hdr_def)

lemma slice_stream_hdr: "slice_stream pd (slice_hdr hdr fi tn k l) fi tn i ds = slice_stream pd hdr fi tn i ds"
  by (induction ds arbitrary: i) auto

lemma length_slice_stream: "length pd = 10
  \<Longrightarrow> length (slice_stream pd hdr fi tn i ds) = 64 * length ds + length (concat ds)"
  by (induction ds arbitrary: i) (auto simp: length_slice_bytes)

lemma unat_small_u16: "n < 65536 \<Longrightarrow> unat (word_of_nat n :: u16) = n"
  by (simp add: unat_of_nat)

lemma slice_hdr_fields [simp]:
  "m_sliceTotalNum (slice_hdr hdr fi tn i l) = word_of_nat tn"
  "m_packetLen (slice_hdr hdr fi tn i l) = word_of_nat l"
  "frameInfo (slice_hdr hdr fi tn i l) = copy_info fi (frameInfo hdr)"
  by (simp_all add: slice_hdr_def)

section \<open>Putting together\<close>

lemma unpack_slice_ok:
  assumes "m_packetLen hdr = word_of_nat (length d)" "length d \<le> 1312"
    and "length p = si" "length q = di" "length d \<le> length z"
  shows "unpack_slice (p @ d @ r) hdr si di (q @ z)
    = Inr (Some (si + length d, di + length d, q @ d @ drop (length d) z))"
  using assms by (simp add: unpack_slice_def Let_def unat_small_u16 DATA_MAX_MTU_SIZE_def sliceHeadLen_def
      mem_read_front mem_write_front)

lemma unpack_loop_ok:
  assumes "length pd = 10" "\<forall>d \<in> set ds. length d \<le> 1312" "0 < i"
    and "length p = si" "length q = di" "length (concat ds) \<le> length z"
  shows "unpack_loop (p @ slice_stream pd hdr f tn i ds @ r) (length ds) i h fi si di (q @ z)
    = Inr (0, fi, di + length (concat ds), q @ concat ds @ drop (length (concat ds)) z)"
  using assms
proof (induction ds arbitrary: i p q si di z h)
  case Nil
  then show ?case by simp
next
  case (Cons d ds)
  let ?h = "slice_hdr hdr f tn i (length d)"
  let ?b = "slice_bytes pd ?h" and ?r = "slice_stream pd hdr f tn (Suc i) ds @ r"
  have b: "length ?b = 64" using Cons.prems(1) by (rule length_slice_bytes)
  have rd: "mem_read (p @ ?b @ d @ ?r) si 64 = Inr ?b"
    using b Cons.prems(4) by (intro mem_read_front) simp_all
  have "unpack_slice ((p @ ?b) @ d @ ?r) ?h (si + 64) di (q @ z)
    = Inr (Some (si + 64 + length d, di + length d, q @ d @ drop (length d) z))"
    using Cons.prems b by (intro unpack_slice_ok) simp_all
  moreover have "unpack_loop ((p @ ?b @ d) @ ?r) (length ds) (Suc i) ?h fi (si + 64 + length d) (di + length d)
      ((q @ d) @ drop (length d) z)
    = Inr (0, fi, di + length d + length (concat ds), (q @ d) @ concat ds @ drop (length (concat ds)) (drop (length d) z))"
    using Cons.prems b by (intro Cons.IH) simp_all
  ultimately show ?case
    using Cons.prems(3) rd slice_read_back [OF Cons.prems(1), of ?h "[]"]
    by (simp add: sliceHeadLen_def add.commute add.left_commute)
qed

lemma copy_info_copy [simp]: "copy_info (copy_info a b) c = copy_info a c"
  by (simp add: copy_info_def)

lemma unpack_stream:
  assumes pd: "length pd = 10" and ds: "ds \<noteq> []" "\<forall>d \<in> set ds. length d \<le> 1312" "length ds < 65536"
    and l: "length (concat ds) \<le> srcLen"
  shows "media_data_slice_unpack True fi0 (Some (slice_stream pd junk fi (length ds) 0 ds @ r)) srcLen
    = Inr (0, copy_info fi fi0, Some (concat ds @ replicate (srcLen - length (concat ds)) 0, length (concat ds)))"
proof -
  obtain d es where e: "ds = d # es" using ds(1) by (cases ds) auto
  let ?n = "length ds" and ?h = "slice_hdr junk fi (length ds) 0 (length d)"
  let ?b = "slice_bytes pd ?h" and ?r = "slice_stream pd junk fi (length ds) 1 es @ r"
  have b: "length ?b = 64" using pd by (rule length_slice_bytes)
  have s: "slice_stream pd junk fi ?n 0 ds @ r = ?b @ d @ ?r" by (simp add: e)
  have rd: "mem_read (?b @ d @ ?r) 0 64 = Inr ?b"
    using mem_read_front [of "[]" 0 ?b 64] b by simp
  have "unpack_slice (?b @ d @ ?r) ?h 64 0 ([] @ replicate srcLen 0)
    = Inr (Some (64 + length d, 0 + length d, [] @ d @ drop (length d) (replicate srcLen 0)))"
    using ds l b e by (intro unpack_slice_ok) simp_all
  moreover have "unpack_loop ((?b @ d) @ ?r) (length es) 1 ?h (copy_info fi fi0) (64 + length d) (length d)
      (d @ drop (length d) (replicate srcLen 0))
    = Inr (0, copy_info fi fi0, length d + length (concat es),
        d @ concat es @ drop (length (concat es)) (drop (length d) (replicate srcLen 0)))"
    using pd ds l b e by (intro unpack_loop_ok) simp_all
  moreover have "unat (1 + word_of_nat (length es) :: u16) = Suc (length es)"
    using ds(3) e unat_small_u16 [of "Suc (length es)"] by simp
  ultimately show ?thesis
    unfolding s media_data_slice_unpack_def
    using rd slice_read_back [OF pd, of ?h "[]"] by (simp add: sliceHeadLen_def e)
qed

section \<open>A stream that is cut short\<close>

lemma mem_read_fault: "length m < i + n \<Longrightarrow> mem_read m i n = Inl BufferOverrun"
  by (simp add: mem_read_def)

lemma mem_write_or_fault: "mem_write m i d = Inl e \<Longrightarrow> e = BufferOverrun"
  by (auto simp: mem_write_def split: if_splits)

text \<open>A slice that starts inside its block but does not end there.\<close>

lemma unpack_slice_cut:
  assumes "m_packetLen hdr = word_of_nat n" "n \<le> 1312" "length src < si + n"
  shows "unpack_slice src hdr si di dest = Inl BufferOverrun"
  using assms by (simp add: unpack_slice_def Let_def unat_small_u16 DATA_MAX_MTU_SIZE_def sliceHeadLen_def mem_read_fault)

lemma unpack_slice_cases:
  assumes "m_packetLen hdr = word_of_nat (length d)" "length d \<le> 1312"
    and "length p = si"
  shows "unpack_slice (p @ d @ r) hdr si di dest = Inl BufferOverrun
    \<or> (\<exists>dest'. unpack_slice (p @ d @ r) hdr si di dest = Inr (Some (si + length d, di + length d, dest')))"
  using assms by (simp add: unpack_slice_def Let_def unat_small_u16 DATA_MAX_MTU_SIZE_def sliceHeadLen_def
      mem_read_front mem_write_def)

lemma unpack_loop_next:
  "0 < i \<Longrightarrow> mem_read src si 64 = Inr b \<Longrightarrow> slice_of b = h' \<Longrightarrow>
   unpack_loop src (Suc n) i h fi si di dest =
      bindR (unpack_slice src h' (si + 64) di dest) (\<lambda>r. case r of None \<Rightarrow> Inr (-1, fi, di, dest)
            | Some (si, di, dest) \<Rightarrow> unpack_loop src n (Suc i) h' fi si di dest)"
  by (simp add: sliceHeadLen_def Let_def)

lemma unpack_loop_cut:
  assumes "length pd = 10" "\<forall>d \<in> set ds. length d \<le> 1312" "0 < i"
    and "length p = si" "m < length (slice_stream pd hdr f tn i ds)"
  shows "unpack_loop (p @ take m (slice_stream pd hdr f tn i ds)) (length ds) i h fi si di dest = Inl BufferOverrun"
  using assms
proof (induction ds arbitrary: i p si di dest h m)
  case Nil
  then show ?case by simp
next
  case (Cons d ds)
  let ?h = "slice_hdr hdr f tn i (length d)"
  let ?b = "slice_bytes pd ?h" and ?r = "slice_stream pd hdr f tn (Suc i) ds"
  have b: "length ?b = 64" using Cons.prems(1) by (rule length_slice_bytes)
  let ?src = "p @ take m (slice_stream pd hdr f tn i (d # ds))"
  have len: "length ?src = si + m" using Cons.prems b by simp
  show ?case
  proof (cases "m < 64")
    case True
    then have "mem_read ?src si 64 = Inl BufferOverrun" using len by (intro mem_read_fault) simp
    then show ?thesis using Cons.prems(3) by (simp add: sliceHeadLen_def)
  next
    case False
    then have src: "?src = p @ ?b @ take (m - 64) (d @ ?r)" using b by simp
    have rd: "mem_read ?src si 64 = Inr ?b"
      unfolding src using b Cons.prems(4) by (intro mem_read_front) simp_all
    have step: "unpack_loop ?src (length (d # ds)) i h fi si di dest =
      bindR (unpack_slice ?src ?h (si + 64) di dest) (\<lambda>r. case r of None \<Rightarrow> Inr (-1, fi, di, dest)
            | Some (si, di, dest) \<Rightarrow> unpack_loop ?src (length ds) (Suc i) ?h fi si di dest)"
      unfolding length_Cons
      by (rule unpack_loop_next [OF Cons.prems(3) rd]) (use slice_read_back [OF Cons.prems(1), of ?h "[]"] in simp)
    show ?thesis
    proof (cases "m < 64 + length d")
      case True
      then have "unpack_slice ?src ?h (si + 64) di dest = Inl BufferOverrun"
        using Cons.prems(2) len by (intro unpack_slice_cut [where n = "length d"]) simp_all
      then show ?thesis unfolding step by simp
    next
      case F: False
      then have src: "?src = (p @ ?b) @ d @ take (m - 64 - length d) ?r" using src by simp
      have "unpack_slice ?src ?h (si + 64) di dest = Inl BufferOverrun
        \<or> (\<exists>dest'. unpack_slice ?src ?h (si + 64) di dest = Inr (Some (si + 64 + length d, di + length d, dest')))"
        unfolding src using Cons.prems b by (intro unpack_slice_cases) simp_all
      moreover have "unpack_loop ?src (length ds) (Suc i) ?h fi (si + 64 + length d) (di + length d) dest' = Inl BufferOverrun" for dest'
      proof -
        have "unpack_loop ((p @ ?b @ d) @ take (m - 64 - length d) ?r) (length ds) (Suc i) ?h fi (si + 64 + length d) (di + length d) dest'
          = Inl BufferOverrun"
          using Cons.prems b F by (intro Cons.IH) simp_all
        then show ?thesis unfolding src by simp
      qed
      ultimately show ?thesis unfolding step by auto
    qed
  qed
qed

section \<open>Cutting up\<close>

lemma pack_loop_ok:
  assumes "d \<noteq> []" "length pd = 10" "src = p @ d" "length p = si" "length q = di"
    and "tn = i + length (fragments 1312 d)" "64 * length (fragments 1312 d) + length d \<le> length z"
  shows "pack_loop pd fi src (int (length src)) (int tn) (length (fragments 1312 d)) (int i) hdr si di (q @ z)
    = Inr (di + 64 * length (fragments 1312 d) + length d,
        q @ slice_stream pd hdr fi tn i (fragments 1312 d) @ drop (64 * length (fragments 1312 d) + length d) z)"
  using assms
proof (induction "length d" arbitrary: d p si q di z i hdr rule: less_induct)
  case less
  let ?fs = "fragments 1312 d" and ?f = "take 1312 d"
  let ?h = "slice_hdr hdr fi tn i (length ?f)"
  let ?b = "slice_bytes pd ?h"
  have b: "length ?b = 64" using less.prems(2) by (rule length_slice_bytes)
  have ne: "?f \<noteq> []" using less.prems(1) by simp
  have fs: "?fs = ?f # (if length d \<le> 1312 then [] else fragments 1312 (drop 1312 d))"
    by (simp add: fragments_small fragments_step)
  have one: "fragments 1312 x \<noteq> []" for x by (simp add: fragments.simps [of 1312 x])
  have last: "int i \<noteq> int tn - 1 \<longleftrightarrow> 1312 < length d"
    using less.prems(6) one [of "drop 1312 d"] by (auto simp: fs)
  have full: "DATA_MAX_MTU_SIZE - sliceHeadLen = 1312" by (simp add: DATA_MAX_MTU_SIZE_def sliceHeadLen_def)
  have pl: "(if int i \<noteq> int tn - 1 then word_of_nat 1312 else word_of_int (int (length src) - int si)) = (word_of_nat (length ?f) :: u16)"
    unfolding last using less.prems(3,4) by simp
  have nz: "unat (word_of_nat (length ?f) :: u16) = length ?f" "length ?f \<noteq> 0"
    using ne by (simp_all add: unat_small_u16)
  let ?R = "drop (64 + length ?f) z"
  have zl: "64 + length ?f \<le> length z" using less.prems(7) by (simp add: fs)
  have wr1: "mem_write (q @ z) di ?b = Inr ((q @ ?b) @ drop 64 z)"
    using mem_write_front [of q di ?b z] less.prems(5) b zl by simp
  have rd: "mem_read src si (length ?f) = Inr ?f"
    using less.prems(3,4) mem_read_front [of p si ?f "length ?f" "drop 1312 d"] by simp
  have wr2: "mem_write ((q @ ?b) @ drop 64 z) (di + 64) ?f = Inr ((q @ ?b @ ?f) @ ?R)"
    using mem_write_front [of "q @ ?b" "di + 64" ?f "drop 64 z"] less.prems(5) b zl by (simp add: add.commute)
  have hd: "hdr\<lparr>frameInfo := copy_info fi (frameInfo hdr), m_sliceTotalNum := word_of_int (int tn),
           m_sliceIndex := word_of_int (int i + 1),
           m_packetLen := (if int i \<noteq> int tn - 1 then word_of_nat (DATA_MAX_MTU_SIZE - sliceHeadLen)
                           else word_of_int (int (length src) - int si))\<rparr> = ?h"
    unfolding full pl slice_hdr_def by (simp add: add.commute)
  have step: "pack_loop pd fi src (int (length src)) (int tn) (Suc n) (int i) hdr si di (q @ z)
    = pack_loop pd fi src (int (length src)) (int tn) n (int (Suc i)) ?h (si + length ?f) (di + 64 + length ?f) ((q @ ?b @ ?f) @ ?R)" for n
    unfolding pack_loop.simps(2) hd using nz wr1 rd wr2 by (simp add: Let_def sliceHeadLen_def add.commute)
  show ?case
  proof (cases "length d \<le> 1312")
    case True
    then show ?thesis using step [of 0] by (simp add: fs)
  next
    case False
    let ?gs = "fragments 1312 (drop 1312 d)"
    have n: "length ?fs = Suc (length ?gs)" using False by (simp add: fs)
    have "pack_loop pd fi src (int (length src)) (int tn) (length ?gs) (int (Suc i)) ?h (si + length ?f) (di + 64 + length ?f) ((q @ ?b @ ?f) @ ?R)
      = Inr (di + 64 + length ?f + 64 * length ?gs + length (drop 1312 d),
        (q @ ?b @ ?f) @ slice_stream pd ?h fi tn (Suc i) ?gs @ drop (64 * length ?gs + length (drop 1312 d)) ?R)"
      by (rule less.hyps [where p = "p @ ?f"]) (use less.prems False n b in simp_all)
    then show ?thesis unfolding n step using False
      by (simp add: fs slice_stream_hdr add.commute add.left_commute)
  qed
qed

lemma ceil_slices:
  fixes n :: nat
  assumes "0 < n"
  shows "n div 1312 + (if n mod 1312 = 0 then 0 else 1) = (if n \<le> 1312 then 1 else (n + 1311) div 1312)"
proof -
  define k r where kr: "k = n div 1312" "r = n mod 1312"
  then have n: "n = 1312 * k + r" and r: "r < 1312" by simp_all
  show ?thesis
  proof (cases "r = 0")
    case True
    have "(n + 1311) div 1312 = k" by (rule div_nat_eqI) (use n True in simp_all)
    moreover have "n \<le> 1312 \<Longrightarrow> k = 1" using n True assms by linarith
    ultimately show ?thesis unfolding kr [symmetric] using True by simp
  next
    case False
    have "(n + 1311) div 1312 = Suc k" by (rule div_nat_eqI) (use n r False in simp_all)
    moreover have "n \<le> 1312 \<Longrightarrow> k = 0" using n False by linarith
    ultimately show ?thesis unfolding kr [symmetric] using False by simp
  qed
qed

lemma slice_count:
  assumes "0 < n"
  shows "int n sdiv 1312 + (if int n smod 1312 \<noteq> 0 then 1 else 0) = int (if n \<le> 1312 then 1 else (n + 1311) div 1312)"
proof -
  have d: "int n sdiv 1312 = int (n div 1312)" and m: "int n smod 1312 = int (n mod 1312)"
    using assms by (simp_all add: signed_divide_int_def signed_modulo_int_def zdiv_int zmod_int)
  have "(if int n smod 1312 \<noteq> 0 then 1 else 0) = int (if n mod 1312 = 0 then 0 else 1)"
    unfolding m by (simp del: of_nat_mod)
  then show ?thesis unfolding d ceil_slices [OF assms, symmetric] by simp
qed

lemma pack_spec:
  assumes "d \<noteq> []" "length pd = 10"
  defines "n \<equiv> length (fragments 1312 d)"
  shows "\<exists>zs. media_data_slice_pack True pd junk fi d (int (length d))
      = Inr (0, Some (slice_stream pd junk fi n 0 (fragments 1312 d) @ zs, 64 * n + length d, int n))"
proof -
  have n: "n = (if length d \<le> 1312 then 1 else (length d + 1311) div 1312)"
    using length_fragments [of 1312 d] by (simp add: n_def add.commute)
  have f: "int (length d) sdiv 1312 + (if int (length d) smod 1312 \<noteq> 0 then 1 else 0) = int n"
    unfolding n by (rule slice_count) (use assms(1) in simp)
  have "length d \<le> 1312 * n" unfolding n
  proof (cases "length d \<le> 1312")
    case False
    have "length d + 1311 < 1312 + 1312 * ((length d + 1311) div 1312)"
      by (rule dividend_less_times_div) simp
    then show "length d \<le> 1312 * (if length d \<le> 1312 then 1 else (length d + 1311) div 1312)" using False by simp
  qed simp
  then have room: "64 * n + length d \<le> length (replicate (1376 * n) (0 :: u8))" by simp
  show ?thesis
    using pack_loop_ok [of d pd d "[]" 0 "[]" 0 n 0 "replicate (1376 * n) 0" fi junk] assms(1,2) room
    unfolding media_data_slice_pack_def Let_def DATA_MAX_MTU_SIZE_def sliceHeadLen_def
    by (simp add: f n_def [symmetric] nat_mult_distrib mult.commute)
qed

lemma unpack_cut:
  assumes pd: "length pd = 10" and ds: "ds \<noteq> []" "\<forall>d \<in> set ds. length d \<le> 1312" "length ds < 65536"
    and m: "m < length (slice_stream pd junk fi (length ds) 0 ds)"
  shows "media_data_slice_unpack True fi0 (Some (take m (slice_stream pd junk fi (length ds) 0 ds))) srcLen = Inl BufferOverrun"
proof -
  obtain d es where e: "ds = d # es" using ds(1) by (cases ds) auto
  let ?n = "length ds" and ?h = "slice_hdr junk fi (length ds) 0 (length d)"
  let ?b = "slice_bytes pd ?h" and ?r = "slice_stream pd junk fi (length ds) (Suc 0) es"
  have b: "length ?b = 64" using pd by (rule length_slice_bytes)
  define src where "src = take m (slice_stream pd junk fi ?n 0 ds)"
  have len: "length src = m" using m by (simp add: src_def)
  show ?thesis unfolding src_def [symmetric]
  proof (cases "m < 64")
    case True
    then show "media_data_slice_unpack True fi0 (Some src) srcLen = Inl BufferOverrun"
      using len by (simp add: media_data_slice_unpack_def mem_read_fault sliceHeadLen_def)
  next
    case False
    then have src: "src = ?b @ take (m - 64) (d @ ?r)" using b by (simp add: src_def e)
    have rd: "mem_read src 0 64 = Inr ?b" unfolding src using mem_read_front [of "[]" 0 ?b 64] b by simp
    have tn: "unat (m_sliceTotalNum ?h) = Suc (length es)"
      using ds(3) e unat_small_u16 [of "Suc (length es)"] by simp
    let ?fi = "copy_info fi fi0" and ?dest = "replicate srcLen 0"
    have step: "media_data_slice_unpack True fi0 (Some src) srcLen =
      bindR (bindR (unpack_slice src ?h 64 0 ?dest) (\<lambda>r. case r of None \<Rightarrow> Inr (-1, ?fi, 0, ?dest)
            | Some (si, di, dest) \<Rightarrow> unpack_loop src (length es) (Suc 0) ?h ?fi si di dest))
        (\<lambda>(r, fi, di, dest). Inr (r, fi, if r = 0 then Some (dest, di) else None))"
      using rd tn slice_read_back [OF pd, of ?h "[]"]
      by (simp add: media_data_slice_unpack_def sliceHeadLen_def Let_def)
    have "unpack_slice src ?h 64 0 ?dest = Inl BufferOverrun
      \<or> (\<exists>si di dest'. unpack_slice src ?h 64 0 ?dest = Inr (Some (si, di, dest'))
          \<and> unpack_loop src (length es) (Suc 0) ?h ?fi si di dest' = Inl BufferOverrun)"
    proof (cases "m < 64 + length d")
      case True
      then show ?thesis using ds(2) len e by (intro disjI1 unpack_slice_cut [where n = "length d"]) simp_all
    next
      case F: False
      then have s2: "src = ?b @ d @ take (m - 64 - length d) ?r" using src by simp
      have m2: "m - 64 - length d < length ?r" using m b F False by (simp add: e)
      have "unpack_loop ((?b @ d) @ take (m - 64 - length d) ?r) (length es) (Suc 0) ?h ?fi (64 + length d) di dest' = Inl BufferOverrun" for di dest'
        using pd ds(2) b e m2 by (intro unpack_loop_cut) simp_all
      then have rest: "unpack_loop src (length es) (Suc 0) ?h ?fi (64 + length d) di dest' = Inl BufferOverrun" for di dest'
        unfolding s2 by simp
      have "unpack_slice src ?h 64 0 ?dest = Inl BufferOverrun
        \<or> (\<exists>dest'. unpack_slice src ?h 64 0 ?dest = Inr (Some (64 + length d, 0 + length d, dest')))"
        unfolding s2 using ds(2) e b by (intro unpack_slice_cases) simp_all
      then show ?thesis using rest by blast
    qed
    then show "media_data_slice_unpack True fi0 (Some src) srcLen = Inl BufferOverrun" unfolding step by auto
  qed
qed

text \<open>Descriptions with every field zero.\<close>

definition zero_info :: frameInfo_s where
  "zero_info = \<lparr>m_headidentifier = 0, m_frameType = 0, m_EncodeType = 0, m_width = 0, m_height = 0, m_frameRate = 0,
     m_frameGop = 0, m_freamSize = 0, m_frameIndex = 0, m_frmPts = 0, m_utcPts = 0, m_totalfragment = 0,
     m_fragmentIndex = 0, m_tailidentifier = 0\<rparr>"

definition zero_header :: sliceDataHeader_s where
  "zero_header = \<lparr>frameInfo = zero_info, m_sliceTotalNum = 0, m_sliceIndex = 0, m_packetLen = 0\<rparr>"

end
