(* ===== verification/Ring_Buf.thy ===== *)
theory Ring_Buf
  imports Memory Machine
begin

text \<open>
  The ring buffers for audio and video frames of \<open>common/ringbuf.c\<close>, one per channel: a block
  of bytes, written from front to back and then from the front again, and a table of 1000 entries
  that say where each frame lies. Readers hold an index into the table and get a pointer into the
  block, here an offset. The functions take the ring of one channel; \<open>with_channel\<close> finds it.
  Loops of the code that need not end take fuel, and \<open>None\<close> is a loop still running.
\<close>

section \<open>State\<close>

definition MAX_CHANNEL_NUM :: nat where "MAX_CHANNEL_NUM = 3"
definition MAX_INDEX :: u32 where "MAX_INDEX = 1000"
definition READSTART_INDEX :: u32 where "READSTART_INDEX = 5"
definition MAX_MAIN_RINGBUF_LEN :: u32 where "MAX_MAIN_RINGBUF_LEN = 1572864"
definition MAX_SUB_RINGBUF_LEN :: u32 where "MAX_SUB_RINGBUF_LEN = 262144"

definition RINGBUF_FRAME_TYPE_VIDEO_I :: int where "RINGBUF_FRAME_TYPE_VIDEO_I = 1"
definition RINGBUF_FRAME_TYPE_VIDEO_P :: int where "RINGBUF_FRAME_TYPE_VIDEO_P = 2"
definition RINGBUF_FRAME_TYPE_AUDIO_AAC :: int where "RINGBUF_FRAME_TYPE_AUDIO_AAC = 3"
definition RINGBUF_FRAME_TYPE_AUDIO_G711A :: int where "RINGBUF_FRAME_TYPE_AUDIO_G711A = 4"
definition RINGBUF_FRAME_TYPE_AUDIO_PCM :: int where "RINGBUF_FRAME_TYPE_AUDIO_PCM = 5"

record Index_t =
  ix_frameType :: int
  ix_frameIndex :: u32
  ix_len :: u32
  ix_offset :: u32
  ix_pts :: u64
  ix_wTime :: u64

record RingBuf_t =
  nIsInit :: int
  nIsFull :: int
  uiReadIndex :: u32
  uiMaxLen :: u32
  uiCurPos :: u32
  uiHeadIndex :: u32
  uiCurIndex :: u32
  uiLeftLen :: u32
  uiOldestIndex :: u32
  uinewIFrameIndex :: u32
  index_tab :: "Index_t list"
  pRingBuf :: "bytes option"

text \<open>What \<open>memset\<close> with zero makes of a ring.\<close>

definition zero_index :: Index_t where
  "zero_index = \<lparr>ix_frameType = 0, ix_frameIndex = 0, ix_len = 0, ix_offset = 0, ix_pts = 0, ix_wTime = 0\<rparr>"

definition zero_ring :: RingBuf_t where
  "zero_ring = \<lparr>nIsInit = 0, nIsFull = 0, uiReadIndex = 0, uiMaxLen = 0, uiCurPos = 0, uiHeadIndex = 0,
     uiCurIndex = 0, uiLeftLen = 0, uiOldestIndex = 0, uinewIFrameIndex = 0,
     index_tab = replicate 1000 zero_index, pRingBuf = None\<rparr>"

section \<open>Setup and release\<close>

text \<open>The size of a channel; the first is the main one.\<close>

definition ring_len :: "nat \<Rightarrow> u32" where
  "ring_len i = (if i = 0 then MAX_MAIN_RINGBUF_LEN else MAX_SUB_RINGBUF_LEN)"

text \<open>\<open>ok\<close> says whether the allocation for the channel succeeds, \<open>junk\<close> what it contains.\<close>

fun init_loop :: "(nat \<Rightarrow> bool) \<Rightarrow> (nat \<Rightarrow> bytes) \<Rightarrow> nat list \<Rightarrow> RingBuf_t list \<Rightarrow> int \<times> RingBuf_t list" where
  "init_loop ok junk [] g = (0, g)"
| "init_loop ok junk (i # is) g =
    (let r = zero_ring\<lparr>uiMaxLen := ring_len i, uiLeftLen := ring_len i\<rparr>
     in if \<not> ok i then (-1, g[i := r])
        else init_loop ok junk is (g[i := r\<lparr>pRingBuf := Some (junk i), uiReadIndex := 0, nIsInit := 1\<rparr>]))"

definition RING_BUF_Init :: "(nat \<Rightarrow> bool) \<Rightarrow> (nat \<Rightarrow> bytes) \<Rightarrow> RingBuf_t list \<Rightarrow> int \<times> RingBuf_t list" where
  "RING_BUF_Init ok junk g = init_loop ok junk [0..<MAX_CHANNEL_NUM] g"

definition RING_BUF_ReleaseAll :: "RingBuf_t list \<Rightarrow> int \<times> RingBuf_t list" where
  "RING_BUF_ReleaseAll g = (0, map (\<lambda>_. zero_ring) g)"

text \<open>The check of the channel has an upper bound only.\<close>

definition RING_BUF_Release :: "int \<Rightarrow> RingBuf_t list \<Rightarrow> (int \<times> RingBuf_t list) result" where
  "RING_BUF_Release nChannel g =
    (if nChannel < int MAX_CHANNEL_NUM then
       if nChannel < 0 then Inl BufferOverrun else Inr (0, g[nat nChannel := zero_ring])
     else Inr (0, g))"

definition with_channel :: "RingBuf_t list \<Rightarrow> int \<Rightarrow> (RingBuf_t \<Rightarrow> 'a result) \<Rightarrow> 'a result" where
  "with_channel g nChannel f =
    (if 0 \<le> nChannel \<and> nChannel < int (length g) then f (g ! nat nChannel) else Inl BufferOverrun)"

section \<open>Indices\<close>

definition RING_BUF_GetLastIndex :: "u32 \<Rightarrow> u32" where
  "RING_BUF_GetLastIndex uiIndex = (if uiIndex = 0 then MAX_INDEX - 1 else uiIndex) - 1"

definition RING_BUF_GetNextIndex :: "u32 \<Rightarrow> u32" where
  "RING_BUF_GetNextIndex uiIndex = (let uiIndex = uiIndex + 1 in if uiIndex \<ge> MAX_INDEX then 0 else uiIndex)"

definition RING_BUF_GetPreIndex :: "u32 \<Rightarrow> u32" where
  "RING_BUF_GetPreIndex uiIndex = (let uiIndex = uiIndex - 1 in if uiIndex = 0 then MAX_INDEX else uiIndex)"

definition entry_at :: "Index_t list \<Rightarrow> u32 \<Rightarrow> Index_t result" where
  "entry_at ix i = (if unat i < length ix then Inr (ix ! unat i) else Inl BufferOverrun)"

section \<open>Writing a frame\<close>

text \<open>The two loops that give up the oldest frames until there is room.\<close>

fun reclaim :: "nat \<Rightarrow> Index_t list \<Rightarrow> u32 \<Rightarrow> u32 \<Rightarrow> u32 \<Rightarrow> (u32 \<times> u32) option result" where
  "reclaim 0 ix uiDataLen left oldest = Inr None"
| "reclaim (Suc n) ix uiDataLen left oldest =
    (if left < uiDataLen then
       bindR (entry_at ix oldest) (\<lambda>e.
       reclaim n ix uiDataLen (left + ix_len e) (RING_BUF_GetNextIndex oldest))
     else Inr (Some (left, oldest)))"

fun reclaim_behind :: "nat \<Rightarrow> RingBuf_t \<Rightarrow> u32 \<Rightarrow> u32 \<Rightarrow> u32 \<Rightarrow> (u32 \<times> u32) option result" where
  "reclaim_behind 0 r uiDataLen left oldest = Inr None"
| "reclaim_behind (Suc n) r uiDataLen left oldest =
    (if left < uiDataLen then
       bindR (entry_at (index_tab r) oldest) (\<lambda>e.
       if ix_offset e = 0 then Inr (Some (uiMaxLen r - uiCurPos r, oldest))
       else reclaim_behind n r uiDataLen (left + ix_len e) (RING_BUF_GetNextIndex oldest))
     else Inr (Some (left, oldest)))"

text \<open>The branch for a ring that has been full: the room found, and the ring.\<close>

definition full_room :: "nat \<Rightarrow> u32 \<Rightarrow> u32 \<Rightarrow> RingBuf_t \<Rightarrow> (u32 \<times> RingBuf_t) option result" where
  "full_room fuel left uiDataLen r =
    (if left < uiDataLen then
       bindR (reclaim fuel (index_tab r) uiDataLen 0 (uiHeadIndex r)) (\<lambda>x.
       Inr (map_option (\<lambda>(left, oldest).
         (left, r\<lparr>uiCurPos := 0, uiOldestIndex := oldest, uiHeadIndex := uiCurIndex r\<rparr>)) x))
     else
       bindR (reclaim_behind fuel r uiDataLen (uiLeftLen r) (uiOldestIndex r)) (\<lambda>x.
       Inr (map_option (\<lambda>(left, oldest). (left, r\<lparr>uiOldestIndex := oldest\<rparr>)) x)))"

text \<open>
  The outer loop, whose \<open>continue\<close> is taken once: the first time a frame does not fit, the ring is
  marked full and the round starts again. The size constants are whole numbers, so the
  subtraction is exact while the position is inside the block.
\<close>

definition find_room :: "nat \<Rightarrow> int \<Rightarrow> u32 \<Rightarrow> RingBuf_t \<Rightarrow> (u32 \<times> RingBuf_t) option result" where
  "find_room fuel nChannel uiDataLen r =
    (let left = ring_len (nat nChannel) - uiCurPos r
     in if nIsFull r = 1 then full_room fuel left uiDataLen r
        else if left < uiDataLen then full_room fuel left uiDataLen (r\<lparr>nIsFull := 1\<rparr>)
        else Inr (Some (left, r)))"

definition put_frame :: "int \<Rightarrow> u64 \<Rightarrow> u64 \<Rightarrow> u32 \<Rightarrow> bytes \<Rightarrow> u32 \<Rightarrow> u32 \<Rightarrow> RingBuf_t \<Rightarrow> RingBuf_t result" where
  "put_frame frameType wTime pts uiDataLen pData frameIndex left r =
    (case pRingBuf r of None \<Rightarrow> Inl NullPointer
     | Some b \<Rightarrow>
        bindR (mem_read pData 0 (unat uiDataLen)) (\<lambda>d.
        bindR (mem_write b (unat (uiCurPos r)) d) (\<lambda>b.
        if unat (uiCurIndex r) < length (index_tab r) then
          let e = \<lparr>ix_frameType = frameType, ix_frameIndex = frameIndex, ix_len = uiDataLen,
                ix_offset = uiCurPos r, ix_pts = pts, ix_wTime = wTime\<rparr>
          in Inr (r\<lparr>pRingBuf := Some b, index_tab := (index_tab r)[unat (uiCurIndex r) := e],
               uiCurPos := uiCurPos r + uiDataLen,
               uinewIFrameIndex := (if frameType = RINGBUF_FRAME_TYPE_VIDEO_I then uiCurIndex r else uinewIFrameIndex r),
               uiCurIndex := RING_BUF_GetNextIndex (uiCurIndex r),
               uiLeftLen := left - uiDataLen\<rparr>)
        else Inl BufferOverrun)))"

definition RING_BUF_FillBuf :: "nat \<Rightarrow> int \<Rightarrow> int \<Rightarrow> u64 \<Rightarrow> u64 \<Rightarrow> u32 \<Rightarrow> bytes \<Rightarrow> u32 \<Rightarrow> RingBuf_t
    \<Rightarrow> (int \<times> RingBuf_t) option result" where
  "RING_BUF_FillBuf fuel nChannel frameType wTime pts uiDataLen pData frameIndex r =
    (if nIsInit r = 0 then Inr (Some (-1, r))
     else
       bindR (find_room fuel nChannel uiDataLen r) (\<lambda>x. case x of
         None \<Rightarrow> Inr None
       | Some (left, r) \<Rightarrow>
           bindR (put_frame frameType wTime pts uiDataLen pData frameIndex left r) (\<lambda>r. Inr (Some (0, r)))))"

section \<open>Reading\<close>

text \<open>The output parameters of the readers; a pointer into the block is an offset.\<close>

record rb_out =
  o_pDataBuf :: "nat option"
  o_pFrameType :: int
  o_TimeStamp :: u64
  o_wTimeStamp :: u64
  o_StartReadIndex :: u32
  o_frameIndex :: u32

definition hand_out :: "Index_t \<Rightarrow> rb_out \<Rightarrow> rb_out" where
  "hand_out e out = out\<lparr>o_pDataBuf := Some (unat (ix_offset e)), o_pFrameType := ix_frameType e,
     o_TimeStamp := ix_pts e, o_wTimeStamp := ix_wTime e\<rparr>"

text \<open>Comparing the bytes at an offset one by one, up to the first that differs.\<close>

fun bytes_match :: "bytes \<Rightarrow> nat \<Rightarrow> bytes \<Rightarrow> bool result" where
  "bytes_match b off [] = Inr True"
| "bytes_match b off (c # cs) =
    bindR (load_byte b off) (\<lambda>x. if x \<noteq> c then Inr False else bytes_match b (off + 1) cs)"

definition ring_match :: "RingBuf_t \<Rightarrow> u32 \<Rightarrow> bytes \<Rightarrow> bool result" where
  "ring_match r off cs = (case pRingBuf r of None \<Rightarrow> Inl NullPointer | Some b \<Rightarrow> bytes_match b (unat off) cs)"

definition is_audio :: "int \<Rightarrow> bool" where
  "is_audio t \<longleftrightarrow> t = RINGBUF_FRAME_TYPE_AUDIO_AAC \<or> t = RINGBUF_FRAME_TYPE_AUDIO_G711A \<or> t = RINGBUF_FRAME_TYPE_AUDIO_PCM"

text \<open>
  The check of the start code: a video frame that does not start with it sends the reader to the
  newest I frame. The result is the index to read.
\<close>

definition resync :: "RingBuf_t \<Rightarrow> u32 \<Rightarrow> rb_out \<Rightarrow> (u32 \<times> rb_out) result" where
  "resync r rdIndex out =
    (if uiCurIndex r \<noteq> rdIndex then
       bindR (entry_at (index_tab r) rdIndex) (\<lambda>e.
       if is_audio (ix_frameType e) then Inr (rdIndex, out)
       else bindR (ring_match r (ix_offset e) [0, 0, 0, 1]) (\<lambda>m.
         if \<not> m then Inr (uinewIFrameIndex r, out\<lparr>o_StartReadIndex := uinewIFrameIndex r\<rparr>)
         else Inr (rdIndex, out)))
     else Inr (rdIndex, out))"

definition RING_BUF_GetOnePacket :: "bool \<Rightarrow> rb_out \<Rightarrow> RingBuf_t \<Rightarrow> (int \<times> rb_out) result" where
  "RING_BUF_GetOnePacket pDataBuf out r =
    (let rdIndex = o_StartReadIndex out
     in if \<not> pDataBuf \<or> rdIndex \<ge> MAX_INDEX then
          Inr (-1, if rdIndex \<ge> MAX_INDEX then out\<lparr>o_StartReadIndex := uinewIFrameIndex r\<rparr> else out)
        else if nIsInit r = 0 then Inr (-1, out)
        else
          bindR (resync r rdIndex out) (\<lambda>(rdIndex, out).
          if uiCurIndex r \<noteq> rdIndex then
            bindR (entry_at (index_tab r) rdIndex) (\<lambda>e.
            let out = (if ix_len e \<noteq> 0 then (hand_out e out)\<lparr>o_frameIndex := ix_frameIndex e\<rparr> else out)
            in Inr (sint (ix_len e), out\<lparr>o_StartReadIndex := RING_BUF_GetNextIndex rdIndex\<rparr>))
          else Inr (-1, out)))"

text \<open>Where the backward readers start: \<open>back\<close> frames ago, or at the oldest frame.\<close>

definition back_start :: "RingBuf_t \<Rightarrow> u32 \<Rightarrow> u32" where
  "back_start r back =
    (if uiOldestIndex r < uiCurIndex r then
       if uiCurIndex r > back then uiCurIndex r - back else uiOldestIndex r
     else
       if uiCurIndex r > back then uiCurIndex r - back
       else if MAX_INDEX - uiOldestIndex r + uiCurIndex r > back then MAX_INDEX - (back - uiCurIndex r)
       else uiOldestIndex r)"

text \<open>The I frame test of \<open>RING_BUF_GetPreIFrame\<close>, the \<open>or\<close> at its outermost as in the code.\<close>

definition pre_iframe_test :: "RingBuf_t \<Rightarrow> Index_t \<Rightarrow> bool result" where
  "pre_iframe_test r e =
    bindR (if ix_frameType e = RINGBUF_FRAME_TYPE_VIDEO_I then
             bindR (ring_match r (ix_offset e) [0, 0, 0, 1]) (\<lambda>m.
             if \<not> m then Inr False
             else case pRingBuf r of None \<Rightarrow> Inl NullPointer
               | Some b \<Rightarrow> bindR (load_byte b (unat (ix_offset e) + 4)) (\<lambda>x. Inr ((x AND 0x1F) = 7)))
           else Inr False) (\<lambda>first.
    if first then Inr True
    else case pRingBuf r of None \<Rightarrow> Inl NullPointer
      | Some b \<Rightarrow> bindR (load_byte b (unat (ix_offset e) + 4)) (\<lambda>x. Inr (x = 0x40)))"

fun pre_iframe_loop :: "nat \<Rightarrow> u64 \<Rightarrow> RingBuf_t \<Rightarrow> int \<Rightarrow> u32 \<Rightarrow> rb_out \<Rightarrow> (int \<times> rb_out) option result" where
  "pre_iframe_loop 0 limitTime r nLen ReadIndex out = Inr None"
| "pre_iframe_loop (Suc n) limitTime r nLen ReadIndex out =
    (if uiCurIndex r \<noteq> ReadIndex then
       bindR (entry_at (index_tab r) ReadIndex) (\<lambda>e.
       bindR (pre_iframe_test r e) (\<lambda>hit.
       if hit then
         let nLen = sint (ix_len e);
             (ReadIndex, out) =
               (if nLen \<noteq> 0 then
                  let next = RING_BUF_GetNextIndex ReadIndex
                  in (next, (hand_out e out)\<lparr>o_StartReadIndex := next\<rparr>)
                else (ReadIndex, out))
         in if limitTime > o_TimeStamp out then pre_iframe_loop n limitTime r nLen ReadIndex out
            else Inr (Some (nLen, out))
       else
         let ReadIndex = RING_BUF_GetNextIndex ReadIndex
         in pre_iframe_loop n limitTime r nLen ReadIndex (out\<lparr>o_StartReadIndex := ReadIndex\<rparr>)))
     else Inr (Some (nLen, out)))"

definition RING_BUF_GetPreIFrame :: "nat \<Rightarrow> u8 \<Rightarrow> int \<Rightarrow> u64 \<Rightarrow> bool \<Rightarrow> rb_out \<Rightarrow> RingBuf_t
    \<Rightarrow> (int \<times> rb_out) option result" where
  "RING_BUF_GetPreIFrame fuel PreSec frmRate limitTime pDataBuf out r =
    (if \<not> pDataBuf then Inr (Some (-1, out))
     else if nIsInit r = 0 then Inr (Some (-1, out))
     else if nIsFull r \<noteq> 1 then Inr (Some (-1, out))
     else pre_iframe_loop fuel limitTime r (-1) (back_start r (word_of_int (frmRate * uint PreSec))) out)"

text \<open>An I frame that starts with the long or the short start code.\<close>

definition iframe_test :: "RingBuf_t \<Rightarrow> Index_t \<Rightarrow> bool result" where
  "iframe_test r e =
    (if ix_frameType e = RINGBUF_FRAME_TYPE_VIDEO_I then
       bindR (ring_match r (ix_offset e) [0, 0, 0, 1]) (\<lambda>m.
       if m then Inr True else ring_match r (ix_offset e) [0, 0, 1])
     else Inr False)"

text \<open>The condition of this loop does not mention the index that moves.\<close>

fun pre_one_loop :: "nat \<Rightarrow> RingBuf_t \<Rightarrow> u32 \<Rightarrow> rb_out \<Rightarrow> (int \<times> rb_out) option result" where
  "pre_one_loop 0 r ReadIndex out = Inr None"
| "pre_one_loop (Suc n) r ReadIndex out =
    (if uiCurIndex r \<noteq> uiOldestIndex r then
       bindR (entry_at (index_tab r) ReadIndex) (\<lambda>e.
       bindR (iframe_test r e) (\<lambda>hit.
       if hit then
         Inr (Some (sint (ix_len e),
           if ix_len e \<noteq> 0 then (hand_out e out)\<lparr>o_StartReadIndex := RING_BUF_GetPreIndex ReadIndex\<rparr> else out))
       else
         let ReadIndex = RING_BUF_GetPreIndex ReadIndex
         in pre_one_loop n r ReadIndex (out\<lparr>o_StartReadIndex := ReadIndex\<rparr>)))
     else Inr (Some (-1, out)))"

definition RING_BUF_GetPreOneIFrame :: "nat \<Rightarrow> bool \<Rightarrow> u8 \<Rightarrow> rb_out \<Rightarrow> RingBuf_t \<Rightarrow> (int \<times> rb_out) option result" where
  "RING_BUF_GetPreOneIFrame fuel pDataBuf PreFlag out r =
    (if \<not> pDataBuf then Inr (Some (-1, out))
     else if nIsInit r = 0 then Inr (Some (-1, out))
     else pre_one_loop fuel r (if PreFlag \<noteq> 0 then uiOldestIndex r else uiCurIndex r) out)"

text \<open>The forward search for an I frame; \<open>found\<close> is what the caller does with it.\<close>

fun next_loop :: "nat \<Rightarrow> (u32 \<Rightarrow> Index_t \<Rightarrow> rb_out \<Rightarrow> int \<times> rb_out) \<Rightarrow> RingBuf_t \<Rightarrow> u32 \<Rightarrow> rb_out
    \<Rightarrow> (int \<times> rb_out) option result" where
  "next_loop 0 found r ReadIndex out = Inr None"
| "next_loop (Suc n) found r ReadIndex out =
    (if uiCurIndex r \<noteq> ReadIndex then
       bindR (entry_at (index_tab r) ReadIndex) (\<lambda>e.
       bindR (iframe_test r e) (\<lambda>hit.
       if hit then Inr (Some (found ReadIndex e out))
       else
         let ReadIndex = RING_BUF_GetNextIndex ReadIndex
         in next_loop n found r ReadIndex (out\<lparr>o_StartReadIndex := ReadIndex\<rparr>)))
     else Inr (Some (-1, out)))"

text \<open>The start computed first is overwritten by a second computation, in both functions.\<close>

definition RING_BUF_GetNextIFrameAllRecord :: "nat \<Rightarrow> bool \<Rightarrow> int \<Rightarrow> u32 \<Rightarrow> rb_out \<Rightarrow> RingBuf_t
    \<Rightarrow> (int \<times> rb_out) option result" where
  "RING_BUF_GetNextIFrameAllRecord fuel pDataBuf nBufLen lastReadIndex out r =
    (if \<not> pDataBuf then Inr (Some (-1, out))
     else if nIsInit r = 0 then Inr (Some (-1, out))
     else
       let ReadIndex =
             (if lastReadIndex = 0 then
                if uiCurIndex r > READSTART_INDEX then uiCurIndex r - READSTART_INDEX
                else uiCurIndex r + MAX_INDEX - READSTART_INDEX
              else lastReadIndex)
       in next_loop fuel (\<lambda>i e out.
            let nLen = sint (ix_len e)
            in if nBufLen \<ge> nLen then (nLen, (hand_out e out)\<lparr>o_StartReadIndex := RING_BUF_GetNextIndex i\<rparr>)
               else (-1, out)) r ReadIndex out)"

definition RING_BUF_GetNextIFrame :: "nat \<Rightarrow> bool \<Rightarrow> int \<Rightarrow> rb_out \<Rightarrow> RingBuf_t \<Rightarrow> (int \<times> rb_out) option result" where
  "RING_BUF_GetNextIFrame fuel pDataBuf preFrmNum out r =
    (if \<not> pDataBuf then Inr (Some (-1, out))
     else if nIsInit r = 0 then Inr (Some (-1, out))
     else
       let ReadIndex =
             (if uiCurIndex r > word_of_int preFrmNum then uiCurIndex r - word_of_int preFrmNum
              else MAX_INDEX - (READSTART_INDEX - uiCurIndex r))
       in next_loop fuel (\<lambda>i e out.
            let nLen = sint (ix_len e)
            in (nLen, if nLen \<noteq> 0 then (hand_out e out)\<lparr>o_frameIndex := ix_frameIndex e,
                  o_StartReadIndex := RING_BUF_GetNextIndex i\<rparr> else out)) r ReadIndex out)"

definition RING_BUF_GetOneIndexPacket :: "u32 \<Rightarrow> RingBuf_t \<Rightarrow> (int \<times> nat \<times> int) result" where
  "RING_BUF_GetOneIndexPacket i r =
    bindR (entry_at (index_tab r) i) (\<lambda>e. Inr (sint (ix_len e), unat (ix_offset e), ix_frameType e))"

definition RING_BUF_GetIFrameIndex :: "int \<Rightarrow> RingBuf_t \<Rightarrow> int \<times> int" where
  "RING_BUF_GetIFrameIndex readIndex r =
    (if nIsInit r = 0 then (-1, readIndex)
     else let readIndex = sint (uinewIFrameIndex r)
          in (if readIndex \<ge> 0 \<and> readIndex < 400 then 1 else 0, readIndex))"

text \<open>\<open>forced\<close> is what the callback that asks the encoder for an I frame returns.\<close>

definition RING_BUF_ReflushIDR :: "int \<Rightarrow> int \<Rightarrow> RingBuf_t \<Rightarrow> int \<times> bool" where
  "RING_BUF_ReflushIDR forced maxFrame r =
    (if nIsInit r = 0 then (-1, False)
     else
       let currIndex = sint (uiCurIndex r);
           iframeIndex = sint (uinewIFrameIndex r);
           allFrame = (if currIndex - iframeIndex \<ge> 0 then currIndex - iframeIndex
                       else (currIndex + 1000) - iframeIndex)
       in if allFrame > maxFrame then (forced, True) else (0, False))"

section \<open>The invariant\<close>

definition entry_ok :: "u32 \<Rightarrow> Index_t \<Rightarrow> bool" where
  "entry_ok m e \<longleftrightarrow> unat (ix_offset e) + unat (ix_len e) \<le> unat m
     \<and> (ix_len e = 0 \<and> ix_offset e = 0 \<or> 4 \<le> unat (ix_len e))"

definition ring_inv :: "int \<Rightarrow> RingBuf_t \<Rightarrow> bool" where
  "ring_inv ch r \<longleftrightarrow> nIsInit r \<noteq> 0 \<and> uiMaxLen r = ring_len (nat ch)
     \<and> (\<exists>b. pRingBuf r = Some b \<and> length b = unat (ring_len (nat ch)))
     \<and> length (index_tab r) = 1000 \<and> unat (uiCurPos r) \<le> unat (ring_len (nat ch))
     \<and> unat (uiCurIndex r) < 1000 \<and> unat (uiOldestIndex r) < 1000 \<and> unat (uiHeadIndex r) < 1000
     \<and> unat (uinewIFrameIndex r) < 1000
     \<and> (\<forall>e \<in> set (index_tab r). entry_ok (ring_len (nat ch)) e)
     \<and> (nIsFull r = 1 \<longrightarrow> uiCurPos r \<noteq> 0)
     \<and> (uiCurPos r \<noteq> 0 \<longrightarrow> (\<exists>e \<in> set (index_tab r). ix_len e \<noteq> 0))"

lemma ring_len_bounds: "unat (ring_len i) \<le> 1572864" "4 \<le> unat (ring_len i)"
  by (auto simp: ring_len_def MAX_MAIN_RINGBUF_LEN_def MAX_SUB_RINGBUF_LEN_def)

lemma next_index: "unat i < 1000 \<Longrightarrow> unat (RING_BUF_GetNextIndex i) = (if unat i = 999 then 0 else Suc (unat i))"
  by (auto simp: RING_BUF_GetNextIndex_def MAX_INDEX_def Let_def word_le_nat_alt unat_add_u32)

lemma next_index_less [simp]: "unat i < 1000 \<Longrightarrow> unat (RING_BUF_GetNextIndex i) < 1000"
  by (simp add: next_index)

lemma entry_at_ok [simp]: "unat i < length ix \<Longrightarrow> entry_at ix i = Inr (ix ! unat i)"
  by (simp add: entry_at_def)

section \<open>Reclaiming ends\<close>

text \<open>The steps from one index to another, going forward.\<close>

definition ahead :: "nat \<Rightarrow> nat \<Rightarrow> nat" where
  "ahead k i = (if i \<le> k then k - i else k + 1000 - i)"

lemma ahead_next: "i < 1000 \<Longrightarrow> k < 1000 \<Longrightarrow> i \<noteq> k \<Longrightarrow> Suc (ahead k (if i = 999 then 0 else Suc i)) = ahead k i"
  by (auto simp: ahead_def)

lemma ahead_less: "i < 1000 \<Longrightarrow> k < 1000 \<Longrightarrow> ahead k i < 1000"
  by (auto simp: ahead_def)

definition togo :: "nat \<Rightarrow> u32 \<Rightarrow> u32 \<Rightarrow> u32 \<Rightarrow> nat" where
  "togo k need left oldest = 1000 * (unat need - unat left) + ahead k (unat oldest)"

lemma togo_next:
  assumes "unat oldest < 1000" "k < 1000" "length ix = 1000" "ix_len (ix ! k) \<noteq> 0"
    and "left < need" "unat left + unat (ix_len (ix ! unat oldest)) < 2 ^ 32"
  shows "togo k need (left + ix_len (ix ! unat oldest)) (RING_BUF_GetNextIndex oldest) < togo k need left oldest"
proof -
  let ?l = "unat (ix_len (ix ! unat oldest))"
  have lt: "unat left < unat need" using assms(5) by (simp add: word_less_nat_alt)
  have s: "unat (left + ix_len (ix ! unat oldest)) = unat left + ?l" using assms(6) by (rule unat_add_u32)
  show ?thesis
  proof (cases "unat oldest = k")
    case True
    then have "0 < ?l" using assms(4) by (simp add: unat_gt_0)
    moreover have "ahead k (unat (RING_BUF_GetNextIndex oldest)) < 1000"
      using assms(1,2) by (intro ahead_less) simp_all
    ultimately show ?thesis using lt unfolding togo_def s by linarith
  next
    case False
    then have "Suc (ahead k (unat (RING_BUF_GetNextIndex oldest))) = ahead k (unat oldest)"
      using ahead_next [OF assms(1,2)] by (simp add: next_index assms(1))
    then show ?thesis unfolding togo_def s by linarith
  qed
qed

lemma reclaim_total:
  assumes "length ix = 1000" "k < 1000" "ix_len (ix ! k) \<noteq> 0" "\<forall>e \<in> set ix. unat (ix_len e) \<le> 2 ^ 30"
    and "unat need \<le> 2 ^ 30" "unat oldest < 1000" "togo k need left oldest < n"
  shows "\<exists>left' oldest'. reclaim n ix need left oldest = Inr (Some (left', oldest'))
    \<and> need \<le> left' \<and> unat oldest' < 1000"
  using assms(6,7)
proof (induction n arbitrary: left oldest)
  case 0
  then show ?case by simp
next
  case (Suc n)
  show ?case
  proof (cases "left < need")
    case False
    then show ?thesis using Suc.prems(1) by simp
  next
    case True
    have "ix ! unat oldest \<in> set ix" using assms(1) Suc.prems(1) by simp
    then have "unat left + unat (ix_len (ix ! unat oldest)) < 2 ^ 32"
      using assms(4,5) True by (fastforce simp: word_less_nat_alt)
    then have "togo k need (left + ix_len (ix ! unat oldest)) (RING_BUF_GetNextIndex oldest) < n"
      using togo_next [OF Suc.prems(1) assms(2,1,3) True] Suc.prems(2) by linarith
    then show ?thesis
      using Suc.IH [of "RING_BUF_GetNextIndex oldest" "left + ix_len (ix ! unat oldest)"] True Suc.prems(1) assms(1)
      by simp
  qed
qed

lemma reclaim_behind_total:
  assumes "length (index_tab r) = 1000" "k < 1000" "ix_len (index_tab r ! k) \<noteq> 0"
    and "\<forall>e \<in> set (index_tab r). unat (ix_len e) \<le> 2 ^ 30"
    and "unat need \<le> 2 ^ 30" "need \<le> uiMaxLen r - uiCurPos r" "unat oldest < 1000" "togo k need left oldest < n"
  shows "\<exists>left' oldest'. reclaim_behind n r need left oldest = Inr (Some (left', oldest'))
    \<and> need \<le> left' \<and> unat oldest' < 1000"
  using assms(7,8)
proof (induction n arbitrary: left oldest)
  case 0
  then show ?case by simp
next
  case (Suc n)
  let ?e = "index_tab r ! unat oldest"
  show ?case
  proof (cases "left < need \<and> ix_offset ?e \<noteq> 0")
    case False
    then show ?thesis using Suc.prems(1) assms(1,6) by auto
  next
    case True
    have "?e \<in> set (index_tab r)" using assms(1) Suc.prems(1) by simp
    then have "unat left + unat (ix_len ?e) < 2 ^ 32"
      using assms(4,5) True by (fastforce simp: word_less_nat_alt)
    then have "togo k need (left + ix_len ?e) (RING_BUF_GetNextIndex oldest) < n"
      using togo_next [OF Suc.prems(1) assms(2,1,3)] True Suc.prems(2) by fastforce
    then show ?thesis
      using Suc.IH [of "RING_BUF_GetNextIndex oldest" "left + ix_len ?e"] True Suc.prems(1) assms(1)
      by simp
  qed
qed

text \<open>Enough fuel for a frame of a given size.\<close>

definition fill_fuel :: "u32 \<Rightarrow> nat" where
  "fill_fuel need = 1000 * (unat need + 1)"

lemma togo_less: "unat oldest < 1000 \<Longrightarrow> k < 1000 \<Longrightarrow> togo k need left oldest < fill_fuel need"
  unfolding togo_def fill_fuel_def using ahead_less [of "unat oldest" k] by (simp add: diff_mult_distrib2)

section \<open>Writing\<close>

lemma unat_room: "unat p \<le> unat m \<Longrightarrow> unat (m - p :: u32) = unat m - unat p"
  by (simp add: unat_sub_u32)

text \<open>What finding room may change: the cursors that are not the index being written.\<close>

definition room_upd :: "RingBuf_t \<Rightarrow> RingBuf_t \<Rightarrow> bool" where
  "room_upd r r' \<longleftrightarrow> (\<exists>p full old hd. r' = r\<lparr>nIsFull := full, uiCurPos := p, uiOldestIndex := old, uiHeadIndex := hd\<rparr>
     \<and> unat old < 1000 \<and> unat hd < 1000 \<and> (p = 0 \<or> p = uiCurPos r))"

lemma room_updI:
  "unat old < 1000 \<Longrightarrow> unat hx < 1000 \<Longrightarrow> p = 0 \<or> p = uiCurPos r
   \<Longrightarrow> room_upd r (r\<lparr>nIsFull := full, uiCurPos := p, uiOldestIndex := old, uiHeadIndex := hx\<rparr>)"
  unfolding room_upd_def by blast

lemma full_room_ok:
  assumes "ring_inv ch r" and need: "need \<le> ring_len (nat ch)" and pos: "uiCurPos r \<noteq> 0"
    and fuel: "fill_fuel need \<le> fuel"
  shows "\<exists>left r'. full_room fuel (ring_len (nat ch) - uiCurPos r) need (r\<lparr>nIsFull := full\<rparr>) = Inr (Some (left, r'))
    \<and> need \<le> left \<and> unat (uiCurPos r') + unat need \<le> unat (ring_len (nat ch)) \<and> room_upd r r'"
proof -
  let ?m = "ring_len (nat ch)" and ?r = "r\<lparr>nIsFull := full\<rparr>"
  have inv: "uiMaxLen r = ?m" "length (index_tab r) = 1000" "unat (uiCurPos r) \<le> unat ?m"
    "unat (uiCurIndex r) < 1000" "unat (uiOldestIndex r) < 1000" "unat (uiHeadIndex r) < 1000"
    "\<forall>e \<in> set (index_tab r). entry_ok ?m e" "\<exists>e \<in> set (index_tab r). ix_len e \<noteq> 0"
    using assms(1) pos by (simp_all add: ring_inv_def)
  have small: "\<forall>e \<in> set (index_tab r). unat (ix_len e) \<le> 2 ^ 30"
    using inv(7) ring_len_bounds(1) [of "nat ch"] by (fastforce simp: entry_ok_def)
  have n30: "unat need \<le> 2 ^ 30" using need ring_len_bounds(1) [of "nat ch"] by (simp add: word_le_nat_alt)
  obtain k where k: "k < 1000" "ix_len (index_tab r ! k) \<noteq> 0" using inv(2,8) by (auto simp: in_set_conv_nth)
  show ?thesis
  proof (cases "?m - uiCurPos r < need")
    case True
    have "togo k need 0 (uiHeadIndex r) < fuel" using togo_less [OF inv(6) k(1)] fuel by (rule less_le_trans)
    from reclaim_total [OF inv(2) k small n30 inv(6) this]
    obtain left old where "reclaim fuel (index_tab r) need 0 (uiHeadIndex r) = Inr (Some (left, old))"
      "need \<le> left" "unat old < 1000" by blast
    then show ?thesis using True need inv(4) room_updI [of old "uiCurIndex r" 0 r full]
      by (intro exI [of _ left] exI [of _ "?r\<lparr>uiCurPos := 0, uiOldestIndex := old, uiHeadIndex := uiCurIndex r\<rparr>"])
        (simp add: full_room_def word_le_nat_alt)
  next
    case False
    then have fits: "need \<le> uiMaxLen ?r - uiCurPos ?r" using inv(1) by simp
    have "togo k need (uiLeftLen r) (uiOldestIndex r) < fuel" using togo_less [OF inv(5) k(1)] fuel by (rule less_le_trans)
    then have "\<exists>left' oldest'. reclaim_behind fuel ?r need (uiLeftLen r) (uiOldestIndex r) = Inr (Some (left', oldest'))
        \<and> need \<le> left' \<and> unat oldest' < 1000"
      using inv k small n30 fits by (intro reclaim_behind_total [where k = k]) simp_all
    then obtain left old where "reclaim_behind fuel ?r need (uiLeftLen r) (uiOldestIndex r) = Inr (Some (left, old))"
      "need \<le> left" "unat old < 1000" by blast
    moreover have "unat (uiCurPos r) + unat need \<le> unat ?m"
      using fits inv(1,3) by (simp add: word_le_nat_alt unat_room)
    ultimately show ?thesis using False inv(6) room_updI [of old "uiHeadIndex r" "uiCurPos r" r full]
      by (intro exI [of _ left] exI [of _ "?r\<lparr>uiOldestIndex := old\<rparr>"]) (simp add: full_room_def)
  qed
qed

lemma find_room_ok:
  assumes inv: "ring_inv ch r" and need: "need \<le> ring_len (nat ch)" and fuel: "fill_fuel need \<le> fuel"
  shows "\<exists>left r'. find_room fuel ch need r = Inr (Some (left, r'))
    \<and> need \<le> left \<and> unat (uiCurPos r') + unat need \<le> unat (ring_len (nat ch)) \<and> room_upd r r'"
proof -
  let ?m = "ring_len (nat ch)"
  have pos: "unat (uiCurPos r) \<le> unat ?m" and idx: "unat (uiOldestIndex r) < 1000" "unat (uiHeadIndex r) < 1000"
    using inv by (simp_all add: ring_inv_def)
  consider (full) "nIsFull r = 1" | (first) "nIsFull r \<noteq> 1" "?m - uiCurPos r < need"
    | (room) "nIsFull r \<noteq> 1" "\<not> ?m - uiCurPos r < need" by blast
  then show ?thesis
  proof cases
    case full
    then have "uiCurPos r \<noteq> 0" using inv by (simp add: ring_inv_def)
    from full_room_ok [OF inv need this fuel, of 1] have "\<exists>left r'. full_room fuel (?m - uiCurPos r) need r = Inr (Some (left, r'))
      \<and> need \<le> left \<and> unat (uiCurPos r') + unat need \<le> unat ?m \<and> room_upd r r'"
      using full by (cases r) simp
    then show ?thesis using full by (simp add: find_room_def Let_def)
  next
    case first
    then have "uiCurPos r \<noteq> 0" using need by auto
    from full_room_ok [OF inv need this fuel, of 1] first show ?thesis by (simp add: find_room_def Let_def)
  next
    case room
    then have "unat (uiCurPos r) + unat need \<le> unat ?m" using pos by (simp add: word_less_nat_alt unat_room)
    then show ?thesis using room room_updI [OF idx, of "uiCurPos r" r "nIsFull r"]
      by (intro exI [of _ "?m - uiCurPos r"] exI [of _ r]) (simp add: find_room_def Let_def)
  qed
qed

definition frame_entry :: "int \<Rightarrow> u64 \<Rightarrow> u64 \<Rightarrow> u32 \<Rightarrow> u32 \<Rightarrow> u32 \<Rightarrow> Index_t" where
  "frame_entry frameType wTime pts n frameIndex pos = \<lparr>ix_frameType = frameType, ix_frameIndex = frameIndex,
     ix_len = n, ix_offset = pos, ix_pts = pts, ix_wTime = wTime\<rparr>"

text \<open>Everything a write does: the entry and the bytes at a place that fits, and nothing else.\<close>

lemma fill_spec:
  assumes inv: "ring_inv ch r" and n: "n \<le> ring_len (nat ch)" "4 \<le> unat n" "unat n \<le> length d"
    and fuel: "fill_fuel n \<le> fuel" and b: "pRingBuf r = Some b"
  shows "\<exists>r' pos. RING_BUF_FillBuf fuel ch frameType wTime pts n d frameIndex r = Inr (Some (0, r')) \<and> ring_inv ch r'
    \<and> index_tab r' = (index_tab r)[unat (uiCurIndex r) := frame_entry frameType wTime pts n frameIndex pos]
    \<and> unat pos + unat n \<le> length b
    \<and> pRingBuf r' = Some (take (unat pos) b @ take (unat n) d @ drop (unat pos + unat n) b)
    \<and> uiCurIndex r' = RING_BUF_GetNextIndex (uiCurIndex r)
    \<and> uinewIFrameIndex r' = (if frameType = RINGBUF_FRAME_TYPE_VIDEO_I then uiCurIndex r else uinewIFrameIndex r)"
proof -
  let ?m = "ring_len (nat ch)"
  obtain left r1 where r1: "find_room fuel ch n r = Inr (Some (left, r1))" "n \<le> left"
    "unat (uiCurPos r1) + unat n \<le> unat ?m" "room_upd r r1"
    using find_room_ok [OF inv n(1) fuel] by blast
  obtain p full old hd where u: "r1 = r\<lparr>nIsFull := full, uiCurPos := p, uiOldestIndex := old, uiHeadIndex := hd\<rparr>"
    "unat old < 1000" "unat hd < 1000" using r1(4) by (auto simp: room_upd_def)
  have i: "nIsInit r \<noteq> 0" "length b = unat ?m" "length (index_tab r) = 1000" "unat (uiCurIndex r) < 1000"
    using inv b by (simp_all add: ring_inv_def)
  let ?e = "frame_entry frameType wTime pts n frameIndex p"
  have fit: "unat p + unat n \<le> unat ?m" using r1(3) u(1) by simp
  let ?b = "take (unat p) b @ take (unat n) d @ drop (unat p + unat n) b"
  let ?r' = "r1\<lparr>pRingBuf := Some ?b, index_tab := (index_tab r)[unat (uiCurIndex r) := ?e],
     uiCurPos := p + n, uinewIFrameIndex := (if frameType = RINGBUF_FRAME_TYPE_VIDEO_I then uiCurIndex r else uinewIFrameIndex r),
     uiCurIndex := RING_BUF_GetNextIndex (uiCurIndex r), uiLeftLen := left - n\<rparr>"
  have put: "put_frame frameType wTime pts n d frameIndex left r1 = Inr ?r'"
    using fit i n(3) b u(1) by (simp add: put_frame_def mem_read_def mem_write_def frame_entry_def min_absorb2)
  have fill: "RING_BUF_FillBuf fuel ch frameType wTime pts n d frameIndex r = Inr (Some (0, ?r'))"
    using r1(1) put i(1) by (simp add: RING_BUF_FillBuf_def)
  have ok: "entry_ok ?m ?e" using fit n(2) by (simp add: entry_ok_def frame_entry_def)
  have pn: "unat (p + n) = unat p + unat n"
    using fit ring_len_bounds(1) [of "nat ch"] by (intro unat_add_u32) simp
  then have nz: "p + n \<noteq> 0" using n(2) by (metis add_is_0 not_numeral_le_zero unat_0)
  have inm: "?e \<in> set ((index_tab r)[unat (uiCurIndex r) := ?e])" using i(3,4) by (simp add: set_update_memI)
  have "ix_len ?e \<noteq> 0" using n(2) by (auto simp: frame_entry_def)
  with inm have some: "\<exists>e \<in> set ((index_tab r)[unat (uiCurIndex r) := ?e]). ix_len e \<noteq> 0" by blast
  have all: "\<forall>e \<in> set ((index_tab r)[unat (uiCurIndex r) := ?e]). entry_ok ?m e"
    using inv ok set_update_subset_insert [of "index_tab r" "unat (uiCurIndex r)" ?e] by (auto simp: ring_inv_def)
  have blen: "length ?b = unat ?m" using fit i(2) n(3) by simp
  have ixs: "unat (RING_BUF_GetNextIndex (uiCurIndex r)) < 1000" "unat (uinewIFrameIndex r) < 1000" "uiMaxLen r = ?m"
    using inv i(4) by (simp_all add: ring_inv_def)
  have "ring_inv ch ?r'"
    unfolding ring_inv_def using i u(2,3) some all blen ixs pn fit nz by (simp add: u(1))
  then show ?thesis using fill fit i(2) u(1) by (intro exI [of _ ?r'] exI [of _ p]) simp
qed

section \<open>Reading\<close>

lemma bytes_match_total: "off + length cs \<le> length b \<Longrightarrow> \<exists>m. bytes_match b off cs = Inr m"
  by (induction cs arbitrary: off) (auto simp: load_byte_def)

lemma bytes_match_prefix: "off + length cs \<le> length b
  \<Longrightarrow> bytes_match b off cs = Inr (take (length cs) (drop off b) = cs)"
proof (induction cs arbitrary: off)
  case (Cons c cs)
  then have "take (length (c # cs)) (drop off b) = b ! off # take (length cs) (drop (Suc off) b)"
    by (simp add: Cons_nth_drop_Suc [symmetric])
  then show ?case using Cons by (simp add: load_byte_def)
qed simp

lemma entry_start:
  assumes "entry_ok m e" "4 \<le> unat m"
  shows "unat (ix_offset e) + 4 \<le> unat m"
  using assms by (auto simp: entry_ok_def)

lemma ring_invD:
  assumes "ring_inv ch r" "pRingBuf r = Some b"
  shows "length b = unat (ring_len (nat ch))" "length (index_tab r) = 1000" "nIsInit r \<noteq> 0"
    "unat (uiCurIndex r) < 1000" "unat (uinewIFrameIndex r) < 1000" "unat (uiOldestIndex r) < 1000"
    "unat i < 1000 \<Longrightarrow> entry_ok (ring_len (nat ch)) (index_tab r ! unat i)"
  using assms by (auto simp: ring_inv_def)

lemma start_code_total:
  assumes "ring_inv ch r" "pRingBuf r = Some b" "unat i < 1000" "length cs \<le> 4"
  shows "\<exists>m. ring_match r (ix_offset (index_tab r ! unat i)) cs = Inr m"
  using entry_start [OF ring_invD(7) [OF assms(1-3)] ring_len_bounds(2)] ring_invD(1) [OF assms(1,2)] assms(4)
    bytes_match_total [of "unat (ix_offset (index_tab r ! unat i))" cs b]
  by (simp add: ring_match_def assms(2))

lemma resync_total:
  assumes "ring_inv ch r" "pRingBuf r = Some b" "unat i < 1000"
  shows "\<exists>j out'. resync r i out = Inr (j, out') \<and> unat j < 1000
    \<and> (j = i \<and> out' = out \<or> j = uinewIFrameIndex r \<and> out' = out\<lparr>o_StartReadIndex := j\<rparr>)"
proof -
  obtain m where "ring_match r (ix_offset (index_tab r ! unat i)) [0, 0, 0, 1] = Inr m"
    using start_code_total [OF assms, of "[0, 0, 0, 1]"] by auto
  then show ?thesis using assms(3) ring_invD(2,5) [OF assms(1,2)] by (simp add: resync_def)
qed

lemma sint_len:
  assumes "entry_ok (ring_len k) e"
  shows "sint (ix_len e) = int (unat (ix_len e))"
proof -
  have "unat (ix_len e) < 2 ^ 31" using assms ring_len_bounds(1) [of k] by (auto simp: entry_ok_def)
  then show ?thesis by (simp add: sint_u32_unat)
qed

text \<open>A reader never gets a region that is not inside the block, and its index stays in the table.\<close>

lemma get_one_safe:
  assumes inv: "ring_inv ch r" and b: "pRingBuf r = Some b"
  shows "\<exists>n out'. RING_BUF_GetOnePacket True out r = Inr (n, out')
    \<and> (n > 0 \<longrightarrow> (\<exists>off. o_pDataBuf out' = Some off \<and> off + nat n \<le> length b))
    \<and> (unat (o_StartReadIndex out') < 1000)"
proof (cases "o_StartReadIndex out \<ge> MAX_INDEX")
  case True
  then show ?thesis using ring_invD(5) [OF inv b] by (simp add: RING_BUF_GetOnePacket_def)
next
  case False
  then have i: "unat (o_StartReadIndex out) < 1000" by (simp add: MAX_INDEX_def word_le_nat_alt)
  obtain j out1 where j: "resync r (o_StartReadIndex out) out = Inr (j, out1)" "unat j < 1000"
    "o_StartReadIndex out1 = j" using resync_total [OF inv b i, of out] by auto
  let ?e = "index_tab r ! unat j"
  have e: "entry_ok (ring_len (nat ch)) ?e" by (rule ring_invD(7) [OF inv b j(2)])
  have at: "entry_at (index_tab r) j = Inr ?e" using j(2) ring_invD(2) [OF inv b] by simp
  have "0 < sint (ix_len ?e) \<Longrightarrow> ix_len ?e \<noteq> 0" by auto
  moreover have "unat (ix_offset ?e) + nat (sint (ix_len ?e)) \<le> length b"
    using e ring_invD(1) [OF inv b] by (simp add: sint_len [OF e] entry_ok_def)
  ultimately show ?thesis
    using False i j at ring_invD(3) [OF inv b]
    by (cases "uiCurIndex r = j") (simp_all add: RING_BUF_GetOnePacket_def Let_def hand_out_def)
qed

text \<open>A frame just written is what a reader at its index gets.\<close>

lemma get_one_frame:
  assumes inv: "ring_inv ch r" and b: "pRingBuf r = Some b" and i: "unat i < 1000" "uiCurIndex r \<noteq> i"
    and e: "index_tab r ! unat i = e" "ix_len e \<noteq> 0"
    and st: "is_audio (ix_frameType e) \<or> take 4 (drop (unat (ix_offset e)) b) = [0, 0, 0, 1]"
    and o: "o_StartReadIndex out = i"
  shows "RING_BUF_GetOnePacket True out r = Inr (int (unat (ix_len e)),
    (hand_out e out)\<lparr>o_frameIndex := ix_frameIndex e, o_StartReadIndex := RING_BUF_GetNextIndex i\<rparr>)"
proof -
  have ok: "entry_ok (ring_len (nat ch)) e" using ring_invD(7) [OF inv b i(1)] e(1) by simp
  have at: "entry_at (index_tab r) i = Inr e" using i(1) e(1) ring_invD(2) [OF inv b] by simp
  have "unat (ix_offset e) + 4 \<le> length b"
    using entry_start [OF ok ring_len_bounds(2)] ring_invD(1) [OF inv b] by simp
  then have "ring_match r (ix_offset e) [0, 0, 0, 1] = Inr (take 4 (drop (unat (ix_offset e)) b) = [0, 0, 0, 1])"
    using bytes_match_prefix [of "unat (ix_offset e)" "[0, 0, 0, 1]" b]
    by (simp add: ring_match_def b eval_nat_numeral del: bytes_match.simps)
  then have "resync r i out = Inr (i, out)" using st at by (auto simp: resync_def)
  moreover have "\<not> i \<ge> MAX_INDEX" using i(1) by (simp add: MAX_INDEX_def word_le_nat_alt)
  ultimately show ?thesis
    using at i(2) e(2) ring_invD(3) [OF inv b]
    by (simp add: RING_BUF_GetOnePacket_def Let_def o sint_len [OF ok])
qed

lemma fill_then_read:
  assumes inv: "ring_inv ch r" and n: "n \<le> ring_len (nat ch)" "4 \<le> unat n" "unat n \<le> length d"
    and t: "is_audio frameType \<or> take 4 d = [0, 0, 0, 1]" and o: "o_StartReadIndex out = uiCurIndex r"
  shows "\<exists>r' out' off b. RING_BUF_FillBuf (fill_fuel n) ch frameType wTime pts n d frameIndex r = Inr (Some (0, r'))
    \<and> RING_BUF_GetOnePacket True out r' = Inr (int (unat n), out') \<and> pRingBuf r' = Some b
    \<and> o_pDataBuf out' = Some off \<and> mem_read b off (unat n) = Inr (take (unat n) d)
    \<and> o_pFrameType out' = frameType \<and> o_TimeStamp out' = pts \<and> o_wTimeStamp out' = wTime
    \<and> o_frameIndex out' = frameIndex \<and> o_StartReadIndex out' = uiCurIndex r'"
proof -
  obtain b0 where b0: "pRingBuf r = Some b0" using inv by (auto simp: ring_inv_def)
  obtain r' pos where f: "RING_BUF_FillBuf (fill_fuel n) ch frameType wTime pts n d frameIndex r = Inr (Some (0, r'))"
    "ring_inv ch r'"
    "index_tab r' = (index_tab r)[unat (uiCurIndex r) := frame_entry frameType wTime pts n frameIndex pos]"
    "unat pos + unat n \<le> length b0"
    "pRingBuf r' = Some (take (unat pos) b0 @ take (unat n) d @ drop (unat pos + unat n) b0)"
    "uiCurIndex r' = RING_BUF_GetNextIndex (uiCurIndex r)"
    using fill_spec [OF inv n order_refl b0, of frameType wTime pts frameIndex] by blast
  let ?b = "take (unat pos) b0 @ take (unat n) d @ drop (unat pos + unat n) b0"
  let ?e = "frame_entry frameType wTime pts n frameIndex pos"
  have i: "unat (uiCurIndex r) < 1000" "length (index_tab r) = 1000" using ring_invD [OF inv b0] by blast+
  have ne: "uiCurIndex r' \<noteq> uiCurIndex r"
    using next_index [OF i(1)] unfolding f(6) by (auto split: if_splits dest: arg_cong [where f = unat])
  have e: "index_tab r' ! unat (uiCurIndex r) = ?e" using f(3) i by simp
  have "drop (unat pos) ?b = take (unat n) d @ drop (unat pos + unat n) b0" using f(4) by simp
  then have rd: "take (unat n) (drop (unat pos) ?b) = take (unat n) d" "take 4 (drop (unat pos) ?b) = take 4 d"
    using n by simp_all
  have "RING_BUF_GetOnePacket True out r' = Inr (int (unat (ix_len ?e)),
    (hand_out ?e out)\<lparr>o_frameIndex := ix_frameIndex ?e, o_StartReadIndex := RING_BUF_GetNextIndex (uiCurIndex r)\<rparr>)"
    by (rule get_one_frame [OF f(2,5) i(1) ne e _ _ o]) (use n(2) t rd in \<open>auto simp: frame_entry_def\<close>)
  then show ?thesis using f(1,4,5,6) rd(1) n(3)
    by (intro exI [of _ r'] exI [of _ "(hand_out ?e out)\<lparr>o_frameIndex := ix_frameIndex ?e,
        o_StartReadIndex := RING_BUF_GetNextIndex (uiCurIndex r)\<rparr>"] exI [of _ "unat pos"] exI [of _ ?b])
      (simp add: hand_out_def frame_entry_def mem_read_def)
qed

section \<open>Where the readers leave the table\<close>

text \<open>The second computation of the start is wrong for a write index between 5 and the frames asked for.\<close>

lemma next_iframe_start:
  assumes "5 \<le> unat (uiCurIndex r)" "int (unat (uiCurIndex r)) \<le> preFrmNum" "preFrmNum < 2 ^ 31"
    and "unat (uiCurIndex r) < 1000"
  shows "\<not> uiCurIndex r > word_of_int preFrmNum"
    and "unat (MAX_INDEX - (READSTART_INDEX - uiCurIndex r)) = 995 + unat (uiCurIndex r)"
proof -
  have "unat (word_of_int preFrmNum :: u32) = nat preFrmNum"
    using assms(2,3) by (simp add: unat_word_of_int_u32)
  then show "\<not> uiCurIndex r > word_of_int preFrmNum"
    using assms(2) by (simp add: word_less_nat_alt)
  have e: "MAX_INDEX - (READSTART_INDEX - uiCurIndex r) = uiCurIndex r + 995"
    by (simp add: MAX_INDEX_def READSTART_INDEX_def)
  show "unat (MAX_INDEX - (READSTART_INDEX - uiCurIndex r)) = 995 + unat (uiCurIndex r)"
    unfolding e using assms(4) by (simp add: unat_add_u32)
qed

lemma next_iframe_leaves_table:
  assumes inv: "ring_inv ch r" and i: "5 \<le> unat (uiCurIndex r)" "int (unat (uiCurIndex r)) \<le> preFrmNum" "preFrmNum < 2 ^ 31"
  shows "RING_BUF_GetNextIFrame (Suc fuel) True preFrmNum out r = Inl BufferOverrun"
proof -
  obtain b where b: "pRingBuf r = Some b" using inv by (auto simp: ring_inv_def)
  let ?s = "MAX_INDEX - (READSTART_INDEX - uiCurIndex r)"
  have s: "unat ?s = 995 + unat (uiCurIndex r)" and lt: "\<not> uiCurIndex r > word_of_int preFrmNum"
    using next_iframe_start [OF i ring_invD(4) [OF inv b]] by blast+
  then have "uiCurIndex r \<noteq> ?s" by auto
  moreover have "entry_at (index_tab r) ?s = Inl BufferOverrun"
    using s i(1) ring_invD(2) [OF inv b] by (simp add: entry_at_def)
  ultimately show ?thesis
    using lt ring_invD(3) [OF inv b] by (simp add: RING_BUF_GetNextIFrame_def Let_def)
qed

text \<open>The backward search steps from index 1 to index 1000, outside the table.\<close>

lemma pre_one_leaves_table:
  assumes inv: "ring_inv ch r" and "uiCurIndex r \<noteq> uiOldestIndex r" "0 < unat i" "unat i < 1000" "unat i < fuel"
    and no: "\<forall>k. 0 < k \<and> k \<le> unat i \<longrightarrow> ix_frameType (index_tab r ! k) \<noteq> RINGBUF_FRAME_TYPE_VIDEO_I"
  shows "pre_one_loop fuel r i out = Inl BufferOverrun"
  using assms(3-5) no
proof (induction fuel arbitrary: i out)
  case 0
  then show ?case by simp
next
  case (Suc fuel)
  have len: "length (index_tab r) = 1000" using inv by (simp add: ring_inv_def)
  have p: "unat (i - 1) = unat i - 1" using Suc.prems(1) by (simp add: unat_sub_u32)
  have miss: "iframe_test r (index_tab r ! unat i) = Inr False"
    using Suc.prems(1,4) by (simp add: iframe_test_def)
  have step: "pre_one_loop (Suc fuel) r i out
    = pre_one_loop fuel r (RING_BUF_GetPreIndex i) (out\<lparr>o_StartReadIndex := RING_BUF_GetPreIndex i\<rparr>)"
    using assms(2) Suc.prems(2) len miss by (simp add: Let_def)
  show ?case
  proof (cases "unat i = 1")
    case True
    then have "RING_BUF_GetPreIndex i = MAX_INDEX"
      using p by (simp add: RING_BUF_GetPreIndex_def Let_def unat_eq_0)
    moreover have "entry_at (index_tab r) MAX_INDEX = Inl BufferOverrun" using len by (simp add: entry_at_def MAX_INDEX_def)
    moreover obtain m where "fuel = Suc m" using Suc.prems(3) True by (cases fuel) auto
    ultimately show ?thesis unfolding step using assms(2) by simp
  next
    case False
    then have "RING_BUF_GetPreIndex i = i - 1"
      using p Suc.prems(1) by (auto simp: RING_BUF_GetPreIndex_def Let_def dest: arg_cong [where f = unat])
    then show ?thesis unfolding step using Suc False p by (intro Suc.IH) auto
  qed
qed

section \<open>A frame larger than the ring\<close>

lemma reclaim_empty:
  assumes "length ix = 1000" "\<forall>e \<in> set ix. ix_len e = 0" "left < need" "unat oldest < 1000"
  shows "reclaim fuel ix need left oldest = Inr None"
  using assms(4)
proof (induction fuel arbitrary: oldest)
  case (Suc fuel)
  have "ix_len (ix ! unat oldest) = 0" using assms(1,2) Suc.prems by simp
  then show ?case using Suc assms(1,3) by simp
qed simp

lemma oversized_never_returns:
  assumes "nIsInit r \<noteq> 0" "nIsFull r = 0" "uiCurPos r = 0" "uiHeadIndex r = 0"
    and "index_tab r = replicate 1000 zero_index" "ring_len (nat ch) < n"
  shows "RING_BUF_FillBuf fuel ch frameType wTime pts n d frameIndex r = Inr None"
proof -
  have "reclaim fuel (index_tab r) n 0 0 = Inr None"
    by (rule reclaim_empty) (use assms(5,6) in \<open>auto simp: zero_index_def word_less_nat_alt\<close>)
  then show ?thesis using assms by (simp add: RING_BUF_FillBuf_def find_room_def Let_def full_room_def)
qed

section \<open>The ring as a machine\<close>

text \<open>A ring starts as initialised, and a step writes a frame that fits its block.\<close>

definition ring_start :: "int \<Rightarrow> RingBuf_t \<Rightarrow> bool" where
  "ring_start ch r \<longleftrightarrow> 0 \<le> ch \<and> ch < 3 \<and> (\<exists>junk g g'. length g = 3 \<and> (\<forall>i. length (junk i) = unat (ring_len i))
     \<and> RING_BUF_Init (\<lambda>_. True) junk g = (0, g') \<and> r = g' ! nat ch)"

inductive ring_step :: "int \<Rightarrow> RingBuf_t \<Rightarrow> RingBuf_t \<Rightarrow> bool" for ch :: int where
  ring_write: "n \<le> ring_len (nat ch) \<Longrightarrow> 4 \<le> unat n \<Longrightarrow> unat n \<le> length d
    \<Longrightarrow> RING_BUF_FillBuf (fill_fuel n) ch frameType wTime pts n d frameIndex r = Inr (Some (0, r')) \<Longrightarrow> ring_step ch r r'"

lemma init_all:
  "length g = 3 \<Longrightarrow> RING_BUF_Init (\<lambda>_. True) junk g = (0, map (\<lambda>i. zero_ring\<lparr>uiMaxLen := ring_len i, uiLeftLen := ring_len i,
     pRingBuf := Some (junk i), uiReadIndex := 0, nIsInit := 1\<rparr>) [0, 1, 2])"
  by (auto simp: RING_BUF_Init_def MAX_CHANNEL_NUM_def Let_def upt_rec numeral_3_eq_3 numeral_2_eq_2 length_Suc_conv)

lemma ring_start_inv: "ring_start ch r \<Longrightarrow> ring_inv ch r"
proof -
  assume "ring_start ch r"
  then obtain junk g g' where c: "0 \<le> ch" "ch < 3" "length g = 3" "\<forall>i. length (junk i) = unat (ring_len i)"
    "RING_BUF_Init (\<lambda>_. True) junk g = (0, g')" "r = g' ! nat ch" by (auto simp: ring_start_def)
  have "ch = 0 \<or> ch = 1 \<or> ch = 2" using c(1,2) by auto
  then have "r = zero_ring\<lparr>uiMaxLen := ring_len (nat ch), uiLeftLen := ring_len (nat ch),
     pRingBuf := Some (junk (nat ch)), uiReadIndex := 0, nIsInit := 1\<rparr>"
    using c(5,6) init_all [OF c(3), of junk] by auto
  then show ?thesis using c(4) by (simp add: ring_inv_def zero_ring_def zero_index_def entry_ok_def)
qed

lemma ring_step_inv: "ring_inv ch r \<Longrightarrow> ring_step ch r r' \<Longrightarrow> ring_inv ch r'"
proof (erule ring_step.cases)
  fix n d frameType wTime pts frameIndex r1 r2
  assume inv: "ring_inv ch r" and e: "r = r1" "r' = r2" and n: "n \<le> ring_len (nat ch)" "4 \<le> unat n" "unat n \<le> length d"
    and f: "RING_BUF_FillBuf (fill_fuel n) ch frameType wTime pts n d frameIndex r1 = Inr (Some (0, r2))"
  obtain b where "pRingBuf r = Some b" using inv by (auto simp: ring_inv_def)
  from fill_spec [OF inv n order_refl this, of frameType wTime pts frameIndex] f e show "ring_inv ch r'" by auto
qed

interpretation rbm: machine "ring_start ch" "ring_step ch" "ring_inv ch" for ch :: int
  by unfold_locales (auto intro: ring_start_inv ring_step_inv)

end
