(* ===== verification/State_Machine.thy ===== *)
theory State_Machine
  imports Memory
begin

text \<open>
  The hierarchical state machine of \<open>common/state_machine/state_machine.c\<close>. States live in a map
  from addresses; a null pointer is \<open>None\<close>, a link to an address that is not in the map is the
  fault \<open>NullPointer\<close>. The user's functions are answered or recorded: a guard is a predicate of
  the event, an action is a call in the list of calls, with its arguments. The two loops follow
  links that the user set and may be circular, so they take fuel.
\<close>

section \<open>Data\<close>

record event =
  ev_type :: int
  ev_data :: nat

record transition =
  eventType :: int
  guard :: "(event \<Rightarrow> bool) option"
  has_action :: bool
  nextState :: "nat option"

record state =
  parentState :: "nat option"
  entryState :: "nat option"
  transitions :: "transition list"
  has_entryAction :: bool
  has_exitAction :: bool

abbreviation numTransitions :: "state \<Rightarrow> nat" where
  "numTransitions s \<equiv> length (transitions s)"

record stateMachine =
  currentState :: "nat option"
  previousState :: "nat option"
  errorState :: "nat option"

text \<open>A call names the states whose data it is given.\<close>

datatype sm_call = ExitCall nat | ActionCall nat nat | EntryCall nat

type_synonym states = "nat \<Rightarrow> state option"

definition stateM_errArg :: int where "stateM_errArg = -2"
definition stateM_errorStateReached :: int where "stateM_errorStateReached = -1"
definition stateM_stateChanged :: int where "stateM_stateChanged = 0"
definition stateM_stateLoopSelf :: int where "stateM_stateLoopSelf = 1"
definition stateM_noStateChange :: int where "stateM_noStateChange = 2"
definition stateM_finalStateReached :: int where "stateM_finalStateReached = 3"

section \<open>Operations\<close>

definition stateM_init :: "stateMachine option \<Rightarrow> nat option \<Rightarrow> nat option \<Rightarrow> stateMachine option" where
  "stateM_init fsm initialState errState =
    map_option (\<lambda>f. f\<lparr>currentState := initialState, previousState := None, errorState := errState\<rparr>) fsm"

definition state_at :: "states \<Rightarrow> nat \<Rightarrow> state result" where
  "state_at S a = (case S a of None \<Rightarrow> Inl NullPointer | Some s \<Rightarrow> Inr s)"

text \<open>The first transition for the event whose guard, if any, holds.\<close>

fun getTransition :: "transition list \<Rightarrow> event \<Rightarrow> transition option" where
  "getTransition [] ev = None"
| "getTransition (t # ts) ev =
    (if eventType t = ev_type ev then
       (case guard t of None \<Rightarrow> Some t
        | Some g \<Rightarrow> if g ev then Some t else getTransition ts ev)
     else getTransition ts ev)"

definition goToErrorState :: "states \<Rightarrow> stateMachine \<Rightarrow> (sm_call list \<times> stateMachine) result" where
  "goToErrorState S fsm =
    (let fsm = fsm\<lparr>previousState := currentState fsm, currentState := errorState fsm\<rparr>
     in case currentState fsm of None \<Rightarrow> Inr ([], fsm)
        | Some c \<Rightarrow> bindR (state_at S c) (\<lambda>s. Inr (if has_entryAction s then [EntryCall c] else [], fsm)))"

text \<open>Down the entry states of a group.\<close>

fun enter :: "nat \<Rightarrow> states \<Rightarrow> nat \<Rightarrow> nat option result" where
  "enter 0 S a = Inr None"
| "enter (Suc n) S a =
    bindR (state_at S a) (\<lambda>s. case entryState s of None \<Rightarrow> Inr (Some a) | Some e \<Rightarrow> enter n S e)"

text \<open>What is done with a transition of the current state \<open>c\<close> to a next state.\<close>

definition take_transition :: "nat \<Rightarrow> states \<Rightarrow> stateMachine \<Rightarrow> nat \<Rightarrow> transition \<Rightarrow> nat
    \<Rightarrow> (int \<times> sm_call list \<times> stateMachine) option result" where
  "take_transition fuel S fsm c t nx =
    bindR (enter fuel S nx) (\<lambda>r. case r of None \<Rightarrow> Inr None
      | Some nx \<Rightarrow>
          bindR (state_at S c) (\<lambda>cs.
          bindR (state_at S nx) (\<lambda>ns.
          let calls = (if nx \<noteq> c \<and> has_exitAction cs then [ExitCall c] else [])
                @ (if has_action t then [ActionCall c nx] else [])
                @ (if nx \<noteq> c \<and> has_entryAction ns then [EntryCall nx] else []);
              fsm = fsm\<lparr>previousState := Some c, currentState := Some nx\<rparr>
          in Inr (Some (if nx = c then stateM_stateLoopSelf
               else if Some nx = errorState fsm then stateM_errorStateReached
               else if numTransitions ns = 0 then stateM_finalStateReached
               else stateM_stateChanged, calls, fsm)))))"

text \<open>The search up the parents, from \<open>a\<close>.\<close>

fun handle_loop :: "nat \<Rightarrow> states \<Rightarrow> stateMachine \<Rightarrow> nat \<Rightarrow> event \<Rightarrow> nat
    \<Rightarrow> (int \<times> sm_call list \<times> stateMachine) option result" where
  "handle_loop 0 S fsm c ev a = Inr None"
| "handle_loop (Suc n) S fsm c ev a =
    bindR (state_at S a) (\<lambda>s.
    case getTransition (transitions s) ev of
      None \<Rightarrow>
        (case parentState s of None \<Rightarrow> Inr (Some (stateM_noStateChange, [], fsm))
         | Some p \<Rightarrow> handle_loop n S fsm c ev p)
    | Some t \<Rightarrow>
        (case nextState t of
           None \<Rightarrow> bindR (goToErrorState S fsm) (\<lambda>(calls, fsm). Inr (Some (stateM_errorStateReached, calls, fsm)))
         | Some nx \<Rightarrow> take_transition n S fsm c t nx))"

definition stateM_handleEvent :: "nat \<Rightarrow> states \<Rightarrow> stateMachine option \<Rightarrow> event option
    \<Rightarrow> (int \<times> sm_call list \<times> stateMachine option) option result" where
  "stateM_handleEvent fuel S fsm event =
    (case (fsm, event) of
      (Some fsm, Some ev) \<Rightarrow>
        (case currentState fsm of
           None \<Rightarrow> bindR (goToErrorState S fsm) (\<lambda>(calls, fsm). Inr (Some (stateM_errorStateReached, calls, Some fsm)))
         | Some c \<Rightarrow>
             bindR (state_at S c) (\<lambda>s.
             if numTransitions s = 0 then Inr (Some (stateM_noStateChange, [], Some fsm))
             else bindR (handle_loop fuel S fsm c ev c)
               (\<lambda>r. Inr (map_option (\<lambda>(n, calls, fsm). (n, calls, Some fsm)) r))))
    | _ \<Rightarrow> Inr (Some (stateM_errArg, [], fsm)))"

definition stateM_currentState :: "stateMachine option \<Rightarrow> nat option" where
  "stateM_currentState fsm = (case fsm of None \<Rightarrow> None | Some f \<Rightarrow> currentState f)"

definition stateM_previousState :: "stateMachine option \<Rightarrow> nat option" where
  "stateM_previousState fsm = (case fsm of None \<Rightarrow> None | Some f \<Rightarrow> previousState f)"

definition stateM_stopped :: "states \<Rightarrow> stateMachine option \<Rightarrow> bool result" where
  "stateM_stopped S fsm =
    (case fsm of None \<Rightarrow> Inr True
     | Some f \<Rightarrow> (case currentState f of None \<Rightarrow> Inl NullPointer
         | Some c \<Rightarrow> bindR (state_at S c) (\<lambda>s. Inr (numTransitions s = 0))))"

section \<open>Hierarchies\<close>

text \<open>
  A hierarchy is well formed when its links stay inside it and lead strictly up, or strictly down,
  by a height below \<open>b\<close>: then no chain of parents or entry states is circular.
\<close>

definition hierarchy :: "states \<Rightarrow> (nat \<Rightarrow> nat) \<Rightarrow> nat \<Rightarrow> bool" where
  "hierarchy S height b \<longleftrightarrow> (\<forall>a s. S a = Some s \<longrightarrow> height a < b
     \<and> (\<forall>p. parentState s = Some p \<longrightarrow> p \<in> dom S \<and> height a < height p)
     \<and> (\<forall>e. entryState s = Some e \<longrightarrow> e \<in> dom S \<and> height e < height a)
     \<and> (\<forall>t \<in> set (transitions s). \<forall>n. nextState t = Some n \<longrightarrow> n \<in> dom S))"

definition machine_ok :: "states \<Rightarrow> stateMachine \<Rightarrow> bool" where
  "machine_ok S fsm \<longleftrightarrow> (\<forall>c. currentState fsm = Some c \<longrightarrow> c \<in> dom S) \<and> (\<forall>e. errorState fsm = Some e \<longrightarrow> e \<in> dom S)"

text \<open>The states that are asked for a transition: the state and its ancestors, nearest first.\<close>

fun lineage :: "nat \<Rightarrow> states \<Rightarrow> nat \<Rightarrow> state list" where
  "lineage 0 S a = []"
| "lineage (Suc n) S a = (case S a of None \<Rightarrow> [] | Some s \<Rightarrow>
     s # (case parentState s of None \<Rightarrow> [] | Some p \<Rightarrow> lineage n S p))"

fun entry_leaf :: "nat \<Rightarrow> states \<Rightarrow> nat \<Rightarrow> nat" where
  "entry_leaf 0 S a = a"
| "entry_leaf (Suc n) S a = (case S a of None \<Rightarrow> a | Some s \<Rightarrow>
     (case entryState s of None \<Rightarrow> a | Some e \<Rightarrow> entry_leaf n S e))"

lemma enter_total:
  assumes "hierarchy S height b" "a \<in> dom S" "height a < n"
  shows "enter n S a = Inr (Some (entry_leaf n S a)) \<and> entry_leaf n S a \<in> dom S"
  using assms(2,3)
proof (induction n arbitrary: a)
  case 0
  then show ?case by simp
next
  case (Suc n)
  then obtain s where s: "S a = Some s" by auto
  show ?case
  proof (cases "entryState s")
    case None
    then show ?thesis using s by (auto simp: state_at_def)
  next
    case (Some e)
    then have "e \<in> dom S" "height e < height a" using assms(1) s unfolding hierarchy_def by blast+
    then show ?thesis using Suc s Some by (simp add: state_at_def)
  qed
qed

lemma entry_leaf_is_leaf:
  assumes "hierarchy S height b" "a \<in> dom S" "height a < n"
  shows "\<exists>s. S (entry_leaf n S a) = Some s \<and> entryState s = None"
  using assms(2,3)
proof (induction n arbitrary: a)
  case 0
  then show ?case by simp
next
  case (Suc n)
  then obtain s where s: "S a = Some s" by auto
  show ?case
  proof (cases "entryState s")
    case None
    then show ?thesis using s by simp
  next
    case (Some e)
    then have "e \<in> dom S" "height e < height a" using assms(1) s unfolding hierarchy_def by blast+
    then show ?thesis using Suc s Some by simp
  qed
qed

text \<open>
  The transition that fires, said without the search: of the transitions of the state and its
  ancestors, nearest first, the first one that is for the event and has no guard or one that holds.
\<close>

definition enabled :: "event \<Rightarrow> transition \<Rightarrow> bool" where
  "enabled ev t \<longleftrightarrow> eventType t = ev_type ev \<and> (case guard t of None \<Rightarrow> True | Some g \<Rightarrow> g ev)"

definition firing :: "state list \<Rightarrow> event \<Rightarrow> transition option" where
  "firing ss ev = find (enabled ev) (concat (map transitions ss))"

lemma getTransition_find: "getTransition ts ev = find (enabled ev) ts"
  by (induction ts) (auto simp: enabled_def split: option.split)

lemma find_append: "find P (xs @ ys) = (case find P xs of None \<Rightarrow> find P ys | Some x \<Rightarrow> Some x)"
  by (induction xs) auto

lemma firing_simps [simp]:
  "firing [] ev = None"
  "firing (s # ss) ev = (case getTransition (transitions s) ev of Some t \<Rightarrow> Some t | None \<Rightarrow> firing ss ev)"
  by (auto simp: firing_def getTransition_find find_append split: option.split)

lemma getTransition_mem: "getTransition ts ev = Some t \<Longrightarrow> t \<in> set ts"
  by (induction ts) (auto split: if_splits option.splits)

text \<open>What the machine does with the transition found.\<close>

definition outcome :: "nat \<Rightarrow> states \<Rightarrow> stateMachine \<Rightarrow> nat \<Rightarrow> transition option \<Rightarrow> int \<times> sm_call list \<times> stateMachine" where
  "outcome n S fsm c found =
    (case found of None \<Rightarrow> (stateM_noStateChange, [], fsm)
     | Some t \<Rightarrow>
        (case nextState t of
           None \<Rightarrow> (stateM_errorStateReached,
              (case errorState fsm of None \<Rightarrow> [] | Some e \<Rightarrow> if has_entryAction (the (S e)) then [EntryCall e] else []),
              fsm\<lparr>previousState := currentState fsm, currentState := errorState fsm\<rparr>)
         | Some x \<Rightarrow>
            (let nx = entry_leaf n S x; ns = the (S nx)
             in (if nx = c then stateM_stateLoopSelf
                 else if Some nx = errorState fsm then stateM_errorStateReached
                 else if numTransitions ns = 0 then stateM_finalStateReached
                 else stateM_stateChanged,
                 (if nx \<noteq> c \<and> has_exitAction (the (S c)) then [ExitCall c] else [])
                 @ (if has_action t then [ActionCall c nx] else [])
                 @ (if nx \<noteq> c \<and> has_entryAction ns then [EntryCall nx] else []),
                 fsm\<lparr>previousState := Some c, currentState := Some nx\<rparr>))))"

lemma goToErrorState_ok:
  assumes "machine_ok S fsm"
  shows "goToErrorState S fsm = Inr ((case errorState fsm of None \<Rightarrow> [] | Some e \<Rightarrow> if has_entryAction (the (S e)) then [EntryCall e] else []),
    fsm\<lparr>previousState := currentState fsm, currentState := errorState fsm\<rparr>)"
  using assms by (auto simp: goToErrorState_def machine_ok_def state_at_def Let_def split: option.splits)

lemma hierarchyD:
  assumes "hierarchy S height b" "S a = Some s"
  shows "height a < b" "parentState s = Some p \<Longrightarrow> p \<in> dom S \<and> height a < height p"
    "entryState s = Some e \<Longrightarrow> e \<in> dom S \<and> height e < height a"
    "t \<in> set (transitions s) \<Longrightarrow> nextState t = Some x \<Longrightarrow> x \<in> dom S"
  using assms unfolding hierarchy_def by blast+

lemma entry_leaf_fuel:
  assumes "hierarchy S height b" "a \<in> dom S" "height a < n" "height a < m"
  shows "entry_leaf n S a = entry_leaf m S a"
  using assms(2-4)
proof (induction n arbitrary: a m)
  case 0
  then show ?case by simp
next
  case (Suc n)
  then obtain s k where s: "S a = Some s" "m = Suc k" by (cases m) auto
  show ?case
  proof (cases "entryState s")
    case None
    then show ?thesis using s by simp
  next
    case (Some e)
    then have "e \<in> dom S" "height e < height a" using hierarchyD(3) [OF assms(1) s(1)] by blast+
    then show ?thesis using Suc.IH [of e k] Suc.prems s Some by simp
  qed
qed

lemma take_transition_ok:
  assumes h: "hierarchy S height b" and x: "x \<in> dom S" "b \<le> n" and c: "c \<in> dom S" and t: "nextState t = Some x"
  shows "take_transition n S fsm c t x = Inr (Some (outcome b S fsm c (Some t)))"
proof -
  obtain s where "S x = Some s" using x(1) by auto
  then have hx: "height x < b" using hierarchyD(1) [OF h] by blast
  have e: "enter n S x = Inr (Some (entry_leaf b S x))" "entry_leaf b S x \<in> dom S"
    using enter_total [OF h x(1), of n] enter_total [OF h x(1) hx] entry_leaf_fuel [OF h x(1), of n b] hx x(2) by auto
  obtain cs ns where "S c = Some cs" "S (entry_leaf b S x) = Some ns" using c e(2) by auto
  then show ?thesis using e(1) t by (simp add: take_transition_def state_at_def outcome_def Let_def)
qed

lemma handle_loop_ok:
  assumes h: "hierarchy S height b" and m: "machine_ok S fsm" and c: "c \<in> dom S"
    and "a \<in> dom S" "(b - height a) + b \<le> n" "b - height a \<le> k"
  shows "handle_loop n S fsm c ev a = Inr (Some (outcome b S fsm c (firing (lineage k S a) ev)))"
  using assms(4-)
proof (induction n arbitrary: a k)
  case 0
  then obtain s where "S a = Some s" by auto
  then show ?case using hierarchyD(1) [OF h] 0 by fastforce
next
  case (Suc n)
  then obtain s where s: "S a = Some s" by auto
  have ha: "height a < b" by (rule hierarchyD(1) [OF h s])
  then obtain j where k: "k = Suc j" using Suc.prems(3) by (cases k) auto
  show ?case
  proof (cases "getTransition (transitions s) ev")
    case None
    show ?thesis
    proof (cases "parentState s")
      case N: None
      then show ?thesis using None s k by (simp add: state_at_def outcome_def)
    next
      case (Some p)
      then have p: "p \<in> dom S" "height a < height p" using hierarchyD(2) [OF h s] by blast+
      obtain sp where "S p = Some sp" using p(1) by auto
      then have "height p < b" by (rule hierarchyD(1) [OF h])
      then have "handle_loop n S fsm c ev p = Inr (Some (outcome b S fsm c (firing (lineage j S p) ev)))"
        using Suc.prems p k by (intro Suc.IH) auto
      then show ?thesis using None Some s k by (simp add: state_at_def)
    qed
  next
    case (Some t)
    have tm: "t \<in> set (transitions s)" using Some by (rule getTransition_mem)
    show ?thesis
    proof (cases "nextState t")
      case None
      then show ?thesis using Some s k goToErrorState_ok [OF m] by (simp add: state_at_def outcome_def)
    next
      case (Some x)
      then have "x \<in> dom S" using hierarchyD(4) [OF h s tm] by blast
      moreover have "b \<le> n" using Suc.prems(2) ha by linarith
      ultimately have "take_transition n S fsm c t x = Inr (Some (outcome b S fsm c (Some t)))"
        using c Some by (intro take_transition_ok [OF h])
      then show ?thesis using \<open>getTransition (transitions s) ev = Some t\<close> Some s k by (simp add: state_at_def)
    qed
  qed
qed

lemma handle_event_ok:
  assumes h: "hierarchy S height b" and m: "machine_ok S fsm" and c: "currentState fsm = Some c" "S c = Some s"
    and fuel: "2 * b \<le> fuel"
  shows "stateM_handleEvent fuel S (Some fsm) (Some ev)
    = (case outcome b S fsm c (if transitions s = [] then None else firing (lineage b S c) ev) of
        (n, calls, f) \<Rightarrow> Inr (Some (n, calls, Some f)))"
proof -
  have "handle_loop fuel S fsm c ev c = Inr (Some (outcome b S fsm c (firing (lineage b S c) ev)))"
    using fuel c(2) by (intro handle_loop_ok [OF h m]) auto
  then show ?thesis using c by (auto simp: stateM_handleEvent_def state_at_def outcome_def [of _ _ _ _ None] split: prod.splits)
qed

text \<open>Every event leaves a machine that is still well formed.\<close>

lemma outcome_keeps_ok:
  assumes h: "hierarchy S height b" and m: "machine_ok S fsm" and c: "c \<in> dom S"
    and f: "\<forall>t x. found = Some t \<and> nextState t = Some x \<longrightarrow> x \<in> dom S" and o: "outcome b S fsm c found = (n, calls, fsm')"
  shows "machine_ok S fsm'"
proof (cases found)
  case None
  then show ?thesis using o m by (simp add: outcome_def)
next
  case (Some t)
  show ?thesis
  proof (cases "nextState t")
    case None
    then show ?thesis using o m Some by (auto simp: outcome_def machine_ok_def)
  next
    case N: (Some x)
    then obtain s where x: "x \<in> dom S" "S x = Some s" using f Some by auto
    then have "entry_leaf b S x \<in> dom S" using enter_total [OF h x(1) hierarchyD(1) [OF h x(2)]] by simp
    then show ?thesis using o m Some N by (auto simp: outcome_def machine_ok_def Let_def)
  qed
qed

text \<open>Without an error state, an error leaves no current state, and then \<open>stateM_stopped\<close> faults.\<close>

lemma stopped_after_error:
  assumes "goToErrorState S fsm = Inr (calls, fsm')" "errorState fsm = None"
  shows "stateM_stopped S (Some fsm') = Inl NullPointer"
  using assms by (auto simp: goToErrorState_def stateM_stopped_def Let_def)

end
