(* ===== verification/Task_Queue.thy ===== *)
theory Task_Queue
  imports Memory
begin

text \<open>
  The task queue of \<open>common/task_queue/task_queue.c\<close>: messages in a circular doubly linked list
  behind a sentinel node, a counter of pending write events, and the thread that hands both to the
  callbacks. The nodes live in an explicit store; a link to an address that is not in it is the
  fault \<open>NullPointer\<close>. What runs under the mutex is one step.
\<close>

section \<open>State\<close>

record MessageNode =
  mn_command :: "64 word"
  mn_minor :: "64 word"
  mn_userdata :: nat
  mn_rtc_session :: nat
  mn_sctpData :: nat
  mn_length :: int
  mn_queue :: nat
  mn_peer_id :: "8 word list"
  mn_next :: nat
  mn_prev :: nat

type_synonym tq_heap = "nat \<Rightarrow> MessageNode option"

record MessageQueue =
  tq_init :: int
  isQuitThread :: int
  iNodeNum :: int
  iLoopThreadRun :: int
  tq_head :: nat
  lLoopThreadId :: nat
  iEventCnt :: int
  tq_name :: "8 word list"
  tq_heap :: tq_heap
  tq_fresh :: nat

text \<open>The calls of the user's functions, in order.\<close>

datatype tq_call = CheckCb | ReadCb MessageNode | WriteCb | StopCb

record tq_callbacks =
  has_readCb :: bool
  has_writeCB :: bool
  has_checkCB :: bool
  has_stopCB :: bool

definition zero_node :: MessageNode where
  "zero_node = \<lparr>mn_command = 0, mn_minor = 0, mn_userdata = 0, mn_rtc_session = 0, mn_sctpData = 0, mn_length = 0,
     mn_queue = 0, mn_peer_id = replicate 256 0, mn_next = 0, mn_prev = 0\<rparr>"

definition on_node :: "tq_heap \<Rightarrow> nat \<Rightarrow> (MessageNode \<Rightarrow> MessageNode) \<Rightarrow> tq_heap result" where
  "on_node h a f = (case h a of None \<Rightarrow> Inl NullPointer | Some x \<Rightarrow> Inr (h(a := Some (f x))))"

definition node_at :: "tq_heap \<Rightarrow> nat \<Rightarrow> MessageNode result" where
  "node_at h a = (case h a of None \<Rightarrow> Inl NullPointer | Some x \<Rightarrow> Inr x)"

section \<open>Operations\<close>

text \<open>
  The state after \<open>Message_Init\<close> for an asynchronous queue: \<open>ok\<close> answers for the node, the
  mutex, the condition variable and the thread. A name of 256 bytes or more does not fit.
\<close>

definition Message_Init :: "(nat \<Rightarrow> bool) \<Rightarrow> nat \<Rightarrow> 8 word list \<Rightarrow> MessageQueue \<Rightarrow> (int \<times> MessageQueue) result" where
  "Message_Init ok tid name q =
    (if name = [] then Inr (-1, q)
     else if \<not> ok 0 then Inr (-1, q)
     else if 256 \<le> length name then Inl BufferOverrun
     else
       let a = tq_fresh q;
           q = q\<lparr>tq_heap := (tq_heap q)(a := Some (zero_node\<lparr>mn_next := a, mn_prev := a\<rparr>)), tq_fresh := Suc a,
                 tq_head := a, iEventCnt := 0, iNodeNum := 0, iLoopThreadRun := 1, isQuitThread := 0,
                 tq_init := 1, tq_name := name\<rparr>
       in if \<not> ok 1 \<or> \<not> ok 2 \<or> \<not> ok 3 then Inr (-1, q)
          else Inr (0, q\<lparr>lLoopThreadId := tid\<rparr>))"

definition Message_PutMsg :: "bool \<Rightarrow> MessageQueue \<Rightarrow> MessageNode \<Rightarrow> (int \<times> MessageQueue) result" where
  "Message_PutMsg ok q node =
    (if tq_init q = 0 then Inr (-1, q)
     else if iLoopThreadRun q = 0 then Inr (0, q)
     else if \<not> ok then Inr (-1, q)
     else
       let new = tq_fresh q in
       bindR (node_at (tq_heap q) (tq_head q)) (\<lambda>hn.
       let tail = mn_prev hn;
           h = (tq_heap q)(new := Some (node\<lparr>mn_prev := tail, mn_next := tq_head q\<rparr>))
       in bindR (on_node h tail (\<lambda>x. x\<lparr>mn_next := new\<rparr>)) (\<lambda>h.
          bindR (on_node h (tq_head q) (\<lambda>x. x\<lparr>mn_prev := new\<rparr>)) (\<lambda>h.
          Inr (0, q\<lparr>tq_heap := h, tq_fresh := Suc new, iNodeNum := iNodeNum q + 1\<rparr>)))))"

definition Message_GetEventCount :: "MessageQueue \<Rightarrow> int" where
  "Message_GetEventCount q = iNodeNum q"

definition Message_PutEvent :: "MessageQueue \<Rightarrow> int \<times> MessageQueue" where
  "Message_PutEvent q = (0, if iLoopThreadRun q = 0 then q else q\<lparr>iEventCnt := iEventCnt q + 1\<rparr>)"

definition Message_StopAsync :: "MessageQueue \<Rightarrow> int \<times> MessageQueue" where
  "Message_StopAsync q = (0, q\<lparr>iLoopThreadRun := 0\<rparr>)"

text \<open>The part of a round under the mutex: the message taken, or whether an event was.\<close>

definition take_work :: "MessageQueue \<Rightarrow> (MessageNode option \<times> bool \<times> MessageQueue) result" where
  "take_work q =
    bindR (node_at (tq_heap q) (tq_head q)) (\<lambda>hn.
    let node = mn_next hn
    in if iNodeNum q > 0 \<and> node \<noteq> tq_head q then
         bindR (node_at (tq_heap q) node) (\<lambda>read_node.
         let prev = mn_prev read_node; next = mn_next read_node
         in bindR (on_node (tq_heap q) prev (\<lambda>x. x\<lparr>mn_next := next\<rparr>)) (\<lambda>h.
            bindR (on_node h next (\<lambda>x. x\<lparr>mn_prev := prev\<rparr>)) (\<lambda>h.
            Inr (Some read_node, False, q\<lparr>tq_heap := h(node := None), iNodeNum := iNodeNum q - 1\<rparr>))))
       else if iEventCnt q > 0 then Inr (None, True, q\<lparr>iEventCnt := iEventCnt q - 1\<rparr>)
       else Inr (None, False, q))"

text \<open>One round of the thread; \<open>False\<close> when it ends.\<close>

definition Message_Thread_round :: "tq_callbacks \<Rightarrow> MessageQueue \<Rightarrow> (bool \<times> tq_call list \<times> MessageQueue) result" where
  "Message_Thread_round apis q =
    (let pre = (if has_checkCB apis then [CheckCb] else [])
     in if iLoopThreadRun q = 0 then
          Inr (False, pre @ (if has_stopCB apis then [StopCb] else []), q\<lparr>isQuitThread := 1\<rparr>)
        else
          bindR (take_work q) (\<lambda>(node, writeable, q).
          Inr (True, pre @ (case node of Some x \<Rightarrow> if has_readCb apis then [ReadCb x] else [] | None \<Rightarrow> [])
                 @ (if writeable \<and> has_writeCB apis then [WriteCb] else []), q)))"

text \<open>The loop that frees the messages ends at the sentinel; the fuel is the number of addresses.\<close>

fun free_ring :: "nat \<Rightarrow> tq_heap \<Rightarrow> nat \<Rightarrow> nat \<Rightarrow> tq_heap option result" where
  "free_ring 0 h hx node = Inr None"
| "free_ring (Suc n) h hx node =
    (if node \<noteq> hx then
       bindR (node_at h node) (\<lambda>x. free_ring n (h(node := None)) hx (mn_next x))
     else Inr (Some h))"

definition Message_Destroy :: "nat \<Rightarrow> MessageQueue \<Rightarrow> MessageQueue option result" where
  "Message_Destroy fuel q =
    bindR (node_at (tq_heap q) (tq_head q)) (\<lambda>hn.
    bindR (free_ring fuel (tq_heap q) (tq_head q) (mn_next hn)) (\<lambda>h.
    Inr (map_option (\<lambda>h. q\<lparr>tq_heap := h(tq_head q := None)\<rparr>) h)))"

text \<open>
  The thread is joined: it sees the cleared flag and ends. (\<open>detach\<close> is 0 in every queue, so the
  other way of waiting is never taken.)
\<close>

definition Message_Deinit :: "nat \<Rightarrow> tq_callbacks \<Rightarrow> MessageQueue \<Rightarrow> (int \<times> tq_call list \<times> MessageQueue) option result" where
  "Message_Deinit fuel apis q =
    (if tq_init q = 0 then Inr (Some (-1, [], q))
     else
       let q = snd (Message_StopAsync q)
       in bindR (if lLoopThreadId q \<noteq> 0 then bindR (Message_Thread_round apis q) (\<lambda>(_, cs, q). Inr (cs, q\<lparr>lLoopThreadId := 0\<rparr>))
                 else Inr ([], q)) (\<lambda>(cs, q).
          bindR (Message_Destroy fuel q) (\<lambda>r.
          Inr (map_option (\<lambda>q. (0, cs, q\<lparr>tq_init := 0\<rparr>)) r))))"

section \<open>The ring of nodes\<close>

text \<open>
  \<open>seg N P p as n\<close>: following the links \<open>N\<close> from \<open>p\<close> passes \<open>as\<close> and reaches \<open>n\<close>, and the
  links \<open>P\<close> lead back.
\<close>

fun seg :: "(nat \<Rightarrow> nat option) \<Rightarrow> (nat \<Rightarrow> nat option) \<Rightarrow> nat \<Rightarrow> nat list \<Rightarrow> nat \<Rightarrow> bool" where
  "seg N P p [] n \<longleftrightarrow> N p = Some n \<and> P n = Some p"
| "seg N P p (a # as) n \<longleftrightarrow> N p = Some a \<and> P a = Some p \<and> seg N P a as n"

abbreviation nexts :: "tq_heap \<Rightarrow> nat \<Rightarrow> nat option" where
  "nexts h \<equiv> \<lambda>a. map_option mn_next (h a)"

abbreviation prevs :: "tq_heap \<Rightarrow> nat \<Rightarrow> nat option" where
  "prevs h \<equiv> \<lambda>a. map_option mn_prev (h a)"

lemma seg_cong: "(\<And>a. a \<in> set (p # as) \<Longrightarrow> N a = N' a) \<Longrightarrow> (\<And>a. a \<in> set (as @ [n]) \<Longrightarrow> P a = P' a)
  \<Longrightarrow> seg N P p as n = seg N' P' p as n"
  by (induction as arbitrary: p) auto

lemma seg_snoc: "seg N P p (as @ [b]) n \<longleftrightarrow> seg N P p as b \<and> N b = Some n \<and> P n = Some b"
  by (induction as arbitrary: p) auto

lemma seg_last: "seg N P p as n \<Longrightarrow> P n = Some (last (p # as))"
  by (induction as arbitrary: p) auto

lemma seg_next_last: "seg N P p as n \<Longrightarrow> N (last (p # as)) = Some n"
  by (induction as arbitrary: p) auto

text \<open>Putting a node behind the last one.\<close>

lemma seg_retarget:
  assumes "seg N P p as n" "distinct (p # as)" "b \<notin> set (p # as)"
  shows "seg (N(last (p # as) := Some b)) (P(b := Some (last (p # as)))) p as b"
  using assms
proof (induction as arbitrary: p)
  case (Cons a as)
  then have "last (a # as) \<noteq> p" by (metis distinct.simps(2) last_in_set list.distinct(1))
  then show ?case using Cons by auto
qed simp

lemma seg_push:
  assumes "seg N P hx as hx" "distinct (hx # as)" "b \<notin> set (hx # as)"
  shows "seg (N(b := Some hx, last (hx # as) := Some b)) (P(b := Some (last (hx # as)), hx := Some b)) hx (as @ [b]) hx"
proof -
  let ?l = "last (hx # as)"
  have l: "?l \<in> set (hx # as)" by (rule last_in_set) simp
  then have lb: "?l \<noteq> b" using assms(3) by auto
  have "seg (N(?l := Some b)) (P(b := Some ?l)) hx as b" by (rule seg_retarget [OF assms])
  moreover have "seg (N(b := Some hx, ?l := Some b)) (P(b := Some ?l, hx := Some b)) hx as b
    = seg (N(?l := Some b)) (P(b := Some ?l)) hx as b"
    by (rule seg_cong) (use assms(2,3) l in auto)
  ultimately show ?thesis unfolding seg_snoc using assms(3) lb by auto
qed

text \<open>Taking the first node out.\<close>

lemma seg_pop:
  assumes "seg N P hx (a # as) hx" "distinct (hx # a # as)"
  shows "\<exists>n. N a = Some n \<and> P a = Some hx \<and> (as = [] \<longrightarrow> n = hx) \<and> (as \<noteq> [] \<longrightarrow> n = hd as)
    \<and> seg (N(hx := Some n, a := x)) (P(n := Some hx, a := y)) hx as hx"
proof (cases as)
  case Nil
  then show ?thesis using assms by auto
next
  case (Cons c cs)
  have "seg (N(hx := Some c, a := x)) (P(c := Some hx, a := y)) c cs hx = seg N P c cs hx"
    by (rule seg_cong) (use assms(2) Cons in auto)
  then show ?thesis using assms Cons by auto
qed

definition tq_rep :: "MessageQueue \<Rightarrow> nat list \<Rightarrow> bool" where
  "tq_rep q as \<longleftrightarrow> seg (nexts (tq_heap q)) (prevs (tq_heap q)) (tq_head q) as (tq_head q)
     \<and> distinct (tq_head q # as) \<and> dom (tq_heap q) = set (tq_head q # as)
     \<and> (\<forall>a \<in> dom (tq_heap q). a < tq_fresh q) \<and> iNodeNum q = int (length as)"

text \<open>A message is a node without its links.\<close>

definition msg_of :: "MessageNode \<Rightarrow> MessageNode" where
  "msg_of x = x\<lparr>mn_next := 0, mn_prev := 0\<rparr>"

fun ring_msgs :: "nat \<Rightarrow> tq_heap \<Rightarrow> nat \<Rightarrow> nat \<Rightarrow> MessageNode list" where
  "ring_msgs 0 h hx a = []"
| "ring_msgs (Suc n) h hx a = (if a = hx then [] else case h a of None \<Rightarrow> [] | Some x \<Rightarrow> msg_of x # ring_msgs n h hx (mn_next x))"

definition tq_contents :: "MessageQueue \<Rightarrow> MessageNode list" where
  "tq_contents q = (case tq_heap q (tq_head q) of None \<Rightarrow> []
     | Some x \<Rightarrow> ring_msgs (tq_fresh q) (tq_heap q) (tq_head q) (mn_next x))"

lemma ring_msgs_seg:
  assumes "seg (nexts h) (prevs h) p as hx" "hx \<notin> set as" "length as < n" "h p = Some x"
  shows "ring_msgs n h hx (mn_next x) = map (\<lambda>a. msg_of (the (h a))) as"
  using assms
proof (induction as arbitrary: p n x)
  case Nil
  then show ?case by (cases n) auto
next
  case (Cons a as)
  then obtain m y where "n = Suc m" "h a = Some y" by (cases n; cases as; cases "h a") auto
  then show ?case using Cons by auto
qed

lemma tq_repD:
  assumes "tq_rep q as"
  shows "seg (nexts (tq_heap q)) (prevs (tq_heap q)) (tq_head q) as (tq_head q)" "distinct (tq_head q # as)"
    "dom (tq_heap q) = set (tq_head q # as)" "iNodeNum q = int (length as)" "tq_fresh q \<notin> set (tq_head q # as)"
    "length as < tq_fresh q" "\<And>a. a \<in> set (tq_head q # as) \<Longrightarrow> \<exists>x. tq_heap q a = Some x"
proof -
  show s: "seg (nexts (tq_heap q)) (prevs (tq_heap q)) (tq_head q) as (tq_head q)" and d: "distinct (tq_head q # as)"
    and m: "dom (tq_heap q) = set (tq_head q # as)" and "iNodeNum q = int (length as)"
    using assms by (simp_all add: tq_rep_def)
  have lt: "\<forall>a \<in> set (tq_head q # as). a < tq_fresh q" using assms m by (simp add: tq_rep_def)
  then show "tq_fresh q \<notin> set (tq_head q # as)" by auto
  have "set (tq_head q # as) \<subseteq> {..<tq_fresh q}" using lt by auto
  then have "card (set (tq_head q # as)) \<le> tq_fresh q" using card_mono [of "{..<tq_fresh q}"] by simp
  then show "length as < tq_fresh q" using distinct_card [OF d] by simp
  show "\<exists>x. tq_heap q a = Some x" if "a \<in> set (tq_head q # as)" for a
    using that m by (metis domD)
qed

lemma tq_contents_rep: "tq_rep q as \<Longrightarrow> tq_contents q = map (\<lambda>a. msg_of (the (tq_heap q a))) as"
  using tq_repD [of q as] ring_msgs_seg [of "tq_heap q" "tq_head q" as "tq_head q" "tq_fresh q"]
  by (fastforce simp: tq_contents_def)

section \<open>Putting and taking\<close>

lemma tq_put_rep:
  assumes rep: "tq_rep q as" and run: "tq_init q \<noteq> 0" "iLoopThreadRun q \<noteq> 0"
  shows "\<exists>h. Message_PutMsg True q x = Inr (0, q\<lparr>tq_heap := h, tq_fresh := Suc (tq_fresh q), iNodeNum := iNodeNum q + 1\<rparr>)
    \<and> tq_rep (q\<lparr>tq_heap := h, tq_fresh := Suc (tq_fresh q), iNodeNum := iNodeNum q + 1\<rparr>) (as @ [tq_fresh q])
    \<and> map (\<lambda>a. msg_of (the (h a))) (as @ [tq_fresh q]) = map (\<lambda>a. msg_of (the (tq_heap q a))) as @ [msg_of x]"
proof -
  let ?h = "tq_heap q" and ?hd = "tq_head q" and ?b = "tq_fresh q"
  let ?l = "last (?hd # as)"
  note r = tq_repD [OF rep]
  have lin: "?l \<in> set (?hd # as)" by (rule last_in_set) simp
  obtain hn where hn: "?h ?hd = Some hn" using r(7) [of ?hd] by auto
  obtain ln where ln: "?h ?l = Some ln" using r(7) [OF lin] by blast
  have tail: "mn_prev hn = ?l" using seg_last [OF r(1)] hn by simp
  have b: "?h ?b = None" using r(3,5) by (auto simp: dom_def)
  have ne: "?l \<noteq> ?b" "?hd \<noteq> ?b" using r(5) lin by auto
  let ?new = "x\<lparr>mn_prev := ?l, mn_next := ?hd\<rparr>"
  let ?h2 = "?h(?b := Some ?new, ?l := Some (ln\<lparr>mn_next := ?b\<rparr>))"
  obtain h2n where h2n: "?h2 ?hd = Some h2n" using hn ne by (cases "?hd = ?l") auto
  let ?h3 = "?h2(?hd := Some (h2n\<lparr>mn_prev := ?b\<rparr>))"
  have s1: "on_node (?h(?b := Some ?new)) ?l (\<lambda>x. x\<lparr>mn_next := ?b\<rparr>) = Inr ?h2"
    using ln ne by (simp add: on_node_def)
  have s2: "on_node ?h2 ?hd (\<lambda>x. x\<lparr>mn_prev := ?b\<rparr>) = Inr ?h3"
    unfolding on_node_def h2n by simp
  have put: "Message_PutMsg True q x = Inr (0, q\<lparr>tq_heap := ?h3, tq_fresh := Suc ?b, iNodeNum := iNodeNum q + 1\<rparr>)"
    using run s1 s2 tail by (simp add: Message_PutMsg_def node_at_def hn Let_def)
  have h2n': "h2n = (if ?hd = ?l then ln\<lparr>mn_next := ?b\<rparr> else hn)" using h2n hn ne by (auto split: if_splits)
  have N: "nexts ?h3 = (nexts ?h)(?b := Some ?hd, ?l := Some ?b)"
    using hn h2n' ne by (auto simp: fun_eq_iff)
  have P: "prevs ?h3 = (prevs ?h)(?b := Some ?l, ?hd := Some ?b)"
    using ln h2n' ne by (auto simp: fun_eq_iff)
  have "seg (nexts ?h3) (prevs ?h3) ?hd (as @ [?b]) ?hd" unfolding N P by (rule seg_push [OF r(1,2,5)])
  moreover have "dom ?h3 = set (?hd # as @ [?b])" using r(3) lin by auto
  moreover have "\<forall>a \<in> dom ?h3. a < Suc ?b" using rep lin r(3) by (auto simp: tq_rep_def less_Suc_eq)
  ultimately have rep': "tq_rep (q\<lparr>tq_heap := ?h3, tq_fresh := Suc ?b, iNodeNum := iNodeNum q + 1\<rparr>) (as @ [?b])"
    using r(2,4,5) by (simp add: tq_rep_def)
  have same: "msg_of (the (?h3 a)) = msg_of (the (?h a))" if "a \<in> set as" for a
    using that r(2,5) ln hn h2n' by (auto simp: msg_of_def)
  have new: "msg_of (the (?h3 ?b)) = msg_of x" using ne by (simp add: msg_of_def)
  show ?thesis using put rep' same new by (intro exI [of _ ?h3]) simp
qed

lemma tq_take_rep:
  assumes rep: "tq_rep q (a # as)"
  shows "\<exists>x h. tq_heap q a = Some x \<and> take_work q = Inr (Some x, False, q\<lparr>tq_heap := h, iNodeNum := iNodeNum q - 1\<rparr>)
    \<and> tq_rep (q\<lparr>tq_heap := h, iNodeNum := iNodeNum q - 1\<rparr>) as
    \<and> map (\<lambda>a. msg_of (the (h a))) as = map (\<lambda>a. msg_of (the (tq_heap q a))) as"
proof -
  let ?h = "tq_heap q" and ?hd = "tq_head q"
  note r = tq_repD [OF rep]
  obtain hn where hn: "?h ?hd = Some hn" using r(7) [of ?hd] by auto
  obtain x where x: "?h a = Some x" using r(7) [of a] by auto
  obtain n where n: "nexts ?h a = Some n" "prevs ?h a = Some ?hd" "as = [] \<longrightarrow> n = ?hd" "as \<noteq> [] \<longrightarrow> n = hd as"
    "seg ((nexts ?h)(?hd := Some n, a := None)) ((prevs ?h)(n := Some ?hd, a := None)) ?hd as ?hd"
    using seg_pop [OF r(1,2)] by blast
  have first: "mn_next hn = a" using r(1) hn by simp
  have x': "mn_next x = n" "mn_prev x = ?hd" using n(1,2) x by simp_all
  have nin: "n \<in> set (?hd # as)" using n(3,4) by (cases as) auto
  have na: "n \<noteq> a" "?hd \<noteq> a" using nin r(2) by auto
  let ?h2 = "?h(?hd := Some (hn\<lparr>mn_next := n\<rparr>))"
  obtain nn where nn: "?h2 n = Some nn" using r(7) [of n] nin by (cases "n = ?hd") auto
  let ?h3 = "?h2(n := Some (nn\<lparr>mn_prev := ?hd\<rparr>), a := None)"
  have nn': "if n = ?hd then nn = hn\<lparr>mn_next := n\<rparr> else ?h n = Some nn" using nn by (simp split: if_splits)
  have "on_node ?h ?hd (\<lambda>x. x\<lparr>mn_next := n\<rparr>) = Inr ?h2" by (simp add: on_node_def hn)
  moreover have "on_node ?h2 n (\<lambda>x. x\<lparr>mn_prev := ?hd\<rparr>) = Inr (?h2(n := Some (nn\<lparr>mn_prev := ?hd\<rparr>)))"
    unfolding on_node_def nn by simp
  ultimately have take: "take_work q = Inr (Some x, False, q\<lparr>tq_heap := ?h3, iNodeNum := iNodeNum q - 1\<rparr>)"
    using r(4) na by (simp add: take_work_def node_at_def hn x x' first Let_def)
  have N: "nexts ?h3 = (nexts ?h)(?hd := Some n, a := None)"
    using hn nn' by (auto simp: fun_eq_iff split: if_splits)
  have P: "prevs ?h3 = (prevs ?h)(n := Some ?hd, a := None)"
    using hn nn' by (auto simp: fun_eq_iff split: if_splits)
  have "seg (nexts ?h3) (prevs ?h3) ?hd as ?hd" unfolding N P by (rule n(5))
  moreover have "dom ?h3 = set (?hd # as)" using r(2,3) nin by auto
  moreover have "\<forall>a \<in> dom ?h3. a < tq_fresh q" using rep nin hn by (auto simp: tq_rep_def)
  ultimately have rep': "tq_rep (q\<lparr>tq_heap := ?h3, iNodeNum := iNodeNum q - 1\<rparr>) as"
    using r(2,4) by (simp add: tq_rep_def)
  have same: "msg_of (the (?h3 b)) = msg_of (the (?h b))" if "b \<in> set as" for b
    using that r(2) nn' by (auto simp: msg_of_def split: if_splits)
  show ?thesis using x take rep' same by (intro exI [of _ x] exI [of _ ?h3]) simp
qed

lemma take_empty:
  assumes "tq_rep q []"
  shows "take_work q = (if iEventCnt q > 0 then Inr (None, True, q\<lparr>iEventCnt := iEventCnt q - 1\<rparr>) else Inr (None, False, q))"
proof -
  obtain hn where "tq_heap q (tq_head q) = Some hn" using tq_repD(7) [OF assms, of "tq_head q"] by auto
  then show ?thesis using tq_repD(4) [OF assms] by (simp add: take_work_def node_at_def Let_def)
qed

section \<open>Runs of a queue\<close>

text \<open>
  The steps of the clients and of the thread, each atomic as under the mutex: a put (the flag answers
  for the allocation), a write event, a stop, and a round of the thread. A thread that has ended
  makes no more rounds. The answer of a call is its code, that of a round whether the thread goes on
  and the callbacks it made, a message in them without its links.
\<close>

datatype tq_op = TPut bool MessageNode | TEvent | TStop | TRound

datatype tq_reply = TCode int | TCalls bool "tq_call list"

fun bare_call :: "tq_call \<Rightarrow> tq_call" where
  "bare_call (ReadCb x) = ReadCb (msg_of x)"
| "bare_call c = c"

fun tq_step :: "tq_callbacks \<Rightarrow> tq_op \<Rightarrow> MessageQueue \<Rightarrow> (tq_reply \<times> MessageQueue) result" where
  "tq_step apis (TPut ok x) q = bindR (Message_PutMsg ok q x) (\<lambda>(r, q). Inr (TCode r, q))"
| "tq_step apis TEvent q = (case Message_PutEvent q of (r, q) \<Rightarrow> Inr (TCode r, q))"
| "tq_step apis TStop q = (case Message_StopAsync q of (r, q) \<Rightarrow> Inr (TCode r, q))"
| "tq_step apis TRound q =
    (if isQuitThread q \<noteq> 0 then Inr (TCalls False [], q)
     else bindR (Message_Thread_round apis q) (\<lambda>(b, cs, q). Inr (TCalls b (map bare_call cs), q)))"

fun tq_run :: "tq_callbacks \<Rightarrow> tq_op list \<Rightarrow> MessageQueue \<Rightarrow> (tq_reply list \<times> MessageQueue) result" where
  "tq_run apis [] q = Inr ([], q)"
| "tq_run apis (op # ops) q =
    bindR (tq_step apis op q) (\<lambda>(r, q). bindR (tq_run apis ops q) (\<lambda>(rs, q). Inr (r # rs, q)))"

text \<open>
  The reference: the messages that wait, in the order in which they were put, the number of write
  events, and whether the queue runs and its thread lives.
\<close>

record tq_spec =
  waiting :: "MessageNode list"
  events :: nat
  running :: bool
  alive :: bool

definition call_if :: "bool \<Rightarrow> tq_call \<Rightarrow> tq_call list" where
  "call_if b c = (if b then [c] else [])"

fun spec_step :: "tq_callbacks \<Rightarrow> tq_op \<Rightarrow> tq_spec \<Rightarrow> tq_reply \<times> tq_spec" where
  "spec_step apis (TPut ok x) t =
    (if \<not> running t then (TCode 0, t)
     else if ok then (TCode 0, t\<lparr>waiting := waiting t @ [msg_of x]\<rparr>) else (TCode (-1), t))"
| "spec_step apis TEvent t = (TCode 0, if running t then t\<lparr>events := events t + 1\<rparr> else t)"
| "spec_step apis TStop t = (TCode 0, t\<lparr>running := False\<rparr>)"
| "spec_step apis TRound t =
    (let check = call_if (has_checkCB apis) CheckCb
     in if \<not> alive t then (TCalls False [], t)
        else if \<not> running t then
          (TCalls False (check @ call_if (has_stopCB apis) StopCb), t\<lparr>alive := False\<rparr>)
        else (case waiting t of
            x # xs \<Rightarrow> (TCalls True (check @ call_if (has_readCb apis) (ReadCb x)), t\<lparr>waiting := xs\<rparr>)
          | [] \<Rightarrow> if events t > 0
              then (TCalls True (check @ call_if (has_writeCB apis) WriteCb), t\<lparr>events := events t - 1\<rparr>)
              else (TCalls True check, t)))"

fun spec_run :: "tq_callbacks \<Rightarrow> tq_op list \<Rightarrow> tq_spec \<Rightarrow> tq_reply list \<times> tq_spec" where
  "spec_run apis [] t = ([], t)"
| "spec_run apis (op # ops) t =
    (case spec_step apis op t of (r, t) \<Rightarrow> map_prod ((#) r) id (spec_run apis ops t))"

text \<open>What a queue stands for.\<close>

definition tq_abs :: "MessageQueue \<Rightarrow> tq_spec" where
  "tq_abs q = \<lparr>waiting = tq_contents q, events = nat (iEventCnt q), running = (iLoopThreadRun q \<noteq> 0),
     alive = (isQuitThread q = 0)\<rparr>"

definition tq_inv :: "MessageQueue \<Rightarrow> bool" where
  "tq_inv q \<longleftrightarrow> tq_init q \<noteq> 0 \<and> 0 \<le> iEventCnt q \<and> (\<exists>as. tq_rep q as)"

lemma tq_contents_cong:
  "tq_heap q' = tq_heap q \<Longrightarrow> tq_head q' = tq_head q \<Longrightarrow> tq_fresh q' = tq_fresh q \<Longrightarrow> tq_contents q' = tq_contents q"
  by (simp add: tq_contents_def cong: option.case_cong)

lemma tq_inv_cong:
  "tq_heap q' = tq_heap q \<Longrightarrow> tq_head q' = tq_head q \<Longrightarrow> tq_fresh q' = tq_fresh q \<Longrightarrow> iNodeNum q' = iNodeNum q \<Longrightarrow>
   tq_init q' = tq_init q \<Longrightarrow> 0 \<le> iEventCnt q' \<Longrightarrow> tq_inv q \<Longrightarrow> tq_inv q'"
  by (simp add: tq_inv_def tq_rep_def)

lemma put_refines:
  assumes "tq_inv q"
  shows "\<exists>q'. tq_step apis (TPut ok x) q = Inr (fst (spec_step apis (TPut ok x) (tq_abs q)), q') \<and> tq_inv q'
    \<and> tq_abs q' = snd (spec_step apis (TPut ok x) (tq_abs q))"
proof (cases "iLoopThreadRun q \<noteq> 0 \<and> ok")
  case False
  then show ?thesis using assms by (auto simp: Message_PutMsg_def tq_inv_def tq_abs_def)
next
  case True
  obtain as where as: "tq_rep q as" and run: "tq_init q \<noteq> 0" "iLoopThreadRun q \<noteq> 0" "0 \<le> iEventCnt q"
    using assms True by (auto simp: tq_inv_def)
  obtain h where h: "Message_PutMsg True q x = Inr (0, q\<lparr>tq_heap := h, tq_fresh := Suc (tq_fresh q), iNodeNum := iNodeNum q + 1\<rparr>)"
    "tq_rep (q\<lparr>tq_heap := h, tq_fresh := Suc (tq_fresh q), iNodeNum := iNodeNum q + 1\<rparr>) (as @ [tq_fresh q])"
    "map (\<lambda>a. msg_of (the (h a))) (as @ [tq_fresh q]) = map (\<lambda>a. msg_of (the (tq_heap q a))) as @ [msg_of x]"
    using tq_put_rep [OF as run(1,2)] by blast
  show ?thesis using h True run tq_contents_rep [OF as] tq_contents_rep [OF h(2)]
    by (auto simp: tq_inv_def tq_abs_def)
qed

lemma round_refines:
  assumes "tq_inv q"
  shows "\<exists>q'. tq_step apis TRound q = Inr (fst (spec_step apis TRound (tq_abs q)), q') \<and> tq_inv q'
    \<and> tq_abs q' = snd (spec_step apis TRound (tq_abs q))"
proof -
  obtain as where as: "tq_rep q as" and run: "tq_init q \<noteq> 0" "0 \<le> iEventCnt q"
    using assms by (auto simp: tq_inv_def)
  note c = tq_contents_rep [OF as]
  show ?thesis
  proof (cases "isQuitThread q = 0 \<and> iLoopThreadRun q \<noteq> 0")
    case False
    have "tq_contents (q\<lparr>isQuitThread := 1\<rparr>) = tq_contents q" by (rule tq_contents_cong) simp_all
    moreover have "tq_inv (q\<lparr>isQuitThread := 1\<rparr>)" using assms by (simp add: tq_inv_def tq_rep_def)
    ultimately show ?thesis using False assms
      by (auto simp: Message_Thread_round_def call_if_def tq_abs_def Let_def)
  next
    case go: True
    show ?thesis
    proof (cases as)
      case Nil
      then have "tq_contents q = []" using c by simp
      moreover have "tq_contents (q\<lparr>iEventCnt := iEventCnt q - 1\<rparr>) = tq_contents q" by (rule tq_contents_cong) simp_all
      moreover have "iEventCnt q > 0 \<Longrightarrow> tq_inv (q\<lparr>iEventCnt := iEventCnt q - 1\<rparr>)"
        using assms by (simp add: tq_inv_def tq_rep_def)
      ultimately show ?thesis using go as Nil take_empty [of q] assms run
        by (auto simp: Message_Thread_round_def call_if_def tq_abs_def Let_def)
    next
      case (Cons a as')
      with as obtain x h where h: "tq_heap q a = Some x"
        "take_work q = Inr (Some x, False, q\<lparr>tq_heap := h, iNodeNum := iNodeNum q - 1\<rparr>)"
        "tq_rep (q\<lparr>tq_heap := h, iNodeNum := iNodeNum q - 1\<rparr>) as'"
        "map (\<lambda>a. msg_of (the (h a))) as' = map (\<lambda>a. msg_of (the (tq_heap q a))) as'"
        using tq_take_rep [of q a as'] by blast
      let ?q = "q\<lparr>tq_heap := h, iNodeNum := iNodeNum q - 1\<rparr>"
      have "tq_contents q = msg_of x # tq_contents ?q" using c tq_contents_rep [OF h(3)] h(1,4) Cons by simp
      moreover have "tq_inv ?q" using run h(3) by (auto simp: tq_inv_def)
      ultimately show ?thesis using go h(2)
        by (auto simp: Message_Thread_round_def call_if_def tq_abs_def Let_def)
    qed
  qed
qed

lemma step_refines:
  assumes "tq_inv q"
  shows "\<exists>q'. tq_step apis op q = Inr (fst (spec_step apis op (tq_abs q)), q') \<and> tq_inv q'
    \<and> tq_abs q' = snd (spec_step apis op (tq_abs q))"
proof (cases op)
  case (TPut ok x)
  then show ?thesis using put_refines [OF assms] by simp
next
  case TRound
  then show ?thesis using round_refines [OF assms] by simp
next
  case TEvent
  have "tq_contents (q\<lparr>iEventCnt := iEventCnt q + 1\<rparr>) = tq_contents q" by (rule tq_contents_cong) simp_all
  then show ?thesis using TEvent assms
    by (auto simp: Message_PutEvent_def tq_abs_def tq_inv_def tq_rep_def nat_add_distrib)
next
  case TStop
  have "tq_contents (q\<lparr>iLoopThreadRun := 0\<rparr>) = tq_contents q" by (rule tq_contents_cong) simp_all
  then show ?thesis using TStop assms by (auto simp: Message_StopAsync_def tq_abs_def tq_inv_def tq_rep_def)
qed

lemma run_refines:
  "tq_inv q \<Longrightarrow> \<exists>r. tq_run apis ops q = Inr (fst (spec_run apis ops (tq_abs q)), r) \<and> tq_inv r
    \<and> tq_abs r = snd (spec_run apis ops (tq_abs q))"
proof (induction ops arbitrary: q)
  case (Cons op ops)
  obtain q' where q': "tq_step apis op q = Inr (fst (spec_step apis op (tq_abs q)), q')" "tq_inv q'"
    "tq_abs q' = snd (spec_step apis op (tq_abs q))"
    using step_refines [OF Cons.prems] by blast
  from Cons.IH [OF q'(2)] q'(1,3) show ?case by (auto split: prod.split)
qed simp

lemma spec_run_keeps_going:
  "TStop \<notin> set ops \<Longrightarrow> running t \<Longrightarrow> alive t \<Longrightarrow>
    running (snd (spec_run apis ops t)) \<and> alive (snd (spec_run apis ops t))"
proof (induction ops arbitrary: t)
  case (Cons op ops)
  have "running (snd (spec_step apis op t)) \<and> alive (snd (spec_step apis op t))"
    using Cons.prems by (cases op) (auto simp: Let_def split: list.split)
  with Cons show ?case by (cases "spec_step apis op t") simp
qed simp

text \<open>As many rounds as messages wait hand over all of them, oldest first.\<close>

lemma spec_rounds_deliver:
  "running t \<Longrightarrow> alive t \<Longrightarrow> spec_run apis (replicate (length (waiting t)) TRound) t
    = (map (\<lambda>x. TCalls True (call_if (has_checkCB apis) CheckCb @ call_if (has_readCb apis) (ReadCb x))) (waiting t),
       t\<lparr>waiting := []\<rparr>)"
proof (induction "waiting t" arbitrary: t)
  case (Cons x xs)
  have "xs = waiting (t\<lparr>waiting := xs\<rparr>)" by simp
  from Cons.hyps(1) [OF this] Cons.prems Cons.hyps(2) [symmetric] show ?case by (simp add: Let_def)
qed simp

section \<open>Release\<close>

lemma free_ring_all:
  assumes "seg (nexts h) P p as hx" "distinct (hx # as)" "\<forall>b \<in> set as. h' b = h b" "length as < n"
  shows "free_ring n h' hx (hd (as @ [hx])) = Inr (Some (\<lambda>b. if b \<in> set as then None else h' b))"
  using assms
proof (induction as arbitrary: h' p n)
  case Nil
  then show ?case by (cases n) auto
next
  case (Cons a as)
  then obtain m y where m: "n = Suc m" "h a = Some y" by (cases n; cases as; cases "h a") auto
  have y: "mn_next y = hd (as @ [hx])" using Cons.prems(1) m(2) by (cases as) auto
  have "free_ring m (h'(a := None)) hx (hd (as @ [hx])) = Inr (Some (\<lambda>b. if b \<in> set as then None else (h'(a := None)) b))"
    using Cons.prems m(1) by (intro Cons.IH [of a]) auto
  then show ?case using Cons.prems(2,3) m y by (auto simp: node_at_def fun_eq_iff)
qed

lemma destroy_frees_all:
  assumes "tq_rep q as"
  shows "Message_Destroy (tq_fresh q) q = Inr (Some (q\<lparr>tq_heap := \<lambda>_. None\<rparr>))"
proof -
  let ?h = "tq_heap q" and ?hd = "tq_head q"
  note r = tq_repD [OF assms]
  obtain hn where hn: "?h ?hd = Some hn" using r(7) [of ?hd] by auto
  have "mn_next hn = hd (as @ [?hd])" using r(1) hn by (cases as) auto
  then have "free_ring (tq_fresh q) ?h ?hd (mn_next hn) = Inr (Some (\<lambda>b. if b \<in> set as then None else ?h b))"
    using free_ring_all [OF r(1,2) _ r(6), of ?h] by simp
  moreover have "(\<lambda>b. if b \<in> set as then None else ?h b)(?hd := None) = (\<lambda>_. None)"
    using r(3) by (auto simp: fun_eq_iff dom_def)
  ultimately show ?thesis by (simp add: Message_Destroy_def node_at_def hn)
qed

lemma deinit_releases:
  assumes "tq_rep q as" "tq_init q \<noteq> 0"
  shows "Message_Deinit (tq_fresh q) apis q = Inr (Some (0,
      (if lLoopThreadId q \<noteq> 0 then (if has_checkCB apis then [CheckCb] else []) @ (if has_stopCB apis then [StopCb] else []) else []),
      q\<lparr>iLoopThreadRun := 0, isQuitThread := (if lLoopThreadId q \<noteq> 0 then 1 else isQuitThread q), lLoopThreadId := 0,
        tq_heap := \<lambda>_. None, tq_init := 0\<rparr>))"
proof -
  have rep: "tq_rep (q\<lparr>iLoopThreadRun := 0, isQuitThread := 1, lLoopThreadId := 0\<rparr>) as" "tq_rep (q\<lparr>iLoopThreadRun := 0\<rparr>) as"
    using assms(1) by (simp_all add: tq_rep_def)
  show ?thesis using destroy_frees_all [OF rep(1)] destroy_frees_all [OF rep(2)] assms(2)
    by (simp add: Message_Deinit_def Message_StopAsync_def Message_Thread_round_def)
qed

text \<open>A stopped queue takes no message and still answers success.\<close>

lemma put_after_stop:
  "tq_init q \<noteq> 0 \<Longrightarrow> Message_PutMsg ok (snd (Message_StopAsync q)) x = Inr (0, snd (Message_StopAsync q))"
  by (simp add: Message_PutMsg_def Message_StopAsync_def)

lemma init_rep:
  assumes "tq_heap q = (\<lambda>_. None)" "name \<noteq> []" "length name < 256"
  shows "\<exists>q'. Message_Init (\<lambda>_. True) tid name q = Inr (0, q') \<and> tq_rep q' [] \<and> tq_init q' = 1
    \<and> iLoopThreadRun q' = 1 \<and> iEventCnt q' = 0 \<and> lLoopThreadId q' = tid"
  using assms by (simp add: Message_Init_def Let_def tq_rep_def)

lemma init_abs:
  assumes "Message_Init (\<lambda>_. True) tid name q0 = Inr (0, q)" "tq_heap q0 = (\<lambda>_. None)"
  shows "tq_inv q" "tq_abs q = \<lparr>waiting = [], events = 0, running = True, alive = True\<rparr>"
proof -
  have "name \<noteq> []" "length name < 256" using assms(1) by (auto simp: Message_Init_def split: if_splits)
  from init_rep [OF assms(2) this, of tid] assms(1)
  have q: "tq_rep q []" "tq_init q = 1" "iLoopThreadRun q = 1" "iEventCnt q = 0" by auto
  then show "tq_inv q" by (auto simp: tq_inv_def)
  show "tq_abs q = \<lparr>waiting = [], events = 0, running = True, alive = True\<rparr>"
    using q tq_contents_rep [OF q(1)] assms(1) by (auto simp: tq_abs_def Message_Init_def Let_def split: if_splits)
qed

end
