(* ===== verification/Common_Properties.thy ===== *)
theory Common_Properties
  imports Base64 Media_Slice Ring_Buf State_Machine Task_Queue
begin

text \<open>
  The properties of the media and service code of \<open>common\<close>: slices, base-64, the frame rings, the
  task queue and the hierarchical state machine. The locales \<open>codec\<close>, \<open>machine\<close> and
  \<open>fifo\<close> are used through the interpretations \<open>b64c\<close>, \<open>rbm\<close> and \<open>tkq\<close>.
\<close>

section \<open>Media slices\<close>

lemma slice_pieces:
  assumes "d \<noteq> []" "length d \<le> 65535 * 1312"
  shows "fragments 1312 d \<noteq> []" "\<forall>f \<in> set (fragments 1312 d). length f \<le> 1312" "length (fragments 1312 d) < 65536"
proof -
  show "fragments 1312 d \<noteq> []" by (simp add: fragments.simps [of 1312 d])
  show "\<forall>f \<in> set (fragments 1312 d). length f \<le> 1312" using fragments_bounded [of 1312] by simp
  have "length d + 1311 < 65536 * 1312" using assms(2) by simp
  then have "(length d + 1311) div 1312 < 65536" by (rule less_mult_imp_div_less)
  then show "length (fragments 1312 d) < 65536" using length_fragments [of 1312 d] by (simp add: add.commute)
qed

text \<open>C19 (roundtrip): a frame of at most 65535 full slices that is cut into slices is put together
  again unchanged, with its description, whatever the stack held where the headers were built.\<close>

theorem media_slices_round_trip:
  assumes "d \<noteq> []" "length d \<le> 65535 * 1312" "length pd = 10" "length d \<le> room"
  shows "\<exists>dest n tn. media_data_slice_pack True pd junk fi d (int (length d)) = Inr (0, Some (dest, n, tn))
    \<and> media_data_slice_unpack True fi0 (Some dest) room
        = Inr (0, copy_info fi fi0, Some (d @ replicate (room - length d) 0, length d))"
proof -
  let ?fs = "fragments 1312 d"
  obtain zs where "media_data_slice_pack True pd junk fi d (int (length d))
      = Inr (0, Some (slice_stream pd junk fi (length ?fs) 0 ?fs @ zs, 64 * length ?fs + length d, int (length ?fs)))"
    using pack_spec [OF assms(1,3)] by blast
  moreover have "media_data_slice_unpack True fi0 (Some (slice_stream pd junk fi (length ?fs) 0 ?fs @ zs)) room
      = Inr (0, copy_info fi fi0, Some (concat ?fs @ replicate (room - length (concat ?fs)) 0, length (concat ?fs)))"
    by (rule unpack_stream [OF assms(3) slice_pieces [OF assms(1,2)]]) (simp add: concat_fragments assms(4))
  ultimately show ?thesis by (auto simp: concat_fragments)
qed

theorem media_slices_round_trip_witness:
  "\<exists>dest n tn. media_data_slice_pack True (replicate 10 0) zero_header (zero_info\<lparr>m_frameType := 1, m_frmPts := 7\<rparr>) [1, 2, 3] 3
      = Inr (0, Some (dest, n, tn))
    \<and> media_data_slice_unpack True zero_info (Some dest) 4
        = Inr (0, zero_info\<lparr>m_frameType := 1, m_frmPts := 7\<rparr>, Some ([1, 2, 3, 0], 3))"
  using media_slices_round_trip [of "[1, 2, 3]" "replicate 10 0" 4 zero_header "zero_info\<lparr>m_frameType := 1, m_frmPts := 7\<rparr>" zero_info]
  by (simp add: copy_info_def zero_info_def numeral_3_eq_3)

text \<open>a stream of slices that arrives cut short, anywhere, makes the receiver read past
  the end of what it was given: the lengths in the headers are never checked against it.\<close>

lemma cut_slices_are_overread:
  assumes "d \<noteq> []" "length d \<le> 65535 * 1312" "length pd = 10"
    and "media_data_slice_pack True pd junk fi d (int (length d)) = Inr (0, Some (dest, n, tn))" "m < n"
  shows "media_data_slice_unpack True fi0 (Some (take m dest)) room = Inl BufferOverrun"
proof -
  let ?fs = "fragments 1312 d"
  let ?s = "slice_stream pd junk fi (length ?fs) 0 ?fs"
  obtain zs where "dest = ?s @ zs" and n: "n = 64 * length ?fs + length d"
    using pack_spec [OF assms(1,3), of junk fi] assms(4) by auto
  moreover have "length ?s = n" using length_slice_stream [OF assms(3)] n by (simp add: concat_fragments)
  ultimately have "take m dest = take m ?s" "m < length ?s" using assms(5) by simp_all
  then show ?thesis using unpack_cut [OF assms(3) slice_pieces [OF assms(1,2)]] by simp
qed

lemma cut_slices_are_overread_witness:
  "\<exists>dest n tn. media_data_slice_pack True (replicate 10 0) zero_header zero_info [1, 2, 3] 3 = Inr (0, Some (dest, n, tn))
    \<and> media_data_slice_unpack True zero_info (Some (take (n - 1) dest)) 66 = Inl BufferOverrun"
proof -
  obtain zs where p: "media_data_slice_pack True (replicate 10 0) zero_header zero_info [1, 2, 3] (int (length [1, 2, 3 :: u8]))
    = Inr (0, Some (slice_stream (replicate 10 0) zero_header zero_info 1 0 [[1, 2, 3]] @ zs, 67, 1))"
    using pack_spec [of "[1, 2, 3]" "replicate 10 0" zero_header zero_info] by (auto simp: fragments_small)
  have "media_data_slice_unpack True zero_info
    (Some (take 66 (slice_stream (replicate 10 0) zero_header zero_info 1 0 [[1, 2, 3]] @ zs))) 66 = Inl BufferOverrun"
    by (rule cut_slices_are_overread [OF _ _ _ p]) simp_all
  then show ?thesis using p by (intro exI conjI) (auto simp del: slice_stream.simps)
qed

section \<open>Base-64\<close>

text \<open>C24 (roundtrip): encoding writes the padded text and a null byte, and decoding the text gives
  the data back, provided the buffers have room for them; a last group that is short makes the
  decoder write one more byte than it reports, a zero.\<close>

theorem base64_round_trip:
  assumes "b64_len (length d) < length out" "length d + (if length d mod 3 = 0 then 0 else 1) \<le> length out'"
  shows "\<exists>out1. base64_encode d out = Inr (b64_len (length d), out1) \<and> out1 ! b64_len (length d) = 0
    \<and> base64_decode (take (b64_len (length d)) out1) out' = Inr (length d, d @ after_text d out')"
proof -
  have "length (b64 d) = b64_len (length d)" by (rule length_b64)
  then show ?thesis
    using encode_spec [OF assms(1)] decode_spec [OF assms(2)]
    by (intro exI [of _ "b64 d @ 0 # drop (Suc (b64_len (length d))) out"]) (simp add: nth_append)
qed

theorem base64_round_trip_witness:
  "\<exists>out1. base64_encode [77, 97] (replicate 5 0) = Inr (4, out1) \<and> out1 ! 4 = 0
    \<and> base64_decode (take 4 out1) (replicate 3 1) = Inr (2, [77, 97, 0])"
  using base64_round_trip [of "[77, 97]" "replicate 5 0" "replicate 3 1"]
  by (simp add: b64_len_def after_text_def numeral_2_eq_2)

text \<open>Whatever the text, decoding it into a buffer of three bytes for every four
  characters stays inside the buffer and reports no more than it has.\<close>

lemma base64_decode_stays_inside:
  assumes "3 * (length t div 4) \<le> length out"
  shows "\<exists>n out'. base64_decode t out = Inr (n, out') \<and> n \<le> 3 * (length t div 4) \<and> length out' = length out"
  using assms by (rule decode_total)

lemma base64_decode_stays_inside_witness:
  "\<exists>n out'. base64_decode [65, 61, 0, 255] (replicate 3 0) = Inr (n, out') \<and> n \<le> 3 \<and> length out' = 3"
  using base64_decode_stays_inside [of "[65, 61, 0, 255]" "replicate 3 0"] by simp

section \<open>Frame rings\<close>

lemma ring_start_exists:
  "\<exists>r. ring_start 0 r"
proof -
  let ?g = "replicate 3 zero_ring" and ?j = "\<lambda>i. replicate (unat (ring_len i)) (0 :: u8)"
  have "RING_BUF_Init (\<lambda>_. True) ?j ?g = (0, snd (RING_BUF_Init (\<lambda>_. True) ?j ?g))"
    using init_all [of ?g ?j] by simp
  then have "ring_start 0 (snd (RING_BUF_Init (\<lambda>_. True) ?j ?g) ! 0)"
    unfolding ring_start_def by (intro conjI exI [of _ ?j] exI [of _ ?g] exI) auto
  then show ?thesis by blast
qed

text \<open>C20 (termination): in every ring reachable by writing frames of at least four bytes that fit the
  block, writing another one ends, within the given number of rounds of its loops, and reports
  success, and the reader \<open>RING_BUF_GetOnePacket\<close>, at whatever index, then hands out no region outside
  the block and keeps its index inside the table. (Other readers, \<open>RING_BUF_GetNextIFrame\<close> for one, can
  read outside: see \<open>next_iframe_reads_outside\<close>.)\<close>

theorem ring_write_ends_and_reads_inside:
  assumes "reachable (ring_start ch) (ring_step ch) r"
    and "n \<le> ring_len (nat ch)" "4 \<le> unat n" "unat n \<le> length d" "1000 * (unat n + 1) \<le> fuel"
  shows "\<exists>r' b. RING_BUF_FillBuf fuel ch frameType wTime pts n d frameIndex r = Inr (Some (0, r')) \<and> pRingBuf r' = Some b
    \<and> (\<exists>l out'. RING_BUF_GetOnePacket True out r' = Inr (l, out') \<and> unat (o_StartReadIndex out') < 1000
        \<and> (l \<le> 0 \<or> (\<exists>off. o_pDataBuf out' = Some off \<and> off + nat l \<le> length b)))"
proof -
  have inv: "ring_inv ch r" using assms(1) by (rule rbm.inv_reachable)
  obtain b where b: "pRingBuf r = Some b" using inv by (auto simp: ring_inv_def)
  have "fill_fuel n \<le> fuel" using assms(5) by (simp add: fill_fuel_def)
  from fill_spec [OF inv assms(2-4) this b] obtain r' b' where r':
    "RING_BUF_FillBuf fuel ch frameType wTime pts n d frameIndex r = Inr (Some (0, r'))" "ring_inv ch r'" "pRingBuf r' = Some b'"
    by blast
  from get_one_safe [OF r'(2,3), of out] r' show ?thesis by (metis linorder_not_le)
qed

theorem ring_write_ends_and_reads_inside_witness:
  "\<exists>r r' b l out'. ring_start 0 r \<and> RING_BUF_FillBuf 5000 0 1 0 0 4 [0, 0, 0, 1] 0 r = Inr (Some (0, r')) \<and> pRingBuf r' = Some b
    \<and> RING_BUF_GetOnePacket True \<lparr>o_pDataBuf = None, o_pFrameType = 0, o_TimeStamp = 0, o_wTimeStamp = 0,
        o_StartReadIndex = 0, o_frameIndex = 0\<rparr> r' = Inr (l, out') \<and> unat (o_StartReadIndex out') < 1000"
proof -
  obtain r where r: "ring_start 0 r" using ring_start_exists by blast
  then have "reachable (ring_start 0) (ring_step 0) r" by (rule reach_start)
  from ring_write_ends_and_reads_inside [OF this, of 4 "[0, 0, 0, 1]" 5000 1 0 0 0
      "\<lparr>o_pDataBuf = None, o_pFrameType = 0, o_TimeStamp = 0, o_wTimeStamp = 0, o_StartReadIndex = 0, o_frameIndex = 0\<rparr>"]
  show ?thesis using r by (auto simp: ring_len_def MAX_MAIN_RINGBUF_LEN_def)
qed

text \<open>C21 (roundtrip): the frame just written is the one a reader at its index gets, with its data
  whole in the block, its type, times and number, and the reader moves on to the next index; video
  frames must start with the start code the reader checks.\<close>

theorem ring_frame_reads_back:
  assumes "reachable (ring_start ch) (ring_step ch) r" "n \<le> ring_len (nat ch)" "4 \<le> unat n" "unat n \<le> length d"
    and "is_audio frameType \<or> take 4 d = [0, 0, 0, 1]" "o_StartReadIndex out = uiCurIndex r"
  shows "\<exists>r' out' off b. RING_BUF_FillBuf (fill_fuel n) ch frameType wTime pts n d frameIndex r = Inr (Some (0, r'))
    \<and> RING_BUF_GetOnePacket True out r' = Inr (int (unat n), out') \<and> pRingBuf r' = Some b
    \<and> o_pDataBuf out' = Some off \<and> mem_read b off (unat n) = Inr (take (unat n) d)
    \<and> o_pFrameType out' = frameType \<and> o_TimeStamp out' = pts \<and> o_wTimeStamp out' = wTime
    \<and> o_frameIndex out' = frameIndex \<and> o_StartReadIndex out' = uiCurIndex r'"
  using assms by (intro fill_then_read rbm.inv_reachable)

theorem ring_frame_reads_back_witness:
  "\<exists>r r' out' off b. ring_start 0 r \<and> RING_BUF_FillBuf (fill_fuel 5) 0 1 8 9 5 [0, 0, 0, 1, 64] 3 r = Inr (Some (0, r'))
    \<and> RING_BUF_GetOnePacket True \<lparr>o_pDataBuf = None, o_pFrameType = 0, o_TimeStamp = 0, o_wTimeStamp = 0,
        o_StartReadIndex = uiCurIndex r, o_frameIndex = 0\<rparr> r' = Inr (5, out') \<and> pRingBuf r' = Some b
    \<and> o_pDataBuf out' = Some off \<and> mem_read b off 5 = Inr [0, 0, 0, 1, 64] \<and> o_TimeStamp out' = 9 \<and> o_frameIndex out' = 3"
proof -
  obtain r where r: "ring_start 0 r" using ring_start_exists by blast
  then have "reachable (ring_start 0) (ring_step 0) r" by (rule reach_start)
  from ring_frame_reads_back [OF this, of 5 "[0, 0, 0, 1, 64]" 1
      "\<lparr>o_pDataBuf = None, o_pFrameType = 0, o_TimeStamp = 0, o_wTimeStamp = 0, o_StartReadIndex = uiCurIndex r, o_frameIndex = 0\<rparr>" 8 9 3]
  show ?thesis using r by (fastforce simp: ring_len_def MAX_MAIN_RINGBUF_LEN_def)
qed

text \<open>the forward search for an I frame reads its table out of bounds whenever the write
  index is at least 5 and not beyond the number of frames asked for, so already in a ring that
  has just received its first five frames.\<close>

lemma next_iframe_reads_outside:
  assumes "reachable (ring_start ch) (ring_step ch) r" "5 \<le> unat (uiCurIndex r)"
    and "int (unat (uiCurIndex r)) \<le> preFrmNum" "preFrmNum < 2 ^ 31"
  shows "RING_BUF_GetNextIFrame (Suc fuel) True preFrmNum out r = Inl BufferOverrun"
  using assms by (intro next_iframe_leaves_table rbm.inv_reachable)

lemma ring_after_writes:
  assumes "ring_start 0 r0" "k < 1000"
  shows "\<exists>r. reachable (ring_start 0) (ring_step 0) r \<and> unat (uiCurIndex r) = k"
  using assms(2)
proof (induction k)
  case 0
  have "uiCurIndex r0 = 0"
    using assms(1) init_all by (auto simp: ring_start_def zero_ring_def)
  then show ?case using assms(1) by (intro exI [of _ r0]) (auto intro: reach_start)
next
  case (Suc k)
  then obtain r where r: "reachable (ring_start 0) (ring_step 0) r" "unat (uiCurIndex r) = k" by auto
  have inv: "ring_inv 0 r" using r(1) by (rule rbm.inv_reachable)
  obtain b where b: "pRingBuf r = Some b" using inv by (auto simp: ring_inv_def)
  have n: "(4 :: u32) \<le> ring_len (nat 0)" by (simp add: ring_len_def MAX_MAIN_RINGBUF_LEN_def)
  obtain r' where r': "RING_BUF_FillBuf (fill_fuel 4) 0 3 0 0 4 [0, 0, 0, 0] 0 r = Inr (Some (0, r'))"
    "uiCurIndex r' = RING_BUF_GetNextIndex (uiCurIndex r)"
    using fill_spec [OF inv n _ _ order_refl b, of "[0, 0, 0, 0]" 3 0 0 0] by auto
  have "ring_step 0 r r'" by (rule ring_write [OF n _ _ r'(1)]) simp_all
  moreover have "unat (uiCurIndex r') = Suc k" using r'(2) r(2) Suc.prems by (simp add: next_index)
  ultimately show ?case using r(1) by (blast intro: reach_step)
qed

lemma next_iframe_reads_outside_witness:
  "\<exists>r. reachable (ring_start 0) (ring_step 0) r \<and> unat (uiCurIndex r) = 5
    \<and> RING_BUF_GetNextIFrame 1000 True 30 \<lparr>o_pDataBuf = None, o_pFrameType = 0, o_TimeStamp = 0, o_wTimeStamp = 0,
        o_StartReadIndex = 0, o_frameIndex = 0\<rparr> r = Inl BufferOverrun"
proof -
  obtain r0 where "ring_start 0 r0" using ring_start_exists by blast
  then obtain r where r: "reachable (ring_start 0) (ring_step 0) r" "unat (uiCurIndex r) = 5"
    using ring_after_writes [of r0 5] by auto
  from next_iframe_reads_outside [OF r(1), of 30 999] r show ?thesis by auto
qed

text \<open>a frame larger than the block of a fresh ring is never refused: the loop that looks
  for room runs forever, holding the lock of the channel.\<close>

lemma oversized_frame_never_returns:
  assumes "ring_start ch r" "ring_len (nat ch) < n"
  shows "RING_BUF_FillBuf fuel ch frameType wTime pts n d frameIndex r = Inr None"
proof -
  obtain junk g g' where c: "0 \<le> ch" "ch < 3" "length g = 3" "RING_BUF_Init (\<lambda>_. True) junk g = (0, g')" "r = g' ! nat ch"
    using assms(1) by (auto simp: ring_start_def)
  have "ch = 0 \<or> ch = 1 \<or> ch = 2" using c(1,2) by auto
  then have "r = zero_ring\<lparr>uiMaxLen := ring_len (nat ch), uiLeftLen := ring_len (nat ch),
     pRingBuf := Some (junk (nat ch)), uiReadIndex := 0, nIsInit := 1\<rparr>"
    using c(4,5) init_all [OF c(3), of junk] by auto
  then show ?thesis using assms(2) by (intro oversized_never_returns) (simp_all add: zero_ring_def)
qed

lemma oversized_frame_never_returns_witness:
  "\<exists>r. ring_start 0 r \<and> RING_BUF_FillBuf 1000000 0 1 0 0 1572865 [] 0 r = Inr None"
proof -
  obtain r where r: "ring_start 0 r" using ring_start_exists by blast
  from oversized_frame_never_returns [OF this, of 1572865] r
  show ?thesis by (auto simp: ring_len_def MAX_MAIN_RINGBUF_LEN_def)
qed

section \<open>The task queue\<close>

definition empty_task_queue :: MessageQueue where
  "empty_task_queue = \<lparr>tq_init = 0, isQuitThread = 0, iNodeNum = 0, iLoopThreadRun = 0, tq_head = 0, lLoopThreadId = 0,
     iEventCnt = 0, tq_name = [], tq_heap = \<lambda>_. None, tq_fresh = 1\<rparr>"

lemma task_queue_inits:
  "\<exists>q. Message_Init (\<lambda>_. True) 7 [113] empty_task_queue = Inr (0, q) \<and> tq_rep q [] \<and> tq_init q = 1
    \<and> iLoopThreadRun q = 1 \<and> iEventCnt q = 0 \<and> lLoopThreadId q = 7"
  by (rule init_rep) (simp_all add: empty_task_queue_def)

text \<open>C23 (refinement): under any mix of puts, write events, a stop and rounds of its thread, a fresh task
  queue faults nowhere and makes exactly the calls of the reference, a plain list of messages with a
  count of events: each round hands over the oldest message waiting, else an event, each once and
  unchanged but for the links. While it was not stopped, as many further rounds as messages wait hand
  over all of them. A put that finds no memory answers -1; a put after a stop answers 0 and is dropped,
  and the round that sees the stop ends the thread with the messages still waiting.\<close>

theorem task_queue_delivers_in_order:
  assumes "Message_Init (\<lambda>_. True) tid name q0 = Inr (0, q)" "tq_heap q0 = (\<lambda>_. None)"
  shows "\<exists>rs t r. spec_run apis ops \<lparr>waiting = [], events = 0, running = True, alive = True\<rparr> = (rs, t)
    \<and> tq_run apis ops q = Inr (rs, r) \<and> tq_contents r = waiting t
    \<and> (TStop \<notin> set ops \<longrightarrow> (\<exists>r'. tq_run apis (replicate (length (waiting t)) TRound) r =
          Inr (map (\<lambda>x. TCalls True (call_if (has_checkCB apis) CheckCb @ call_if (has_readCb apis) (ReadCb x))) (waiting t), r')
        \<and> tq_contents r' = []))"
proof -
  note init = init_abs [OF assms]
  obtain rs t where t: "spec_run apis ops \<lparr>waiting = [], events = 0, running = True, alive = True\<rparr> = (rs, t)"
    by fastforce
  obtain r where r: "tq_run apis ops q = Inr (rs, r)" "tq_inv r" "tq_abs r = t"
    using run_refines [OF init(1), of apis ops] init(2) t by auto
  have c: "tq_contents r = waiting t" using r(3) by (auto simp: tq_abs_def)
  obtain r' where r': "tq_run apis (replicate (length (waiting t)) TRound) r =
      Inr (fst (spec_run apis (replicate (length (waiting t)) TRound) t), r')"
    "tq_abs r' = snd (spec_run apis (replicate (length (waiting t)) TRound) t)"
    using run_refines [OF r(2), of apis "replicate (length (waiting t)) TRound"] r(3) by auto
  have "tq_contents r' = [] \<and> fst (spec_run apis (replicate (length (waiting t)) TRound) t)
      = map (\<lambda>x. TCalls True (call_if (has_checkCB apis) CheckCb @ call_if (has_readCb apis) (ReadCb x))) (waiting t)"
    if "TStop \<notin> set ops"
  proof -
    have "running t \<and> alive t" using spec_run_keeps_going [OF that] t by (metis snd_conv tq_spec.select_convs(3,4))
    then have d: "spec_run apis (replicate (length (waiting t)) TRound) t
      = (map (\<lambda>x. TCalls True (call_if (has_checkCB apis) CheckCb @ call_if (has_readCb apis) (ReadCb x))) (waiting t),
         t\<lparr>waiting := []\<rparr>)" by (intro spec_rounds_deliver) simp_all
    have "waiting (tq_abs r') = []" using r'(2) d by simp
    then show ?thesis using d by (simp add: tq_abs_def)
  qed
  with t r(1) c r'(1) show ?thesis by metis
qed

definition letter :: "64 word \<Rightarrow> MessageNode" where
  "letter c = zero_node\<lparr>mn_command := c\<rparr>"

lemma msg_of_letter [simp]: "msg_of (letter c) = letter c"
  by (simp add: msg_of_def letter_def zero_node_def)

theorem task_queue_delivers_in_order_witness:
  "\<exists>q r r'. Message_Init (\<lambda>_. True) 7 [113] empty_task_queue = Inr (0, q)
    \<and> tq_run \<lparr>has_readCb = True, has_writeCB = True, has_checkCB = False, has_stopCB = True\<rparr>
        [TPut True (letter 1), TEvent, TPut False (letter 2), TPut True (letter 3), TRound, TPut True (letter 4)] q
        = Inr ([TCode 0, TCode 0, TCode (-1), TCode 0, TCalls True [ReadCb (letter 1)], TCode 0], r)
    \<and> tq_run \<lparr>has_readCb = True, has_writeCB = True, has_checkCB = False, has_stopCB = True\<rparr> [TRound, TRound] r
        = Inr ([TCalls True [ReadCb (letter 3)], TCalls True [ReadCb (letter 4)]], r')
    \<and> tq_contents r' = []"
proof -
  let ?apis = "\<lparr>has_readCb = True, has_writeCB = True, has_checkCB = False, has_stopCB = True\<rparr>"
  let ?ops = "[TPut True (letter 1), TEvent, TPut False (letter 2), TPut True (letter 3), TRound, TPut True (letter 4)]"
  obtain q where q: "Message_Init (\<lambda>_. True) 7 [113] empty_task_queue = Inr (0, q)" using task_queue_inits by blast
  have h: "tq_heap empty_task_queue = (\<lambda>_. None)" by (simp add: empty_task_queue_def)
  have t: "spec_run ?apis ?ops \<lparr>waiting = [], events = 0, running = True, alive = True\<rparr>
    = ([TCode 0, TCode 0, TCode (-1), TCode 0, TCalls True [ReadCb (letter 1)], TCode 0],
       \<lparr>waiting = [letter 3, letter 4], events = 1, running = True, alive = True\<rparr>)"
    by (simp add: call_if_def)
  obtain r where r: "tq_run ?apis ?ops q
      = Inr ([TCode 0, TCode 0, TCode (-1), TCode 0, TCalls True [ReadCb (letter 1)], TCode 0], r)"
    "\<exists>r'. tq_run ?apis (replicate (length [letter 3, letter 4]) TRound) r =
        Inr (map (\<lambda>x. TCalls True (call_if False CheckCb @ call_if True (ReadCb x))) [letter 3, letter 4], r') \<and> tq_contents r' = []"
    using task_queue_delivers_in_order [OF q h, of ?apis ?ops] unfolding t by (auto simp del: tq_run.simps)
  from r(2) have "\<exists>r'. tq_run ?apis [TRound, TRound] r
      = Inr ([TCalls True [ReadCb (letter 3)], TCalls True [ReadCb (letter 4)]], r') \<and> tq_contents r' = []"
    by (simp add: call_if_def numeral_2_eq_2 del: tq_run.simps)
  with q r(1) show ?thesis by blast
qed

text \<open>Releasing a task queue joins its thread and frees the sentinel and every message
  still linked in, each once.\<close>

lemma task_queue_deinit_frees_all:
  assumes "tq_rep q as" "tq_init q \<noteq> 0"
  shows "\<exists>calls q'. Message_Deinit (tq_fresh q) apis q = Inr (Some (0, calls, q'))
    \<and> tq_heap q' = (\<lambda>_. None) \<and> tq_init q' = 0 \<and> (lLoopThreadId q = 0 \<or> isQuitThread q' = 1)"
  using deinit_releases [OF assms] by auto

lemma task_queue_deinit_frees_all_witness:
  "\<exists>q calls q'. Message_Init (\<lambda>_. True) 7 [113] empty_task_queue = Inr (0, q)
    \<and> Message_Deinit (tq_fresh q) \<lparr>has_readCb = True, has_writeCB = True, has_checkCB = False, has_stopCB = True\<rparr> q
        = Inr (Some (0, calls, q'))
    \<and> tq_heap q' = (\<lambda>_. None) \<and> isQuitThread q' = 1"
proof -
  obtain q where q: "Message_Init (\<lambda>_. True) 7 [113] empty_task_queue = Inr (0, q)" "tq_rep q []" "tq_init q = 1" "lLoopThreadId q = 7"
    using task_queue_inits by blast
  from task_queue_deinit_frees_all [OF q(2)] q show ?thesis by (metis one_neq_zero zero_neq_numeral)
qed

section \<open>The hierarchical state machine\<close>

text \<open>C22 (termination): in a well-formed hierarchy an event is always handled, within twice its height
  rounds: of the transitions of the current state and its ancestors, nearest first, the first one for
  the event whose guard is absent or holds is taken; it leads to the innermost entry state of its
  target, and the exit, transition and entry functions run in this order. Without such a transition,
  and in a current state that has no transitions of its own (whatever its ancestors have), nothing
  changes.\<close>

theorem event_takes_nearest_transition:
  assumes "hierarchy S height b" "machine_ok S fsm" "currentState fsm = Some c" "S c = Some s" "2 * b \<le> fuel"
  shows "stateM_handleEvent fuel S (Some fsm) (Some ev)
    = (case outcome b S fsm c (if transitions s = [] then None else firing (lineage b S c) ev) of
        (n, calls, f) \<Rightarrow> Inr (Some (n, calls, Some f)))"
  using assms by (rule handle_event_ok)

definition on_event :: "int \<Rightarrow> nat \<Rightarrow> transition" where
  "on_event e n = \<lparr>eventType = e, guard = None, has_action = True, nextState = Some n\<rparr>"

definition two_states :: states where
  "two_states = [0 \<mapsto> \<lparr>parentState = None, entryState = Some 1, transitions = [on_event 9 2], has_entryAction = True, has_exitAction = True\<rparr>,
     1 \<mapsto> \<lparr>parentState = Some 0, entryState = None, transitions = [(on_event 9 1)\<lparr>guard := Some (\<lambda>e. ev_data e = 5)\<rparr>], has_entryAction = True, has_exitAction = True\<rparr>,
     2 \<mapsto> \<lparr>parentState = None, entryState = None, transitions = [], has_entryAction = True, has_exitAction = True\<rparr>]"

theorem event_takes_nearest_transition_witness:
  "stateM_handleEvent 4 two_states (Some \<lparr>currentState = Some 1, previousState = None, errorState = None\<rparr>)
      (Some \<lparr>ev_type = 9, ev_data = 0\<rparr>)
    = Inr (Some (3, [ExitCall 1, ActionCall 1 2, EntryCall 2], Some \<lparr>currentState = Some 2, previousState = Some 1, errorState = None\<rparr>))"
proof -
  have h: "hierarchy two_states (\<lambda>a. if a = 0 then 1 else 0) 2"
    by (auto simp: hierarchy_def two_states_def on_event_def split: if_splits)
  have m: "machine_ok two_states \<lparr>currentState = Some 1, previousState = None, errorState = None\<rparr>"
    by (simp add: machine_ok_def two_states_def)
  obtain s where s: "two_states 1 = Some s" "transitions s \<noteq> []" by (simp add: two_states_def)
  let ?m = "\<lparr>currentState = Some 1, previousState = None, errorState = None\<rparr>"
  have o: "outcome 2 two_states ?m 1 (firing (lineage 2 two_states 1) \<lparr>ev_type = 9, ev_data = 0\<rparr>)
    = (3, [ExitCall 1, ActionCall 1 2, EntryCall 2], \<lparr>currentState = Some 2, previousState = Some 1, errorState = None\<rparr>)"
    by (simp add: numeral_2_eq_2 outcome_def two_states_def on_event_def stateM_finalStateReached_def Let_def)
  have "stateM_handleEvent 4 two_states (Some ?m) (Some \<lparr>ev_type = 9, ev_data = 0\<rparr>)
    = (case outcome 2 two_states ?m 1 (firing (lineage 2 two_states 1) \<lparr>ev_type = 9, ev_data = 0\<rparr>) of
        (n, calls, f) \<Rightarrow> Inr (Some (n, calls, Some f)))"
    using event_takes_nearest_transition [OF h m _ s(1), of 4] s(2) by simp
  then show ?thesis unfolding o by simp
qed

end
