(* ===== verification/G711.thy ===== *)
theory G711
  imports Prelude
begin

text \<open>
  The two G.711 codecs: \<open>common/media/g711a/media_audio_g711.c\<close>, in 16-bit arithmetic, and
  \<open>common/media/mp4/g711codec.c\<close>, in \<open>int\<close>. A sample is an integer in the range of a
  \<open>short\<close>; a value stored into a \<open>short\<close> is cut to 16 bits by \<open>to_short\<close>. Shifts of
  negative values are arithmetic, as on the target.
\<close>

section \<open>Tables\<close>

definition SIGN_BIT :: u8 where "SIGN_BIT = 0x80"
definition QUANT_MASK :: u8 where "QUANT_MASK = 0xf"
definition SEG_SHIFT :: nat where "SEG_SHIFT = 4"
definition SEG_MASK :: u8 where "SEG_MASK = 0x70"
definition ULAW_BIAS :: int where "ULAW_BIAS = 0x84"

definition seg_end :: "int list" where
  "seg_end = [0xFF, 0x1FF, 0x3FF, 0x7FF, 0xFFF, 0x1FFF, 0x3FFF, 0x7FFF]"

definition u2a_table :: "u8 list" where
  "u2a_table =
    [1, 1, 2, 2, 3, 3, 4, 4, 5, 5, 6, 6, 7, 7, 8, 8,
     9, 10, 11, 12, 13, 14, 15, 16, 17, 18, 19, 20, 21, 22, 23, 24,
     25, 27, 29, 31, 33, 34, 35, 36, 37, 38, 39, 40, 41, 42, 43, 44,
     46, 48, 49, 50, 51, 52, 53, 54, 55, 56, 57, 58, 59, 60, 61, 62,
     64, 65, 66, 67, 68, 69, 70, 71, 72, 73, 74, 75, 76, 77, 78, 79,
     81, 82, 83, 84, 85, 86, 87, 88, 89, 90, 91, 92, 93, 94, 95, 96,
     97, 98, 99, 100, 101, 102, 103, 104, 105, 106, 107, 108, 109, 110, 111, 112,
     113, 114, 115, 116, 117, 118, 119, 120, 121, 122, 123, 124, 125, 126, 127, 128]"

definition a2u_table :: "u8 list" where
  "a2u_table =
    [1, 3, 5, 7, 9, 11, 13, 15, 16, 17, 18, 19, 20, 21, 22, 23,
     24, 25, 26, 27, 28, 29, 30, 31, 32, 32, 33, 33, 34, 34, 35, 35,
     36, 37, 38, 39, 40, 41, 42, 43, 44, 45, 46, 47, 48, 48, 49, 49,
     50, 51, 52, 53, 54, 55, 56, 57, 58, 59, 60, 61, 62, 63, 64, 64,
     65, 66, 67, 68, 69, 70, 71, 72, 73, 74, 75, 76, 77, 78, 79, 79,
     80, 81, 82, 83, 84, 85, 86, 87, 88, 89, 90, 91, 92, 93, 94, 95,
     96, 97, 98, 99, 100, 101, 102, 103, 104, 105, 106, 107, 108, 109, 110, 111,
     112, 113, 114, 115, 116, 117, 118, 119, 120, 121, 122, 123, 124, 125, 126, 127]"

definition to_short :: "int \<Rightarrow> int" where
  "to_short v = sint (word_of_int v :: 16 word)"

fun seg_search :: "int \<Rightarrow> int list \<Rightarrow> nat" where
  "seg_search val [] = 0"
| "seg_search val (t # ts) = (if val \<le> t then 0 else Suc (seg_search val ts))"

section \<open>One sample\<close>

text \<open>The segment number and the quantisation bits, before the mask.\<close>

definition alaw_bits :: "nat \<Rightarrow> int \<Rightarrow> u8" where
  "alaw_bits seg v =
    (let aval = push_bit SEG_SHIFT (word_of_nat seg)
     in if seg < 2 then aval OR (word_of_int (drop_bit 4 v) AND QUANT_MASK)
        else aval OR (word_of_int (drop_bit (seg + 3) v) AND QUANT_MASK))"

definition ulaw_bits :: "nat \<Rightarrow> int \<Rightarrow> u8" where
  "ulaw_bits seg v = push_bit 4 (word_of_nat seg) OR (word_of_int (drop_bit (seg + 3) v) AND 0xF)"

definition af_linear2alaw :: "int \<Rightarrow> u8" where
  "af_linear2alaw pcm_val =
    (let (mask, v) =
        (if pcm_val \<ge> 0 then (0xD5, pcm_val)
         else let v = to_short (- pcm_val - 1) in (0x55, if v < 0 then 32767 else v));
         seg = seg_search v seg_end
     in if seg \<ge> 8 then 0x7F XOR mask else alaw_bits seg v XOR mask)"

definition af_alaw2linear :: "u8 \<Rightarrow> int" where
  "af_alaw2linear a_val =
    (let a = a_val XOR 0x55;
         t = to_short (push_bit 4 (uint (a AND QUANT_MASK)));
         seg = unat (drop_bit SEG_SHIFT (a AND SEG_MASK));
         t = (if seg = 0 then to_short (t + 8)
              else if seg = 1 then to_short (t + 0x108)
              else to_short (push_bit (seg - 1) (to_short (t + 0x108))))
     in if a AND SIGN_BIT \<noteq> 0 then t else to_short (- t))"

definition af_linear2ulaw :: "int \<Rightarrow> u8" where
  "af_linear2ulaw pcm_val =
    (let (mask, v) = (if pcm_val < 0 then (0x7F, to_short (ULAW_BIAS - pcm_val)) else (0xFF, to_short (pcm_val + ULAW_BIAS)));
         seg = seg_search v seg_end
     in if seg \<ge> 8 then 0x7F XOR mask else ulaw_bits seg v XOR mask)"

definition af_ulaw2linear :: "u8 \<Rightarrow> int" where
  "af_ulaw2linear u_val =
    (let u = NOT u_val;
         t = to_short (push_bit 3 (uint (u AND QUANT_MASK)) + ULAW_BIAS);
         t = to_short (push_bit (unat (drop_bit SEG_SHIFT (u AND SEG_MASK))) t)
     in if u AND SIGN_BIT \<noteq> 0 then to_short (ULAW_BIAS - t) else to_short (t - ULAW_BIAS))"

definition alaw2ulaw :: "u8 \<Rightarrow> u8" where
  "alaw2ulaw aval =
    (if aval AND 0x80 \<noteq> 0 then 0xFF XOR (a2u_table ! unat (aval XOR 0xD5)) else 0x7F XOR (a2u_table ! unat (aval XOR 0x55)))"

definition ulaw2alaw :: "u8 \<Rightarrow> u8" where
  "ulaw2alaw uval =
    (if uval AND 0x80 \<noteq> 0 then 0xD5 XOR (u2a_table ! unat (0xFF XOR uval) - 1)
     else 0x55 XOR (u2a_table ! unat (0x7F XOR uval) - 1))"

text \<open>The \<open>int\<close> versions of \<open>g711codec.c\<close>.\<close>

definition linear2alaw :: "int \<Rightarrow> u8" where
  "linear2alaw pcm_val =
    (let (mask, v) = (if pcm_val \<ge> 0 then (0xD5, pcm_val) else (0x55, - pcm_val - 8));
         seg = seg_search v seg_end
     in if seg \<ge> 8 then 0x7F XOR mask else alaw_bits seg v XOR mask)"

definition alaw2linear :: "u8 \<Rightarrow> int" where
  "alaw2linear a_val =
    (let a = a_val XOR 0x55;
         t = push_bit 4 (uint (a AND QUANT_MASK));
         seg = unat (drop_bit SEG_SHIFT (a AND SEG_MASK));
         t = (if seg = 0 then t + 8 else if seg = 1 then t + 0x108 else push_bit (seg - 1) (t + 0x108))
     in if a AND SIGN_BIT \<noteq> 0 then t else - t)"

definition linear2ulaw :: "int \<Rightarrow> u8" where
  "linear2ulaw pcm_val =
    (let (mask, v) = (if pcm_val < 0 then (0x7F, ULAW_BIAS - pcm_val) else (0xFF, pcm_val + ULAW_BIAS));
         seg = seg_search v seg_end
     in if seg \<ge> 8 then 0x7F XOR mask else ulaw_bits seg v XOR mask)"

definition ulaw2linear :: "u8 \<Rightarrow> int" where
  "ulaw2linear u_val =
    (let u = NOT u_val;
         t = push_bit 3 (uint (u AND QUANT_MASK)) + ULAW_BIAS;
         t = push_bit (unat (drop_bit SEG_SHIFT (u AND SEG_MASK))) t
     in if u AND SIGN_BIT \<noteq> 0 then ULAW_BIAS - t else t - ULAW_BIAS)"

section \<open>Arrays of samples\<close>

text \<open>
  The first \<open>size\<close> elements of one array converted into the other, whose remaining elements
  stay; reading or writing past an array is a fault.
\<close>

definition convert :: "('a \<Rightarrow> 'b) \<Rightarrow> 'a list \<Rightarrow> 'b list \<Rightarrow> int \<Rightarrow> 'b list result" where
  "convert f src dst n =
    (if length src < nat n \<or> length dst < nat n then Inl BufferOverrun
     else Inr (map f (take (nat n) src) @ drop (nat n) dst))"

definition G711Encoder :: "int list \<Rightarrow> bytes \<Rightarrow> int \<Rightarrow> int \<Rightarrow> bytes result" where
  "G711Encoder pcm code n lawflag =
    (if lawflag = 0 then convert af_linear2alaw pcm code n else convert af_linear2ulaw pcm code n)"

definition G711Decoder :: "int list \<Rightarrow> bytes \<Rightarrow> int \<Rightarrow> int \<Rightarrow> int list result" where
  "G711Decoder pcm code n lawflag =
    (if lawflag = 0 then convert af_alaw2linear code pcm n else convert af_ulaw2linear code pcm n)"

definition g711a_decode :: "int list \<Rightarrow> bytes \<Rightarrow> int \<Rightarrow> (int \<times> int list) result" where
  "g711a_decode amp dat n =
    (case convert (\<lambda>c. to_short (alaw2linear c)) dat amp n of Inl e \<Rightarrow> Inl e
     | Inr out \<Rightarrow> Inr (2 * int (nat n), out))"

definition g711u_decode :: "int list \<Rightarrow> bytes \<Rightarrow> int \<Rightarrow> (int \<times> int list) result" where
  "g711u_decode amp dat n =
    (case convert (\<lambda>c. to_short (ulaw2linear c)) dat amp n of Inl e \<Rightarrow> Inl e
     | Inr out \<Rightarrow> Inr (2 * int (nat n), out))"

definition g711a_encode :: "bytes \<Rightarrow> int list \<Rightarrow> int \<Rightarrow> (int \<times> bytes) result" where
  "g711a_encode dat amp n =
    (case convert linear2alaw amp dat n of Inl e \<Rightarrow> Inl e | Inr out \<Rightarrow> Inr (n, out))"

definition g711u_encode :: "bytes \<Rightarrow> int list \<Rightarrow> int \<Rightarrow> (int \<times> bytes) result" where
  "g711u_encode dat amp n =
    (case convert linear2ulaw amp dat n of Inl e \<Rightarrow> Inl e | Inr out \<Rightarrow> Inr (n, out))"

section \<open>All codes\<close>

text \<open>Facts about all 256 codes, by evaluation.\<close>

definition all_codes :: "(u8 \<Rightarrow> bool) \<Rightarrow> bool" where
  "all_codes P \<longleftrightarrow> list_all (\<lambda>n. P (word_of_nat n)) [0..<256]"

lemma all_codesD: "all_codes P \<Longrightarrow> P c"
proof -
  assume "all_codes P"
  moreover have "unat c < 256" using unsigned_less [of c] by simp
  ultimately have "P (word_of_nat (unat c))" unfolding all_codes_def list_all_iff by (metis atLeastLessThan_iff set_upt zero_le)
  then show "P c" by (simp add: of_nat_unat)
qed

lemma code_parts:
  "all_codes (\<lambda>a. push_bit 4 (word_of_nat (unat (drop_bit 4 (a AND 0x70)))) OR word_of_int (uint (a AND 0xf)) = a AND 0x7F
     \<and> unat (drop_bit 4 (a AND 0x70)) < 8 \<and> uint (a AND 0xf) < 16)"
  by code_simp

lemma mask_parts:
  "all_codes (\<lambda>c. if (c XOR 0x55) AND 0x80 \<noteq> 0 then ((c XOR 0x55) AND 0x7F) XOR 0xD5 = c else ((c XOR 0x55) AND 0x7F) XOR 0x55 = c)"
  "all_codes (\<lambda>c. if NOT c AND 0x80 \<noteq> 0 then ((NOT c) AND 0x7F) XOR 0x7F = c else ((NOT c) AND 0x7F) XOR 0xFF = c)"
  by code_simp+

section \<open>Quantisation intervals\<close>

text \<open>
  A code stands for the interval of magnitudes that starts at \<open>alaw_low\<close> (\<open>ulaw_low\<close> for
  biased magnitudes) and has the width \<open>2 ^ alaw_shift\<close>; its decoded value is the middle.
\<close>

definition alaw_shift :: "nat \<Rightarrow> nat" where
  "alaw_shift seg = (if seg < 2 then 4 else seg + 3)"

definition alaw_low :: "nat \<Rightarrow> int \<Rightarrow> int" where
  "alaw_low seg q = (if seg = 0 then 16 * q else (16 + q) * 2 ^ alaw_shift seg)"

definition ulaw_low :: "nat \<Rightarrow> int \<Rightarrow> int" where
  "ulaw_low seg q = (16 + q) * 2 ^ (seg + 3)"

definition code_of :: "nat \<Rightarrow> int \<Rightarrow> u8" where
  "code_of seg q = push_bit 4 (word_of_nat seg) OR word_of_int q"

lemma seg_cases:
  assumes "(seg::nat) < 8"
  obtains "seg = 0" | "seg = 1" | "seg = 2" | "seg = 3" | "seg = 4" | "seg = 5" | "seg = 6" | "seg = 7"
  using assms by linarith

lemma seg_search_eq:
  assumes "seg < 8" "v < 2 ^ (seg + 8)" "seg = 0 \<or> 2 ^ (seg + 7) \<le> v"
  shows "seg_search v seg_end = seg"
  using assms(1) by (cases rule: seg_cases) (use assms(2,3) in \<open>simp_all add: seg_end_def\<close>)

lemma quant_word: "0 \<le> q \<Longrightarrow> q < 16 \<Longrightarrow> drop_bit n v = q \<or> drop_bit n v = 16 + q \<Longrightarrow>
    (word_of_int (drop_bit n v) AND 0xF :: u8) = word_of_int q"
proof -
  assume q: "0 \<le> q" "q < 16" "drop_bit n v = q \<or> drop_bit n v = 16 + q"
  have m: "x AND 15 = x mod 16" for x :: int
    using take_bit_eq_mask [of 4 x] by (simp add: take_bit_eq_mod mask_eq_exp_minus_1)
  have "(word_of_int (drop_bit n v) AND word_of_int 15 :: u8) = word_of_int (drop_bit n v AND 15)"
    by (simp only: of_int_and_eq)
  also have "drop_bit n v AND 15 = q" unfolding m using q by auto
  finally show ?thesis by simp
qed

lemma interval_div: "(a::int) * 2 ^ n \<le> v \<Longrightarrow> v < a * 2 ^ n + 2 ^ n \<Longrightarrow> drop_bit n v = a"
  by (intro int_div_pos_eq [where r = "v - a * 2 ^ n", THEN trans [OF drop_bit_eq_div]]) (simp_all add: mult.commute)

lemma alaw_interval:
  assumes s: "seg < 8" and q: "0 \<le> q" "q < 16" and v: "alaw_low seg q \<le> v" "v < alaw_low seg q + 2 ^ alaw_shift seg"
  shows "seg_search v seg_end = seg \<and> alaw_bits seg v = code_of seg q"
proof
  show "seg_search v seg_end = seg"
    using s by (cases rule: seg_cases) (use q v in \<open>simp_all add: seg_end_def alaw_low_def alaw_shift_def\<close>)
  have d: "drop_bit (alaw_shift seg) v = (if seg = 0 then q else 16 + q)"
    using v by (intro interval_div) (auto simp: alaw_low_def alaw_shift_def split: if_splits)
  then have "(word_of_int (drop_bit (alaw_shift seg) v) AND 0xF :: u8) = word_of_int q"
    using q by (intro quant_word) auto
  then show "alaw_bits seg v = code_of seg q"
    by (auto simp: alaw_bits_def code_of_def alaw_shift_def SEG_SHIFT_def QUANT_MASK_def Let_def)
qed

lemma ulaw_interval:
  assumes s: "seg < 8" and q: "0 \<le> q" "q < 16" and v: "ulaw_low seg q \<le> v" "v < ulaw_low seg q + 2 ^ (seg + 3)"
  shows "seg_search v seg_end = seg \<and> ulaw_bits seg v = code_of seg q"
proof
  show "seg_search v seg_end = seg"
    using s by (cases rule: seg_cases) (use q v in \<open>simp_all add: seg_end_def ulaw_low_def\<close>)
  have d: "drop_bit (seg + 3) v = 16 + q"
    using v by (intro interval_div) (auto simp: ulaw_low_def)
  then have "(word_of_int (drop_bit (seg + 3) v) AND 0xF :: u8) = word_of_int q"
    using q by (intro quant_word) auto
  then show "ulaw_bits seg v = code_of seg q" by (simp add: ulaw_bits_def code_of_def)
qed

text \<open>Every magnitude lies in an interval.\<close>

lemma interval_exists:
  assumes "2 ^ (n + 4) \<le> v" "v < 2 ^ (n + 5)"
  shows "\<exists>q. 0 \<le> q \<and> q < 16 \<and> (16 + q) * 2 ^ n \<le> v \<and> v < (16 + q) * 2 ^ n + (2 ^ n :: int)"
proof (intro exI [of _ "v div 2 ^ n - 16"] conjI)
  have p: "(0::int) < 2 ^ n" by simp
  have "16 * 2 ^ n \<le> v" "v < 32 * 2 ^ n" using assms by (simp_all add: power_add mult.commute)
  have l: "v div 2 ^ n * 2 ^ n \<le> v"
    using div_mult_mod_eq [of v "2 ^ n"] pos_mod_sign [OF p, of v] by linarith
  have "16 * 2 ^ n div 2 ^ n \<le> v div 2 ^ n" using \<open>16 * 2 ^ n \<le> v\<close> p by (rule zdiv_mono1)
  then have "16 \<le> v div 2 ^ n" by simp
  moreover have "v div 2 ^ n < 32"
  proof (rule ccontr)
    assume "\<not> v div 2 ^ n < 32"
    then have "32 * 2 ^ n \<le> v div 2 ^ n * 2 ^ n" by (intro mult_right_mono) simp_all
    with l \<open>v < 32 * 2 ^ n\<close> show False by linarith
  qed
  ultimately show "0 \<le> v div 2 ^ n - 16" "v div 2 ^ n - 16 < 16" by simp_all
  have a: "16 + (v div 2 ^ n - 16) = v div 2 ^ n" by simp
  show "(16 + (v div 2 ^ n - 16)) * 2 ^ n \<le> v" "v < (16 + (v div 2 ^ n - 16)) * 2 ^ n + 2 ^ n"
    unfolding a using l div_mult_mod_eq [of v "2 ^ n"] pos_mod_bound [OF p, of v] by linarith+
qed

lemma seg_exists:
  assumes "2 ^ 7 \<le> v" "v < (2 ^ 15 :: int)"
  shows "\<exists>seg < 8. 2 ^ (seg + 7) \<le> v \<and> v < 2 ^ (seg + 8)"
proof -
  consider "v < 2 ^ 8" | "2 ^ 8 \<le> v" "v < 2 ^ 9" | "2 ^ 9 \<le> v" "v < 2 ^ 10" | "2 ^ 10 \<le> v" "v < 2 ^ 11"
    | "2 ^ 11 \<le> v" "v < 2 ^ 12" | "2 ^ 12 \<le> v" "v < 2 ^ 13" | "2 ^ 13 \<le> v" "v < 2 ^ 14" | "2 ^ 14 \<le> v" by linarith
  then show ?thesis
    by cases (use assms in \<open>force intro: exI [of _ 0] exI [of _ 1] exI [of _ 2] exI [of _ 3] exI [of _ 4] exI [of _ 5] exI [of _ 6] exI [of _ 7]\<close>)+
qed

section \<open>Decoding\<close>

lemma to_short_id: "-32768 \<le> v \<Longrightarrow> v < 32768 \<Longrightarrow> to_short v = v"
  by (simp add: to_short_def signed_of_int signed_take_bit_int_eq_self)

definition alaw_value :: "nat \<Rightarrow> int \<Rightarrow> int" where
  "alaw_value seg q = alaw_low seg q + 2 ^ (alaw_shift seg - 1)"

definition ulaw_value :: "nat \<Rightarrow> int \<Rightarrow> int" where
  "ulaw_value seg q = ulaw_low seg q + 2 ^ (seg + 2)"

lemma alaw_value_formula:
  "seg < 8 \<Longrightarrow> (if seg = 0 then 16 * q + 8 else if seg = 1 then 16 * q + 0x108 else push_bit (seg - 1) (16 * q + 0x108)) = alaw_value seg q"
  by (erule seg_cases) (simp_all add: alaw_value_def alaw_low_def alaw_shift_def push_bit_eq_mult)

lemma ulaw_value_formula: "seg < 8 \<Longrightarrow> push_bit seg (8 * q + 0x84) = ulaw_value seg q"
  by (erule seg_cases) (simp_all add: ulaw_value_def ulaw_low_def push_bit_eq_mult)

lemma value_range:
  assumes "seg < 8" "0 \<le> q" "q < 16"
  shows "8 \<le> alaw_value seg q" "alaw_value seg q \<le> 32256" "132 \<le> ulaw_value seg q" "ulaw_value seg q \<le> 32256"
  using assms(1) by (cases rule: seg_cases; use assms(2,3) in \<open>simp add: alaw_value_def alaw_low_def alaw_shift_def
    ulaw_value_def ulaw_low_def\<close>)+

lemma value_interval:
  "seg < 8 \<Longrightarrow> alaw_low seg q + 8 \<le> alaw_value seg q \<and> alaw_value seg q + 8 \<le> alaw_low seg q + 2 ^ alaw_shift seg"
  "seg < 8 \<Longrightarrow> ulaw_low seg q < ulaw_value seg q \<and> ulaw_value seg q < ulaw_low seg q + 2 ^ (seg + 3)"
  by (erule seg_cases; simp add: alaw_value_def alaw_low_def alaw_shift_def ulaw_value_def ulaw_low_def)+

text \<open>The parts of a code, and what both decoders make of them.\<close>

lemma code_decompose:
  obtains seg q where "seg < 8" "0 \<le> q" "q < 16" "unat (drop_bit 4 (a AND 0x70)) = seg" "uint (a AND 0xf) = q"
    "code_of seg q = (a :: u8) AND 0x7F"
  using all_codesD [OF code_parts, of a] by (intro that [OF _ _ _ refl refl]) (simp_all add: code_of_def)

lemma alaw_decode:
  obtains seg q where "seg < 8" "0 \<le> q" "q < 16"
    "code_of seg q XOR (if (c XOR 0x55) AND 0x80 \<noteq> 0 then 0xD5 else 0x55) = c"
    "alaw2linear c = (if (c XOR 0x55) AND 0x80 \<noteq> 0 then alaw_value seg q else - alaw_value seg q)"
    "af_alaw2linear c = alaw2linear c"
proof -
  obtain seg q where p: "seg < 8" "0 \<le> q" "q < 16" "unat (drop_bit 4 ((c XOR 0x55) AND 0x70)) = seg"
    "uint ((c XOR 0x55) AND 0xf) = q" "code_of seg q = (c XOR 0x55) AND 0x7F"
    by (rule code_decompose)
  have m: "code_of seg q XOR (if (c XOR 0x55) AND 0x80 \<noteq> 0 then 0xD5 else 0x55) = c"
    using all_codesD [OF mask_parts(1), of c] by (simp add: p(6) split: if_splits)
  have q4: "push_bit 4 q = 16 * q" by (simp add: push_bit_eq_mult)
  have d: "alaw2linear c = (if (c XOR 0x55) AND 0x80 \<noteq> 0 then alaw_value seg q else - alaw_value seg q)"
    unfolding alaw2linear_def Let_def QUANT_MASK_def SEG_MASK_def SEG_SHIFT_def SIGN_BIT_def p(4,5) q4
    alaw_value_formula [OF p(1)] by simp
  have s: "to_short (16 * q) = 16 * q" "to_short (16 * q + 8) = 16 * q + 8" "to_short (16 * q + 0x108) = 16 * q + 0x108"
    using p by (simp_all add: to_short_id)
  have e: "(if seg = 0 then to_short (16 * q + 8) else if seg = 1 then to_short (16 * q + 0x108)
      else to_short (push_bit (seg - 1) (to_short (16 * q + 0x108)))) = to_short (alaw_value seg q)"
    unfolding alaw_value_formula [OF p(1), symmetric] by (simp add: s)
  have f: "to_short (alaw_value seg q) = alaw_value seg q" "to_short (- alaw_value seg q) = - alaw_value seg q"
    using value_range [OF p(1-3)] by (simp_all add: to_short_id)
  have "af_alaw2linear c = alaw2linear c"
    unfolding af_alaw2linear_def Let_def QUANT_MASK_def SEG_MASK_def SEG_SHIFT_def SIGN_BIT_def p(4,5) q4 s(1) e d
    by (simp add: f)
  with p(1-3) m d show thesis by (rule that)
qed

lemma ulaw_decode:
  obtains seg q where "seg < 8" "0 \<le> q" "q < 16"
    "code_of seg q XOR (if NOT c AND 0x80 \<noteq> 0 then 0x7F else 0xFF) = c"
    "ulaw2linear c = (if NOT c AND 0x80 \<noteq> 0 then 132 - ulaw_value seg q else ulaw_value seg q - 132)"
    "af_ulaw2linear c = ulaw2linear c"
proof -
  obtain seg q where p: "seg < 8" "0 \<le> q" "q < 16" "unat (drop_bit 4 (NOT c AND 0x70)) = seg"
    "uint (NOT c AND 0xf) = q" "code_of seg q = NOT c AND 0x7F"
    by (rule code_decompose)
  have m: "code_of seg q XOR (if NOT c AND 0x80 \<noteq> 0 then 0x7F else 0xFF) = c"
    using all_codesD [OF mask_parts(2), of c] by (simp add: p(6) split: if_splits)
  have q3: "push_bit 3 q + 0x84 = 8 * q + 0x84" by (simp add: push_bit_eq_mult)
  have d: "ulaw2linear c = (if NOT c AND 0x80 \<noteq> 0 then 132 - ulaw_value seg q else ulaw_value seg q - 132)"
    unfolding ulaw2linear_def Let_def QUANT_MASK_def SEG_MASK_def SEG_SHIFT_def SIGN_BIT_def ULAW_BIAS_def p(4,5) q3
    ulaw_value_formula [OF p(1)] by simp
  have s: "to_short (8 * q + 0x84) = 8 * q + 0x84" using p by (simp add: to_short_id)
  have f: "to_short (ulaw_value seg q) = ulaw_value seg q" "to_short (132 - ulaw_value seg q) = 132 - ulaw_value seg q"
    "to_short (ulaw_value seg q - 132) = ulaw_value seg q - 132"
    using value_range [OF p(1-3)] by (simp_all add: to_short_id)
  have "af_ulaw2linear c = ulaw2linear c"
    unfolding af_ulaw2linear_def Let_def QUANT_MASK_def SEG_MASK_def SEG_SHIFT_def SIGN_BIT_def ULAW_BIAS_def p(4,5) q3 s
    ulaw_value_formula [OF p(1)] f d by simp
  with p(1-3) m d show thesis by (rule that)
qed

section \<open>Codes survive decoding and encoding\<close>

lemma alaw_stable: "af_linear2alaw (af_alaw2linear c) = c" "linear2alaw (alaw2linear c) = c"
proof -
  obtain seg q where p: "seg < 8" "0 \<le> q" "q < 16"
    "code_of seg q XOR (if (c XOR 0x55) AND 0x80 \<noteq> 0 then 0xD5 else 0x55) = c"
    "alaw2linear c = (if (c XOR 0x55) AND 0x80 \<noteq> 0 then alaw_value seg q else - alaw_value seg q)"
    "af_alaw2linear c = alaw2linear c" by (rule alaw_decode)
  let ?v = "alaw_value seg q"
  have r: "8 \<le> ?v" "?v \<le> 32256" using value_range [OF p(1-3)] by simp_all
  have i: "seg_search w seg_end = seg \<and> alaw_bits seg w = code_of seg q" if "w \<in> {?v, ?v - 1, ?v - 8}" for w
    using that alaw_interval [OF p(1-3), of w] value_interval(1) [OF p(1), of q] by auto
  have s: "to_short (?v - 1) = ?v - 1" using r by (simp add: to_short_id)
  show "af_linear2alaw (af_alaw2linear c) = c"
    using p(1,4) i r s unfolding p(5,6) by (simp add: af_linear2alaw_def Let_def split: if_splits)
  show "linear2alaw (alaw2linear c) = c"
    using p(1,4) i r unfolding p(5) by (simp add: linear2alaw_def Let_def split: if_splits)
qed

lemma ulaw_stable:
  assumes "c \<noteq> 0x7F" shows "af_linear2ulaw (af_ulaw2linear c) = c" "linear2ulaw (ulaw2linear c) = c"
proof -
  obtain seg q where p: "seg < 8" "0 \<le> q" "q < 16"
    "code_of seg q XOR (if NOT c AND 0x80 \<noteq> 0 then 0x7F else 0xFF) = c"
    "ulaw2linear c = (if NOT c AND 0x80 \<noteq> 0 then 132 - ulaw_value seg q else ulaw_value seg q - 132)"
    "af_ulaw2linear c = ulaw2linear c" by (rule ulaw_decode)
  let ?v = "ulaw_value seg q"
  have r: "132 \<le> ?v" "?v \<le> 32256" using value_range [OF p(1-3)] by simp_all
  have i: "seg_search ?v seg_end = seg \<and> ulaw_bits seg ?v = code_of seg q"
    using ulaw_interval [OF p(1-3), of ?v] value_interval(2) [OF p(1), of q] by simp
  have s: "to_short ?v = ?v" using r by (simp add: to_short_id)
  have n: "?v = 132 \<Longrightarrow> \<not> NOT c AND 0x80 \<noteq> 0"
  proof
    assume v: "?v = 132" and c: "NOT c AND 0x80 \<noteq> 0"
    have "seg = 0 \<and> q = 0"
      using p(1) by (cases rule: seg_cases) (use v p(2,3) in \<open>simp_all add: ulaw_value_def ulaw_low_def\<close>)
    then have "c = 0x7F" using p(4) c by (simp add: code_of_def)
    with assms show False ..
  qed
  show "af_linear2ulaw (af_ulaw2linear c) = c"
    using p(1,4) i r s n unfolding p(5,6) by (auto simp: af_linear2ulaw_def ULAW_BIAS_def Let_def split: if_splits)
  show "linear2ulaw (ulaw2linear c) = c"
    using p(1,4) i r n unfolding p(5) by (auto simp: linear2ulaw_def ULAW_BIAS_def Let_def split: if_splits)
qed

section \<open>Arrays survive\<close>

lemma convert_back:
  assumes "convert f src dst n = Inr out" "\<forall>c \<in> set (take (nat n) src). g (f c) = c" "nat n \<le> length dst'"
  shows "convert g out dst' n = Inr (take (nat n) src @ drop (nat n) dst')"
  using assms by (auto simp: convert_def map_idI split: if_splits)

lemma decoded_short: "to_short (alaw2linear c) = alaw2linear c" "to_short (ulaw2linear c) = ulaw2linear c"
proof -
  show "to_short (alaw2linear c) = alaw2linear c"
    by (rule alaw_decode [of c]) (frule (2) value_range(1), drule (2) value_range(2), simp add: to_short_id)
  show "to_short (ulaw2linear c) = ulaw2linear c"
    by (rule ulaw_decode [of c]) (frule (2) value_range(3), drule (2) value_range(4), simp add: to_short_id)
qed

end
