(* ===== verification/G711_Error.thy ===== *)
theory G711_Error
  imports G711
begin

text \<open>How far a decoded sample is from the one encoded, and where the codecs lose it.\<close>

section \<open>Quantisation error\<close>

lemma code_numbers: "list_all (\<lambda>n. code_of (n div 16) (int (n mod 16)) = word_of_nat n) [0..<128]"
  by code_simp

lemma number_fields:
  "list_all (\<lambda>n. unat (drop_bit 4 ((word_of_nat n :: u8) AND 0x70)) = n div 16
     \<and> uint ((word_of_nat n :: u8) AND 0xf) = int (n mod 16) \<and> (word_of_nat n :: u8) AND 0x80 = 0) [0..<128]"
  by code_simp

lemma code_fieldsD:
  assumes "seg < 8" "0 \<le> q" "q < 16"
  shows "unat (drop_bit 4 (code_of seg q AND 0x70)) = seg" "uint (code_of seg q AND 0xf) = q" "code_of seg q AND 0x80 = 0"
proof -
  obtain n where n: "q = int n" "n < 16" using assms(2,3) by (metis nat_int nonneg_int_cases of_nat_less_iff of_nat_numeral)
  define m where "m = 16 * seg + n"
  have m: "m \<in> set [0..<128]" "m div 16 = seg" "m mod 16 = n" using assms(1) n(2) by (simp_all add: m_def)
  have c: "code_of seg (int n) = word_of_nat m"
    using bspec [OF code_numbers [unfolded list_all_iff] m(1)] unfolding m(2,3) .
  have f: "unat (drop_bit 4 ((word_of_nat m :: u8) AND 0x70)) = seg \<and> uint ((word_of_nat m :: u8) AND 0xf) = int n \<and> (word_of_nat m :: u8) AND 0x80 = 0"
    using bspec [OF number_fields [unfolded list_all_iff] m(1)] unfolding m(2,3) .
  show "unat (drop_bit 4 (code_of seg q AND 0x70)) = seg" "uint (code_of seg q AND 0xf) = q" "code_of seg q AND 0x80 = 0"
    using f unfolding n(1) c by simp_all
qed

lemma code_eq_iff:
  assumes "seg < 8" "0 \<le> q" "q < 16" "seg' < 8" "0 \<le> q'" "q' < 16"
  shows "code_of seg' q' = code_of seg q \<longleftrightarrow> seg' = seg \<and> q' = q"
  using code_fieldsD [OF assms(1-3)] code_fieldsD [OF assms(4-6)] by metis

lemma not_xor: "NOT (x :: u8) = x XOR 0xFF"
proof -
  have "NOT x = x XOR (- 1)" by simp
  also have "(- 1 :: u8) = 0xFF" by simp
  finally show ?thesis .
qed

lemma xor_same: "(a XOR m = b XOR m) \<longleftrightarrow> a = (b :: u8)"
  by (metis xor.assoc xor_self_eq xor.right_neutral)

lemma alaw_decode_code:
  assumes p: "seg < 8" "0 \<le> q" "q < 16"
  shows "alaw2linear (code_of seg q XOR 0xD5) = alaw_value seg q" "alaw2linear (code_of seg q XOR 0x55) = - alaw_value seg q"
proof -
  note z = code_fieldsD(3) [OF p]
  have pos: "((code_of seg q XOR 0xD5) XOR 0x55) AND 0x80 \<noteq> 0" by (simp add: xor.assoc bit.conj_xor_distrib2 z)
  have neg: "((code_of seg q XOR 0x55) XOR 0x55) AND 0x80 = 0" by (simp add: xor.assoc z)
  show "alaw2linear (code_of seg q XOR 0xD5) = alaw_value seg q"
    by (rule alaw_decode [of "code_of seg q XOR 0xD5"]) (use pos p in \<open>auto simp: xor_same code_eq_iff\<close>)
  show "alaw2linear (code_of seg q XOR 0x55) = - alaw_value seg q"
    by (rule alaw_decode [of "code_of seg q XOR 0x55"]) (use neg p in \<open>auto simp: xor_same code_eq_iff\<close>)
qed

lemma ulaw_decode_code:
  assumes p: "seg < 8" "0 \<le> q" "q < 16"
  shows "ulaw2linear (code_of seg q XOR 0xFF) = ulaw_value seg q - 132" "ulaw2linear (code_of seg q XOR 0x7F) = 132 - ulaw_value seg q"
proof -
  note z = code_fieldsD(3) [OF p]
  have m: "NOT x = x XOR 0xFF" for x :: u8 using not_xor [of x] by simp
  have pos: "NOT (code_of seg q XOR 0xFF) AND 0x80 = 0" by (simp add: m xor.assoc z)
  have neg: "NOT (code_of seg q XOR 0x7F) AND 0x80 \<noteq> 0" by (simp add: m xor.assoc bit.conj_xor_distrib2 z)
  show "ulaw2linear (code_of seg q XOR 0xFF) = ulaw_value seg q - 132"
    by (rule ulaw_decode [of "code_of seg q XOR 0xFF"]) (use pos p in \<open>auto simp: xor_same code_eq_iff\<close>)
  show "ulaw2linear (code_of seg q XOR 0x7F) = 132 - ulaw_value seg q"
    by (rule ulaw_decode [of "code_of seg q XOR 0x7F"]) (use neg p in \<open>auto simp: xor_same code_eq_iff\<close>)
qed

lemma alaw_interval_exists:
  assumes "0 \<le> v" "v < 2 ^ 15"
  shows "\<exists>seg q. seg < 8 \<and> 0 \<le> q \<and> q < 16 \<and> alaw_low seg q \<le> v \<and> v < alaw_low seg q + 2 ^ alaw_shift seg
    \<and> 32 * 2 ^ (alaw_shift seg - 1) \<le> max 256 v"
proof (cases "v < 256")
  case True
  have "v div 16 * 16 \<le> v" "v < v div 16 * 16 + 16" "0 \<le> v div 16" "v div 16 < 16" using assms True by presburger+
  then show ?thesis by (intro exI [of _ 0] exI [of _ "v div 16"]) (simp add: alaw_low_def alaw_shift_def)
next
  case False
  then obtain seg where s: "seg < 8" "2 ^ (seg + 7) \<le> v" "v < 2 ^ (seg + 8)" using seg_exists [of v] assms by auto
  have s0: "seg \<noteq> 0" using s(3) False by (cases "seg = 0") simp_all
  obtain q where q: "0 \<le> q" "q < 16" "(16 + q) * 2 ^ (seg + 3) \<le> v" "v < (16 + q) * 2 ^ (seg + 3) + 2 ^ (seg + 3)"
    using interval_exists [of "seg + 3" v] s(2,3) by (auto simp: add.assoc)
  have "alaw_shift seg = seg + 3" using s0 by (simp add: alaw_shift_def)
  moreover have "32 * 2 ^ (seg + 2) = (2::int) ^ (seg + 7)" by (simp add: power_add)
  ultimately show ?thesis using s(1,2) q s0 by (intro exI [of _ seg] exI [of _ q]) (simp add: alaw_low_def)
qed

lemma alaw_error:
  assumes "-32768 \<le> x" "x < 32768" shows "32 * \<bar>af_alaw2linear (af_linear2alaw x) - x\<bar> \<le> max 256 \<bar>x\<bar>"
proof -
  define v where "v = (if x \<ge> 0 then x else - x - 1)"
  have v: "0 \<le> v" "v < 2 ^ 15" using assms by (auto simp: v_def)
  from alaw_interval_exists [OF v] obtain seg q where
    p: "seg < 8" "0 \<le> q" "q < 16" "alaw_low seg q \<le> v" "v < alaw_low seg q + 2 ^ alaw_shift seg"
    and b: "32 * 2 ^ (alaw_shift seg - 1) \<le> max 256 v" by blast
  note i = alaw_interval [OF p]
  have h: "(2::int) ^ alaw_shift seg = 2 * 2 ^ (alaw_shift seg - 1)"
    by (simp add: alaw_shift_def flip: power_Suc)
  have dec: "af_alaw2linear c = alaw2linear c" for c by (rule alaw_decode [of c]) simp
  show ?thesis
  proof (cases "x \<ge> 0")
    case True
    then have "af_linear2alaw x = code_of seg q XOR 0xD5" using i p(1) by (simp add: af_linear2alaw_def v_def Let_def)
    then have "af_alaw2linear (af_linear2alaw x) = alaw_value seg q" by (simp add: dec alaw_decode_code(1) [OF p(1-3)])
    then show ?thesis using p(4,5) b h True by (simp add: v_def alaw_value_def abs_if split: if_splits)
  next
    case False
    have "to_short (- x - 1) = v" using v False by (simp add: v_def to_short_id)
    then have "af_linear2alaw x = code_of seg q XOR 0x55" using i p(1) v False by (simp add: af_linear2alaw_def Let_def)
    then have "af_alaw2linear (af_linear2alaw x) = - alaw_value seg q" by (simp add: dec alaw_decode_code(2) [OF p(1-3)])
    then have "\<bar>af_alaw2linear (af_linear2alaw x) - x\<bar> \<le> 2 ^ (alaw_shift seg - 1)"
      using p(4,5) h False by (simp add: v_def alaw_value_def abs_if)
    then have "32 * \<bar>af_alaw2linear (af_linear2alaw x) - x\<bar> \<le> 32 * 2 ^ (alaw_shift seg - 1)" by simp
    also note b
    also have "max 256 v \<le> max 256 \<bar>x\<bar>" using False by (simp add: v_def)
    finally show ?thesis .
  qed
qed

lemma ulaw_error:
  assumes "\<bar>x\<bar> \<le> 32635"
  shows "32 * \<bar>af_ulaw2linear (af_linear2ulaw x) - x\<bar> \<le> \<bar>x\<bar> + 132" "linear2ulaw x = af_linear2ulaw x"
proof -
  define v where "v = \<bar>x\<bar> + 132"
  have v: "2 ^ 7 \<le> v" "v < 2 ^ 15" using assms by (simp_all add: v_def)
  obtain seg where s: "seg < 8" "2 ^ (seg + 7) \<le> v" "v < 2 ^ (seg + 8)" using seg_exists [OF v] by blast
  obtain q where q: "0 \<le> q" "q < 16" "(16 + q) * 2 ^ (seg + 3) \<le> v" "v < (16 + q) * 2 ^ (seg + 3) + 2 ^ (seg + 3)"
    using interval_exists [of "seg + 3" v] s(2,3) by (auto simp: add.assoc)
  have p: "ulaw_low seg q \<le> v" "v < ulaw_low seg q + 2 ^ (seg + 3)" using q by (simp_all add: ulaw_low_def)
  note i = ulaw_interval [OF s(1) q(1,2) p]
  have h: "(2::int) ^ (seg + 3) = 2 * 2 ^ (seg + 2)" "32 * 2 ^ (seg + 2) = (2::int) ^ (seg + 7)" by (simp_all add: power_add)
  have dec: "af_ulaw2linear c = ulaw2linear c" for c by (rule ulaw_decode [of c]) simp
  have t: "to_short v = v" using v by (simp add: to_short_id)
  have "(if x < 0 then ULAW_BIAS - x else x + ULAW_BIAS) = v" by (simp add: v_def ULAW_BIAS_def)
  then have e: "af_linear2ulaw x = code_of seg q XOR (if x < 0 then 0x7F else 0xFF)" "linear2ulaw x = af_linear2ulaw x"
    using i s(1) t by (auto simp: af_linear2ulaw_def linear2ulaw_def Let_def split: if_splits)
  then show "linear2ulaw x = af_linear2ulaw x" by simp
  have "af_ulaw2linear (af_linear2ulaw x) = (if x < 0 then 132 - ulaw_value seg q else ulaw_value seg q - 132)"
    using ulaw_decode_code [OF s(1) q(1,2)] by (simp add: dec e)
  then show "32 * \<bar>af_ulaw2linear (af_linear2ulaw x) - x\<bar> \<le> \<bar>x\<bar> + 132"
    using p h s(2) by (auto simp: v_def ulaw_value_def abs_if split: if_splits)
qed

text \<open>A sample louder than the code can say wraps around in the 16-bit version.\<close>

lemma ulaw_wraps:
  assumes "32636 \<le> \<bar>x\<bar>" "-32768 \<le> x" "x < 32768"
  shows "\<bar>af_ulaw2linear (af_linear2ulaw x)\<bar> \<le> 120"
proof -
  define v where "v = to_short (\<bar>x\<bar> + 132)"
  have v: "v = \<bar>x\<bar> + 132 - 65536"
  proof -
    have "(\<bar>x\<bar> + 132 + 32768) mod 65536 = \<bar>x\<bar> + 132 - 32768"
      using assms by (intro int_mod_pos_eq [where q = 1]) auto
    then show ?thesis unfolding v_def to_short_def int_word_sint by simp
  qed
  let ?q = "drop_bit 3 v AND 15"
  have m: "?q = drop_bit 3 v mod 16"
    using take_bit_eq_mask [of 4 "drop_bit 3 v"] by (simp add: take_bit_eq_mod mask_eq_exp_minus_1)
  then have q: "0 \<le> ?q" "?q < 16" by simp_all
  have "seg_search v seg_end = 0" using v assms by (simp add: seg_end_def)
  moreover have "ulaw_bits 0 v = code_of 0 ?q" by (simp add: ulaw_bits_def code_of_def of_int_and_eq)
  moreover have "(if x < 0 then to_short (ULAW_BIAS - x) else to_short (x + ULAW_BIAS)) = v" by (simp add: v_def ULAW_BIAS_def)
  ultimately have e: "af_linear2ulaw x = code_of 0 ?q XOR (if x < 0 then 0x7F else 0xFF)"
    by (auto simp: af_linear2ulaw_def Let_def split: if_splits)
  have dec: "af_ulaw2linear c = ulaw2linear c" for c by (rule ulaw_decode [of c]) simp
  have "ulaw_value 0 ?q - 132 = 8 * ?q" by (simp add: ulaw_value_def ulaw_low_def)
  then have "\<bar>ulaw_value 0 ?q - 132\<bar> \<le> 120" "\<bar>132 - ulaw_value 0 ?q\<bar> \<le> 120" using q by linarith+
  then show ?thesis using ulaw_decode_code [of 0 ?q] q by (simp add: dec e)
qed

lemma small_negative: "x \<in> {-7..-1} \<Longrightarrow> alaw2linear (linear2alaw x) = -248"
proof -
  assume "x \<in> {-7..-1}"
  then have "x \<in> set [-7, -6, -5, -4, -3, -2, -1]" by auto
  moreover have "list_all (\<lambda>x. alaw2linear (linear2alaw x) = -248) [-7, -6, -5, -4, -3, -2, -1]" by code_simp
  ultimately show ?thesis by (simp only: list_all_iff)
qed

text \<open>The \<open>int\<close> coder takes 8, not 1, off the size of a negative sample: it is 8 further off.\<close>

lemma int_alaw_error:
  assumes "-32768 \<le> x" "x \<le> -8"
  shows "32 * \<bar>alaw2linear (linear2alaw x) - x\<bar> \<le> max 256 \<bar>x\<bar> + 256"
proof -
  define v where "v = - x - 8"
  have v: "0 \<le> v" "v < 2 ^ 15" using assms by (auto simp: v_def)
  from alaw_interval_exists [OF v] obtain seg q where
    p: "seg < 8" "0 \<le> q" "q < 16" "alaw_low seg q \<le> v" "v < alaw_low seg q + 2 ^ alaw_shift seg"
    and b: "32 * 2 ^ (alaw_shift seg - 1) \<le> max 256 v" by blast
  note i = alaw_interval [OF p]
  have h: "(2::int) ^ alaw_shift seg = 2 * 2 ^ (alaw_shift seg - 1)"
    by (simp add: alaw_shift_def flip: power_Suc)
  have "linear2alaw x = code_of seg q XOR 0x55" using i p(1) assms by (simp add: linear2alaw_def v_def Let_def)
  then have "alaw2linear (linear2alaw x) = - alaw_value seg q" by (simp add: alaw_decode_code(2) [OF p(1-3)])
  then have "\<bar>alaw2linear (linear2alaw x) - x\<bar> \<le> 2 ^ (alaw_shift seg - 1) + 8"
    using p(4,5) h by (simp add: v_def alaw_value_def abs_if)
  then have "32 * \<bar>alaw2linear (linear2alaw x) - x\<bar> \<le> 32 * 2 ^ (alaw_shift seg - 1) + 256" by simp
  also note b
  also have "max 256 v \<le> max 256 \<bar>x\<bar>" using assms by (simp add: v_def)
  finally show ?thesis by simp
qed

end
