(* ===== verification/Md5.thy ===== *)
theory Md5
  imports Prelude
begin

text \<open>
  The message digest of \<open>common/md5/common_md5.c\<close>: the compression function, the update of a
  context by any number of bytes, the final padding, and the digest of a file read in pieces. The
  loops \<open>MD5_memcpy\<close> and \<open>MD5_memset\<close> are list operations. Against it stands the definition of
  the digest: pad the whole message, cut it into blocks of 64 bytes, compress them in order.
\<close>

section \<open>The compression function\<close>

definition S11 :: nat where "S11 = 7"
definition S12 :: nat where "S12 = 12"
definition S13 :: nat where "S13 = 17"
definition S14 :: nat where "S14 = 22"
definition S21 :: nat where "S21 = 5"
definition S22 :: nat where "S22 = 9"
definition S23 :: nat where "S23 = 14"
definition S24 :: nat where "S24 = 20"
definition S31 :: nat where "S31 = 4"
definition S32 :: nat where "S32 = 11"
definition S33 :: nat where "S33 = 16"
definition S34 :: nat where "S34 = 23"
definition S41 :: nat where "S41 = 6"
definition S42 :: nat where "S42 = 10"
definition S43 :: nat where "S43 = 15"
definition S44 :: nat where "S44 = 21"

definition md5_F :: "u32 \<Rightarrow> u32 \<Rightarrow> u32 \<Rightarrow> u32" where "md5_F x y z = ((x AND y) OR (NOT x AND z))"
definition md5_G :: "u32 \<Rightarrow> u32 \<Rightarrow> u32 \<Rightarrow> u32" where "md5_G x y z = ((x AND z) OR (y AND NOT z))"
definition md5_H :: "u32 \<Rightarrow> u32 \<Rightarrow> u32 \<Rightarrow> u32" where "md5_H x y z = (x XOR y XOR z)"
definition md5_I :: "u32 \<Rightarrow> u32 \<Rightarrow> u32 \<Rightarrow> u32" where "md5_I x y z = (y XOR (x OR NOT z))"

definition ROTATE_LEFT :: "u32 \<Rightarrow> nat \<Rightarrow> u32" where
  "ROTATE_LEFT x n = (push_bit n x OR drop_bit (32 - n) x)"

type_synonym md5_regs = "u32 \<times> u32 \<times> u32 \<times> u32"

text \<open>
  One of the macros \<open>FF\<close>, \<open>GG\<close>, \<open>HH\<close>, \<open>II\<close>. The code passes the four registers
  rotated by one place from one line to the next; here the registers rotate instead.
\<close>

definition md5_step :: "(u32 \<Rightarrow> u32 \<Rightarrow> u32 \<Rightarrow> u32) \<Rightarrow> u32 list \<Rightarrow> nat \<times> nat \<times> u32 \<Rightarrow> md5_regs \<Rightarrow> md5_regs" where
  "md5_step f x t r =
    (let (k, s, ac) = t; (a, b, c, d) = r;
         a = a + (f b c d + x ! k + ac);
         a = ROTATE_LEFT a s;
         a = a + b
     in (d, a, b, c))"

text \<open>The lines of the four rounds: index into the block, shift, constant.\<close>

definition md5_round1 :: "(nat \<times> nat \<times> u32) list" where
  "md5_round1 =
    [(0, S11, 0xd76aa478), (1, S12, 0xe8c7b756), (2, S13, 0x242070db), (3, S14, 0xc1bdceee),
     (4, S11, 0xf57c0faf), (5, S12, 0x4787c62a), (6, S13, 0xa8304613), (7, S14, 0xfd469501),
     (8, S11, 0x698098d8), (9, S12, 0x8b44f7af), (10, S13, 0xffff5bb1), (11, S14, 0x895cd7be),
     (12, S11, 0x6b901122), (13, S12, 0xfd987193), (14, S13, 0xa679438e), (15, S14, 0x49b40821)]"

definition md5_round2 :: "(nat \<times> nat \<times> u32) list" where
  "md5_round2 =
    [(1, S21, 0xf61e2562), (6, S22, 0xc040b340), (11, S23, 0x265e5a51), (0, S24, 0xe9b6c7aa),
     (5, S21, 0xd62f105d), (10, S22, 0x2441453), (15, S23, 0xd8a1e681), (4, S24, 0xe7d3fbc8),
     (9, S21, 0x21e1cde6), (14, S22, 0xc33707d6), (3, S23, 0xf4d50d87), (8, S24, 0x455a14ed),
     (13, S21, 0xa9e3e905), (2, S22, 0xfcefa3f8), (7, S23, 0x676f02d9), (12, S24, 0x8d2a4c8a)]"

definition md5_round3 :: "(nat \<times> nat \<times> u32) list" where
  "md5_round3 =
    [(5, S31, 0xfffa3942), (8, S32, 0x8771f681), (11, S33, 0x6d9d6122), (14, S34, 0xfde5380c),
     (1, S31, 0xa4beea44), (4, S32, 0x4bdecfa9), (7, S33, 0xf6bb4b60), (10, S34, 0xbebfbc70),
     (13, S31, 0x289b7ec6), (0, S32, 0xeaa127fa), (3, S33, 0xd4ef3085), (6, S34, 0x4881d05),
     (9, S31, 0xd9d4d039), (12, S32, 0xe6db99e5), (15, S33, 0x1fa27cf8), (2, S34, 0xc4ac5665)]"

definition md5_round4 :: "(nat \<times> nat \<times> u32) list" where
  "md5_round4 =
    [(0, S41, 0xf4292244), (7, S42, 0x432aff97), (14, S43, 0xab9423a7), (5, S44, 0xfc93a039),
     (12, S41, 0x655b59c3), (3, S42, 0x8f0ccc92), (10, S43, 0xffeff47d), (1, S44, 0x85845dd1),
     (8, S41, 0x6fa87e4f), (15, S42, 0xfe2ce6e0), (6, S43, 0xa3014314), (13, S44, 0x4e0811a1),
     (4, S41, 0xf7537e82), (11, S42, 0xbd3af235), (2, S43, 0x2ad7d2bb), (9, S44, 0xeb86d391)]"


section \<open>Bytes and words\<close>

fun Encode :: "u32 list \<Rightarrow> nat \<Rightarrow> bytes" where
  "Encode (w # ws) (Suc n) = [byte_of w 0, byte_of w 1, byte_of w 2, byte_of w 3] @ Encode ws n"
| "Encode ws n = []"

fun Decode :: "bytes \<Rightarrow> u32 list" where
  "Decode (a # b # c # d # p) = u32_le a b c d # Decode p"
| "Decode p = []"

definition MD5Transform :: "md5_regs \<Rightarrow> bytes \<Rightarrow> md5_regs" where
  "MD5Transform st block =
    (let x = Decode block;
         r = fold (md5_step md5_F x) md5_round1 st;
         r = fold (md5_step md5_G x) md5_round2 r;
         r = fold (md5_step md5_H x) md5_round3 r;
         r = fold (md5_step md5_I x) md5_round4 r;
         (a, b, c, d) = r; (s0, s1, s2, s3) = st
     in (s0 + a, s1 + b, s2 + c, s3 + d))"

section \<open>The context\<close>

record md5_context =
  md5_state :: md5_regs
  count_lo :: u32
  count_hi :: u32
  md5_buffer :: bytes

definition MD5Init :: "md5_context \<Rightarrow> md5_context" where
  "MD5Init ctx = ctx\<lparr>count_lo := 0, count_hi := 0,
     md5_state := (0x67452301, 0xefcdab89, 0x98badcfe, 0x10325476)\<rparr>"

text \<open>
  The loop over whole blocks: \<open>p\<close> is the input from index \<open>i\<close> on, \<open>n\<close> the length of the
  whole input. Reading a block where fewer than 64 bytes are left is a fault.
\<close>

function update_blocks :: "md5_regs \<Rightarrow> bytes \<Rightarrow> u32 \<Rightarrow> u32 \<Rightarrow> (md5_regs \<times> bytes) result" where
  "update_blocks st p i n =
    (if i + 63 < n
     then if length p < 64 then Inl BufferOverrun
          else update_blocks (MD5Transform st (take 64 p)) (drop 64 p) (i + 64) n
     else Inr (st, p))"
  by pat_completeness auto
termination by (relation "measure (\<lambda>(st, p, i, n). length p)") auto

declare update_blocks.simps [simp del]

text \<open>\<open>memcpy\<close> into the buffer of the context at an index.\<close>

definition buffer_put :: "bytes \<Rightarrow> nat \<Rightarrow> bytes \<Rightarrow> bytes result" where
  "buffer_put buf i p =
    (if length buf < i + length p then Inl BufferOverrun
     else Inr (take i buf @ p @ drop (i + length p) buf))"

definition md5_index :: "md5_context \<Rightarrow> u32" where
  "md5_index ctx = drop_bit 3 (count_lo ctx) AND 0x3F"

text \<open>The number of bits so far, in two words with a carry, after \<open>n\<close> more bytes.\<close>

definition md5_count :: "md5_context \<Rightarrow> u32 \<Rightarrow> md5_context" where
  "md5_count ctx n =
    (let ctx = ctx\<lparr>count_lo := count_lo ctx + push_bit 3 n\<rparr>;
         ctx = (if count_lo ctx < push_bit 3 n then ctx\<lparr>count_hi := count_hi ctx + 1\<rparr> else ctx)
     in ctx\<lparr>count_hi := count_hi ctx + drop_bit 29 n\<rparr>)"

definition MD5Update :: "md5_context \<Rightarrow> bytes \<Rightarrow> md5_context result" where
  "MD5Update ctx inp =
    (let inputLen = (word_of_nat (length inp) :: u32);
         i = md5_index ctx;
         ctx = md5_count ctx inputLen;
         partLen = 64 - i
     in if inputLen \<ge> partLen
        then case buffer_put (md5_buffer ctx) (unat i) (take (unat partLen) inp) of Inl e \<Rightarrow> Inl e
         | Inr buf \<Rightarrow>
            (case update_blocks (MD5Transform (md5_state ctx) buf) (drop (unat partLen) inp) partLen inputLen of
               Inl e \<Rightarrow> Inl e
             | Inr (st, rest) \<Rightarrow>
                (case buffer_put buf 0 rest of Inl e \<Rightarrow> Inl e
                 | Inr buf \<Rightarrow> Inr (ctx\<lparr>md5_state := st, md5_buffer := buf\<rparr>)))
        else case buffer_put (md5_buffer ctx) (unat i) inp of Inl e \<Rightarrow> Inl e
         | Inr buf \<Rightarrow> Inr (ctx\<lparr>md5_buffer := buf\<rparr>))"

definition MD5_PADDING :: bytes where
  "MD5_PADDING = 0x80 # replicate 63 0"

definition md5_zero :: md5_context where
  "md5_zero = \<lparr>md5_state = (0, 0, 0, 0), count_lo = 0, count_hi = 0, md5_buffer = replicate 64 0\<rparr>"

definition MD5Final :: "md5_context \<Rightarrow> (bytes \<times> md5_context) result" where
  "MD5Final ctx =
    (let bits = Encode [count_lo ctx, count_hi ctx] 2;
         i = md5_index ctx;
         padLen = (if i < 56 then 56 - i else 120 - i)
     in if length MD5_PADDING < unat padLen then Inl BufferOverrun
        else case MD5Update ctx (take (unat padLen) MD5_PADDING) of Inl e \<Rightarrow> Inl e
         | Inr ctx \<Rightarrow>
            (case MD5Update ctx bits of Inl e \<Rightarrow> Inl e
             | Inr ctx \<Rightarrow>
                (let (a, b, c, d) = md5_state ctx in Inr (Encode [a, b, c, d] 4, md5_zero))))"

section \<open>The digest of a file\<close>

definition hex_digit :: "nat \<Rightarrow> char" where
  "hex_digit d = ''0123456789abcdef'' ! d"

text \<open>\<open>sprintf\<close> with \<open>%02hhx\<close>.\<close>

definition hex_byte :: "u8 \<Rightarrow> string" where
  "hex_byte b = [hex_digit (unat (drop_bit 4 b)), hex_digit (unat (b AND 0xF))]"

fun update_reads :: "md5_context \<Rightarrow> bytes list \<Rightarrow> md5_context result" where
  "update_reads ctx [] = Inr ctx"
| "update_reads ctx (d # ds) =
    (if d = [] then Inr ctx
     else case MD5Update ctx d of Inl e \<Rightarrow> Inl e | Inr ctx \<Rightarrow> update_reads ctx ds)"

text \<open>
  The file is \<open>None\<close> when it cannot be opened, otherwise what the calls of \<open>fread\<close> return, up
  to 1024 bytes each; the context starts with arbitrary content. The second component of the result
  is the text written to \<open>m_md5\<close>, without its terminator.
\<close>

definition COMM_API_calculate_md5 :: "md5_context \<Rightarrow> bytes list option \<Rightarrow> int \<Rightarrow> (int \<times> string option) result" where
  "COMM_API_calculate_md5 ctx reads md5Len =
    (case reads of None \<Rightarrow> Inr (-1, None)
     | Some ds \<Rightarrow>
        (case update_reads (MD5Init ctx) ds of Inl e \<Rightarrow> Inl e
         | Inr ctx \<Rightarrow>
            (case MD5Final ctx of Inl e \<Rightarrow> Inl e
             | Inr (digest, _) \<Rightarrow>
                if md5Len < 33 then Inr (-1, None)
                else Inr (0, Some (concat (map hex_byte digest))))))"

section \<open>The definition of the digest\<close>

fun md5_blocks :: "md5_regs \<Rightarrow> bytes \<Rightarrow> md5_regs" where
  "md5_blocks st m = (if length m < 64 then st else md5_blocks (MD5Transform st (take 64 m)) (drop 64 m))"

declare md5_blocks.simps [simp del]

definition md5_start :: md5_regs where
  "md5_start = (0x67452301, 0xefcdab89, 0x98badcfe, 0x10325476)"

definition md5_padding :: "nat \<Rightarrow> bytes" where
  "md5_padding n = 0x80 # replicate (if n mod 64 < 56 then 55 - n mod 64 else 119 - n mod 64) 0
     @ map (byte_of (word_of_nat (8 * n) :: u64)) [0..<8]"

definition md5_digest :: "bytes \<Rightarrow> bytes" where
  "md5_digest m = (let (a, b, c, d) = md5_blocks md5_start (m @ md5_padding (length m)) in Encode [a, b, c, d] 4)"

section \<open>Blocks of a message\<close>

definition md5_rest :: "bytes \<Rightarrow> bytes" where
  "md5_rest m = drop (64 * (length m div 64)) m"

lemma length_md5_rest [simp]: "length (md5_rest m) = length m mod 64"
  by (simp add: md5_rest_def minus_mult_div_eq_mod)

lemma md5_blocks_short: "length m < 64 \<Longrightarrow> md5_blocks st m = st"
  by (simp add: md5_blocks.simps [of st m])

lemma md5_rest_short: "length m < 64 \<Longrightarrow> md5_rest m = m"
  by (simp add: md5_rest_def)

lemma md5_blocks_step: "64 \<le> length m \<Longrightarrow> md5_blocks st m = md5_blocks (MD5Transform st (take 64 m)) (drop 64 m)"
  by (simp add: md5_blocks.simps [of st m])

lemma md5_rest_step:
  assumes "64 \<le> length m" shows "md5_rest m = md5_rest (drop 64 m)"
proof -
  have "length m div 64 = Suc ((length m - 64) div 64)" using assms by (simp add: le_div_geq)
  then show ?thesis by (simp add: md5_rest_def add.commute)
qed

lemma md5_blocks_append: "length a mod 64 = 0 \<Longrightarrow> md5_blocks st (a @ p) = md5_blocks (md5_blocks st a) p"
proof (induction "length a" arbitrary: a st rule: less_induct)
  case less
  show ?case
  proof (cases "length a < 64")
    case True
    then have "a = []" using less.prems by simp
    then show ?thesis by (simp add: md5_blocks_short)
  next
    case False
    then have "length (drop 64 a) mod 64 = 0" using less.prems by (simp add: le_mod_geq)
    then have "md5_blocks s (drop 64 a @ p) = md5_blocks (md5_blocks s (drop 64 a)) p" for s
      using less.hyps [of "drop 64 a"] False by simp
    then show ?thesis using False by (simp add: md5_blocks_step)
  qed
qed

lemma md5_rest_append: "length a mod 64 = 0 \<Longrightarrow> md5_rest (a @ p) = md5_rest p"
proof -
  assume "length a mod 64 = 0"
  then obtain q where q: "length a = 64 * q" by auto
  then show ?thesis by (simp add: md5_rest_def)
qed

lemma md5_split:
  "md5_blocks st (m @ p) = md5_blocks (md5_blocks st m) (md5_rest m @ p)" "md5_rest (m @ p) = md5_rest (md5_rest m @ p)"
proof -
  let ?a = "take (64 * (length m div 64)) m"
  have l: "length ?a mod 64 = 0" by simp
  have m: "m = ?a @ md5_rest m" by (simp add: md5_rest_def)
  have "md5_blocks st m = md5_blocks (md5_blocks st ?a) (md5_rest m)" using md5_blocks_append [OF l] m by metis
  then have b: "md5_blocks st m = md5_blocks st ?a" by (simp add: md5_blocks_short)
  show "md5_blocks st (m @ p) = md5_blocks (md5_blocks st m) (md5_rest m @ p)"
    unfolding b using md5_blocks_append [OF l, of st "md5_rest m @ p"] m by (metis append_assoc)
  show "md5_rest (m @ p) = md5_rest (md5_rest m @ p)"
    using md5_rest_append [OF l, of "md5_rest m @ p"] m by (metis append_assoc)
qed

lemma update_blocks_eq:
  "unat i + length p = unat n \<Longrightarrow> unat n + 64 \<le> 2 ^ 32 \<Longrightarrow> update_blocks st p i n = Inr (md5_blocks st p, md5_rest p)"
proof (induction st p i n rule: update_blocks.induct)
  case (1 st p i n)
  have u: "unat (i + 63) = unat i + 63" "64 \<le> length p \<Longrightarrow> unat (i + 64) = unat i + 64"
    using "1.prems" by (simp_all add: unat_add_u32)
  show ?case
  proof (cases "length p < 64")
    case True
    then have "\<not> i + 63 < n" using "1.prems"(1) by (simp add: word_less_nat_alt u(1))
    then show ?thesis using True by (simp add: update_blocks.simps [of st p i n] md5_blocks_short md5_rest_short)
  next
    case False
    then have c: "i + 63 < n" using "1.prems"(1) by (simp add: word_less_nat_alt u(1))
    have "update_blocks (MD5Transform st (take 64 p)) (drop 64 p) (i + 64) n =
        Inr (md5_blocks (MD5Transform st (take 64 p)) (drop 64 p), md5_rest (drop 64 p))"
      using "1.IH" [OF c False] False "1.prems" u(2) by simp
    then show ?thesis using c False
      by (simp add: update_blocks.simps [of st p i n] md5_blocks_step md5_rest_step)
  qed
qed

section \<open>What a context stands for\<close>

text \<open>A context that has taken in \<open>m\<close>.\<close>

definition absorbed :: "bytes \<Rightarrow> md5_context \<Rightarrow> bool" where
  "absorbed m ctx \<longleftrightarrow> md5_state ctx = md5_blocks md5_start m \<and> length (md5_buffer ctx) = 64
     \<and> take (length m mod 64) (md5_buffer ctx) = md5_rest m
     \<and> count_lo ctx = word_of_nat (8 * length m) \<and> count_hi ctx = word_of_nat (8 * length m div 2 ^ 32)"

lemma absorbed_init: "length (md5_buffer ctx) = 64 \<Longrightarrow> absorbed [] (MD5Init ctx)"
  by (simp add: absorbed_def MD5Init_def md5_start_def md5_blocks_short md5_rest_def)

lemma unat_index:
  assumes "count_lo ctx = word_of_nat (8 * l)" shows "unat (md5_index ctx) = l mod 64"
proof -
  have lt: "unat (count_lo ctx) < 2 ^ 32" by (rule order_less_le_trans [OF unsigned_less]) simp
  have "md5_index ctx = take_bit 6 (drop_bit 3 (count_lo ctx))"
    by (simp add: md5_index_def take_bit_eq_mask mask_eq_exp_minus_1)
  then have "unat (md5_index ctx) = take_bit 6 (drop_bit 3 (unat (count_lo ctx)))"
    using take_bit_nat_eq_self [OF lt] by (simp add: unsigned_take_bit_eq unsigned_drop_bit_eq)
  also have "\<dots> = (8 * l mod 2 ^ 32) div 8 mod 64"
    unfolding assms unat_of_nat take_bit_eq_mod drop_bit_eq_div by simp
  also have "8 * l mod 2 ^ 32 = 8 * (l mod 2 ^ 29)" using mult_mod_right [of 8 l "2 ^ 29"] by simp
  also have "8 * (l mod 2 ^ 29) div 8 mod 64 = l mod 64" by (simp add: mod_mod_cancel)
  finally show ?thesis .
qed

lemma wrap_sum:
  fixes a b N :: nat
  assumes "a < N" "b < N"
  shows "(a + b) mod N < b \<longleftrightarrow> N \<le> a + b" "(a + b) div N = (if N \<le> a + b then 1 else 0)"
  using assms by (cases "a + b < N"; simp add: le_mod_geq le_div_geq)+

lemma count_add:
  assumes lo: "lo = (word_of_nat (8 * a) :: u32)" and hi: "hi = (word_of_nat (8 * a div 2 ^ 32) :: u32)" and b: "b < 2 ^ 32"
  defines "x \<equiv> push_bit 3 (word_of_nat b :: u32)"
  shows "lo + x = word_of_nat (8 * (a + b))"
    and "(if lo + x < x then hi + 1 else hi) + drop_bit 29 (word_of_nat b) = word_of_nat (8 * (a + b) div 2 ^ 32)"
proof -
  have x: "x = word_of_nat (8 * b)" by (simp add: x_def push_bit_eq_mult)
  show s: "lo + x = word_of_nat (8 * (a + b))" by (simp add: lo x distrib_left)
  have ux: "unat x = 8 * b mod 2 ^ 32" unfolding x unat_of_nat by simp
  have us: "unat (lo + x) = (8 * a mod 2 ^ 32 + 8 * b mod 2 ^ 32) mod 2 ^ 32"
    unfolding s unat_of_nat by (simp add: mod_add_eq distrib_left)
  let ?A = "8 * a mod 2 ^ 32" and ?B = "8 * b mod 2 ^ 32"
  note W = wrap_sum [of ?A "2 ^ 32" ?B]
  have c: "lo + x < x \<longleftrightarrow> 2 ^ 32 \<le> ?A + ?B" unfolding word_less_nat_alt us ux using W(1) by simp
  have d: "drop_bit 29 (word_of_nat b :: u32) = word_of_nat (8 * b div 2 ^ 32)"
  proof -
    have "unat (drop_bit 29 (word_of_nat b :: u32)) = 8 * b div 2 ^ 32"
      using b by (subst unat_drop_bit_eq) (simp add: drop_bit_eq_div unat_of_nat)
    moreover have "word_of_nat (unat w) = w" for w :: u32 by (simp add: of_nat_unat)
    ultimately show ?thesis by metis
  qed
  have q: "(?A + ?B) div 2 ^ 32 = (if 2 ^ 32 \<le> ?A + ?B then 1 else 0)" using W(2) by simp
  have e: "8 * (a + b) div 2 ^ 32 = 8 * a div 2 ^ 32 + 8 * b div 2 ^ 32 + (if 2 ^ 32 \<le> ?A + ?B then 1 else 0)"
    unfolding distrib_left q [symmetric] by (rule div_add1_eq)
  show "(if lo + x < x then hi + 1 else hi) + drop_bit 29 (word_of_nat b) = word_of_nat (8 * (a + b) div 2 ^ 32)"
    unfolding c d hi e of_nat_add by (cases "2 ^ 32 \<le> ?A + ?B") (simp_all del: of_nat_mult)
qed

lemma buffer_put_ok: "i + length p \<le> length buf \<Longrightarrow> buffer_put buf i p = Inr (take i buf @ p @ drop (i + length p) buf)"
  by (simp add: buffer_put_def)

lemma update_absorbs:
  assumes A: "absorbed m ctx" and l: "length inp + 64 \<le> 2 ^ 32"
  shows "\<exists>ctx'. MD5Update ctx inp = Inr ctx' \<and> absorbed (m @ inp) ctx'"
proof -
  let ?r = "length m mod 64" and ?n = "word_of_nat (length inp) :: u32"
  have st: "md5_state ctx = md5_blocks md5_start m" and bl: "length (md5_buffer ctx) = 64"
    and bt: "take ?r (md5_buffer ctx) = md5_rest m"
    and lo: "count_lo ctx = word_of_nat (8 * length m)" and hi: "count_hi ctx = word_of_nat (8 * length m div 2 ^ 32)"
    using A by (simp_all add: absorbed_def)
  have ui: "unat (md5_index ctx) = ?r" using unat_index [OF lo] .
  have un: "unat ?n = length inp" using l by (simp add: unat_of_nat)
  have up: "unat (64 - md5_index ctx) = 64 - ?r" using ui by (simp add: unat_sub_u32 less_imp_le)
  note C = count_add [OF lo hi, of "length inp"]
  have lt: "length inp < 2 ^ 32" using l by simp
  define c where "c = ctx\<lparr>count_lo := word_of_nat (8 * length (m @ inp)), count_hi := word_of_nat (8 * length (m @ inp) div 2 ^ 32)\<rparr>"
  have c: "md5_count ctx ?n = c"
    using C(2) [OF lt] unfolding md5_count_def Let_def by (auto simp: c_def C(1) [OF lt] split: if_splits)
  have cf: "md5_state c = md5_state ctx" "md5_buffer c = md5_buffer ctx" by (simp_all add: c_def)
  have U: "MD5Update ctx inp =
      (if ?n \<ge> 64 - md5_index ctx
        then case buffer_put (md5_buffer ctx) ?r (take (64 - ?r) inp) of Inl e \<Rightarrow> Inl e
         | Inr buf \<Rightarrow>
            (case update_blocks (MD5Transform (md5_state ctx) buf) (drop (64 - ?r) inp) (64 - md5_index ctx) ?n of
               Inl e \<Rightarrow> Inl e
             | Inr (st, rest) \<Rightarrow>
                (case buffer_put buf 0 rest of Inl e \<Rightarrow> Inl e
                 | Inr buf \<Rightarrow> Inr (c\<lparr>md5_state := st, md5_buffer := buf\<rparr>)))
        else case buffer_put (md5_buffer ctx) ?r inp of Inl e \<Rightarrow> Inl e
         | Inr buf \<Rightarrow> Inr (c\<lparr>md5_buffer := buf\<rparr>))"
    unfolding MD5Update_def Let_def c ui up cf by (rule refl)
  show ?thesis
  proof (cases "64 - ?r \<le> length inp")
    case True
    let ?p = "drop (64 - ?r) inp"
    define b where "b = md5_rest m @ take (64 - ?r) inp"
    have r: "?r < 64" by simp
    have lb: "length b = 64" using True r by (simp add: b_def)
    have b1: "buffer_put (md5_buffer ctx) ?r (take (64 - ?r) inp) = Inr b"
      using True bl bt r by (simp add: b_def buffer_put_def min_def)
    have p: "unat (64 - md5_index ctx) + length ?p = unat ?n" using True by (simp add: up un)
    define buf where "buf = md5_rest ?p @ drop (length ?p mod 64) b"
    have lbuf: "length buf = 64" using lb by (simp add: buf_def less_imp_le)
    have b2: "buffer_put b 0 (md5_rest ?p) = Inr buf" using lb by (simp add: buffer_put_def buf_def less_imp_le)
    have ge: "64 - md5_index ctx \<le> ?n" using True by (simp add: word_le_nat_alt up un)
    have MI: "md5_rest m @ inp = b @ ?p" by (simp add: b_def)
    have B: "md5_blocks md5_start (m @ inp) = md5_blocks (MD5Transform (md5_state ctx) b) ?p"
      unfolding md5_split(1) [of md5_start m inp] MI st using lb by (subst md5_blocks_step) simp_all
    have R: "md5_rest (m @ inp) = md5_rest ?p"
      unfolding md5_split(2) [of m inp] MI using lb by (subst md5_rest_append) simp_all
    have len: "length (m @ inp) mod 64 = length ?p mod 64"
      using arg_cong [OF R, of length] unfolding length_md5_rest .
    have t: "take (length (m @ inp) mod 64) buf = md5_rest (m @ inp)" unfolding len R by (simp add: buf_def)
    have "MD5Update ctx inp = Inr (c\<lparr>md5_state := md5_blocks md5_start (m @ inp), md5_buffer := buf\<rparr>)"
      unfolding U using ge b1 b2 update_blocks_eq [OF p] l by (simp add: un B)
    moreover have "absorbed (m @ inp) (c\<lparr>md5_state := md5_blocks md5_start (m @ inp), md5_buffer := buf\<rparr>)"
      using lbuf t by (simp add: absorbed_def c_def)
    ultimately show ?thesis by blast
  next
    case False
    have r: "?r + length inp < 64" using False by simp
    have b1: "buffer_put (md5_buffer ctx) ?r inp = Inr (md5_rest m @ inp @ drop (?r + length inp) (md5_buffer ctx))"
      using r bl bt by (simp add: buffer_put_def)
    have ge: "\<not> 64 - md5_index ctx \<le> ?n" using False by (simp add: word_le_nat_alt up un)
    have s: "length (md5_rest m @ inp) < 64" using r by simp
    have B: "md5_blocks md5_start (m @ inp) = md5_blocks md5_start m"
      unfolding md5_split(1) [of md5_start m inp] using md5_blocks_short [OF s] .
    have R: "md5_rest (m @ inp) = md5_rest m @ inp"
      unfolding md5_split(2) [of m inp] using md5_rest_short [OF s] .
    have len: "length (m @ inp) mod 64 = ?r + length inp"
      using arg_cong [OF R, of length] unfolding length_append length_md5_rest .
    have "MD5Update ctx inp = Inr (c\<lparr>md5_buffer := md5_rest m @ inp @ drop (?r + length inp) (md5_buffer ctx)\<rparr>)"
      unfolding U using ge b1 by simp
    then show ?thesis using r bl st len R by (auto simp: absorbed_def c_def B)
  qed
qed

section \<open>The final padding\<close>

lemma Encode_eq: "n \<le> length ws \<Longrightarrow> Encode ws n = concat (map (\<lambda>w. map (byte_of w) [0..<4]) (take n ws))"
  by (induction ws n rule: Encode.induct) (simp_all add: upt_rec numeral_2_eq_2 numeral_3_eq_3)

lemma byte_of_word_of_nat:
  assumes "8 * i + 8 \<le> LENGTH('a)"
  shows "byte_of (word_of_nat n :: 'a::len word) i = word_of_nat (n div 2 ^ (8 * i))"
  using assms
  by (intro bit_word_eqI) (auto simp: byte_of_def bit_simps simp flip: drop_bit_eq_div)

lemma length_bits:
  "Encode [word_of_nat n, word_of_nat (n div 2 ^ 32)] 2 = map (byte_of (word_of_nat n :: u64)) [0..<8]"
proof -
  have u: "[0..<4] = [0, 1, 2, 3]" "[0..<8] = [0, 1, 2, 3, 4, 5, 6, 7::nat]" by (simp_all add: upt_rec)
  have b: "byte_of (word_of_nat n :: u32) i = byte_of (word_of_nat n :: u64) i"
    "byte_of (word_of_nat (n div 2 ^ 32) :: u32) i = byte_of (word_of_nat n :: u64) (i + 4)" if "i < 4" for i
    using that by (simp_all add: byte_of_word_of_nat power_add mult.commute flip: div_mult2_eq)
  show ?thesis
    unfolding Encode_eq [of 2 "[_, _]", simplified] u
    using b(1) [of 0] b(1) [of 1] b(1) [of 2] b(1) [of 3] b(2) [of 0] b(2) [of 1] b(2) [of 2] b(2) [of 3] by simp
qed

lemma padding_eq:
  "md5_padding n = take (if n mod 64 < 56 then 56 - n mod 64 else 120 - n mod 64) MD5_PADDING
    @ map (byte_of (word_of_nat (8 * n) :: u64)) [0..<8]"
proof -
  have "n mod 64 < 64" by simp
  then show ?thesis by (auto simp: md5_padding_def MD5_PADDING_def take_Cons' min_def)
qed

lemma length_padded: "length (m @ md5_padding (length m)) mod 64 = 0"
proof -
  have "length (md5_padding n) = (if n mod 64 < 56 then 64 - n mod 64 else 128 - n mod 64)" for n
    using mod_less_divisor [of 64 n] by (simp add: md5_padding_def)
  moreover have "(n + (if n mod 64 < 56 then 64 - n mod 64 else 128 - n mod 64)) mod 64 = 0" for n :: nat
    by presburger
  ultimately show ?thesis by simp
qed

lemma final_digest:
  assumes "absorbed m ctx" shows "MD5Final ctx = Inr (md5_digest m, md5_zero)"
proof -
  let ?r = "length m mod 64"
  let ?n = "if ?r < 56 then 56 - ?r else 120 - ?r"
  have r: "?r < 64" by simp
  have lo: "count_lo ctx = word_of_nat (8 * length m)" "count_hi ctx = word_of_nat (8 * length m div 2 ^ 32)"
    using assms by (simp_all add: absorbed_def)
  have ui: "unat (md5_index ctx) = ?r" using unat_index [OF lo(1)] .
  have up: "unat (if md5_index ctx < 56 then 56 - md5_index ctx else 120 - md5_index ctx) = ?n"
    using ui r by (auto simp: word_less_nat_alt unat_sub_u32)
  have n: "?n \<le> 64" using r by auto
  have pl: "length MD5_PADDING = 64" by (simp add: MD5_PADDING_def)
  have "length (take ?n MD5_PADDING) \<le> 64" unfolding length_take pl by (rule min.cobounded1)
  then have l1: "length (take ?n MD5_PADDING) + 64 \<le> 2 ^ 32" by (rule order_trans [OF add_right_mono]) simp
  obtain c1 where c1: "MD5Update ctx (take ?n MD5_PADDING) = Inr c1" "absorbed (m @ take ?n MD5_PADDING) c1"
    using update_absorbs [OF assms l1] by blast
  obtain c2 where c2: "MD5Update c1 (map (byte_of (word_of_nat (8 * length m) :: u64)) [0..<8]) = Inr c2"
    "absorbed (m @ md5_padding (length m)) c2"
    using update_absorbs [OF c1(2), of "map (byte_of (word_of_nat (8 * length m) :: u64)) [0..<8]"]
    by (auto simp: padding_eq)
  have "md5_state c2 = md5_blocks md5_start (m @ md5_padding (length m))" using c2(2) by (simp add: absorbed_def)
  then show ?thesis
    using c1(1) c2(1) n
    unfolding MD5Final_def Let_def up lo length_bits md5_digest_def by (simp add: pl split: prod.split)
qed

section \<open>Reading a file in pieces\<close>

lemma reads_absorb:
  "absorbed m ctx \<Longrightarrow> \<forall>d \<in> set ds. d \<noteq> [] \<and> length d \<le> 1024 \<Longrightarrow>
    \<exists>ctx'. update_reads ctx ds = Inr ctx' \<and> absorbed (m @ concat ds) ctx'"
proof (induction ds arbitrary: m ctx)
  case (Cons d ds)
  then obtain c where "MD5Update ctx d = Inr c" "absorbed (m @ d) c" using update_absorbs [of m ctx d] by auto
  with Cons.IH [of "m @ d" c] Cons.prems(2) show ?case by simp
qed simp

lemma calculate_md5_eq:
  assumes "length (md5_buffer ctx) = 64" "\<forall>d \<in> set ds. d \<noteq> [] \<and> length d \<le> 1024"
  shows "COMM_API_calculate_md5 ctx (Some ds) n =
    Inr (if n < 33 then (-1, None) else (0, Some (concat (map hex_byte (md5_digest (concat ds))))))"
proof -
  obtain c where "update_reads (MD5Init ctx) ds = Inr c" "absorbed (concat ds) c"
    using reads_absorb [OF absorbed_init [OF assms(1)] assms(2)] by auto
  then show ?thesis by (simp add: COMM_API_calculate_md5_def final_digest)
qed

end
