(* ===== verification/Media_Properties.thy ===== *)
theory Media_Properties
  imports G711_Error Md5
begin

text \<open>Properties of the audio codecs and of the digest of a file.\<close>

text \<open>C26 (roundtrip): decoding G.711 codes into samples and encoding these samples again gives
  the same codes, element by element, with the rest of the target array unchanged; in both
  A-law codecs for every code, in both mu-law codecs for every code but \<open>0x7F\<close>, the negative
  zero. The conversions never fault on arrays that hold \<open>n\<close> elements.\<close>

theorem g711_codes_survive:
  assumes "nat n \<le> length code" "nat n \<le> length pcm" "nat n \<le> length code'"
    and "lawflag = 0 \<or> 0x7F \<notin> set (take (nat n) code)"
  shows "(\<exists>out. G711Decoder pcm code n lawflag = Inr out
      \<and> G711Encoder out code' n lawflag = Inr (take (nat n) code @ drop (nat n) code'))
    \<and> (\<exists>out. (if lawflag = 0 then g711a_decode else g711u_decode) pcm code n = Inr (2 * int (nat n), out)
      \<and> (if lawflag = 0 then g711a_encode else g711u_encode) code' out n
        = Inr (n, take (nat n) code @ drop (nat n) code'))"
proof (cases "lawflag = 0")
  case True
  obtain o1 o2 where o: "convert af_alaw2linear code pcm n = Inr o1" "convert alaw2linear code pcm n = Inr o2"
    using assms(1,2) by (simp add: convert_def)
  show ?thesis
    using convert_back [OF o(1) _ assms(3), of af_linear2alaw] convert_back [OF o(2) _ assms(3), of linear2alaw] True
    by (simp add: G711Decoder_def G711Encoder_def g711a_decode_def g711a_encode_def o alaw_stable decoded_short)
next
  case False
  then have c: "c \<noteq> 0x7F" if "c \<in> set (take (nat n) code)" for c using assms(4) that by auto
  obtain o1 o2 where o: "convert af_ulaw2linear code pcm n = Inr o1" "convert ulaw2linear code pcm n = Inr o2"
    using assms(1,2) by (simp add: convert_def)
  show ?thesis
    using convert_back [OF o(1) _ assms(3), of af_linear2ulaw] convert_back [OF o(2) _ assms(3), of linear2ulaw] False c
    by (simp add: G711Decoder_def G711Encoder_def g711u_decode_def g711u_encode_def o ulaw_stable decoded_short)
qed

theorem g711_codes_survive_witness:
  "(\<exists>out. G711Decoder [0, 0] [0xD5, 0x2A] 2 0 = Inr out \<and> G711Encoder out [0, 0, 7] 2 0 = Inr [0xD5, 0x2A, 7])
    \<and> (\<exists>out. g711a_decode [0, 0] [0xD5, 0x2A] 2 = Inr (4, out) \<and> g711a_encode [0, 0, 7] out 2 = Inr (2, [0xD5, 0x2A, 7]))"
  using g711_codes_survive [of 2 "[0xD5, 0x2A]" "[0, 0]" "[0, 0, 7]" 0] by simp

text \<open>C27 (bounds): encoding a 16-bit sample \<open>x\<close> as A-law and decoding it changes it by at most 8 or
  \<open>|x| / 32\<close>, whichever is more; in mu-law by at most \<open>(|x| + 132) / 32\<close> while \<open>|x| \<le> 32635\<close>, and a
  louder sample wraps around and comes back between -120 and 120. The \<open>int\<close> codec has the same mu-law
  codes up to 32635 and the same A-law codes for samples that are not negative; from -8 down its A-law
  samples are at most 8 further off, and it turns the samples from -7 to -1 into -248.\<close>

theorem g711_error_bounded:
  assumes "-32768 \<le> x" "x < 32768"
  shows "32 * \<bar>af_alaw2linear (af_linear2alaw x) - x\<bar> \<le> max 256 \<bar>x\<bar>
    \<and> (if \<bar>x\<bar> \<le> 32635
       then 32 * \<bar>af_ulaw2linear (af_linear2ulaw x) - x\<bar> \<le> \<bar>x\<bar> + 132 \<and> linear2ulaw x = af_linear2ulaw x
       else \<bar>af_ulaw2linear (af_linear2ulaw x)\<bar> \<le> 120)
    \<and> (0 \<le> x \<longrightarrow> linear2alaw x = af_linear2alaw x)
    \<and> (x \<le> -8 \<longrightarrow> 32 * \<bar>alaw2linear (linear2alaw x) - x\<bar> \<le> max 256 \<bar>x\<bar> + 256)
    \<and> (x \<in> {-7..-1} \<longrightarrow> alaw2linear (linear2alaw x) = -248)"
  using alaw_error [OF assms] ulaw_error [of x] ulaw_wraps [of x] small_negative [of x] int_alaw_error [of x] assms
  by (auto simp: linear2alaw_def af_linear2alaw_def)

theorem g711_error_bounded_witness:
  "32 * \<bar>af_alaw2linear (af_linear2alaw 32700) - 32700\<bar> \<le> 32700 \<and> \<bar>af_ulaw2linear (af_linear2ulaw 32700)\<bar> \<le> 120
    \<and> 32 * \<bar>alaw2linear (linear2alaw (-1000)) + 1000\<bar> \<le> 1256"
  using g711_error_bounded [of 32700] g711_error_bounded [of "-1000"] by simp

text \<open>C25 (equivalence): the digest that \<open>COMM_API_calculate_md5\<close> writes for a file that can be
  opened is the hexadecimal form of the MD5 digest of the contents, whatever the sizes of the
  reads that deliver it; with less than 33 bytes for the text it fails and writes nothing.\<close>

theorem file_digest_is_md5:
  assumes "length (md5_buffer ctx) = 64" "\<forall>d \<in> set reads. d \<noteq> [] \<and> length d \<le> 1024"
  shows "COMM_API_calculate_md5 ctx (Some reads) n =
    Inr (if n < 33 then (-1, None) else (0, Some (concat (map hex_byte (md5_digest (concat reads))))))"
  using assms by (rule calculate_md5_eq)

theorem file_digest_is_md5_witness:
  "COMM_API_calculate_md5 md5_zero (Some [map of_char ''a'', map of_char ''bc'']) 33
    = Inr (0, Some (concat (map hex_byte (md5_digest (map of_char ''abc'')))))
  \<and> COMM_API_calculate_md5 md5_zero (Some [map of_char ''abc'']) 33 = Inr (0, Some ''900150983cd24fb0d6963f7d28e17f72'')"
proof
  show "COMM_API_calculate_md5 md5_zero (Some [map of_char ''a'', map of_char ''bc'']) 33
    = Inr (0, Some (concat (map hex_byte (md5_digest (map of_char ''abc'')))))"
    using file_digest_is_md5 [of md5_zero "[map of_char ''a'', map of_char ''bc'']" 33] by (simp add: md5_zero_def)
  show "COMM_API_calculate_md5 md5_zero (Some [map of_char ''abc'']) 33 = Inr (0, Some ''900150983cd24fb0d6963f7d28e17f72'')"
    by code_simp
qed

end
