(* ===== verification/Crb_State.thy ===== *)
theory Crb_State
  imports Prelude
begin

text \<open>
  The ring buffer in shared memory of \<open>common/ringbuffer/CRingBuf.cpp\<close>: its header, the object
  through which a process uses it, and the small operations on both. One producer writes frames,
  up to ten consumers read them; the data area is mapped twice in a row, so a frame may run over the
  end. Offsets, lengths and indices are natural numbers: offsets stay below the size of the buffer
  and that is an \<open>int\<close>, so no 32-bit sum of them wraps around. The accounting counters, which
  can wrap, are words.
\<close>

section \<open>Constants and arithmetic\<close>

datatype FRAME_E = CRB_FRAME_I_SLICE | CRB_FRAME_P_SLICE | CRB_FRAME_AUDIO | CRB_FRAME_JPEG | CRB_FRAME_LOG
  | CRB_FRAME_DISCOVERY | CRB_FRAME_SEEK | CRB_FRAME_END | CRB_FRAME_ANY

datatype CRB_WRITE_MODE_E = CRB_WRITE_MODE_BLOCK | CRB_WRITE_MODE_NON_BLOCK

text \<open>Error codes, and what the functions that return an address return: null, an error code
  cast to an address, or an offset into the data area. The code takes an address for valid when it
  is not null and below the error codes, which are 32-bit constants: the area is mapped below them.\<close>

datatype crb_error = CRB_ERROR_SPACE | CRB_ERROR_PERM | CRB_ERROR_PARAM | CRB_ERROR_NO_IDX | CRB_ERROR_EXIST

datatype crb_ptr = PNull | PError crb_error | PAt nat

fun CRB_VALID_ADDRESS :: "crb_ptr \<Rightarrow> bool" where
  "CRB_VALID_ADDRESS (PAt _) = True"
| "CRB_VALID_ADDRESS _ = False"

definition MAX_CONSUMER_NUM :: nat where "MAX_CONSUMER_NUM = 10"
definition MAX_FRAME_NUM :: nat where "MAX_FRAME_NUM = 1024 - 128"
definition CRB_DEFAULT_ALIGNMENT :: nat where "CRB_DEFAULT_ALIGNMENT = 512"
definition MMAP_MIN_PAGE_SIZE :: nat where "MMAP_MIN_PAGE_SIZE = 4096"
definition BLACKHOLE_MAX_LIFE_SEC :: int where "BLACKHOLE_MAX_LIFE_SEC = 20"

definition USER_FREE :: nat where "USER_FREE = 0"
definition USER_HOLDING_FRAME :: nat where "USER_HOLDING_FRAME = 1"
definition USER_BLOCKED :: nat where "USER_BLOCKED = 2"

definition BUFFER_LEN :: "nat \<Rightarrow> nat \<Rightarrow> nat \<Rightarrow> nat" where
  "BUFFER_LEN m_bufSize start end = (m_bufSize + end - start) mod m_bufSize"

definition ADVANCE_OFFSET :: "nat \<Rightarrow> nat \<Rightarrow> nat \<Rightarrow> nat" where
  "ADVANCE_OFFSET m_bufSize offset n = (offset + n) mod m_bufSize"

definition ADVANCE_OFFSET2 :: "nat \<Rightarrow> nat \<Rightarrow> nat \<Rightarrow> nat \<Rightarrow> nat" where
  "ADVANCE_OFFSET2 m_bufSize offset n m = (offset + n + m) mod m_bufSize"

definition ADVANCE_INDEX :: "nat \<Rightarrow> nat \<Rightarrow> nat" where
  "ADVANCE_INDEX idx step = (idx + step) mod MAX_FRAME_NUM"

definition STEPBACK_INDEX :: "nat \<Rightarrow> nat \<Rightarrow> nat" where
  "STEPBACK_INDEX idx step = (idx + MAX_FRAME_NUM - step) mod MAX_FRAME_NUM"

text \<open>The macro clears the low bits of \<open>x + (a - 1)\<close>; \<open>a\<close> is a power of two.\<close>

definition ALIGN :: "nat \<Rightarrow> nat \<Rightarrow> nat" where
  "ALIGN x a = (x + (a - 1)) div a * a"

section \<open>The header\<close>

record crb_acct =
  installCount :: u16
  discardCount :: u16
  requestCount :: u32
  commitCount :: u32
  commitWithoutRequestCount :: u32
  requestWithoutCommitCount :: u32
  blockingCount :: u32
  bytesCount :: u64

record RingBufUser =
  u_name :: string
  u_offset :: nat
  u_index :: nat
  u_personality :: nat
  refIdxStart :: nat
  refIdxEnd :: nat
  u_state :: nat
  movedByProductor :: bool
  waitIFrame :: bool
  requestUptime :: int
  readTimeOut :: u32
  acct :: crb_acct

record FrameIndex =
  f_offset :: nat
  f_length :: nat
  f_type :: FRAME_E
  f_continuous :: bool
  f_requestTime :: int
  f_timeStamp :: int

record BlackHole =
  startOffset :: nat
  endOffset :: nat
  createTime :: int
  blockerName :: string

text \<open>\<open>holes\<close> is the used part of the array, the first \<open>holeNum\<close> entries; the producer's
  array has one entry.\<close>

record RingBufInfo =
  version :: nat
  rb_name :: string
  alignFrameType :: FRAME_E
  holeCreatedNum :: u32
  jumpOverHole :: bool
  dataWriten :: bool
  liveStream :: bool
  videoBuffer :: bool
  bufSize :: nat
  contiBytesWriten :: nat
  leftedBytes :: int
  alignBytes :: nat
  consumers :: "RingBufUser list"
  productor :: RingBufUser
  frameIdx :: "FrameIndex list"
  holes :: "BlackHole list"

text \<open>The object of a process; \<open>is_productor\<close> says which array \<open>m_pUserInfo\<close> points to.\<close>

record CRingBuf =
  is_productor :: bool
  m_bufSize :: nat
  m_userIdx :: nat
  m_lastWriteBytes :: nat
  m_lastWriteFrameType :: FRAME_E
  m_lastAlignmentBytes :: nat
  m_lastReadBytes :: nat

definition acct_zero :: crb_acct where
  "acct_zero = \<lparr>installCount = 0, discardCount = 0, requestCount = 0, commitCount = 0,
     commitWithoutRequestCount = 0, requestWithoutCommitCount = 0, blockingCount = 0, bytesCount = 0\<rparr>"

definition user_zero :: RingBufUser where
  "user_zero = \<lparr>u_name = '''', u_offset = 0, u_index = 0, u_personality = 0, refIdxStart = 0, refIdxEnd = 0,
     u_state = USER_FREE, movedByProductor = False, waitIFrame = False, requestUptime = 0, readTimeOut = 0,
     acct = acct_zero\<rparr>"

definition frame_zero :: FrameIndex where
  "frame_zero = \<lparr>f_offset = 0, f_length = 0, f_type = CRB_FRAME_I_SLICE, f_continuous = False,
     f_requestTime = 0, f_timeStamp = 0\<rparr>"

text \<open>A new file is all zeros.\<close>

definition info_zero :: RingBufInfo where
  "info_zero = \<lparr>version = 0, rb_name = '''', alignFrameType = CRB_FRAME_I_SLICE, holeCreatedNum = 0,
     jumpOverHole = False, dataWriten = False, liveStream = False, videoBuffer = False, bufSize = 0,
     contiBytesWriten = 0, leftedBytes = 0, alignBytes = 0, consumers = replicate MAX_CONSUMER_NUM user_zero,
     productor = user_zero, frameIdx = replicate MAX_FRAME_NUM frame_zero, holes = []\<rparr>"

definition VALID_CONSUMER :: "RingBufInfo \<Rightarrow> nat \<Rightarrow> bool" where
  "VALID_CONSUMER g i \<longleftrightarrow> i < MAX_CONSUMER_NUM \<and> u_name (consumers g ! i) \<noteq> ''''"

definition PRODUCTOR_EXIST :: "RingBufInfo \<Rightarrow> bool" where
  "PRODUCTOR_EXIST g \<longleftrightarrow> u_name (productor g) \<noteq> ''''"

abbreviation PRODUCTOR_OFFSET :: "RingBufInfo \<Rightarrow> nat" where
  "PRODUCTOR_OFFSET g \<equiv> u_offset (productor g)"

abbreviation PRODUCTOR_INDEX :: "RingBufInfo \<Rightarrow> nat" where
  "PRODUCTOR_INDEX g \<equiv> u_index (productor g)"

section \<open>Updates of a consumer\<close>

definition upd_consumer :: "nat \<Rightarrow> (RingBufUser \<Rightarrow> RingBufUser) \<Rightarrow> RingBufInfo \<Rightarrow> RingBufInfo" where
  "upd_consumer i f g = g\<lparr>consumers := (consumers g)[i := f (consumers g ! i)]\<rparr>"

definition upd_acct :: "(crb_acct \<Rightarrow> crb_acct) \<Rightarrow> RingBufUser \<Rightarrow> RingBufUser" where
  "upd_acct f u = u\<lparr>acct := f (acct u)\<rparr>"

definition IsConsumerMoved :: "RingBufInfo \<Rightarrow> nat \<Rightarrow> bool" where
  "IsConsumerMoved g i = movedByProductor (consumers g ! i)"

definition ClearConsumerMoved :: "nat \<Rightarrow> RingBufInfo \<Rightarrow> RingBufInfo" where
  "ClearConsumerMoved i = upd_consumer i (\<lambda>u. u\<lparr>movedByProductor := False\<rparr>)"

definition SetConsumerMoved :: "nat \<Rightarrow> RingBufInfo \<Rightarrow> RingBufInfo" where
  "SetConsumerMoved i = upd_consumer i (\<lambda>u. upd_acct (\<lambda>a. a\<lparr>blockingCount := blockingCount a + 1\<rparr>)
     (u\<lparr>movedByProductor := True\<rparr>))"

definition ClearConsumerTimeOut :: "nat \<Rightarrow> RingBufInfo \<Rightarrow> RingBufInfo" where
  "ClearConsumerTimeOut i g = (if VALID_CONSUMER g i then upd_consumer i (\<lambda>u. u\<lparr>readTimeOut := 0\<rparr>) g else g)"

definition UpdateConsumerTimeOut :: "nat \<Rightarrow> RingBufInfo \<Rightarrow> u32 \<times> RingBufInfo" where
  "UpdateConsumerTimeOut i g =
    (if VALID_CONSUMER g i
     then let n = readTimeOut (consumers g ! i) + 1 in (n, upd_consumer i (\<lambda>u. u\<lparr>readTimeOut := n\<rparr>) g)
     else (0, g))"

definition GetConsumerState :: "RingBufInfo \<Rightarrow> nat \<Rightarrow> nat" where
  "GetConsumerState g i = u_state (consumers g ! i)"

definition SetConsumerState :: "nat \<Rightarrow> nat \<Rightarrow> RingBufInfo \<Rightarrow> RingBufInfo" where
  "SetConsumerState i s = upd_consumer i (\<lambda>u. u\<lparr>u_state := s\<rparr>)"

definition SetConsumerRefIdx :: "nat \<Rightarrow> nat \<Rightarrow> nat \<Rightarrow> RingBufInfo \<Rightarrow> RingBufInfo" where
  "SetConsumerRefIdx i a b = upd_consumer i (\<lambda>u. u\<lparr>refIdxStart := a, refIdxEnd := b\<rparr>)"

definition MoveConsumer :: "nat \<Rightarrow> nat \<Rightarrow> nat \<Rightarrow> bool \<Rightarrow> RingBufInfo \<Rightarrow> RingBufInfo" where
  "MoveConsumer i newIndex newOffset wait g =
    upd_consumer i (\<lambda>u. u\<lparr>waitIFrame := wait\<rparr>)
      (SetConsumerRefIdx i newIndex newIndex
        (upd_consumer i (\<lambda>u. u\<lparr>u_index := newIndex, u_offset := newOffset\<rparr>) g))"

lemmas consumer_upds = upd_consumer_def ClearConsumerMoved_def SetConsumerMoved_def ClearConsumerTimeOut_def
  SetConsumerState_def SetConsumerRefIdx_def MoveConsumer_def upd_acct_def

end
