(* ===== verification/Crb_Index.thy ===== *)
theory Crb_Index
  imports Crb_State
begin

text \<open>The table of frames: the searches of \<open>CRingBuf.cpp\<close> over it, and adding an entry.\<close>

section \<open>Searches\<close>

text \<open>The search runs between two indices of the table; outside the table, where the code has
  failed an assertion before, it is not started.\<close>

function find_forward :: "(nat \<Rightarrow> bool) \<Rightarrow> nat \<Rightarrow> nat \<Rightarrow> nat option" where
  "find_forward P end idx =
    (if MAX_FRAME_NUM \<le> end \<or> MAX_FRAME_NUM \<le> idx \<or> idx = end then None
     else if P idx then Some idx else find_forward P end (ADVANCE_INDEX idx 1))"
  by pat_completeness auto
termination
  by (relation "measure (\<lambda>(P, end, idx). (end + MAX_FRAME_NUM - idx) mod MAX_FRAME_NUM)")
    (auto simp: ADVANCE_INDEX_def MAX_FRAME_NUM_def mod_if split: if_splits)

text \<open>The search backwards also answers where it stopped.\<close>

function find_backward :: "(nat \<Rightarrow> bool) \<Rightarrow> nat \<Rightarrow> nat \<Rightarrow> nat option" where
  "find_backward P end idx =
    (if MAX_FRAME_NUM \<le> end \<or> MAX_FRAME_NUM \<le> idx \<or> idx = end then None
     else if P idx then Some idx else find_backward P end (STEPBACK_INDEX idx 1))"
  by pat_completeness auto
termination
  by (relation "measure (\<lambda>(P, end, idx). (idx + MAX_FRAME_NUM - end) mod MAX_FRAME_NUM)")
    (auto simp: STEPBACK_INDEX_def MAX_FRAME_NUM_def mod_if split: if_splits)

declare find_forward.simps [simp del] find_backward.simps [simp del]

text \<open>\<open>continuous\<close> is \<open>None\<close> for \<open>FRAME_CONTINUOUS_DONT_CARE\<close>; otherwise the code only
  accepts \<open>FRAME_NON_CONTINUOUS\<close>, that is \<open>Some False\<close>.\<close>

definition IndexFindNextFrame :: "RingBufInfo \<Rightarrow> nat \<Rightarrow> nat \<Rightarrow> FRAME_E \<Rightarrow> bool option \<Rightarrow> nat option result" where
  "IndexFindNextFrame g writeIndex readIndex type continuous =
    (if readIndex \<ge> MAX_FRAME_NUM \<or> writeIndex \<ge> MAX_FRAME_NUM then Inl AssertFailed
     else if readIndex = writeIndex then Inr None
     else case continuous of
       None \<Rightarrow> Inr (find_forward (\<lambda>i. type = CRB_FRAME_ANY \<or> f_type (frameIdx g ! i) = type) writeIndex readIndex)
     | Some c \<Rightarrow>
        if type \<noteq> CRB_FRAME_ANY \<or> c then Inl AssertFailed
        else Inr (find_forward (\<lambda>i. f_continuous (frameIdx g ! i) = c
               \<or> f_type (frameIdx g ! i) = alignFrameType g) writeIndex readIndex))"

definition IndexFindLatestFrame :: "RingBufInfo \<Rightarrow> nat \<Rightarrow> nat \<Rightarrow> FRAME_E \<Rightarrow> nat option result" where
  "IndexFindLatestFrame g writeIndex readIndex type =
    (if readIndex \<ge> MAX_FRAME_NUM \<or> writeIndex \<ge> MAX_FRAME_NUM then Inl AssertFailed
     else if \<not> dataWriten g then Inr None
     else if readIndex = writeIndex then Inr None
     else Inr (find_backward (\<lambda>i. type = CRB_FRAME_ANY \<or> f_type (frameIdx g ! i) = type) readIndex
            (STEPBACK_INDEX writeIndex 1)))"

text \<open>
  The search for a time: the loop returns the first entry of the type that is not later and
  remembers the last one of the type it saw, 0 at first; the comparison of that one with 0 is true
  of every unsigned number.
\<close>

function time_loop :: "RingBufInfo \<Rightarrow> FRAME_E \<Rightarrow> int \<Rightarrow> nat \<Rightarrow> nat \<Rightarrow> nat \<Rightarrow> nat + nat" where
  "time_loop g type timeStamp end closest idx =
    (if MAX_FRAME_NUM \<le> end \<or> MAX_FRAME_NUM \<le> idx \<or> idx = end then Inr closest
     else let match = (type = CRB_FRAME_ANY \<or> f_type (frameIdx g ! idx) = type);
              t = f_timeStamp (frameIdx g ! idx)
          in if match \<and> t \<noteq> 0 \<and> t \<le> timeStamp then Inl idx
             else time_loop g type timeStamp end (if match then idx else closest) (STEPBACK_INDEX idx 1))"
  by pat_completeness auto
termination
  by (relation "measure (\<lambda>(g, type, timeStamp, end, closest, idx). (idx + MAX_FRAME_NUM - end) mod MAX_FRAME_NUM)")
    (auto simp: STEPBACK_INDEX_def MAX_FRAME_NUM_def mod_if split: if_splits)

declare time_loop.simps [simp del]

definition IndexFindSpecifiedTimeFrameInstance :: "RingBufInfo \<Rightarrow> nat \<Rightarrow> nat \<Rightarrow> FRAME_E \<Rightarrow> int \<Rightarrow> nat option result" where
  "IndexFindSpecifiedTimeFrameInstance g writeIndex readIndex type timeStamp =
    (if readIndex \<ge> MAX_FRAME_NUM \<or> writeIndex \<ge> MAX_FRAME_NUM then Inl AssertFailed
     else if \<not> dataWriten g then Inr None
     else if readIndex = writeIndex then Inr None
     else case time_loop g type timeStamp readIndex 0 (STEPBACK_INDEX writeIndex 1) of
       Inl idx \<Rightarrow> Inr (Some idx)
     | Inr closest \<Rightarrow>
        (let idx = readIndex; match = (type = CRB_FRAME_ANY \<or> f_type (frameIdx g ! idx) = type);
             t = f_timeStamp (frameIdx g ! idx)
         in if idx = 0 \<and> match
            then if t \<noteq> 0 \<and> t \<le> timeStamp then Inr (Some idx) else Inr (Some idx)
            else Inr (Some closest)))"

text \<open>The oldest entry whose data is still there: going back, the distance to the producer grows.\<close>

function oldest_loop :: "RingBufInfo \<Rightarrow> nat \<Rightarrow> nat \<Rightarrow> nat \<Rightarrow> nat" where
  "oldest_loop g bs lastBufLen from =
    (let bufLen = BUFFER_LEN bs (f_offset (frameIdx g ! from)) (PRODUCTOR_OFFSET g)
     in if bufLen \<le> lastBufLen \<or> MAX_FRAME_NUM \<le> from \<or> MAX_FRAME_NUM \<le> PRODUCTOR_INDEX g then from
        else let from' = STEPBACK_INDEX from 1
             in if from' \<noteq> PRODUCTOR_INDEX g then oldest_loop g bs bufLen from' else from')"
  by pat_completeness auto
termination
  by (relation "measure (\<lambda>(g, bs, lastBufLen, from). (from + MAX_FRAME_NUM - 1 - PRODUCTOR_INDEX g) mod MAX_FRAME_NUM)")
    (auto simp: STEPBACK_INDEX_def MAX_FRAME_NUM_def mod_if split: if_splits)

declare oldest_loop.simps [simp del]

definition FindOldesValidIndex :: "RingBufInfo \<Rightarrow> nat \<Rightarrow> nat" where
  "FindOldesValidIndex g bs =
    (if \<not> dataWriten g then PRODUCTOR_INDEX g
     else ADVANCE_INDEX (oldest_loop g bs 0 (STEPBACK_INDEX (PRODUCTOR_INDEX g) 1)) 1)"

definition IndexFindLatestIFrame :: "RingBufInfo \<Rightarrow> nat \<Rightarrow> nat option result" where
  "IndexFindLatestIFrame g bs =
    IndexFindLatestFrame g (PRODUCTOR_INDEX g) (FindOldesValidIndex g bs) CRB_FRAME_I_SLICE"

definition IndexFindBlocker :: "RingBufInfo \<Rightarrow> nat list" where
  "IndexFindBlocker g =
    [i \<leftarrow> [0..<MAX_CONSUMER_NUM]. VALID_CONSUMER g i
       \<and> ADVANCE_INDEX (PRODUCTOR_INDEX g) 1 = u_index (consumers g ! i)]"

definition IndexAdd :: "CRingBuf \<Rightarrow> nat \<Rightarrow> nat \<Rightarrow> FRAME_E \<Rightarrow> bool \<Rightarrow> int \<Rightarrow> int \<Rightarrow> RingBufInfo \<Rightarrow> RingBufInfo result" where
  "IndexAdd h off len type continuous requestTime frameTime g =
    (if \<not> is_productor h then Inl AssertFailed
     else Inr (g\<lparr>frameIdx := (frameIdx g)[PRODUCTOR_INDEX g :=
             \<lparr>f_offset = off, f_length = len, f_type = type, f_continuous = continuous,
              f_requestTime = requestTime, f_timeStamp = frameTime\<rparr>],
           productor := (productor g)\<lparr>u_index := ADVANCE_INDEX (PRODUCTOR_INDEX g) 1\<rparr>\<rparr>))"

section \<open>Sizes\<close>

definition GetReadableSize :: "nat \<Rightarrow> nat \<Rightarrow> nat \<Rightarrow> nat" where
  "GetReadableSize bs readOffset writeOffset = (if readOffset = writeOffset then 0 else BUFFER_LEN bs readOffset writeOffset)"

definition GetWritableSize :: "nat \<Rightarrow> nat \<Rightarrow> nat \<Rightarrow> nat" where
  "GetWritableSize bs readOffset writeOffset = (if readOffset = writeOffset then bs else BUFFER_LEN bs writeOffset readOffset)"

text \<open>The consumers that are installed, and what each lets the producer write.\<close>

definition valid_consumers :: "RingBufInfo \<Rightarrow> nat list" where
  "valid_consumers g = [i \<leftarrow> [0..<MAX_CONSUMER_NUM]. VALID_CONSUMER g i]"

definition writable_of :: "RingBufInfo \<Rightarrow> nat \<Rightarrow> nat \<Rightarrow> nat" where
  "writable_of g bs i = GetWritableSize bs (u_offset (consumers g ! i)) (PRODUCTOR_OFFSET g)"

definition min_writable :: "RingBufInfo \<Rightarrow> nat \<Rightarrow> nat" where
  "min_writable g bs = foldl (\<lambda>m i. if m > writable_of g bs i then writable_of g bs i else m) bs (valid_consumers g)"

definition ReadableSize :: "RingBufInfo \<Rightarrow> CRingBuf \<Rightarrow> nat" where
  "ReadableSize g h = GetReadableSize (m_bufSize h) (u_offset (consumers g ! m_userIdx h)) (PRODUCTOR_OFFSET g)"

definition WritableSize :: "RingBufInfo \<Rightarrow> CRingBuf \<Rightarrow> nat" where
  "WritableSize g h = (if m_userIdx h \<noteq> 0 \<or> \<not> is_productor h then 0 else min_writable g (m_bufSize h) - 1)"

end
