(* ===== verification/Crb_Hole.thy ===== *)
theory Crb_Hole
  imports Crb_State
begin

text \<open>
  Black holes: regions that a consumer still holds after the producer has moved it on, and that
  the producer jumps over. They are kept sorted by their start.
\<close>

section \<open>Deleting and inserting\<close>

text \<open>The assertions on the index hold in both loops that delete.\<close>

definition DeleteBlackHoleByIdx :: "nat \<Rightarrow> RingBufInfo \<Rightarrow> RingBufInfo" where
  "DeleteBlackHoleByIdx i g = g\<lparr>holes := take i (holes g) @ drop (Suc i) (holes g)\<rparr>"

fun delete_loop :: "(BlackHole \<Rightarrow> bool) \<Rightarrow> nat \<Rightarrow> RingBufInfo \<Rightarrow> RingBufInfo" where
  "delete_loop P 0 g = g"
| "delete_loop P (Suc i) g = delete_loop P i (if P (holes g ! i) then DeleteBlackHoleByIdx i g else g)"

definition DeleteBlackHoleOwnedBy :: "string \<Rightarrow> RingBufInfo \<Rightarrow> RingBufInfo" where
  "DeleteBlackHoleOwnedBy name g = delete_loop (\<lambda>h. blockerName h = name) (length (holes g)) g"

text \<open>\<open>up\<close> is what \<open>uptime\<close> returns.\<close>

definition DeleteAgedBlackHole :: "int \<Rightarrow> RingBufInfo \<Rightarrow> RingBufInfo" where
  "DeleteAgedBlackHole up g =
    delete_loop (\<lambda>h. createTime h \<noteq> 0 \<and> up - createTime h > BLACKHOLE_MAX_LIFE_SEC) (length (holes g)) g"

text \<open>Where a hole goes: before the first greater one; \<open>None\<close> when its owner has one before.\<close>

fun insert_pos :: "string \<Rightarrow> nat \<Rightarrow> nat \<Rightarrow> BlackHole list \<Rightarrow> nat option" where
  "insert_pos name s e [] = Some 0"
| "insert_pos name s e (h # hs) =
    (if createTime h = 0 \<or> startOffset h > s \<or> startOffset h = s \<and> endOffset h > e then Some 0
     else if blockerName h = name then None
     else map_option Suc (insert_pos name s e hs))"

definition InsertBlackHole :: "int \<Rightarrow> string \<Rightarrow> nat \<Rightarrow> nat \<Rightarrow> RingBufInfo \<Rightarrow> (crb_error option \<times> RingBufInfo) result" where
  "InsertBlackHole up name s e g =
    (if length (holes g) \<ge> MAX_CONSUMER_NUM then Inl AssertFailed
     else case insert_pos name s e (holes g) of
       None \<Rightarrow> Inr (Some CRB_ERROR_EXIST, g)
     | Some i \<Rightarrow>
        Inr (None, g\<lparr>holes := take i (holes g) @ [\<lparr>startOffset = s, endOffset = e, createTime = up, blockerName = name\<rparr>]
               @ drop i (holes g), holeCreatedNum := holeCreatedNum g + 1\<rparr>))"

section \<open>Jumping over them\<close>

text \<open>
  The holes in the order in which the producer meets them, overlapping ones merged. The names of
  merged holes are joined for the log only and left out here. \<open>chk\<close> is true in the first of the
  two passes, which asserts the order; the list built so far is reversed.
\<close>

fun merge_loop :: "nat \<Rightarrow> bool \<Rightarrow> BlackHole list \<Rightarrow> BlackHole list \<Rightarrow> BlackHole list result" where
  "merge_loop bs chk acc [] = Inr acc"
| "merge_loop bs chk [] (h # hs) = merge_loop bs chk [h] hs"
| "merge_loop bs chk (l # acc) (h # hs) =
    (if chk \<and> startOffset h < startOffset l then Inl AssertFailed
     else
       let lastSMholeLen = BUFFER_LEN bs (startOffset l) (endOffset l);
           holeDistance = BUFFER_LEN bs (startOffset l) (startOffset h)
       in if holeDistance \<le> lastSMholeLen
          then let newLength = BUFFER_LEN bs (startOffset l) (endOffset h);
                   l' = (if newLength \<ge> lastSMholeLen then l\<lparr>endOffset := ADVANCE_OFFSET bs (startOffset l) newLength\<rparr> else l)
               in merge_loop bs chk (l' # acc) hs
          else merge_loop bs chk (h # l # acc) hs)"

fun nearest_hole :: "nat \<Rightarrow> BlackHole list \<Rightarrow> nat" where
  "nearest_hole w [] = 0"
| "nearest_hole w (h # hs) = (if startOffset h \<ge> w then 0 else Suc (nearest_hole w hs))"

definition BlackHoleSortMerge :: "nat \<Rightarrow> nat \<Rightarrow> BlackHole list \<Rightarrow> BlackHole list result" where
  "BlackHoleSortMerge bs w hs =
    (let n = nearest_hole w hs
     in if n = 0 \<or> n = length hs
        then case merge_loop bs True [] hs of Inl e \<Rightarrow> Inl e | Inr acc \<Rightarrow> Inr (rev acc)
        else case merge_loop bs True [] (drop n hs) of Inl e \<Rightarrow> Inl e
         | Inr acc \<Rightarrow> (case merge_loop bs False acc (take n hs) of Inl e \<Rightarrow> Inl e | Inr acc \<Rightarrow> Inr (rev acc)))"

text \<open>Whether data from \<open>j\<close> to \<open>e\<close> is taken to be clear of a hole and of all that follow.\<close>

definition jump_clear :: "nat \<Rightarrow> nat \<Rightarrow> BlackHole \<Rightarrow> bool" where
  "jump_clear j e h =
    (let hs = startOffset h; he = endOffset h
     in if j < e
        then if hs < he then (j > he \<and> e > he) \<or> (j < hs \<and> e \<le> hs)
             else j < hs \<and> j > he \<and> e \<le> hs \<and> e > he
        else he > hs \<and> j > he \<and> e \<le> hs)"

fun jump_loop :: "nat \<Rightarrow> nat \<Rightarrow> nat \<Rightarrow> nat \<Rightarrow> BlackHole list \<Rightarrow> nat" where
  "jump_loop bs n alignment j [] = j"
| "jump_loop bs n alignment j (h # hs) =
    (if jump_clear j (ADVANCE_OFFSET2 bs j n alignment) h then j else jump_loop bs n alignment (endOffset h) hs)"

definition BlackholeJump :: "nat \<Rightarrow> nat \<Rightarrow> nat \<Rightarrow> nat \<Rightarrow> RingBufInfo \<Rightarrow> nat result" where
  "BlackholeJump bs w n alignment g =
    (if holes g = [] then Inr w
     else case BlackHoleSortMerge bs w (holes g) of Inl e \<Rightarrow> Inl e | Inr hs \<Rightarrow> Inr (jump_loop bs n alignment w hs))"

end
