(* ===== verification/Crb_Write.thy ===== *)
theory Crb_Write
  imports Crb_Index Crb_Hole
begin

text \<open>The producer's side of \<open>CRingBuf.cpp\<close>: asking for room, moving consumers that are in the
  way, and committing a frame.\<close>

section \<open>Moving consumers out of the way\<close>

text \<open>One blocker; the flag \<open>found\<close> is kept from one blocker to the next, as in the code.\<close>

definition move_blocker :: "int \<Rightarrow> nat \<Rightarrow> nat \<Rightarrow> bool \<Rightarrow> RingBufInfo \<Rightarrow> (bool \<times> RingBufInfo) result" where
  "move_blocker up bs c found g =
    (case IndexFindNextFrame g (PRODUCTOR_INDEX g) (ADVANCE_INDEX (u_index (consumers g ! c)) 1) CRB_FRAME_I_SLICE None of
       Inl e \<Rightarrow> Inl e
     | Inr r \<Rightarrow>
        (let none = (r = None \<or> r = Some (u_index (consumers g ! c)));
             nextIframe = (if none then STEPBACK_INDEX (PRODUCTOR_INDEX g) 1 else the r);
             found = (if none then found else True);
             readOffset = f_offset (frameIdx g ! nextIframe);
             st = GetConsumerState g c
         in if st = USER_FREE then Inr (found, MoveConsumer c nextIframe readOffset (\<not> found) g)
            else if st = USER_BLOCKED
            then Inr (found, SetConsumerMoved c (MoveConsumer c nextIframe readOffset (\<not> found) g))
            else if st = USER_HOLDING_FRAME
            then let u = consumers g ! c; s = frameIdx g ! refIdxStart u; e = frameIdx g ! refIdxEnd u
                 in case InsertBlackHole up (u_name u) (f_offset s) (ADVANCE_OFFSET bs (f_offset e) (f_length e)) g of
                      Inl e \<Rightarrow> Inl e
                    | Inr (_, g) \<Rightarrow>
                       Inr (found, SetConsumerState c USER_BLOCKED (SetConsumerMoved c
                         (MoveConsumer c nextIframe readOffset (\<not> found) g)))
            else Inl AssertFailed))"

fun move_loop :: "int \<Rightarrow> nat \<Rightarrow> nat list \<Rightarrow> bool \<Rightarrow> RingBufInfo \<Rightarrow> RingBufInfo result" where
  "move_loop up bs [] found g = Inr g"
| "move_loop up bs (c # cs) found g =
    (case move_blocker up bs c found g of Inl e \<Rightarrow> Inl e | Inr (found, g) \<Rightarrow> move_loop up bs cs found g)"

definition MoveAllBlockers :: "int \<Rightarrow> nat \<Rightarrow> nat list \<Rightarrow> RingBufInfo \<Rightarrow> RingBufInfo result" where
  "MoveAllBlockers up bs blockers g = move_loop up bs blockers False g"

section \<open>Room for a frame\<close>

text \<open>
  \<open>__RequestWritePtr\<close>: the address, the blockers when the caller gets to know them, the header
  and the object. \<open>pOut\<close> says whether the caller passed arrays for the blockers.
\<close>

definition request_write :: "nat \<Rightarrow> nat \<Rightarrow> bool \<Rightarrow> RingBufInfo \<Rightarrow> CRingBuf
    \<Rightarrow> (crb_ptr \<times> nat list option \<times> RingBufInfo \<times> CRingBuf) result" where
  "request_write n alignment pOut g h =
    (if m_userIdx h \<noteq> 0 \<or> n = 0 \<or> \<not> is_productor h \<or> alignment > 4096 then Inr (PNull, None, g, h)
     else
       let bs = m_bufSize h;
           blockers = [i \<leftarrow> valid_consumers g. writable_of g bs i \<le> n];
           alignBlockers = [i \<leftarrow> valid_consumers g. alignment \<noteq> 0 \<and> writable_of g bs i \<le> n + alignment];
           not_enough = (\<lambda>bl g. Inr (PError CRB_ERROR_SPACE, if pOut then Some bl else None, g, h))
       in if \<not> pOut \<and> valid_consumers g = [] \<and> dataWriten g then not_enough blockers g
          else if n \<ge> min_writable g bs then not_enough blockers g
          else case BlackholeJump bs (PRODUCTOR_OFFSET g) n alignment g of Inl e \<Rightarrow> Inl e
           | Inr j \<Rightarrow>
              (let skip = BUFFER_LEN bs (PRODUCTOR_OFFSET g) j
               in if skip + alignment + n \<ge> min_writable g bs
                  then not_enough [i \<leftarrow> valid_consumers g. skip + alignment + n \<ge> writable_of g bs i] g
                  else
                    let g = (if skip \<noteq> 0
                             then g\<lparr>productor := (productor g)\<lparr>u_offset := ADVANCE_OFFSET bs (PRODUCTOR_OFFSET g) skip\<rparr>,
                                    jumpOverHole := True\<rparr>
                             else g);
                        w = PRODUCTOR_OFFSET g
                    in if alignment \<noteq> 0 \<and> alignBlockers = []
                       then let w = ADVANCE_OFFSET bs (ALIGN w alignment) 0
                            in Inr (PAt w, None, g,
                                 h\<lparr>m_lastAlignmentBytes := BUFFER_LEN bs (PRODUCTOR_OFFSET g) w, m_lastWriteBytes := n\<rparr>)
                       else if blockers = []
                       then Inr (PAt w, None, g, h\<lparr>m_lastWriteBytes := n, m_lastAlignmentBytes := 0\<rparr>)
                       else not_enough blockers g))"

definition RequestWritePtr :: "int \<Rightarrow> RingBufInfo \<Rightarrow> CRingBuf \<Rightarrow> (crb_ptr \<times> RingBufInfo \<times> CRingBuf) result" where
  "RequestWritePtr sz g h =
    (if sz \<le> 0 then Inl AssertFailed
     else case request_write (nat sz) 0 False (g\<lparr>videoBuffer := False\<rparr>)
            (h\<lparr>m_lastWriteFrameType := CRB_FRAME_I_SLICE\<rparr>) of Inl e \<Rightarrow> Inl e
      | Inr (p, _, g, h) \<Rightarrow> Inr (p, g, h))"

text \<open>One round of \<open>RequestWriteFrame\<close>, under the lock: whether it returns, and what.\<close>

definition write_round :: "int \<Rightarrow> nat \<Rightarrow> FRAME_E \<Rightarrow> CRB_WRITE_MODE_E \<Rightarrow> RingBufInfo \<Rightarrow> CRingBuf
    \<Rightarrow> (bool \<times> crb_ptr \<times> RingBufInfo \<times> CRingBuf) result" where
  "write_round up n type mode g h =
    (let g = DeleteAgedBlackHole up g;
         blockers = IndexFindBlocker g
     in if blockers \<noteq> [] \<and> mode = CRB_WRITE_MODE_BLOCK then Inr (True, PError CRB_ERROR_NO_IDX, g, h)
        else (case (if blockers \<noteq> [] then MoveAllBlockers up (m_bufSize h) blockers g else Inr g) of Inl e \<Rightarrow> Inl e
         | Inr g \<Rightarrow>
            (let alignment = (if alignFrameType g = type \<or> contiBytesWriten g \<ge> bufSize g div 5 then alignBytes g else 0)
             in (case request_write n alignment True g h of Inl e \<Rightarrow> Inl e
                | Inr (ret, out, g, h) \<Rightarrow>
                   if CRB_VALID_ADDRESS ret then Inr (True, ret, g, h\<lparr>m_lastWriteFrameType := type\<rparr>)
                   else if mode = CRB_WRITE_MODE_BLOCK then Inr (True, PError CRB_ERROR_NO_IDX, g, h)
                   else (case MoveAllBlockers up (m_bufSize h) (case out of Some bl \<Rightarrow> bl | None \<Rightarrow> blockers) g of
                          Inl e \<Rightarrow> Inl e
                        | Inr g \<Rightarrow> Inr (False, ret, g, h))))))"

definition MAX_RETRY_TIME :: nat where "MAX_RETRY_TIME = 100"

text \<open>\<open>clk i\<close> is the uptime in round \<open>i\<close>; \<open>left\<close> rounds are left.\<close>

fun write_loop :: "(nat \<Rightarrow> int) \<Rightarrow> nat \<Rightarrow> FRAME_E \<Rightarrow> CRB_WRITE_MODE_E \<Rightarrow> nat \<Rightarrow> RingBufInfo \<Rightarrow> CRingBuf
    \<Rightarrow> (crb_ptr \<times> RingBufInfo \<times> CRingBuf) result" where
  "write_loop clk n type mode 0 g h = Inr (PError CRB_ERROR_PARAM, g, h)"
| "write_loop clk n type mode (Suc left) g h =
    (case write_round (clk (MAX_RETRY_TIME - Suc left)) n type mode g h of Inl e \<Rightarrow> Inl e
     | Inr (done, ret, g, h) \<Rightarrow>
        if done \<or> left = 0 then Inr (ret, g, h) else write_loop clk n type mode left g h)"

definition upd_productor :: "(RingBufUser \<Rightarrow> RingBufUser) \<Rightarrow> RingBufInfo \<Rightarrow> RingBufInfo" where
  "upd_productor f g = g\<lparr>productor := f (productor g)\<rparr>"

text \<open>What a request does before its first round, most of it without the lock.\<close>

definition write_open :: "int \<Rightarrow> FRAME_E \<Rightarrow> RingBufInfo \<Rightarrow> CRingBuf \<Rightarrow> RingBufInfo" where
  "write_open up type g h =
    (let g = (if leftedBytes g \<noteq> 0 then g\<lparr>leftedBytes := 0\<rparr> else g);
         g = upd_productor (upd_acct (\<lambda>a. a\<lparr>requestCount := requestCount a + 1\<rparr>)) g;
         g = (if m_lastWriteBytes h > 0
              then upd_productor (upd_acct (\<lambda>a. a\<lparr>requestWithoutCommitCount := requestWithoutCommitCount a + 1\<rparr>)) g
              else g);
         g = (if type = CRB_FRAME_DISCOVERY \<or> type = CRB_FRAME_LOG then g\<lparr>videoBuffer := False\<rparr> else g)
     in upd_productor (\<lambda>u. u\<lparr>requestUptime := up\<rparr>) g)"

definition RequestWriteFrame :: "(nat \<Rightarrow> int) \<Rightarrow> nat \<Rightarrow> FRAME_E \<Rightarrow> CRB_WRITE_MODE_E \<Rightarrow> RingBufInfo \<Rightarrow> CRingBuf
    \<Rightarrow> (crb_ptr \<times> RingBufInfo \<times> CRingBuf) result" where
  "RequestWriteFrame clk sz type mode g h =
    (if sz = 0 \<or> sz > m_bufSize h \<or> type = CRB_FRAME_ANY then Inl AssertFailed
     else if m_userIdx h \<noteq> 0 then Inl BufferOverrun
     else write_loop clk sz type mode MAX_RETRY_TIME (write_open (clk 0) type g h) h)"

section \<open>Committing\<close>

datatype crb_ret = CrbOk nat | CrbErr crb_error

text \<open>\<open>sz\<close> is \<open>None\<close> for \<open>CRB_COMMIT_LAST_REQ_SIZE\<close>.\<close>

definition CommitWrite :: "nat option \<Rightarrow> int \<Rightarrow> RingBufInfo \<Rightarrow> CRingBuf \<Rightarrow> (crb_ret \<times> RingBufInfo \<times> CRingBuf) result" where
  "CommitWrite sz frameTime g h =
    (if (case sz of None \<Rightarrow> False | Some n \<Rightarrow> n > m_lastWriteBytes h) then Inl AssertFailed
     else if \<not> is_productor h \<or> m_lastWriteBytes h = 0 then Inr (CrbErr CRB_ERROR_PERM, g, h)
     else
       let bs = m_bufSize h;
           n = (case sz of None \<Rightarrow> m_lastWriteBytes h | Some n \<Rightarrow> n);
           g = upd_productor (upd_acct (\<lambda>a. a\<lparr>commitCount := commitCount a + 1, bytesCount := bytesCount a + word_of_nat n\<rparr>)) g;
           fin = (\<lambda>g. Inr (CrbOk n, g\<lparr>jumpOverHole := False\<rparr>, h\<lparr>m_lastWriteBytes := 0, m_lastAlignmentBytes := 0\<rparr>))
       in if n = 0 then fin g
          else
            case (if m_lastWriteFrameType h = CRB_FRAME_ANY then Inr g
                  else case IndexAdd h (ADVANCE_OFFSET bs (PRODUCTOR_OFFSET g) (m_lastAlignmentBytes h)) n (m_lastWriteFrameType h)
                              (\<not> (\<not> dataWriten g \<or> jumpOverHole g \<or> m_lastAlignmentBytes h \<noteq> 0))
                              (requestUptime (productor g)) frameTime g of
                         Inl e \<Rightarrow> Inl e
                       | Inr g \<Rightarrow> Inr (upd_productor (\<lambda>u. u\<lparr>u_offset := ADVANCE_OFFSET2 bs (u_offset u) n (m_lastAlignmentBytes h)\<rparr>) g))
            of Inl e \<Rightarrow> Inl e
             | Inr g \<Rightarrow>
                (let g = g\<lparr>dataWriten := True, contiBytesWriten := (contiBytesWriten g + n) mod 2 ^ 32\<rparr>;
                     g = (if m_lastAlignmentBytes h > 0 then g\<lparr>contiBytesWriten := 0\<rparr> else g)
                 in fin g))"

definition DiscardLeftedData :: "RingBufInfo \<Rightarrow> int \<times> RingBufInfo" where
  "DiscardLeftedData g = (0, g\<lparr>leftedBytes := 0\<rparr>)"

section \<open>The data area\<close>

text \<open>The area is mapped twice in a row, so a region that runs over the end goes on at the start.\<close>

fun mirror_write :: "bytes \<Rightarrow> nat \<Rightarrow> bytes \<Rightarrow> bytes" where
  "mirror_write mem off [] = mem"
| "mirror_write mem off (b # bs) = mirror_write (mem[off mod length mem := b]) (Suc off) bs"

definition mirror_read :: "bytes \<Rightarrow> nat \<Rightarrow> nat \<Rightarrow> bytes" where
  "mirror_read mem off n = map (\<lambda>i. mem ! ((off + i) mod length mem)) [0..<n]"

definition WriteLog :: "(nat \<Rightarrow> int) \<Rightarrow> bytes \<Rightarrow> nat \<Rightarrow> bytes \<Rightarrow> RingBufInfo \<Rightarrow> CRingBuf
    \<Rightarrow> (crb_error option \<times> bytes \<times> RingBufInfo \<times> CRingBuf) result" where
  "WriteLog clk pLogBuf sz mem g h =
    (case RequestWriteFrame clk sz CRB_FRAME_LOG CRB_WRITE_MODE_NON_BLOCK g h of Inl e \<Rightarrow> Inl e
     | Inr (p, g, h) \<Rightarrow>
        (case p of
           PAt off \<Rightarrow>
             if length pLogBuf < sz then Inl BufferOverrun
             else (case CommitWrite (Some sz) 0 g h of Inl e \<Rightarrow> Inl e
               | Inr (_, g, h) \<Rightarrow> Inr (None, mirror_write mem off (take sz pLogBuf), g, h))
         | _ \<Rightarrow> Inr (Some CRB_ERROR_SPACE, mem, g, h)))"

end
