(* ===== verification/Crb_Read.thy ===== *)
theory Crb_Read
  imports Crb_Write
begin

text \<open>The consumers' side of \<open>CRingBuf.cpp\<close>: requesting frames, committing them, moving in the
  ring; then installing users and resetting.\<close>

section \<open>Reading\<close>

text \<open>\<open>__RequestReadPtr\<close>.\<close>

definition request_read :: "nat \<Rightarrow> nat \<Rightarrow> nat \<Rightarrow> CRingBuf \<Rightarrow> crb_ptr \<times> CRingBuf" where
  "request_read readOffset writeOffset sz h =
    (if m_userIdx h > MAX_CONSUMER_NUM \<or> sz = 0 \<or> is_productor h then (PNull, h)
     else if writeOffset = readOffset then (PNull, h)
     else if GetReadableSize (m_bufSize h) readOffset writeOffset \<ge> sz then (PAt readOffset, h\<lparr>m_lastReadBytes := sz\<rparr>)
     else (PNull, h))"

definition RequestReadPtr :: "int \<Rightarrow> RingBufInfo \<Rightarrow> CRingBuf \<Rightarrow> (crb_ptr \<times> CRingBuf) result" where
  "RequestReadPtr sz g h =
    (if sz \<le> 0 then Inl AssertFailed
     else Inr (request_read (u_offset (consumers g ! m_userIdx h)) (PRODUCTOR_OFFSET g) (nat sz) h))"

text \<open>How every request starts: the hole of the consumer goes, and the request is counted.\<close>

definition read_begin :: "RingBufInfo \<Rightarrow> CRingBuf \<Rightarrow> RingBufInfo" where
  "read_begin g h =
    (let c = m_userIdx h;
         g = ClearConsumerTimeOut c (DeleteBlackHoleOwnedBy (u_name (consumers g ! c)) g);
         g = upd_consumer c (upd_acct (\<lambda>a. a\<lparr>requestCount := requestCount a + 1\<rparr>)) g
     in if m_lastReadBytes h > 0
        then upd_consumer c (upd_acct (\<lambda>a. a\<lparr>requestWithoutCommitCount := requestWithoutCommitCount a + 1\<rparr>)) g
        else g)"

definition wanted_type :: "RingBufInfo \<Rightarrow> nat \<Rightarrow> FRAME_E \<Rightarrow> FRAME_E" where
  "wanted_type g c type = (if liveStream g \<and> waitIFrame (consumers g ! c) then CRB_FRAME_I_SLICE else type)"

text \<open>The address, the length and the key flag as far as they are set, the header, the object.\<close>

definition RequestReadFrame :: "FRAME_E \<Rightarrow> RingBufInfo \<Rightarrow> CRingBuf
    \<Rightarrow> (crb_ptr \<times> int option \<times> bool option \<times> RingBufInfo \<times> CRingBuf) result" where
  "RequestReadFrame type g h =
    (let c = m_userIdx h; g = read_begin g h; readIndex = u_index (consumers g ! c)
     in if readIndex \<ge> MAX_FRAME_NUM then Inl AssertFailed
        else case IndexFindNextFrame g (PRODUCTOR_INDEX g) readIndex (wanted_type g c type) None of Inl e \<Rightarrow> Inl e
         | Inr None \<Rightarrow> Inr (PError CRB_ERROR_PARAM, None, None, g, h)
         | Inr (Some i) \<Rightarrow>
            (let f = frameIdx g ! i; (ret, h) = request_read (f_offset f) (PRODUCTOR_OFFSET g) (f_length f) h
             in if CRB_VALID_ADDRESS ret
                then Inr (ret, Some (int (f_length f)), Some (f_type f = CRB_FRAME_I_SLICE),
                       ClearConsumerMoved c (SetConsumerState c USER_HOLDING_FRAME (MoveConsumer c i (f_offset f) False g)), h)
                else Inr (ret, Some 0, None, g, h)))"

text \<open>The same without holding the frame, for its time stamp.\<close>

definition RequestReadNextFrameStamp :: "FRAME_E \<Rightarrow> RingBufInfo \<Rightarrow> CRingBuf
    \<Rightarrow> (crb_ptr \<times> int \<times> int \<times> bool option \<times> RingBufInfo \<times> CRingBuf) result" where
  "RequestReadNextFrameStamp type g h =
    (let c = m_userIdx h; g = read_begin g h; readIndex = u_index (consumers g ! c)
     in if readIndex > MAX_FRAME_NUM then Inl AssertFailed
        else case IndexFindNextFrame g (PRODUCTOR_INDEX g) readIndex (wanted_type g c type) None of Inl e \<Rightarrow> Inl e
         | Inr None \<Rightarrow> Inr (PError CRB_ERROR_PARAM, -2, 0, None, g, h)
         | Inr (Some i) \<Rightarrow>
            (let f = frameIdx g ! i; (ret, h) = request_read (f_offset f) (PRODUCTOR_OFFSET g) (f_length f) h
             in if CRB_VALID_ADDRESS ret
                then Inr (ret, int (f_length f), f_timeStamp f, Some (f_type f = CRB_FRAME_I_SLICE),
                       ClearConsumerMoved c (MoveConsumer c i (f_offset f) False g), h)
                else Inr (ret, -2, 0, None, g, h)))"

text \<open>
  Several frames in one region. The loop that describes them counts in 8 bits; \<open>None\<close> is a loop
  still running when the fuel is used up. The caller's array has room for \<open>want\<close> entries.
\<close>

fun describe_loop :: "RingBufInfo \<Rightarrow> nat \<Rightarrow> nat \<Rightarrow> nat \<Rightarrow> nat \<Rightarrow> nat \<Rightarrow> u8 \<Rightarrow> nat \<Rightarrow> (nat \<times> nat \<times> bool) list
    \<Rightarrow> ((nat \<times> nat \<times> bool) list \<times> u8) option" where
  "describe_loop g bs first want cnt 0 i f out = None"
| "describe_loop g bs first want cnt (Suc fuel) i f out =
    (if unat i < want \<and> unat i < cnt
     then let x = frameIdx g ! f;
              d = (BUFFER_LEN bs (f_offset (frameIdx g ! first)) (f_offset x), f_length x, f_type x = CRB_FRAME_I_SLICE)
          in describe_loop g bs first want cnt fuel (i + 1) (ADVANCE_INDEX f 1)
               (if unat i < length out then out[unat i := d] else out @ [d])
     else Some (out, i))"

definition RequestReadContinuousFrames :: "nat \<Rightarrow> nat \<Rightarrow> RingBufInfo \<Rightarrow> CRingBuf
    \<Rightarrow> (crb_ptr \<times> nat \<times> nat \<times> (nat \<times> nat \<times> bool) list \<times> RingBufInfo \<times> CRingBuf) option result" where
  "RequestReadContinuousFrames fuel want g h =
    (let bs = m_bufSize h; c = m_userIdx h; g = read_begin g h; readIndex = u_index (consumers g ! c)
     in case IndexFindNextFrame g (PRODUCTOR_INDEX g) readIndex (wanted_type g c CRB_FRAME_ANY) None of Inl e \<Rightarrow> Inl e
      | Inr None \<Rightarrow> Inr (Some (PError CRB_ERROR_NO_IDX, 0, want, [], g, h))
      | Inr (Some first) \<Rightarrow>
         (case IndexFindNextFrame g (PRODUCTOR_INDEX g) (ADVANCE_INDEX first 1) CRB_FRAME_ANY (Some False) of Inl e \<Rightarrow> Inl e
          | Inr None \<Rightarrow> Inr (Some (PError CRB_ERROR_NO_IDX, 0, want, [], g, h))
          | Inr (Some next) \<Rightarrow>
             (let total = (next + MAX_FRAME_NUM - first) mod MAX_FRAME_NUM;
                  (next, total) = (if total \<ge> want then (STEPBACK_INDEX next (total - want), want) else (next, total));
                  last = STEPBACK_INDEX next 1;
                  readOffset = f_offset (frameIdx g ! first);
                  readSize = BUFFER_LEN bs readOffset (f_offset (frameIdx g ! last)) + f_length (frameIdx g ! last);
                  (ret, h) = request_read readOffset (PRODUCTOR_OFFSET g) readSize h
              in if CRB_VALID_ADDRESS ret
                 then let g = SetConsumerState c USER_HOLDING_FRAME (SetConsumerRefIdx c first last
                                (MoveConsumer c first readOffset False g))
                      in case describe_loop g bs first want total fuel 0 first [] of
                           None \<Rightarrow> Inr None
                         | Some (out, i) \<Rightarrow> Inr (Some (ret, readSize, unat i, out, ClearConsumerMoved c g, h))
                 else Inr (Some (ret, 0, 0, [], g, h)))))"

text \<open>\<open>sz\<close> is \<open>None\<close> for \<open>COMMIT_LAST_REQUESTED_SIZE\<close>.\<close>

definition CommitRead :: "nat option \<Rightarrow> RingBufInfo \<Rightarrow> CRingBuf \<Rightarrow> (crb_error option \<times> RingBufInfo \<times> CRingBuf) result" where
  "CommitRead sz g h =
    (if is_productor h \<or> (case sz of None \<Rightarrow> False | Some n \<Rightarrow> n > m_lastReadBytes h) then Inl AssertFailed
     else
       let c = m_userIdx h;
           n = (case sz of None \<Rightarrow> m_lastReadBytes h | Some n \<Rightarrow> n);
           g = upd_consumer c (upd_acct (\<lambda>a. a\<lparr>commitCount := commitCount a + 1\<rparr>)) g;
           g = (if m_lastReadBytes h = 0
                then upd_consumer c (upd_acct (\<lambda>a. a\<lparr>commitWithoutRequestCount := commitWithoutRequestCount a + 1\<rparr>)) g else g);
           g = upd_consumer c (upd_acct (\<lambda>a. a\<lparr>bytesCount := bytesCount a + word_of_nat n\<rparr>)) g;
           g = ClearConsumerTimeOut c (DeleteBlackHoleOwnedBy (u_name (consumers g ! c)) g)
       in if m_lastReadBytes h = 0 then Inr (Some CRB_ERROR_PERM, g, h)
          else
            let u = consumers g ! c;
                g = (if IsConsumerMoved g c then g
                     else MoveConsumer c (ADVANCE_INDEX (refIdxEnd u) 1) (ADVANCE_OFFSET (m_bufSize h) (u_offset u) n) False g)
            in Inr (None, ClearConsumerMoved c (SetConsumerState c USER_FREE g), h\<lparr>m_lastReadBytes := 0\<rparr>))"

section \<open>Moving in the ring\<close>

definition DiscardAllData :: "RingBufInfo \<Rightarrow> CRingBuf \<Rightarrow> RingBufInfo \<times> CRingBuf" where
  "DiscardAllData g h =
    (let c = m_userIdx h
     in if c \<ge> MAX_CONSUMER_NUM \<or> is_productor h then (g, h)
        else
          let g = upd_consumer c (upd_acct (\<lambda>a. a\<lparr>discardCount := discardCount a + 1\<rparr>)) g;
              g = ClearConsumerTimeOut c (DeleteBlackHoleOwnedBy (u_name (consumers g ! c)) g);
              g = MoveConsumer c (PRODUCTOR_INDEX g) (PRODUCTOR_OFFSET g) True g
          in (ClearConsumerMoved c (SetConsumerState c USER_FREE g), h\<lparr>m_lastReadBytes := 0\<rparr>))"

text \<open>The result and the time found, when there is one.\<close>

definition IndexMoveToSpecifiedTime :: "FRAME_E \<Rightarrow> int \<Rightarrow> RingBufInfo \<Rightarrow> CRingBuf \<Rightarrow> (int \<times> int option \<times> RingBufInfo) result" where
  "IndexMoveToSpecifiedTime frame timeStamp g h =
    (let c = m_userIdx h
     in case IndexFindSpecifiedTimeFrameInstance g (PRODUCTOR_INDEX g) (FindOldesValidIndex g (m_bufSize h)) frame timeStamp of
          Inl e \<Rightarrow> Inl e
        | Inr None \<Rightarrow> Inr (-1, None, g)
        | Inr (Some i) \<Rightarrow>
           (let g = ClearConsumerTimeOut c (DeleteBlackHoleOwnedBy (u_name (consumers g ! c)) g);
                g = MoveConsumer c i (f_offset (frameIdx g ! i)) True g
            in Inr (0, Some (f_timeStamp (frameIdx g ! i)), g)))"

definition IndexMoveToOldest :: "RingBufInfo \<Rightarrow> CRingBuf \<Rightarrow> int \<times> RingBufInfo" where
  "IndexMoveToOldest g h =
    (let c = m_userIdx h;
         i = FindOldesValidIndex g (m_bufSize h);
         g = ClearConsumerTimeOut c (DeleteBlackHoleOwnedBy (u_name (consumers g ! c)) g)
     in (0, MoveConsumer c i (f_offset (frameIdx g ! i)) True g))"

section \<open>Users\<close>

fun reset_loop :: "int \<Rightarrow> nat \<Rightarrow> nat list \<Rightarrow> RingBufInfo \<Rightarrow> RingBufInfo result" where
  "reset_loop up bs [] g = Inr g"
| "reset_loop up bs (c # cs) g =
    (if \<not> VALID_CONSUMER g c then reset_loop up bs cs g
     else
       let st = GetConsumerState g c; u = consumers g ! c
       in case (if st = USER_HOLDING_FRAME
                then let s = frameIdx g ! refIdxStart u; e = frameIdx g ! refIdxEnd u
                     in case InsertBlackHole up (u_name u) (f_offset s) (ADVANCE_OFFSET bs (f_offset e) (f_length e)) g of
                          Inl e \<Rightarrow> Inl e
                        | Inr (_, g) \<Rightarrow> Inr (SetConsumerState c USER_BLOCKED (SetConsumerMoved c g))
                else if st = USER_BLOCKED then Inr (SetConsumerMoved c g) else Inr g) of Inl e \<Rightarrow> Inl e
          | Inr g \<Rightarrow> reset_loop up bs cs (MoveConsumer c 0 0 True g))"

definition ResetAllUserNoLock :: "int \<Rightarrow> RingBufInfo \<Rightarrow> CRingBuf \<Rightarrow> (crb_error option \<times> RingBufInfo \<times> CRingBuf) result" where
  "ResetAllUserNoLock up g h =
    (if m_userIdx h \<ge> 1 \<or> \<not> is_productor h then Inr (Some CRB_ERROR_PERM, g, h)
     else case reset_loop up (m_bufSize h) [0..<MAX_CONSUMER_NUM] g of Inl e \<Rightarrow> Inl e
      | Inr g \<Rightarrow>
         Inr (None, (upd_productor (\<lambda>u. upd_acct (\<lambda>a. a\<lparr>discardCount := discardCount a + 1\<rparr>) u\<lparr>u_offset := 0, u_index := 0\<rparr>) g)
              \<lparr>dataWriten := False, contiBytesWriten := 0, leftedBytes := 0\<rparr>, h\<lparr>m_lastWriteBytes := 0\<rparr>))"

definition ResetAllUser :: "int \<Rightarrow> RingBufInfo \<Rightarrow> CRingBuf \<Rightarrow> (crb_error option \<times> RingBufInfo \<times> CRingBuf) result" where
  "ResetAllUser up g h = ResetAllUserNoLock up g h"

definition CRB_PERSONALITY_READER :: nat where "CRB_PERSONALITY_READER = 1"
definition CRB_PERSONALITY_WRITER :: nat where "CRB_PERSONALITY_WRITER = 2"
definition CRB_PERSONALITY_DUMPER :: nat where "CRB_PERSONALITY_DUMPER = 8"

definition InstallConsumer :: "nat option \<Rightarrow> nat \<Rightarrow> string \<Rightarrow> nat \<Rightarrow> RingBufInfo \<Rightarrow> CRingBuf \<Rightarrow> (RingBufInfo \<times> CRingBuf) result" where
  "InstallConsumer existing firstEmpty name personality g h =
    (let c = (case existing of Some i \<Rightarrow> i | None \<Rightarrow> firstEmpty);
         h = h\<lparr>m_userIdx := c\<rparr>;
         g = (if existing = None then upd_consumer c (\<lambda>u. u\<lparr>u_name := name, u_personality := personality\<rparr>) g else g);
         g = ClearConsumerMoved c (SetConsumerState c USER_FREE (ClearConsumerTimeOut c (DeleteBlackHoleOwnedBy name g)));
         fin = (\<lambda>g. Inr (upd_consumer c (upd_acct (\<lambda>a. a\<lparr>installCount := installCount a + 1\<rparr>)) g, h))
     in if PRODUCTOR_EXIST g \<and> dataWriten g
        then if personality AND CRB_PERSONALITY_DUMPER \<noteq> 0
             then let i = FindOldesValidIndex g (m_bufSize h) in fin (MoveConsumer c i (f_offset (frameIdx g ! i)) False g)
             else case IndexFindLatestIFrame g (m_bufSize h) of Inl e \<Rightarrow> Inl e
              | Inr (Some i) \<Rightarrow> fin (MoveConsumer c i (f_offset (frameIdx g ! i)) False g)
              | Inr None \<Rightarrow> fin (MoveConsumer c (PRODUCTOR_INDEX g) (f_offset (frameIdx g ! PRODUCTOR_INDEX g)) True g)
        else fin (MoveConsumer c 0 0 True g))"

definition InstallProductor :: "int \<Rightarrow> nat option \<Rightarrow> nat \<Rightarrow> string \<Rightarrow> nat \<Rightarrow> RingBufInfo \<Rightarrow> CRingBuf \<Rightarrow> (RingBufInfo \<times> CRingBuf) result" where
  "InstallProductor up existing firstEmpty name personality g h =
    (let i = (case existing of Some i \<Rightarrow> i | None \<Rightarrow> firstEmpty);
         h = h\<lparr>m_userIdx := i\<rparr>;
         g = (if existing = None
              then (upd_productor (\<lambda>u. u\<lparr>u_index := 0, u_offset := 0, u_name := name, u_personality := personality\<rparr>) g)
                     \<lparr>dataWriten := False, contiBytesWriten := 0\<rparr>
              else g)
     in if i \<noteq> 0 then Inl AssertFailed
        else case (if existing \<noteq> None then ResetAllUserNoLock up g h else Inr (None, g, h)) of Inl e \<Rightarrow> Inl e
         | Inr (_, g, h) \<Rightarrow> Inr (upd_productor (upd_acct (\<lambda>a. a\<lparr>installCount := installCount a + 1\<rparr>)) g, h))"

text \<open>The slot with the name, before it the first empty slot.\<close>

fun find_slots :: "string \<Rightarrow> RingBufUser list \<Rightarrow> nat \<Rightarrow> nat option \<Rightarrow> nat option \<times> nat option" where
  "find_slots name [] i firstEmpty = (None, firstEmpty)"
| "find_slots name (u # us) i firstEmpty =
    (if u_name u \<noteq> '''' \<and> u_name u = name then (Some i, firstEmpty)
     else find_slots name us (Suc i) (if firstEmpty = None \<and> u_name u = '''' then Some i else firstEmpty))"

text \<open>\<open>None\<close> when there is no slot: the function returns with the lock held.\<close>

definition InstallUser :: "int \<Rightarrow> string \<Rightarrow> nat \<Rightarrow> RingBufInfo \<Rightarrow> CRingBuf \<Rightarrow> (RingBufInfo \<times> CRingBuf) option result" where
  "InstallUser up name personality g h =
    (let (existing, firstEmpty) = find_slots name (if is_productor h then [productor g] else consumers g) 0 None
     in if existing = None \<and> firstEmpty = None then Inr None
        else map_sum id Some
          ((if is_productor h then InstallProductor up else InstallConsumer)
             existing (case firstEmpty of Some i \<Rightarrow> i | None \<Rightarrow> 0) name personality g h))"

definition GetIntalledUserNum :: "RingBufInfo \<Rightarrow> nat" where
  "GetIntalledUserNum g = (if PRODUCTOR_EXIST g then 1 else 0) + length (valid_consumers g)"

definition CleanAllConsumer :: "RingBufInfo \<Rightarrow> RingBufInfo" where
  "CleanAllConsumer g = g\<lparr>consumers := map (\<lambda>u. if u_name u \<noteq> '''' then user_zero else u) (consumers g)\<rparr>"

definition CleanProductor :: "RingBufInfo \<Rightarrow> RingBufInfo" where
  "CleanProductor g = g\<lparr>productor := user_zero\<rparr>"

text \<open>
  The constructor on the header found in the file (\<open>info_zero\<close> for a new one). \<open>None\<close> is an
  object that cannot be used: bad arguments, a system call that failed (\<open>sys_ok\<close> is false), or
  no free slot. The mutex and the mappings are not part of the model.
\<close>

definition CRingBuf_new :: "bool \<Rightarrow> int \<Rightarrow> string \<Rightarrow> string \<Rightarrow> int \<Rightarrow> nat \<Rightarrow> bool \<Rightarrow> RingBufInfo
    \<Rightarrow> (RingBufInfo \<times> CRingBuf) option result" where
  "CRingBuf_new sys_ok up usrName ringBufName sz personality live g =
    (let wr = (personality AND CRB_PERSONALITY_WRITER \<noteq> 0); rd = (personality AND CRB_PERSONALITY_READER \<noteq> 0)
     in if usrName = '''' \<or> ringBufName = '''' \<or> sz \<le> 0 \<or> wr = rd then Inr None
        else if length usrName \<ge> 32 \<or> length ringBufName \<ge> 32 then Inl AssertFailed
        else if \<not> sys_ok then Inr None
        else
          let bs = ALIGN (nat sz) MMAP_MIN_PAGE_SIZE;
              h = \<lparr>is_productor = wr, m_bufSize = bs, m_userIdx = 0, m_lastWriteBytes = 0,
                   m_lastWriteFrameType = CRB_FRAME_I_SLICE, m_lastAlignmentBytes = 0, m_lastReadBytes = 0\<rparr>;
              fresh = (version g = 0);
              g = (if fresh then g\<lparr>version := 1, videoBuffer := True\<rparr> else g);
              g = (if GetIntalledUserNum g \<ge> 10 then CleanAllConsumer g else g);
              g = (if wr
                   then let g = g\<lparr>liveStream := live, leftedBytes := 0\<rparr>
                        in if fresh then g else CleanAllConsumer (CleanProductor g)
                   else g);
              g = g\<lparr>bufSize := bs, alignBytes := CRB_DEFAULT_ALIGNMENT, alignFrameType := CRB_FRAME_I_SLICE,
                    rb_name := ringBufName @ drop (length ringBufName) (rb_name g)\<rparr>
          in InstallUser up usrName personality g h)"

text \<open>The destructor; \<open>True\<close> says that the file is removed.\<close>

definition CRingBuf_delete :: "RingBufInfo \<Rightarrow> CRingBuf \<Rightarrow> bool \<times> RingBufInfo" where
  "CRingBuf_delete g h =
    (let g = (if is_productor h then g\<lparr>productor := user_zero\<rparr> else upd_consumer (m_userIdx h) (\<lambda>_. user_zero) g)
     in (\<not> liveStream g \<and> GetIntalledUserNum g = 0, g))"

end
