(* ===== verification/Crb_Safe.thy ===== *)
theory Crb_Safe
  imports Crb_Read
begin

text \<open>
  What the producer may write over: the room it is granted, the data that consumers have not read,
  and the black holes, all as intervals of distances from the producer's offset.
\<close>

section \<open>Distances in the ring\<close>

lemma BUFFER_LEN_if:
  "a < N \<Longrightarrow> b < N \<Longrightarrow> BUFFER_LEN N a b = (if a \<le> b then b - a else N + b - a)"
  by (auto simp: BUFFER_LEN_def mod_if)

lemma BUFFER_LEN_less: "0 < N \<Longrightarrow> BUFFER_LEN N a b < N"
  by (simp add: BUFFER_LEN_def)

lemma mod_once: "(x::nat) < 2 * N \<Longrightarrow> x mod N = (if x < N then x else x - N)"
  by (auto simp: mod_if)

lemma BUFFER_LEN_advance: "w < N \<Longrightarrow> k < N \<Longrightarrow> BUFFER_LEN N w ((w + k) mod N) = k"
  by (auto simp: BUFFER_LEN_if mod_once)

lemma advance_BUFFER_LEN: "w < N \<Longrightarrow> x < N \<Longrightarrow> (w + BUFFER_LEN N w x) mod N = x"
  by (auto simp: BUFFER_LEN_if mod_once)

text \<open>The positions of a region of the data area that may run over the end.\<close>

definition region :: "nat \<Rightarrow> nat \<Rightarrow> nat \<Rightarrow> nat set" where
  "region N off n = (\<lambda>i. (off + i) mod N) ` {..<n}"

lemma region_dist:
  assumes "w < N" "k + n \<le> N" "x \<in> region N ((w + k) mod N) n"
  shows "x < N" "k \<le> BUFFER_LEN N w x" "BUFFER_LEN N w x < k + n"
proof -
  obtain i where i: "i < n" "x = ((w + k) mod N + i) mod N" using assms(3) by (auto simp: region_def)
  have "x = (w + (k + i)) mod N" unfolding i(2) by (simp add: mod_add_left_eq add.assoc)
  moreover have "k + i < N" using i(1) assms(2) by simp
  ultimately have "BUFFER_LEN N w x = k + i" using BUFFER_LEN_advance [OF assms(1)] by simp
  then show "k \<le> BUFFER_LEN N w x" "BUFFER_LEN N w x < k + n" using i(1) by simp_all
  show "x < N" using i(2) assms(1) by simp
qed

text \<open>Two regions given by their distances from one point.\<close>

lemma regions_disjoint:
  assumes "w < N" "a + m \<le> N" "b + n \<le> N" "a + m \<le> b \<or> b + n \<le> a"
  shows "region N ((w + a) mod N) m \<inter> region N ((w + b) mod N) n = {}"
proof (rule ccontr)
  assume "\<not> ?thesis"
  then obtain x where "x \<in> region N ((w + a) mod N) m" "x \<in> region N ((w + b) mod N) n" by blast
  with region_dist(2,3) [OF assms(1,2)] region_dist(2,3) [OF assms(1,3)]
  have "a \<le> BUFFER_LEN N w x" "BUFFER_LEN N w x < a + m" "b \<le> BUFFER_LEN N w x" "BUFFER_LEN N w x < b + n" by blast+
  with assms(4) show False by linarith
qed

section \<open>Well-formed headers and objects\<close>

definition user_wf :: "nat \<Rightarrow> RingBufUser \<Rightarrow> bool" where
  "user_wf N u \<longleftrightarrow> u_offset u < N \<and> u_index u < MAX_FRAME_NUM \<and> refIdxStart u < MAX_FRAME_NUM \<and> refIdxEnd u < MAX_FRAME_NUM
    \<and> u_state u \<in> {USER_FREE, USER_HOLDING_FRAME, USER_BLOCKED}"

definition frame_wf :: "nat \<Rightarrow> FrameIndex \<Rightarrow> bool" where
  "frame_wf N f \<longleftrightarrow> f_offset f < N \<and> f_length f \<le> N"

definition hole_wf :: "nat \<Rightarrow> BlackHole \<Rightarrow> bool" where
  "hole_wf N h \<longleftrightarrow> startOffset h < N \<and> endOffset h < N"

definition crb_wf :: "nat \<Rightarrow> RingBufInfo \<Rightarrow> bool" where
  "crb_wf N g \<longleftrightarrow> bufSize g = N \<and> 0 < N \<and> 4096 dvd N \<and> N < 2 ^ 31 \<and> length (consumers g) = MAX_CONSUMER_NUM
    \<and> list_all (user_wf N) (consumers g) \<and> user_wf N (productor g) \<and> length (frameIdx g) = MAX_FRAME_NUM
    \<and> list_all (frame_wf N) (frameIdx g) \<and> length (holes g) \<le> MAX_CONSUMER_NUM \<and> list_all (hole_wf N) (holes g)
    \<and> alignBytes g = CRB_DEFAULT_ALIGNMENT \<and> alignFrameType g = CRB_FRAME_I_SLICE"

definition obj_wf :: "nat \<Rightarrow> CRingBuf \<Rightarrow> bool" where
  "obj_wf N h \<longleftrightarrow> m_bufSize h = N \<and> m_userIdx h < MAX_CONSUMER_NUM \<and> (is_productor h \<longrightarrow> m_userIdx h = 0)
    \<and> m_lastWriteBytes h \<le> N \<and> m_lastAlignmentBytes h \<le> N \<and> m_lastReadBytes h \<le> N"

section \<open>Room for a frame and unread data\<close>

lemma foldl_min_start: "foldl (\<lambda>m i. if m > f i then f i else m) b xs \<le> (b :: nat)"
proof (induction xs arbitrary: b)
  case (Cons x xs)
  from Cons [of "if b > f x then f x else b"] show ?case by (simp split: if_splits)
qed simp

lemma foldl_min_elem: "i \<in> set xs \<Longrightarrow> foldl (\<lambda>m i. if m > f i then f i else m) b xs \<le> (f i :: nat)"
proof (induction xs arbitrary: b)
  case (Cons x xs)
  show ?case
  proof (cases "i = x")
    case True
    have "foldl (\<lambda>m i. if m > f i then f i else m) (if b > f x then f x else b) xs \<le> (if b > f x then f x else b)"
      by (rule foldl_min_start)
    then show ?thesis using True by (simp split: if_splits)
  next
    case False
    with Cons show ?thesis by simp
  qed
qed simp

lemma min_writable_le:
  "min_writable g N \<le> N" "i \<in> set (valid_consumers g) \<Longrightarrow> min_writable g N \<le> writable_of g N i"
  unfolding min_writable_def by (rule foldl_min_start, rule foldl_min_elem)

lemma ALIGN_bounds: "0 < a \<Longrightarrow> x \<le> ALIGN x a" "0 < a \<Longrightarrow> ALIGN x a < x + a"
proof -
  assume a: "0 < a"
  have e: "ALIGN x a = x + (a - 1) - (x + (a - 1)) mod a" by (simp add: ALIGN_def minus_mod_eq_div_mult [symmetric])
  have m: "(x + (a - 1)) mod a < a" using a by simp
  show "x \<le> ALIGN x a" "ALIGN x a < x + a" unfolding e using m a by linarith+
qed

lemma ALIGN_le: "0 < a \<Longrightarrow> a dvd N \<Longrightarrow> x \<le> N \<Longrightarrow> ALIGN x a \<le> N"
proof -
  assume a: "0 < a" "a dvd N" "x \<le> N"
  obtain m where m: "N = m * a" using a(2) by (metis dvd_def mult.commute)
  have "(x + (a - 1)) div a < Suc m"
    using a(1,3) unfolding m by (subst div_less_iff_less_mult) simp_all
  then have "(x + (a - 1)) div a \<le> m" by simp
  then have "(x + (a - 1)) div a * a \<le> m * a" by (rule mult_le_mono1)
  then show ?thesis unfolding ALIGN_def m .
qed


text \<open>
  What a grant is: the producer's offset moves over a stretch \<open>skip\<close> that the holes demand, the
  address follows after the padding, and all of it together fits in front of every consumer.
\<close>

definition granted :: "nat \<Rightarrow> nat \<Rightarrow> nat \<Rightarrow> nat \<Rightarrow> RingBufInfo \<Rightarrow> CRingBuf \<Rightarrow> RingBufInfo \<Rightarrow> CRingBuf \<Rightarrow> bool" where
  "granted N p n alignment g h g' h' \<longleftrightarrow> (\<exists>skip j. BlackholeJump N (PRODUCTOR_OFFSET g) n alignment g = Inr j
     \<and> skip = BUFFER_LEN N (PRODUCTOR_OFFSET g) j \<and> 0 < n
     \<and> skip + alignment + n < min_writable g N
     \<and> PRODUCTOR_OFFSET g' = (PRODUCTOR_OFFSET g + skip) mod N
     \<and> m_lastAlignmentBytes h' \<le> alignment \<and> m_lastWriteBytes h' = n
     \<and> p = (PRODUCTOR_OFFSET g' + m_lastAlignmentBytes h') mod N
     \<and> g' = g\<lparr>productor := (productor g)\<lparr>u_offset := PRODUCTOR_OFFSET g'\<rparr>, jumpOverHole := (skip \<noteq> 0 \<or> jumpOverHole g)\<rparr>
     \<and> h' = h\<lparr>m_lastWriteBytes := n, m_lastAlignmentBytes := m_lastAlignmentBytes h'\<rparr>)"

lemma request_write_granted:
  assumes r: "request_write n alignment pOut g h = Inr (PAt p, out, g', h')"
    and wf: "m_bufSize h = N" "PRODUCTOR_OFFSET g < N" "alignment = 0 \<or> alignment dvd N"
  shows "granted N p n alignment g h g' h'"
proof -
  let ?w = "PRODUCTOR_OFFSET g"
  define bl where "bl = [i \<leftarrow> valid_consumers g. writable_of g N i \<le> n]"
  define abl where "abl = [i \<leftarrow> valid_consumers g. alignment \<noteq> 0 \<and> writable_of g N i \<le> n + alignment]"
  have c1: "m_userIdx h = 0 \<and> n \<noteq> 0 \<and> is_productor h \<and> \<not> alignment > 4096"
    using r by (rule_tac ccontr) (auto simp: request_write_def)
  then have c2: "\<not> (\<not> pOut \<and> valid_consumers g = [] \<and> dataWriten g)"
    using r by (rule_tac ccontr) (simp add: request_write_def Let_def)
  have c3: "\<not> n \<ge> min_writable g N"
    using r c1 c2 by (rule_tac ccontr) (simp add: request_write_def Let_def wf(1))
  obtain j where j: "BlackholeJump N ?w n alignment g = Inr j"
    using r c1 c2 c3 by (cases "BlackholeJump N ?w n alignment g") (simp_all add: request_write_def Let_def wf(1))
  define skip where "skip = BUFFER_LEN N ?w j"
  have c4: "\<not> skip + alignment + n \<ge> min_writable g N"
    using r c1 c2 c3 j by (rule_tac ccontr) (simp add: request_write_def Let_def wf(1) skip_def)
  define g1 where "g1 = (if skip \<noteq> 0 then g\<lparr>productor := (productor g)\<lparr>u_offset := ADVANCE_OFFSET N ?w skip\<rparr>, jumpOverHole := True\<rparr> else g)"
  have g1: "PRODUCTOR_OFFSET g1 = (?w + skip) mod N"
    "g1 = g\<lparr>productor := (productor g)\<lparr>u_offset := PRODUCTOR_OFFSET g1\<rparr>, jumpOverHole := (skip \<noteq> 0 \<or> jumpOverHole g)\<rparr>"
    using wf(2) by (auto simp: g1_def ADVANCE_OFFSET_def)
  let ?v = "ADVANCE_OFFSET N (ALIGN (PRODUCTOR_OFFSET g1) alignment) 0"
  have "request_write n alignment pOut g h = (if alignment \<noteq> 0 \<and> abl = []
      then Inr (PAt ?v, None, g1, h\<lparr>m_lastAlignmentBytes := BUFFER_LEN N (PRODUCTOR_OFFSET g1) ?v, m_lastWriteBytes := n\<rparr>)
      else if bl = [] then Inr (PAt (PRODUCTOR_OFFSET g1), None, g1, h\<lparr>m_lastWriteBytes := n, m_lastAlignmentBytes := 0\<rparr>)
      else Inr (PError CRB_ERROR_SPACE, if pOut then Some bl else None, g1, h))"
    using c1 c2 c3 c4 j unfolding request_write_def Let_def wf(1) bl_def abl_def g1_def skip_def
    by (simp only: if_False if_True sum.case simp_thms)
  note c = this [unfolded r]
  have p1: "PRODUCTOR_OFFSET g1 < N" using g1(1) wf(2) by simp
  have "g' = g1 \<and> m_lastWriteBytes h' = n \<and> h' = h\<lparr>m_lastWriteBytes := n, m_lastAlignmentBytes := m_lastAlignmentBytes h'\<rparr>
    \<and> m_lastAlignmentBytes h' \<le> alignment \<and> p = (PRODUCTOR_OFFSET g1 + m_lastAlignmentBytes h') mod N"
  proof (cases "alignment \<noteq> 0 \<and> abl = []")
    case True
    then have a: "0 < alignment" "alignment dvd N" using wf(3) by simp_all
    have v: "?v < N" "ALIGN (PRODUCTOR_OFFSET g1) alignment \<le> N"
      using wf(2) ALIGN_le [OF a] p1 by (auto simp: ADVANCE_OFFSET_def)
    have "BUFFER_LEN N (PRODUCTOR_OFFSET g1) ?v \<le> alignment"
      using ALIGN_bounds [OF a(1), of "PRODUCTOR_OFFSET g1"] v(2) p1
      by (auto simp: BUFFER_LEN_if ADVANCE_OFFSET_def mod_once)
    then show ?thesis using c True advance_BUFFER_LEN [OF p1 v(1)] by auto
  next
    case False
    then show ?thesis using c p1 by (auto split: if_splits)
  qed
  then show ?thesis unfolding granted_def using g1 j c1 c4 by (intro exI [of _ skip] exI [of _ j]) (auto simp: skip_def)
qed

text \<open>The unread data of a consumer.\<close>

definition unread :: "nat \<Rightarrow> RingBufInfo \<Rightarrow> nat \<Rightarrow> nat set" where
  "unread N g i = region N (u_offset (consumers g ! i)) (GetReadableSize N (u_offset (consumers g ! i)) (PRODUCTOR_OFFSET g))"

lemma granted_spares_unread:
  assumes g: "granted N p n alignment g h g' h'" and wf: "PRODUCTOR_OFFSET g < N" "i \<in> set (valid_consumers g)"
    "u_offset (consumers g ! i) < N"
  shows "region N p n \<inter> unread N g' i = {}"
proof -
  let ?w = "PRODUCTOR_OFFSET g" and ?r = "u_offset (consumers g ! i)"
  define w' where "w' = PRODUCTOR_OFFSET g'"
  define k where "k = m_lastAlignmentBytes h'"
  obtain skip where s: "skip + alignment + n < min_writable g N" "w' = (?w + skip) mod N" "k \<le> alignment" "p = (w' + k) mod N"
    and g': "g' = g\<lparr>productor := (productor g)\<lparr>u_offset := w'\<rparr>, jumpOverHole := (skip \<noteq> 0 \<or> jumpOverHole g)\<rparr>"
    using g unfolding granted_def w'_def k_def by blast
  have "min_writable g N \<le> N" "min_writable g N \<le> writable_of g N i" using min_writable_le wf(2) by blast+
  then have m: "skip + k + n < N" "skip + k + n < writable_of g N i" using s(1,3) by simp_all
  have cons: "consumers g' = consumers g" by (simp add: g')
  have w': "w' < N" using s(2) wf(1) by simp
  show ?thesis
  proof (cases "?r = w'")
    case True
    then show ?thesis by (simp add: unread_def cons w'_def [symmetric] GetReadableSize_def region_def)
  next
    case False
    define d where "d = BUFFER_LEN N w' ?r"
    have d: "d < N" "?r = (w' + d) mod N" using w' wf(3) by (simp_all add: d_def BUFFER_LEN_less advance_BUFFER_LEN)
    have rd: "BUFFER_LEN N ?r w' = N - d" using False w' wf(3) by (auto simp: d_def BUFFER_LEN_if)
    have "k + n \<le> d"
    proof (cases "?r = ?w")
      case True
      have "skip < N" using m(1) by simp
      moreover have "skip \<noteq> 0" using True wf(1) s(2) \<open>?r \<noteq> w'\<close> by (cases "skip = 0") auto
      ultimately have "d = N - skip" using True wf(1) unfolding d_def s(2) by (auto simp: BUFFER_LEN_if mod_once)
      then show ?thesis using m(1) by simp
    next
      case False
      then have "skip + k + n < BUFFER_LEN N ?w ?r" using m(2) by (simp add: writable_of_def GetWritableSize_def)
      then have "d = BUFFER_LEN N ?w ?r - skip"
        using wf(1,3) m(1) unfolding d_def s(2) by (auto simp: BUFFER_LEN_if mod_once split: if_splits)
      then show ?thesis using \<open>skip + k + n < BUFFER_LEN N ?w ?r\<close> by simp
    qed
    then have "region N p n \<inter> region N ?r (N - d) = {}"
      using regions_disjoint [OF w', of k n d "N - d"] m(1) d by (simp add: s(4))
    moreover have "unread N g' i = region N ?r (N - d)"
      using False by (simp add: unread_def cons w'_def [symmetric] GetReadableSize_def rd)
    ultimately show ?thesis by simp
  qed
qed


section \<open>Black holes\<close>

text \<open>A hole as an interval of distances from an offset \<open>w\<close>.\<close>

definition hole_at :: "nat \<Rightarrow> nat \<Rightarrow> BlackHole \<Rightarrow> nat" where
  "hole_at N w h = BUFFER_LEN N w (startOffset h)"

definition hole_len :: "nat \<Rightarrow> BlackHole \<Rightarrow> nat" where
  "hole_len N h = BUFFER_LEN N (startOffset h) (endOffset h)"

text \<open>No hole reaches up to \<open>w\<close> or over it.\<close>

definition behind :: "nat \<Rightarrow> nat \<Rightarrow> BlackHole \<Rightarrow> bool" where
  "behind N w h \<longleftrightarrow> hole_at N w h + hole_len N h < N"

lemma hole_positions:
  assumes "w < N" "hole_wf N h" "behind N w h"
  shows "startOffset h = (w + hole_at N w h) mod N" "endOffset h = (w + (hole_at N w h + hole_len N h)) mod N"
    "BUFFER_LEN N w (endOffset h) = hole_at N w h + hole_len N h"
proof -
  have s: "startOffset h < N" "endOffset h < N" using assms(2) by (simp_all add: hole_wf_def)
  show 1: "startOffset h = (w + hole_at N w h) mod N" using s assms(1) by (simp add: hole_at_def advance_BUFFER_LEN)
  have "endOffset h = (startOffset h + hole_len N h) mod N" using s by (simp add: hole_len_def advance_BUFFER_LEN)
  then show 2: "endOffset h = (w + (hole_at N w h + hole_len N h)) mod N"
    unfolding 1 by (simp add: mod_add_left_eq add.assoc)
  show "BUFFER_LEN N w (endOffset h) = hole_at N w h + hole_len N h"
    unfolding 2 using assms(1,3) by (intro BUFFER_LEN_advance) (simp_all add: behind_def)
qed

text \<open>Lengths between two points at known distances.\<close>

lemma BUFFER_LEN_between:
  assumes "w < N" "a \<le> b" "b < N"
  shows "BUFFER_LEN N ((w + a) mod N) ((w + b) mod N) = b - a"
  using assms by (auto simp: BUFFER_LEN_if mod_once)

text \<open>The merged list, newest first: apart, in order, and covering what was merged into it.\<close>

definition covers :: "nat \<Rightarrow> nat \<Rightarrow> BlackHole list \<Rightarrow> BlackHole \<Rightarrow> bool" where
  "covers N w ms h \<longleftrightarrow> (\<exists>m \<in> set ms. hole_at N w m \<le> hole_at N w h
     \<and> hole_at N w h + hole_len N h \<le> hole_at N w m + hole_len N m)"

definition merged :: "nat \<Rightarrow> nat \<Rightarrow> BlackHole list \<Rightarrow> bool" where
  "merged N w acc \<longleftrightarrow> (\<forall>m \<in> set acc. hole_wf N m \<and> behind N w m)
     \<and> sorted_wrt (\<lambda>b a. hole_at N w a + hole_len N a < hole_at N w b) acc"

lemma merge_step:
  assumes w: "w < N" and m: "merged N w (l # acc)" and h: "hole_wf N h" "behind N w h" "hole_at N w l \<le> hole_at N w h"
    and len: "lastLen = BUFFER_LEN N (startOffset l) (endOffset l)"
    and dist: "d = BUFFER_LEN N (startOffset l) (startOffset h)"
    and new: "new = BUFFER_LEN N (startOffset l) (endOffset h)"
    and l': "l' = (if new \<ge> lastLen then l\<lparr>endOffset := ADVANCE_OFFSET N (startOffset l) new\<rparr> else l)"
  shows "d \<le> lastLen \<Longrightarrow> merged N w (l' # acc) \<and> hole_at N w l' = hole_at N w l \<and> startOffset l' = startOffset l
      \<and> covers N w (l' # acc) h \<and> (\<forall>x. covers N w (l # acc) x \<longrightarrow> covers N w (l' # acc) x)"
    and "\<not> d \<le> lastLen \<Longrightarrow> merged N w (h # l # acc)"
proof -
  have lw: "hole_wf N l" "behind N w l" using m by (simp_all add: merged_def)
  note pl = hole_positions [OF w lw] and ph = hole_positions [OF w h(1,2)]
  have d: "d = hole_at N w h - hole_at N w l"
    unfolding dist pl(1) ph(1) by (rule BUFFER_LEN_between [OF w h(3)]) (use h(2) in \<open>simp add: behind_def\<close>)
  have nw: "new = hole_at N w h + hole_len N h - hole_at N w l"
    unfolding new pl(1) ph(2) by (rule BUFFER_LEN_between [OF w]) (use h(2,3) in \<open>simp_all add: behind_def\<close>)
  have ll: "lastLen = hole_len N l" by (simp add: len hole_len_def)
  show "\<not> d \<le> lastLen \<Longrightarrow> merged N w (h # l # acc)"
    using m h unfolding merged_def d ll by (auto simp: hole_at_def [symmetric])
  assume dl: "d \<le> lastLen"
  have at: "hole_at N w l' = hole_at N w l" "startOffset l' = startOffset l" by (simp_all add: l' hole_at_def)
  have ln: "hole_len N l' = max (hole_len N l) new"
  proof (cases "new \<ge> lastLen")
    case True
    have "startOffset l < N" "new < N" using lw(1) h(2) nw by (simp_all add: hole_wf_def behind_def)
    then have "hole_len N l' = new" using True BUFFER_LEN_advance by (simp add: l' hole_len_def ADVANCE_OFFSET_def)
    then show ?thesis using True ll by simp
  qed (simp add: l' ll)
  have wf': "hole_wf N l'" using lw(1) w by (simp add: l' hole_wf_def ADVANCE_OFFSET_def)
  have b': "behind N w l'" using lw(2) h(2,3) unfolding behind_def at(1) ln nw by linarith
  have "merged N w (l' # acc)" using m wf' b' unfolding merged_def by (simp add: at(1))
  moreover have "covers N w (l' # acc) h" unfolding covers_def using h(3) ln nw dl d ll by (auto simp: at(1))
  moreover have "covers N w (l' # acc) x" if "covers N w (l # acc) x" for x
    using that unfolding covers_def by (auto simp: at(1) ln)
  ultimately show "merged N w (l' # acc) \<and> hole_at N w l' = hole_at N w l \<and> startOffset l' = startOffset l
      \<and> covers N w (l' # acc) h \<and> (\<forall>x. covers N w (l # acc) x \<longrightarrow> covers N w (l' # acc) x)" using at by blast
qed

definition top_at :: "nat \<Rightarrow> nat \<Rightarrow> BlackHole list \<Rightarrow> nat" where
  "top_at N w acc = (case acc of [] \<Rightarrow> 0 | l # _ \<Rightarrow> hole_at N w l)"

definition top_start :: "BlackHole list \<Rightarrow> nat" where
  "top_start acc = (case acc of [] \<Rightarrow> 0 | l # _ \<Rightarrow> startOffset l)"

lemma merge_loop_spec:
  assumes "w < N" "merged N w acc" "\<forall>h \<in> set hs. hole_wf N h \<and> behind N w h \<and> hole_at N w h \<le> b"
    "sorted (map (hole_at N w) hs)" "\<forall>h \<in> set hs. top_at N w acc \<le> hole_at N w h" "top_at N w acc \<le> b"
    "chk \<Longrightarrow> sorted (map startOffset hs) \<and> (\<forall>h \<in> set hs. top_start acc \<le> startOffset h)"
  shows "\<exists>acc'. merge_loop N chk acc hs = Inr acc' \<and> merged N w acc' \<and> (\<forall>h \<in> set hs. covers N w acc' h)
    \<and> (\<forall>x. covers N w acc x \<longrightarrow> covers N w acc' x) \<and> top_at N w acc' \<le> b"
  using assms(2-)
proof (induction hs arbitrary: acc)
  case Nil
  then show ?case by simp
next
  case (Cons h hs)
  have "\<exists>acc1. merge_loop N chk acc (h # hs) = merge_loop N chk acc1 hs \<and> merged N w acc1 \<and> covers N w acc1 h
      \<and> (\<forall>x. covers N w acc x \<longrightarrow> covers N w acc1 x) \<and> top_at N w acc1 \<le> hole_at N w h \<and> (chk \<longrightarrow> top_start acc1 \<le> startOffset h)"
  proof (cases acc)
    case Nil
    then show ?thesis using Cons.prems(2) by (intro exI [of _ "[h]"]) (simp add: merged_def covers_def top_at_def top_start_def)
  next
    case l: (Cons l rest)
    have h: "hole_wf N h" "behind N w h" "hole_at N w l \<le> hole_at N w h" using Cons.prems l by (simp_all add: top_at_def)
    have a: "chk \<longrightarrow> startOffset l \<le> startOffset h" using Cons.prems(6) l by (simp add: top_start_def)
    define lastLen where "lastLen = BUFFER_LEN N (startOffset l) (endOffset l)"
    define d where "d = BUFFER_LEN N (startOffset l) (startOffset h)"
    define new where "new = BUFFER_LEN N (startOffset l) (endOffset h)"
    define l' where "l' = (if new \<ge> lastLen then l\<lparr>endOffset := ADVANCE_OFFSET N (startOffset l) new\<rparr> else l)"
    note st = merge_step [OF assms(1) Cons.prems(1) [unfolded l] h lastLen_def d_def new_def l'_def]
    have e: "merge_loop N chk acc (h # hs) = merge_loop N chk (if d \<le> lastLen then l' # rest else h # l # rest) hs"
      using a by (cases chk) (simp_all add: l Let_def lastLen_def [symmetric] d_def [symmetric] new_def [symmetric] l'_def [symmetric])
    show ?thesis
    proof (cases "d \<le> lastLen")
      case True
      with st(1) have "merged N w (l' # rest)" "covers N w (l' # rest) h" "\<forall>x. covers N w acc x \<longrightarrow> covers N w (l' # rest) x"
        "top_at N w (l' # rest) \<le> hole_at N w h" "chk \<longrightarrow> top_start (l' # rest) \<le> startOffset h"
        using h a by (simp_all add: top_at_def top_start_def l)
      then show ?thesis using e True by (intro exI [of _ "l' # rest"]) simp
    next
      case False
      with st(2) have "merged N w (h # l # rest)" by simp
      moreover have "covers N w (h # l # rest) h" by (simp add: covers_def)
      moreover have "covers N w acc x \<Longrightarrow> covers N w (h # l # rest) x" for x unfolding l by (auto simp: covers_def)
      ultimately show ?thesis using e False by (intro exI [of _ "h # l # rest"]) (simp add: top_at_def top_start_def)
    qed
  qed
  then obtain acc1 where 1: "merge_loop N chk acc (h # hs) = merge_loop N chk acc1 hs" "merged N w acc1" "covers N w acc1 h"
      "\<forall>x. covers N w acc x \<longrightarrow> covers N w acc1 x" "top_at N w acc1 \<le> hole_at N w h" "chk \<longrightarrow> top_start acc1 \<le> startOffset h" by blast
  have s: "\<forall>x \<in> set hs. hole_at N w h \<le> hole_at N w x" "sorted (map (hole_at N w) hs)" using Cons.prems(3) by simp_all
  have "\<exists>acc'. merge_loop N chk acc1 hs = Inr acc' \<and> merged N w acc' \<and> (\<forall>h \<in> set hs. covers N w acc' h)
    \<and> (\<forall>x. covers N w acc1 x \<longrightarrow> covers N w acc' x) \<and> top_at N w acc' \<le> b"
  proof (rule Cons.IH [OF 1(2)])
    show "\<forall>h \<in> set hs. hole_wf N h \<and> behind N w h \<and> hole_at N w h \<le> b" using Cons.prems(2) by simp
    show "\<forall>h \<in> set hs. top_at N w acc1 \<le> hole_at N w h" using s 1(5) by fastforce
    show "top_at N w acc1 \<le> b" using 1(5) Cons.prems(2) by fastforce
    show "chk \<Longrightarrow> sorted (map startOffset hs) \<and> (\<forall>h \<in> set hs. top_start acc1 \<le> startOffset h)"
      using Cons.prems(6) 1(6) by fastforce
  qed (rule s(2))
  then show ?case using 1(1,3,4) by auto
qed

text \<open>The two passes together.\<close>

lemma nearest_hole_split:
  assumes "sorted (map startOffset hs)"
  shows "\<forall>h \<in> set (take (nearest_hole w hs) hs). startOffset h < w" "\<forall>h \<in> set (drop (nearest_hole w hs) hs). w \<le> startOffset h"
    "nearest_hole w hs \<le> length hs"
  using assms by (induction hs) auto

lemma hole_at_sorted:
  assumes "w < N" "sorted (map startOffset hs)" "\<forall>h \<in> set hs. hole_wf N h" "(\<forall>h \<in> set hs. startOffset h < w) \<or> (\<forall>h \<in> set hs. w \<le> startOffset h)"
  shows "sorted (map (hole_at N w) hs)"
  using assms(2-4) by (induction hs) (use assms(1) in \<open>auto simp: hole_at_def BUFFER_LEN_if hole_wf_def\<close>)

lemma BlackHoleSortMerge_spec:
  assumes w: "w < N" and s: "sorted (map startOffset hs)" and wf: "\<forall>h \<in> set hs. hole_wf N h \<and> behind N w h"
  shows "\<exists>ms. BlackHoleSortMerge N w hs = Inr (rev ms) \<and> merged N w ms \<and> (\<forall>h \<in> set hs. covers N w ms h)"
proof -
  define n where "n = nearest_hole w hs"
  note sp = nearest_hole_split [OF s, of w, folded n_def]
  have empty: "merged N w []" "top_at N w [] = 0" "top_start [] = 0" by (simp_all add: merged_def top_at_def top_start_def)
  have le: "hole_at N w h \<le> N" for h using w BUFFER_LEN_less [of N] by (simp add: hole_at_def less_imp_le)
  show ?thesis
  proof (cases "n = 0 \<or> n = length hs")
    case True
    then have "(\<forall>h \<in> set hs. startOffset h < w) \<or> (\<forall>h \<in> set hs. w \<le> startOffset h)" using sp(1,2) by auto
    with hole_at_sorted [OF w s] wf have "sorted (map (hole_at N w) hs)" by blast
    with merge_loop_spec [OF w empty(1), of hs N True] s wf le obtain ms where
      "merge_loop N True [] hs = Inr ms" "merged N w ms" "\<forall>h \<in> set hs. covers N w ms h" by (auto simp: empty)
    then show ?thesis using True by (auto simp: BlackHoleSortMerge_def n_def [symmetric] Let_def)
  next
    case False
    let ?a = "drop n hs" and ?b = "take n hs"
    have sub: "set ?a \<subseteq> set hs" "set ?b \<subseteq> set hs" "sorted (map startOffset ?a)" "sorted (map startOffset ?b)"
      using s by (auto dest: in_set_dropD in_set_takeD simp: drop_map [symmetric] take_map [symmetric] sorted_wrt_drop sorted_wrt_take)
    have ab: "sorted (map (hole_at N w) ?a)" "sorted (map (hole_at N w) ?b)"
      using hole_at_sorted [OF w sub(3)] hole_at_sorted [OF w sub(4)] wf sub(1,2) sp(1,2) by blast+
    define c where "c = N - w"
    have sep: "\<forall>h \<in> set ?a. hole_at N w h \<le> c" "\<forall>h \<in> set ?b. c \<le> hole_at N w h"
    proof -
      show "\<forall>h \<in> set ?a. hole_at N w h \<le> c"
      proof
        fix h assume h: "h \<in> set ?a"
        then have "startOffset h < N" "w \<le> startOffset h" using wf sub(1) sp(2) by (auto simp: hole_wf_def)
        then show "hole_at N w h \<le> c" using w by (simp add: hole_at_def c_def BUFFER_LEN_if)
      qed
      show "\<forall>h \<in> set ?b. c \<le> hole_at N w h"
      proof
        fix h assume h: "h \<in> set ?b"
        then have "startOffset h < N" "startOffset h < w" using wf sub(2) sp(1) by (auto simp: hole_wf_def)
        then show "c \<le> hole_at N w h" using w by (simp add: hole_at_def c_def BUFFER_LEN_if)
      qed
    qed
    have wa: "\<forall>h \<in> set ?a. hole_wf N h \<and> behind N w h \<and> hole_at N w h \<le> c" using wf sub(1) sep(1) by blast
    have wb: "\<forall>h \<in> set ?b. hole_wf N h \<and> behind N w h \<and> hole_at N w h \<le> N" using wf sub(2) le by blast
    from merge_loop_spec [OF w empty(1) wa ab(1), of True] sub(3) obtain m1 where
      m1: "merge_loop N True [] ?a = Inr m1" "merged N w m1" "\<forall>h \<in> set ?a. covers N w m1 h" "top_at N w m1 \<le> c"
      by (auto simp: empty)
    have "\<forall>h \<in> set ?b. top_at N w m1 \<le> hole_at N w h" using m1(4) sep(2) by fastforce
    moreover have "top_at N w m1 \<le> N" using m1(4) by (simp add: c_def)
    ultimately obtain ms where ms: "merge_loop N False m1 ?b = Inr ms" "merged N w ms" "\<forall>h \<in> set ?b. covers N w ms h"
        "\<forall>x. covers N w m1 x \<longrightarrow> covers N w ms x"
      using merge_loop_spec [OF w m1(2) wb ab(2), of False] by auto
    have "h \<in> set ?a \<or> h \<in> set ?b" if "h \<in> set hs" for h
      using that append_take_drop_id [of n hs] by (metis Un_iff set_append)
    then have "\<forall>h \<in> set hs. covers N w ms h" using ms(3,4) m1(3) by blast
    then show ?thesis using False m1(1) ms(1,2) by (auto simp: BlackHoleSortMerge_def n_def [symmetric] Let_def)
  qed
qed


text \<open>The jump ends in front of all holes it has not passed, when the data fits the ring.\<close>

lemma jump_clear_before:
  assumes w: "w < N" and h: "hole_wf N h" "behind N w h" and J: "J \<le> hole_at N w h" "J + D < N" "0 < D"
    and c: "jump_clear ((w + J) mod N) ((w + J + D) mod N) h"
  shows "J + D \<le> hole_at N w h"
proof (rule ccontr)
  assume n: "\<not> J + D \<le> hole_at N w h"
  define s where "s = hole_at N w h"
  define l where "l = hole_len N h"
  have p: "startOffset h = (w + s) mod N" "endOffset h = (w + (s + l)) mod N" "s + l < N" "J \<le> s" "s < J + D"
    using hole_positions [OF w h] h(2) J(1) n by (simp_all add: s_def l_def behind_def)
  show False using c w J(2,3) p(3-5) unfolding jump_clear_def Let_def p(1,2) mod_once [of "w + J" N] mod_once [of "w + J + D" N]
    by (auto simp: mod_once split: if_splits)
qed

lemma jump_loop_spec:
  assumes w: "w < N" and D: "0 < n + alignment" and ms: "\<forall>m \<in> set ms. hole_wf N m \<and> behind N w m"
    "sorted_wrt (\<lambda>a b. hole_at N w a + hole_len N a < hole_at N w b) ms" "\<forall>m \<in> set ms. J \<le> hole_at N w m" "J < N"
  shows "\<exists>J'. jump_loop N n alignment ((w + J) mod N) ms = (w + J') mod N \<and> J \<le> J' \<and> J' < N
    \<and> (J' + (n + alignment) < N \<longrightarrow> (\<forall>m \<in> set ms. hole_at N w m + hole_len N m \<le> J' \<or> J' + (n + alignment) \<le> hole_at N w m))"
  using ms
proof (induction ms arbitrary: J)
  case Nil
  then show ?case by (intro exI [of _ J]) simp
next
  case (Cons m ms)
  have e: "ADVANCE_OFFSET2 N ((w + J) mod N) n alignment = (w + J + (n + alignment)) mod N"
    by (simp add: ADVANCE_OFFSET2_def mod_add_left_eq add.assoc)
  have m: "hole_wf N m" "behind N w m" "J \<le> hole_at N w m" using Cons.prems by simp_all
  show ?case
  proof (cases "jump_clear ((w + J) mod N) (ADVANCE_OFFSET2 N ((w + J) mod N) n alignment) m")
    case True
    have "J + (n + alignment) \<le> hole_at N w x" if "J + (n + alignment) < N" "x \<in> set (m # ms)" for x
    proof -
      have "J + (n + alignment) \<le> hole_at N w m"
        using jump_clear_before [OF w m that(1) D] True unfolding e by simp
      then show ?thesis using that(2) Cons.prems(2) by fastforce
    qed
    then show ?thesis using True Cons.prems(4) by (intro exI [of _ J]) auto
  next
    case False
    let ?K = "hole_at N w m + hole_len N m"
    have K: "?K < N" "endOffset m = (w + ?K) mod N" using m(2) hole_positions(2) [OF w m(1,2)] by (simp_all add: behind_def)
    have "\<forall>x \<in> set ms. ?K \<le> hole_at N w x" using Cons.prems(2) by (auto simp: less_imp_le)
    with Cons.IH [of ?K] Cons.prems K(1) obtain J' where J': "jump_loop N n alignment ((w + ?K) mod N) ms = (w + J') mod N"
      "?K \<le> J'" "J' < N"
      "J' + (n + alignment) < N \<longrightarrow> (\<forall>m \<in> set ms. hole_at N w m + hole_len N m \<le> J' \<or> J' + (n + alignment) \<le> hole_at N w m)"
      by auto
    then show ?thesis using False m(3) K(2) by (intro exI [of _ J']) auto
  qed
qed

lemma BlackholeJump_spec:
  assumes w: "w < N" and D: "0 < n + alignment" and s: "sorted (map startOffset (holes g))"
    and wf: "\<forall>h \<in> set (holes g). hole_wf N h \<and> behind N w h"
  shows "\<exists>J. BlackholeJump N w n alignment g = Inr ((w + J) mod N) \<and> J < N
    \<and> (J + (n + alignment) < N \<longrightarrow> (\<forall>h \<in> set (holes g). hole_at N w h + hole_len N h \<le> J \<or> J + (n + alignment) \<le> hole_at N w h))"
proof (cases "holes g = []")
  case True
  then show ?thesis using w by (intro exI [of _ 0]) (simp add: BlackholeJump_def)
next
  case False
  obtain ms where ms: "BlackHoleSortMerge N w (holes g) = Inr (rev ms)" "merged N w ms" "\<forall>h \<in> set (holes g). covers N w ms h"
    using BlackHoleSortMerge_spec [OF w s wf] by blast
  have m: "\<forall>m \<in> set (rev ms). hole_wf N m \<and> behind N w m" "sorted_wrt (\<lambda>a b. hole_at N w a + hole_len N a < hole_at N w b) (rev ms)"
    using ms(2) by (simp_all add: merged_def sorted_wrt_rev)
  obtain J where J: "jump_loop N n alignment ((w + 0) mod N) (rev ms) = (w + J) mod N" "J < N"
    "J + (n + alignment) < N \<longrightarrow> (\<forall>m \<in> set (rev ms). hole_at N w m + hole_len N m \<le> J \<or> J + (n + alignment) \<le> hole_at N w m)"
    using jump_loop_spec [OF w D m, of 0] w by auto
  have "hole_at N w h + hole_len N h \<le> J \<or> J + (n + alignment) \<le> hole_at N w h"
    if "J + (n + alignment) < N" "h \<in> set (holes g)" for h
  proof -
    obtain m where "m \<in> set ms" "hole_at N w m \<le> hole_at N w h" "hole_at N w h + hole_len N h \<le> hole_at N w m + hole_len N m"
      using ms(3) \<open>h \<in> set (holes g)\<close> unfolding covers_def by blast
    moreover have "hole_at N w m + hole_len N m \<le> J \<or> J + (n + alignment) \<le> hole_at N w m"
      using J(3) that(1) \<open>m \<in> set ms\<close> by simp
    ultimately show ?thesis by linarith
  qed
  then show ?thesis using J(1,2) ms(1) False w by (intro exI [of _ J]) (simp add: BlackholeJump_def)
qed

text \<open>Granted room does not touch a hole, unless a hole reaches up to the producer's offset.\<close>

lemma granted_avoids_holes:
  assumes g: "granted N p n alignment g h g' h'" and w: "PRODUCTOR_OFFSET g < N"
    and s: "sorted (map startOffset (holes g))" and wf: "\<forall>x \<in> set (holes g). hole_wf N x \<and> behind N (PRODUCTOR_OFFSET g) x"
    and x: "x \<in> set (holes g)"
  shows "region N p n \<inter> region N (startOffset x) (hole_len N x) = {}"
proof -
  let ?w = "PRODUCTOR_OFFSET g"
  obtain skip j where j: "BlackholeJump N ?w n alignment g = Inr j" "skip = BUFFER_LEN N ?w j" "0 < n"
      "skip + alignment + n < min_writable g N" "PRODUCTOR_OFFSET g' = (?w + skip) mod N" "m_lastAlignmentBytes h' \<le> alignment"
      "p = (PRODUCTOR_OFFSET g' + m_lastAlignmentBytes h') mod N"
    using g unfolding granted_def by blast
  obtain J where J: "j = (?w + J) mod N" "J < N"
    "J + (n + alignment) < N \<longrightarrow> (\<forall>h \<in> set (holes g). hole_at N ?w h + hole_len N h \<le> J \<or> J + (n + alignment) \<le> hole_at N ?w h)"
    using BlackholeJump_spec [OF w _ s wf, of n alignment] j(1,3) by auto
  have k: "skip = J" unfolding j(2) J(1) by (rule BUFFER_LEN_advance [OF w J(2)])
  have f: "J + (n + alignment) < N" using j(4) k min_writable_le(1) [of g N] by simp
  have p: "p = (?w + (J + m_lastAlignmentBytes h')) mod N" unfolding j(7,5) k by (simp add: mod_add_left_eq add.assoc)
  have b: "behind N ?w x" "startOffset x = (?w + hole_at N ?w x) mod N" using wf x hole_positions(1) [OF w] by blast+
  have "hole_at N ?w x + hole_len N x \<le> J \<or> J + (n + alignment) \<le> hole_at N ?w x" using J(3) f x by blast
  then show ?thesis unfolding p b(2) using f j(6) b(1) by (intro regions_disjoint [OF w]) (auto simp: behind_def)
qed

end
