(* ===== verification/Crb_Inv.thy ===== *)
theory Crb_Inv
  imports Crb_Safe Machine
begin

text \<open>
  Every operation on the ring keeps headers and objects well formed, the holes sorted, and so do
  all processes together: the locale \<open>machine\<close> on the header and the objects of all of them.
\<close>

section \<open>The invariant and the small operations\<close>

definition crb_inv :: "nat \<Rightarrow> RingBufInfo \<Rightarrow> bool" where
  "crb_inv N g \<longleftrightarrow> crb_wf N g \<and> sorted (map startOffset (holes g)) \<and> list_all (\<lambda>h. 0 < createTime h) (holes g)"

named_theorems crb_keep \<open>operations that keep the invariant of the ring\<close>

lemma crb_inv_consumer: "crb_inv N g \<Longrightarrow> i < MAX_CONSUMER_NUM \<Longrightarrow> user_wf N (consumers g ! i)"
  by (simp add: crb_inv_def crb_wf_def list_all_length)

lemma crb_inv_productor: "crb_inv N g \<Longrightarrow> user_wf N (productor g)"
  by (simp add: crb_inv_def crb_wf_def)

lemma crb_inv_frame: "crb_inv N g \<Longrightarrow> i < MAX_FRAME_NUM \<Longrightarrow> frame_wf N (frameIdx g ! i)"
  by (simp add: crb_inv_def crb_wf_def list_all_length)

lemma crb_inv_pos: "crb_inv N g \<Longrightarrow> 0 < N"
  by (simp add: crb_inv_def crb_wf_def)

lemma user_wf_upd [simp]:
  "user_wf N (upd_acct f u) \<longleftrightarrow> user_wf N u"
  "user_wf N (u\<lparr>readTimeOut := t\<rparr>) \<longleftrightarrow> user_wf N u"
  "user_wf N (u\<lparr>movedByProductor := b\<rparr>) \<longleftrightarrow> user_wf N u"
  "user_wf N (u\<lparr>waitIFrame := b\<rparr>) \<longleftrightarrow> user_wf N u"
  "user_wf N (u\<lparr>requestUptime := up\<rparr>) \<longleftrightarrow> user_wf N u"
  "user_wf N (u\<lparr>u_name := nm\<rparr>) \<longleftrightarrow> user_wf N u"
  "user_wf N (u\<lparr>u_personality := p\<rparr>) \<longleftrightarrow> user_wf N u"
  by (simp_all add: user_wf_def upd_acct_def)

lemma user_zero_wf: "0 < N \<Longrightarrow> user_wf N user_zero"
  by (simp add: user_wf_def user_zero_def MAX_FRAME_NUM_def)

lemma upd_consumer_inv:
  assumes "crb_inv N g" "i < MAX_CONSUMER_NUM \<Longrightarrow> user_wf N (f (consumers g ! i))"
  shows "crb_inv N (upd_consumer i f g)"
proof -
  have l: "length (consumers g) = MAX_CONSUMER_NUM" using assms(1) by (simp add: crb_inv_def crb_wf_def)
  have "list_all (user_wf N) ((consumers g)[i := f (consumers g ! i)])"
  proof (cases "i < MAX_CONSUMER_NUM")
    case True
    then show ?thesis using assms l set_update_subset_insert [of "consumers g" i "f (consumers g ! i)"]
      by (auto simp: crb_inv_def crb_wf_def list_all_iff)
  next
    case False
    then show ?thesis using assms(1) l by (simp add: crb_inv_def crb_wf_def list_update_beyond)
  qed
  then show ?thesis using assms(1) by (simp add: crb_inv_def crb_wf_def upd_consumer_def)
qed

lemma upd_consumer_same [simp]:
  "holes (upd_consumer i f g) = holes g" "productor (upd_consumer i f g) = productor g" "frameIdx (upd_consumer i f g) = frameIdx g"
  "dataWriten (upd_consumer i f g) = dataWriten g" "length (consumers (upd_consumer i f g)) = length (consumers g)"
  by (simp_all add: upd_consumer_def)

lemma upd_acct_inv [crb_keep]: "crb_inv N g \<Longrightarrow> crb_inv N (upd_consumer i (upd_acct f) g)"
  by (rule upd_consumer_inv) (auto dest: crb_inv_consumer)

lemma ClearConsumerMoved_inv [crb_keep]: "crb_inv N g \<Longrightarrow> crb_inv N (ClearConsumerMoved i g)"
  unfolding ClearConsumerMoved_def by (rule upd_consumer_inv) (auto dest: crb_inv_consumer)

lemma SetConsumerMoved_inv [crb_keep]: "crb_inv N g \<Longrightarrow> crb_inv N (SetConsumerMoved i g)"
  unfolding SetConsumerMoved_def by (rule upd_consumer_inv) (auto dest: crb_inv_consumer)

lemma ClearConsumerTimeOut_inv [crb_keep]: "crb_inv N g \<Longrightarrow> crb_inv N (ClearConsumerTimeOut i g)"
proof -
  assume i: "crb_inv N g"
  have "crb_inv N (upd_consumer i (\<lambda>u. u\<lparr>readTimeOut := 0\<rparr>) g)"
    by (rule upd_consumer_inv [OF i]) (use crb_inv_consumer [OF i] in simp)
  then show ?thesis using i by (simp add: ClearConsumerTimeOut_def)
qed

lemma SetConsumerState_inv [crb_keep]:
  "crb_inv N g \<Longrightarrow> s \<in> {USER_FREE, USER_HOLDING_FRAME, USER_BLOCKED} \<Longrightarrow> crb_inv N (SetConsumerState i s g)"
  unfolding SetConsumerState_def by (rule upd_consumer_inv) (auto dest!: crb_inv_consumer simp: user_wf_def)

lemma SetConsumerRefIdx_inv [crb_keep]:
  "crb_inv N g \<Longrightarrow> a < MAX_FRAME_NUM \<Longrightarrow> b < MAX_FRAME_NUM \<Longrightarrow> crb_inv N (SetConsumerRefIdx i a b g)"
  unfolding SetConsumerRefIdx_def by (rule upd_consumer_inv) (auto dest!: crb_inv_consumer simp: user_wf_def)

lemma MoveConsumer_inv [crb_keep]:
  assumes "crb_inv N g" "x < MAX_FRAME_NUM" "off < N" shows "crb_inv N (MoveConsumer i x off b g)"
proof -
  have "crb_inv N (upd_consumer i (\<lambda>u. u\<lparr>u_index := x, u_offset := off\<rparr>) g)"
    by (rule upd_consumer_inv) (use assms in \<open>auto dest!: crb_inv_consumer simp: user_wf_def\<close>)
  then have "crb_inv N (SetConsumerRefIdx i x x (upd_consumer i (\<lambda>u. u\<lparr>u_index := x, u_offset := off\<rparr>) g))"
    using assms(2) by (intro SetConsumerRefIdx_inv)
  note i = this
  show ?thesis unfolding MoveConsumer_def by (rule upd_consumer_inv [OF i]) (use crb_inv_consumer [OF i] in simp)
qed

lemma upd_productor_inv [crb_keep]: "crb_inv N g \<Longrightarrow> user_wf N (f (productor g)) \<Longrightarrow> crb_inv N (upd_productor f g)"
  by (simp add: crb_inv_def crb_wf_def upd_productor_def)

lemma productor_fields_inv:
  "crb_inv N g \<Longrightarrow> crb_inv N (upd_productor (upd_acct f) g)"
  "crb_inv N g \<Longrightarrow> crb_inv N (upd_productor (\<lambda>u. u\<lparr>requestUptime := t\<rparr>) g)"
  by (auto intro!: upd_productor_inv dest: crb_inv_productor)

lemma info_fields_inv [crb_keep]:
  "crb_inv N g \<Longrightarrow> crb_inv N (g\<lparr>leftedBytes := l\<rparr>)" "crb_inv N g \<Longrightarrow> crb_inv N (g\<lparr>videoBuffer := b\<rparr>)"
  "crb_inv N g \<Longrightarrow> crb_inv N (g\<lparr>jumpOverHole := b\<rparr>)" "crb_inv N g \<Longrightarrow> crb_inv N (g\<lparr>dataWriten := b\<rparr>)"
  "crb_inv N g \<Longrightarrow> crb_inv N (g\<lparr>contiBytesWriten := n\<rparr>)" "crb_inv N g \<Longrightarrow> crb_inv N (g\<lparr>liveStream := b\<rparr>)"
  by (simp_all add: crb_inv_def crb_wf_def)

section \<open>Searches\<close>

lemma index_bounds [simp]: "ADVANCE_INDEX i n < MAX_FRAME_NUM" "STEPBACK_INDEX i n < MAX_FRAME_NUM"
  by (simp_all add: ADVANCE_INDEX_def STEPBACK_INDEX_def MAX_FRAME_NUM_def)

lemma find_forward_bound: "find_forward P e i = Some k \<Longrightarrow> k < MAX_FRAME_NUM \<and> P k"
  by (induction P e i rule: find_forward.induct) (subst (asm) (2) find_forward.simps, auto split: if_splits)

lemma find_backward_bound: "find_backward P e i = Some k \<Longrightarrow> k < MAX_FRAME_NUM \<and> P k"
  by (induction P e i rule: find_backward.induct) (subst (asm) (2) find_backward.simps, auto split: if_splits)

lemma IndexFindNextFrame_bound: "IndexFindNextFrame g w r type c = Inr (Some k) \<Longrightarrow> k < MAX_FRAME_NUM"
  by (auto simp: IndexFindNextFrame_def dest: find_forward_bound split: if_splits option.splits)

lemma IndexFindLatestFrame_bound: "IndexFindLatestFrame g w r type = Inr (Some k) \<Longrightarrow> k < MAX_FRAME_NUM"
  by (auto simp: IndexFindLatestFrame_def dest: find_backward_bound split: if_splits)

lemma time_loop_bound:
  "case time_loop g type t e c i of Inl k \<Rightarrow> k < MAX_FRAME_NUM | Inr k \<Rightarrow> c < MAX_FRAME_NUM \<longrightarrow> k < MAX_FRAME_NUM"
proof (induction g type t e c i rule: time_loop.induct)
  case (1 g type t e c i)
  show ?case
  proof (cases "MAX_FRAME_NUM \<le> e \<or> MAX_FRAME_NUM \<le> i \<or> i = e")
    case True
    then show ?thesis by (subst time_loop.simps) simp
  next
    case False
    define mt where "mt = (type = CRB_FRAME_ANY \<or> f_type (frameIdx g ! i) = type)"
    define tt where "tt = f_timeStamp (frameIdx g ! i)"
    show ?thesis
    proof (cases "mt \<and> tt \<noteq> 0 \<and> tt \<le> t")
      case True
      then have "time_loop g type t e c i = Inl i" using False by (subst time_loop.simps) (simp add: mt_def tt_def Let_def)
      then show ?thesis using False by simp
    next
      case n: False
      have "time_loop g type t e c i = time_loop g type t e (if mt then i else c) (STEPBACK_INDEX i 1)"
        using False n unfolding time_loop.simps [of g type t e c i] Let_def mt_def [symmetric] tt_def [symmetric] by auto
      moreover have "case time_loop g type t e (if mt then i else c) (STEPBACK_INDEX i 1) of Inl k \<Rightarrow> k < MAX_FRAME_NUM
          | Inr k \<Rightarrow> (if mt then i else c) < MAX_FRAME_NUM \<longrightarrow> k < MAX_FRAME_NUM"
        by (rule "1.IH" [OF False mt_def tt_def]) (use n in blast)
      ultimately show ?thesis using False by (auto split: sum.splits if_splits)
    qed
  qed
qed

lemma oldest_bound: "crb_inv N g \<Longrightarrow> FindOldesValidIndex g bs < MAX_FRAME_NUM"
  using crb_inv_productor [of N g] by (simp add: FindOldesValidIndex_def user_wf_def)

section \<open>Holes\<close>

lemma delete_loop_sublist:
  "set (holes (delete_loop P n g)) \<subseteq> set (holes g) \<and> length (holes (delete_loop P n g)) \<le> length (holes g)
    \<and> (sorted (map startOffset (holes g)) \<longrightarrow> sorted (map startOffset (holes (delete_loop P n g))))"
proof (induction n arbitrary: g)
  case (Suc n)
  let ?g = "if P (holes g ! n) then DeleteBlackHoleByIdx n g else g"
  have "set (holes ?g) \<subseteq> set (holes g)" "length (holes ?g) \<le> length (holes g)"
    by (auto simp: DeleteBlackHoleByIdx_def dest: in_set_takeD in_set_dropD)
  moreover have "sorted (map startOffset (holes g)) \<longrightarrow> sorted (map startOffset (holes ?g))"
  proof
    assume st: "sorted (map startOffset (holes g))"
    then have "sorted (map startOffset (take n (holes g) @ drop n (holes g)))" by simp
    then have "sorted (map startOffset (take n (holes g)) @ map startOffset (drop n (holes g)))" by (simp only: map_append)
    moreover have "drop (Suc n) (holes g) = tl (drop n (holes g))" by (simp add: drop_Suc tl_drop)
    ultimately show "sorted (map startOffset (holes ?g))"
      by (cases "drop n (holes g)") (auto simp: DeleteBlackHoleByIdx_def sorted_append st)
  qed
  ultimately show ?case using Suc [of ?g] by auto
qed simp

lemma delete_loop_frame: "\<exists>hs. delete_loop P n g = g\<lparr>holes := hs\<rparr>"
proof (induction n arbitrary: g)
  case 0
  show ?case by (intro exI [of _ "holes g"]) simp
next
  case (Suc n)
  let ?g = "if P (holes g ! n) then DeleteBlackHoleByIdx n g else g"
  obtain hs where "delete_loop P n ?g = ?g\<lparr>holes := hs\<rparr>" using Suc by blast
  then show ?case by (intro exI [of _ hs]) (simp add: DeleteBlackHoleByIdx_def)
qed

lemma delete_loop_inv: "crb_inv N g \<Longrightarrow> crb_inv N (delete_loop P n g)"
proof -
  assume i: "crb_inv N g"
  obtain hs where e: "delete_loop P n g = g\<lparr>holes := hs\<rparr>" using delete_loop_frame by blast
  then have h: "holes (delete_loop P n g) = hs" by simp
  note hs = delete_loop_sublist [of P n g, unfolded h]
  have "list_all (hole_wf N) hs" "list_all (\<lambda>h. 0 < createTime h) hs" "length hs \<le> MAX_CONSUMER_NUM" "sorted (map startOffset hs)"
    using hs i by (auto simp: crb_inv_def crb_wf_def list_all_iff)
  then show ?thesis unfolding e using i by (simp add: crb_inv_def crb_wf_def)
qed


lemma DeleteBlackHoleOwnedBy_inv [crb_keep]: "crb_inv N g \<Longrightarrow> crb_inv N (DeleteBlackHoleOwnedBy nm g)"
  by (simp add: DeleteBlackHoleOwnedBy_def delete_loop_inv)

lemma DeleteAgedBlackHole_inv [crb_keep]: "crb_inv N g \<Longrightarrow> crb_inv N (DeleteAgedBlackHole up g)"
  by (simp add: DeleteAgedBlackHole_def delete_loop_inv)

lemma delete_loop_same:
  "consumers (delete_loop P n g) = consumers g \<and> productor (delete_loop P n g) = productor g
    \<and> frameIdx (delete_loop P n g) = frameIdx g \<and> dataWriten (delete_loop P n g) = dataWriten g"
proof -
  obtain hs where "delete_loop P n g = g\<lparr>holes := hs\<rparr>" using delete_loop_frame by blast
  then show ?thesis by simp
qed

lemma delete_same [simp]:
  "consumers (DeleteBlackHoleOwnedBy nm g) = consumers g" "consumers (DeleteAgedBlackHole up g) = consumers g"
  "productor (DeleteBlackHoleOwnedBy nm g) = productor g" "productor (DeleteAgedBlackHole up g) = productor g"
  "frameIdx (DeleteBlackHoleOwnedBy nm g) = frameIdx g" "frameIdx (DeleteAgedBlackHole up g) = frameIdx g"
  "dataWriten (DeleteBlackHoleOwnedBy nm g) = dataWriten g"
  unfolding DeleteBlackHoleOwnedBy_def DeleteAgedBlackHole_def by (simp_all only: delete_loop_same)

lemma insert_pos_sorted:
  assumes "insert_pos nm s e hs = Some i" "sorted (map startOffset hs)" "list_all (\<lambda>h. 0 < createTime h) hs"
  shows "i \<le> length hs \<and> (\<forall>h \<in> set (take i hs). startOffset h \<le> s) \<and> (\<forall>h \<in> set (drop i hs). s \<le> startOffset h)"
  using assms by (induction hs arbitrary: i) (auto split: if_splits)

lemma InsertBlackHole_inv:
  assumes r: "InsertBlackHole up nm s e g = Inr (x, g')" and i: "crb_inv N g" "s < N" "e < N" "0 < up"
  shows "crb_inv N g'"
proof (cases "insert_pos nm s e (holes g)")
  case None
  then show ?thesis using r i(1) by (simp add: InsertBlackHole_def split: if_splits)
next
  case (Some k)
  have st: "sorted (map startOffset (holes g))" "list_all (\<lambda>h. 0 < createTime h) (holes g)" using i(1) by (simp_all add: crb_inv_def)
  note p = insert_pos_sorted [OF Some st]
  have "sorted (map startOffset (take k (holes g)) @ map startOffset (drop k (holes g)))"
    using st(1) by (simp add: map_append [symmetric] del: map_append)
  then have "sorted (map startOffset (take k (holes g) @ [\<lparr>startOffset = s, endOffset = e, createTime = up, blockerName = nm\<rparr>] @ drop k (holes g)))"
    using p by (fastforce simp: sorted_append)
  moreover have "list_all P (take k (holes g)) \<and> list_all P (drop k (holes g))" if "list_all P (holes g)" for P
    using that by (metis append_take_drop_id list_all_append)
  ultimately show ?thesis using r i Some
    by (auto simp: InsertBlackHole_def crb_inv_def crb_wf_def hole_wf_def split: if_splits)
qed

lemma InsertBlackHole_same:
  "InsertBlackHole up nm s e g = Inr (x, g') \<Longrightarrow> consumers g' = consumers g \<and> productor g' = productor g \<and> frameIdx g' = frameIdx g"
  by (auto simp: InsertBlackHole_def split: if_splits option.splits)

section \<open>The producer\<close>

lemma advance_offset_less [simp]: "0 < N \<Longrightarrow> ADVANCE_OFFSET N a b < N" "0 < N \<Longrightarrow> ADVANCE_OFFSET2 N a b c < N"
  by (simp_all add: ADVANCE_OFFSET_def ADVANCE_OFFSET2_def)

lemma move_blocker_inv:
  assumes r: "move_blocker up N c found g = Inr (f', g')" and i: "crb_inv N g" "c < MAX_CONSUMER_NUM" "0 < up"
  shows "crb_inv N g'"
proof -
  obtain r0 where r0: "IndexFindNextFrame g (PRODUCTOR_INDEX g) (ADVANCE_INDEX (u_index (consumers g ! c)) 1) CRB_FRAME_I_SLICE None = Inr r0"
    using r by (auto simp: move_blocker_def split: sum.splits)
  define none where "none = (r0 = None \<or> r0 = Some (u_index (consumers g ! c)))"
  define nx where "nx = (if none then STEPBACK_INDEX (PRODUCTOR_INDEX g) 1 else the r0)"
  define fd where "fd = (if none then found else True)"
  have nx: "nx < MAX_FRAME_NUM" using IndexFindNextFrame_bound r0 by (cases r0) (auto simp: nx_def none_def)
  have off: "f_offset (frameIdx g ! nx) < N" using crb_inv_frame [OF i(1) nx] by (simp add: frame_wf_def)
  define u where "u = consumers g ! c"
  have u: "user_wf N u" using crb_inv_consumer [OF i(1,2)] by (simp add: u_def)
  have ref: "f_offset (frameIdx g ! refIdxStart u) < N" using crb_inv_frame [OF i(1)] u by (simp add: frame_wf_def user_wf_def)
  note eq = r [unfolded move_blocker_def r0 sum.case Let_def, folded none_def, folded nx_def fd_def u_def]
  have mv: "crb_inv N (MoveConsumer c nx (f_offset (frameIdx g ! nx)) (\<not> fd) g)" by (rule MoveConsumer_inv [OF i(1) nx off])
  consider "GetConsumerState g c = USER_FREE" | "GetConsumerState g c = USER_BLOCKED" | "GetConsumerState g c = USER_HOLDING_FRAME"
    using u by (auto simp: user_wf_def GetConsumerState_def u_def)
  then show ?thesis
  proof cases
    case 1
    then show ?thesis using eq mv by auto
  next
    case 2
    then show ?thesis using eq mv by (auto simp: USER_FREE_def USER_BLOCKED_def intro: SetConsumerMoved_inv)
  next
    case 3
    then obtain x g1 where g1: "InsertBlackHole up (u_name u) (f_offset (frameIdx g ! refIdxStart u))
        (ADVANCE_OFFSET N (f_offset (frameIdx g ! refIdxEnd u)) (f_length (frameIdx g ! refIdxEnd u))) g = Inr (x, g1)"
      and g': "g' = SetConsumerState c USER_BLOCKED (SetConsumerMoved c (MoveConsumer c nx (f_offset (frameIdx g ! nx)) (\<not> fd) g1))"
      using eq by (auto simp: USER_FREE_def USER_BLOCKED_def USER_HOLDING_FRAME_def split: sum.splits)
    have "crb_inv N g1" using InsertBlackHole_inv [OF g1 i(1) ref _ i(3)] crb_inv_pos [OF i(1)] by simp
    then show ?thesis unfolding g' using nx off by (intro crb_keep) simp_all
  qed
qed

lemma move_loop_inv:
  "move_loop up N cs found g = Inr g' \<Longrightarrow> crb_inv N g \<Longrightarrow> \<forall>c \<in> set cs. c < MAX_CONSUMER_NUM \<Longrightarrow> 0 < up \<Longrightarrow> crb_inv N g'"
  by (induction cs arbitrary: found g) (auto split: sum.splits dest: move_blocker_inv)

lemma blockers_bound:
  "c \<in> set (IndexFindBlocker g) \<Longrightarrow> c < MAX_CONSUMER_NUM" "c \<in> set (valid_consumers g) \<Longrightarrow> c < MAX_CONSUMER_NUM"
  by (auto simp: IndexFindBlocker_def valid_consumers_def)

lemma request_write_blockers:
  "request_write n al pOut g h = Inr (p, Some bl, g', h') \<Longrightarrow> set bl \<subseteq> set (valid_consumers g)"
  by (auto simp: request_write_def Let_def split: if_splits sum.splits)

lemma request_write_inv:
  assumes r: "request_write n al pOut g h = Inr (p, out, g', h')" and i: "crb_inv N g" "obj_wf N h" "al = 0 \<or> al dvd N"
  shows "crb_inv N g' \<and> obj_wf N h' \<and> consumers g' = consumers g"
proof (cases p)
  case (PAt x)
  have o: "m_bufSize h = N" "PRODUCTOR_OFFSET g < N" using i crb_inv_productor [OF i(1)] by (simp_all add: obj_wf_def user_wf_def)
  note gr = request_write_granted [OF r [unfolded PAt] o i(3)]
  obtain skip where s: "skip + al + n < min_writable g N" "PRODUCTOR_OFFSET g' = (PRODUCTOR_OFFSET g + skip) mod N"
    "g' = g\<lparr>productor := (productor g)\<lparr>u_offset := PRODUCTOR_OFFSET g'\<rparr>, jumpOverHole := (skip \<noteq> 0 \<or> jumpOverHole g)\<rparr>"
    "h' = h\<lparr>m_lastWriteBytes := n, m_lastAlignmentBytes := m_lastAlignmentBytes h'\<rparr>" "m_lastAlignmentBytes h' \<le> al"
    using gr unfolding granted_def by blast
  have "PRODUCTOR_OFFSET g' < N" using s(2) o(2) by simp
  then have "user_wf N ((productor g)\<lparr>u_offset := PRODUCTOR_OFFSET g'\<rparr>)" using crb_inv_productor [OF i(1)] by (simp add: user_wf_def)
  then have "crb_inv N (g\<lparr>productor := (productor g)\<lparr>u_offset := PRODUCTOR_OFFSET g'\<rparr>, jumpOverHole := (skip \<noteq> 0 \<or> jumpOverHole g)\<rparr>)"
    using i(1) by (simp add: crb_inv_def crb_wf_def)
  then have 1: "crb_inv N g'" using s(3) by simp
  have "al \<le> N" using i(3) o(2) by (auto simp: dvd_imp_le)
  moreover have "n \<le> N" using s(1) min_writable_le(1) [of g N] by simp
  ultimately have 2: "obj_wf N h'" using i(2) s(5) by (subst s(4)) (simp add: obj_wf_def)
  have "consumers g' = consumers g" by (subst s(3)) simp
  with 1 2 show ?thesis by simp
next
  case PNull
  then show ?thesis using r i by (auto simp: request_write_def Let_def split: if_splits sum.splits)
next
  case (PError e)
  have "PRODUCTOR_OFFSET (g\<lparr>productor := productor g\<lparr>u_offset := ADVANCE_OFFSET N (PRODUCTOR_OFFSET g) k\<rparr>, jumpOverHole := True\<rparr>) < N" for k
    using crb_inv_pos [OF i(1)] by simp
  have w: "crb_inv N (g\<lparr>productor := productor g\<lparr>u_offset := ADVANCE_OFFSET N (PRODUCTOR_OFFSET g) k\<rparr>, jumpOverHole := True\<rparr>)" for k
    using i(1) crb_inv_productor [OF i(1)] crb_inv_pos [OF i(1)] by (simp add: crb_inv_def crb_wf_def user_wf_def)
  have "m_bufSize h = N" using i(2) by (simp add: obj_wf_def)
  then show ?thesis using r i(1,2) PError w by (auto simp: request_write_def Let_def split: if_splits sum.splits)
qed

lemma alignment_dvd: "crb_inv N g \<Longrightarrow> (if b then alignBytes g else 0) = 0 \<or> (if b then alignBytes g else 0) dvd N"
proof -
  assume "crb_inv N g"
  moreover have "(512 :: nat) dvd 4096" by simp
  ultimately have "512 dvd N" "alignBytes g = 512"
    unfolding crb_inv_def crb_wf_def CRB_DEFAULT_ALIGNMENT_def by (blast intro: dvd_trans)+
  then show ?thesis by simp
qed

lemma write_round_inv:
  assumes r: "write_round up n type mode g h = Inr (done, p, g', h')"
    and i: "crb_inv N g" "obj_wf N h" "0 < up"
  shows "crb_inv N g' \<and> obj_wf N h'
    \<and> (\<forall>x. p = PAt x \<longrightarrow> (\<exists>al g0 h1. crb_inv N g0 \<and> granted N x n al g0 h g' h1 \<and> h' = h1\<lparr>m_lastWriteFrameType := type\<rparr>))"
proof -
  have N: "m_bufSize h = N" using i(2) by (simp add: obj_wf_def)
  define g1 where "g1 = DeleteAgedBlackHole up g"
  define bl where "bl = IndexFindBlocker g1"
  have i1: "crb_inv N g1" using i(1) by (simp add: g1_def DeleteAgedBlackHole_inv)
  have bb: "\<forall>c \<in> set bl. c < MAX_CONSUMER_NUM" using blockers_bound(1) by (simp add: bl_def)
  note r1 = r [unfolded write_round_def Let_def, folded g1_def, folded bl_def]
  show ?thesis
  proof (cases "bl \<noteq> [] \<and> mode = CRB_WRITE_MODE_BLOCK")
    case True
    then show ?thesis using r1 i1 i(2) by auto
  next
    case False
    then obtain g2 where g2: "(if bl \<noteq> [] then MoveAllBlockers up N bl g1 else Inr g1) = Inr g2"
      using r1 N by (auto split: sum.splits if_splits)
    have i2: "crb_inv N g2" using g2 i1 bb i(3) by (auto simp: MoveAllBlockers_def dest: move_loop_inv split: if_splits)
    define al where "al = (if alignFrameType g2 = type \<or> contiBytesWriten g2 \<ge> bufSize g2 div 5 then alignBytes g2 else 0)"
    have ad: "al = 0 \<or> al dvd N" using alignment_dvd [OF i2] by (simp add: al_def)
    note r2 = r1 [unfolded if_not_P [OF False] N g2 sum.case, folded al_def]
    then obtain ret out g3 h3 where w: "request_write n al True g2 h = Inr (ret, out, g3, h3)" by (auto split: sum.splits)
    note i3 = request_write_inv [OF w i2 i(2) ad]
    show ?thesis
    proof (cases ret)
      case (PAt x)
      have o: "PRODUCTOR_OFFSET g2 < N" using crb_inv_productor [OF i2] by (simp add: user_wf_def)
      note gr = request_write_granted [OF w [unfolded PAt] N o ad]
      have "p = PAt x" "g' = g3" "h' = h3\<lparr>m_lastWriteFrameType := type\<rparr>" using r2 w PAt by auto
      moreover have "obj_wf N (h3\<lparr>m_lastWriteFrameType := type\<rparr>)" using i3 by (simp add: obj_wf_def)
      ultimately show ?thesis using i3 i2 gr by auto
    next
      case PNull
      have "set (case out of Some bl \<Rightarrow> bl | None \<Rightarrow> bl) \<subseteq> {c. c < MAX_CONSUMER_NUM}"
        using request_write_blockers bb blockers_bound(2) w by (fastforce split: option.splits)
      then show ?thesis using r2 w PNull i3 i(3)
        by (auto simp: MoveAllBlockers_def obj_wf_def dest!: move_loop_inv split: sum.splits if_splits)
    next
      case (PError e)
      have "set (case out of Some bl \<Rightarrow> bl | None \<Rightarrow> bl) \<subseteq> {c. c < MAX_CONSUMER_NUM}"
        using request_write_blockers bb blockers_bound(2) w by (fastforce split: option.splits)
      then show ?thesis using r2 w PError i3 i(3)
        by (auto simp: MoveAllBlockers_def obj_wf_def dest!: move_loop_inv split: sum.splits if_splits)
    qed
  qed
qed

lemma write_loop_inv:
  assumes "write_loop clk n type mode left g h = Inr (p, g', h')" "crb_inv N g" "obj_wf N h" "\<forall>k. 0 < clk k"
  shows "crb_inv N g' \<and> obj_wf N h'
    \<and> (\<forall>x. p = PAt x \<longrightarrow> (\<exists>al g0 h0 h1. crb_inv N g0 \<and> granted N x n al g0 h0 g' h1 \<and> h' = h1\<lparr>m_lastWriteFrameType := type\<rparr>))"
  using assms
proof (induction left arbitrary: g h)
  case (Suc left)
  obtain d ret g1 h1 where r: "write_round (clk (MAX_RETRY_TIME - Suc left)) n type mode g h = Inr (d, ret, g1, h1)"
    using Suc.prems(1) by (auto split: sum.splits)
  note i = write_round_inv [OF r Suc.prems(2,3)]
  show ?case
  proof (cases "d \<or> left = 0")
    case True
    then have "p = ret" "g' = g1" "h' = h1" using Suc.prems(1) r by auto
    then show ?thesis using i Suc.prems(4) by blast
  next
    case False
    then have "write_loop clk n type mode left g1 h1 = Inr (p, g', h')" using Suc.prems(1) r by simp
    then show ?thesis using Suc.IH i Suc.prems(4) by blast
  qed
qed auto

lemma write_open_inv: "crb_inv N g \<Longrightarrow> crb_inv N (write_open up type g h)"
  by (simp add: write_open_def Let_def crb_keep productor_fields_inv)

lemma RequestWriteFrame_inv:
  assumes r: "RequestWriteFrame clk n type mode g h = Inr (p, g', h')" and i: "crb_inv N g" "obj_wf N h" "\<forall>k. 0 < clk k"
  shows "crb_inv N g' \<and> obj_wf N h'
    \<and> (\<forall>x. p = PAt x \<longrightarrow> (\<exists>al g0 h0 h1. crb_inv N g0 \<and> granted N x n al g0 h0 g' h1 \<and> h' = h1\<lparr>m_lastWriteFrameType := type\<rparr>))"
proof -
  have "write_loop clk n type mode MAX_RETRY_TIME (write_open (clk 0) type g h) h = Inr (p, g', h')"
    using r by (simp add: RequestWriteFrame_def split: if_splits)
  from write_loop_inv [OF this write_open_inv [OF i(1)] i(2,3)] show ?thesis .
qed

lemma RequestWritePtr_inv:
  assumes r: "RequestWritePtr sz g h = Inr (p, g', h')" and i: "crb_inv N g" "obj_wf N h"
  shows "crb_inv N g' \<and> obj_wf N h'"
proof -
  obtain out where w: "request_write (nat sz) 0 False (g\<lparr>videoBuffer := False\<rparr>) (h\<lparr>m_lastWriteFrameType := CRB_FRAME_I_SLICE\<rparr>)
      = Inr (p, out, g', h')"
    using r by (auto simp: RequestWritePtr_def split: if_splits sum.splits)
  have "crb_inv N (g\<lparr>videoBuffer := False\<rparr>)" "obj_wf N (h\<lparr>m_lastWriteFrameType := CRB_FRAME_I_SLICE\<rparr>)"
    using i by (simp_all add: crb_keep obj_wf_def)
  from request_write_inv [OF w this] show ?thesis by simp
qed

lemma CommitWrite_inv:
  assumes r: "CommitWrite sz t g h = Inr (x, g', h')" and i: "crb_inv N g" "obj_wf N h"
  shows "crb_inv N g' \<and> obj_wf N h'"
proof (cases "\<not> is_productor h \<or> m_lastWriteBytes h = 0")
  case True
  then show ?thesis using r i by (auto simp: CommitWrite_def split: if_splits option.splits)
next
  case False
  have N: "m_bufSize h = N" "m_lastWriteBytes h \<le> N" "0 < N" using i crb_inv_pos by (auto simp: obj_wf_def)
  define n where "n = (case sz of None \<Rightarrow> m_lastWriteBytes h | Some n \<Rightarrow> n)"
  define g1 where "g1 = upd_productor (upd_acct (\<lambda>a. a\<lparr>commitCount := commitCount a + 1, bytesCount := bytesCount a + word_of_nat n\<rparr>)) g"
  have i1: "crb_inv N g1" using i(1) by (simp add: g1_def productor_fields_inv)
  have a: "\<not> (case sz of None \<Rightarrow> False | Some n \<Rightarrow> n > m_lastWriteBytes h)" using r by (auto simp: CommitWrite_def split: if_splits)
  then have n: "n \<le> N" using N(2) by (auto simp: n_def split: option.splits)
  have o: "obj_wf N (h\<lparr>m_lastWriteBytes := 0, m_lastAlignmentBytes := 0\<rparr>)" using i(2) by (simp add: obj_wf_def)
  have j: "crb_inv N (g\<lparr>jumpOverHole := False\<rparr>)" if "crb_inv N g" for g using that by (rule crb_keep)
  show ?thesis
  proof (cases "n = 0")
    case True
    then have "g' = g1\<lparr>jumpOverHole := False\<rparr>" "h' = h\<lparr>m_lastWriteBytes := 0, m_lastAlignmentBytes := 0\<rparr>"
      using r a False unfolding CommitWrite_def n_def [symmetric] Let_def g1_def [symmetric] by auto
    then show ?thesis using j [OF i1] o by simp
  next
    case n0: False
    define f where "f = \<lparr>f_offset = ADVANCE_OFFSET N (PRODUCTOR_OFFSET g1) (m_lastAlignmentBytes h), f_length = n, f_type = m_lastWriteFrameType h,
      f_continuous = (\<not> (\<not> dataWriten g1 \<or> jumpOverHole g1 \<or> m_lastAlignmentBytes h \<noteq> 0)), f_requestTime = requestUptime (productor g1), f_timeStamp = t\<rparr>"
    define g2 where "g2 = (if m_lastWriteFrameType h = CRB_FRAME_ANY then g1 else upd_productor (\<lambda>u. u\<lparr>u_offset := ADVANCE_OFFSET2 N (u_offset u) n (m_lastAlignmentBytes h)\<rparr>)
      (g1\<lparr>frameIdx := (frameIdx g1)[PRODUCTOR_INDEX g1 := f], productor := (productor g1)\<lparr>u_index := ADVANCE_INDEX (PRODUCTOR_INDEX g1) 1\<rparr>\<rparr>))"
    have "frame_wf N f" using n N(3) by (simp add: f_def frame_wf_def)
    then have "list_all (frame_wf N) ((frameIdx g1)[PRODUCTOR_INDEX g1 := f])"
      using i1 set_update_subset_insert [of "frameIdx g1" "PRODUCTOR_INDEX g1" f] by (auto simp: crb_inv_def crb_wf_def list_all_iff)
    then have i2: "crb_inv N g2" using i1 N(3) unfolding g2_def by (auto simp: crb_inv_def crb_wf_def upd_productor_def user_wf_def)
    have e: "CommitWrite sz t g h = (let g = g2\<lparr>dataWriten := True, contiBytesWriten := (contiBytesWriten g2 + n) mod 2 ^ 32\<rparr>;
        g = (if m_lastAlignmentBytes h > 0 then g\<lparr>contiBytesWriten := 0\<rparr> else g)
        in Inr (CrbOk n, g\<lparr>jumpOverHole := False\<rparr>, h\<lparr>m_lastWriteBytes := 0, m_lastAlignmentBytes := 0\<rparr>))"
      using a False n0 unfolding CommitWrite_def n_def [symmetric] g1_def [symmetric] Let_def
      by (simp add: IndexAdd_def g2_def f_def N(1))
    show ?thesis using r i2 o unfolding e Let_def by (auto intro!: j crb_keep split: if_splits)
  qed
qed

lemma WriteLog_inv:
  assumes r: "WriteLog clk b n mem g h = Inr (x, mem', g', h')" and i: "crb_inv N g" "obj_wf N h" "\<forall>k. 0 < clk k"
  shows "crb_inv N g' \<and> obj_wf N h'"
proof -
  obtain p g1 h1 where w: "RequestWriteFrame clk n CRB_FRAME_LOG CRB_WRITE_MODE_NON_BLOCK g h = Inr (p, g1, h1)"
    using r by (auto simp: WriteLog_def split: sum.splits)
  note i1 = RequestWriteFrame_inv [OF w i]
  show ?thesis
  proof (cases p)
    case (PAt x)
    then show ?thesis using r w i1 CommitWrite_inv [of "Some n" 0 g1 h1]
      by (auto simp: WriteLog_def split: sum.splits if_splits)
  qed (use r w i1 in \<open>auto simp: WriteLog_def\<close>)
qed

section \<open>The consumers\<close>

lemma request_read_obj:
  assumes "request_read r w n h = (p, h')" "obj_wf N h" "0 < N" shows "obj_wf N h'"
proof -
  have "GetReadableSize N r w < N" using assms(3) by (simp add: GetReadableSize_def BUFFER_LEN_less)
  then show ?thesis using assms(1,2) by (auto simp: request_read_def obj_wf_def split: if_splits)
qed

lemma read_begin_inv [crb_keep]: "crb_inv N g \<Longrightarrow> crb_inv N (read_begin g h)"
  by (simp add: read_begin_def Let_def crb_keep)

lemma RequestReadFrame_inv:
  assumes r: "RequestReadFrame type g h = Inr (p, n, k, g', h')" and i: "crb_inv N g" "obj_wf N h"
  shows "crb_inv N g' \<and> obj_wf N h'"
proof -
  define g1 where "g1 = read_begin g h"
  have i1: "crb_inv N g1" using i(1) by (simp add: g1_def crb_keep)
  note e = r [unfolded RequestReadFrame_def Let_def, folded g1_def]
  then obtain x where x: "IndexFindNextFrame g1 (PRODUCTOR_INDEX g1) (u_index (consumers g1 ! m_userIdx h)) (wanted_type g1 (m_userIdx h) type) None = Inr x"
    by (auto split: if_splits sum.splits)
  show ?thesis
  proof (cases x)
    case None
    then show ?thesis using e x i1 i(2) by (auto split: if_splits)
  next
    case (Some j)
    have j: "j < MAX_FRAME_NUM" "f_offset (frameIdx g1 ! j) < N"
      using IndexFindNextFrame_bound x Some crb_inv_frame [OF i1] by (auto simp: frame_wf_def)
    obtain q h1 where q: "request_read (f_offset (frameIdx g1 ! j)) (PRODUCTOR_OFFSET g1) (f_length (frameIdx g1 ! j)) h = (q, h1)" by fastforce
    have "obj_wf N h1" using request_read_obj [OF q i(2) crb_inv_pos [OF i(1)]] .
    moreover have "crb_inv N (ClearConsumerMoved c (SetConsumerState c USER_HOLDING_FRAME (MoveConsumer c j (f_offset (frameIdx g1 ! j)) False g1)))" for c
      using i1 j by (intro crb_keep) simp_all
    ultimately show ?thesis using e x Some q i1 by (auto split: if_splits)
  qed
qed

lemma RequestReadNextFrameStamp_inv:
  assumes r: "RequestReadNextFrameStamp type g h = Inr (p, n, t, k, g', h')" and i: "crb_inv N g" "obj_wf N h"
  shows "crb_inv N g' \<and> obj_wf N h'"
proof -
  define g1 where "g1 = read_begin g h"
  have i1: "crb_inv N g1" using i(1) by (simp add: g1_def crb_keep)
  note e = r [unfolded RequestReadNextFrameStamp_def Let_def, folded g1_def]
  then obtain x where x: "IndexFindNextFrame g1 (PRODUCTOR_INDEX g1) (u_index (consumers g1 ! m_userIdx h)) (wanted_type g1 (m_userIdx h) type) None = Inr x"
    by (auto split: if_splits sum.splits)
  show ?thesis
  proof (cases x)
    case None
    then show ?thesis using e x i1 i(2) by (auto split: if_splits)
  next
    case (Some j)
    have j: "j < MAX_FRAME_NUM" "f_offset (frameIdx g1 ! j) < N"
      using IndexFindNextFrame_bound x Some crb_inv_frame [OF i1] by (auto simp: frame_wf_def)
    obtain q h1 where q: "request_read (f_offset (frameIdx g1 ! j)) (PRODUCTOR_OFFSET g1) (f_length (frameIdx g1 ! j)) h = (q, h1)" by fastforce
    have "obj_wf N h1" using request_read_obj [OF q i(2) crb_inv_pos [OF i(1)]] .
    moreover have "crb_inv N (ClearConsumerMoved c (MoveConsumer c j (f_offset (frameIdx g1 ! j)) False g1))" for c
      using i1 j by (intro crb_keep) simp_all
    ultimately show ?thesis using e x Some q i1 by (auto split: if_splits)
  qed
qed

lemma RequestReadContinuousFrames_inv:
  assumes r: "RequestReadContinuousFrames fuel want g h = Inr (Some (p, n, k, ds, g', h'))" and i: "crb_inv N g" "obj_wf N h"
  shows "crb_inv N g' \<and> obj_wf N h'"
proof -
  define c where "c = m_userIdx h"
  define g1 where "g1 = read_begin g h"
  have i1: "crb_inv N g1" using i(1) by (simp add: g1_def crb_keep)
  note e = r [unfolded RequestReadContinuousFrames_def Let_def, folded g1_def, folded c_def]
  then obtain x where x: "IndexFindNextFrame g1 (PRODUCTOR_INDEX g1) (u_index (consumers g1 ! c)) (wanted_type g1 c CRB_FRAME_ANY) None = Inr x"
    by (auto split: sum.splits)
  show ?thesis
  proof (cases x)
    case None
    then show ?thesis using e x i1 i(2) by auto
  next
    case (Some a)
    have a: "a < MAX_FRAME_NUM" "f_offset (frameIdx g1 ! a) < N"
      using IndexFindNextFrame_bound x Some crb_inv_frame [OF i1] by (auto simp: frame_wf_def)
    obtain y where y: "IndexFindNextFrame g1 (PRODUCTOR_INDEX g1) (ADVANCE_INDEX a 1) CRB_FRAME_ANY (Some False) = Inr y"
      using e x Some by (auto split: sum.splits)
    show ?thesis
    proof (cases y)
      case None
      then show ?thesis using e x y Some i1 i(2) by auto
    next
      case y2: (Some b)
      define cnt where "cnt = (b + MAX_FRAME_NUM - a) mod MAX_FRAME_NUM"
      define nc where "nc = (if cnt \<ge> want then (STEPBACK_INDEX b (cnt - want), want) else (b, cnt))"
      define l where "l = STEPBACK_INDEX (fst nc) 1"
      define sz where "sz = BUFFER_LEN (m_bufSize h) (f_offset (frameIdx g1 ! a)) (f_offset (frameIdx g1 ! l)) + f_length (frameIdx g1 ! l)"
      obtain q h1 where q: "request_read (f_offset (frameIdx g1 ! a)) (PRODUCTOR_OFFSET g1) sz h = (q, h1)" by fastforce
      define g2 where "g2 = SetConsumerState c USER_HOLDING_FRAME (SetConsumerRefIdx c a l (MoveConsumer c a (f_offset (frameIdx g1 ! a)) False g1))"
      obtain nb nk where nc: "nc = (nb, nk)" by fastforce
      note e1 = e [unfolded x Some sum.case option.case y y2, folded cnt_def, folded nc_def, unfolded nc prod.case]
      have l: "l = STEPBACK_INDEX nb 1" by (simp add: l_def nc)
      note e2 = e1 [folded l, folded sz_def, unfolded q prod.case, folded g2_def]
      have "crb_inv N g2" unfolding g2_def using i1 a by (intro crb_keep) (simp_all add: l_def)
      then have "crb_inv N (ClearConsumerMoved c g2)" by (rule crb_keep)
      then show ?thesis using e2 i1 request_read_obj [OF q i(2) crb_inv_pos [OF i(1)]] by (auto split: if_splits option.splits)
    qed
  qed
qed

lemma CommitRead_inv:
  assumes r: "CommitRead sz g h = Inr (x, g', h')" and i: "crb_inv N g" "obj_wf N h"
  shows "crb_inv N g' \<and> obj_wf N h'"
proof -
  have N: "m_bufSize h = N" using i(2) by (simp add: obj_wf_def)
  define c where "c = m_userIdx h"
  define n where "n = (case sz of None \<Rightarrow> m_lastReadBytes h | Some n \<Rightarrow> n)"
  define g1 where "g1 = upd_consumer c (upd_acct (\<lambda>a. a\<lparr>commitCount := commitCount a + 1\<rparr>)) g"
  define g2 where "g2 = (if m_lastReadBytes h = 0
    then upd_consumer c (upd_acct (\<lambda>a. a\<lparr>commitWithoutRequestCount := commitWithoutRequestCount a + 1\<rparr>)) g1 else g1)"
  define g3 where "g3 = upd_consumer c (upd_acct (\<lambda>a. a\<lparr>bytesCount := bytesCount a + word_of_nat n\<rparr>)) g2"
  define g4 where "g4 = ClearConsumerTimeOut c (DeleteBlackHoleOwnedBy (u_name (consumers g3 ! c)) g3)"
  have i4: "crb_inv N g4" using i(1) by (simp add: g4_def g3_def g2_def g1_def crb_keep)
  have a: "\<not> (is_productor h \<or> (case sz of None \<Rightarrow> False | Some n \<Rightarrow> n > m_lastReadBytes h))"
    using r by (auto simp: CommitRead_def split: if_splits)
  define g5 where "g5 = (if IsConsumerMoved g4 c then g4
    else MoveConsumer c (ADVANCE_INDEX (refIdxEnd (consumers g4 ! c)) 1) (ADVANCE_OFFSET N (u_offset (consumers g4 ! c)) n) False g4)"
  have "crb_inv N g5" using i4 crb_inv_pos [OF i4] by (simp add: g5_def MoveConsumer_inv)
  then have "crb_inv N (ClearConsumerMoved c (SetConsumerState c USER_FREE g5))" by (intro crb_keep) simp_all
  moreover note r [unfolded CommitRead_def if_not_P [OF a] Let_def N, folded c_def, folded n_def, folded g1_def, folded g2_def,
    folded g3_def, folded g4_def, folded g5_def]
  ultimately show ?thesis using i4 i(2) by (auto simp: obj_wf_def split: if_splits)
qed

lemma DiscardAllData_inv:
  assumes r: "DiscardAllData g h = (g', h')" and i: "crb_inv N g" "obj_wf N h"
  shows "crb_inv N g' \<and> obj_wf N h'"
proof (cases "m_userIdx h \<ge> MAX_CONSUMER_NUM \<or> is_productor h")
  case True
  then show ?thesis using r i by (auto simp: DiscardAllData_def Let_def)
next
  case False
  define c where "c = m_userIdx h"
  define g1 where "g1 = upd_consumer c (upd_acct (\<lambda>a. a\<lparr>discardCount := discardCount a + 1\<rparr>)) g"
  define g2 where "g2 = ClearConsumerTimeOut c (DeleteBlackHoleOwnedBy (u_name (consumers g1 ! c)) g1)"
  have i2: "crb_inv N g2" using i(1) by (simp add: g2_def g1_def crb_keep)
  have "crb_inv N (ClearConsumerMoved c (SetConsumerState c USER_FREE (MoveConsumer c (PRODUCTOR_INDEX g2) (PRODUCTOR_OFFSET g2) True g2)))"
    using i2 crb_inv_productor [OF i2] by (intro crb_keep) (simp_all add: user_wf_def)
  moreover note r [unfolded DiscardAllData_def Let_def if_not_P [OF False], folded c_def, folded g1_def, folded g2_def]
  ultimately show ?thesis using i(2) by (auto simp: obj_wf_def)
qed

lemma search_move_inv:
  assumes "crb_inv N g" "i < MAX_FRAME_NUM"
  shows "crb_inv N (MoveConsumer c i (f_offset (frameIdx g ! i)) b g)"
  using assms crb_inv_frame by (intro MoveConsumer_inv) (auto simp: frame_wf_def)

lemma IndexFindSpecifiedTimeFrameInstance_bound:
  assumes "IndexFindSpecifiedTimeFrameInstance g w r type t = Inr (Some k)"
  shows "k < MAX_FRAME_NUM"
proof -
  have "0 < MAX_FRAME_NUM" by (simp add: MAX_FRAME_NUM_def)
  then show ?thesis using assms time_loop_bound [where g = g and type = type and t = t and e = r and c = 0 and i = "STEPBACK_INDEX w 1"]
    by (auto simp: IndexFindSpecifiedTimeFrameInstance_def Let_def split: if_splits sum.splits)
qed

lemma ClearConsumerTimeOut_frames [simp]: "frameIdx (ClearConsumerTimeOut c g) = frameIdx g"
  by (simp add: ClearConsumerTimeOut_def)

lemma IndexMoveToSpecifiedTime_inv:
  assumes r: "IndexMoveToSpecifiedTime frame t g h = Inr (x, ft, g')" and i: "crb_inv N g"
  shows "crb_inv N g'"
proof -
  obtain y where y: "IndexFindSpecifiedTimeFrameInstance g (PRODUCTOR_INDEX g) (FindOldesValidIndex g (m_bufSize h)) frame t = Inr y"
    using r by (auto simp: IndexMoveToSpecifiedTime_def Let_def split: sum.splits)
  show ?thesis
  proof (cases y)
    case (Some k)
    define g1 where "g1 = ClearConsumerTimeOut (m_userIdx h) (DeleteBlackHoleOwnedBy (u_name (consumers g ! m_userIdx h)) g)"
    have "crb_inv N g1" using i by (simp add: g1_def crb_keep)
    moreover have "k < MAX_FRAME_NUM" using y Some by (blast dest: IndexFindSpecifiedTimeFrameInstance_bound)
    moreover note r [unfolded IndexMoveToSpecifiedTime_def Let_def y Some sum.case option.case, folded g1_def]
    ultimately show ?thesis using search_move_inv by auto
  qed (use r y i in \<open>auto simp: IndexMoveToSpecifiedTime_def\<close>)
qed

lemma IndexMoveToOldest_inv:
  assumes r: "IndexMoveToOldest g h = (x, g')" and i: "crb_inv N g" shows "crb_inv N g'"
proof -
  define g1 where "g1 = ClearConsumerTimeOut (m_userIdx h) (DeleteBlackHoleOwnedBy (u_name (consumers g ! m_userIdx h)) g)"
  have "crb_inv N g1" using i by (simp add: g1_def crb_keep)
  with search_move_inv [OF this oldest_bound [OF i]] r show ?thesis by (auto simp: IndexMoveToOldest_def Let_def g1_def)
qed

end
