(* ===== verification/Crb_Machine.thy ===== *)
theory Crb_Machine
  imports Crb_Inv
begin

text \<open>
  Installing and resetting users keeps the invariant too, and with that all processes together:
  the header and the objects of every process as one machine, an instance of the locale
  \<open>machine\<close>.
\<close>

section \<open>Resetting\<close>

lemma reset_loop_inv:
  assumes "reset_loop up N cs g = Inr g'" "crb_inv N g" "\<forall>c \<in> set cs. c < MAX_CONSUMER_NUM" "0 < up"
  shows "crb_inv N g'"
  using assms
proof (induction cs arbitrary: g)
  case (Cons c cs)
  note N = crb_inv_pos [OF Cons.prems(2)]
  have F: "0 < MAX_FRAME_NUM" by (simp add: MAX_FRAME_NUM_def)
  show ?case
  proof (cases "VALID_CONSUMER g c")
    case False
    then show ?thesis using Cons by simp
  next
    case True
    define u where "u = consumers g ! c"
    have u: "user_wf N u" using crb_inv_consumer [OF Cons.prems(2)] Cons.prems(3) by (simp add: u_def)
    have ref: "f_offset (frameIdx g ! refIdxStart u) < N"
      using crb_inv_frame [OF Cons.prems(2)] u by (simp add: frame_wf_def user_wf_def)
    define step where "step = (if GetConsumerState g c = USER_HOLDING_FRAME
        then let s = frameIdx g ! refIdxStart u; e = frameIdx g ! refIdxEnd u
             in case InsertBlackHole up (u_name u) (f_offset s) (ADVANCE_OFFSET N (f_offset e) (f_length e)) g of
                  Inl e \<Rightarrow> Inl e
                | Inr (_, g) \<Rightarrow> Inr (SetConsumerState c USER_BLOCKED (SetConsumerMoved c g))
        else if GetConsumerState g c = USER_BLOCKED then Inr (SetConsumerMoved c g) else Inr g)"
    note e = Cons.prems(1) [unfolded reset_loop.simps if_not_P [OF not_not [THEN iffD2, OF True]] Let_def, folded u_def]
    have "(case step of Inl e \<Rightarrow> Inl e | Inr g \<Rightarrow> reset_loop up N cs (MoveConsumer c 0 0 True g)) = Inr g'"
      using Cons.prems(1) True unfolding step_def u_def by (simp add: Let_def)
    then obtain g1 where g1: "step = Inr g1" "reset_loop up N cs (MoveConsumer c 0 0 True g1) = Inr g'" by (auto split: sum.splits)
    have "crb_inv N g1"
    proof (cases "GetConsumerState g c = USER_HOLDING_FRAME")
      case True
      then obtain x g0 where g0: "InsertBlackHole up (u_name u) (f_offset (frameIdx g ! refIdxStart u))
          (ADVANCE_OFFSET N (f_offset (frameIdx g ! refIdxEnd u)) (f_length (frameIdx g ! refIdxEnd u))) g = Inr (x, g0)"
        "g1 = SetConsumerState c USER_BLOCKED (SetConsumerMoved c g0)"
        using g1(1) by (auto simp: step_def Let_def split: sum.splits)
      have "crb_inv N g0" using InsertBlackHole_inv [OF g0(1) Cons.prems(2) ref _ Cons.prems(4)] N by simp
      then show ?thesis unfolding g0(2) by (intro crb_keep) simp_all
    next
      case False
      then show ?thesis using g1(1) Cons.prems(2) by (auto simp: step_def crb_keep split: if_splits)
    qed
    then have "crb_inv N (MoveConsumer c 0 0 True g1)" using N F by (intro crb_keep)
    then show ?thesis using Cons.IH g1(2) Cons.prems(3,4) by simp
  qed
qed simp

lemma ResetAllUserNoLock_inv:
  assumes r: "ResetAllUserNoLock up g h = Inr (x, g', h')" and i: "crb_inv N g" "obj_wf N h" "0 < up"
  shows "crb_inv N g' \<and> obj_wf N h'"
proof (cases "m_userIdx h \<ge> 1 \<or> \<not> is_productor h")
  case True
  then show ?thesis using r i by (auto simp: ResetAllUserNoLock_def)
next
  case False
  have N: "m_bufSize h = N" using i(2) by (simp add: obj_wf_def)
  obtain g1 where g1: "reset_loop up N [0..<MAX_CONSUMER_NUM] g = Inr g1"
    and g': "g' = upd_productor (\<lambda>u. upd_acct (\<lambda>a. a\<lparr>discardCount := discardCount a + 1\<rparr>) u\<lparr>u_offset := 0, u_index := 0\<rparr>) g1
          \<lparr>dataWriten := False, contiBytesWriten := 0, leftedBytes := 0\<rparr>" and h': "h' = h\<lparr>m_lastWriteBytes := 0\<rparr>"
    using r False N by (auto simp: ResetAllUserNoLock_def split: sum.splits)
  have i1: "crb_inv N g1" using reset_loop_inv [OF g1 i(1) _ i(3)] by simp
  have "user_wf N (upd_acct f (productor g1)\<lparr>u_offset := 0, u_index := 0\<rparr>)" for f
    using crb_inv_productor [OF i1] crb_inv_pos [OF i1] by (simp add: user_wf_def upd_acct_def MAX_FRAME_NUM_def)
  then have "crb_inv N g'" using i1 unfolding g' by (intro crb_keep) simp_all
  then show ?thesis using i(2) h' by (simp add: obj_wf_def)
qed

section \<open>Installing\<close>

lemma find_slots_bound:
  "find_slots nm us k fe = (ex, fe') \<Longrightarrow> (\<forall>i. ex = Some i \<longrightarrow> k \<le> i \<and> i < k + length us)
    \<and> (\<forall>i. fe' = Some i \<longrightarrow> fe = Some i \<or> k \<le> i \<and> i < k + length us)"
  by (induction nm us k fe rule: find_slots.induct) (fastforce split: if_splits)+

lemma find_slots_free: "\<exists>u \<in> set us. u_name u = '''' \<Longrightarrow> find_slots nm us k None \<noteq> (None, None)"
proof -
  have some: "find_slots nm us k (Some f) \<noteq> (None, None)" for us k f by (induction us arbitrary: k) auto
  show "\<exists>u \<in> set us. u_name u = '''' \<Longrightarrow> ?thesis" by (induction us arbitrary: k) (auto simp: some)
qed

lemma InstallConsumer_inv:
  assumes r: "InstallConsumer ex fe nm pers g h = Inr (g', h')" and i: "crb_inv N g" "obj_wf N h"
    and c: "(case ex of Some i \<Rightarrow> i | None \<Rightarrow> fe) < MAX_CONSUMER_NUM" "\<not> is_productor h"
  shows "crb_inv N g' \<and> obj_wf N h'"
proof -
  define k where "k = (case ex of Some i \<Rightarrow> i | None \<Rightarrow> fe)"
  define h1 where "h1 = h\<lparr>m_userIdx := k\<rparr>"
  define g1 where "g1 = (if ex = None then upd_consumer k (\<lambda>u. u\<lparr>u_name := nm, u_personality := pers\<rparr>) g else g)"
  define g2 where "g2 = ClearConsumerMoved k (SetConsumerState k USER_FREE (ClearConsumerTimeOut k (DeleteBlackHoleOwnedBy nm g1)))"
  have "crb_inv N (upd_consumer k (\<lambda>u. u\<lparr>u_name := nm, u_personality := pers\<rparr>) g)"
    by (rule upd_consumer_inv [OF i(1)]) (use crb_inv_consumer [OF i(1)] in simp)
  then have "crb_inv N g1" using i(1) by (simp add: g1_def)
  then have i2: "crb_inv N g2" unfolding g2_def by (intro crb_keep) simp_all
  have N: "0 < N" "0 < MAX_FRAME_NUM" using crb_inv_pos [OF i(1)] by (simp_all add: MAX_FRAME_NUM_def)
  have o: "obj_wf N h1" using i(2) c by (simp add: h1_def k_def obj_wf_def)
  have p: "PRODUCTOR_INDEX g2 < MAX_FRAME_NUM" using crb_inv_productor [OF i2] by (simp add: user_wf_def)
  have fin: "crb_inv N (upd_consumer k (upd_acct f) (MoveConsumer k j (f_offset (frameIdx g2 ! j)) b g2))" if "j < MAX_FRAME_NUM" for f j b
    using search_move_inv [OF i2 that] by (rule crb_keep)
  have fin0: "crb_inv N (upd_consumer k (upd_acct f) (MoveConsumer k 0 0 True g2))" for f using i2 N by (intro crb_keep)
  note e = r [unfolded InstallConsumer_def Let_def, folded k_def, folded h1_def g1_def, folded g2_def]
  show ?thesis
  proof (cases "PRODUCTOR_EXIST g2 \<and> dataWriten g2")
    case False
    then show ?thesis using e o fin0 by auto
  next
    case True
    show ?thesis
    proof (cases "pers AND CRB_PERSONALITY_DUMPER \<noteq> 0")
      case T: True
      then show ?thesis using e True o fin [OF oldest_bound [OF i2]] by auto
    next
      case F: False
      obtain y where y: "IndexFindLatestIFrame g2 (m_bufSize h1) = Inr y" using e True F by (auto split: sum.splits if_splits)
      show ?thesis
      proof (cases y)
        case None
        then show ?thesis using e True F y o fin [OF p] by auto
      next
        case (Some j)
        then have "j < MAX_FRAME_NUM" using y IndexFindLatestFrame_bound by (simp add: IndexFindLatestIFrame_def)
        then show ?thesis using e True F y Some o fin by auto
      qed
    qed
  qed
qed

lemma InstallProductor_inv:
  assumes r: "InstallProductor up ex fe nm pers g h = Inr (g', h')" and i: "crb_inv N g" "obj_wf N h" "0 < up"
  shows "crb_inv N g' \<and> obj_wf N h'"
proof -
  define k where "k = (case ex of Some i \<Rightarrow> i | None \<Rightarrow> fe)"
  define h1 where "h1 = h\<lparr>m_userIdx := k\<rparr>"
  define g1 where "g1 = (if ex = None
    then (upd_productor (\<lambda>u. u\<lparr>u_index := 0, u_offset := 0, u_name := nm, u_personality := pers\<rparr>) g)\<lparr>dataWriten := False, contiBytesWriten := 0\<rparr>
    else g)"
  have N: "0 < N" "0 < MAX_FRAME_NUM" using crb_inv_pos [OF i(1)] by (simp_all add: MAX_FRAME_NUM_def)
  have "user_wf N (productor g\<lparr>u_index := 0, u_offset := 0, u_name := nm, u_personality := pers\<rparr>)"
    using crb_inv_productor [OF i(1)] N by (simp add: user_wf_def)
  then have i1: "crb_inv N g1" using i(1) by (simp add: g1_def upd_productor_inv crb_keep)
  note e = r [unfolded InstallProductor_def Let_def, folded k_def, folded h1_def g1_def]
  have k: "k = 0" using e by (auto split: if_splits)
  have o: "obj_wf N h1" using i(2) by (simp add: h1_def k obj_wf_def MAX_CONSUMER_NUM_def)
  obtain x g2 h2 where s: "(if ex \<noteq> None then ResetAllUserNoLock up g1 h1 else Inr (None, g1, h1)) = Inr (x, g2, h2)"
    and g': "g' = upd_productor (upd_acct (\<lambda>a. a\<lparr>installCount := installCount a + 1\<rparr>)) g2" "h' = h2"
    using e k by (auto split: sum.splits if_splits)
  have "crb_inv N g2 \<and> obj_wf N h2"
    using s i1 o ResetAllUserNoLock_inv [OF _ i1 o i(3)] by (auto split: if_splits)
  then show ?thesis unfolding g' by (simp add: productor_fields_inv)
qed

lemma InstallUser_inv:
  assumes r: "InstallUser up nm pers g h = Inr (Some (g', h'))" and i: "crb_inv N g" "obj_wf N h" "0 < up"
  shows "crb_inv N g' \<and> obj_wf N h'"
proof -
  define us where "us = (if is_productor h then [productor g] else consumers g)"
  obtain ex fe where f: "find_slots nm us 0 None = (ex, fe)" by fastforce
  note b = find_slots_bound [OF f]
  define fe' where "fe' = (case fe of Some i \<Rightarrow> i | None \<Rightarrow> 0)"
  have ne: "\<not> (ex = None \<and> fe = None)"
  proof
    assume "ex = None \<and> fe = None"
    then show False using r f by (simp add: InstallUser_def us_def [symmetric])
  qed
  have e: "(if is_productor h then InstallProductor up else InstallConsumer) ex fe' nm pers g h = Inr (g', h')"
    using r ne unfolding InstallUser_def us_def [symmetric] f fe'_def by (auto simp: map_sum_def split: sum.splits)
  show ?thesis
  proof (cases "is_productor h")
    case True
    then show ?thesis using e InstallProductor_inv [OF _ i] by simp
  next
    case False
    then have "length us = MAX_CONSUMER_NUM" using i(1) by (simp add: us_def crb_inv_def crb_wf_def)
    then have "(case ex of Some i \<Rightarrow> i | None \<Rightarrow> fe') < MAX_CONSUMER_NUM"
      using b ne by (auto simp: fe'_def MAX_CONSUMER_NUM_def split: option.splits)
    then show ?thesis using e False InstallConsumer_inv [OF _ i(1,2)] by simp
  qed
qed

lemma CleanAllConsumer_inv [crb_keep]: "crb_inv N g \<Longrightarrow> crb_inv N (CleanAllConsumer g)"
  using crb_inv_pos [of N g] by (auto simp: CleanAllConsumer_def crb_inv_def crb_wf_def list_all_iff user_zero_wf)

lemma CleanProductor_inv [crb_keep]: "crb_inv N g \<Longrightarrow> crb_inv N (CleanProductor g)"
  using crb_inv_pos [of N g] by (simp add: CleanProductor_def crb_inv_def crb_wf_def user_zero_wf)

lemma CRingBuf_delete_inv: "CRingBuf_delete g h = (rm, g') \<Longrightarrow> crb_inv N g \<Longrightarrow> crb_inv N g'"
proof -
  assume d: "CRingBuf_delete g h = (rm, g')" and i: "crb_inv N g"
  have z: "user_wf N user_zero" by (rule user_zero_wf [OF crb_inv_pos [OF i]])
  have "crb_inv N (g\<lparr>productor := user_zero\<rparr>)" using i z by (simp add: crb_inv_def crb_wf_def)
  moreover have "crb_inv N (upd_consumer k (\<lambda>_. user_zero) g)" for k by (rule upd_consumer_inv [OF i z])
  ultimately show ?thesis using d by (cases "is_productor h") (auto simp: CRingBuf_delete_def Let_def)
qed

section \<open>The constructor\<close>

text \<open>The header before it knows its size: a new file or a well-formed one.\<close>

definition sized :: "nat \<Rightarrow> RingBufInfo \<Rightarrow> RingBufInfo" where
  "sized N g = g\<lparr>bufSize := N, alignBytes := CRB_DEFAULT_ALIGNMENT, alignFrameType := CRB_FRAME_I_SLICE\<rparr>"

lemma sized_new: "0 < N \<Longrightarrow> 4096 dvd N \<Longrightarrow> N < 2 ^ 31 \<Longrightarrow> crb_inv N (sized N info_zero)"
  by (simp add: sized_def info_zero_def crb_inv_def crb_wf_def user_zero_wf list_all_iff frame_wf_def frame_zero_def)

lemma sized_inv: "crb_inv N g \<Longrightarrow> crb_inv N (sized N g)"
  by (simp add: sized_def crb_inv_def crb_wf_def)

lemma sized_keep:
  "crb_inv N (sized N g) \<Longrightarrow> crb_inv N (sized N (CleanAllConsumer g))"
  "crb_inv N (sized N g) \<Longrightarrow> crb_inv N (sized N (CleanProductor g))"
  "crb_inv N (sized N g) \<Longrightarrow> crb_inv N (sized N (g\<lparr>version := 1, videoBuffer := True\<rparr>))"
  "crb_inv N (sized N g) \<Longrightarrow> crb_inv N (sized N (g\<lparr>liveStream := live, leftedBytes := 0\<rparr>))"
  "crb_inv N (sized N g) \<Longrightarrow> crb_inv N ((sized N g)\<lparr>rb_name := nm\<rparr>)"
  using user_zero_wf [of N]
  by (auto simp: sized_def crb_inv_def crb_wf_def CleanAllConsumer_def CleanProductor_def list_all_iff)

lemma ALIGN_dvd: "a dvd ALIGN x a" by (simp add: ALIGN_def)

lemma CRingBuf_new_inv:
  assumes r: "CRingBuf_new ok up usr nm sz pers live g = Inr (Some (g', h'))"
    and i: "g = info_zero \<or> crb_inv N g" "ALIGN (nat sz) MMAP_MIN_PAGE_SIZE = N" "N < 2 ^ 31" "0 < up"
  shows "crb_inv N g' \<and> obj_wf N h'"
proof -
  define wr where "wr = (pers AND CRB_PERSONALITY_WRITER \<noteq> 0)"
  define h where "h = \<lparr>is_productor = wr, m_bufSize = N, m_userIdx = 0, m_lastWriteBytes = 0,
    m_lastWriteFrameType = CRB_FRAME_I_SLICE, m_lastAlignmentBytes = 0, m_lastReadBytes = 0\<rparr>"
  define g1 where "g1 = (if version g = 0 then g\<lparr>version := 1, videoBuffer := True\<rparr> else g)"
  define g2 where "g2 = (if GetIntalledUserNum g1 \<ge> 10 then CleanAllConsumer g1 else g1)"
  define g3 where "g3 = (if wr then (let g' = g2\<lparr>liveStream := live, leftedBytes := 0\<rparr>
    in if version g = 0 then g' else CleanAllConsumer (CleanProductor g')) else g2)"
  have c: "\<not> (usr = '''' \<or> nm = '''' \<or> sz \<le> 0 \<or> wr = (pers AND CRB_PERSONALITY_READER \<noteq> 0))"
    "\<not> (length usr \<ge> 32 \<or> length nm \<ge> 32)" "\<not> \<not> ok"
    using r by (auto simp: CRingBuf_new_def wr_def Let_def split: if_splits)
  have N: "0 < N" "4096 dvd N"
    using ALIGN_bounds(1) [of 4096 "nat sz"] ALIGN_dvd [of 4096 "nat sz"] i(2) c(1) by (auto simp: MMAP_MIN_PAGE_SIZE_def)
  have "crb_inv N (sized N g)" using i(1) sized_new [OF N i(3)] sized_inv by blast
  then have "crb_inv N (sized N g1)" using sized_keep(3) [of N g] by (simp add: g1_def)
  then have s2: "crb_inv N (sized N g2)" by (simp add: g2_def sized_keep)
  have "crb_inv N (sized N (CleanAllConsumer (CleanProductor (g2\<lparr>liveStream := live, leftedBytes := 0\<rparr>))))"
    "crb_inv N (sized N (g2\<lparr>liveStream := live, leftedBytes := 0\<rparr>))" using s2 by (simp_all add: sized_keep)
  with s2 have s3: "crb_inv N ((sized N g3)\<lparr>rb_name := nm @ drop (length nm) (rb_name g3)\<rparr>)" by (simp add: g3_def Let_def sized_keep)
  have key: "InstallUser up usr pers ((sized N g3)\<lparr>rb_name := nm @ drop (length nm) (rb_name g3)\<rparr>) h = Inr (Some (g', h'))"
    using r unfolding CRingBuf_new_def Let_def wr_def [symmetric] if_not_P [OF c(1)] if_not_P [OF c(2)] if_not_P [OF c(3)] i(2)
      g1_def [symmetric] g2_def [symmetric] h_def [symmetric] g3_def [unfolded Let_def, symmetric]
    by (simp add: sized_def)
  have "obj_wf N h" by (simp add: h_def obj_wf_def MAX_CONSUMER_NUM_def)
  from InstallUser_inv [OF key s3 this i(4)] show ?thesis .
qed

section \<open>All processes\<close>

record crb_sys =
  hdr :: RingBufInfo
  objs :: "CRingBuf list"

definition crb_put :: "nat \<Rightarrow> RingBufInfo \<Rightarrow> CRingBuf \<Rightarrow> crb_sys \<Rightarrow> crb_sys" where
  "crb_put k g h s = s\<lparr>hdr := g, objs := (objs s)[k := h]\<rparr>"

definition crb_start :: "crb_sys \<Rightarrow> bool" where
  "crb_start s \<longleftrightarrow> s = \<lparr>hdr = info_zero, objs = []\<rparr>"

text \<open>
  One call by one process, which holds the lock from start to end. A request for a frame releases
  the lock between its rounds: \<open>writeFrame\<close> is a request that nobody disturbs, while
  \<open>writeOpen\<close> and \<open>writeRound\<close> are its beginning and its rounds one by one, so that the
  reachable states include those of every interleaving of a request with the other processes. All
  processes open the file with the same size, and the machine has been up for some time.
\<close>

inductive crb_step :: "nat \<Rightarrow> crb_sys \<Rightarrow> crb_sys \<Rightarrow> bool" for N :: nat where
  new: "CRingBuf_new ok up usr nm sz pers live (hdr s) = Inr (Some (g, h)) \<Longrightarrow> ALIGN (nat sz) MMAP_MIN_PAGE_SIZE = N
    \<Longrightarrow> N < 2 ^ 31 \<Longrightarrow> 0 < up \<Longrightarrow> crb_step N s \<lparr>hdr = g, objs = objs s @ [h]\<rparr>"
| delete: "k < length (objs s) \<Longrightarrow> CRingBuf_delete (hdr s) (objs s ! k) = (rm, g)
    \<Longrightarrow> crb_step N s \<lparr>hdr = g, objs = take k (objs s) @ drop (Suc k) (objs s)\<rparr>"
| writeFrame: "k < length (objs s) \<Longrightarrow> \<forall>i. 0 < clk i \<Longrightarrow> RequestWriteFrame clk n type mode (hdr s) (objs s ! k) = Inr (p, g, h)
    \<Longrightarrow> crb_step N s (crb_put k g h s)"
| writeOpen: "k < length (objs s) \<Longrightarrow> m_userIdx (objs s ! k) = 0 \<Longrightarrow> 0 < up \<Longrightarrow> type \<noteq> CRB_FRAME_ANY
    \<Longrightarrow> crb_step N s (s\<lparr>hdr := write_open up type (hdr s) (objs s ! k)\<rparr>)"
| writeRound: "k < length (objs s) \<Longrightarrow> m_userIdx (objs s ! k) = 0 \<Longrightarrow> 0 < up \<Longrightarrow> type \<noteq> CRB_FRAME_ANY \<Longrightarrow> 0 < n
    \<Longrightarrow> n \<le> m_bufSize (objs s ! k) \<Longrightarrow> write_round up n type mode (hdr s) (objs s ! k) = Inr (d, p, g, h)
    \<Longrightarrow> crb_step N s (crb_put k g h s)"
| writePtr: "k < length (objs s) \<Longrightarrow> RequestWritePtr sz (hdr s) (objs s ! k) = Inr (p, g, h) \<Longrightarrow> crb_step N s (crb_put k g h s)"
| commitWrite: "k < length (objs s) \<Longrightarrow> CommitWrite n t (hdr s) (objs s ! k) = Inr (x, g, h) \<Longrightarrow> crb_step N s (crb_put k g h s)"
| discardLefted: "DiscardLeftedData (hdr s) = (x, g) \<Longrightarrow> crb_step N s (s\<lparr>hdr := g\<rparr>)"
| writeLog: "k < length (objs s) \<Longrightarrow> \<forall>i. 0 < clk i \<Longrightarrow> WriteLog clk b n mem (hdr s) (objs s ! k) = Inr (x, mem', g, h)
    \<Longrightarrow> crb_step N s (crb_put k g h s)"
| readPtr: "k < length (objs s) \<Longrightarrow> RequestReadPtr sz (hdr s) (objs s ! k) = Inr (p, h) \<Longrightarrow> crb_step N s (crb_put k (hdr s) h s)"
| readFrame: "k < length (objs s) \<Longrightarrow> RequestReadFrame type (hdr s) (objs s ! k) = Inr (p, l, key, g, h)
    \<Longrightarrow> crb_step N s (crb_put k g h s)"
| readStamp: "k < length (objs s) \<Longrightarrow> RequestReadNextFrameStamp type (hdr s) (objs s ! k) = Inr (p, l, t, key, g, h)
    \<Longrightarrow> crb_step N s (crb_put k g h s)"
| readFrames: "k < length (objs s) \<Longrightarrow> RequestReadContinuousFrames fuel want (hdr s) (objs s ! k) = Inr (Some (p, l, m, ds, g, h))
    \<Longrightarrow> crb_step N s (crb_put k g h s)"
| commitRead: "k < length (objs s) \<Longrightarrow> CommitRead n (hdr s) (objs s ! k) = Inr (x, g, h) \<Longrightarrow> crb_step N s (crb_put k g h s)"
| discardAll: "k < length (objs s) \<Longrightarrow> DiscardAllData (hdr s) (objs s ! k) = (g, h) \<Longrightarrow> crb_step N s (crb_put k g h s)"
| moveToTime: "k < length (objs s) \<Longrightarrow> IndexMoveToSpecifiedTime frame t (hdr s) (objs s ! k) = Inr (x, ft, g)
    \<Longrightarrow> crb_step N s (s\<lparr>hdr := g\<rparr>)"
| moveToOldest: "k < length (objs s) \<Longrightarrow> IndexMoveToOldest (hdr s) (objs s ! k) = (x, g) \<Longrightarrow> crb_step N s (s\<lparr>hdr := g\<rparr>)"
| resetAll: "k < length (objs s) \<Longrightarrow> 0 < up \<Longrightarrow> ResetAllUser up (hdr s) (objs s ! k) = Inr (x, g, h) \<Longrightarrow> crb_step N s (crb_put k g h s)"

definition crb_sys_inv :: "nat \<Rightarrow> crb_sys \<Rightarrow> bool" where
  "crb_sys_inv N s \<longleftrightarrow> crb_start s \<or> crb_inv N (hdr s) \<and> list_all (obj_wf N) (objs s)"

lemma crb_sys_inv_obj: "crb_sys_inv N s \<Longrightarrow> k < length (objs s) \<Longrightarrow> crb_inv N (hdr s) \<and> obj_wf N (objs s ! k)"
  by (auto simp: crb_sys_inv_def crb_start_def list_all_length)

lemma crb_sys_inv_put: "crb_sys_inv N s \<Longrightarrow> k < length (objs s) \<Longrightarrow> crb_inv N g \<and> obj_wf N h \<Longrightarrow> crb_sys_inv N (crb_put k g h s)"
  using set_update_subset_insert [of "objs s" k h] by (auto simp: crb_sys_inv_def crb_start_def crb_put_def list_all_iff)

lemma crb_sys_inv_hdr: "crb_sys_inv N s \<Longrightarrow> k < length (objs s) \<Longrightarrow> crb_inv N g \<Longrightarrow> crb_sys_inv N (s\<lparr>hdr := g\<rparr>)"
  by (auto simp: crb_sys_inv_def crb_start_def)

lemma RequestReadPtr_inv: "RequestReadPtr sz g h = Inr (p, h') \<Longrightarrow> crb_inv N g \<Longrightarrow> obj_wf N h \<Longrightarrow> obj_wf N h'"
  by (auto simp: RequestReadPtr_def split: if_splits intro: request_read_obj crb_inv_pos)

lemma crb_step_inv:
  assumes i: "crb_sys_inv N s" and st: "crb_step N s t"
  shows "crb_sys_inv N t"
  using st
proof cases
  case (new ok up usr nm sz pers live g h)
  have "hdr s = info_zero \<or> crb_inv N (hdr s)" using i by (auto simp: crb_sys_inv_def crb_start_def)
  from CRingBuf_new_inv [OF new(2) this new(3-5)] show ?thesis using i new(1) by (auto simp: crb_sys_inv_def crb_start_def)
next
  case (delete k rm g)
  have "crb_inv N g" using crb_sys_inv_obj [OF i delete(2)] CRingBuf_delete_inv [OF delete(3)] by blast
  moreover have "list_all (obj_wf N) (objs s)" using i delete(2) by (auto simp: crb_sys_inv_def crb_start_def)
  ultimately show ?thesis using delete(1) by (auto simp: crb_sys_inv_def list_all_iff dest: in_set_takeD in_set_dropD)
next
  case (discardLefted x g)
  then show ?thesis using i by (auto simp: DiscardLeftedData_def crb_sys_inv_def crb_start_def info_zero_def crb_keep)
qed (use crb_sys_inv_obj [OF i] in \<open>blast intro: crb_sys_inv_put [OF i] crb_sys_inv_hdr [OF i] dest: write_open_inv write_round_inv RequestWriteFrame_inv RequestWritePtr_inv
  CommitWrite_inv WriteLog_inv RequestReadPtr_inv RequestReadFrame_inv RequestReadNextFrameStamp_inv RequestReadContinuousFrames_inv
  CommitRead_inv DiscardAllData_inv IndexMoveToSpecifiedTime_inv IndexMoveToOldest_inv ResetAllUserNoLock_inv [folded ResetAllUser_def]\<close>)+

interpretation crb: machine crb_start "crb_step N" "crb_sys_inv N" for N
  by unfold_locales (simp add: crb_sys_inv_def, rule crb_step_inv)

end
