(* ===== verification/Crb_Trip.thy ===== *)
theory Crb_Trip
  imports Crb_Machine
begin

text \<open>A frame that is written, committed and read by a consumer that was waiting for it.\<close>

section \<open>The data area\<close>

lemma mirror_write_length [simp]: "length (mirror_write mem off bs) = length mem"
  by (induction bs arbitrary: mem off) simp_all

lemma mirror_write_before:
  "off < off' \<Longrightarrow> off' + length bs \<le> off + length mem \<Longrightarrow> mirror_write mem off' bs ! (off mod length mem) = mem ! (off mod length mem)"
proof (induction bs arbitrary: mem off')
  case (Cons b bs)
  have "off' mod length mem \<noteq> off mod length mem"
  proof
    assume "off' mod length mem = off mod length mem"
    then have "length mem dvd off' - off" using Cons.prems(1) by (simp add: mod_eq_dvd_iff_nat)
    then have "length mem \<le> off' - off" using Cons.prems(1) by (intro dvd_imp_le) simp_all
    then show False using Cons.prems by simp
  qed
  then show ?case using Cons.IH [of "Suc off'" "mem[off' mod length mem := b]"] Cons.prems by simp
qed simp

lemma mirror_write_read:
  "length bs \<le> length mem \<Longrightarrow> mirror_read (mirror_write mem off bs) off (length bs) = bs"
proof -
  assume l: "length bs \<le> length mem"
  have "mirror_write mem off bs ! ((off + i) mod length mem) = bs ! i" if "i < length bs" "length bs \<le> length mem" for i
    using that
  proof (induction bs arbitrary: mem off i)
    case (Cons b bs)
    show ?case
    proof (cases i)
      case 0
      have "off mod length mem < length mem" using Cons.prems by (intro mod_less_divisor) (cases mem, simp_all)
      then show ?thesis using 0 Cons.prems mirror_write_before [of off "Suc off" bs "mem[off mod length mem := b]"] by simp
    next
      case (Suc j)
      then show ?thesis using Cons.IH [of j "mem[off mod length mem := b]" "Suc off"] Cons.prems by simp
    qed
  qed simp
  then show ?thesis using l by (intro nth_equalityI) (simp_all add: mirror_read_def)
qed

section \<open>Committing and reading\<close>

lemma CommitWrite_commits:
  assumes r: "CommitWrite None t g h = Inr (CrbOk m, g', h')" and ty: "m_lastWriteFrameType h \<noteq> CRB_FRAME_ANY"
  shows "m = m_lastWriteBytes h" "0 < m" "is_productor h" "consumers g' = consumers g" "dataWriten g'" "liveStream g' = liveStream g"
    "PRODUCTOR_INDEX g' = ADVANCE_INDEX (PRODUCTOR_INDEX g) 1"
    "PRODUCTOR_OFFSET g' = ADVANCE_OFFSET2 (m_bufSize h) (PRODUCTOR_OFFSET g) m (m_lastAlignmentBytes h)"
    "\<exists>k q. frameIdx g' = (frameIdx g)[PRODUCTOR_INDEX g :=
       \<lparr>f_offset = ADVANCE_OFFSET (m_bufSize h) (PRODUCTOR_OFFSET g) (m_lastAlignmentBytes h), f_length = m,
        f_type = m_lastWriteFrameType h, f_continuous = k, f_requestTime = q, f_timeStamp = t\<rparr>]"
proof -
  have c: "is_productor h \<and> m_lastWriteBytes h \<noteq> 0" using r by (auto simp: CommitWrite_def split: if_splits)
  define f where "f = \<lparr>f_offset = ADVANCE_OFFSET (m_bufSize h) (PRODUCTOR_OFFSET g) (m_lastAlignmentBytes h), f_length = m,
    f_type = m_lastWriteFrameType h, f_continuous = (dataWriten g \<and> \<not> jumpOverHole g \<and> m_lastAlignmentBytes h = 0),
    f_requestTime = requestUptime (productor g), f_timeStamp = t\<rparr>"
  have "frameIdx g' = (frameIdx g)[PRODUCTOR_INDEX g := f]"
    using r c ty by (auto simp: f_def CommitWrite_def IndexAdd_def upd_productor_def upd_acct_def Let_def split: if_splits)
  then show "\<exists>k q. frameIdx g' = (frameIdx g)[PRODUCTOR_INDEX g :=
       \<lparr>f_offset = ADVANCE_OFFSET (m_bufSize h) (PRODUCTOR_OFFSET g) (m_lastAlignmentBytes h), f_length = m,
        f_type = m_lastWriteFrameType h, f_continuous = k, f_requestTime = q, f_timeStamp = t\<rparr>]"
    unfolding f_def by blast
  show "m = m_lastWriteBytes h" "0 < m" "is_productor h" "consumers g' = consumers g" "dataWriten g'" "liveStream g' = liveStream g"
    "PRODUCTOR_INDEX g' = ADVANCE_INDEX (PRODUCTOR_INDEX g) 1"
    "PRODUCTOR_OFFSET g' = ADVANCE_OFFSET2 (m_bufSize h) (PRODUCTOR_OFFSET g) m (m_lastAlignmentBytes h)"
    using r c ty by (auto simp: CommitWrite_def IndexAdd_def upd_productor_def upd_acct_def Let_def split: if_splits)
qed

lemma upd_consumer_field:
  "(\<And>u. fld (f u) = fld u) \<Longrightarrow> fld (consumers (upd_consumer c f g) ! i) = fld (consumers g ! i)"
  by (cases "i < length (consumers g)"; cases "c = i") (simp_all add: upd_consumer_def list_update_beyond)

lemma upd_consumer_live [simp]: "liveStream (upd_consumer i f g) = liveStream g"
  by (simp add: upd_consumer_def)

lemma read_begin_same:
  "frameIdx (read_begin g h) = frameIdx g" "productor (read_begin g h) = productor g" "liveStream (read_begin g h) = liveStream g"
  "u_index (consumers (read_begin g h) ! i) = u_index (consumers g ! i)"
  "waitIFrame (consumers (read_begin g h) ! i) = waitIFrame (consumers g ! i)"
proof -
  obtain hs where hs: "DeleteBlackHoleOwnedBy (u_name (consumers g ! m_userIdx h)) g = g\<lparr>holes := hs\<rparr>"
    unfolding DeleteBlackHoleOwnedBy_def using delete_loop_frame by blast
  have f: "u_index (upd_acct F u) = u_index u" "waitIFrame (upd_acct F u) = waitIFrame u" for F u by (simp_all add: upd_acct_def)
  show "frameIdx (read_begin g h) = frameIdx g" "productor (read_begin g h) = productor g" "liveStream (read_begin g h) = liveStream g"
    by (simp_all add: read_begin_def Let_def hs ClearConsumerTimeOut_def)
  show "u_index (consumers (read_begin g h) ! i) = u_index (consumers g ! i)"
    by (simp add: read_begin_def Let_def hs ClearConsumerTimeOut_def upd_consumer_field [where fld = u_index] f)
  show "waitIFrame (consumers (read_begin g h) ! i) = waitIFrame (consumers g ! i)"
    by (simp add: read_begin_def Let_def hs ClearConsumerTimeOut_def upd_consumer_field [where fld = waitIFrame] f)
qed

lemma RequestReadFrame_first:
  assumes i: "u_index (consumers g ! m_userIdx h) = i" "i < MAX_FRAME_NUM" "PRODUCTOR_INDEX g < MAX_FRAME_NUM" "i \<noteq> PRODUCTOR_INDEX g"
    and f: "frameIdx g ! i = f" "wanted_type g (m_userIdx h) type \<in> {CRB_FRAME_ANY, f_type f}"
    and o: "\<not> is_productor h" "m_userIdx h \<le> MAX_CONSUMER_NUM" "0 < f_length f" "PRODUCTOR_OFFSET g \<noteq> f_offset f"
      "f_length f \<le> BUFFER_LEN (m_bufSize h) (f_offset f) (PRODUCTOR_OFFSET g)"
  shows "\<exists>g' h'. RequestReadFrame type g h
    = Inr (PAt (f_offset f), Some (int (f_length f)), Some (f_type f = CRB_FRAME_I_SLICE), g', h')"
proof -
  have w: "wanted_type (read_begin g h) (m_userIdx h) type \<in> {CRB_FRAME_ANY, f_type f}"
    using f(2) by (simp add: wanted_type_def read_begin_same)
  have "IndexFindNextFrame (read_begin g h) (PRODUCTOR_INDEX g) i (wanted_type (read_begin g h) (m_userIdx h) type) None = Inr (Some i)"
    using i(2-4) w f(1) by (auto simp: IndexFindNextFrame_def find_forward.simps [of _ "PRODUCTOR_INDEX g" i] read_begin_same)
  moreover have "request_read (f_offset f) (PRODUCTOR_OFFSET g) (f_length f) h = (PAt (f_offset f), h\<lparr>m_lastReadBytes := f_length f\<rparr>)"
    using o by (auto simp: request_read_def GetReadableSize_def)
  ultimately show ?thesis using i(1,2) f(1) by (simp add: RequestReadFrame_def Let_def read_begin_same)
qed

section \<open>From the request to the reader\<close>

lemma written_frame_is_found:
  assumes w: "RequestWriteFrame clk n type mode g h = Inr (PAt x, g1, h1)" and up: "\<forall>i. 0 < clk i"
    and i: "crb_inv N g" "obj_wf N h" "obj_wf N h2"
    and c: "CommitWrite None t g1 h1 = Inr (CrbOk m, g2, h1')"
    and r: "\<not> is_productor h2" "u_index (consumers g1 ! m_userIdx h2) = PRODUCTOR_INDEX g1"
      "type = CRB_FRAME_I_SLICE \<or> \<not> (liveStream g1 \<and> waitIFrame (consumers g1 ! m_userIdx h2))"
  shows "m = n \<and> 0 < n \<and> n < N \<and> (\<exists>g3 h3. RequestReadFrame CRB_FRAME_ANY g2 h2
    = Inr (PAt x, Some (int n), Some (type = CRB_FRAME_I_SLICE), g3, h3))"
proof -
  have ty: "type \<noteq> CRB_FRAME_ANY" using w by (auto simp: RequestWriteFrame_def split: if_splits)
  obtain al g0 h0 h0' where gr: "crb_inv N g1" "obj_wf N h1" "crb_inv N g0" "granted N x n al g0 h0 g1 h0'"
      "h1 = h0'\<lparr>m_lastWriteFrameType := type\<rparr>"
    using RequestWriteFrame_inv [OF w i(1,2) up] by blast
  define a where "a = m_lastAlignmentBytes h1"
  define p where "p = PRODUCTOR_INDEX g1"
  have f: "m_lastWriteBytes h1 = n" "x = (PRODUCTOR_OFFSET g1 + a) mod N" "a + n < N" "m_lastWriteFrameType h1 = type"
    using gr(4,5) min_writable_le(1) [of g0 N] by (auto simp: granted_def a_def)
  have N: "m_bufSize h1 = N" "m_bufSize h2 = N" "m_userIdx h2 \<le> MAX_CONSUMER_NUM" using gr(2) i(3) by (simp_all add: obj_wf_def)
  have "m_lastWriteFrameType h1 \<noteq> CRB_FRAME_ANY" using ty f(4) by simp
  note cm = CommitWrite_commits [OF c this, unfolded f N, folded a_def p_def]
  obtain k q where fr: "frameIdx g2 = (frameIdx g1)[p := \<lparr>f_offset = x, f_length = m, f_type = type, f_continuous = k,
      f_requestTime = q, f_timeStamp = t\<rparr>]"
    using cm(9) by (auto simp: f(2) ADVANCE_OFFSET_def)
  have p: "p < MAX_FRAME_NUM" "length (frameIdx g1) = MAX_FRAME_NUM"
    using gr(1) crb_inv_productor [OF gr(1)] by (simp_all add: p_def user_wf_def crb_inv_def crb_wf_def)
  define fm where "fm = frameIdx g2 ! p"
  have fm: "f_offset fm = x" "f_length fm = n" "f_type fm = type" using fr p cm(1) by (simp_all add: fm_def)
  have ne: "p \<noteq> ADVANCE_INDEX p 1" using p(1) by (auto simp: ADVANCE_INDEX_def MAX_FRAME_NUM_def mod_if)
  have xN: "x < N" using f(2,3) by simp
  have o: "PRODUCTOR_OFFSET g2 = (x + n) mod N"
    unfolding cm(8) f(2) cm(1) ADVANCE_OFFSET2_def mod_add_left_eq by (simp add: ac_simps)
  then have b: "BUFFER_LEN N x (PRODUCTOR_OFFSET g2) = n" using BUFFER_LEN_advance [OF xN] f(3) by simp
  then have "PRODUCTOR_OFFSET g2 \<noteq> x" using cm(1,2) xN by (auto simp: BUFFER_LEN_def)
  moreover have "wanted_type g2 (m_userIdx h2) CRB_FRAME_ANY \<in> {CRB_FRAME_ANY, type}"
    using r(3) cm(4,6) by (auto simp: wanted_type_def)
  moreover have "u_index (consumers g2 ! m_userIdx h2) = p" using r(2) cm(4) by (simp add: p_def)
  ultimately have "\<exists>g3 h3. RequestReadFrame CRB_FRAME_ANY g2 h2
      = Inr (PAt (f_offset fm), Some (int (f_length fm)), Some (f_type fm = CRB_FRAME_I_SLICE), g3, h3)"
    by (intro RequestReadFrame_first [where i = p])
      (use p(1) ne r(1) N cm(1,2,7) b fm in \<open>simp_all add: fm_def [symmetric]\<close>)
  then show ?thesis using fm cm(1,2) f(3) by simp
qed

end
