(* ===== verification/Rb_Api.thy ===== *)
theory Rb_Api
  imports Crb_Trip
begin

text \<open>
  The C interface of the ring (\<open>common/ringbuffer/ringbuffer.cpp\<close>) and the media services on top
  of it (\<open>media_service_rb_writer.c\<close>, \<open>media_service_rb_reader.c\<close>). A context is \<open>None\<close> where the
  code is given a null pointer. The pointer to the ring object is never null, but an object whose
  constructor gave up has a null header: that is \<open>ringbuf = None\<close>, and a method called on it is
  a fault. User names are the printed address of the context, an argument here.
\<close>

section \<open>Contexts\<close>

datatype eRbWriteMode = RBWRITE_MODE_BLOCK | RBWRITE_MODE_BLOCK_NON

record RingBufferInfo_t =
  writemode :: eRbWriteMode
  buflen :: int
  livestream :: bool

record RingBufferCtx_t =
  username :: string
  rbinfo :: RingBufferInfo_t
  ringbuf :: "CRingBuf option"

text \<open>An \<open>int\<close> passed as \<open>uint32_t\<close>.\<close>

definition as_u32 :: "int \<Rightarrow> nat" where
  "as_u32 n = nat (n mod 2 ^ 32)"

definition access_mode :: "RingBufferCtx_t \<Rightarrow> CRB_WRITE_MODE_E" where
  "access_mode c = (if writemode (rbinfo c) = RBWRITE_MODE_BLOCK then CRB_WRITE_MODE_BLOCK else CRB_WRITE_MODE_NON_BLOCK)"

definition rb_init :: "nat \<Rightarrow> bool \<Rightarrow> bool \<Rightarrow> int \<Rightarrow> string \<Rightarrow> RingBufferInfo_t \<Rightarrow> string \<Rightarrow> RingBufInfo
    \<Rightarrow> (RingBufferCtx_t option \<times> RingBufInfo) result" where
  "rb_init personality alloc_ok sys_ok up name info rbname g =
    (if \<not> alloc_ok then Inr (None, g)
     else case CRingBuf_new sys_ok up name rbname (buflen info) personality False g of Inl e \<Rightarrow> Inl e
      | Inr None \<Rightarrow> Inr (Some \<lparr>username = name, rbinfo = info, ringbuf = None\<rparr>, g)
      | Inr (Some (g, h)) \<Rightarrow> Inr (Some \<lparr>username = name, rbinfo = info, ringbuf = Some h\<rparr>, g))"

definition ringbuffer_writer_init :: "bool \<Rightarrow> bool \<Rightarrow> int \<Rightarrow> string \<Rightarrow> RingBufferInfo_t \<Rightarrow> string \<Rightarrow> RingBufInfo
    \<Rightarrow> (int \<times> RingBufferCtx_t option \<times> RingBufInfo) result" where
  "ringbuffer_writer_init alloc_ok sys_ok up name info rbname g =
    (case rb_init CRB_PERSONALITY_WRITER alloc_ok sys_ok up name info rbname g of Inl e \<Rightarrow> Inl e
     | Inr (None, g) \<Rightarrow> Inr (-1, None, g)
     | Inr (Some c, g) \<Rightarrow> Inr (0, Some c, g))"

text \<open>Both \<open>deinit\<close> functions; the destructor reads the header.\<close>

definition ringbuffer_deinit :: "RingBufferCtx_t option \<Rightarrow> RingBufInfo \<Rightarrow> (int \<times> RingBufInfo) result" where
  "ringbuffer_deinit ctx g =
    (case ctx of None \<Rightarrow> Inr (0, g)
     | Some c \<Rightarrow> (case ringbuf c of None \<Rightarrow> Inl NullPointer | Some h \<Rightarrow> Inr (0, snd (CRingBuf_delete g h))))"

section \<open>Writing\<close>

definition ringbuffer_writer_data :: "(nat \<Rightarrow> int) \<Rightarrow> RingBufferCtx_t option \<Rightarrow> bytes \<Rightarrow> int \<Rightarrow> int \<Rightarrow> int \<Rightarrow> bytes \<Rightarrow> RingBufInfo
    \<Rightarrow> (int \<times> bytes \<times> RingBufInfo \<times> RingBufferCtx_t option) result" where
  "ringbuffer_writer_data clk ctx buf datalen iskey frameTime mem g =
    (case ctx of None \<Rightarrow> Inr (-1, mem, g, None)
     | Some c \<Rightarrow>
        (case ringbuf c of None \<Rightarrow> Inl NullPointer
         | Some h \<Rightarrow>
            (case RequestWriteFrame clk (as_u32 datalen) (if iskey > 0 then CRB_FRAME_I_SLICE else CRB_FRAME_P_SLICE) (access_mode c) g h of
               Inl e \<Rightarrow> Inl e
             | Inr (PAt x, g, h) \<Rightarrow>
                if int (length buf) < datalen then Inl BufferOverrun
                else (case CommitWrite None frameTime g h of Inl e \<Rightarrow> Inl e
                  | Inr (_, g, h) \<Rightarrow> Inr (0, mirror_write mem x (take (nat datalen) buf), g, Some (c\<lparr>ringbuf := Some h\<rparr>)))
             | Inr (_, g, h) \<Rightarrow> Inr (-1, mem, g, Some (c\<lparr>ringbuf := Some h\<rparr>)))))"

text \<open>Here the key flag is 0 for an I slice, 1 for a P slice, 2 for audio, and anything else an I slice.\<close>

definition frame_type_of :: "int \<Rightarrow> FRAME_E" where
  "frame_type_of iskey = (if iskey = 2 then CRB_FRAME_AUDIO else if iskey = 1 then CRB_FRAME_P_SLICE else CRB_FRAME_I_SLICE)"

text \<open>The buffer is \<open>None\<close> where the code leaves the caller's pointer alone.\<close>

definition ringbuffer_writer_data_request :: "(nat \<Rightarrow> int) \<Rightarrow> RingBufferCtx_t option \<Rightarrow> int \<Rightarrow> int \<Rightarrow> RingBufInfo
    \<Rightarrow> (int \<times> nat option \<times> RingBufInfo \<times> RingBufferCtx_t option) result" where
  "ringbuffer_writer_data_request clk ctx bufferlen iskey g =
    (case ctx of None \<Rightarrow> Inr (-1, None, g, None)
     | Some c \<Rightarrow>
        (case ringbuf c of None \<Rightarrow> Inl NullPointer
         | Some h \<Rightarrow>
            (case RequestWriteFrame clk (as_u32 bufferlen) (frame_type_of iskey) (access_mode c) g h of
               Inl e \<Rightarrow> Inl e
             | Inr (PAt x, g, h) \<Rightarrow> Inr (0, Some x, g, Some (c\<lparr>ringbuf := Some h\<rparr>))
             | Inr (_, g, h) \<Rightarrow> Inr (-1, None, g, Some (c\<lparr>ringbuf := Some h\<rparr>)))))"

definition ringbuffer_writer_data_commit :: "RingBufferCtx_t option \<Rightarrow> int \<Rightarrow> RingBufInfo
    \<Rightarrow> (int \<times> RingBufInfo \<times> RingBufferCtx_t option) result" where
  "ringbuffer_writer_data_commit ctx frameTime g =
    (case ctx of None \<Rightarrow> Inr (-1, g, None)
     | Some c \<Rightarrow>
        (case ringbuf c of None \<Rightarrow> Inl NullPointer
         | Some h \<Rightarrow>
            (case CommitWrite None frameTime g h of Inl e \<Rightarrow> Inl e
             | Inr (_, g, h) \<Rightarrow> Inr (0, g, Some (c\<lparr>ringbuf := Some h\<rparr>)))))"

section \<open>Reading\<close>

definition ringbuffer_reader_init :: "bool \<Rightarrow> bool \<Rightarrow> int \<Rightarrow> string \<Rightarrow> RingBufferInfo_t \<Rightarrow> string \<Rightarrow> int \<Rightarrow> RingBufInfo
    \<Rightarrow> (int \<times> RingBufferCtx_t option \<times> RingBufInfo) result" where
  "ringbuffer_reader_init alloc_ok sys_ok up name info rbname pretimes g =
    (case rb_init CRB_PERSONALITY_READER alloc_ok sys_ok up name info rbname g of Inl e \<Rightarrow> Inl e
     | Inr (None, g) \<Rightarrow> Inr (-1, None, g)
     | Inr (Some c, g) \<Rightarrow>
        (case ringbuf c of None \<Rightarrow> Inl NullPointer
         | Some h \<Rightarrow>
            (case IndexMoveToSpecifiedTime CRB_FRAME_I_SLICE pretimes g h of Inl e \<Rightarrow> Inl e
             | Inr (_, _, g) \<Rightarrow> Inr (0, Some c, g))))"

definition ringbuffer_reader_move_to_time :: "RingBufferCtx_t option \<Rightarrow> int \<Rightarrow> RingBufInfo \<Rightarrow> (int \<times> RingBufInfo) result" where
  "ringbuffer_reader_move_to_time ctx pretimes g =
    (case ctx of None \<Rightarrow> Inr (-1, g)
     | Some c \<Rightarrow>
        (case ringbuf c of None \<Rightarrow> Inl NullPointer
         | Some h \<Rightarrow>
            (case IndexMoveToSpecifiedTime CRB_FRAME_I_SLICE pretimes g h of Inl e \<Rightarrow> Inl e
             | Inr (r, _, g) \<Rightarrow> Inr (if r \<noteq> 0 then -1 else 0, g))))"

definition ringbuffer_reader_oldest :: "RingBufferCtx_t option \<Rightarrow> RingBufInfo \<Rightarrow> (int \<times> RingBufInfo) result" where
  "ringbuffer_reader_oldest ctx g =
    (case ctx of None \<Rightarrow> Inr (-1, g)
     | Some c \<Rightarrow> (case ringbuf c of None \<Rightarrow> Inl NullPointer | Some h \<Rightarrow> Inr (0, snd (IndexMoveToOldest g h))))"

text \<open>The search only answers; success is index 0, and no consumer is moved.\<close>

definition ringbuffer_reader_latest :: "RingBufferCtx_t option \<Rightarrow> RingBufInfo \<Rightarrow> int result" where
  "ringbuffer_reader_latest ctx g =
    (case ctx of None \<Rightarrow> Inr (-1)
     | Some c \<Rightarrow>
        (case ringbuf c of None \<Rightarrow> Inl NullPointer
         | Some h \<Rightarrow>
            (case IndexFindLatestIFrame g (m_bufSize h) of Inl e \<Rightarrow> Inl e
             | Inr i \<Rightarrow> Inr (if i = Some 0 then 0 else -1))))"

definition ringbuffer_reader_discard_all_data :: "RingBufferCtx_t option \<Rightarrow> RingBufInfo
    \<Rightarrow> (int \<times> RingBufInfo \<times> RingBufferCtx_t option) result" where
  "ringbuffer_reader_discard_all_data ctx g =
    (case ctx of None \<Rightarrow> Inr (-1, g, None)
     | Some c \<Rightarrow>
        (case ringbuf c of None \<Rightarrow> Inl NullPointer
         | Some h \<Rightarrow> (case DiscardAllData g h of (g, h) \<Rightarrow> Inr (0, g, Some (c\<lparr>ringbuf := Some h\<rparr>)))))"

text \<open>The data pointer and the length are \<open>None\<close> where the code leaves the caller's variables alone.\<close>

definition ringbuffer_reader_data_request :: "RingBufferCtx_t option \<Rightarrow> RingBufInfo
    \<Rightarrow> (int \<times> crb_ptr option \<times> int option \<times> bool option \<times> RingBufInfo \<times> RingBufferCtx_t option) result" where
  "ringbuffer_reader_data_request ctx g =
    (case ctx of None \<Rightarrow> Inr (-1, None, None, None, g, None)
     | Some c \<Rightarrow>
        (case ringbuf c of None \<Rightarrow> Inl NullPointer
         | Some h \<Rightarrow>
            (case RequestReadFrame CRB_FRAME_ANY g h of Inl e \<Rightarrow> Inl e
             | Inr (p, len, key, g, h) \<Rightarrow>
                Inr (if CRB_VALID_ADDRESS p \<and> (case len of Some n \<Rightarrow> n > 0 | None \<Rightarrow> False) then 0 else -1,
                     Some p, len, key, g, Some (c\<lparr>ringbuf := Some h\<rparr>)))))"

definition ringbuffer_reader_data_commit :: "RingBufferCtx_t option \<Rightarrow> int \<Rightarrow> RingBufInfo
    \<Rightarrow> (int \<times> RingBufInfo \<times> RingBufferCtx_t option) result" where
  "ringbuffer_reader_data_commit ctx datalen g =
    (case ctx of None \<Rightarrow> Inr (-1, g, None)
     | Some c \<Rightarrow>
        if datalen \<le> 0 then Inr (-1, g, Some c)
        else (case ringbuf c of None \<Rightarrow> Inl NullPointer
         | Some h \<Rightarrow>
            (case CommitRead None g h of Inl e \<Rightarrow> Inl e
             | Inr (_, g, h) \<Rightarrow> Inr (0, g, Some (c\<lparr>ringbuf := Some h\<rparr>)))))"

section \<open>The media services\<close>

fun dec_digits :: "nat \<Rightarrow> string" where
  "dec_digits n = (if n < 10 then [''0123456789'' ! n] else dec_digits (n div 10) @ [''0123456789'' ! (n mod 10)])"

declare dec_digits.simps [simp del]

definition dec :: "int \<Rightarrow> string" where
  "dec n = (if n < 0 then ''-'' @ dec_digits (nat (- n)) else dec_digits (nat n))"

text \<open>The service name, cut to 63 characters.\<close>

definition service_id :: "string \<Rightarrow> int \<Rightarrow> int \<Rightarrow> string" where
  "service_id devicename deviceid mediatype = take 63 (devicename @ ''_'' @ dec deviceid @ ''_'' @ dec mediatype)"

definition MSG_TYPE_VIDEO :: nat where "MSG_TYPE_VIDEO = 0"
definition MSG_TYPE_AUDIO :: nat where "MSG_TYPE_AUDIO = 1"
definition VIDEO_FRAME_I_FRAME :: nat where "VIDEO_FRAME_I_FRAME = 2"

text \<open>A message: the bytes of the whole packed structure, those of its fields that are used, and
  what its data pointer points to.\<close>

record media_message_t =
  head_bytes :: bytes
  meidaType :: nat
  frametype :: nat
  wTimestamp :: int
  framelen :: u32
  framedata :: bytes

definition media_service_rb_writer_register :: "bool \<Rightarrow> bool \<Rightarrow> int \<Rightarrow> string \<Rightarrow> string \<Rightarrow> int \<Rightarrow> int \<Rightarrow> RingBufferInfo_t \<Rightarrow> RingBufInfo
    \<Rightarrow> (int \<times> RingBufferCtx_t option \<times> RingBufInfo) result" where
  "media_service_rb_writer_register alloc_ok sys_ok up name devicename deviceid mediatype info g =
    ringbuffer_writer_init alloc_ok sys_ok up name info (service_id devicename deviceid mediatype) g"

definition media_service_rb_writer_unregister :: "RingBufferCtx_t option \<Rightarrow> RingBufInfo \<Rightarrow> (int \<times> RingBufInfo) result" where
  "media_service_rb_writer_unregister ctx g = map_sum id (\<lambda>(_, g). (0, g)) (ringbuffer_deinit ctx g)"

definition message_key :: "media_message_t \<Rightarrow> int" where
  "message_key m =
    (if meidaType m = MSG_TYPE_AUDIO then 2
     else if meidaType m = MSG_TYPE_VIDEO then if frametype m = VIDEO_FRAME_I_FRAME then 0 else 1
     else -1)"

text \<open>The room asked for is the sum of the lengths as an \<open>int\<close>; both copies go to it. The frame is
  committed for audio and video only.\<close>

definition media_service_rb_writer_trigger :: "(nat \<Rightarrow> int) \<Rightarrow> RingBufferCtx_t option \<Rightarrow> media_message_t option \<Rightarrow> bytes \<Rightarrow> RingBufInfo
    \<Rightarrow> (int \<times> bytes \<times> RingBufInfo \<times> RingBufferCtx_t option) result" where
  "media_service_rb_writer_trigger clk ctx msg mem g =
    (case (ctx, msg) of
       (Some c, Some m) \<Rightarrow>
        (case ringbuffer_writer_data_request clk ctx (int (length (head_bytes m) + unat (framelen m))) (message_key m) g of
           Inl e \<Rightarrow> Inl e
         | Inr (ret, buffer, g, ctx) \<Rightarrow>
            (case buffer of
               None \<Rightarrow> Inr (ret, mem, g, ctx)
             | Some x \<Rightarrow>
                if as_u32 (int (length (head_bytes m) + unat (framelen m))) < length (head_bytes m) + unat (framelen m)
                  \<or> length (framedata m) < unat (framelen m)
                then Inl BufferOverrun
                else
                  let mem = mirror_write mem x (head_bytes m @ take (unat (framelen m)) (framedata m))
                  in if meidaType m = MSG_TYPE_VIDEO \<or> meidaType m = MSG_TYPE_AUDIO
                     then (case ringbuffer_writer_data_commit ctx (if meidaType m = MSG_TYPE_VIDEO then wTimestamp m else 0) g of
                             Inl e \<Rightarrow> Inl e
                           | Inr (ret, g, ctx) \<Rightarrow> Inr (ret, mem, g, ctx))
                     else Inr (ret, mem, g, ctx)))
     | _ \<Rightarrow> Inr (-1, mem, g, ctx))"

definition media_service_rb_reader_register :: "bool \<Rightarrow> bool \<Rightarrow> int \<Rightarrow> string \<Rightarrow> string \<Rightarrow> int \<Rightarrow> int \<Rightarrow> RingBufferInfo_t \<Rightarrow> int \<Rightarrow> RingBufInfo
    \<Rightarrow> (int \<times> RingBufferCtx_t option \<times> RingBufInfo) result" where
  "media_service_rb_reader_register alloc_ok sys_ok up name devicename deviceid mediatype info pretimes g =
    ringbuffer_reader_init alloc_ok sys_ok up name info (service_id devicename deviceid mediatype) pretimes g"

text \<open>The frame is committed at once; the caller uses the data afterwards.\<close>

definition media_service_rb_reader_proc :: "RingBufferCtx_t option \<Rightarrow> RingBufInfo
    \<Rightarrow> (int \<times> crb_ptr option \<times> int option \<times> RingBufInfo \<times> RingBufferCtx_t option) result" where
  "media_service_rb_reader_proc ctx g =
    (case ringbuffer_reader_data_request ctx g of Inl e \<Rightarrow> Inl e
     | Inr (ret, p, len, key, g, ctx) \<Rightarrow>
        if ret = 0
        then (case ringbuffer_reader_data_commit ctx (the len) g of Inl e \<Rightarrow> Inl e
              | Inr (_, g, ctx) \<Rightarrow> Inr (ret, p, len, g, ctx))
        else Inr (ret, p, len, g, ctx))"

definition media_service_rb_reader_unregister :: "RingBufferCtx_t option \<Rightarrow> RingBufInfo \<Rightarrow> (int \<times> RingBufInfo) result" where
  "media_service_rb_reader_unregister ctx g =
    (if ctx = None then Inr (-1, g) else ringbuffer_deinit ctx g)"

section \<open>A message through the ring\<close>

lemma trigger_writes:
  assumes t: "media_service_rb_writer_trigger clk (Some c) (Some m) mem g = Inr (0, mem', g2, c')"
    and h: "ringbuf c = Some h" and ty: "meidaType m = MSG_TYPE_VIDEO \<or> meidaType m = MSG_TYPE_AUDIO"
  defines "bs \<equiv> head_bytes m @ take (unat (framelen m)) (framedata m)"
  shows "\<exists>x g1 h1 tm r h2. RequestWriteFrame clk (length bs) (frame_type_of (message_key m)) (access_mode c) g h = Inr (PAt x, g1, h1)
    \<and> CommitWrite None tm g1 h1 = Inr (r, g2, h2) \<and> mem' = mirror_write mem x bs \<and> c' = Some (c\<lparr>ringbuf := Some h2\<rparr>)"
proof -
  define n where "n = length (head_bytes m) + unat (framelen m)"
  define tm where "tm = (if meidaType m = MSG_TYPE_VIDEO then wTimestamp m else 0)"
  obtain ret b g1 c1 where q: "ringbuffer_writer_data_request clk (Some c) (int n) (message_key m) g = Inr (ret, b, g1, c1)"
    using t by (auto simp: media_service_rb_writer_trigger_def n_def [symmetric] split: sum.splits)
  note t1 = t [unfolded media_service_rb_writer_trigger_def prod.case option.case, folded n_def tm_def, unfolded q sum.case prod.case]
  have "ret = 0 \<or> ret = -1" "b = None \<longleftrightarrow> ret = -1"
    using q h by (auto simp: ringbuffer_writer_data_request_def split: sum.splits crb_ptr.splits)
  then obtain x where b: "b = Some x" "ret = 0" using t1 by (cases b) auto
  then obtain h1 where w: "RequestWriteFrame clk (as_u32 (int n)) (frame_type_of (message_key m)) (access_mode c) g h = Inr (PAt x, g1, h1)"
      "c1 = Some (c\<lparr>ringbuf := Some h1\<rparr>)"
    using q h by (auto simp: ringbuffer_writer_data_request_def split: sum.split_asm crb_ptr.split_asm)
  have f: "\<not> as_u32 (int n) < n" "\<not> length (framedata m) < unat (framelen m)" using t1 b by (auto split: if_splits)
  then have "as_u32 (int n) = n" by (simp add: as_u32_def)
  moreover have "length bs = n" using f(2) by (simp add: bs_def n_def)
  moreover obtain r h2 where "CommitWrite None tm g1 h1 = Inr (r, g2, h2)" "c' = Some (c\<lparr>ringbuf := Some h2\<rparr>)" "mem' = mirror_write mem x bs"
    using t1 b w(2) f ty by (auto simp: ringbuffer_writer_data_commit_def Let_def bs_def split: sum.split_asm)
  ultimately show ?thesis using w(1) by auto
qed

text \<open>Whether the consumer of an object waits at the producer's index after the last commit, and may
  take a frame of that type.\<close>

definition waits_for :: "RingBufInfo \<Rightarrow> CRingBuf \<Rightarrow> FRAME_E \<Rightarrow> bool" where
  "waits_for g h type \<longleftrightarrow> \<not> is_productor h \<and> ADVANCE_INDEX (u_index (consumers g ! m_userIdx h)) 1 = PRODUCTOR_INDEX g
    \<and> (type = CRB_FRAME_I_SLICE \<or> \<not> (liveStream g \<and> waitIFrame (consumers g ! m_userIdx h)))"

lemma advance_index_inj: "i < MAX_FRAME_NUM \<Longrightarrow> j < MAX_FRAME_NUM \<Longrightarrow> ADVANCE_INDEX i 1 = ADVANCE_INDEX j 1 \<Longrightarrow> i = j"
  by (auto simp: ADVANCE_INDEX_def MAX_FRAME_NUM_def mod_if split: if_splits)

lemma message_type: "frame_type_of (message_key m) \<noteq> CRB_FRAME_ANY"
  by (simp add: frame_type_of_def)

lemma CommitRead_ok: "\<not> is_productor h \<Longrightarrow> \<exists>e g' h'. CommitRead None g h = Inr (e, g', h')"
  by (auto simp: CommitRead_def Let_def)

lemma RequestReadFrame_productor:
  "RequestReadFrame type g h = Inr (p, n, k, g', h') \<Longrightarrow> is_productor h' = is_productor h"
  by (auto simp: RequestReadFrame_def request_read_def Let_def split: if_splits sum.splits option.splits)

lemma request_write_productor:
  "request_write n al b g h = Inr (p, out, g', h') \<Longrightarrow> is_productor h' = is_productor h \<and> (CRB_VALID_ADDRESS p \<longrightarrow> is_productor h)"
  by (auto simp: request_write_def Let_def split: if_splits sum.splits)

lemma write_round_productor:
  "write_round up n type mode g h = Inr (d, p, g', h') \<Longrightarrow> is_productor h' = is_productor h \<and> (CRB_VALID_ADDRESS p \<longrightarrow> is_productor h)"
  by (auto simp: write_round_def Let_def dest!: request_write_productor split: if_splits sum.splits)

lemma write_loop_productor:
  "write_loop clk n type mode left g h = Inr (p, g', h') \<Longrightarrow> is_productor h' = is_productor h \<and> (CRB_VALID_ADDRESS p \<longrightarrow> is_productor h)"
  by (induction left arbitrary: g h) (auto dest!: write_round_productor split: if_splits sum.splits)

lemma RequestWriteFrame_productor: "RequestWriteFrame clk n type mode g h = Inr (PAt x, g', h') \<Longrightarrow> is_productor h'"
  by (auto simp: RequestWriteFrame_def write_open_def Let_def dest!: write_loop_productor split: if_splits)

lemma message_arrives:
  assumes t: "media_service_rb_writer_trigger clk (Some cw) (Some m) mem g = Inr (0, mem', g2, cw')"
    and up: "\<forall>i. 0 < clk i" and i: "crb_inv N g" "obj_wf N h" "obj_wf N hr" "length mem = N"
    and c: "ringbuf cw = Some h" "ringbuf cr = Some hr"
    and ty: "meidaType m = MSG_TYPE_VIDEO \<or> meidaType m = MSG_TYPE_AUDIO"
    and w: "waits_for g2 hr (frame_type_of (message_key m))"
  shows "\<exists>x n g3 cr'. media_service_rb_reader_proc (Some cr) g2 = Inr (0, Some (PAt x), Some (int n), g3, cr')
    \<and> mirror_read mem' x n = head_bytes m @ take (unat (framelen m)) (framedata m)"
proof -
  define bs where "bs = head_bytes m @ take (unat (framelen m)) (framedata m)"
  obtain x g1 h1 tm r h2 where q: "RequestWriteFrame clk (length bs) (frame_type_of (message_key m)) (access_mode cw) g h = Inr (PAt x, g1, h1)"
      "CommitWrite None tm g1 h1 = Inr (r, g2, h2)" "mem' = mirror_write mem x bs"
    using trigger_writes [OF t c(1) ty] unfolding bs_def by blast
  obtain al g0 h0 h0' where gr: "crb_inv N g1" "obj_wf N h1" "granted N x (length bs) al g0 h0 g1 h0'"
      "h1 = h0'\<lparr>m_lastWriteFrameType := frame_type_of (message_key m)\<rparr>"
    using RequestWriteFrame_inv [OF q(1) i(1,2) up] by blast
  have pos: "0 < m_lastWriteBytes h1" using gr(3,4) by (auto simp: granted_def)
  have pr: "is_productor h1" using RequestWriteFrame_productor [OF q(1)] .
  obtain n where r: "r = CrbOk n" using q(2) pos pr by (auto simp: CommitWrite_def Let_def split: if_splits sum.splits)
  have lw: "m_lastWriteFrameType h1 = frame_type_of (message_key m)" using gr(4) by simp
  note cm = CommitWrite_commits [OF q(2) [unfolded r] message_type [of m, folded lw]]
  have "u_index (consumers g1 ! m_userIdx hr) < MAX_FRAME_NUM" "PRODUCTOR_INDEX g1 < MAX_FRAME_NUM"
    using crb_inv_consumer [OF gr(1)] crb_inv_productor [OF gr(1)] i(3) by (simp_all add: user_wf_def obj_wf_def)
  then have "u_index (consumers g1 ! m_userIdx hr) = PRODUCTOR_INDEX g1"
    using w cm(4,7) advance_index_inj by (simp add: waits_for_def)
  moreover have "\<not> is_productor hr"
    "frame_type_of (message_key m) = CRB_FRAME_I_SLICE \<or> \<not> (liveStream g1 \<and> waitIFrame (consumers g1 ! m_userIdx hr))"
    using w cm(4,6) by (auto simp: waits_for_def)
  ultimately obtain g3 h3 where rd: "n = length bs" "0 < length bs" "length bs < N" "RequestReadFrame CRB_FRAME_ANY g2 hr
      = Inr (PAt x, Some (int n), Some (frame_type_of (message_key m) = CRB_FRAME_I_SLICE), g3, h3)"
    using written_frame_is_found [OF q(1) up i(1-3) q(2) [unfolded r]] by metis
  have "is_productor h3 = is_productor hr" using rd(4) by (rule RequestReadFrame_productor)
  then obtain e g4 h4 where "CommitRead None g3 h3 = Inr (e, g4, h4)" using CommitRead_ok w by (metis waits_for_def)
  then have "media_service_rb_reader_proc (Some cr) g2 = Inr (0, Some (PAt x), Some (int n), g4, Some (cr\<lparr>ringbuf := Some h4\<rparr>))"
    using rd c(2) by (simp add: media_service_rb_reader_proc_def ringbuffer_reader_data_request_def ringbuffer_reader_data_commit_def)
  moreover have "mirror_read mem' x n = bs" using mirror_write_read [of bs mem x] rd(1,3) i(4) q(3) by simp
  ultimately show ?thesis unfolding bs_def by blast
qed

lemma RequestWriteFrame_type:
  "RequestWriteFrame clk n type mode g h = Inr (PAt x, g', h') \<Longrightarrow> m_lastWriteFrameType h' = type"
proof -
  have l: "write_loop clk n type mode left g h = Inr (PAt x, g', h') \<Longrightarrow> m_lastWriteFrameType h' = type" for left g h
    by (induction left arbitrary: g h) (auto simp: write_round_def Let_def split: if_splits sum.splits crb_ptr.splits)
  show "RequestWriteFrame clk n type mode g h = Inr (PAt x, g', h') \<Longrightarrow> ?thesis"
    by (auto simp: RequestWriteFrame_def write_open_def Let_def dest!: l split: if_splits)
qed

end
