(* ===== verification/Crb_Held.thy ===== *)
theory Crb_Held
  imports Crb_Machine
begin

text \<open>
  A run of three processes at the end of which the producer is given room over a frame that a
  consumer still holds. Calls are data here, the run a function on states, and its value is computed
  by simplification.
\<close>

section \<open>Runs\<close>

datatype crb_call = Install string nat | Write nat nat | Read nat | Discard nat

fun crb_exec :: "crb_call \<Rightarrow> crb_sys \<Rightarrow> crb_sys option" where
  "crb_exec (Install nm pers) s =
    (case CRingBuf_new True 1000 nm ''r'' 4096 pers False (hdr s) of
       Inr (Some (g, h)) \<Rightarrow> Some \<lparr>hdr = g, objs = objs s @ [h]\<rparr> | _ \<Rightarrow> None)"
| "crb_exec (Write k n) s =
    (case RequestWriteFrame (\<lambda>_. 1000) n CRB_FRAME_P_SLICE CRB_WRITE_MODE_NON_BLOCK (hdr s) (objs s ! k) of
       Inr (p, g, h) \<Rightarrow> (case CommitWrite None 0 g h of Inr (x, g, h) \<Rightarrow> Some (crb_put k g h s) | _ \<Rightarrow> None) | _ \<Rightarrow> None)"
| "crb_exec (Read k) s =
    (case RequestReadFrame CRB_FRAME_ANY (hdr s) (objs s ! k) of Inr (p, l, key, g, h) \<Rightarrow> Some (crb_put k g h s) | _ \<Rightarrow> None)"
| "crb_exec (Discard k) s = (case DiscardAllData (hdr s) (objs s ! k) of (g, h) \<Rightarrow> Some (crb_put k g h s))"

fun crb_ok :: "crb_call \<Rightarrow> crb_sys \<Rightarrow> bool" where
  "crb_ok (Install nm pers) s = True"
| "crb_ok (Write k n) s = (k < length (objs s))"
| "crb_ok (Read k) s = (k < length (objs s))"
| "crb_ok (Discard k) s = (k < length (objs s))"

fun crb_run :: "crb_call list \<Rightarrow> crb_sys \<Rightarrow> crb_sys option" where
  "crb_run [] s = Some s"
| "crb_run (c # cs) s = (if crb_ok c s then (case crb_exec c s of None \<Rightarrow> None | Some t \<Rightarrow> crb_run cs t) else None)"

lemma crb_put_twice: "crb_put k g h (crb_put k g' h' s) = crb_put k g h s"
  by (simp add: crb_put_def)

lemma crb_put_sel [simp]:
  "hdr (crb_put k g h s) = g" "length (objs (crb_put k g h s)) = length (objs s)" "k < length (objs s) \<Longrightarrow> objs (crb_put k g h s) ! k = h"
  by (simp_all add: crb_put_def)

lemma crb_exec_reachable:
  assumes r: "reachable crb_start (crb_step 4096) s" and e: "crb_ok c s" "crb_exec c s = Some t"
  shows "reachable crb_start (crb_step 4096) t"
proof (cases c)
  case (Install nm pers)
  then obtain g h where g: "CRingBuf_new True 1000 nm ''r'' 4096 pers False (hdr s) = Inr (Some (g, h))"
      "t = \<lparr>hdr = g, objs = objs s @ [h]\<rparr>"
    using e by (auto split: sum.splits option.splits)
  have "crb_step 4096 s t" unfolding g(2) by (rule crb_step.new [OF g(1)]) (simp_all add: ALIGN_def MMAP_MIN_PAGE_SIZE_def)
  then show ?thesis using r by (rule reach_step [rotated])
next
  case (Write k n)
  then obtain p g h x g' h' where g: "RequestWriteFrame (\<lambda>_. 1000) n CRB_FRAME_P_SLICE CRB_WRITE_MODE_NON_BLOCK (hdr s) (objs s ! k) = Inr (p, g, h)"
      "CommitWrite None 0 g h = Inr (x, g', h')" "t = crb_put k g' h' s" "k < length (objs s)"
    using e by (auto split: sum.splits option.splits)
  have "crb_step 4096 s (crb_put k g h s)" by (rule crb_step.writeFrame [OF g(4) _ g(1)]) simp
  then have "reachable crb_start (crb_step 4096) (crb_put k g h s)" by (rule reach_step [OF r])
  moreover have "crb_step 4096 (crb_put k g h s) (crb_put k g' h' (crb_put k g h s))"
    by (rule crb_step.commitWrite [where n = None and t = 0 and x = x]) (simp_all add: g(2,4))
  ultimately show ?thesis unfolding g(3) crb_put_twice by (rule reach_step)
next
  case (Read k)
  then obtain p l key g h where g: "RequestReadFrame CRB_FRAME_ANY (hdr s) (objs s ! k) = Inr (p, l, key, g, h)"
      "t = crb_put k g h s" "k < length (objs s)"
    using e by (auto split: sum.splits)
  show ?thesis unfolding g(2) by (rule reach_step [OF r crb_step.readFrame [OF g(3,1)]])
next
  case (Discard k)
  then obtain g h where g: "DiscardAllData (hdr s) (objs s ! k) = (g, h)" "t = crb_put k g h s" "k < length (objs s)"
    using e by (auto split: prod.splits)
  show ?thesis unfolding g(2) by (rule reach_step [OF r crb_step.discardAll [OF g(3,1)]])
qed

lemma crb_run_reachable:
  "crb_run cs s = Some t \<Longrightarrow> reachable crb_start (crb_step 4096) s \<Longrightarrow> reachable crb_start (crb_step 4096) t"
  by (induction cs arbitrary: s) (auto split: if_splits option.splits dest: crb_exec_reachable)

section \<open>Evaluation\<close>

definition empty_index :: "FrameIndex list" where "empty_index = replicate MAX_FRAME_NUM frame_zero"

lemma empty_index_nth [simp]: "i < 896 \<Longrightarrow> empty_index ! i = frame_zero" "length empty_index = 896"
  by (simp_all add: empty_index_def MAX_FRAME_NUM_def)

lemma info_zero_run: "info_zero = \<lparr>version = 0, rb_name = '''', alignFrameType = CRB_FRAME_I_SLICE, holeCreatedNum = 0,
     jumpOverHole = False, dataWriten = False, liveStream = False, videoBuffer = False, bufSize = 0,
     contiBytesWriten = 0, leftedBytes = 0, alignBytes = 0,
     consumers = [user_zero, user_zero, user_zero, user_zero, user_zero, user_zero, user_zero, user_zero, user_zero, user_zero],
     productor = user_zero, frameIdx = empty_index, holes = []\<rparr>"
  by (simp add: info_zero_def empty_index_def MAX_CONSUMER_NUM_def numeral_eq_Suc)

lemma upt_run: "[0..<10] = [0, 1, 2, 3, 4, 5, 6, 7, 8, 9 :: nat]"
  by (simp add: upt_rec)

lemma max_run: "MAX_CONSUMER_NUM = 10" "MAX_FRAME_NUM = 896" "MAX_RETRY_TIME = 100"
  by (simp_all add: MAX_CONSUMER_NUM_def MAX_FRAME_NUM_def MAX_RETRY_TIME_def)

lemmas consts_run = CRB_DEFAULT_ALIGNMENT_def MMAP_MIN_PAGE_SIZE_def BLACKHOLE_MAX_LIFE_SEC_def USER_FREE_def USER_HOLDING_FRAME_def
  USER_BLOCKED_def BUFFER_LEN_def ADVANCE_OFFSET_def ADVANCE_OFFSET2_def ADVANCE_INDEX_def STEPBACK_INDEX_def ALIGN_def
  CRB_PERSONALITY_READER_def CRB_PERSONALITY_WRITER_def CRB_PERSONALITY_DUMPER_def

lemmas state_run = user_zero_def frame_zero_def acct_zero_def VALID_CONSUMER_def PRODUCTOR_EXIST_def consumer_upds
  IsConsumerMoved_def GetConsumerState_def upd_productor_def crb_put_def

lemmas install_run = CRingBuf_new_def InstallUser_def InstallConsumer_def InstallProductor_def GetIntalledUserNum_def valid_consumers_def
  DeleteBlackHoleOwnedBy_def DeleteBlackHoleByIdx_def CleanAllConsumer_def CleanProductor_def ResetAllUserNoLock_def

lemmas write_run = RequestWriteFrame_def write_open_def write_round_def request_write_def CommitWrite_def IndexAdd_def DeleteAgedBlackHole_def
  MoveAllBlockers_def move_blocker_def IndexFindBlocker_def IndexFindNextFrame_def InsertBlackHole_def BlackholeJump_def
  BlackHoleSortMerge_def jump_clear_def writable_of_def min_writable_def GetWritableSize_def GetReadableSize_def

lemmas read_run = RequestReadFrame_def read_begin_def wanted_type_def request_read_def DiscardAllData_def

lemma find_run [simp]:
  "find_forward P i i = None"
  "i < MAX_FRAME_NUM \<Longrightarrow> e < MAX_FRAME_NUM \<Longrightarrow> i \<noteq> e
    \<Longrightarrow> find_forward P e i = (if P i then Some i else find_forward P e (ADVANCE_INDEX i 1))"
  by (simp_all add: find_forward.simps)

lemma write_loop_numeral [simp]:
  "write_loop clk n type mode (numeral k) g h =
    (case write_round (clk (MAX_RETRY_TIME - numeral k)) n type mode g h of Inl e \<Rightarrow> Inl e
     | Inr (done, ret, g, h) \<Rightarrow>
        if done \<or> pred_numeral k = 0 then Inr (ret, g, h) else write_loop clk n type mode (pred_numeral k) g h)"
  by (simp only: numeral_eq_Suc write_loop.simps)

lemma delete_loop_numeral [simp]:
  "delete_loop P (numeral k) g
    = delete_loop P (pred_numeral k) (if P (holes g ! pred_numeral k) then DeleteBlackHoleByIdx (pred_numeral k) g else g)"
  by (simp only: numeral_eq_Suc delete_loop.simps)

lemmas all_run = numeral_2_eq_2 [symmetric] Let_def info_zero_run upt_run max_run consts_run state_run install_run write_run read_run

section \<open>The run\<close>

definition held_run :: "crb_call list" where
  "held_run = [Install ''w'' CRB_PERSONALITY_WRITER, Install ''a'' CRB_PERSONALITY_READER, Install ''b'' CRB_PERSONALITY_READER,
     Write 0 100, Read 1, Write 0 718, Discard 2, Write 0 3278, Read 2]"

lemma granted_case:
  "(case r of Inr (PAt x, g, h) \<Rightarrow> Q x g h | _ \<Rightarrow> False) \<Longrightarrow> \<exists>x g h. r = Inr (PAt x, g, h) \<and> Q x g h"
  by (cases r) (auto split: prod.split_asm crb_ptr.split_asm)

lemma committed_case:
  "(case r of Inr (CrbOk m, g, h) \<Rightarrow> Q m | _ \<Rightarrow> False) \<Longrightarrow> \<exists>m g h. r = Inr (CrbOk m, g, h) \<and> Q m"
  by (cases r) (auto split: prod.split_asm crb_ret.split_asm)

lemma held_run_grants:
  "case crb_run held_run \<lparr>hdr = info_zero, objs = []\<rparr> of None \<Rightarrow> False
   | Some s \<Rightarrow> 1 < length (objs s) \<and> m_userIdx (objs s ! 1) = 0 \<and> m_lastReadBytes (objs s ! 1) = 100 \<and>
      (case RequestWriteFrame (\<lambda>_. 1000) 250 CRB_FRAME_P_SLICE CRB_WRITE_MODE_NON_BLOCK (hdr s) (objs s ! 0) of
         Inr (PAt x, g, h) \<Rightarrow> x = 0 \<and> u_name (consumers g ! 0) = ''a'' \<and> u_state (consumers g ! 0) = USER_BLOCKED
           \<and> holes g ! 0 = \<lparr>startOffset = 0, endOffset = 100, createTime = 1000, blockerName = ''a''\<rparr> \<and> length (holes g) = 2
       | _ \<Rightarrow> False)"
  by (simp add: held_run_def all_run cong: let_weak_cong)

text \<open>A shorter run: a producer, a consumer, and a first frame.\<close>

definition two_users :: crb_sys where
  "two_users = the (crb_run [Install ''w'' CRB_PERSONALITY_WRITER, Install ''a'' CRB_PERSONALITY_READER]
     \<lparr>hdr = info_zero, objs = []\<rparr>)"

lemma two_users_evaluated:
  "case crb_run [Install ''w'' CRB_PERSONALITY_WRITER, Install ''a'' CRB_PERSONALITY_READER] \<lparr>hdr = info_zero, objs = []\<rparr> of
     None \<Rightarrow> False
   | Some s \<Rightarrow> length (objs s) = 2 \<and> \<not> is_productor (objs s ! 1) \<and> m_userIdx (objs s ! 1) = 0 \<and> holes (hdr s) = []
     \<and> (case request_write 100 0 True (hdr s) (objs s ! 0) of Inr (PAt x, out, g, h) \<Rightarrow> x = 0 | _ \<Rightarrow> False)
     \<and> (case RequestWriteFrame (\<lambda>_. 1000) 100 CRB_FRAME_P_SLICE CRB_WRITE_MODE_NON_BLOCK (hdr s) (objs s ! 0) of
         Inr (PAt x, g, h) \<Rightarrow> x = 0 \<and> u_index (consumers g ! 0) = PRODUCTOR_INDEX g \<and> u_name (consumers g ! 0) = ''a'' \<and> \<not> liveStream g
           \<and> (case CommitWrite None 5 g h of Inr (CrbOk m, g2, h2) \<Rightarrow> m = 100 | _ \<Rightarrow> False)
       | _ \<Rightarrow> False)"
  by (simp add: all_run cong: let_weak_cong)

lemma two_users_facts:
  "reachable crb_start (crb_step 4096) two_users" "length (objs two_users) = 2" "\<not> is_productor (objs two_users ! 1)"
  "m_userIdx (objs two_users ! 1) = 0" "holes (hdr two_users) = []"
  "\<exists>out g h. request_write 100 0 True (hdr two_users) (objs two_users ! 0) = Inr (PAt 0, out, g, h)"
  "\<exists>g h g2 h2. RequestWriteFrame (\<lambda>_. 1000) 100 CRB_FRAME_P_SLICE CRB_WRITE_MODE_NON_BLOCK (hdr two_users) (objs two_users ! 0) = Inr (PAt 0, g, h)
    \<and> u_index (consumers g ! 0) = PRODUCTOR_INDEX g \<and> u_name (consumers g ! 0) = ''a'' \<and> \<not> liveStream g \<and> CommitWrite None 5 g h = Inr (CrbOk 100, g2, h2)"
proof -
  obtain s where s: "crb_run [Install ''w'' CRB_PERSONALITY_WRITER, Install ''a'' CRB_PERSONALITY_READER]
      \<lparr>hdr = info_zero, objs = []\<rparr> = Some s"
    using two_users_evaluated by (auto split: option.splits)
  then have e: "two_users = s" by (simp add: two_users_def)
  have "reachable crb_start (crb_step 4096) \<lparr>hdr = info_zero, objs = []\<rparr>" by (rule reach_start) (simp add: crb_start_def)
  then show "reachable crb_start (crb_step 4096) two_users" unfolding e using s by (rule crb_run_reachable [rotated])
  note v = two_users_evaluated [unfolded s option.case]
  show "length (objs two_users) = 2" "\<not> is_productor (objs two_users ! 1)" "m_userIdx (objs two_users ! 1) = 0"
    "holes (hdr two_users) = []" using v unfolding e by blast+
  have c1: "case request_write 100 0 True (hdr s) (objs s ! 0) of Inr (PAt x, out, g, h) \<Rightarrow> x = 0 | _ \<Rightarrow> False"
    and c2: "case RequestWriteFrame (\<lambda>_. 1000) 100 CRB_FRAME_P_SLICE CRB_WRITE_MODE_NON_BLOCK (hdr s) (objs s ! 0) of
         Inr (PAt x, g, h) \<Rightarrow> x = 0 \<and> u_index (consumers g ! 0) = PRODUCTOR_INDEX g \<and> u_name (consumers g ! 0) = ''a'' \<and> \<not> liveStream g
           \<and> (case CommitWrite None 5 g h of Inr (CrbOk m, g2, h2) \<Rightarrow> m = 100 | _ \<Rightarrow> False)
       | _ \<Rightarrow> False" using v by blast+
  show "\<exists>out g h. request_write 100 0 True (hdr two_users) (objs two_users ! 0) = Inr (PAt 0, out, g, h)"
    using c1 unfolding e by (auto split: sum.split_asm prod.split_asm crb_ptr.split_asm)
  obtain g h where g: "RequestWriteFrame (\<lambda>_. 1000) 100 CRB_FRAME_P_SLICE CRB_WRITE_MODE_NON_BLOCK (hdr s) (objs s ! 0) = Inr (PAt 0, g, h)"
      "u_index (consumers g ! 0) = PRODUCTOR_INDEX g" "u_name (consumers g ! 0) = ''a''" "\<not> liveStream g"
      "case CommitWrite None 5 g h of Inr (CrbOk m, g2, h2) \<Rightarrow> m = 100 | _ \<Rightarrow> False"
    using granted_case [OF c2] by blast
  obtain g2 h2 where cm: "CommitWrite None 5 g h = Inr (CrbOk 100, g2, h2)"
    using committed_case [OF g(5)] by blast
  show "\<exists>g h g2 h2. RequestWriteFrame (\<lambda>_. 1000) 100 CRB_FRAME_P_SLICE CRB_WRITE_MODE_NON_BLOCK (hdr two_users) (objs two_users ! 0) = Inr (PAt 0, g, h)
    \<and> u_index (consumers g ! 0) = PRODUCTOR_INDEX g \<and> u_name (consumers g ! 0) = ''a'' \<and> \<not> liveStream g \<and> CommitWrite None 5 g h = Inr (CrbOk 100, g2, h2)"
    using g(1-4) cm unfolding e by blast
qed

text \<open>The same state with a held region in the way of the producer: it is jumped over.\<close>

definition held_block :: BlackHole where
  "held_block = \<lparr>startOffset = 100, endOffset = 200, createTime = 1000, blockerName = ''a''\<rparr>"

lemma held_block_evaluated:
  "case crb_run [Install ''w'' CRB_PERSONALITY_WRITER, Install ''a'' CRB_PERSONALITY_READER] \<lparr>hdr = info_zero, objs = []\<rparr> of
     None \<Rightarrow> False
   | Some s \<Rightarrow> PRODUCTOR_OFFSET (hdr s) = 0
     \<and> (case request_write 150 0 True ((hdr s)\<lparr>holes := [held_block]\<rparr>) (objs s ! 0) of Inr (PAt x, out, g, h) \<Rightarrow> x = 200 | _ \<Rightarrow> False)"
  by (simp add: all_run held_block_def cong: let_weak_cong)

lemma held_block_facts:
  "PRODUCTOR_OFFSET (hdr two_users) = 0"
  "\<exists>out g h. request_write 150 0 True ((hdr two_users)\<lparr>holes := [held_block]\<rparr>) (objs two_users ! 0) = Inr (PAt 200, out, g, h)"
proof -
  obtain s where s: "crb_run [Install ''w'' CRB_PERSONALITY_WRITER, Install ''a'' CRB_PERSONALITY_READER]
      \<lparr>hdr = info_zero, objs = []\<rparr> = Some s"
    using held_block_evaluated by (auto split: option.splits)
  then have e: "two_users = s" by (simp add: two_users_def)
  note v = held_block_evaluated [unfolded s option.case]
  show "PRODUCTOR_OFFSET (hdr two_users) = 0" using v unfolding e by blast
  have "case request_write 150 0 True ((hdr s)\<lparr>holes := [held_block]\<rparr>) (objs s ! 0) of Inr (PAt x, out, g, h) \<Rightarrow> x = 200 | _ \<Rightarrow> False"
    using v by blast
  then show "\<exists>out g h. request_write 150 0 True ((hdr two_users)\<lparr>holes := [held_block]\<rparr>) (objs two_users ! 0) = Inr (PAt 200, out, g, h)"
    unfolding e by (auto split: sum.split_asm prod.split_asm crb_ptr.split_asm)
qed

end
