(* ===== verification/Crb_Properties.thy ===== *)
theory Crb_Properties
  imports Rb_Api Crb_Held
begin

text \<open>What the ring in shared memory guarantees, and where its protection of held frames ends.\<close>

lemma calls_return:
  assumes i: "crb_inv N g" "obj_wf N h"
  shows "(\<exists>r. RequestReadFrame type g h = Inr r)" "(\<exists>r. RequestReadNextFrameStamp type g h = Inr r)"
    "(\<exists>r. CommitWrite None t g h = Inr r)" "(\<exists>r. IndexMoveToSpecifiedTime type t g h = Inr r)"
    "is_productor h \<or> (\<exists>r. CommitRead None g h = Inr r)"
proof -
  have u: "u_index (consumers g ! m_userIdx h) < MAX_FRAME_NUM" "PRODUCTOR_INDEX g < MAX_FRAME_NUM"
    using crb_inv_consumer [OF i(1), of "m_userIdx h"] crb_inv_productor [OF i(1)] i(2) by (simp_all add: user_wf_def obj_wf_def)
  obtain x where x: "IndexFindNextFrame (read_begin g h) (PRODUCTOR_INDEX g) (u_index (consumers g ! m_userIdx h))
      (wanted_type (read_begin g h) (m_userIdx h) type) None = Inr x"
    using u by (cases "u_index (consumers g ! m_userIdx h) = PRODUCTOR_INDEX g") (auto simp: IndexFindNextFrame_def)
  show "\<exists>r. RequestReadFrame type g h = Inr r"
    using x u by (cases x) (auto simp: RequestReadFrame_def Let_def read_begin_same split: prod.splits)
  show "\<exists>r. RequestReadNextFrameStamp type g h = Inr r"
    using x u by (cases x) (auto simp: RequestReadNextFrameStamp_def Let_def read_begin_same split: prod.splits)
  show "\<exists>r. CommitWrite None t g h = Inr r"
    by (auto simp: CommitWrite_def IndexAdd_def Let_def)
  have "FindOldesValidIndex g (m_bufSize h) < MAX_FRAME_NUM" by (rule oldest_bound [OF i(1)])
  then obtain y where "IndexFindSpecifiedTimeFrameInstance g (PRODUCTOR_INDEX g) (FindOldesValidIndex g (m_bufSize h)) type t = Inr y"
    using u(2) by (cases "IndexFindSpecifiedTimeFrameInstance g (PRODUCTOR_INDEX g) (FindOldesValidIndex g (m_bufSize h)) type t")
      (auto simp: IndexFindSpecifiedTimeFrameInstance_def Let_def split: sum.splits if_splits)
  then show "\<exists>r. IndexMoveToSpecifiedTime type t g h = Inr r"
    by (cases y) (auto simp: IndexMoveToSpecifiedTime_def Let_def)
  show "is_productor h \<or> (\<exists>r. CommitRead None g h = Inr r)" by (auto simp: CommitRead_def Let_def)
qed

lemma granted_bounds:
  assumes "granted N x n al g h g' h'" "0 < N"
  shows "consumers g' = consumers g" "x < N" "n < N" "m_lastWriteBytes h' = n" "holes g' = holes g"
proof -
  obtain off j where g: "g' = g\<lparr>productor := (productor g)\<lparr>u_offset := off\<rparr>, jumpOverHole := j\<rparr>" "m_lastWriteBytes h' = n"
    using assms(1) unfolding granted_def by blast
  then show "consumers g' = consumers g" "holes g' = holes g" "m_lastWriteBytes h' = n" by simp_all
  obtain y where "x = y mod N" "n < min_writable g N" using assms(1) by (auto simp: granted_def)
  then show "x < N" "n < N" using assms(2) min_writable_le(1) [of g N] by simp_all
qed

text \<open>C30 (type): In every reachable state of the processes that use a ring of N bytes the header is
  well formed (all offsets below N, all indices inside the table of frames, all frames and held
  regions inside the data area, at most ten held regions, sorted), every process asks for at most N
  bytes, and no assertion fails when a process reads a frame or its time stamp, commits what it wrote
  or read, or moves to a time.
\<close>

theorem reachable_rings_are_well_formed:
  assumes "reachable crb_start (crb_step N) s" "k < length (objs s)"
  shows "crb_inv N (hdr s) \<and> obj_wf N (objs s ! k) \<and> (\<exists>r. RequestReadFrame type (hdr s) (objs s ! k) = Inr r)
    \<and> (\<exists>r. RequestReadNextFrameStamp type (hdr s) (objs s ! k) = Inr r) \<and> (\<exists>r. CommitWrite None t (hdr s) (objs s ! k) = Inr r)
    \<and> (\<exists>r. IndexMoveToSpecifiedTime type t (hdr s) (objs s ! k) = Inr r)
    \<and> (is_productor (objs s ! k) \<or> (\<exists>r. CommitRead None (hdr s) (objs s ! k) = Inr r))"
proof -
  have "crb_inv N (hdr s)" "obj_wf N (objs s ! k)" using crb_sys_inv_obj [OF crb.inv_reachable [OF assms(1)] assms(2)] by simp_all
  then show ?thesis by (intro conjI calls_return)
qed

theorem reachable_rings_are_well_formed_witness:
  "crb_inv 4096 (hdr two_users) \<and> obj_wf 4096 (objs two_users ! 1)
    \<and> (\<exists>r. RequestReadFrame CRB_FRAME_ANY (hdr two_users) (objs two_users ! 1) = Inr r)"
  using reachable_rings_are_well_formed [OF two_users_facts(1), of 1 CRB_FRAME_ANY 0] two_users_facts(2) by simp

text \<open>C28 (safety): Whatever all processes did before, also between the rounds of a request, the
  room for a frame that the producer is granted, by an undisturbed request or by one of its rounds, is smaller than the ring and holds no byte that an installed consumer has still to read,
  wherever it starts after the aligning and the jump, and after consumers were moved out of the way.
\<close>

theorem granted_frame_spares_unread_data:
  assumes "reachable crb_start (crb_step N) s" "k < length (objs s)" "\<And>i. 0 < clk i"
    and "RequestWriteFrame clk n type mode (hdr s) (objs s ! k) = Inr (PAt x, g, h)
      \<or> write_round (clk j) n type mode (hdr s) (objs s ! k) = Inr (d, PAt x, g, h)"
    and "i < MAX_CONSUMER_NUM" "u_name (consumers g ! i) \<noteq> ''''"
  shows "x < N \<and> n < N \<and> m_lastWriteBytes h = n
    \<and> region N x n \<inter> region N (u_offset (consumers g ! i)) (GetReadableSize N (u_offset (consumers g ! i)) (PRODUCTOR_OFFSET g)) = {}"
proof -
  note i = crb_sys_inv_obj [OF crb.inv_reachable [OF assms(1)] assms(2)]
  have up: "\<forall>i. 0 < clk i" using assms(3) by simp
  have "\<exists>al g0 h0 h1. crb_inv N g0 \<and> granted N x n al g0 h0 g h1 \<and> h = h1\<lparr>m_lastWriteFrameType := type\<rparr>"
    using assms(4)
  proof
    assume "RequestWriteFrame clk n type mode (hdr s) (objs s ! k) = Inr (PAt x, g, h)"
    from RequestWriteFrame_inv [OF this] i up show ?thesis by simp
  next
    assume "write_round (clk j) n type mode (hdr s) (objs s ! k) = Inr (d, PAt x, g, h)"
    from write_round_inv [OF this] i assms(3) show ?thesis by blast
  qed
  then obtain al g0 h0 h1 where gr: "crb_inv N g0" "granted N x n al g0 h0 g h1" "h = h1\<lparr>m_lastWriteFrameType := type\<rparr>" by blast
  note c = granted_bounds [OF gr(2) crb_inv_pos [OF gr(1)]]
  have "i \<in> set (valid_consumers g0)" using assms(5,6) c(1) by (simp add: valid_consumers_def VALID_CONSUMER_def)
  moreover have "PRODUCTOR_OFFSET g0 < N" "u_offset (consumers g0 ! i) < N"
    using crb_inv_productor [OF gr(1)] crb_inv_consumer [OF gr(1) assms(5)] by (simp_all add: user_wf_def)
  ultimately have "region N x n \<inter> unread N g i = {}" by (intro granted_spares_unread [OF gr(2)])
  then show ?thesis using c gr(3) by (simp add: unread_def)
qed

theorem granted_frame_spares_unread_data_witness:
  "\<exists>g h. RequestWriteFrame (\<lambda>_. 1000) 100 CRB_FRAME_P_SLICE CRB_WRITE_MODE_NON_BLOCK (hdr two_users) (objs two_users ! 0) = Inr (PAt 0, g, h)
    \<and> region 4096 0 100 \<inter> region 4096 (u_offset (consumers g ! 0)) (GetReadableSize 4096 (u_offset (consumers g ! 0)) (PRODUCTOR_OFFSET g)) = {}"
proof -
  obtain g h where r: "RequestWriteFrame (\<lambda>_. 1000) 100 CRB_FRAME_P_SLICE CRB_WRITE_MODE_NON_BLOCK (hdr two_users) (objs two_users ! 0)
      = Inr (PAt 0, g, h)" "u_name (consumers g ! 0) = ''a''"
    using two_users_facts(7) by blast
  show ?thesis
    using granted_frame_spares_unread_data [OF two_users_facts(1) _ _ disjI1 [OF r(1)], of 0] r two_users_facts(2) by (simp add: MAX_CONSUMER_NUM_def)
qed

text \<open>C31 (safety): As long as no held region reaches up to the producer's offset or over it, the room
  granted touches no held region: the sorting, merging and jumping of \<open>BlackholeJump\<close> then
  passes all of them.
\<close>

theorem granted_room_avoids_holes:
  assumes "crb_inv N g" "m_bufSize h = N" "al = 0 \<or> al = alignBytes g"
    and "request_write n al pOut g h = Inr (PAt x, out, g', h')"
    and "list_all (\<lambda>b. BUFFER_LEN N (PRODUCTOR_OFFSET g) (startOffset b) + BUFFER_LEN N (startOffset b) (endOffset b) < N) (holes g)"
  shows "holes g' = holes g \<and> list_all (\<lambda>b. region N x n \<inter> region N (startOffset b) (BUFFER_LEN N (startOffset b) (endOffset b)) = {}) (holes g)"
proof -
  have w: "PRODUCTOR_OFFSET g < N" using crb_inv_productor [OF assms(1)] by (simp add: user_wf_def)
  have al: "al = 0 \<or> al dvd N" using assms(3) alignment_dvd [OF assms(1), of True] by auto
  note gr = request_write_granted [OF assms(4,2) w al]
  have s: "sorted (map startOffset (holes g))" "\<forall>b \<in> set (holes g). hole_wf N b"
    using assms(1) by (simp_all add: crb_inv_def crb_wf_def list_all_iff)
  have "\<forall>b \<in> set (holes g). hole_wf N b \<and> behind N (PRODUCTOR_OFFSET g) b"
    using s(2) assms(5) by (simp add: behind_def hole_at_def hole_len_def list_all_iff)
  then show ?thesis using granted_avoids_holes [OF gr w s(1)] granted_bounds(5) [OF gr]  crb_inv_pos [OF assms(1)]
    by (simp add: list_all_iff hole_len_def)
qed

theorem granted_room_avoids_holes_witness:
  "\<exists>out g h. request_write 150 0 True ((hdr two_users)\<lparr>holes := [held_block]\<rparr>) (objs two_users ! 0) = Inr (PAt 200, out, g, h)
    \<and> holes g = [held_block] \<and> region 4096 200 150 \<inter> region 4096 100 100 = {}"
proof -
  let ?g = "(hdr two_users)\<lparr>holes := [held_block]\<rparr>"
  obtain out g h where r: "request_write 150 0 True ?g (objs two_users ! 0) = Inr (PAt 200, out, g, h)"
    using held_block_facts(2) by blast
  have i: "crb_inv 4096 (hdr two_users)" "m_bufSize (objs two_users ! 0) = 4096"
    using crb_sys_inv_obj [OF crb.inv_reachable [OF two_users_facts(1)], of 0] two_users_facts(2) by (simp_all add: obj_wf_def)
  have g: "crb_inv 4096 ?g"
    using i(1) by (simp add: crb_inv_def crb_wf_def held_block_def hole_wf_def frame_wf_def MAX_CONSUMER_NUM_def list_all_iff)
  show ?thesis
    using granted_room_avoids_holes [OF g i(2) _ r] r held_block_facts(1)
    by (simp add: held_block_def BUFFER_LEN_def)
qed

text \<open>C35 (error): The protection has a gap: there is a reachable state in which a consumer was given a
  frame and has not committed it, the frame is registered as a held region, and yet the producer is
  granted room over it. The jump over the held regions has come round to the producer's own offset
  and is taken for no jump at all.
\<close>

theorem held_frame_is_overwritten:
  "\<exists>s g h b. reachable crb_start (crb_step 4096) s \<and> 1 < length (objs s)
    \<and> m_userIdx (objs s ! 1) = 0 \<and> m_lastReadBytes (objs s ! 1) = 100
    \<and> RequestWriteFrame (\<lambda>_. 1000) 250 CRB_FRAME_P_SLICE CRB_WRITE_MODE_NON_BLOCK (hdr s) (objs s ! 0) = Inr (PAt 0, g, h)
    \<and> b \<in> set (holes g) \<and> blockerName b = u_name (consumers g ! 0) \<and> u_state (consumers g ! 0) = USER_BLOCKED
    \<and> startOffset b = 0 \<and> endOffset b = 100"
proof -
  obtain s where s: "crb_run held_run \<lparr>hdr = info_zero, objs = []\<rparr> = Some s" using held_run_grants by (auto split: option.splits)
  have "reachable crb_start (crb_step 4096) \<lparr>hdr = info_zero, objs = []\<rparr>" by (rule reach_start) (simp add: crb_start_def)
  with s have r: "reachable crb_start (crb_step 4096) s" by (rule crb_run_reachable)
  note v = held_run_grants [unfolded s option.case]
  have c: "case RequestWriteFrame (\<lambda>_. 1000) 250 CRB_FRAME_P_SLICE CRB_WRITE_MODE_NON_BLOCK (hdr s) (objs s ! 0) of
         Inr (PAt x, g, h) \<Rightarrow> x = 0 \<and> u_name (consumers g ! 0) = ''a'' \<and> u_state (consumers g ! 0) = USER_BLOCKED
           \<and> holes g ! 0 = \<lparr>startOffset = 0, endOffset = 100, createTime = 1000, blockerName = ''a''\<rparr> \<and> length (holes g) = 2
       | _ \<Rightarrow> False" using v by blast
  obtain g h where g: "RequestWriteFrame (\<lambda>_. 1000) 250 CRB_FRAME_P_SLICE CRB_WRITE_MODE_NON_BLOCK (hdr s) (objs s ! 0) = Inr (PAt 0, g, h)"
    "u_name (consumers g ! 0) = ''a''" "u_state (consumers g ! 0) = USER_BLOCKED" "length (holes g) = 2"
    "holes g ! 0 = \<lparr>startOffset = 0, endOffset = 100, createTime = 1000, blockerName = ''a''\<rparr>"
    using granted_case [OF c] by blast
  have "holes g ! 0 \<in> set (holes g)" using g(4) by (intro nth_mem) simp
  then show ?thesis using r v g by (intro exI [of _ s] exI [of _ g] exI [of _ h] exI [of _ "holes g ! 0"]) simp
qed

text \<open>C29 (roundtrip): A video or audio message that the writer service takes is what the reader service
  hands over to a consumer that waits at the producer's index: through the requests, the copies
  into the twice-mapped area and both commits, the head of the message and its frame come out byte
  for byte, also where they run over the end of the buffer.
\<close>

theorem media_message_is_read:
  assumes "reachable crb_start (crb_step N) s" "k < length (objs s)" "j < length (objs s)" "\<And>i. 0 < clk i" "length mem = N"
    and "ringbuf cw = Some (objs s ! k)" "ringbuf cr = Some (objs s ! j)"
    and "meidaType m = MSG_TYPE_VIDEO \<or> meidaType m = MSG_TYPE_AUDIO"
    and "media_service_rb_writer_trigger clk (Some cw) (Some m) mem (hdr s) = Inr (0, mem', g, cw')"
    and "waits_for g (objs s ! j) (frame_type_of (message_key m))"
  shows "\<exists>x n g' cr'. media_service_rb_reader_proc (Some cr) g = Inr (0, Some (PAt x), Some (int n), g', cr')
    \<and> mirror_read mem' x n = head_bytes m @ take (unat (framelen m)) (framedata m)"
proof -
  note i = crb.inv_reachable [OF assms(1)]
  have "crb_inv N (hdr s)" "obj_wf N (objs s ! k)" "obj_wf N (objs s ! j)" using crb_sys_inv_obj [OF i] assms(2,3) by simp_all
  from message_arrives [OF assms(9) _ this assms(5,6,7,8,10)] assms(4) show ?thesis by blast
qed

theorem media_message_is_read_witness:
  "\<exists>m cw cr mem mem' g cw' x n g' cr'. framedata m = replicate 40 7
    \<and> media_service_rb_writer_trigger (\<lambda>_. 1000) (Some cw) (Some m) mem (hdr two_users) = Inr (0, mem', g, cw')
    \<and> media_service_rb_reader_proc (Some cr) g = Inr (0, Some (PAt x), Some (int n), g', cr')
    \<and> mirror_read mem' x n = replicate 60 1 @ replicate 40 7"
proof -
  define m where "m = \<lparr>head_bytes = replicate 60 1, meidaType = MSG_TYPE_VIDEO, frametype = 1, wTimestamp = 5, framelen = 40, framedata = replicate 40 7\<rparr>"
  define info where "info = \<lparr>writemode = RBWRITE_MODE_BLOCK_NON, buflen = 4096, livestream = False\<rparr>"
  define cw where "cw = \<lparr>username = ''w'', rbinfo = info, ringbuf = Some (objs two_users ! 0)\<rparr>"
  define cr where "cr = \<lparr>username = ''a'', rbinfo = info, ringbuf = Some (objs two_users ! 1)\<rparr>"
  define mem :: bytes where "mem = replicate 4096 0"
  obtain g1 h1 g2 h2 where r: "RequestWriteFrame (\<lambda>_. 1000) 100 CRB_FRAME_P_SLICE CRB_WRITE_MODE_NON_BLOCK (hdr two_users) (objs two_users ! 0)
      = Inr (PAt 0, g1, h1)" "u_index (consumers g1 ! 0) = PRODUCTOR_INDEX g1" "\<not> liveStream g1"
      "CommitWrite None 5 g1 h1 = Inr (CrbOk 100, g2, h2)" using two_users_facts(7) by blast
  have ty: "m_lastWriteFrameType h1 \<noteq> CRB_FRAME_ANY" using RequestWriteFrame_type [OF r(1)] by simp
  note cm = CommitWrite_commits [OF r(4) ty]
  have key: "message_key m = 1" "frame_type_of 1 = CRB_FRAME_P_SLICE" "access_mode cw = CRB_WRITE_MODE_NON_BLOCK"
    by (simp_all add: m_def cw_def info_def message_key_def frame_type_of_def access_mode_def MSG_TYPE_VIDEO_def MSG_TYPE_AUDIO_def
      VIDEO_FRAME_I_FRAME_def)
  have len: "length (head_bytes m) = 60" "as_u32 100 = 100" "ringbuf cw = Some (objs two_users ! 0)"
    "meidaType m = MSG_TYPE_VIDEO" "wTimestamp m = 5" "length (framedata m) = 40" "unat (framelen m) = 40"
    by (simp_all add: m_def as_u32_def cw_def)
  have t: "media_service_rb_writer_trigger (\<lambda>_. 1000) (Some cw) (Some m) mem (hdr two_users)
      = Inr (0, mirror_write mem 0 (head_bytes m @ take 40 (framedata m)), g2, Some (cw\<lparr>ringbuf := Some h2\<rparr>))"
    using r(1,4) by (simp add: media_service_rb_writer_trigger_def ringbuffer_writer_data_request_def ringbuffer_writer_data_commit_def key len Let_def)
  have w: "waits_for g2 (objs two_users ! 1) (frame_type_of (message_key m))"
    using r(2,3) cm(4,6,7) two_users_facts(3,4) by (simp add: waits_for_def)
  have "\<exists>x n g' cr'. media_service_rb_reader_proc (Some cr) g2 = Inr (0, Some (PAt x), Some (int n), g', cr')
    \<and> mirror_read (mirror_write mem 0 (head_bytes m @ take 40 (framedata m))) x n = head_bytes m @ take (unat (framelen m)) (framedata m)"
    by (rule media_message_is_read [where k = 0 and j = 1, OF two_users_facts(1) _ _ _ _ len(3) _ _ t w])
      (simp_all add: two_users_facts(2) mem_def cr_def len(4))
  moreover have "framedata m = replicate 40 7" "head_bytes m @ take (unat (framelen m)) (framedata m) = replicate 60 1 @ replicate 40 7"
    by (simp_all add: m_def)
  ultimately show ?thesis using t by metis
qed

end
