(* ===== verification/Posix_Files.thy ===== *)
theory Posix_Files
  imports Prelude
begin

text \<open>
  The part of the POSIX file system that the file helpers of \<open>common/\<close> use. A disk is the list
  of its entries in the order in which \<open>readdir\<close> yields them, each inside its full path; the
  root directory is the empty path and there are no links. Which calls the kernel refuses for
  a path is part of the disk. The functions are named after the calls they stand for.
\<close>

section \<open>Disks\<close>

datatype node = Regular bytes int | Directory | Special

record disk =
  entries :: "(string \<times> node) list"
  no_list :: "string list"
  no_read :: "string list"
  no_write :: "string list"
  no_unlink :: "string list"
  clock :: int

definition PATH_MAX :: nat where "PATH_MAX = 4096"

definition slash :: char where "slash = CHR ''/''"

definition join :: "string \<Rightarrow> string \<Rightarrow> string" where
  "join p n = p @ slash # n"

definition basename :: "string \<Rightarrow> string" where
  "basename q = rev (takeWhile (\<lambda>c. c \<noteq> slash) (rev q))"

definition dirname :: "string \<Rightarrow> string" where
  "dirname q = take (length q - Suc (length (basename q))) q"

definition valid_name :: "string \<Rightarrow> bool" where
  "valid_name n \<longleftrightarrow> n \<noteq> [] \<and> n \<noteq> ''.'' \<and> n \<noteq> ''..'' \<and> slash \<notin> set n"

definition lookup :: "disk \<Rightarrow> string \<Rightarrow> node option" where
  "lookup d p = map_of (entries d) p"

text \<open>\<open>snprintf\<close> into a buffer of \<open>n\<close> bytes keeps the first \<open>n - 1\<close> characters.\<close>

definition snprintf_path :: "nat \<Rightarrow> string \<Rightarrow> string" where
  "snprintf_path n s = take (n - 1) s"

section \<open>Calls\<close>

definition child_name :: "string \<Rightarrow> string \<Rightarrow> string option" where
  "child_name p q =
    (let n = drop (Suc (length p)) q
     in if q = join p n \<and> slash \<notin> set n then Some n else None)"

definition readdir :: "disk \<Rightarrow> string \<Rightarrow> string list" where
  "readdir d p = ''.'' # ''..'' # List.map_filter (\<lambda>e. child_name p (fst e)) (entries d)"

definition opendir_ok :: "disk \<Rightarrow> string \<Rightarrow> bool" where
  "opendir_ok d p \<longleftrightarrow> lookup d p = Some Directory \<and> p \<notin> set (no_list d)"

definition drop_entry :: "string \<Rightarrow> disk \<Rightarrow> disk" where
  "drop_entry p d = d\<lparr>entries := filter (\<lambda>e. fst e \<noteq> p) (entries d)\<rparr>"

definition set_content :: "string \<Rightarrow> bytes \<Rightarrow> disk \<Rightarrow> disk" where
  "set_content p bs d =
    d\<lparr>entries := map (\<lambda>(q, nd). if q = p then (q, Regular bs (clock d)) else (q, nd)) (entries d)\<rparr>"

definition content_of :: "disk \<Rightarrow> string \<Rightarrow> bytes" where
  "content_of d p = (case lookup d p of Some (Regular bs _) \<Rightarrow> bs | _ \<Rightarrow> [])"

text \<open>The result tells whether the call succeeded.\<close>

definition unlink :: "string \<Rightarrow> disk \<Rightarrow> bool \<times> disk" where
  "unlink p d =
    (case lookup d p of
       None \<Rightarrow> (False, d)
     | Some Directory \<Rightarrow> (False, d)
     | Some _ \<Rightarrow> if p \<in> set (no_unlink d) then (False, d) else (True, drop_entry p d))"

definition rmdir :: "string \<Rightarrow> disk \<Rightarrow> bool \<times> disk" where
  "rmdir p d =
    (if lookup d p = Some Directory \<and> p \<notin> set (no_unlink d) \<and> length (readdir d p) = 2
     then (True, drop_entry p d) else (False, d))"

text \<open>\<open>remove\<close> of the C library.\<close>

definition remove_path :: "string \<Rightarrow> disk \<Rightarrow> bool \<times> disk" where
  "remove_path p d = (if lookup d p = Some Directory then rmdir p d else unlink p d)"

definition may_create :: "disk \<Rightarrow> string \<Rightarrow> bool" where
  "may_create d p \<longleftrightarrow> lookup d p = None \<and> length p < PATH_MAX \<and> valid_name (basename p) \<and> slash \<in> set p
     \<and> lookup d (dirname p) = Some Directory \<and> p \<notin> set (no_write d)"

definition mkdir :: "string \<Rightarrow> disk \<Rightarrow> bool \<times> disk" where
  "mkdir p d = (if may_create d p then (True, d\<lparr>entries := entries d @ [(p, Directory)]\<rparr>) else (False, d))"

definition open_read_ok :: "disk \<Rightarrow> string \<Rightarrow> bool" where
  "open_read_ok d p \<longleftrightarrow> (\<exists>bs t. lookup d p = Some (Regular bs t)) \<and> p \<notin> set (no_read d)"

lemma open_read_ok_code [code]:
  "open_read_ok d p \<longleftrightarrow> (case lookup d p of Some (Regular _ _) \<Rightarrow> p \<notin> set (no_read d) | _ \<Rightarrow> False)"
  by (auto simp: open_read_ok_def split: option.splits node.splits)

text \<open>Opening for writing with creation and truncation, and one \<open>write\<close> at the end of a file.\<close>

definition open_trunc :: "string \<Rightarrow> disk \<Rightarrow> bool \<times> disk" where
  "open_trunc p d =
    (case lookup d p of
       Some (Regular _ _) \<Rightarrow> if p \<in> set (no_write d) then (False, d) else (True, set_content p [] d)
     | Some _ \<Rightarrow> (False, d)
     | None \<Rightarrow> if may_create d p then (True, d\<lparr>entries := entries d @ [(p, Regular [] (clock d))]\<rparr>)
               else (False, d))"

definition append_content :: "string \<Rightarrow> bytes \<Rightarrow> disk \<Rightarrow> disk" where
  "append_content p bs d = set_content p (content_of d p @ bs) d"

section \<open>Well-formed disks\<close>

text \<open>
  Every path occurs once and is shorter than \<open>PATH_MAX\<close>, the last component of a path is a
  name, and what comes before it is a directory of the disk.
\<close>

definition wf_disk :: "disk \<Rightarrow> bool" where
  "wf_disk d \<longleftrightarrow> distinct (map fst (entries d))
     \<and> list_all (\<lambda>e. length (fst e) < PATH_MAX) (entries d)
     \<and> list_all (\<lambda>e. slash \<in> set (fst e) \<longrightarrow> valid_name (basename (fst e))
           \<and> lookup d (dirname (fst e)) = Some Directory) (entries d)"

text \<open>\<open>q\<close> lies at or below \<open>p\<close>.\<close>

definition inside :: "string \<Rightarrow> string \<Rightarrow> bool" where
  "inside p q \<longleftrightarrow> q = p \<or> take (Suc (length p)) q = p @ [slash]"

section \<open>Paths\<close>

lemma take_snoc_iff: "take (Suc (length p)) q = p @ [x] \<longleftrightarrow> (\<exists>r. q = p @ x # r)"
proof
  assume "take (Suc (length p)) q = p @ [x]"
  then have "q = (p @ [x]) @ drop (Suc (length p)) q" by (metis append_take_drop_id)
  then show "\<exists>r. q = p @ x # r" by auto
qed auto

lemma inside_iff: "inside p q \<longleftrightarrow> q = p \<or> (\<exists>r. q = join p r)"
  by (simp add: inside_def take_snoc_iff join_def)

lemma length_join [simp]: "length (join p n) = Suc (length p + length n)"
  by (simp add: join_def)

lemma join_inject [simp]: "join p n = join p m \<longleftrightarrow> n = m"
  by (simp add: join_def)

lemma join_neq [simp]: "join p n \<noteq> p" "p \<noteq> join p n"
  by (simp_all add: join_def)

lemma slash_in_join [simp]: "slash \<in> set (join p n)"
  by (simp add: join_def)

lemma takeWhile_name: "slash \<notin> set n \<Longrightarrow> takeWhile (\<lambda>c. c \<noteq> slash) (n @ slash # r) = n"
  by (induction n) auto

lemma takeWhile_name_end: "slash \<notin> set n \<Longrightarrow> takeWhile (\<lambda>c. c \<noteq> slash) n = n"
  by (induction n) auto

lemma basename_join [simp]: "slash \<notin> set n \<Longrightarrow> basename (join p n) = n"
  by (simp add: basename_def join_def takeWhile_name)

lemma dirname_join [simp]: "slash \<notin> set n \<Longrightarrow> dirname (join p n) = p"
  by (simp add: dirname_def) (simp add: join_def)

lemma slash_notin_basename: "slash \<notin> set (basename q)"
  by (auto simp: basename_def dest: set_takeWhileD)

lemma split_path: "slash \<in> set q \<Longrightarrow> q = join (dirname q) (basename q)"
proof -
  assume "slash \<in> set q"
  then obtain p n where "q = p @ slash # n" "slash \<notin> set n"
    by (metis split_list_last)
  then have "q = join p n" "slash \<notin> set n" by (simp_all add: join_def)
  then show ?thesis by simp
qed

lemma join_assoc: "join (join p n) r = join p (n @ slash # r)"
  by (simp add: join_def)

lemma inside_child: "inside (join p n) q \<Longrightarrow> inside p q"
  by (auto simp: inside_iff join_assoc)

lemma inside_join_cases:
  assumes "slash \<notin> set n" shows "inside p (join r n) \<longleftrightarrow> p = join r n \<or> inside p r"
proof
  assume "inside p (join r n)"
  then consider "p = join r n" | s where "join r n = join p s" by (auto simp: inside_iff)
  then show "p = join r n \<or> inside p r"
  proof cases
    case 2
    show ?thesis
    proof (cases "slash \<in> set s")
      case True
      then have "s = join (dirname s) (basename s)" by (rule split_path)
      with 2 have "join r n = join (join p (dirname s)) (basename s)"
        by (simp add: join_assoc) (simp add: join_def)
      then have "dirname (join r n) = join p (dirname s)"
        by (simp add: slash_notin_basename)
      then show ?thesis using assms by (auto simp: inside_iff)
    next
      case False
      with 2 assms have "r = p" by (metis dirname_join)
      then show ?thesis by (simp add: inside_def)
    qed
  qed simp
next
  assume "p = join r n \<or> inside p r"
  then show "inside p (join r n)"
    by (auto simp: inside_iff) (auto simp: join_def)
qed

lemma siblings_disjoint:
  assumes "inside (join p n) q" "inside (join p m) q" "slash \<notin> set n" "slash \<notin> set m"
  shows "n = m"
proof -
  have *: "takeWhile (\<lambda>c. c \<noteq> slash) (drop (Suc (length p)) q) = k"
    if "inside (join p k) q" "slash \<notin> set k" for k
    using that by (auto simp: inside_iff join_def takeWhile_name takeWhile_name_end)
  from * [OF assms(1,3)] * [OF assms(2,4)] show ?thesis by simp
qed

section \<open>What the calls do to a disk\<close>

named_theorems disk_simps \<open>lookups after a call\<close>

lemma map_of_filter_key: "map_of (filter (\<lambda>e. fst e \<noteq> p) xs) q = (if q = p then None else map_of xs q)"
  by (induction xs) auto

lemma lookup_drop_entry [disk_simps]: "lookup (drop_entry p d) q = (if q = p then None else lookup d q)"
  by (simp add: lookup_def drop_entry_def map_of_filter_key)

lemma map_of_set_key:
  "map_of (map (\<lambda>(q, nd). if q = p then (q, v) else (q, nd)) xs) q
    = (if q = p \<and> map_of xs p \<noteq> None then Some v else map_of xs q)"
  by (induction xs) auto

lemma lookup_set_content [disk_simps]:
  "lookup (set_content p bs d) q =
    (if q = p \<and> lookup d p \<noteq> None then Some (Regular bs (clock d)) else lookup d q)"
  by (simp add: lookup_def set_content_def map_of_set_key)

lemma lookup_add [disk_simps]:
  "lookup (d\<lparr>entries := entries d @ [(p, nd)]\<rparr>) q
    = (case lookup d q of None \<Rightarrow> if q = p then Some nd else None | Some x \<Rightarrow> Some x)"
  by (simp add: lookup_def map_add_def split: option.split)

lemma lookup_None_iff: "lookup d p = None \<longleftrightarrow> p \<notin> fst ` set (entries d)"
  by (simp add: lookup_def map_of_eq_None_iff)

lemma lookup_Some_iff: "wf_disk d \<Longrightarrow> lookup d p = Some nd \<longleftrightarrow> (p, nd) \<in> set (entries d)"
  by (simp add: lookup_def wf_disk_def)

lemma wf_diskI:
  assumes "distinct (map fst (entries d))"
    and "\<And>p nd. (p, nd) \<in> set (entries d) \<Longrightarrow> length p < PATH_MAX"
    and "\<And>p nd. (p, nd) \<in> set (entries d) \<Longrightarrow> slash \<in> set p \<Longrightarrow>
           valid_name (basename p) \<and> lookup d (dirname p) = Some Directory"
  shows "wf_disk d"
  using assms by (fastforce simp: wf_disk_def list_all_iff)

lemma wf_diskD:
  assumes "wf_disk d" "(p, nd) \<in> set (entries d)"
  shows "length p < PATH_MAX" "slash \<in> set p \<Longrightarrow> valid_name (basename p)"
    "slash \<in> set p \<Longrightarrow> lookup d (dirname p) = Some Directory"
  using assms by (auto simp: wf_disk_def list_all_iff)

lemma wf_distinct: "wf_disk d \<Longrightarrow> distinct (map fst (entries d))"
  by (simp add: wf_disk_def)

lemma dirname_neq: "slash \<in> set q \<Longrightarrow> dirname q \<noteq> q"
  by (metis join_neq(2) split_path)

text \<open>An entry without children can go.\<close>

lemma wf_drop_entry:
  assumes wf: "wf_disk d"
    and leaf: "\<And>q nd. (q, nd) \<in> set (entries d) \<Longrightarrow> slash \<in> set q \<Longrightarrow> dirname q \<noteq> p"
  shows "wf_disk (drop_entry p d)"
proof (rule wf_diskI)
  show "distinct (map fst (entries (drop_entry p d)))"
    using wf_distinct [OF wf] by (simp add: drop_entry_def distinct_map_filter)
next
  fix q nd assume "(q, nd) \<in> set (entries (drop_entry p d))"
  then have q: "(q, nd) \<in> set (entries d)" by (simp add: drop_entry_def)
  show "length q < PATH_MAX" by (rule wf_diskD(1) [OF wf q])
  assume s: "slash \<in> set q"
  show "valid_name (basename q) \<and> lookup (drop_entry p d) (dirname q) = Some Directory"
    using wf_diskD(2,3) [OF wf q s] leaf [OF q s] by (simp add: disk_simps)
qed

lemma wf_drop_file:
  assumes wf: "wf_disk d" and "lookup d p \<noteq> Some Directory"
  shows "wf_disk (drop_entry p d)"
  by (rule wf_drop_entry [OF wf]) (use assms wf_diskD(3) [OF wf] in force)

lemma wf_set_content:
  assumes wf: "wf_disk d" and p: "lookup d p \<noteq> Some Directory"
  shows "wf_disk (set_content p bs d)"
proof (rule wf_diskI)
  have "map fst (entries (set_content p bs d)) = map fst (entries d)"
    by (auto simp: set_content_def)
  with wf_distinct [OF wf] show "distinct (map fst (entries (set_content p bs d)))" by simp
next
  fix q nd assume "(q, nd) \<in> set (entries (set_content p bs d))"
  then obtain nd' where q: "(q, nd') \<in> set (entries d)"
    by (auto simp: set_content_def split: if_splits)
  show "length q < PATH_MAX" by (rule wf_diskD(1) [OF wf q])
  assume s: "slash \<in> set q"
  show "valid_name (basename q) \<and> lookup (set_content p bs d) (dirname q) = Some Directory"
    using wf_diskD(2,3) [OF wf q s] p by (auto simp: disk_simps)
qed

lemma wf_add:
  assumes wf: "wf_disk d" and p: "may_create d p"
  shows "wf_disk (d\<lparr>entries := entries d @ [(p, nd)]\<rparr>)"
proof (rule wf_diskI)
  show "distinct (map fst (entries (d\<lparr>entries := entries d @ [(p, nd)]\<rparr>)))"
    using wf_distinct [OF wf] p by (simp add: may_create_def lookup_None_iff)
next
  fix q nd' assume "(q, nd') \<in> set (entries (d\<lparr>entries := entries d @ [(p, nd)]\<rparr>))"
  then consider "(q, nd') \<in> set (entries d)" | "q = p" by auto
  note c = this
  show "length q < PATH_MAX"
    using c by cases (use wf_diskD(1) [OF wf] p in \<open>auto simp: may_create_def\<close>)
  assume s: "slash \<in> set q"
  show "valid_name (basename q) \<and>
      lookup (d\<lparr>entries := entries d @ [(p, nd)]\<rparr>) (dirname q) = Some Directory"
    using c by cases (use wf_diskD(2,3) [OF wf _ s] p in \<open>auto simp: may_create_def disk_simps\<close>)
qed

lemma wf_unlink: "wf_disk d \<Longrightarrow> unlink p d = (ok, d') \<Longrightarrow> wf_disk d'"
  by (auto simp: unlink_def intro: wf_drop_file split: option.splits node.splits if_splits)

lemma wf_open_trunc: "wf_disk d \<Longrightarrow> open_trunc p d = (ok, d') \<Longrightarrow> wf_disk d'"
  by (auto simp: open_trunc_def intro: wf_set_content wf_add split: option.splits node.splits if_splits)

lemma wf_mkdir: "wf_disk d \<Longrightarrow> mkdir p d = (ok, d') \<Longrightarrow> wf_disk d'"
  by (auto simp: mkdir_def intro: wf_add split: if_splits)

lemma wf_append_content: "wf_disk d \<Longrightarrow> lookup d p \<noteq> Some Directory \<Longrightarrow> wf_disk (append_content p bs d)"
  by (simp add: append_content_def wf_set_content)

section \<open>Directories\<close>

lemma drop_join [simp]: "drop (Suc (length p)) (join p n) = n"
  by (simp add: join_def)

lemma child_name_Some: "child_name p q = Some n \<longleftrightarrow> q = join p n \<and> slash \<notin> set n"
  by (auto simp: child_name_def Let_def)

lemma set_children: "set (List.map_filter (\<lambda>e. child_name p (fst e)) es) = {n. join p n \<in> fst ` set es \<and> slash \<notin> set n}"
  by (induction es) (auto simp: map_filter_simps child_name_Some split: option.splits, auto simp: child_name_def Let_def)

lemma distinct_children:
  "distinct (map fst es) \<Longrightarrow> distinct (List.map_filter (\<lambda>e. child_name p (fst e)) es)"
proof (induction es)
  case (Cons e es)
  show ?case
  proof (cases "child_name p (fst e)")
    case None
    with Cons show ?thesis by (simp add: map_filter_simps)
  next
    case (Some n)
    then have "n \<notin> set (List.map_filter (\<lambda>e. child_name p (fst e)) es)"
      using Cons.prems by (auto simp: set_children child_name_Some)
    with Some Cons show ?thesis by (simp add: map_filter_simps)
  qed
qed (simp add: map_filter_simps)

text \<open>Whatever lies below a directory lies at or below one of its children.\<close>

lemma below_via_child:
  assumes wf: "wf_disk d" and q: "lookup d q \<noteq> None" and u: "inside p q" "q \<noteq> p"
  shows "\<exists>n. slash \<notin> set n \<and> lookup d (join p n) \<noteq> None \<and> inside (join p n) q"
  using q u
proof (induction "length q" arbitrary: q rule: less_induct)
  case less
  from less.prems have s: "slash \<in> set q" by (auto simp: inside_iff)
  let ?r = "dirname q" and ?b = "basename q"
  have eq: "q = join ?r ?b" by (rule split_path [OF s])
  obtain nd where "lookup d q = Some nd" using less.prems by blast
  then have "(q, nd) \<in> set (entries d)" by (simp add: lookup_Some_iff [OF wf])
  then have dir: "lookup d ?r = Some Directory" using s by (rule wf_diskD(3) [OF wf])
  have "inside p ?r"
    using less.prems(2,3) inside_join_cases [OF slash_notin_basename, of p ?r q] eq by metis
  show ?case
  proof (cases "?r = p")
    case True
    then show ?thesis using eq less.prems(1) slash_notin_basename [of q]
      by (intro exI [of _ ?b]) (simp add: inside_def)
  next
    case False
    have "length ?r < length q" by (subst (2) eq) simp
    from less.hyps [OF this] dir \<open>inside p ?r\<close> False obtain n where
      n: "slash \<notin> set n" "lookup d (join p n) \<noteq> None" "inside (join p n) ?r" by auto
    then have "inside (join p n) q"
      by (subst eq, subst inside_join_cases [OF slash_notin_basename]) simp
    with n show ?thesis by blast
  qed
qed

lemma children_of_directory:
  assumes "wf_disk d" "lookup d (join p n) \<noteq> None" "slash \<notin> set n"
  shows "lookup d p = Some Directory" "valid_name n"
proof -
  obtain nd where "lookup d (join p n) = Some nd" using assms(2) by blast
  then have "(join p n, nd) \<in> set (entries d)" using assms(1) by (simp add: lookup_Some_iff)
  from wf_diskD(2,3) [OF assms(1) this] assms(3)
  show "lookup d p = Some Directory" "valid_name n" by simp_all
qed

definition child_names :: "disk \<Rightarrow> string \<Rightarrow> string list" where
  "child_names d p = List.map_filter (\<lambda>e. child_name p (fst e)) (entries d)"

lemma child_names_iff: "n \<in> set (child_names d p) \<longleftrightarrow> lookup d (join p n) \<noteq> None \<and> slash \<notin> set n"
  by (simp add: child_names_def set_children lookup_None_iff)

lemma readdir_eq: "readdir d p = ''.'' # ''..'' # child_names d p"
  by (simp add: readdir_def child_names_def)

lemma child_names_valid: "wf_disk d \<Longrightarrow> n \<in> set (child_names d p) \<Longrightarrow> n \<noteq> ''.'' \<and> n \<noteq> ''..''"
  using children_of_directory(2) [of d p n] by (auto simp: child_names_iff valid_name_def)

lemma lookup_length: "wf_disk d \<Longrightarrow> lookup d p \<noteq> None \<Longrightarrow> length p < PATH_MAX"
  by (auto simp: lookup_Some_iff dest: wf_diskD(1))

section \<open>Removing entries\<close>

definition remove_files :: "string set \<Rightarrow> disk \<Rightarrow> disk" where
  "remove_files X d = d\<lparr>entries := filter (\<lambda>e. fst e \<notin> X) (entries d)\<rparr>"

lemma remove_none [simp]: "remove_files {} d = d"
  by (simp add: remove_files_def)

lemma remove_drop: "remove_files X (drop_entry p d) = remove_files (insert p X) d"
  by (simp add: remove_files_def drop_entry_def conj_commute)

lemma unlink_True: "unlink p d = (True, d') \<Longrightarrow> d' = drop_entry p d \<and> lookup d p \<noteq> Some Directory"
  by (auto simp: unlink_def split: option.splits node.splits if_splits)

lemma unlink_False: "unlink p d = (False, d') \<Longrightarrow> d' = d"
  by (auto simp: unlink_def split: option.splits node.splits if_splits)

lemma content_set [simp]:
  "content_of (set_content p bs d) q = (if q = p \<and> lookup d p \<noteq> None then bs else content_of d q)"
  by (auto simp: content_of_def disk_simps)

lemma content_append:
  "lookup d p \<noteq> None \<Longrightarrow> content_of (append_content p bs d) q
    = (if q = p then content_of d p @ bs else content_of d q)"
  by (simp add: append_content_def)

lemma lookup_remove [disk_simps]: "lookup (remove_files X d) q = (if q \<in> X then None else lookup d q)"
proof -
  have "map_of (filter (\<lambda>e. fst e \<notin> X) es) q = (if q \<in> X then None else map_of es q)" for es :: "(string \<times> node) list"
    by (induction es) auto
  then show ?thesis by (simp add: lookup_def remove_files_def)
qed

lemma content_remove: "content_of (remove_files X d) q = (if q \<in> X then [] else content_of d q)"
  by (simp add: content_of_def disk_simps)

lemma remove_remove: "remove_files X (remove_files Y d) = remove_files (X \<union> Y) d"
  by (simp add: remove_files_def conj_commute)

lemma drop_entry_remove: "drop_entry p d = remove_files {p} d"
  by (simp add: remove_files_def drop_entry_def)

lemma remove_same_access [simp]:
  "no_unlink (remove_files X d) = no_unlink d" "no_list (remove_files X d) = no_list d"
  by (simp_all add: remove_files_def)

lemma unlink_removes: "\<exists>X \<subseteq> {p}. snd (unlink p d) = remove_files X d"
proof (cases "fst (unlink p d)")
  case True
  then have "snd (unlink p d) = remove_files {p} d"
    using unlink_True [of p d "snd (unlink p d)"] by (simp add: prod_eq_iff drop_entry_remove)
  then show ?thesis by blast
next
  case False
  then have "snd (unlink p d) = remove_files {} d"
    using unlink_False [of p d "snd (unlink p d)"] by (simp add: prod_eq_iff)
  then show ?thesis by blast
qed

lemma unlink_wf_snd: "wf_disk d \<Longrightarrow> wf_disk (snd (unlink p d))"
  by (metis prod.collapse wf_unlink)

text \<open>A directory that can be removed is empty, so nothing lies below it.\<close>

lemma rmdir_True:
  assumes wf: "wf_disk d" and r: "rmdir p d = (True, d')"
  shows "d' = drop_entry p d" "wf_disk d'" "\<forall>q. inside p q \<longrightarrow> lookup d' q = None"
proof -
  from r have e: "d' = drop_entry p d" "child_names d p = []"
    by (auto simp: rmdir_def readdir_eq split: if_splits)
  show "d' = drop_entry p d" by (rule e)
  have no: "lookup d q = None" if "inside p q" "q \<noteq> p" for q
    using below_via_child [OF wf _ that] child_names_iff [of _ d p, unfolded e(2)] by force
  then show "\<forall>q. inside p q \<longrightarrow> lookup d' q = None" by (auto simp: e(1) disk_simps)
  show "wf_disk d'" unfolding e(1)
  proof (rule wf_drop_entry [OF wf])
    fix q nd assume q: "(q, nd) \<in> set (entries d)" and s: "slash \<in> set q"
    show "dirname q \<noteq> p"
    proof
      assume "dirname q = p"
      then have "q = join p (basename q)" using split_path [OF s] by simp
      then have "inside p q" by (auto simp: inside_iff)
      then have "lookup d q = None" using no dirname_neq [OF s] \<open>dirname q = p\<close> by auto
      with q show False by (auto simp: lookup_None_iff image_iff)
    qed
  qed
qed

lemma rmdir_False: "rmdir p d = (False, d') \<Longrightarrow> d' = d"
  by (simp add: rmdir_def split: if_splits)

end
