(* ===== verification/Dir_Size.thy ===== *)
theory Dir_Size
  imports Posix_Files "HOL-Library.Multiset"
begin

text \<open>
  The directory quota of \<open>common/dirsize_manager/dirsize_manager.c\<close>: collecting the files below
  a directory, deleting the oldest ones until a limit is kept, and saving a file into the
  directory within the limit. A \<open>long\<close> is an integer (the code never adds up to 2^63 bytes),
  allocations succeed, and \<open>qsort\<close> is an argument: C leaves the order of equal elements
  open. The recursion over directories has fuel; \<open>PATH_MAX\<close> is enough of it.
\<close>

section \<open>Error codes and lists of files\<close>

definition DM_SUCCESS :: int where "DM_SUCCESS = 0"
definition DM_ERROR :: int where "DM_ERROR = - 1"
definition DM_FILE_TOO_LARGE :: int where "DM_FILE_TOO_LARGE = - 2"
definition DM_NO_SPACE :: int where "DM_NO_SPACE = - 3"
definition DM_SRC_FILE_ERROR :: int where "DM_SRC_FILE_ERROR = - 4"
definition DM_DST_FILE_ERROR :: int where "DM_DST_FILE_ERROR = - 5"

lemmas dm_codes = DM_SUCCESS_def DM_ERROR_def DM_FILE_TOO_LARGE_def DM_NO_SPACE_def
  DM_SRC_FILE_ERROR_def DM_DST_FILE_ERROR_def

record file_info =
  fi_path :: string
  fi_size :: int
  fi_mtime :: int

record file_list =
  files :: "file_info list"
  capacity :: nat
  total_size :: int

definition init_file_list :: file_list where
  "init_file_list = \<lparr>files = [], capacity = 0, total_size = 0\<rparr>"

definition add_to_file_list :: "file_list \<Rightarrow> string \<Rightarrow> int \<Rightarrow> int \<Rightarrow> file_list" where
  "add_to_file_list l path sz mtime =
    l\<lparr>capacity := (if capacity l \<le> length (files l)
                   then (if capacity l \<noteq> 0 then capacity l * 2 else 16) else capacity l),
      files := files l @ [\<lparr>fi_path = path, fi_size = sz, fi_mtime = mtime\<rparr>],
      total_size := total_size l + sz\<rparr>"

definition compare_files_by_age :: "file_info \<Rightarrow> file_info \<Rightarrow> int" where
  "compare_files_by_age a b =
    (if fi_mtime a > fi_mtime b then 1 else 0) - (if fi_mtime a < fi_mtime b then 1 else 0)"

section \<open>Collecting files\<close>

definition full_path :: "string \<Rightarrow> string \<Rightarrow> string" where
  "full_path path name = snprintf_path PATH_MAX (join path name)"

fun collect_files :: "nat \<Rightarrow> disk \<Rightarrow> string \<Rightarrow> file_list \<Rightarrow> (int \<times> file_list) option"
  and collect_entries :: "nat \<Rightarrow> disk \<Rightarrow> string \<Rightarrow> string list \<Rightarrow> file_list \<Rightarrow> (int \<times> file_list) option" where
  "collect_files 0 d path l = None"
| "collect_files (Suc k) d path l =
    (case lookup d path of
       None \<Rightarrow> Some (DM_ERROR, l)
     | Some (Regular bs mtime) \<Rightarrow> Some (DM_SUCCESS, add_to_file_list l path (int (length bs)) mtime)
     | Some Directory \<Rightarrow>
         if \<not> opendir_ok d path then Some (DM_ERROR, l)
         else collect_entries k d path (readdir d path) l
     | Some Special \<Rightarrow> Some (DM_SUCCESS, l))"
| "collect_entries k d path [] l = Some (DM_SUCCESS, l)"
| "collect_entries k d path (name # names) l =
    (if name = ''.'' \<or> name = ''..'' then collect_entries k d path names l
     else case collect_files k d (full_path path name) l of
       None \<Rightarrow> None
     | Some (r, l') \<Rightarrow> if r \<noteq> DM_SUCCESS then Some (DM_ERROR, l') else collect_entries k d path names l')"

section \<open>Freeing space\<close>

text \<open>The loop over the sorted files; \<open>None\<close> stands for the early return after a failed \<open>unlink\<close>.\<close>

fun free_loop :: "file_info list \<Rightarrow> int \<Rightarrow> int \<Rightarrow> disk \<Rightarrow> int option \<times> disk" where
  "free_loop [] left required d = (Some left, d)"
| "free_loop (f # fs) left required d =
    (if left > required then
       (case unlink (fi_path f) d of
          (True, d') \<Rightarrow> free_loop fs (left - fi_size f) required d'
        | (False, d') \<Rightarrow> (None, d'))
     else (Some left, d))"

type_synonym sorter = "(file_info \<Rightarrow> file_info \<Rightarrow> int) \<Rightarrow> file_info list \<Rightarrow> file_info list"

definition free_up_space :: "sorter \<Rightarrow> file_list \<Rightarrow> int \<Rightarrow> disk \<Rightarrow> int \<times> disk" where
  "free_up_space qsort l required d =
    (case free_loop (qsort compare_files_by_age (files l)) (total_size l) required d of
       (None, d') \<Rightarrow> (DM_ERROR, d')
     | (Some left, d') \<Rightarrow> (if left > required then DM_NO_SPACE else DM_SUCCESS, d'))"

section \<open>Copying\<close>

text \<open>
  Round \<open>k\<close> of the loop asks \<open>io k\<close> whether the read fails and how many bytes the write takes
  (0 for a failed write).
\<close>

type_synonym io = "nat \<Rightarrow> bool \<times> nat"

function copy_loop :: "io \<Rightarrow> nat \<Rightarrow> bytes \<Rightarrow> string \<Rightarrow> disk \<Rightarrow> int \<times> disk" where
  "copy_loop io k rest dst d =
    (if fst (io k) then (DM_SRC_FILE_ERROR, d)
     else if rest = [] then (DM_SUCCESS, d)
     else let buffer = take 4096 rest;
              written = min (snd (io k)) (length buffer);
              d' = append_content dst (take written buffer) d
          in if written \<noteq> length buffer then (DM_DST_FILE_ERROR, d')
             else copy_loop io (Suc k) (drop 4096 rest) dst d')"
  by pat_completeness auto
termination by (relation "measure (\<lambda>(_, _, rest, _). length rest)") auto

declare copy_loop.simps [simp del]

definition copy_file :: "io \<Rightarrow> string \<Rightarrow> string \<Rightarrow> disk \<Rightarrow> int \<times> disk" where
  "copy_file io src dst d =
    (if \<not> open_read_ok d src then (DM_SRC_FILE_ERROR, d)
     else case open_trunc dst d of
       (False, d1) \<Rightarrow> (DM_DST_FILE_ERROR, d1)
     | (True, d1) \<Rightarrow>
         let (result, d2) = copy_loop io 0 (content_of d1 src) dst d1
         in (result, if result \<noteq> DM_SUCCESS then snd (unlink dst d2) else d2))"

section \<open>The interface\<close>

definition dm_save_file_to_dir ::
  "nat \<Rightarrow> sorter \<Rightarrow> io \<Rightarrow> string \<Rightarrow> string \<Rightarrow> int \<Rightarrow> disk \<Rightarrow> (int \<times> disk) option" where
  "dm_save_file_to_dir fuel qsort io dir_path src_path max_size_kb d =
    (case lookup d src_path of
       Some (Regular bs _) \<Rightarrow>
         (let file_size = int (length bs); max_size_bytes = max_size_kb * 1024 in
          if file_size > max_size_bytes then Some (DM_FILE_TOO_LARGE, d)
          else case collect_files fuel d dir_path init_file_list of
            None \<Rightarrow> None
          | Some (r, l) \<Rightarrow>
              if r \<noteq> DM_SUCCESS then Some (DM_ERROR, d)
              else
                let (fr, d1) = (if total_size l + file_size > max_size_bytes
                                then free_up_space qsort l (max_size_bytes - file_size) d
                                else (DM_SUCCESS, d))
                in if fr \<noteq> DM_SUCCESS then Some (DM_NO_SPACE, d1)
                   else Some (copy_file io src_path (snprintf_path PATH_MAX (join dir_path (basename src_path))) d1))
     | _ \<Rightarrow> Some (DM_SRC_FILE_ERROR, d))"

text \<open>The second component is what \<open>*size_kb\<close> is set to.\<close>

definition dm_get_dir_size :: "nat \<Rightarrow> string \<Rightarrow> disk \<Rightarrow> (int \<times> int option) option" where
  "dm_get_dir_size fuel dir_path d =
    (case collect_files fuel d dir_path init_file_list of
       None \<Rightarrow> None
     | Some (r, l) \<Rightarrow> if r \<noteq> DM_SUCCESS then Some (DM_ERROR, None)
                      else Some (DM_SUCCESS, Some (total_size l div 1024)))"

definition dm_clean_dir_to_size :: "nat \<Rightarrow> sorter \<Rightarrow> string \<Rightarrow> int \<Rightarrow> disk \<Rightarrow> (int \<times> disk) option" where
  "dm_clean_dir_to_size fuel qsort dir_path max_size_kb d =
    (case collect_files fuel d dir_path init_file_list of
       None \<Rightarrow> None
     | Some (r, l) \<Rightarrow>
         if r \<noteq> DM_SUCCESS then Some (DM_ERROR, d)
         else let max_size_bytes = max_size_kb * 1024
              in if total_size l > max_size_bytes then Some (free_up_space qsort l max_size_bytes d)
                 else Some (DM_SUCCESS, d))"

section \<open>What collecting finds\<close>

fun info_of :: "string \<times> node \<Rightarrow> file_info list" where
  "info_of (q, Regular bs t) = [\<lparr>fi_path = q, fi_size = int (length bs), fi_mtime = t\<rparr>]"
| "info_of (q, Directory) = []"
| "info_of (q, Special) = []"

definition infos :: "(string \<Rightarrow> bool) \<Rightarrow> (string \<times> node) list \<Rightarrow> file_info list" where
  "infos P es = concat (map info_of (filter (\<lambda>e. P (fst e)) es))"

definition below :: "disk \<Rightarrow> string \<Rightarrow> file_info list" where
  "below d p = infos (inside p) (entries d)"

definition sum_sizes :: "file_info list \<Rightarrow> int" where
  "sum_sizes fs = sum_list (map fi_size fs)"

lemma infos_simps [simp]:
  "infos P [] = []"
  "infos P (e # es) = (if P (fst e) then info_of e else []) @ infos P es"
  by (simp_all add: infos_def)

lemma infos_cong: "(\<And>q. q \<in> fst ` set es \<Longrightarrow> P q = Q q) \<Longrightarrow> infos P es = infos Q es"
  by (induction es) auto

lemma infos_none: "(\<And>q. q \<in> fst ` set es \<Longrightarrow> \<not> P q) \<Longrightarrow> infos P es = []"
  by (induction es) auto

lemma infos_split:
  "(\<And>q. q \<in> fst ` set es \<Longrightarrow> \<not> (A q \<and> B q)) \<Longrightarrow>
    mset (infos (\<lambda>q. A q \<or> B q) es) = mset (infos A es) + mset (infos B es)"
  by (induction es) auto

lemma infos_children:
  assumes "distinct ns" "\<And>q n m. n \<in> set ns \<Longrightarrow> m \<in> set ns \<Longrightarrow> A n q \<Longrightarrow> A m q \<Longrightarrow> n = m"
  shows "mset (infos (\<lambda>q. \<exists>n\<in>set ns. A n q) es) = (\<Sum>n\<leftarrow>ns. mset (infos (A n) es))"
  using assms
proof (induction ns)
  case (Cons n ns)
  have "infos (\<lambda>q. \<exists>m\<in>set (n # ns). A m q) es = infos (\<lambda>q. A n q \<or> (\<exists>m\<in>set ns. A m q)) es"
    by (rule infos_cong) auto
  moreover have "\<not> (A n q \<and> (\<exists>m\<in>set ns. A m q))" for q
    using Cons.prems(1) Cons.prems(2) [of n _ q] by auto
  ultimately show ?case using Cons by (simp add: infos_split)
qed (simp add: infos_none)

lemma infos_single:
  "distinct (map fst es) \<Longrightarrow> (p, nd) \<in> set es \<Longrightarrow>
    (\<And>q. q \<in> fst ` set es \<Longrightarrow> P q \<longleftrightarrow> q = p) \<Longrightarrow> infos P es = info_of (p, nd)"
proof (induction es)
  case (Cons e es)
  show ?case
  proof (cases "fst e = p")
    case True
    then have "(p, snd e) \<in> set (e # es)" by (cases e) simp
    then have "snd e = nd" using eq_key_imp_eq_value [OF Cons.prems(1)] Cons.prems(2) by blast
    with True have "e = (p, nd)" by (simp add: prod_eq_iff)
    moreover have "p \<notin> fst ` set es" using Cons.prems(1) True by simp
    then have "infos P es = []"
      by (intro infos_none) (metis Cons.prems(3) image_eqI insertI2 list.set(2) image_insert)
    ultimately show ?thesis using Cons.prems(3) [of p] by simp
  next
    case False
    with Cons show ?thesis by (cases e) auto
  qed
qed simp

lemma below_file:
  assumes wf: "wf_disk d" and p: "lookup d p = Some nd" "nd \<noteq> Directory"
  shows "below d p = info_of (p, nd)"
  unfolding below_def
proof (rule infos_single)
  show "distinct (map fst (entries d))" by (rule wf_distinct [OF wf])
  show "(p, nd) \<in> set (entries d)" using p wf by (simp add: lookup_Some_iff)
  fix q assume "q \<in> fst ` set (entries d)"
  then have "lookup d q \<noteq> None" by (simp add: lookup_None_iff)
  then show "inside p q \<longleftrightarrow> q = p"
    using below_via_child [OF wf, of q p] children_of_directory(1) [OF wf, of p] p
    by (auto simp: inside_def)
qed

lemma below_directory:
  assumes wf: "wf_disk d" and p: "lookup d p = Some Directory"
  shows "mset (below d p) = (\<Sum>n\<leftarrow>child_names d p. mset (below d (join p n)))"
proof -
  have "infos (inside p) (entries d) = infos (\<lambda>q. q = p \<or> (\<exists>n\<in>set (child_names d p). inside (join p n) q)) (entries d)"
  proof (rule infos_cong)
    fix q assume "q \<in> fst ` set (entries d)"
    then have "lookup d q \<noteq> None" by (simp add: lookup_None_iff)
    from below_via_child [OF wf this, of p]
    have "inside p q \<Longrightarrow> q \<noteq> p \<Longrightarrow> \<exists>n\<in>set (child_names d p). inside (join p n) q"
      by (force simp: child_names_iff)
    then show "inside p q = (q = p \<or> (\<exists>n\<in>set (child_names d p). inside (join p n) q))"
      using inside_child [of p _ q] by (auto simp: inside_def [of p p])
  qed
  also have "mset \<dots> = mset (infos (\<lambda>q. q = p) (entries d))
      + mset (infos (\<lambda>q. \<exists>n\<in>set (child_names d p). inside (join p n) q) (entries d))"
    by (rule infos_split) (auto simp: inside_iff join_def)
  also have "infos (\<lambda>q. q = p) (entries d) = []"
    using infos_single [OF wf_distinct [OF wf], of p Directory "\<lambda>q. q = p"] p wf
    by (simp add: lookup_Some_iff)
  also have "mset (infos (\<lambda>q. \<exists>n\<in>set (child_names d p). inside (join p n) q) (entries d))
      = (\<Sum>n\<leftarrow>child_names d p. mset (below d (join p n)))"
    unfolding below_def
    by (rule infos_children)
      (auto simp: child_names_iff distinct_children [OF wf_distinct [OF wf]] child_names_def [symmetric]
        dest: siblings_disjoint, simp add: child_names_def distinct_children wf_distinct [OF wf])
  finally show ?thesis by (simp add: below_def)
qed

lemma full_path_in_disk: "wf_disk d \<Longrightarrow> lookup d (join p n) \<noteq> None \<Longrightarrow> full_path p n = join p n"
  by (auto simp: full_path_def snprintf_path_def lookup_Some_iff dest: wf_diskD(1))

text \<open>
  A successful collection adds exactly the files at or below the path, and their sizes to the
  total; it always ends when the fuel exceeds what is left up to the longest path.
\<close>

definition adds :: "file_list \<Rightarrow> file_info multiset \<Rightarrow> file_list \<Rightarrow> bool" where
  "adds l M l' \<longleftrightarrow> mset (files l') = mset (files l) + M
     \<and> total_size l' = total_size l + (\<Sum>f\<in>#M. fi_size f)"

lemma adds_empty [simp]: "adds l {#} l"
  by (simp add: adds_def)

lemma adds_trans: "adds l M l' \<Longrightarrow> adds l' N l'' \<Longrightarrow> adds l (M + N) l''"
  by (simp add: adds_def)

lemma adds_add: "adds l (mset (info_of (p, Regular bs t))) (add_to_file_list l p (int (length bs)) t)"
  by (simp add: adds_def add_to_file_list_def)

lemma collecting_adds:
  assumes wf: "wf_disk d"
  shows "collect_files k d p l = Some (DM_SUCCESS, l') \<Longrightarrow> adds l (mset (below d p)) l'"
    and "collect_entries k d p ns l = Some (DM_SUCCESS, l') \<Longrightarrow> set ns \<subseteq> {''.'', ''..''} \<union> set (child_names d p) \<Longrightarrow>
      adds l (\<Sum>n\<leftarrow>filter (\<lambda>n. \<not> (n = ''.'' \<or> n = ''..'')) ns. mset (below d (join p n))) l'"
  using wf
proof (induction k d p l and k d p ns l arbitrary: l' and l' rule: collect_files_collect_entries.induct)
  case (2 k d p l)
  then show ?case
  proof (cases "lookup d p")
    case (Some nd)
    show ?thesis
    proof (cases nd)
      case (Regular bs t)
      then show ?thesis using 2 Some adds_add [of l p bs t] by (simp add: below_file)
    next
      case Directory
      with 2(2) Some have op: "opendir_ok d p" "collect_entries k d p (readdir d p) l = Some (DM_SUCCESS, l')"
        by (auto simp: dm_codes split: if_splits)
      have "filter (\<lambda>n. \<not> (n = ''.'' \<or> n = ''..'')) (child_names d p) = child_names d p"
        using child_names_valid [OF 2(3), of _ p] by (auto simp: filter_id_conv)
      with 2(1) [OF Some Directory _ op(2) _ 2(3)] op(1) show ?thesis
        using Some Directory below_directory [OF 2(3), of p] by (auto simp: readdir_eq)
    next
      case Special
      then show ?thesis using 2 Some by (simp add: below_file)
    qed
  qed (simp add: dm_codes)
next
  case (4 k d p n ns l)
  show ?case
  proof (cases "n = ''.'' \<or> n = ''..''")
    case True
    then show ?thesis using 4(1) 4(4-6) by auto
  next
    case nn: False
    then have n: "n \<in> set (child_names d p)" using 4(5) by auto
    then have fp: "full_path p n = join p n"
      by (simp add: child_names_iff full_path_in_disk [OF 4(6)])
    from 4(4) nn fp obtain l1 where l1: "collect_files k d (join p n) l = Some (DM_SUCCESS, l1)"
      "collect_entries k d p ns l1 = Some (DM_SUCCESS, l')"
      by (auto simp: dm_codes split: option.splits if_splits)
    have "adds l (mset (below d (join p n))) l1"
      using 4(2) [OF nn] l1(1) fp 4(6) by simp
    moreover have "adds l1 (\<Sum>n\<leftarrow>filter (\<lambda>n. \<not> (n = ''.'' \<or> n = ''..'')) ns. mset (below d (join p n))) l'"
      using 4(3) [OF nn _ refl _ l1(2)] l1(1) fp 4(5,6) by (simp add: dm_codes)
    ultimately have "adds l (mset (below d (join p n))
        + (\<Sum>n\<leftarrow>filter (\<lambda>n. \<not> (n = ''.'' \<or> n = ''..'')) ns. mset (below d (join p n)))) l'"
      by (rule adds_trans)
    with nn show ?thesis by simp
  qed
qed simp_all

lemma collecting_ends:
  assumes wf: "wf_disk d"
  shows "0 < k \<Longrightarrow> PATH_MAX \<le> k + length p \<Longrightarrow> collect_files k d p l \<noteq> None"
    and "PATH_MAX \<le> Suc k + length p \<Longrightarrow> set ns \<subseteq> {''.'', ''..''} \<union> set (child_names d p) \<Longrightarrow>
      collect_entries k d p ns l \<noteq> None"
  using wf
proof (induction k d p l and k d p ns l rule: collect_files_collect_entries.induct)
  case (2 k d p l)
  then show ?case by (auto simp: readdir_eq split: option.splits node.splits)
next
  case (4 k d p n ns l)
  show ?case
  proof (cases "n = ''.'' \<or> n = ''..''")
    case True
    then show ?thesis using 4(1) 4(4-6) by auto
  next
    case nn: False
    then have n: "n \<in> set (child_names d p)" using 4(5) by auto
    then have fp: "full_path p n = join p n"
      by (simp add: child_names_iff full_path_in_disk [OF 4(6)])
    have "collect_files k d (join p n) l \<noteq> None"
      using 4(2) [OF nn] 4(4,6) fp n lookup_length [of d "join p n"] by (auto simp: child_names_iff)
    then obtain r l1 where "collect_files k d (join p n) l = Some (r, l1)" by auto
    then show ?thesis using 4(3) [OF nn _ refl] 4(4-6) nn fp by (auto simp: dm_codes)
  qed
qed simp_all

lemma collect_always_ends:
  "wf_disk d \<Longrightarrow> PATH_MAX \<le> fuel \<Longrightarrow> \<exists>r l'. collect_files fuel d p l = Some (r, l')"
  using collecting_ends(1) [of d fuel p l] by (auto simp: PATH_MAX_def)

text \<open>A path that fills the buffer is its own child: the recursion on such a directory never ends.\<close>

lemma full_path_stuck: "length p = PATH_MAX - 1 \<Longrightarrow> full_path p n = p"
  by (simp add: full_path_def snprintf_path_def join_def)

lemma deepest_directory_never_ends:
  assumes "length p = PATH_MAX - 1" "opendir_ok d p" "readdir d p = ''.'' # ''..'' # n # ns"
    and "n \<noteq> ''.''" "n \<noteq> ''..''"
  shows "collect_files fuel d p l = None"
proof (induction fuel arbitrary: l)
  case (Suc k)
  then show ?case using assms by (simp add: opendir_ok_def full_path_stuck)
qed simp

section \<open>What freeing removes\<close>

lemma sum_sizes_simps [simp]:
  "sum_sizes [] = 0" "sum_sizes (f # fs) = fi_size f + sum_sizes fs"
  "sum_sizes (fs @ gs) = sum_sizes fs + sum_sizes gs"
  by (simp_all add: sum_sizes_def)

lemma sum_sizes_mset: "sum_sizes fs = (\<Sum>f\<in>#mset fs. fi_size f)"
  by (simp add: sum_sizes_def flip: sum_mset_sum_list)

lemma free_loop_wf: "free_loop fs left required d = (res, d') \<Longrightarrow> wf_disk d \<Longrightarrow> wf_disk d'"
  by (induction fs left required d rule: free_loop.induct)
    (auto split: if_splits prod.splits bool.splits dest: wf_unlink)

lemma free_loop_removes:
  "free_loop fs left required d = (Some left', d') \<Longrightarrow>
    \<exists>dels kept. fs = dels @ kept \<and> left' = left - sum_sizes dels
      \<and> d' = remove_files (fi_path ` set dels) d
      \<and> (kept \<noteq> [] \<longrightarrow> left' \<le> required)
      \<and> (dels \<noteq> [] \<longrightarrow> required < left - sum_sizes (butlast dels))"
proof (induction fs left required d rule: free_loop.induct)
  case (1 left required d)
  then show ?case by simp
next
  case (2 f fs left required d)
  show ?case
  proof (cases "left > required")
    case False
    with 2(2) show ?thesis by (intro exI [of _ "[]"] exI [of _ "f # fs"]) simp
  next
    case True
    obtain b d1 where u: "unlink (fi_path f) d = (b, d1)" by fastforce
    with 2(2) True have b: "b" by (cases b) simp_all
    have "free_loop fs (left - fi_size f) required d1 = (Some left', d')"
      using 2(2) True u b by simp
    from 2(1) [OF True, of True d1] this u b obtain dels kept where r: "fs = dels @ kept"
      "left' = left - fi_size f - sum_sizes dels" "d' = remove_files (fi_path ` set dels) d1"
      "kept \<noteq> [] \<longrightarrow> left' \<le> required"
      "dels \<noteq> [] \<longrightarrow> required < left - fi_size f - sum_sizes (butlast dels)" by auto
    have "d' = remove_files (fi_path ` set (f # dels)) d"
      using r(3) unlink_True [of "fi_path f" d d1] u b by (simp add: remove_drop)
    with r True show ?thesis
      by (intro exI [of _ "f # dels"] exI [of _ kept]) (auto simp: diff_diff_eq)
  qed
qed

definition qsort_ok :: "sorter \<Rightarrow> bool" where
  "qsort_ok qs \<longleftrightarrow> (\<forall>xs. mset (qs compare_files_by_age xs) = mset xs
     \<and> sorted_wrt (\<lambda>a b. compare_files_by_age a b \<le> 0) (qs compare_files_by_age xs))"

lemma compare_le: "compare_files_by_age a b \<le> 0 \<longleftrightarrow> fi_mtime a \<le> fi_mtime b"
  by (simp add: compare_files_by_age_def)

lemma infos_filter: "infos P (filter (\<lambda>e. fst e \<notin> X) es) = filter (\<lambda>f. fi_path f \<notin> X) (infos P es)"
proof (induction es)
  case (Cons e es)
  have "filter (\<lambda>f. fi_path f \<notin> X) (info_of e) = (if fst e \<notin> X then info_of e else [])"
    by (cases e rule: info_of.cases) auto
  then show ?case using Cons by simp
qed simp

lemma below_remove: "below (remove_files X d) p = filter (\<lambda>f. fi_path f \<notin> X) (below d p)"
  by (simp add: below_def remove_files_def infos_filter)

lemma paths_of_infos: "f \<in> set (infos P es) \<Longrightarrow> fi_path f \<in> fst ` set es \<and> P (fi_path f)"
proof (induction es)
  case (Cons e es)
  then show ?case by (cases e rule: info_of.cases) (auto split: if_splits)
qed simp

lemma distinct_infos: "distinct (map fst es) \<Longrightarrow> distinct (map fi_path (infos P es))"
proof (induction es)
  case (Cons e es)
  have "fst e \<notin> fi_path ` set (infos P es)"
    using Cons.prems paths_of_infos [of _ P es] by auto
  with Cons show ?case by (cases e rule: info_of.cases) auto
qed simp

lemma kept_below:
  assumes wf: "wf_disk d" and m: "mset (dels @ kept) = mset (below d p)"
  shows "mset (below (remove_files (fi_path ` set dels) d) p) = mset kept"
proof -
  have "distinct (map fi_path (below d p))"
    unfolding below_def by (rule distinct_infos [OF wf_distinct [OF wf]])
  moreover have "mset (map fi_path (below d p)) = mset (map fi_path (dels @ kept))"
    using m by (metis mset_map)
  ultimately have dist: "distinct (map fi_path (dels @ kept))"
    by (metis mset_eq_imp_distinct_iff)
  have "mset (below (remove_files (fi_path ` set dels) d) p)
      = filter_mset (\<lambda>f. fi_path f \<notin> fi_path ` set dels) (mset (dels @ kept))"
    by (simp only: below_remove m mset_filter)
  also have "\<dots> = mset (filter (\<lambda>f. fi_path f \<notin> fi_path ` set dels) (dels @ kept))"
    by (simp only: mset_filter)
  also have "filter (\<lambda>f. fi_path f \<notin> fi_path ` set dels) (dels @ kept) = kept"
    using dist by (auto simp: filter_empty_conv filter_id_conv)
  finally show ?thesis .
qed

text \<open>
  The outcome of freeing: the files are split, oldest first, into those deleted and those kept;
  what is kept fits, and with the last file deleted it would not have.
\<close>

definition frees_oldest :: "disk \<Rightarrow> string \<Rightarrow> int \<Rightarrow> disk \<Rightarrow> bool" where
  "frees_oldest d p limit d' \<longleftrightarrow>
    (\<exists>dels kept. mset (dels @ kept) = mset (below d p)
       \<and> sorted_wrt (\<lambda>a b. fi_mtime a \<le> fi_mtime b) (dels @ kept)
       \<and> d' = remove_files (fi_path ` set dels) d
       \<and> mset (below d' p) = mset kept
       \<and> sum_sizes kept \<le> limit
       \<and> (dels \<noteq> [] \<longrightarrow> limit < sum_sizes (last dels # kept)))"

lemma collected:
  assumes "wf_disk d" "collect_files k d p init_file_list = Some (DM_SUCCESS, l)"
  shows "mset (files l) = mset (below d p)" "total_size l = sum_sizes (below d p)"
  using collecting_adds(1) [OF assms] by (simp_all add: adds_def init_file_list_def sum_sizes_mset)

lemma sum_sizes_perm: "mset fs = mset gs \<Longrightarrow> sum_sizes fs = sum_sizes gs"
  by (simp add: sum_sizes_mset)

lemma freeing_frees_oldest:
  assumes wf: "wf_disk d" and q: "qsort_ok qs"
    and c: "collect_files k d p init_file_list = Some (DM_SUCCESS, l)"
    and f: "free_up_space qs l limit d = (DM_SUCCESS, d')"
  shows "frees_oldest d p limit d'"
proof -
  let ?s = "qs compare_files_by_age (files l)"
  have s: "mset ?s = mset (below d p)" "sorted_wrt (\<lambda>a b. fi_mtime a \<le> fi_mtime b) ?s"
    using q collected [OF wf c] by (simp_all add: qsort_ok_def compare_le)
  from f obtain left where fl: "free_loop ?s (total_size l) limit d = (Some left, d')" "left \<le> limit"
    by (auto simp: free_up_space_def dm_codes split: prod.splits option.splits if_splits)
  from free_loop_removes [OF fl(1)] obtain dels kept where r: "?s = dels @ kept"
    "left = total_size l - sum_sizes dels" "d' = remove_files (fi_path ` set dels) d"
    "dels \<noteq> [] \<longrightarrow> limit < total_size l - sum_sizes (butlast dels)" by blast
  have tot: "total_size l = sum_sizes dels + sum_sizes kept"
    using collected(2) [OF wf c] sum_sizes_perm [OF s(1)] r(1) by simp
  have "dels \<noteq> [] \<Longrightarrow> sum_sizes dels = sum_sizes (butlast dels) + fi_size (last dels)"
    by (metis append_butlast_last_id sum_sizes_simps add.right_neutral)
  with r tot fl(2) have "sum_sizes kept \<le> limit \<and> (dels \<noteq> [] \<longrightarrow> limit < sum_sizes (last dels # kept))"
    by auto
  moreover have "mset (below d' p) = mset kept"
    unfolding r(3) by (rule kept_below [OF wf]) (use s r in simp)
  ultimately show ?thesis using s r unfolding frees_oldest_def
    by (intro exI [of _ dels] exI [of _ kept]) simp
qed

lemma free_up_space_wf: "wf_disk d \<Longrightarrow> free_up_space qs l limit d = (r, d') \<Longrightarrow> wf_disk d'"
  by (auto simp: free_up_space_def split: prod.splits option.splits dest: free_loop_wf)

lemma free_loop_ok:
  assumes "\<forall>f\<in>set fs. \<exists>bs t. lookup d (fi_path f) = Some (Regular bs t) \<and> fi_path f \<notin> set (no_unlink d)"
    and "distinct (map fi_path fs)"
  shows "fst (free_loop fs left required d) \<noteq> None"
  using assms
proof (induction fs arbitrary: left d)
  case (Cons f fs)
  have u: "unlink (fi_path f) d = (True, drop_entry (fi_path f) d)"
    using Cons.prems(1) by (auto simp: unlink_def)
  have n: "fi_path g \<noteq> fi_path f" if "g \<in> set fs" for g
    using Cons.prems(2) that by (auto simp: image_iff)
  have "\<forall>g\<in>set fs. \<exists>bs t. lookup (drop_entry (fi_path f) d) (fi_path g) = Some (Regular bs t)
      \<and> fi_path g \<notin> set (no_unlink (drop_entry (fi_path f) d))"
    using Cons.prems(1) n by (simp add: disk_simps) (simp add: drop_entry_def)
  from Cons.IH [OF this] Cons.prems(2) u show ?case by simp
qed simp

lemma lookup_info:
  assumes "wf_disk d" "f \<in> set (infos P (entries d))"
  shows "\<exists>bs t. lookup d (fi_path f) = Some (Regular bs t)"
proof -
  have "f \<in> set (infos P es) \<Longrightarrow> \<exists>bs t. (fi_path f, Regular bs t) \<in> set es" for es
  proof (induction es)
    case (Cons e es)
    show ?case
    proof (cases "f \<in> set (infos P es)")
      case False
      with Cons.prems have "f \<in> set (info_of e)" by (auto split: if_splits)
      then show ?thesis by (cases e rule: info_of.cases) auto
    qed (use Cons.IH in auto)
  qed simp
  with assms show ?thesis by (auto simp: lookup_Some_iff)
qed

text \<open>Freeing succeeds when the kernel lets every file go and the limit is not negative.\<close>

lemma freeing_succeeds:
  assumes wf: "wf_disk d" and q: "qsort_ok qs"
    and c: "collect_files k d p init_file_list = Some (DM_SUCCESS, l)"
    and free: "\<forall>f\<in>set (below d p). fi_path f \<notin> set (no_unlink d)" and limit: "0 \<le> limit"
  shows "fst (free_up_space qs l limit d) = DM_SUCCESS"
proof -
  let ?s = "qs compare_files_by_age (files l)"
  have s: "mset ?s = mset (below d p)"
    using q collected [OF wf c] by (simp add: qsort_ok_def)
  then have eq: "set ?s = set (below d p)" by (metis set_mset_mset)
  have "mset (map fi_path ?s) = mset (map fi_path (below d p))" using s by (metis mset_map)
  moreover have "distinct (map fi_path (below d p))"
    unfolding below_def by (rule distinct_infos [OF wf_distinct [OF wf]])
  ultimately have "distinct (map fi_path ?s)" using mset_eq_imp_distinct_iff by blast
  moreover have "\<forall>f\<in>set ?s. \<exists>bs t. lookup d (fi_path f) = Some (Regular bs t) \<and> fi_path f \<notin> set (no_unlink d)"
    using free eq lookup_info [OF wf] by (fastforce simp: below_def)
  ultimately obtain left d' where fl: "free_loop ?s (total_size l) limit d = (Some left, d')"
    using free_loop_ok by (metis option.exhaust prod.collapse)
  from free_loop_removes [OF this] obtain dels kept where r: "?s = dels @ kept"
    "left = total_size l - sum_sizes dels" "kept \<noteq> [] \<longrightarrow> left \<le> limit" by blast
  have "left \<le> limit"
    using r limit collected(2) [OF wf c] sum_sizes_perm [OF s] by (cases kept) auto
  then show ?thesis using fl by (simp add: free_up_space_def)
qed

section \<open>What copying does to the disk\<close>

definition others :: "string \<Rightarrow> string \<Rightarrow> disk \<Rightarrow> file_info list" where
  "others p x d = infos (\<lambda>q. inside p q \<and> q \<noteq> x) (entries d)"

lemma others_set_content [simp]: "others p x (set_content x bs d) = others p x d"
proof -
  have "infos (\<lambda>q. P q \<and> q \<noteq> x) (map (\<lambda>(q, nd). if q = x then (q, v) else (q, nd)) es)
      = infos (\<lambda>q. P q \<and> q \<noteq> x) es" for P v es
    by (induction es) auto
  then show ?thesis by (simp add: others_def set_content_def)
qed

lemma infos_append: "infos P (xs @ ys) = infos P xs @ infos P ys"
  by (simp add: infos_def)

lemma others_add [simp]: "others p x (d\<lparr>entries := entries d @ [(x, nd)]\<rparr>) = others p x d"
  by (simp add: others_def infos_append)

lemma info_size: "0 \<le> sum_sizes (info_of e)"
  by (cases e rule: info_of.cases) simp_all

lemma others_le_below: "sum_sizes (others p x d) \<le> sum_sizes (below d p)"
proof -
  have "sum_sizes (infos (\<lambda>q. P q \<and> q \<noteq> x) es) \<le> sum_sizes (infos P es)" for P es
    by (induction es) (use info_size in \<open>auto intro: order_trans [OF _ add_increasing]\<close>)
  then show ?thesis by (simp add: others_def below_def)
qed

lemma below_le_others:
  assumes "wf_disk d"
  shows "sum_sizes (below d p) \<le> sum_sizes (others p x d) + int (length (content_of d x))"
proof -
  have "sum_sizes (infos P es) \<le> sum_sizes (infos (\<lambda>q. P q \<and> q \<noteq> x) es)
      + int (length (case map_of es x of Some (Regular bs _) \<Rightarrow> bs | _ \<Rightarrow> []))"
    if "distinct (map fst es)" for P es
    using that
  proof (induction es)
    case (Cons e es)
    show ?case
    proof (cases "fst e = x")
      case True
      then have "infos (\<lambda>q. P q \<and> q \<noteq> x) es = infos P es"
        using Cons.prems by (intro infos_cong) (metis distinct.simps(2) list.map(2) set_map)
      with True show ?thesis by (cases e rule: info_of.cases) simp_all
    next
      case False
      with Cons show ?thesis by (cases e) auto
    qed
  qed simp
  from this [OF wf_distinct [OF assms]] show ?thesis
    by (simp add: below_def others_def content_of_def lookup_def)
qed

lemma regular_append:
  "lookup d p = Some (Regular x t) \<Longrightarrow> \<exists>x t. lookup (append_content p bs d) p = Some (Regular x t)"
  by (simp add: append_content_def disk_simps)

lemma copy_loop_effect:
  "copy_loop io k rest dst d = (r, d') \<Longrightarrow> lookup d dst = Some (Regular x t) \<Longrightarrow> wf_disk d \<Longrightarrow>
    wf_disk d' \<and> others p dst d' = others p dst d
      \<and> (r = DM_SUCCESS \<longrightarrow> content_of d' dst = content_of d dst @ rest)"
proof (induction io k rest dst d arbitrary: x t rule: copy_loop.induct)
  case (1 io k rest dst d)
  show ?case
  proof (cases "fst (io k) \<or> rest = []")
    case True
    with 1 show ?thesis by (subst (asm) (2) copy_loop.simps) (auto simp: dm_codes split: if_splits)
  next
    case False
    let ?b = "take 4096 rest" and ?w = "min (snd (io k)) (length (take 4096 rest))"
    let ?d = "append_content dst (take ?w ?b) d"
    have e: "wf_disk ?d" "others p dst ?d = others p dst d"
      using 1(3,4) by (simp_all add: wf_append_content) (simp add: append_content_def)
    obtain x' t' where reg: "lookup ?d dst = Some (Regular x' t')"
      using regular_append [OF 1(3)] by blast
    show ?thesis
    proof (cases "?w = length ?b")
      case False
      with 1(2) e \<open>\<not> (fst (io k) \<or> rest = [])\<close> show ?thesis
        by (subst (asm) copy_loop.simps) (auto simp: dm_codes Let_def)
    next
      case True
      then have rec: "copy_loop io (Suc k) (drop 4096 rest) dst ?d = (r, d')"
        using 1(2) False by (subst (asm) copy_loop.simps) (auto simp: Let_def)
      have "content_of ?d dst = content_of d dst @ take 4096 rest"
        using 1(3) by (simp only: content_append True take_all order_refl refl if_True option.distinct simp_thms)
      with 1(1) [OF _ _ refl refl refl _ rec reg e(1)] True False e show ?thesis
        by (auto simp: append_assoc)
    qed
  qed
qed

lemma open_trunc_effect:
  assumes "wf_disk d" "open_trunc p d = (True, d1)"
  shows "wf_disk d1" "\<exists>t. lookup d1 p = Some (Regular [] t)" "others q p d1 = others q p d"
    "content_of d1 x = (if x = p then [] else content_of d x)"
  using assms wf_open_trunc [OF assms]
  by (auto simp: open_trunc_def disk_simps content_of_def split: option.splits node.splits if_splits)

lemma copy_file_wf:
  assumes wf: "wf_disk d" and c: "copy_file io src dst d = (r, d')"
  shows "wf_disk d'"
proof (cases "open_read_ok d src \<and> fst (open_trunc dst d)")
  case False
  with wf c show ?thesis
    by (auto simp: copy_file_def split: prod.splits bool.splits if_splits dest: wf_open_trunc)
next
  case True
  then obtain d1 where o: "open_trunc dst d = (True, d1)" by (metis prod.collapse)
  obtain r2 d2 where l: "copy_loop io 0 (content_of d1 src) dst d1 = (r2, d2)" by fastforce
  obtain t where "lookup d1 dst = Some (Regular [] t)" using open_trunc_effect(2) [OF wf o] by blast
  from copy_loop_effect [OF l this open_trunc_effect(1) [OF wf o]] have "wf_disk d2" by simp
  with True o l c show ?thesis by (auto simp: copy_file_def unlink_wf_snd split: if_splits)
qed

lemma copy_file_effect:
  assumes wf: "wf_disk d" and c: "copy_file io src dst d = (DM_SUCCESS, d')"
  shows "others p dst d' = others p dst d"
    "content_of d' dst = (if src = dst then [] else content_of d src)"
proof -
  from c have ok: "open_read_ok d src" "fst (open_trunc dst d)"
    by (auto simp: copy_file_def dm_codes split: prod.splits bool.splits if_splits)
  then obtain d1 where o: "open_trunc dst d = (True, d1)" by (metis prod.collapse)
  obtain r2 d2 where l: "copy_loop io 0 (content_of d1 src) dst d1 = (r2, d2)" by fastforce
  from ok o l c have r: "r2 = DM_SUCCESS" "d' = d2" by (auto simp: copy_file_def split: if_splits)
  obtain t where "lookup d1 dst = Some (Regular [] t)" using open_trunc_effect(2) [OF wf o] by blast
  from copy_loop_effect [OF l this open_trunc_effect(1) [OF wf o], of p] r
  show "others p dst d' = others p dst d"
    "content_of d' dst = (if src = dst then [] else content_of d src)"
    by (simp_all add: open_trunc_effect(3,4) [OF wf o])
qed

text \<open>Copying succeeds when the files open and no read or write fails.\<close>

lemma copy_loop_succeeds:
  "\<forall>k. \<not> fst (io k) \<and> 4096 \<le> snd (io k) \<Longrightarrow> fst (copy_loop io k rest dst d) = DM_SUCCESS"
proof (induction io k rest dst d rule: copy_loop.induct)
  case (1 io k rest dst d)
  have io: "\<not> fst (io k)" "min (snd (io k)) (length (take 4096 rest)) = length (take 4096 rest)"
    using 1(2) [rule_format, of k] by auto
  show ?case
  proof (cases "rest = []")
    case False
    from 1(1) [OF io(1) False refl refl refl _ 1(2)] io show ?thesis
      by (subst copy_loop.simps) (simp add: False Let_def)
  qed (use io in \<open>simp add: copy_loop.simps\<close>)
qed

lemma copy_file_succeeds:
  assumes "\<forall>k. \<not> fst (io k) \<and> 4096 \<le> snd (io k)" "open_read_ok d src" "fst (open_trunc dst d)"
  shows "fst (copy_file io src dst d) = DM_SUCCESS"
proof -
  obtain d1 where o: "open_trunc dst d = (True, d1)" using assms(3) by (metis prod.collapse)
  obtain r d2 where l: "copy_loop io 0 (content_of d1 src) dst d1 = (r, d2)" by fastforce
  have "r = DM_SUCCESS" using copy_loop_succeeds [OF assms(1), of 0 "content_of d1 src" dst d1] l by simp
  with o l assms(2) show ?thesis by (simp add: copy_file_def)
qed

lemma copy_fits:
  assumes "wf_disk d" "copy_file io src dst d = (DM_SUCCESS, d')"
  shows "sum_sizes (below d' p) \<le> sum_sizes (below d p) + int (length (content_of d src))"
  using below_le_others [OF copy_file_wf [OF assms], of p dst] copy_file_effect(1) [OF assms, of p] copy_file_effect(2) [OF assms]
    others_le_below [of p dst d] by (auto split: if_splits)

section \<open>Saving within the limit\<close>

lemma frees_oldest_fits: "frees_oldest d p limit d' \<Longrightarrow> sum_sizes (below d' p) \<le> limit"
  unfolding frees_oldest_def by (metis sum_sizes_perm)

lemma frees_oldest_content:
  "frees_oldest d p limit d' \<Longrightarrow> content_of d' q = [] \<or> content_of d' q = content_of d q"
  unfolding frees_oldest_def by (metis content_remove)

lemma save_keeps_limit:
  assumes wf: "wf_disk d" and q: "qsort_ok qs" and fuel: "PATH_MAX \<le> fuel"
  shows "\<exists>r d'. dm_save_file_to_dir fuel qs io dir src max_kb d = Some (r, d') \<and> wf_disk d'
     \<and> (r = DM_SUCCESS \<longrightarrow> sum_sizes (below d' dir) \<le> max_kb * 1024)"
proof (cases "\<exists>bs t. lookup d src = Some (Regular bs t)")
  case False
  then show ?thesis using wf
    by (auto simp: dm_save_file_to_dir_def dm_codes split: option.splits node.splits)
next
  case True
  then obtain bs t where src: "lookup d src = Some (Regular bs t)" by blast
  obtain r l where c: "collect_files fuel d dir init_file_list = Some (r, l)"
    using collect_always_ends [OF wf fuel] by blast
  show ?thesis
  proof (cases "int (length bs) > max_kb * 1024 \<or> r \<noteq> DM_SUCCESS")
    case True
    then have "dm_save_file_to_dir fuel qs io dir src max_kb d
        = Some (if int (length bs) > max_kb * 1024 then DM_FILE_TOO_LARGE else DM_ERROR, d)"
    proof (cases "int (length bs) > max_kb * 1024")
      case True
      then show ?thesis using src by (simp add: dm_save_file_to_dir_def)
    next
      case False
      then have "r \<noteq> DM_SUCCESS" using \<open>_ \<or> _\<close> by blast
      with False src c show ?thesis by (simp add: dm_save_file_to_dir_def)
    qed
    then show ?thesis using wf by (simp add: dm_codes)
  next
    case False
    then have ok: "r = DM_SUCCESS" by simp
    let ?limit = "max_kb * 1024 - int (length bs)"
    obtain fr d1 where fd: "(if total_size l + int (length bs) > max_kb * 1024
        then free_up_space qs l ?limit d else (DM_SUCCESS, d)) = (fr, d1)" by fastforce
    then have wf1: "wf_disk d1" using wf free_up_space_wf by (auto split: if_splits)
    let ?dst = "snprintf_path PATH_MAX (join dir (basename src))"
    have eq: "dm_save_file_to_dir fuel qs io dir src max_kb d
        = (if fr \<noteq> DM_SUCCESS then Some (DM_NO_SPACE, d1) else Some (copy_file io src ?dst d1))"
      using src c False fd by (simp add: dm_save_file_to_dir_def)
    have room: "sum_sizes (below d1 dir) \<le> ?limit \<and> length (content_of d1 src) \<le> length bs" if "fr = DM_SUCCESS"
    proof (cases "total_size l + int (length bs) > max_kb * 1024")
      case True
      with fd that c False have "frees_oldest d dir ?limit d1"
        by (intro freeing_frees_oldest [OF wf q]) auto
      with frees_oldest_fits [OF this] frees_oldest_content [OF this, of src] src
      show ?thesis by (auto simp: content_of_def [of d])
    next
      case False
      with fd src have "d1 = d" by simp
      with False src collected(2) [OF wf, of fuel dir l] c ok show ?thesis
        by (simp add: content_of_def)
    qed
    show ?thesis
    proof (cases "fr = DM_SUCCESS")
      case False
      then show ?thesis using eq wf1 by (simp add: dm_codes)
    next
      case True
      obtain r' d' where cf: "copy_file io src ?dst d1 = (r', d')" by fastforce
      have "r' = DM_SUCCESS \<longrightarrow> sum_sizes (below d' dir) \<le> max_kb * 1024"
        using copy_fits [OF wf1, of io src ?dst d' dir] cf room [OF True] by auto
      then show ?thesis using eq cf True copy_file_wf [OF wf1 cf] by simp
    qed
  qed
qed

lemma clean_frees_oldest:
  assumes wf: "wf_disk d" and q: "qsort_ok qs" and fuel: "PATH_MAX \<le> fuel"
  shows "\<exists>r d'. dm_clean_dir_to_size fuel qs dir max_kb d = Some (r, d')
     \<and> (r = DM_SUCCESS \<longrightarrow> frees_oldest d dir (max_kb * 1024) d')
     \<and> ((\<exists>l. collect_files fuel d dir init_file_list = Some (DM_SUCCESS, l)) \<and> 0 \<le> max_kb
          \<and> (\<forall>f\<in>set (below d dir). fi_path f \<notin> set (no_unlink d)) \<longrightarrow> r = DM_SUCCESS)"
proof -
  obtain r l where c: "collect_files fuel d dir init_file_list = Some (r, l)"
    using collect_always_ends [OF wf fuel] by blast
  show ?thesis
  proof (cases "r = DM_SUCCESS \<and> total_size l > max_kb * 1024")
    case True
    obtain r' d' where f: "free_up_space qs l (max_kb * 1024) d = (r', d')" by fastforce
    have "dm_clean_dir_to_size fuel qs dir max_kb d = Some (r', d')"
      using c True f by (simp add: dm_clean_dir_to_size_def)
    with c True f freeing_frees_oldest [OF wf q] freeing_succeeds [OF wf q]
    show ?thesis by (metis (no_types, opaque_lifting) fst_conv mult_nonneg_nonneg zero_le_numeral)
  next
    case False
    let ?s = "qs compare_files_by_age (below d dir)"
    have "frees_oldest d dir (max_kb * 1024) d" if "r = DM_SUCCESS"
      using that False q c collected(2) [OF wf, of fuel dir l] unfolding frees_oldest_def
      by (intro exI [of _ "[]"] exI [of _ ?s])
        (simp add: qsort_ok_def compare_le sum_sizes_perm [of ?s "below d dir"])
    then show ?thesis using c False
      by (auto simp: dm_clean_dir_to_size_def Let_def dm_codes)
  qed
qed

text \<open>A file saved into the directory it lies in is truncated before it is read.\<close>

lemma save_onto_itself:
  assumes wf: "wf_disk d" and fuel: "PATH_MAX \<le> fuel" and io: "\<not> fst (io 0)"
    and src: "lookup d (join dir n) = Some (Regular bs t)" and n: "slash \<notin> set n"
    and c: "collect_files fuel d dir init_file_list = Some (DM_SUCCESS, l)"
    and fits: "sum_sizes (below d dir) + int (length bs) \<le> max_kb * 1024"
    and rw: "join dir n \<notin> set (no_read d)" "join dir n \<notin> set (no_write d)"
  shows "dm_save_file_to_dir fuel qs io dir (join dir n) max_kb d
      = Some (DM_SUCCESS, set_content (join dir n) [] d)"
proof -
  let ?p = "join dir n"
  have "length ?p < PATH_MAX" by (rule lookup_length [OF wf]) (simp add: src)
  then have dst: "snprintf_path PATH_MAX (join dir (basename ?p)) = ?p"
    by (simp add: snprintf_path_def n)
  have "0 \<le> sum_sizes (below d dir)"
    using info_size by (auto simp: below_def infos_def sum_sizes_def intro!: sum_list_nonneg)
      (metis info_of.elims list.distinct(1) list.inject list.set_cases of_nat_0_le_iff file_info.select_convs(2) set_ConsD)
  with fits have "\<not> int (length bs) > max_kb * 1024" by simp
  moreover have "copy_file io ?p ?p d = (DM_SUCCESS, set_content ?p [] d)"
  proof -
    have o: "open_trunc ?p d = (True, set_content ?p [] d)" using src rw by (simp add: open_trunc_def)
    have "content_of (set_content ?p [] d) ?p = []" using src by simp
    then show ?thesis using src rw io o
      by (simp add: copy_file_def open_read_ok_def copy_loop.simps)
  qed
  ultimately show ?thesis
    using src c fits collected(2) [OF wf c] dst
    by (simp add: dm_save_file_to_dir_def Let_def del: basename_join)
qed

section \<open>A sorting function\<close>

fun insert_by :: "('a \<Rightarrow> 'a \<Rightarrow> int) \<Rightarrow> 'a \<Rightarrow> 'a list \<Rightarrow> 'a list" where
  "insert_by cmp x [] = [x]"
| "insert_by cmp x (y # ys) = (if cmp x y \<le> 0 then x # y # ys else y # insert_by cmp x ys)"

definition qsort_ins :: sorter where
  "qsort_ins cmp xs = foldr (insert_by cmp) xs []"

lemma mset_insert_by [simp]: "mset (insert_by cmp x ys) = add_mset x (mset ys)"
  by (induction ys) auto

lemma set_insert_by: "set (insert_by cmp x ys) = insert x (set ys)"
  by (induction ys) auto

lemma sorted_insert_by:
  "sorted_wrt (\<lambda>a b. compare_files_by_age a b \<le> 0) ys \<Longrightarrow>
    sorted_wrt (\<lambda>a b. compare_files_by_age a b \<le> 0) (insert_by compare_files_by_age x ys)"
proof (induction ys)
  case (Cons y ys)
  then show ?case by (auto simp: compare_le set_insert_by)
qed simp

lemma qsort_ins_ok: "qsort_ok qsort_ins"
  unfolding qsort_ok_def
proof (intro allI conjI)
  fix xs
  show "mset (qsort_ins compare_files_by_age xs) = mset xs"
    by (induction xs) (simp_all add: qsort_ins_def)
  show "sorted_wrt (\<lambda>a b. compare_files_by_age a b \<le> 0) (qsort_ins compare_files_by_age xs)"
    by (induction xs) (simp_all add: qsort_ins_def sorted_insert_by)
qed

end
