(* ===== verification/File_Api.thy ===== *)
theory File_Api
  imports Posix_Files
begin

text \<open>
  The file and directory functions of \<open>common/api/comm_api.c\<close> over the disks of
  \<open>Posix_Files\<close>. A pointer the code compares with \<open>NULL\<close> is an option. A directory is listed
  when it is opened; deleting an entry that was listed does not disturb the listing. The
  recursion over directories has fuel.
\<close>

section \<open>Single files\<close>

definition access_ok :: "disk \<Rightarrow> string \<Rightarrow> bool" where
  "access_ok d p \<longleftrightarrow> lookup d p \<noteq> None"

lemma access_ok_code [code]: "access_ok d p \<longleftrightarrow> (case lookup d p of None \<Rightarrow> False | Some _ \<Rightarrow> True)"
  by (simp add: access_ok_def split: option.split)

text \<open>\<open>other\<close> is the size the kernel reports for what is not a regular file.\<close>

definition COMM_API_GetFileSize :: "int \<Rightarrow> disk \<Rightarrow> string \<Rightarrow> int" where
  "COMM_API_GetFileSize other d name =
    (case lookup d name of None \<Rightarrow> - 1 | Some (Regular bs _) \<Rightarrow> int (length bs) | Some _ \<Rightarrow> other)"

text \<open>With the mode \<open>F_OK\<close>, the only one the code passes.\<close>

definition COMM_API_CheckFileExist :: "disk \<Rightarrow> string option \<Rightarrow> int" where
  "COMM_API_CheckFileExist d name =
    (case name of None \<Rightarrow> - 1 | Some p \<Rightarrow> if access_ok d p then 0 else - 1)"

definition COMM_FileUnlink :: "string \<Rightarrow> disk \<Rightarrow> int \<times> disk" where
  "COMM_FileUnlink p d =
    (if access_ok d p then (case unlink p d of (True, d') \<Rightarrow> (0, d') | (False, d') \<Rightarrow> (- 1, d'))
     else (- 1, d))"

text \<open>\<open>accepted\<close> is the number of bytes the file system takes before it is full.\<close>

definition COMM_API_WriteFileBinary :: "nat \<Rightarrow> string \<Rightarrow> bytes \<Rightarrow> disk \<Rightarrow> int \<times> disk" where
  "COMM_API_WriteFileBinary accepted p data d =
    (case open_trunc p d of
       (True, d1) \<Rightarrow> (0, append_content p (take accepted data) d1)
     | (False, d1) \<Rightarrow> (- 1, d1))"

text \<open>The text is written when the file is flushed; \<open>fprintf\<close> and \<open>fclose\<close> report the failure.\<close>

definition COMM_NewFile :: "nat \<Rightarrow> string option \<Rightarrow> bytes option \<Rightarrow> disk \<Rightarrow> int \<times> disk" where
  "COMM_NewFile accepted path text d =
    (case path of
       None \<Rightarrow> (- 1, d)
     | Some p \<Rightarrow>
         if p = [] then (- 1, d)
         else case open_trunc p d of
           (False, d1) \<Rightarrow> (- 1, d1)
         | (True, d1) \<Rightarrow>
             (case text of
                None \<Rightarrow> (0, d1)
              | Some t \<Rightarrow> if t = [] then (0, d1)
                  else (if accepted < length t then - 1 else 0, append_content p (take accepted t) d1)))"

text \<open>The content with its length; \<open>got\<close> is what \<open>fread\<close> returns when it fails.\<close>

definition COMM_API_ReadFileContent ::
  "bool \<Rightarrow> nat option \<Rightarrow> disk \<Rightarrow> string option \<Rightarrow> int \<times> (bytes \<times> int) option" where
  "COMM_API_ReadFileContent mem got d name =
    (case name of
       None \<Rightarrow> (- 1, None)
     | Some p \<Rightarrow>
         if p = [] \<or> \<not> open_read_ok d p then (- 1, None)
         else let content = content_of d p; len = length content in
           if \<not> mem then (- 1, None)
           else if (case got of None \<Rightarrow> len | Some g \<Rightarrow> min g len) \<noteq> len then (- 1, None)
           else (0, Some (content @ [0, 0, 0, 0], int len)))"

text \<open>\<open>fgets\<close> with a buffer of \<open>n + 1\<close> bytes takes a line or \<open>n\<close> bytes of it.\<close>

fun fgets_len :: "nat \<Rightarrow> bytes \<Rightarrow> nat" where
  "fgets_len 0 bs = 0"
| "fgets_len (Suc n) [] = 0"
| "fgets_len (Suc n) (b # bs) = (if b = 10 then 1 else Suc (fgets_len n bs))"

lemma fgets_pos: "0 < n \<Longrightarrow> bs \<noteq> [] \<Longrightarrow> 0 < fgets_len n bs"
  by (cases n; cases bs) auto

function count_reads :: "bytes \<Rightarrow> nat" where
  "count_reads bs = (if bs = [] then 0 else Suc (count_reads (drop (fgets_len 1023 bs) bs)))"
  by pat_completeness auto
termination by (relation "measure length") (simp_all add: fgets_pos)

declare count_reads.simps [simp del]

definition COMM_API_get_file_lines :: "disk \<Rightarrow> string option \<Rightarrow> int" where
  "COMM_API_get_file_lines d name =
    (case name of
       None \<Rightarrow> 0
     | Some p \<Rightarrow> if p = [] \<or> \<not> open_read_ok d p then 0 else int (count_reads (content_of d p)))"

definition COMM_API_get_basename :: "string \<Rightarrow> string" where
  "COMM_API_get_basename path = (if slash \<in> set path then basename path else path)"

section \<open>Moving a file\<close>

text \<open>\<open>io k\<close> is the number of bytes that \<open>fwrite\<close> takes in round \<open>k\<close>.\<close>

function move_file_loop :: "(nat \<Rightarrow> nat) \<Rightarrow> nat \<Rightarrow> bytes \<Rightarrow> string \<Rightarrow> disk \<Rightarrow> bool \<times> disk" where
  "move_file_loop io k rest dest d =
    (if rest = [] then (True, d)
     else let buffer = take 1024 rest;
              written = min (io k) (length buffer);
              d' = append_content dest (take written buffer) d
          in if written \<noteq> length buffer then (False, d')
             else move_file_loop io (Suc k) (drop 1024 rest) dest d')"
  by pat_completeness auto
termination by (relation "measure (\<lambda>(_, _, rest, _). length rest)") auto

declare move_file_loop.simps [simp del]

definition COMM_API_MoveFile :: "(nat \<Rightarrow> nat) \<Rightarrow> string \<Rightarrow> string \<Rightarrow> disk \<Rightarrow> int \<times> disk" where
  "COMM_API_MoveFile io src dest d =
    (if \<not> open_read_ok d src then (- 1, d)
     else case open_trunc dest d of
       (False, d1) \<Rightarrow> (- 1, d1)
     | (True, d1) \<Rightarrow>
         (case move_file_loop io 0 (content_of d1 src) dest d1 of
            (False, d2) \<Rightarrow> (- 1, d2)
          | (True, d2) \<Rightarrow> (0, snd (unlink src d2))))"

section \<open>Directories\<close>

text \<open>
  The loop of \<open>COMM_API_MkdirRecursive\<close> over the path: \<open>pre\<close> is the part before the pointer
  \<open>p\<close>, which \<open>*p = '\0'\<close> makes a path of its own.
\<close>

definition mkdir_step :: "string \<Rightarrow> disk \<Rightarrow> bool \<times> disk" where
  "mkdir_step p d =
    (case mkdir p d of (True, d') \<Rightarrow> (True, d') | (False, d') \<Rightarrow> (access_ok d p, d'))"

fun mkdir_loop :: "string \<Rightarrow> string \<Rightarrow> disk \<Rightarrow> bool \<times> disk" where
  "mkdir_loop pre [] d = (True, d)"
| "mkdir_loop pre (c # cs) d =
    (if c = slash then
       (case (if access_ok d pre then (True, d) else mkdir_step pre d) of
          (True, d') \<Rightarrow> mkdir_loop (pre @ [c]) cs d'
        | (False, d') \<Rightarrow> (False, d'))
     else mkdir_loop (pre @ [c]) cs d)"

definition COMM_API_MkdirRecursive :: "string \<Rightarrow> disk \<Rightarrow> (int \<times> disk) result" where
  "COMM_API_MkdirRecursive path d =
    (if access_ok d path then Inr (0, d)
     else let temp = snprintf_path 256 path in
       if temp = [] then Inl BufferOverrun
       else let temp' = (if last temp = slash then butlast temp else temp) in
         case mkdir_loop (take 1 temp') (drop 1 temp') d of
           (False, d1) \<Rightarrow> Inr (- 1, d1)
         | (True, d1) \<Rightarrow>
             (case mkdir_step temp' d1 of
                (False, d2) \<Rightarrow> Inr (- 1, d2)
              | (True, d2) \<Rightarrow> Inr (0, d2)))"

text \<open>
  \<open>COMM_Mkdirs\<close> copies the path into 128 bytes with \<open>strcpy\<close> and ignores the results of the
  inner \<open>mkdir\<close>s.
\<close>

fun mkdirs_loop :: "string \<Rightarrow> string \<Rightarrow> disk \<Rightarrow> disk" where
  "mkdirs_loop pre [] d = d"
| "mkdirs_loop pre (c # cs) d =
    mkdirs_loop (pre @ [c]) cs (if c = slash \<and> \<not> access_ok d pre then snd (mkdir pre d) else d)"

definition COMM_Mkdirs :: "string \<Rightarrow> disk \<Rightarrow> (int \<times> disk) result" where
  "COMM_Mkdirs dir d =
    (if 128 \<le> length dir then Inl BufferOverrun
     else let d1 = mkdirs_loop [] dir d in
       if 0 < length dir \<and> \<not> access_ok d1 dir
       then (case mkdir dir d1 of (ok, d2) \<Rightarrow> Inr (if ok then 0 else - 1, d2))
       else Inr (0, d1))"

definition dots :: "string \<Rightarrow> bool" where
  "dots n \<longleftrightarrow> n = ''.'' \<or> n = ''..''"

definition MAX_PATH_LENGTH :: nat where "MAX_PATH_LENGTH = 1024"

fun COMM_deleteDirectory :: "nat \<Rightarrow> string \<Rightarrow> disk \<Rightarrow> (int \<times> disk) option"
  and delete_entries :: "nat \<Rightarrow> string \<Rightarrow> string list \<Rightarrow> disk \<Rightarrow> disk option" where
  "COMM_deleteDirectory 0 dirPath d = None"
| "COMM_deleteDirectory (Suc k) dirPath d =
    (if \<not> opendir_ok d dirPath then Some (- 1, d)
     else case delete_entries k dirPath (readdir d dirPath) d of
       None \<Rightarrow> None
     | Some d1 \<Rightarrow> (case rmdir dirPath d1 of (True, d2) \<Rightarrow> Some (0, d2) | (False, d2) \<Rightarrow> Some (- 1, d2)))"
| "delete_entries k dirPath [] d = Some d"
| "delete_entries k dirPath (name # names) d =
    (if dots name then delete_entries k dirPath names d
     else let filePath = snprintf_path MAX_PATH_LENGTH (join dirPath name) in
       case lookup d filePath of
         None \<Rightarrow> delete_entries k dirPath names d
       | Some Directory \<Rightarrow>
           (case COMM_deleteDirectory k filePath d of
              None \<Rightarrow> None
            | Some (r, d1) \<Rightarrow> delete_entries k dirPath names d1)
       | Some _ \<Rightarrow> delete_entries k dirPath names (snd (remove_path filePath d)))"

definition COMM_CheckDirFileNum :: "disk \<Rightarrow> string \<Rightarrow> int" where
  "COMM_CheckDirFileNum d mdir =
    (if \<not> access_ok d mdir then - 1
     else if \<not> opendir_ok d mdir then - 1
     else int (length (filter (\<lambda>n. \<not> dots n) (readdir d mdir))))"

definition delete_regular :: "string \<Rightarrow> string \<Rightarrow> disk \<Rightarrow> disk" where
  "delete_regular dir_path name d =
    (if dots name then d
     else let file_path = snprintf_path 1024 (join dir_path name) in
       case lookup d file_path of
         Some (Regular _ _) \<Rightarrow> snd (unlink file_path d)
       | _ \<Rightarrow> d)"

definition COMM_API_DeleteFilesInDirectory :: "string \<Rightarrow> disk \<Rightarrow> disk" where
  "COMM_API_DeleteFilesInDirectory dir_path d =
    (if \<not> opendir_ok d dir_path then d else fold (delete_regular dir_path) (readdir d dir_path) d)"

text \<open>The tag for a restart without a sound.\<close>

definition QUIET_RESTART_TAG :: string where "QUIET_RESTART_TAG = ''/parameter/quiet_restart.tag''"

definition COMM_API_IsQuietRestartTag :: "disk \<Rightarrow> int" where
  "COMM_API_IsQuietRestartTag d = (if access_ok d QUIET_RESTART_TAG then 1 else 0)"

definition COMM_API_SetQuietRestartTag :: "disk \<Rightarrow> disk" where
  "COMM_API_SetQuietRestartTag d = snd (COMM_NewFile 0 (Some QUIET_RESTART_TAG) None d)"

definition COMM_API_CleanQuietRestartTag :: "disk \<Rightarrow> disk" where
  "COMM_API_CleanQuietRestartTag d = snd (COMM_FileUnlink QUIET_RESTART_TAG d)"

text \<open>\<open>strstr\<close> finds a text inside another.\<close>

fun strstr :: "string \<Rightarrow> string \<Rightarrow> string option" where
  "strstr hay needle =
    (if take (length needle) hay = needle then Some hay
     else case hay of [] \<Rightarrow> None | c # cs \<Rightarrow> strstr cs needle)"

declare strstr.simps [simp del]

definition check_log_step :: "string \<Rightarrow> string \<Rightarrow> int \<Rightarrow> string \<Rightarrow> int \<times> disk \<Rightarrow> int \<times> disk" where
  "check_log_step logdir pid maxNum name st =
    (case st of (filenum, d) \<Rightarrow>
       if dots name \<or> strstr name pid = None then (filenum, d)
       else (filenum + 1,
             if filenum + 1 \<ge> maxNum then snd (unlink (snprintf_path 127 (join logdir name)) d) else d))"

definition COMM_API_check_log_num :: "string \<Rightarrow> string \<Rightarrow> int \<Rightarrow> disk \<Rightarrow> int \<times> disk" where
  "COMM_API_check_log_num logdir pid maxNum d =
    (if \<not> access_ok d logdir then (0, d)
     else if \<not> opendir_ok d logdir then (- 1, d)
     else (0, snd (fold (check_log_step logdir pid maxNum) (readdir d logdir) (0, d))))"

definition delete_jpg :: "string \<Rightarrow> disk \<Rightarrow> disk" where
  "delete_jpg name d =
    (if dots name then d
     else let len = length name in
       if len > 4 \<and> drop (len - 4) name = ''.jpg''
       then snd (remove_path (snprintf_path PATH_MAX (''/tmp/'' @ name)) d) else d)"

definition COMM_API_delete_jpg_files_in_tmp :: "disk \<Rightarrow> disk" where
  "COMM_API_delete_jpg_files_in_tmp d =
    (if \<not> opendir_ok d ''/tmp'' then d else fold delete_jpg (readdir d ''/tmp'') d)"

section \<open>Moving keeps the content\<close>

lemma move_file_loop_effect:
  "move_file_loop io k rest dest d = (True, d') \<Longrightarrow> lookup d dest = Some (Regular x t) \<Longrightarrow>
    (\<exists>t. lookup d' dest = Some (Regular (x @ rest) t)) \<and> (\<forall>q. q \<noteq> dest \<longrightarrow> lookup d' q = lookup d q)
      \<and> no_unlink d' = no_unlink d"
proof (induction io k rest dest d arbitrary: x t rule: move_file_loop.induct)
  case (1 io k rest dest d)
  show ?case
  proof (cases "rest = []")
    case True
    with 1 show ?thesis by (simp add: move_file_loop.simps)
  next
    case False
    let ?w = "min (io k) (length (take 1024 rest))"
    let ?d = "append_content dest (take ?w (take 1024 rest)) d"
    from 1(2) False have w: "?w = length (take 1024 rest)" and rec: "move_file_loop io (Suc k) (drop 1024 rest) dest ?d = (True, d')"
      by (subst (asm) move_file_loop.simps, simp add: Let_def split: if_splits)+
    have "take ?w (take 1024 rest) = take 1024 rest" by (simp only: w take_all order_refl)
    then have "lookup ?d q = (if q = dest then Some (Regular (x @ take 1024 rest) (clock d)) else lookup d q)" for q
      using 1(3) by (simp add: append_content_def disk_simps content_of_def)
    moreover have "no_unlink ?d = no_unlink d" by (simp add: append_content_def set_content_def)
    ultimately show ?thesis using 1(1) [OF False refl refl refl _ rec] w by simp
  qed
qed

lemma move_file_moves:
  assumes wf: "wf_disk d" and m: "COMM_API_MoveFile io src dest d = (0, d')" and ne: "src \<noteq> dest"
  shows "content_of d' dest = content_of d src" "\<forall>q. q \<noteq> src \<and> q \<noteq> dest \<longrightarrow> lookup d' q = lookup d q"
    "src \<notin> set (no_unlink d) \<longrightarrow> lookup d' src = None"
proof -
  from m have r: "open_read_ok d src" by (simp add: COMM_API_MoveFile_def split: if_splits)
  then obtain bs t where src: "lookup d src = Some (Regular bs t)" by (auto simp: open_read_ok_def)
  from m r obtain d1 d2 where o: "open_trunc dest d = (True, d1)"
    and l: "move_file_loop io 0 (content_of d1 src) dest d1 = (True, d2)" and d': "d' = snd (unlink src d2)"
    by (auto simp: COMM_API_MoveFile_def split: prod.splits bool.splits)
  from o obtain t1 where d1: "lookup d1 dest = Some (Regular [] t1)"
      "\<And>q. q \<noteq> dest \<Longrightarrow> lookup d1 q = lookup d q" "no_unlink d1 = no_unlink d"
    by (auto simp: open_trunc_def disk_simps set_content_def [of dest "[]" d, THEN arg_cong [where f = no_unlink]]
        split: option.splits node.splits if_splits)
  from move_file_loop_effect [OF l d1(1)] d1 ne src show "content_of d' dest = content_of d src"
    "\<forall>q. q \<noteq> src \<and> q \<noteq> dest \<longrightarrow> lookup d' q = lookup d q"
    "src \<notin> set (no_unlink d) \<longrightarrow> lookup d' src = None"
    by (auto simp: d' unlink_def disk_simps content_of_def)
qed

text \<open>Moved onto itself, a file is truncated and then removed, with the result 0.\<close>

lemma move_onto_itself:
  assumes "lookup d p = Some (Regular bs t)"
    and "p \<notin> set (no_read d)" "p \<notin> set (no_write d)" "p \<notin> set (no_unlink d)"
  shows "COMM_API_MoveFile io p p d = (0, drop_entry p (set_content p [] d))"
proof -
  have "no_unlink (set_content p [] d) = no_unlink d" by (simp add: set_content_def)
  then show ?thesis using assms
    by (simp add: COMM_API_MoveFile_def open_read_ok_def open_trunc_def move_file_loop.simps unlink_def disk_simps)
qed

section \<open>Deleting a directory\<close>

definition short_disk :: "disk \<Rightarrow> bool" where
  "short_disk d \<longleftrightarrow> wf_disk d \<and> list_all (\<lambda>e. length (fst e) < MAX_PATH_LENGTH) (entries d)"

lemma short_wf: "short_disk d \<Longrightarrow> wf_disk d"
  by (simp add: short_disk_def)

lemma short_length: "short_disk d \<Longrightarrow> lookup d p \<noteq> None \<Longrightarrow> length p < MAX_PATH_LENGTH"
  by (auto simp: short_disk_def lookup_None_iff list_all_iff)

lemma short_remove: "short_disk d \<Longrightarrow> wf_disk (remove_files X d) \<Longrightarrow> short_disk (remove_files X d)"
  by (auto simp: short_disk_def remove_files_def list_all_iff)

definition deletable :: "disk \<Rightarrow> string \<Rightarrow> bool" where
  "deletable d p \<longleftrightarrow> (\<forall>q. inside p q \<longrightarrow> q \<notin> set (no_unlink d) \<and> q \<notin> set (no_list d))"

definition clears :: "disk \<Rightarrow> string set \<Rightarrow> disk \<Rightarrow> bool" where
  "clears d A d' \<longleftrightarrow> (\<exists>X. X \<subseteq> A \<and> d' = remove_files X d) \<and> short_disk d'"

lemma clears_refl: "short_disk d \<Longrightarrow> clears d A d"
  by (auto simp: clears_def intro: exI [of _ "{}"])

lemma clears_trans:
  assumes "clears d A d1" "clears d1 B d2" "A \<union> B \<subseteq> C" shows "clears d C d2"
proof -
  obtain X Y where X: "X \<subseteq> A" "d1 = remove_files X d" and Y: "Y \<subseteq> B" "d2 = remove_files Y d1"
    and s: "short_disk d2"
    using assms by (auto simp: clears_def)
  have "Y \<union> X \<subseteq> C" "d2 = remove_files (Y \<union> X) d"
    using X Y assms(3) by (auto simp: remove_remove)
  with s show ?thesis unfolding clears_def by blast
qed

lemma clears_None: "clears d A d' \<Longrightarrow> lookup d p = None \<Longrightarrow> lookup d' p = None"
  by (auto simp: clears_def disk_simps)

lemma clears_keeps: "clears d A d' \<Longrightarrow> p \<notin> A \<Longrightarrow> lookup d' p = lookup d p"
  by (auto simp: clears_def disk_simps)

lemma clears_access: "clears d A d' \<Longrightarrow> deletable d' p = deletable d p"
  by (auto simp: clears_def deletable_def)

lemma deletable_child: "deletable d p \<Longrightarrow> deletable d (join p n)"
  using inside_child by (auto simp: deletable_def)

lemma unlink_clears: "short_disk d \<Longrightarrow> clears d {p} (snd (unlink p d))"
  using unlink_removes [of p d] short_remove [of d] unlink_wf_snd [of d p] short_wf [of d]
  by (auto simp: clears_def)

definition clean_dir :: "disk \<Rightarrow> string \<Rightarrow> int \<Rightarrow> disk \<Rightarrow> bool" where
  "clean_dir d p r d' \<longleftrightarrow> clears d (Collect (inside p)) d'
     \<and> (r = 0 \<longrightarrow> (\<forall>q. inside p q \<longrightarrow> lookup d' q = None))
     \<and> (lookup d p = Some Directory \<and> deletable d p \<longrightarrow> r = 0)"

definition clean_entries :: "disk \<Rightarrow> string \<Rightarrow> string list \<Rightarrow> disk \<Rightarrow> bool" where
  "clean_entries d p ns d' \<longleftrightarrow> clears d {q. \<exists>n. inside (join p n) q} d'
     \<and> (deletable d p \<longrightarrow> (\<forall>n\<in>set ns. \<not> dots n \<longrightarrow> lookup d' (join p n) = None))"

lemma inside_self [simp]: "inside p p"
  by (simp add: inside_def)

lemma not_inside_child: "\<not> inside (join p n) p"
  by (auto simp: inside_iff join_def)

lemma finish_directory:
  assumes sd: "short_disk d" and o: "opendir_ok d p"
    and ce: "clean_entries d p (readdir d p) d1" and r: "rmdir p d1 = (b, d2)"
  shows "clean_dir d p (if b then 0 else - 1) d2"
proof -
  have c1: "clears d {q. \<exists>n. inside (join p n) q} d1" using ce by (simp add: clean_entries_def)
  then have sd1: "short_disk d1" by (simp add: clears_def)
  have c1': "clears d (Collect (inside p)) d1"
    by (rule clears_trans [OF c1 clears_refl [OF sd1, of "{}"]]) (auto dest: inside_child)
  show ?thesis
  proof (cases b)
    case True
    with r have "rmdir p d1 = (True, d2)" by simp
    note rt = rmdir_True [OF short_wf [OF sd1] this]
    have "clears d1 {p} d2"
      using rt short_remove [OF sd1] by (auto simp: clears_def drop_entry_remove)
    from clears_trans [OF c1' this, of "Collect (inside p)"] True rt(3)
    show ?thesis by (auto simp: clean_dir_def)
  next
    case False
    then have d2: "d2 = d1" using r rmdir_False by simp
    have "\<not> deletable d p"
    proof
      assume del: "deletable d p"
      have "child_names d1 p = []"
      proof (rule ccontr)
        assume "child_names d1 p \<noteq> []"
        then obtain n where n: "n \<in> set (child_names d1 p)" by (cases "child_names d1 p") auto
        then have l1: "lookup d1 (join p n) \<noteq> None" "slash \<notin> set n" by (simp_all add: child_names_iff)
        then have "n \<in> set (child_names d p)"
          using clears_None [OF c1, of "join p n"] by (cases "lookup d (join p n)") (simp_all add: child_names_iff)
        with child_names_valid [OF short_wf [OF sd] this] ce del l1(1) show False
          by (auto simp: clean_entries_def readdir_eq dots_def)
      qed
      moreover have "lookup d1 p = Some Directory"
        using clears_keeps [OF c1, of p] o not_inside_child by (auto simp: opendir_ok_def)
      moreover have "p \<notin> set (no_unlink d1)"
        using clears_access [OF c1, of p] del by (auto simp: deletable_def)
      ultimately show False using r False by (simp add: rmdir_def readdir_eq)
    qed
    then show ?thesis using False d2 c1' by (simp add: clean_dir_def)
  qed
qed

lemma deleting_cleans:
  shows "short_disk d \<Longrightarrow> 0 < k \<Longrightarrow> MAX_PATH_LENGTH \<le> k + length p \<Longrightarrow>
      \<exists>r d'. COMM_deleteDirectory k p d = Some (r, d') \<and> clean_dir d p r d'"
    and "short_disk d \<Longrightarrow> MAX_PATH_LENGTH \<le> Suc k + length p \<Longrightarrow>
      \<forall>n\<in>set ns. \<not> dots n \<longrightarrow> slash \<notin> set n \<and> length (join p n) < MAX_PATH_LENGTH \<Longrightarrow>
      \<exists>d'. delete_entries k p ns d = Some d' \<and> clean_entries d p ns d'"
proof (induction k p d and k p ns d rule: COMM_deleteDirectory_delete_entries.induct)
  case (2 k p d)
  show ?case
  proof (cases "opendir_ok d p")
    case False
    then have "\<not> (lookup d p = Some Directory \<and> deletable d p)"
      unfolding opendir_ok_def deletable_def by (metis inside_self)
    with False 2(2) show ?thesis by (auto simp: clean_dir_def clears_refl)
  next
    case True
    have "\<forall>n\<in>set (readdir d p). \<not> dots n \<longrightarrow> slash \<notin> set n \<and> length (join p n) < MAX_PATH_LENGTH"
      using short_length [OF 2(2), of "join p _"] by (force simp: readdir_eq dots_def child_names_iff)
    with 2(1) [OF _ 2(2)] True 2(4) obtain d1 where
      d1: "delete_entries k p (readdir d p) d = Some d1" "clean_entries d p (readdir d p) d1" by auto
    obtain b d2 where r: "rmdir p d1 = (b, d2)" by fastforce
    from finish_directory [OF 2(2) True d1(2) r] True d1(1) r show ?thesis by (cases b) auto
  qed
next
  case (3 k p d)
  then show ?case by (simp add: clean_entries_def clears_refl)
next
  case (4 k p n ns d)
  have tail: "\<forall>n\<in>set ns. \<not> dots n \<longrightarrow> slash \<notin> set n \<and> length (join p n) < MAX_PATH_LENGTH"
    using 4(9) by simp
  show ?case
  proof (cases "dots n")
    case True
    from 4(1) [OF True 4(7,8) tail] obtain d' where
      "delete_entries k p ns d = Some d'" "clean_entries d p ns d'" by blast
    with True show ?thesis by (simp add: clean_entries_def)
  next
    case False
    let ?f = "join p n"
    have f: "snprintf_path MAX_PATH_LENGTH ?f = ?f"
    proof -
      have "length ?f < MAX_PATH_LENGTH" using 4(9) False by simp
      then show ?thesis unfolding snprintf_path_def by (intro take_all) linarith
    qed
    text \<open>after one entry \<open>d1\<close>, the rest of the listing follows\<close>
    have step: "\<exists>d'. delete_entries k p ns d1 = Some d' \<and> clean_entries d p (n # ns) d'"
      if c: "clears d (Collect (inside ?f)) d1"
        and gone: "deletable d p \<Longrightarrow> lookup d1 ?f = None"
        and ih: "short_disk d1 \<Longrightarrow> MAX_PATH_LENGTH \<le> Suc k + length p \<Longrightarrow>
          \<forall>n\<in>set ns. \<not> dots n \<longrightarrow> slash \<notin> set n \<and> length (join p n) < MAX_PATH_LENGTH \<Longrightarrow>
          \<exists>d'. delete_entries k p ns d1 = Some d' \<and> clean_entries d1 p ns d'" for d1
    proof -
      from ih 4(8) tail c obtain d' where d': "delete_entries k p ns d1 = Some d'" "clean_entries d1 p ns d'"
        by (auto simp: clears_def)
      from d'(2) have c': "clears d1 {q. \<exists>n. inside (join p n) q} d'" by (simp add: clean_entries_def)
      have "clears d {q. \<exists>n. inside (join p n) q} d'" by (rule clears_trans [OF c c']) auto
      with d' gone clears_None [OF c'] clears_access [OF c] show ?thesis by (auto simp: clean_entries_def)
    qed
    consider "lookup d ?f = None" | "lookup d ?f = Some Directory"
      | nd where "lookup d ?f = Some nd" "nd \<noteq> Directory" by (cases "lookup d ?f") auto
    then show ?thesis
    proof cases
      case none: 1
      with step [of d] 4(2) [OF False refl] f 4(7) False show ?thesis by (auto simp: clears_refl)
    next
      case dir: 2
      have "0 < k" using short_length [OF 4(7), of ?f] dir 4(8) by simp
      with 4(4) [OF False refl] f dir 4(7,8) obtain r d1 where
        d1: "COMM_deleteDirectory k ?f d = Some (r, d1)" "clean_dir d ?f r d1" by auto
      then have "clears d (Collect (inside ?f)) d1" "deletable d p \<Longrightarrow> lookup d1 ?f = None"
        using dir by (auto simp: clean_dir_def deletable_child)
      from step [OF this] 4(5) [OF False refl] f dir d1(1) False show ?thesis by auto
    next
      case reg: (3 nd)
      then have rp: "remove_path ?f d = unlink ?f d" by (simp add: remove_path_def)
      have "clears d (Collect (inside ?f)) (snd (unlink ?f d))"
        by (rule clears_trans [OF unlink_clears [OF 4(7)] clears_refl [of _ "{}"]])
          (use unlink_clears [OF 4(7), of ?f] in \<open>auto simp: clears_def\<close>)
      moreover have "lookup (snd (unlink ?f d)) ?f = None" if "deletable d p"
      proof -
        have "?f \<notin> set (no_unlink d)"
          using deletable_child [OF that, of n] by (auto simp: deletable_def)
        then show ?thesis using reg by (cases nd) (auto simp: unlink_def disk_simps)
      qed
      ultimately show ?thesis
        using step [of "snd (unlink ?f d)"] 4(3,6) [OF False refl] f reg False rp by (cases nd) auto
    qed
  qed
qed simp

lemma delete_directory_cleans:
  "short_disk d \<Longrightarrow> MAX_PATH_LENGTH \<le> fuel \<Longrightarrow>
    \<exists>r d'. COMM_deleteDirectory fuel p d = Some (r, d') \<and> clean_dir d p r d'"
  using deleting_cleans(1) [of d fuel p] by (simp add: MAX_PATH_LENGTH_def)

section \<open>Creating all directories of a path\<close>

definition abs_path :: "string list \<Rightarrow> string" where
  "abs_path comps = concat (map (\<lambda>c. slash # c) comps)"

lemma abs_path_Nil [simp]: "abs_path [] = []"
  by (simp add: abs_path_def)

lemma abs_path_snoc: "abs_path (as @ [n]) = join (abs_path as) n"
  by (simp add: abs_path_def join_def)

lemma abs_path_Cons: "abs_path (b # bs) = slash # b @ abs_path bs"
  by (simp add: abs_path_def)

text \<open>A directory can be made at \<open>q\<close> or is there; nothing but directories is added.\<close>

definition makeable :: "disk \<Rightarrow> string \<Rightarrow> bool" where
  "makeable d q \<longleftrightarrow> lookup d q = Some Directory \<or> lookup d q = None \<and> q \<notin> set (no_write d)"

definition extends :: "disk \<Rightarrow> disk \<Rightarrow> bool" where
  "extends d d' \<longleftrightarrow> (\<exists>ps. d' = d\<lparr>entries := entries d @ map (\<lambda>q. (q, Directory)) ps\<rparr>)"

lemma extends_refl [simp]: "extends d d"
  by (simp add: extends_def exI [of _ "[]"])

lemma extends_trans: "extends d d1 \<Longrightarrow> extends d1 d2 \<Longrightarrow> extends d d2"
  unfolding extends_def
  by (elim exE, rule exI [of _ "_ @ _"]) simp

lemma extends_lookup: "extends d d' \<Longrightarrow> lookup d p = Some nd \<Longrightarrow> lookup d' p = Some nd"
  by (auto simp: extends_def lookup_def map_add_def split: option.split)

definition mkdir_at :: "string \<Rightarrow> disk \<Rightarrow> bool \<times> disk" where
  "mkdir_at pre d = (if access_ok d pre then (True, d) else mkdir_step pre d)"

lemma mkdir_at_makes:
  assumes "wf_disk d" "lookup d p = Some Directory" "makeable d (join p n)" "valid_name n"
    and "length (join p n) < PATH_MAX"
  obtains d' where "mkdir_at (join p n) d = (True, d')" "wf_disk d'" "extends d d'"
    "lookup d' (join p n) = Some Directory" "\<And>q. q \<noteq> join p n \<Longrightarrow> makeable d' q = makeable d q"
proof (cases "lookup d (join p n)")
  case None
  have s: "slash \<notin> set n" using assms(4) by (simp add: valid_name_def)
  have mc: "may_create d (join p n)"
    using assms None s unfolding may_create_def makeable_def by simp
  let ?d = "d\<lparr>entries := entries d @ [(join p n, Directory)]\<rparr>"
  have "mkdir_at (join p n) d = (True, ?d)"
    using mc None by (simp add: mkdir_at_def mkdir_step_def mkdir_def access_ok_def)
  moreover have "wf_disk ?d" by (rule wf_add [OF assms(1) mc])
  moreover have "extends d ?d" by (auto simp: extends_def intro!: exI [of _ "[join p n]"])
  moreover have "lookup ?d (join p n) = Some Directory" using None by (simp add: disk_simps)
  moreover have "makeable ?d q = makeable d q" if "q \<noteq> join p n" for q
    using that by (simp add: makeable_def disk_simps split: option.split)
  ultimately show ?thesis using that by blast
next
  case (Some nd)
  then have "lookup d (join p n) = Some Directory" using assms(3) by (simp add: makeable_def)
  then show ?thesis using that [of d] assms(1) by (simp add: mkdir_at_def access_ok_def)
qed

lemma mkdir_loop_name: "slash \<notin> set n \<Longrightarrow> mkdir_loop pre (n @ cs) d = mkdir_loop (pre @ n) cs d"
  by (induction n arbitrary: pre) auto

lemma mkdir_loop_slash:
  "mkdir_loop pre (slash # cs) d =
    (case mkdir_at pre d of (True, d') \<Rightarrow> mkdir_loop (pre @ [slash]) cs d' | (False, d') \<Rightarrow> (False, d'))"
  by (simp add: mkdir_at_def)

lemma length_abs_path: "length (abs_path (as @ bs)) = length (abs_path as) + length (abs_path bs)"
  by (simp add: abs_path_def)

lemma mkdir_loop_makes:
  assumes "wf_disk d" "lookup d (abs_path as) = Some Directory" "\<forall>c\<in>set (n # bs). valid_name c"
    and "length (abs_path (as @ n # bs)) < PATH_MAX"
    and "\<forall>k\<le>length bs. makeable d (abs_path (as @ n # take k bs))"
  shows "\<exists>d' p. mkdir_loop (abs_path (as @ [n])) (abs_path bs) d = (True, d') \<and> wf_disk d' \<and> extends d d'
     \<and> abs_path (as @ n # bs) = join p (last (n # bs)) \<and> lookup d' p = Some Directory
     \<and> makeable d' (abs_path (as @ n # bs))"
  using assms
proof (induction bs arbitrary: as n d)
  case Nil
  then show ?case by (intro exI [of _ d] exI [of _ "abs_path as"]) (simp add: abs_path_snoc)
next
  case (Cons b bs)
  have len: "length (join (abs_path as) n) < PATH_MAX"
    using Cons.prems(4) length_abs_path [of "as @ [n]" "b # bs"] by (simp add: abs_path_snoc)
  from mkdir_at_makes [OF Cons.prems(1,2) _ _ len] Cons.prems(3) Cons.prems(5) [rule_format, of 0]
  obtain d1 where d1: "mkdir_at (join (abs_path as) n) d = (True, d1)" "wf_disk d1" "extends d d1"
    "lookup d1 (join (abs_path as) n) = Some Directory"
    "\<And>q. q \<noteq> join (abs_path as) n \<Longrightarrow> makeable d1 q = makeable d q"
    by (auto simp: abs_path_snoc)
  have mk: "makeable d1 (abs_path ((as @ [n]) @ b # take k bs))" if "k \<le> length bs" for k
  proof -
    have "length (abs_path ((as @ [n]) @ b # take k bs)) \<noteq> length (abs_path (as @ [n]))"
      by (subst length_abs_path) (simp add: abs_path_Cons)
    then have "abs_path ((as @ [n]) @ b # take k bs) \<noteq> join (abs_path as) n"
      by (metis abs_path_snoc)
    then show ?thesis using d1(5) Cons.prems(5) [rule_format, of "Suc k"] that by simp
  qed
  have b: "slash \<notin> set b" using Cons.prems(3) by (simp add: valid_name_def)
  have "mkdir_loop (abs_path (as @ [n])) (abs_path (b # bs)) d
      = mkdir_loop (abs_path ((as @ [n]) @ [b])) (abs_path bs) d1"
  proof -
    have "abs_path ((as @ [n]) @ [b]) = (join (abs_path as) n @ [slash]) @ b"
      by (simp only: abs_path_snoc) (simp add: join_def)
    then show ?thesis using d1(1) unfolding abs_path_Cons mkdir_loop_slash
      by (simp only: abs_path_snoc mkdir_loop_name [OF b] prod.case bool.case)
  qed
  with Cons.IH [of d1 "as @ [n]" b] d1 mk Cons.prems(3,4) show ?case
    by (auto simp: abs_path_snoc intro: extends_trans)
qed

lemma mkdir_recursive_creates:
  assumes wf: "wf_disk d" and root: "lookup d [] = Some Directory"
    and names: "comps \<noteq> []" "\<forall>c\<in>set comps. valid_name c" and len: "length (abs_path comps) < 256"
    and mk: "\<forall>k\<le>length comps. makeable d (abs_path (take k comps))"
  shows "\<exists>d'. COMM_API_MkdirRecursive (abs_path comps) d = Inr (0, d') \<and> wf_disk d' \<and> extends d d'
     \<and> lookup d' (abs_path comps) = Some Directory"
proof (cases "access_ok d (abs_path comps)")
  case True
  then have "lookup d (abs_path comps) = Some Directory"
    using mk [rule_format, of "length comps"] by (auto simp: makeable_def access_ok_def)
  with True wf show ?thesis by (simp add: COMM_API_MkdirRecursive_def)
next
  case False
  obtain n bs where c: "comps = n # bs" using names(1) by (cases comps) auto
  have n: "slash \<notin> set n" and ln: "valid_name (last comps)"
    using names by (simp_all add: c valid_name_def)
  have mk': "\<forall>k\<le>length bs. makeable d (abs_path ([] @ n # take k bs))"
    using mk c by (metis Suc_le_mono append_Nil length_Cons take_Suc_Cons)
  have big: "length (abs_path ([] @ n # bs)) < PATH_MAX" using len by (simp add: c PATH_MAX_def)
  from mkdir_loop_makes [OF wf _ _ big mk'] root names(2) c obtain d1 p where
    d1: "mkdir_loop (abs_path [n]) (abs_path bs) d = (True, d1)" "wf_disk d1" "extends d d1"
      "abs_path comps = join p (last comps)" "lookup d1 p = Some Directory" "makeable d1 (abs_path comps)"
    by auto
  have ne: "last (abs_path comps) \<noteq> slash" "abs_path comps \<noteq> []"
  proof -
    have "last comps \<noteq> []" "slash \<notin> set (last comps)" using ln by (simp_all add: valid_name_def)
    then have "last (last comps) \<noteq> slash" by (metis last_in_set)
    with d1(4) \<open>last comps \<noteq> []\<close> show "last (abs_path comps) \<noteq> slash" "abs_path comps \<noteq> []"
      by (simp_all add: join_def)
  qed
  have loop: "mkdir_loop (take 1 (abs_path comps)) (drop 1 (abs_path comps)) d = (True, d1)"
    using d1(1) n by (simp add: c abs_path_Cons mkdir_loop_name)
  from mkdir_at_makes [OF d1(2,5), of "last comps"] d1(4,6) ln big c obtain d2 where
    d2: "mkdir_at (abs_path comps) d1 = (True, d2)" "wf_disk d2" "extends d1 d2"
      "lookup d2 (abs_path comps) = Some Directory" by auto
  have "mkdir_step (abs_path comps) d1 = (True, d2)"
    using d2(1) d1(2) by (auto simp: mkdir_at_def mkdir_step_def mkdir_def may_create_def access_ok_def split: if_splits)
  with False ne len loop d2 d1(3) show ?thesis
    by (auto simp: COMM_API_MkdirRecursive_def snprintf_path_def intro: extends_trans)
qed

end
