(* ===== verification/Comm_Api.thy ===== *)
theory Comm_Api
  imports Memory
begin

text \<open>
  The computing functions of \<open>common/api/comm_api.c\<close>: check sums, the reading loop over a file
  descriptor, texts with hexadecimal escapes, values cut out of texts, connection numbers,
  addresses, frame types and times. A C string is the list of its bytes without the final zero;
  reading past that zero is a fault. What the kernel and the clock answer are arguments.
\<close>

section \<open>Check sums\<close>

definition g_usCrc16tab :: "u16 list" where
  "g_usCrc16tab =
  [0x0000, 0x1021, 0x2042, 0x3063, 0x4084, 0x50a5, 0x60c6, 0x70e7,
   0x8108, 0x9129, 0xa14a, 0xb16b, 0xc18c, 0xd1ad, 0xe1ce, 0xf1ef,
   0x1231, 0x0210, 0x3273, 0x2252, 0x52b5, 0x4294, 0x72f7, 0x62d6,
   0x9339, 0x8318, 0xb37b, 0xa35a, 0xd3bd, 0xc39c, 0xf3ff, 0xe3de,
   0x2462, 0x3443, 0x0420, 0x1401, 0x64e6, 0x74c7, 0x44a4, 0x5485,
   0xa56a, 0xb54b, 0x8528, 0x9509, 0xe5ee, 0xf5cf, 0xc5ac, 0xd58d,
   0x3653, 0x2672, 0x1611, 0x0630, 0x76d7, 0x66f6, 0x5695, 0x46b4,
   0xb75b, 0xa77a, 0x9719, 0x8738, 0xf7df, 0xe7fe, 0xd79d, 0xc7bc,
   0x48c4, 0x58e5, 0x6886, 0x78a7, 0x0840, 0x1861, 0x2802, 0x3823,
   0xc9cc, 0xd9ed, 0xe98e, 0xf9af, 0x8948, 0x9969, 0xa90a, 0xb92b,
   0x5af5, 0x4ad4, 0x7ab7, 0x6a96, 0x1a71, 0x0a50, 0x3a33, 0x2a12,
   0xdbfd, 0xcbdc, 0xfbbf, 0xeb9e, 0x9b79, 0x8b58, 0xbb3b, 0xab1a,
   0x6ca6, 0x7c87, 0x4ce4, 0x5cc5, 0x2c22, 0x3c03, 0x0c60, 0x1c41,
   0xedae, 0xfd8f, 0xcdec, 0xddcd, 0xad2a, 0xbd0b, 0x8d68, 0x9d49,
   0x7e97, 0x6eb6, 0x5ed5, 0x4ef4, 0x3e13, 0x2e32, 0x1e51, 0x0e70,
   0xff9f, 0xefbe, 0xdfdd, 0xcffc, 0xbf1b, 0xaf3a, 0x9f59, 0x8f78,
   0x9188, 0x81a9, 0xb1ca, 0xa1eb, 0xd10c, 0xc12d, 0xf14e, 0xe16f,
   0x1080, 0x00a1, 0x30c2, 0x20e3, 0x5004, 0x4025, 0x7046, 0x6067,
   0x83b9, 0x9398, 0xa3fb, 0xb3da, 0xc33d, 0xd31c, 0xe37f, 0xf35e,
   0x02b1, 0x1290, 0x22f3, 0x32d2, 0x4235, 0x5214, 0x6277, 0x7256,
   0xb5ea, 0xa5cb, 0x95a8, 0x8589, 0xf56e, 0xe54f, 0xd52c, 0xc50d,
   0x34e2, 0x24c3, 0x14a0, 0x0481, 0x7466, 0x6447, 0x5424, 0x4405,
   0xa7db, 0xb7fa, 0x8799, 0x97b8, 0xe75f, 0xf77e, 0xc71d, 0xd73c,
   0x26d3, 0x36f2, 0x0691, 0x16b0, 0x6657, 0x7676, 0x4615, 0x5634,
   0xd94c, 0xc96d, 0xf90e, 0xe92f, 0x99c8, 0x89e9, 0xb98a, 0xa9ab,
   0x5844, 0x4865, 0x7806, 0x6827, 0x18c0, 0x08e1, 0x3882, 0x28a3,
   0xcb7d, 0xdb5c, 0xeb3f, 0xfb1e, 0x8bf9, 0x9bd8, 0xabbb, 0xbb9a,
   0x4a75, 0x5a54, 0x6a37, 0x7a16, 0x0af1, 0x1ad0, 0x2ab3, 0x3a92,
   0xfd2e, 0xed0f, 0xdd6c, 0xcd4d, 0xbdaa, 0xad8b, 0x9de8, 0x8dc9,
   0x7c26, 0x6c07, 0x5c64, 0x4c45, 0x3ca2, 0x2c83, 0x1ce0, 0x0cc1,
   0xef1f, 0xff3e, 0xcf5d, 0xdf7c, 0xaf9b, 0xbfba, 0x8fd9, 0x9ff8,
   0x6e17, 0x7e36, 0x4e55, 0x5e74, 0x2e93, 0x3eb2, 0x0ed1, 0x1ef0]"

definition crc16_step :: "u16 \<Rightarrow> u8 \<Rightarrow> u16" where
  "crc16_step usCrc b =
    push_bit 8 usCrc XOR g_usCrc16tab ! unat ((drop_bit 8 usCrc XOR ucast b) AND 0x00FF)"

definition COMM_API_CalculateCRC16 :: "bytes \<Rightarrow> u16" where
  "COMM_API_CalculateCRC16 buf = fold (\<lambda>b crc. crc16_step crc b) buf 0"

definition COMM_API_Calculate_xor_checksum :: "bytes \<Rightarrow> u8" where
  "COMM_API_Calculate_xor_checksum data = fold (\<lambda>b c. c XOR b) data 0"

section \<open>Reading and writing descriptors\<close>

text \<open>
  The answers of \<open>read\<close>: bytes, at most as many as asked for, or an error. \<open>n_read\<close> is the
  result of the previous call; the next one stores at \<open>buf + n_read\<close>. When the answers run out
  the file has ended.
\<close>

fun read_loop :: "bytes option list \<Rightarrow> nat \<Rightarrow> int \<Rightarrow> int \<Rightarrow> int \<Rightarrow> int \<Rightarrow> bytes \<Rightarrow> (int \<times> bytes) result" where
  "read_loop answers 0 n_read readIindex tmpsize sz buf = Inr (if readIindex \<noteq> sz then - 1 else readIindex, buf)"
| "read_loop [] (Suc k) n_read readIindex tmpsize sz buf = Inr (if readIindex \<noteq> sz then - 1 else readIindex, buf)"
| "read_loop (a # answers) (Suc k) n_read readIindex tmpsize sz buf =
    (let data = (case a of None \<Rightarrow> [] | Some bs \<Rightarrow> take (nat tmpsize) bs);
         n = (case a of None \<Rightarrow> - 1 | Some bs \<Rightarrow> int (length data))
     in bindR (if data = [] then Inr buf
               else if n_read < 0 then Inl BufferOverrun else mem_write buf (nat n_read) data)
          (\<lambda>buf'. if readIindex + n = sz then Inr (sz, buf')
                  else read_loop answers k n (readIindex + n) (tmpsize - n) sz buf'))"

definition COMM_API_read :: "bytes option list \<Rightarrow> int \<Rightarrow> bytes \<Rightarrow> (int \<times> bytes) result" where
  "COMM_API_read answers sz buf = read_loop answers 100 0 0 sz sz buf"

text \<open>\<open>wrote\<close> is the result of \<open>write\<close>; the comparison is between unsigned numbers.\<close>

definition COMM_API_write :: "int \<Rightarrow> int \<Rightarrow> int" where
  "COMM_API_write wrote sz = (if (word_of_int wrote :: u32) \<noteq> word_of_int sz then - 1 else sz)"

section \<open>Hexadecimal texts\<close>

definition hex_code :: "nat \<Rightarrow> u8" where
  "hex_code n = (if n < 10 then word_of_nat (48 + n) else word_of_nat (87 + n))"

definition hex2 :: "u8 \<Rightarrow> bytes" where
  "hex2 b = [hex_code (unat b div 16), hex_code (unat b mod 16)]"

text \<open>The terminator replaces the last blank; without any byte it is written before the block.\<close>

definition COMM_API_PayloadToHexString :: "bool \<Rightarrow> bytes \<Rightarrow> bytes option result" where
  "COMM_API_PayloadToHexString mem payload =
    (if \<not> mem then Inr None
     else if payload = [] then Inl BufferOverrun
     else Inr (Some (butlast (concat (map (\<lambda>b. hex2 b @ [32]) payload)))))"

definition hex_value :: "u8 \<Rightarrow> nat option" where
  "hex_value c = (let n = unat c in
     if 48 \<le> n \<and> n \<le> 57 then Some (n - 48)
     else if 97 \<le> n \<and> n \<le> 102 then Some (n - 87)
     else if 65 \<le> n \<and> n \<le> 70 then Some (n - 55) else None)"

definition isxdigit :: "u8 \<Rightarrow> bool" where
  "isxdigit c \<longleftrightarrow> hex_value c \<noteq> None"

fun COMM_API_is_utf8_hex_string :: "bytes \<Rightarrow> int" where
  "COMM_API_is_utf8_hex_string [] = 1"
| "COMM_API_is_utf8_hex_string (b # x # h # l # rest) =
    (if b = 92 \<and> x = 120 \<and> isxdigit h \<and> isxdigit l then COMM_API_is_utf8_hex_string rest else 0)"
| "COMM_API_is_utf8_hex_string _ = 0"

text \<open>
  \<open>strtol\<close> with base 16 on two characters: blanks, a sign, a prefix \<open>0x\<close> (which the second
  character ends), then digits as far as they go.
\<close>

fun hex_digits :: "nat \<Rightarrow> bytes \<Rightarrow> nat" where
  "hex_digits acc [] = acc"
| "hex_digits acc (c # cs) = (case hex_value c of None \<Rightarrow> acc | Some v \<Rightarrow> hex_digits (acc * 16 + v) cs)"

fun strtol16 :: "bytes \<Rightarrow> int" where
  "strtol16 [] = 0"
| "strtol16 (c # cs) =
    (if c = 32 \<or> 9 \<le> c \<and> c \<le> 13 then strtol16 cs
     else if c = 45 then - int (hex_digits 0 cs)
     else if c = 43 then int (hex_digits 0 cs)
     else int (hex_digits 0 (c # cs)))"

text \<open>After \<open>\x\<close> the code takes two characters unseen; the end of the text may be among them.\<close>

fun COMM_API_unescape :: "bytes \<Rightarrow> bytes result" where
  "COMM_API_unescape [] = Inr [0]"
| "COMM_API_unescape (b # rest) =
    (if b = 92 \<and> rest \<noteq> [] \<and> hd rest = 120
     then (case rest of
             _ # h # l # rest' \<Rightarrow>
               bindR (COMM_API_unescape rest') (\<lambda>out. Inr (word_of_int (strtol16 [h, l]) # out))
           | _ \<Rightarrow> Inl BufferOverrun)
     else bindR (COMM_API_unescape rest) (\<lambda>out. Inr (b # out)))"

section \<open>Values in texts\<close>

text \<open>The part of the text from the first occurrence on.\<close>

fun strstr_bytes :: "bytes \<Rightarrow> bytes \<Rightarrow> bytes option" where
  "strstr_bytes [] needle = (if needle = [] then Some [] else None)"
| "strstr_bytes (c # cs) needle =
    (if take (length needle) (c # cs) = needle then Some (c # cs) else strstr_bytes cs needle)"

text \<open>
  The copying loop of \<open>COMM_API_CheckStr\<close>: up to the quote, \<open>resultBufLen + 1\<close> bytes at most;
  the zero at the end of the text is copied like any other byte.
\<close>

fun copy_value :: "nat \<Rightarrow> nat \<Rightarrow> bytes \<Rightarrow> bytes \<Rightarrow> bytes result" where
  "copy_value 0 i from result = Inr result"
| "copy_value (Suc k) i [] result = Inl BufferOverrun"
| "copy_value (Suc k) i (c # cs) result =
    (if c = 34 then Inr result
     else bindR (store_byte result i c) (\<lambda>result'. copy_value k (Suc i) cs result'))"

definition COMM_API_CheckStr ::
  "bytes option \<Rightarrow> int \<Rightarrow> bytes option \<Rightarrow> nat \<Rightarrow> nat option \<Rightarrow> (int \<times> bytes option) result" where
  "COMM_API_CheckStr strBuf strBufLen checkBuf checkBufLen resultLen =
    (case (strBuf, checkBuf, resultLen) of
       (Some str, Some check, Some n) \<Rightarrow>
         if int checkBufLen > strBufLen \<or> n < 8 then Inr (- 1, None)
         else (case strstr_bytes str check of
                 None \<Rightarrow> Inr (- 1, Some (replicate n 0))
               | Some p \<Rightarrow>
                   if length p < checkBufLen then Inl BufferOverrun
                   else bindR (copy_value (Suc n) 0 (drop checkBufLen p @ [0]) (replicate n 0))
                          (\<lambda>result. Inr (0, Some result)))
     | _ \<Rightarrow> Inr (- 1, None))"

text \<open>\<open>atoi\<close>; the block must hold a byte that is not a digit after the number.\<close>

fun atoi_digits :: "int \<Rightarrow> bytes \<Rightarrow> int result" where
  "atoi_digits acc [] = Inl BufferOverrun"
| "atoi_digits acc (c # cs) =
    (if 48 \<le> c \<and> c \<le> 57 then atoi_digits (acc * 10 + int (unat c - 48)) cs else Inr acc)"

fun atoi :: "bytes \<Rightarrow> int result" where
  "atoi [] = Inl BufferOverrun"
| "atoi (c # cs) =
    (if c = 32 \<or> 9 \<le> c \<and> c \<le> 13 then atoi cs
     else if c = 45 then bindR (atoi_digits 0 cs) (\<lambda>v. Inr (- v))
     else if c = 43 then atoi_digits 0 cs
     else atoi_digits 0 (c # cs))"

definition COMM_API_CheckValue :: "bytes option \<Rightarrow> bytes option \<Rightarrow> nat \<Rightarrow> (int \<times> int option) result" where
  "COMM_API_CheckValue strBuf checkBuf checklen =
    (case (strBuf, checkBuf) of
       (Some str, Some check) \<Rightarrow>
         (case strstr_bytes str check of
            None \<Rightarrow> Inr (- 1, None)
          | Some p \<Rightarrow>
              bindR (mem_read (p @ [0]) (length check) checklen) (\<lambda>from.
              bindR (mem_write (replicate 8 0) 0 from) (\<lambda>resultBuf.
              bindR (atoi resultBuf) (\<lambda>v. Inr (0, Some v)))))
     | _ \<Rightarrow> Inr (- 1, None))"

section \<open>Numbers, addresses and frames\<close>

text \<open>One byte of \<open>juice_random\<close> for each value of \<open>rand\<close>.\<close>

definition juice_random :: "u32 list \<Rightarrow> bytes" where
  "juice_random rands = map (\<lambda>r. ucast (drop_bit 7 (r AND 0x7f80))) rands"

definition juice_rand32 :: "u32 \<Rightarrow> u32 \<Rightarrow> u32 \<Rightarrow> u32 \<Rightarrow> u32" where
  "juice_rand32 a b c d =
    (case juice_random [a, b, c, d] of [w, x, y, z] \<Rightarrow> u32_le w x y z | _ \<Rightarrow> 0)"

definition COMM_API_GenerateConv :: "u32 \<Rightarrow> u8 \<Rightarrow> u8 \<Rightarrow> u32" where
  "COMM_API_GenerateConv rand32 cam_seq stream_seq =
    (let cam_seq = cam_seq AND 0x0F; stream_seq = stream_seq AND 0x0F;
         first_byte = push_bit 4 stream_seq OR cam_seq;
         random_part = rand32 AND 0xFFFFFF
     in push_bit 24 (ucast first_byte) OR random_part)"

text \<open>\<open>netmask\<close> answers for \<open>COMM_API_get_subnet_mask\<close>, \<open>aton\<close> for \<open>inet_aton\<close>.\<close>

definition COMM_API_same_subnet ::
  "(string \<Rightarrow> string option) \<Rightarrow> (string \<Rightarrow> u32 option) \<Rightarrow> string option \<Rightarrow> string option \<Rightarrow> string option \<Rightarrow> bool" where
  "COMM_API_same_subnet netmask aton ip1 ip2 interface_name =
    (case (ip1, ip2, interface_name) of
       (Some a, Some b, Some i) \<Rightarrow>
         (case netmask i of
            None \<Rightarrow> False
          | Some m \<Rightarrow> (case (aton a, aton b, aton m) of
                         (Some x, Some y, Some z) \<Rightarrow> (x AND z) = (y AND z)
                       | _ \<Rightarrow> False))
     | _ \<Rightarrow> False)"

text \<open>A chain of \<open>&&\<close> comparing byte after byte.\<close>

fun starts_with :: "bytes \<Rightarrow> bytes \<Rightarrow> bool result" where
  "starts_with [] data = Inr True"
| "starts_with (p # ps) [] = Inl BufferOverrun"
| "starts_with (p # ps) (c # cs) = (if c = p then starts_with ps cs else Inr False)"

definition start_code :: "bytes \<Rightarrow> nat result" where
  "start_code data =
    bindR (starts_with [0, 0, 0, 1] data) (\<lambda>long.
      if long then Inr 4
      else bindR (starts_with [0, 0, 1] data) (\<lambda>short. Inr (if short then 3 else 0)))"

definition COMM_API_isIFrame :: "bool \<Rightarrow> bytes \<Rightarrow> int result" where
  "COMM_API_isIFrame isH265 data =
    bindR (start_code data) (\<lambda>n.
      if n = 0 then Inr 0
      else bindR (load_byte data n) (\<lambda>c.
        if isH265
        then (let nal_type = drop_bit 1 c in Inr (if nal_type = 32 \<or> nal_type \<ge> 16 \<and> nal_type \<le> 21 then 1 else 0))
        else (let nal_type = c AND 0x1f in Inr (if nal_type = 7 then 1 else 0))))"

section \<open>Times\<close>

datatype systime = SYSTIME_M_SECSYSTIME_SEC | SYSTIME_SEC | SYSTIME_MICRO_SEC | SYSTIME_MAX

record timespec = tv_sec :: int tv_nsec :: int

definition COMM_API_GetSysTime :: "systime \<Rightarrow> timespec \<Rightarrow> int" where
  "COMM_API_GetSysTime type ts =
    (case type of
       SYSTIME_MAX \<Rightarrow> - 1
     | SYSTIME_SEC \<Rightarrow> tv_sec ts
     | SYSTIME_M_SECSYSTIME_SEC \<Rightarrow> tv_sec ts * 1000 + tv_nsec ts div 1000000
     | SYSTIME_MICRO_SEC \<Rightarrow> tv_sec ts * 1000000 + tv_nsec ts div 1000)"

definition COMM_API_get_tick_ms :: "timespec option \<Rightarrow> int" where
  "COMM_API_get_tick_ms now =
    (case now of Some ts \<Rightarrow> tv_sec ts * 1000 + tv_nsec ts div 1000000 | None \<Rightarrow> 0)"

definition COMM_API_get_tick_us :: "timespec option \<Rightarrow> int" where
  "COMM_API_get_tick_us now =
    (case now of Some ts \<Rightarrow> tv_sec ts * 1000 * 1000 + tv_nsec ts div 1000 | None \<Rightarrow> 0)"

record tm = tm_mday :: int tm_hour :: int tm_min :: int

definition COMM_API_GetTimeZoneSec :: "tm \<Rightarrow> tm \<Rightarrow> int" where
  "COMM_API_GetTimeZoneSec gttime pTm_time =
    (if tm_mday pTm_time = tm_mday gttime then (tm_hour pTm_time - tm_hour gttime) * 3600
     else if tm_mday pTm_time > tm_mday gttime then (tm_hour pTm_time + (24 - tm_hour gttime)) * 3600
     else ((tm_hour pTm_time - 24) - tm_hour gttime) * 3600)
    + (tm_min pTm_time - tm_min gttime) * 60"

definition SYS_MIN_UTC_SEC :: int where "SYS_MIN_UTC_SEC = 1640966400"

definition COMM_CheckTimeIsUpdate :: "int \<Rightarrow> int" where
  "COMM_CheckTimeIsUpdate sec = (if sec > SYS_MIN_UTC_SEC then 0 else - 1)"

text \<open>Whether the weekly restart is due: weekday, hour and uptime (\<open>None\<close> when unknown).\<close>

definition COMM_API_TimedRestart :: "int \<Rightarrow> int \<Rightarrow> int option \<Rightarrow> int \<times> bool" where
  "COMM_API_TimedRestart weekday hour uptime =
    (if weekday = 4 \<and> hour = 3
     then (case uptime of None \<Rightarrow> (1, False) | Some u \<Rightarrow> (0, u div (60 * 60 * 24) \<ge> 1))
     else (0, False))"

section \<open>The kind of device\<close>

record extender =
  is_load_file :: bool
  is_extender :: int

text \<open>\<open>conf\<close> tells whether the file of a camera's binding exists.\<close>

definition COMM_API_IsExtender :: "bool \<Rightarrow> extender \<Rightarrow> int \<times> extender" where
  "COMM_API_IsExtender conf s =
    (let s' = (if is_load_file s then s else \<lparr>is_load_file = True, is_extender = (if conf then 0 else 1)\<rparr>)
     in (is_extender s', s'))"

definition COMM_API_ResetExtenderStatus :: "bool \<Rightarrow> extender \<Rightarrow> extender" where
  "COMM_API_ResetExtenderStatus conf s = \<lparr>is_load_file = False, is_extender = (if conf then 0 else 1)\<rparr>"

definition CONNECT_GetBindStatus :: "bool \<Rightarrow> bool \<Rightarrow> bool \<Rightarrow> extender \<Rightarrow> bool \<times> extender" where
  "CONNECT_GetBindStatus conf repeater_file bind_file s =
    (case COMM_API_IsExtender conf s of (e, s') \<Rightarrow> (if e \<noteq> 0 then repeater_file else bind_file, s'))"

section \<open>Escapes\<close>

definition escape :: "bytes \<Rightarrow> bytes" where
  "escape bs = concat (map (\<lambda>b. 92 # 120 # hex2 b) bs)"

lemma hex_value_digit: "n < 16 \<Longrightarrow> hex_value (hex_code n) = Some n"
proof -
  have "\<forall>n\<in>{0..<16}. hex_value (hex_code n) = Some n" by code_simp
  then show "n < 16 \<Longrightarrow> hex_value (hex_code n) = Some n" by simp
qed

lemma hex_code_plain: "n < 16 \<Longrightarrow> \<not> (hex_code n = 32 \<or> 9 \<le> hex_code n \<and> hex_code n \<le> 13)
    \<and> hex_code n \<noteq> 45 \<and> hex_code n \<noteq> 43"
proof -
  have "\<forall>n\<in>{0..<16}. \<not> (hex_code n = 32 \<or> 9 \<le> hex_code n \<and> hex_code n \<le> 13)
    \<and> hex_code n \<noteq> 45 \<and> hex_code n \<noteq> 43" by code_simp
  then show "n < 16 \<Longrightarrow> ?thesis" by simp
qed

lemma nibbles: "unat (b :: u8) div 16 < 16" "unat b mod 16 < 16"
  using unsigned_less [of b, where 'a = nat] by (simp_all add: div_less_iff_less_mult)

lemma strtol16_hex2: "strtol16 (hex2 b) = int (unat b)"
proof -
  have "strtol16 (hex2 b) = int (hex_digits 0 (hex2 b))"
    using hex_code_plain [OF nibbles(1) [of b]] by (auto simp: hex2_def simp del: hex_digits.simps)
  then show ?thesis using nibbles [of b] by (simp add: hex2_def hex_value_digit)
qed

lemma unescape_escape: "COMM_API_unescape (escape bs) = Inr (bs @ [0])"
proof (induction bs)
  case (Cons b bs)
  have "(word_of_int (int (unat b)) :: u8) = b" by (simp add: of_nat_unat)
  with Cons strtol16_hex2 [of b] show ?case
    by (simp add: escape_def hex2_def)
qed (simp add: escape_def)

lemma escape_is_hex: "COMM_API_is_utf8_hex_string (escape bs) = 1"
  by (induction bs) (simp_all add: escape_def hex2_def isxdigit_def hex_value_digit nibbles)

lemma hex_string_unescapes:
  "COMM_API_is_utf8_hex_string s = 1 \<Longrightarrow>
    \<exists>out. COMM_API_unescape s = Inr (out @ [0]) \<and> 4 * length out = length s"
proof (induction s rule: COMM_API_is_utf8_hex_string.induct)
  case (2 b x h l rest)
  then have r: "b = 92" "x = 120" "COMM_API_is_utf8_hex_string rest = 1"
    by (auto split: if_splits)
  with 2 obtain out where "COMM_API_unescape rest = Inr (out @ [0])" "4 * length out = length rest"
    by (auto split: if_splits)
  with r show ?case by (intro exI [of _ "word_of_int (strtol16 [h, l]) # out"]) simp
qed simp_all

text \<open>A text that ends in the middle of an escape is read past its end.\<close>

lemma cut_escape_overruns:
  "92 \<notin> set s \<Longrightarrow> length r < 2 \<Longrightarrow> COMM_API_unescape (s @ [92, 120] @ r) = Inl BufferOverrun"
proof (induction s)
  case Nil
  then show ?case by (cases r; cases "tl r") auto
qed auto

section \<open>Reading in pieces\<close>

lemma read_loop_whole:
  "a \<noteq> [] \<Longrightarrow> length a = rest \<Longrightarrow> 0 \<le> n \<Longrightarrow> mem_write buf (nat n) a = Inr buf' \<Longrightarrow> got + int rest = sz \<Longrightarrow>
    read_loop (Some a # answers) (Suc k) n got (int rest) sz buf = Inr (sz, buf')"
  by (simp add: Let_def)

lemma read_loop_part:
  "a \<noteq> [] \<Longrightarrow> length a \<le> rest \<Longrightarrow> 0 \<le> n \<Longrightarrow> mem_write buf (nat n) a = Inr buf' \<Longrightarrow> got + int (length a) \<noteq> sz \<Longrightarrow>
    read_loop (Some a # answers) (Suc k) n got (int rest) sz buf
      = read_loop answers k (int (length a)) (got + int (length a)) (int (rest - length a)) sz buf'"
  by (simp add: Let_def of_nat_diff)

text \<open>After a failed read the next bytes go before the buffer.\<close>

lemma failed_read_underruns:
  assumes "a \<noteq> []" shows "COMM_API_read [None, Some a] (int (length buf)) buf = Inl BufferOverrun"
proof -
  let ?n = "length buf"
  have "read_loop [None, Some a] (Suc (Suc k)) 0 0 (int ?n) (int ?n) buf = Inl BufferOverrun" for k
    using assms by (simp add: Let_def)
  from this [of 98] show ?thesis by (simp add: COMM_API_read_def)
qed

declare read_loop.simps(3) [simp del]

text \<open>Two pieces land one behind the other.\<close>

lemma two_reads_ok:
  assumes "a \<noteq> []" "b \<noteq> []" "length a + length b = length buf"
  shows "COMM_API_read [Some a, Some b] (int (length buf)) buf = Inr (int (length buf), a @ b)"
proof -
  let ?n = "length buf"
  have 1: "mem_write buf (nat 0) a = Inr (a @ drop (length a) buf)"
    using assms by (simp add: mem_write_def)
  have 2: "mem_write (a @ drop (length a) buf) (nat (int (length a))) b = Inr (a @ b)"
    using assms by (simp add: mem_write_def)
  have d: "?n - length a = length b" "length b \<noteq> 0" "int (length a) \<noteq> int ?n"
    "int (length a) + int (length b) = int ?n" using assms by auto
  have "read_loop [Some a, Some b] (Suc (Suc k)) 0 0 (int ?n) (int ?n) buf = Inr (int ?n, a @ b)" for k
    using read_loop_part [OF assms(1) _ _ 1, of ?n 0 "int ?n" "[Some b]" "Suc k"]
      read_loop_whole [OF assms(2) refl _ 2, of "int (length a)" "int ?n" "[]" k] d assms(3)
    by simp
  from this [of 98] show ?thesis by (simp add: COMM_API_read_def)
qed

text \<open>
  The third piece is stored behind the beginning of the buffer, at the length of the second
  piece, and the call still reports success.
\<close>

lemma third_read_misplaced:
  assumes "a \<noteq> []" "b \<noteq> []" "c \<noteq> []" "length a + length b + length c = length buf"
  shows "COMM_API_read [Some a, Some b, Some c] (int (length buf)) buf
    = Inr (int (length buf), let m = a @ b @ drop (length a + length b) buf
                             in take (length b) m @ c @ drop (length b + length c) m)"
proof -
  let ?n = "length buf"
  define m where "m = a @ b @ drop (length a + length b) buf"
  have 1: "mem_write buf (nat 0) a = Inr (a @ drop (length a) buf)"
    using assms by (simp add: mem_write_def)
  have 2: "mem_write (a @ drop (length a) buf) (nat (int (length a))) b = Inr m"
    using assms by (simp add: mem_write_def m_def add.commute)
  have 3: "mem_write m (nat (int (length b))) c = Inr (take (length b) m @ c @ drop (length b + length c) m)"
    using assms by (simp add: mem_write_def m_def)
  have lc: "0 < length c" using assms(3) by simp
  have d: "?n - length a = length b + length c" "length b + length c - length b = length c"
    "int (length a) \<noteq> int ?n" "int (length a) + int (length b) + int (length c) = int ?n"
    using assms lc by auto
  have "length a + length b \<noteq> ?n" using assms(4) lc by linarith
  then have d4: "int (length a) + int (length b) \<noteq> int ?n" by (metis of_nat_add of_nat_eq_iff)
  have p1: "read_loop [Some a, Some b, Some c] (Suc (Suc (Suc k))) 0 0 (int ?n) (int ?n) buf
      = read_loop [Some b, Some c] (Suc (Suc k)) (int (length a)) (int (length a)) (int (length b + length c)) (int ?n)
          (a @ drop (length a) buf)" for k
    using read_loop_part [OF assms(1) _ _ 1, of ?n 0 "int ?n" "[Some b, Some c]" "Suc (Suc k)"] d assms(4)
    by (simp only: add_0) simp
  have p2: "read_loop [Some b, Some c] (Suc (Suc k)) (int (length a)) (int (length a)) (int (length b + length c)) (int ?n)
          (a @ drop (length a) buf)
      = read_loop [Some c] (Suc k) (int (length b)) (int (length a) + int (length b)) (int (length c)) (int ?n) m" for k
    using read_loop_part [OF assms(2) _ _ 2, of "length b + length c" "int (length a)" "int ?n" "[Some c]" "Suc k"] d d4
    by simp
  have p3: "read_loop [Some c] (Suc k) (int (length b)) (int (length a) + int (length b)) (int (length c)) (int ?n) m
      = Inr (int ?n, take (length b) m @ c @ drop (length b + length c) m)" for k
    using read_loop_whole [OF assms(3) refl _ 3, of "int (length a) + int (length b)" "int ?n" "[]" k] d
    by simp
  have "read_loop [Some a, Some b, Some c] (Suc (Suc (Suc k))) 0 0 (int ?n) (int ?n) buf
      = Inr (int ?n, take (length b) m @ c @ drop (length b + length c) m)" for k
    by (simp only: p1 p2 p3)
  from this [of 97] show ?thesis by (simp add: COMM_API_read_def m_def Let_def)
qed

section \<open>Connection numbers\<close>

lemma conv_fields:
  "drop_bit 24 (COMM_API_GenerateConv r c s) AND 0x0F = ucast (c AND 0x0F)"
  "drop_bit 28 (COMM_API_GenerateConv r c s) = ucast (s AND 0x0F)"
  "COMM_API_GenerateConv r c s AND 0xFFFFFF = r AND 0xFFFFFF"
proof -
  have m: "(0xFFFFFF :: u32) = Bit_Operations.mask 24" "(0x0F :: u32) = Bit_Operations.mask 4" "(0x0F :: u8) = Bit_Operations.mask 4"
    by (simp_all add: mask_eq_exp_minus_1)
  show "drop_bit 24 (COMM_API_GenerateConv r c s) AND 0x0F = ucast (c AND 0x0F)"
    "drop_bit 28 (COMM_API_GenerateConv r c s) = ucast (s AND 0x0F)"
    "COMM_API_GenerateConv r c s AND 0xFFFFFF = r AND 0xFFFFFF"
    unfolding COMM_API_GenerateConv_def Let_def m
    by (rule bit_word_eqI, auto simp: bit_simps)+
qed

section \<open>Time zones\<close>

text \<open>
  The offset is right within a month; when local time and UTC are in different months it is two
  days off.
\<close>

definition local_tm :: "tm \<Rightarrow> int \<Rightarrow> int \<Rightarrow> tm \<Rightarrow> bool" where
  "local_tm g off next_mday l \<longleftrightarrow>
    (let t = tm_hour g * 60 + tm_min g + off in
     0 \<le> tm_hour l \<and> tm_hour l < 24 \<and> 0 \<le> tm_min l \<and> tm_min l < 60 \<and>
     tm_hour l * 60 + tm_min l = t mod 1440 \<and>
     tm_mday l = (if t < 1440 then tm_mday g else next_mday))"

lemma timezone_sec:
  assumes "0 \<le> tm_hour g" "tm_hour g < 24" "0 \<le> tm_min g" "tm_min g < 60" "0 \<le> off" "off < 1440"
    and "local_tm g off next_mday l" "next_mday \<noteq> tm_mday g"
  shows "COMM_API_GetTimeZoneSec g l =
    (if tm_hour g * 60 + tm_min g + off < 1440 \<or> next_mday > tm_mday g then off * 60 else off * 60 - 172800)"
proof -
  define t where "t = tm_hour g * 60 + tm_min g + off"
  have t: "0 \<le> t" "t < 2880" using assms(1-6) unfolding t_def by linarith+
  define m where "m = tm_hour l * 60 + tm_min l"
  have l: "m = t mod 1440" "tm_mday l = (if t < 1440 then tm_mday g else next_mday)"
    using assms(7) unfolding local_tm_def Let_def t_def m_def by blast+
  define x where "x = (tm_hour l - tm_hour g) * 3600 + (tm_min l - tm_min g) * 60"
  have x: "x = (m - (t - off)) * 60" unfolding x_def m_def t_def by algebra
  have d: "COMM_API_GetTimeZoneSec g l = (if tm_mday l = tm_mday g then x
      else if tm_mday l > tm_mday g then x + 86400 else x - 86400)"
    by (simp add: COMM_API_GetTimeZoneSec_def x_def)
  show ?thesis unfolding d t_def [symmetric]
  proof (cases "t < 1440")
    case True
    then have "t mod 1440 = t" using t by (intro mod_pos_pos_trivial) linarith+
    then have "m = t" using l(1) by linarith
    then have "x = off * 60" using x by simp
    with True l(2) show "(if tm_mday l = tm_mday g then x
        else if tm_mday l > tm_mday g then x + 86400 else x - 86400)
      = (if t < 1440 \<or> next_mday > tm_mday g then off * 60 else off * 60 - 172800)" by simp
  next
    case False
    then have "(t - 1440) mod 1440 = t - 1440" using t by (intro mod_pos_pos_trivial) linarith+
    moreover have "(t - 1440) mod 1440 = t mod 1440" by (rule minus_mod_self2)
    ultimately have "m = t - 1440" using l(1) by linarith
    then have "x = off * 60 - 86400" using x by simp
    with False l(2) assms(8) show "(if tm_mday l = tm_mday g then x
        else if tm_mday l > tm_mday g then x + 86400 else x - 86400)
      = (if t < 1440 \<or> next_mday > tm_mday g then off * 60 else off * 60 - 172800)" by simp
  qed
qed

section \<open>Values in texts\<close>

text \<open>A value longer than the buffer is written one byte past its end.\<close>

lemma copy_value_long:
  "34 \<notin> set v \<Longrightarrow> i + length v = length r \<Longrightarrow> x \<noteq> 34 \<Longrightarrow>
    copy_value (Suc (length v)) i (v @ x # rest) r = Inl BufferOverrun"
proof (induction v arbitrary: i r)
  case Nil
  then show ?case by (simp add: store_byte_def)
next
  case (Cons c v)
  then have "store_byte r i c = Inr (r[i := c])" "c \<noteq> 34" by (simp_all add: store_byte_def)
  with Cons.IH [of "Suc i" "r[i := c]"] Cons.prems show ?case by simp
qed

lemma check_str_overruns:
  assumes "strstr_bytes str check = Some (check @ v @ x # rest)" "34 \<notin> set v" "x \<noteq> 34"
    and "8 \<le> length v" "int (length check) \<le> len"
  shows "COMM_API_CheckStr (Some str) len (Some check) (length check) (Some (length v)) = Inl BufferOverrun"
proof -
  have "copy_value (Suc (length v)) 0 (v @ x # rest @ [0]) (replicate (length v) 0) = Inl BufferOverrun"
    by (rule copy_value_long [OF assms(2)]) (simp_all add: assms(3))
  moreover have "drop (length check) (check @ v @ x # rest) @ [0] = v @ x # rest @ [0]" by simp
  moreover have "\<not> (int (length check) > len \<or> length v < 8)" using assms(4,5) by simp
  ultimately show ?thesis unfolding COMM_API_CheckStr_def
    by (simp only: assms(1) prod.case option.case if_False length_append bindR_simps) simp
qed

end
