(* ===== verification/Comm_Crc.thy ===== *)
theory Comm_Crc
  imports Comm_Api
begin

text \<open>
  The check sum of \<open>COMM_API_CalculateCRC16\<close> against its definition bit by bit: the division
  of the message by the polynomial \<open>x^16 + x^12 + x^5 + 1\<close>. The table of the code is the
  division of the 256 single bytes.
\<close>

definition crc_bit :: "u16 \<Rightarrow> u16" where
  "crc_bit x = (if bit x 15 then push_bit 1 x XOR 0x1021 else push_bit 1 x)"

definition crc_byte :: "u16 \<Rightarrow> u8 \<Rightarrow> u16" where
  "crc_byte crc b = (crc_bit ^^ 8) (crc XOR push_bit 8 (ucast b))"

definition crc_reference :: "bytes \<Rightarrow> u16" where
  "crc_reference bs = fold (\<lambda>b crc. crc_byte crc b) bs 0"

lemma crc_bit_xor: "crc_bit (x XOR y) = crc_bit x XOR crc_bit y"
  unfolding crc_bit_def by (rule bit_word_eqI) (auto simp: bit_simps)

lemma crc_bits_xor: "(crc_bit ^^ n) (x XOR y) = (crc_bit ^^ n) x XOR (crc_bit ^^ n) y"
  by (induction n) (simp_all add: crc_bit_xor)

lemma crc_bit_low: "\<not> bit x 15 \<Longrightarrow> crc_bit x = push_bit 1 x"
  by (simp add: crc_bit_def)

lemma crc_bits_low: "(\<forall>i\<ge>16 - n. \<not> bit x i) \<Longrightarrow> n \<le> 16 \<Longrightarrow> (crc_bit ^^ n) x = push_bit n x"
proof (induction n)
  case (Suc n)
  have e: "(crc_bit ^^ n) x = push_bit n x" using Suc by simp
  have "\<not> bit (push_bit n x) 15" using Suc.prems by (auto simp: bit_simps)
  then have "crc_bit (push_bit n x) = push_bit (Suc n) x"
    by (simp only: crc_bit_low push_bit_push_bit plus_1_eq_Suc not_False_eq_True)
  then show ?case by (simp only: funpow.simps o_apply e)
qed simp

fun next_level :: "u16 list \<Rightarrow> u16 list" where
  "next_level [] = []"
| "next_level (t # ts) = crc_bit t # (crc_bit t XOR 0x1021) # next_level ts"

lemma next_level_nth:
  "i < length ts \<Longrightarrow> next_level ts ! (2 * i) = crc_bit (ts ! i)
    \<and> next_level ts ! Suc (2 * i) = crc_bit (ts ! i) XOR 0x1021"
proof (induction ts arbitrary: i rule: next_level.induct)
  case (2 t ts)
  then show ?case by (cases i) simp_all
qed simp

lemma crc_table_levels: "next_level (take 128 g_usCrc16tab) = g_usCrc16tab"
  by (simp add: g_usCrc16tab_def crc_bit_def)

lemma crc_table_length: "length g_usCrc16tab = 256"
  by (simp add: g_usCrc16tab_def)

lemma crc_table_double:
  assumes "j < 128"
  shows "g_usCrc16tab ! (2 * j) = crc_bit (g_usCrc16tab ! j)"
    "g_usCrc16tab ! Suc (2 * j) = crc_bit (g_usCrc16tab ! j) XOR 0x1021"
  using next_level_nth [of j "take 128 g_usCrc16tab"] assms
  by (simp_all add: crc_table_length crc_table_levels)

lemma crc_of_one: "(crc_bit ^^ 8) (push_bit 8 1) = 0x1021"
proof -
  have "(crc_bit ^^ 7) (push_bit 8 1) = push_bit 7 (push_bit 8 1)"
    by (rule crc_bits_low) (auto simp only: bit_push_bit_iff bit_1_iff)
  moreover have "(crc_bit ^^ 8) (push_bit 8 1) = crc_bit ((crc_bit ^^ 7) (push_bit 8 1))"
    using funpow.simps(2) [of 7 crc_bit] by simp
  ultimately show ?thesis by (simp add: crc_bit_def)
qed

lemma crc_bits_double: "j < 128 \<Longrightarrow>
    crc_bit ((crc_bit ^^ 8) (push_bit 8 (word_of_nat j))) = (crc_bit ^^ 8) (push_bit 8 (word_of_nat (2 * j)))"
proof -
  assume "j < 128"
  then have "\<not> bit (push_bit 8 (word_of_nat j :: u16)) 15"
    by (simp add: bit_push_bit_iff bit_of_nat_iff del: push_bit_of_nat) (simp add: bit_iff_odd)
  then have "crc_bit (push_bit 8 (word_of_nat j)) = push_bit 1 (push_bit 8 (word_of_nat j))"
    by (rule crc_bit_low)
  also have "\<dots> = push_bit 8 (word_of_nat (2 * j))"
    by (simp add: push_bit_eq_mult)
  finally have "crc_bit (push_bit 8 (word_of_nat j)) = push_bit 8 (word_of_nat (2 * j))" .
  then show ?thesis by (simp only: funpow_swap1)
qed

lemma crc_table: "i < 256 \<Longrightarrow> g_usCrc16tab ! i = (crc_bit ^^ 8) (push_bit 8 (word_of_nat i))"
proof (induction i rule: less_induct)
  case (less i)
  show ?case
  proof (cases "i = 0")
    case True
    have "(crc_bit ^^ 8) 0 = 0" using crc_bits_low [of 8 0] by simp
    with True show ?thesis by (simp add: g_usCrc16tab_def)
  next
    case False
    define j where "j = i div 2"
    have j: "j < 128" "j < i" "j < 256" using less.prems False by (auto simp: j_def)
    note ih = less.IH [OF j(2,3)]
    consider "i = 2 * j" | "i = Suc (2 * j)" unfolding j_def by linarith
    then show ?thesis
    proof cases
      case 1
      then show ?thesis using crc_table_double(1) [OF j(1)] ih crc_bits_double [OF j(1)] by simp
    next
      case 2
      have "bit (word_of_nat (2 * j) :: u16) 0 = False" by (simp add: bit_simps)
      then have "(word_of_nat i :: u16) = word_of_nat (2 * j) XOR 1"
        using 2 by (simp add: xor_one_eq add.commute)
      then have "(crc_bit ^^ 8) (push_bit 8 (word_of_nat i))
          = (crc_bit ^^ 8) (push_bit 8 (word_of_nat (2 * j))) XOR 0x1021"
        by (simp only: push_bit_xor crc_bits_xor crc_of_one)
      then show ?thesis using crc_table_double(2) [OF j(1)] ih crc_bits_double [OF j(1)] 2 by simp
    qed
  qed
qed

lemma of_nat_unat_eq: "(word_of_nat (unat i) :: u16) = i"
  by (simp add: of_nat_unat)

lemma table_entry: "g_usCrc16tab ! unat (i AND 0x00FF) = (crc_bit ^^ 8) (push_bit 8 i)" for i :: u16
proof -
  have lt: "unat (i AND 0x00FF) < 256"
    using word_and_le1 [of i "0x00FF"] by (simp add: word_le_nat_alt)
  have "push_bit 8 (i AND 0x00FF) = push_bit 8 i"
  proof (rule bit_word_eqI)
    fix n assume "n < LENGTH(16)"
    then have "n < 8 \<or> n \<in> {8,9,10,11,12,13,14,15}" by auto
    then show "bit (push_bit 8 (i AND 0x00FF)) n = bit (push_bit 8 i) n"
      by (elim disjE insertE emptyE) (simp_all add: bit_simps)
  qed
  then show ?thesis unfolding crc_table [OF lt] by (simp only: of_nat_unat_eq)
qed

lemma crc16_step_byte: "crc16_step crc b = crc_byte crc b"
proof -
  have split: "crc = push_bit 8 (drop_bit 8 crc) XOR take_bit 8 crc"
    by (rule bit_word_eqI) (auto simp: bit_simps)
  have "crc_byte crc b = (crc_bit ^^ 8) (push_bit 8 (drop_bit 8 crc XOR ucast b) XOR take_bit 8 crc)"
    unfolding crc_byte_def by (subst split) (simp only: push_bit_xor ac_simps)
  also have "\<dots> = (crc_bit ^^ 8) (push_bit 8 (drop_bit 8 crc XOR ucast b)) XOR (crc_bit ^^ 8) (take_bit 8 crc)"
    by (rule crc_bits_xor)
  also have "(crc_bit ^^ 8) (take_bit 8 crc) = push_bit 8 (take_bit 8 crc)"
    by (rule crc_bits_low) (auto simp: bit_simps)
  also have "\<dots> = push_bit 8 crc"
    by (rule bit_word_eqI) (auto simp: bit_simps)
  finally show ?thesis by (simp only: crc16_step_def table_entry xor.commute)
qed

lemma crc16_is_reference: "COMM_API_CalculateCRC16 buf = crc_reference buf"
  by (simp add: COMM_API_CalculateCRC16_def crc_reference_def crc16_step_byte)

text \<open>A step can be undone, so two messages that differ in one byte have different sums.\<close>

lemma xor_right_cancel: "(a :: u16) XOR p = b XOR p \<Longrightarrow> a = b"
proof (rule bit_word_eqI)
  fix n assume "a XOR p = b XOR p"
  then have "bit (a XOR p) n = bit (b XOR p) n" by simp
  then show "bit a n = bit b n" by (auto simp: bit_xor_iff)
qed

lemma crc_bit_inj: "crc_bit x = crc_bit y \<Longrightarrow> x = y"
proof -
  assume e: "crc_bit x = crc_bit y"
  have "crc_bit (x XOR y) = 0" using e by (simp add: crc_bit_xor)
  define z where "z = x XOR y"
  have z0: "crc_bit z = 0" using \<open>crc_bit (x XOR y) = 0\<close> by (simp add: z_def)
  have "bit (0x1021 :: u16) 0" by simp
  then have "bit (crc_bit z) 0 = bit z 15"
    by (auto simp only: crc_bit_def bit_xor_iff bit_push_bit_iff split: if_splits)
  with z0 have nb: "\<not> bit z 15" by simp
  with z0 have "push_bit 1 z = 0" by (simp add: crc_bit_low)
  have "z = 0"
  proof (rule bit_word_eqI)
    fix n assume n: "n < LENGTH(16)"
    show "bit z n = bit (0 :: u16) n"
    proof (cases "n = 15")
      case False
      have "bit (push_bit 1 z) (Suc n) = bit z n" using n False by (simp only: bit_push_bit_iff) auto
      then show ?thesis using \<open>push_bit 1 z = 0\<close> by simp
    qed (use nb in simp)
  qed
  then have "x XOR y = y XOR y" by (simp add: z_def)
  then show "x = y" by (rule xor_right_cancel)
qed

lemma crc_bits_inj: "(crc_bit ^^ n) x = (crc_bit ^^ n) y \<Longrightarrow> x = y"
proof (induction n)
  case (Suc n)
  then have "crc_bit ((crc_bit ^^ n) x) = crc_bit ((crc_bit ^^ n) y)" by simp
  then show ?case by (rule Suc.IH [OF crc_bit_inj])
qed simp

lemma crc_byte_inj_state: "crc_byte c b = crc_byte c' b \<Longrightarrow> c = c'"
  unfolding crc_byte_def by (rule xor_right_cancel, rule crc_bits_inj)

lemma crc_byte_inj_byte: "crc_byte c b = crc_byte c b' \<Longrightarrow> b = b'"
proof -
  assume "crc_byte c b = crc_byte c b'"
  then have "c XOR push_bit 8 (ucast b) = c XOR push_bit 8 (ucast b')"
    unfolding crc_byte_def by (rule crc_bits_inj)
  then have "push_bit 8 (ucast b) XOR c = push_bit 8 (ucast b') XOR c"
    by (simp only: xor.commute [of _ c])
  then have e: "push_bit 8 (ucast b :: u16) = push_bit 8 (ucast b')" by (rule xor_right_cancel)
  show "b = b'"
  proof (rule bit_word_eqI)
    fix n assume n: "n < LENGTH(8)"
    have "bit (push_bit 8 (ucast b :: u16)) (n + 8) = bit (push_bit 8 (ucast b' :: u16)) (n + 8)"
      by (simp only: e)
    then show "bit b n = bit b' n"
      using n by (simp only: bit_push_bit_iff unsigned_ucast_eq bit_unsigned_iff) auto
  qed
qed

lemma crc_fold_inj: "fold (\<lambda>b c. crc_byte c b) bs c = fold (\<lambda>b c. crc_byte c b) bs c' \<Longrightarrow> c = c'"
  by (induction bs arbitrary: c c') (auto dest: crc_byte_inj_state)

lemma crc16_sees_changed_byte:
  "x \<noteq> y \<Longrightarrow> COMM_API_CalculateCRC16 (as @ x # bs) \<noteq> COMM_API_CalculateCRC16 (as @ y # bs)"
  by (auto simp: crc16_is_reference crc_reference_def dest: crc_fold_inj crc_byte_inj_byte)

text \<open>A message followed by its sum, high byte first, has the sum 0.\<close>

lemma crc16_residue:
  "COMM_API_CalculateCRC16 (m @ [byte_of (COMM_API_CalculateCRC16 m) 1, byte_of (COMM_API_CalculateCRC16 m) 0]) = 0"
proof -
  define c where "c = COMM_API_CalculateCRC16 m"
  have z: "(crc_bit ^^ 8) 0 = 0" using crc_bits_low [of 8 0] by simp
  have 1: "crc_byte c (byte_of c 1) = push_bit 8 (take_bit 8 c)"
  proof -
    have "c XOR push_bit 8 (ucast (byte_of c 1)) = take_bit 8 c"
      by (rule bit_word_eqI) (auto simp: byte_of_def bit_simps)
    then show ?thesis unfolding crc_byte_def
      by (simp only:) (rule crc_bits_low, auto simp: bit_simps)
  qed
  have 2: "push_bit 8 (take_bit 8 c) XOR push_bit 8 (ucast (byte_of c 0)) = 0"
    by (rule bit_word_eqI) (auto simp: byte_of_def bit_simps)
  have "crc_byte (push_bit 8 (take_bit 8 c)) (byte_of c 0) = 0"
    unfolding crc_byte_def 2 by (rule z)
  with 1 show ?thesis
    by (simp add: crc16_is_reference crc_reference_def c_def [unfolded crc16_is_reference crc_reference_def, symmetric])
qed

end
