(* ===== verification/Toolbox_Properties.thy ===== *)
theory Toolbox_Properties
  imports Dir_Size File_Api Comm_Crc
begin

text \<open>
  The properties of the directory quota, of the file functions and of the check sum of
  \<open>common/\<close>, with a small disk on which they are applied.
\<close>

section \<open>A disk\<close>

definition disk0 :: disk where
  "disk0 = \<lparr>entries = [([], Directory), (''/d'', Directory), (''/d/a'', Regular (replicate 600 1) 5),
      (''/d/s'', Directory), (''/d/s/b'', Regular (replicate 300 2) 3), (''/n'', Regular (replicate 500 3) 9)],
    no_list = [], no_read = [], no_write = [], no_unlink = [], clock = 10\<rparr>"

lemma disk0_wf: "wf_disk disk0"
  by code_simp

lemma disk0_short: "short_disk disk0"
  by code_simp

lemma disk0_fuel: "PATH_MAX \<le> 4096" "MAX_PATH_LENGTH \<le> 1024"
  by (simp_all add: PATH_MAX_def MAX_PATH_LENGTH_def)

section \<open>The directory quota\<close>





text \<open>C40 (error): A file saved into the directory it already lies in is lost, when the limit leaves room
  for a second copy of it, it can be read and written, and the directory can be listed: it is truncated
  before it is read, so it is left empty, nothing else changes, and the call reports success. (With
  less room the oldest files go first; the file itself may be among them, and the call then fails.)\<close>

theorem save_onto_itself_empties:
  assumes "wf_disk d" "PATH_MAX \<le> fuel" "\<not> fst (io 0)"
    and "lookup d (join dir n) = Some (Regular bs t)" "slash \<notin> set n"
    and "collect_files fuel d dir init_file_list = Some (DM_SUCCESS, l)"
    and "sum_sizes (below d dir) + int (length bs) \<le> max_kb * 1024"
    and "join dir n \<notin> set (no_read d)" "join dir n \<notin> set (no_write d)"
  shows "\<exists>d'. dm_save_file_to_dir fuel qs io dir (join dir n) max_kb d = Some (DM_SUCCESS, d')
     \<and> lookup d' (join dir n) = Some (Regular [] (clock d))
     \<and> (\<forall>q. q \<noteq> join dir n \<longrightarrow> lookup d' q = lookup d q)"
  using save_onto_itself [where io = io and max_kb = max_kb and qs = qs, OF assms] assms(4) by (simp add: disk_simps)

theorem save_onto_itself_empties_witness:
  "\<exists>d'. dm_save_file_to_dir 4096 qsort_ins (\<lambda>k. (False, 4096)) ''/d'' ''/d/a'' 2 disk0 = Some (DM_SUCCESS, d')
     \<and> lookup disk0 ''/d/a'' = Some (Regular (replicate 600 1) 5)
     \<and> lookup d' ''/d/a'' = Some (Regular [] 10)"
proof -
  have j: "join ''/d'' ''a'' = ''/d/a''" by (simp add: join_def slash_def)
  have l: "lookup disk0 (join ''/d'' ''a'') = Some (Regular (replicate 600 1) 5)"
    by (simp add: j disk0_def lookup_def)
  have n: "slash \<notin> set ''a''" by (simp add: slash_def)
  have c: "map_option fst (collect_files 4096 disk0 ''/d'' init_file_list) = Some DM_SUCCESS"
    by code_simp
  then obtain fl where c': "collect_files 4096 disk0 ''/d'' init_file_list = Some (DM_SUCCESS, fl)"
    by auto
  have s: "sum_sizes (below disk0 ''/d'') = 900" by code_simp
  have rw: "join ''/d'' ''a'' \<notin> set (no_read disk0)" "join ''/d'' ''a'' \<notin> set (no_write disk0)" "clock disk0 = 10"
    by (simp_all add: disk0_def)
  have f: "sum_sizes (below disk0 ''/d'') + int (length (replicate 600 (1 :: u8))) \<le> 2 * 1024"
    by (simp add: s)
  from save_onto_itself_empties [OF disk0_wf disk0_fuel(1) _ l n c' f rw(1,2), of "\<lambda>k. (False, 4096)" qsort_ins]
  show ?thesis using l by (simp add: j rw(3)) blast
qed

section \<open>Deleting a directory\<close>

text \<open>C38 (safety): On a disk without symbolic links, all of whose paths are shorter than 1024
  characters, \<open>COMM_deleteDirectory\<close> always ends and removes only files and directories at or below
  the path it is given; when it returns 0 nothing is left there; and it returns 0 when the path is a
  directory and the kernel refuses nothing inside it. (Links are outside the model: \<open>stat\<close> follows
  them, and longer paths are truncated.)\<close>

theorem deleting_stays_inside:
  assumes "short_disk d" "MAX_PATH_LENGTH \<le> fuel"
  shows "\<exists>r d' X. COMM_deleteDirectory fuel p d = Some (r, d') \<and> wf_disk d'
     \<and> X \<subseteq> {q. inside p q} \<and> d' = remove_files X d
     \<and> (r = 0 \<longrightarrow> (\<forall>q. inside p q \<longrightarrow> lookup d' q = None))
     \<and> (lookup d p = Some Directory \<and> deletable d p \<longrightarrow> r = 0)"
  using delete_directory_cleans [OF assms, of p] short_wf
  by (auto simp: clean_dir_def clears_def)

theorem deleting_stays_inside_witness:
  "\<exists>d'. COMM_deleteDirectory 1024 ''/d'' disk0 = Some (0, d') \<and> lookup d' ''/d/s/b'' = None
     \<and> lookup d' ''/n'' = lookup disk0 ''/n''"
proof -
  have i: "inside ''/d'' ''/d/s/b''" "\<not> inside ''/d'' ''/n''" "lookup disk0 ''/d'' = Some Directory"
    by code_simp+
  have "deletable disk0 ''/d''" by (simp add: deletable_def disk0_def)
  with deleting_stays_inside [OF disk0_short disk0_fuel(2), of "''/d''"] i
  show ?thesis by (force simp: disk_simps)
qed

section \<open>The check sum\<close>

text \<open>C39 (equivalence): The table-driven \<open>COMM_API_CalculateCRC16\<close> is the division of the message by the
  polynomial, bit by bit. So a message followed by its sum has the sum 0, and two messages that
  differ in one byte have different sums.\<close>

theorem crc16_is_polynomial_division:
  "COMM_API_CalculateCRC16 m = fold (\<lambda>b crc. (crc_bit ^^ 8) (crc XOR push_bit 8 (ucast b))) m 0
    \<and> COMM_API_CalculateCRC16 (m @ [byte_of (COMM_API_CalculateCRC16 m) 1, byte_of (COMM_API_CalculateCRC16 m) 0]) = 0
    \<and> (x = y \<or> COMM_API_CalculateCRC16 (as @ x # bs) \<noteq> COMM_API_CalculateCRC16 (as @ y # bs))"
  using crc16_residue [of m] crc16_sees_changed_byte [of x y as bs]
  by (auto simp: crc16_is_reference crc_reference_def crc_byte_def)

theorem crc16_is_polynomial_division_witness:
  "COMM_API_CalculateCRC16 [49, 50, 51] \<noteq> COMM_API_CalculateCRC16 [49, 50, 52]"
  using crc16_is_polynomial_division [of "[]" 51 52 "[49, 50]" "[]"] by simp

end
