(* ===== verification/Spec2Isabelle.thy ===== *)
theory Spec2Isabelle
  imports Kcp_Properties App_Properties Container_Properties Hello_Properties Common_Properties Media_Properties
    Crb_Properties Toolbox_Properties
begin

text \<open>
  A verification development for the native code of the application (\<open>app/src/main/cpp\<close>): a
  KCP transport over UDP, the hello exchange over TCP that gives it its key, the native methods
  through which Java drives both, and the containers and codecs of the common library. Paths below are relative to that directory.

  The program. \<open>kcp_wrapper.cpp\<close> and \<open>tcp_jni.cpp\<close> are called from Java. The TCP side
  (\<open>tcp_client.c\<close>) connects to the repeater, sends an encrypted hello frame, checks the
  encrypted answer and acknowledges it; it uses \<open>wo_aes.c\<close> (AES-CBC with padding, over
  mbedtls), \<open>repeater_aes.c\<close> (the registry of clients and the quadruple of the client itself:
  ip, mac, key, iv), \<open>aes_key_gen.c\<close> (random keys and key files) and \<open>common_sock.c\<close>
  (loops over \<open>select\<close>, \<open>send\<close> and \<open>recv\<close>). The UDP side drives one control block of
  \<open>ikcp/ikcp.c\<close>: the application queues messages with \<open>ikcp_send\<close>, a timer calls
  \<open>ikcp_update\<close>, which flushes acknowledgements and data segments into datagrams, received
  datagrams go to \<open>ikcp_input\<close>, and complete messages come out of \<open>ikcp_recv\<close>.

  Conventions. A C structure is a record, an enumeration a datatype, an \<open>IUINT32\<close> a 32-bit
  word, an \<open>int\<close> an \<open>int\<close> where the code cannot overflow it and the signed reading
  \<open>sint\<close> of a word where the code converts one. A function that can leave the defined
  behaviour of C returns a sum: \<open>Inl\<close> of a fault (failed assertion, access outside an object,
  null pointer, double free, use of an uninitialised value) or \<open>Inr\<close> of its ordinary result,
  error codes included. A null pointer is \<open>None\<close>. What the program cannot know is an argument:
  whether the \<open>i\<close>-th allocation of a call succeeds, what the system calls answer, the numbers
  of \<open>rand\<close>, the content of fresh memory, the block cipher. A list of answers that runs out is
  a call that still waits (\<open>None\<close> or \<open>Waiting\<close>).

  Theories.
  \<^item> Prelude: word types, faults, byte composition, lemmas on 32-bit words and their distances.
  \<^item> Kcp_Wire: constants, integer codecs, the segment header, \<open>_itimediff\<close>.
    Kcp_State: \<open>IKCPCB\<close>, \<open>ikcp_create\<close>, \<open>ikcp_release\<close>, the setters, and the
    invariants (\<open>kcp_inv\<close>: the counters count their queues, MTU, segment size and buffer agree,
    queued segments fit, both windows are sorted and bounded, the acknowledgement list fits its
    block, the timers are in range). Kcp_Send: \<open>ikcp_send\<close> in both modes. Kcp_Recv:
    \<open>ikcp_recv\<close>, \<open>ikcp_peeksize\<close> and the loop that releases segments in order. Kcp_Ack:
    \<open>ikcp_update_ack\<close>, \<open>ikcp_parse_una\<close>, \<open>ikcp_parse_ack\<close>,
    \<open>ikcp_parse_fastack\<close>, the list of pending acknowledgements. Kcp_Input:
    \<open>ikcp_parse_data\<close> and \<open>ikcp_input\<close>. Kcp_Flush: \<open>ikcp_flush\<close> in its stages
    (acknowledgements, probes, window move, data segments, congestion window),
    \<open>ikcp_update\<close> and \<open>ikcp_check\<close>. The intrusive lists of the C code are lists of
    segments, with the counters kept beside them as in the code.
  \<^item> Machine: reachability, the locale \<open>machine\<close> (an invariant kept by every step) and its
    extension \<open>simulation\<close> (an abstract machine that every step follows or stutters).
    Kcp_Machine: the control block under all calls of its interface, \<open>interpretation kcm\<close>.
    Kcp_Check: when \<open>ikcp_check\<close> answers what. Kcp_Flush_Spec: what a flush has to send, said
    without its functions (bytes of the headers, which segments are due, how many new ones), that
    it sends that, and how a segment longer than the buffer overruns it. Kcp_Frame: what each operation leaves alone.
  \<^item> Kcp_Link and Kcp_Channel: two endpoints and a network that may lose, repeat, reorder and
    delay every datagram of the sender, while the sender may be given any bytes; the machine
    refines a channel that delivers the messages sent in order and once each
    (\<open>interpretation lnk\<close> and \<open>chm\<close>). Kcp_Delivery: from an idle state one flush,
    delivered, brings a message across.
  \<^item> Kcp_Keeps: what every operation keeps of the configuration, and a receive queue that no
    operation can free. Kcp_Wrapper: the native methods of \<open>kcp_wrapper.cpp\<close> on their static
    variables (\<open>interpretation app\<close>); App_Delivery: a message between two wrappers.
    Tcp_Jni: the native methods of \<open>tcp_jni.cpp\<close> on a heap of clients, and the Java object
    that calls them (\<open>interpretation jni\<close>).
  \<^item> Wo_Aes, Repeater_Aes, Common_Sock, Aes_Key_Gen, Tcp_Client: the files of the same names.
  \<^item> Fifo: the contract of a queue as a locale (no operation faults, each answers what a list with
    limited room answers), with what follows for any run of operations;
    Element_Queue, Comm_Queue, Msg_Queue: the three queues of \<open>common/queue\<close> and their
    interpretations \<open>elq\<close>, \<open>cmq\<close>, \<open>msq\<close>; Char_Buf: the growing byte buffer of
    \<open>common/cbuf\<close>.
  \<^item> Memory: a block of bytes and copies into it; Codec and Fragments: the contracts of a codec
    and of cutting a list into pieces, as locales. Base64 (\<open>common/base64\<close>), Media_Slice
    (\<open>common/media_packet\<close>: frames cut into slices), Md5 (\<open>common/md5\<close>), G711 and
    G711_Error (\<open>common/media/g711a\<close> and \<open>common/media/mp4/g711codec.c\<close>: what a code stands
    for, and the error of a sample).
  \<^item> Ring_Buf (\<open>common/ringbuf.c\<close>: frames in a ring of bytes with a table of indexes),
    Task_Queue (\<open>common/task_queue\<close>: messages run by a thread, one step per round, refined by a
    list of messages with a count of events),
    State_Machine (\<open>common/state_machine\<close>: hierarchical states over a store).
  \<^item> The ring in shared memory (\<open>common/ringbuffer/CRingBuf.cpp\<close>: one producer, ten consumers,
    frames in a data area that is mapped twice). Crb_State: the header and the objects. Crb_Index:
    the searches over the table of frames. Crb_Hole: the black holes, regions that consumers hold
    behind the producer's back. Crb_Write, Crb_Read: the two sides. Crb_Safe: what room the producer
    is granted, as intervals of distances from its offset. Crb_Inv and Crb_Machine: every operation
    keeps the header well formed, and all processes together (\<open>interpretation crb\<close>). Rb_Api:
    \<open>ringbuffer.cpp\<close> and the media services. Crb_Trip: a frame from the writer to the
    reader. Crb_Held: concrete runs, evaluated by simplification.
  \<^item> Posix_Files: the file system the helpers of \<open>common/\<close> use, a list of entries under their
    paths with the calls \<open>readdir\<close>, \<open>unlink\<close>, \<open>rmdir\<close>, \<open>mkdir\<close>, \<open>open\<close> and \<open>write\<close>,
    any of which the kernel may refuse for a path. Dir_Size: the directory quota of
    \<open>common/dirsize_manager\<close>. File_Api, Comm_Api: the file functions and the computing functions
    of \<open>common/api/comm_api.c\<close>; Comm_Crc: its check sum as a division of polynomials.
  \<^item> Kcp_Properties, App_Properties, Client_Properties, Hello_Properties, Container_Properties,
    Common_Properties, Media_Properties, Crb_Properties, Toolbox_Properties: the properties, each followed by a
    witness at a concrete input.

  Groups of lemmas. In every component theory: what each operation computes on each branch
  (\<open>..._spec\<close>, \<open>..._eq\<close>), that it keeps the invariant (\<open>..._inv\<close>), that it cannot
  fault under it (\<open>..._total\<close>, \<open>..._no_fault\<close>), and what it leaves alone
  (\<open>..._frame\<close>, \<open>..._frames\<close>). The window comparisons are reduced to distances from a
  common base once (\<open>itimediff_from_base\<close>); the packing of pieces into datagrams is the
  predicate \<open>packed\<close>.

  Bounds and fuel. The loops over a datagram, a queue or a window recurse on a list and need no
  fuel; \<open>COMM_queue_free\<close>, whose loop never ends while allocations fail, and the walk over the
  chain of \<open>msg_queue\<close> take fuel, and the lemmas show that one step more than the number of
  nodes is enough. Writing a frame into a ring gets \<open>1000 * (n + 1)\<close> rounds and handling an event
  twice the height of the hierarchy, both enough in every reachable state; more fuel changes
  nothing. The recursions over directories get as much fuel as a path may have characters. A connection is followed for at most 2^31 segments, beyond which the sequence
  numbers of old datagrams could pass for new ones. The number of acknowledgements pending between
  two flushes is assumed below 2^30 (16 GB of memory), and \<open>int\<close> arguments are assumed to be in
  the range of an \<open>int\<close>.

  What the properties leave to the caller. \<open>ikcp_setmtu\<close> may only lower the MTU while
  everything queued still fits; the code does not check it and \<open>setmtu_overruns\<close> shows what
  happens otherwise; the machine of Kcp_Machine takes that step only with values that fit. \<open>ikcp_input\<close> is total when its allocations succeed; the code does not
  check the one for a new segment.

  Not modelled. The Java VM, of which the native methods see the answers as arguments; mbedtls
  (third-party headers and a prebuilt library: the two directions of AES-CBC are parameters related
  by \<open>cbc_pair\<close>, what the library documents); logging and hexadecimal dumps, except for the
  memory they write; \<open>ikcp_qprint\<close>, \<open>ikcp_log\<close> and the allocator hook; the second copies
  under \<open>common/\<close> of files that are modelled; and the parts of \<open>common/\<close> that consist of
  calls into libraries and services outside the repository: configuration and JSON
  (\<open>common/param_config\<close>, \<open>common/json\<close>, \<open>common/model\<close>), the network
  and radio helpers, the ALSA, AAC and MP4 wrappers, and the toolbox. Of \<open>comm_api.c\<close> the
  functions that run shell commands, print, read \<open>/proc\<close> or format times are left out; paths have
  no doubled or trailing slashes and the model of the file system has no links. Of the
  ring in shared memory the mapping of the file, the mutex (an operation is one step, or one for every time it takes the lock) and the debug
  dumps are left out, and addresses are offsets that compare as valid, as they do where the area is
  mapped below 4 GB (\<open>CRB_VALID_ADDRESS\<close> compares with \<open>0xFFFFFFF0\<close>). A request for a frame
  releases the lock between its rounds: \<open>writeOpen\<close> and \<open>writeRound\<close> of the machine are its parts one
  by one, between which the other processes move, and \<open>writeFrame\<close> is the request that nobody disturbs.
  The native methods of \<open>kcp_wrapper.cpp\<close> are
  called one after the other; \<open>KcpClient.kt\<close> calls them from two threads without a lock, and what
  interleaved calls do is not modelled. An \<open>int\<close> or \<open>long\<close> that the code computes without a check
  is unbounded here where real sizes keep it small: the \<open>2 * n\<close> of \<open>g711a_decode\<close>, the
  \<open>max_size_kb * 1024\<close> of the directory quota. \<open>COMM_deleteDirectory\<close> follows symbolic links in the code;
  on a disk without them, and with paths that fit its buffers, its property says what it removes.
\<close>

end
